(* ===== verification/Prelude.thy ===== *)
theory Prelude
  imports Main "HOL-Library.Word" "HOL-Library.Sublist" "HOL-Library.List_Lexorder"
    "HOL-Library.Multiset"
begin

section \<open>Characters, C strings and generic lemmas\<close>

text \<open>
  The vocabulary every component shares. A C string is a list of characters without its
  terminating NUL; a \<open>char *\<close> that walks a buffer is either the suffix it points at
  or an index into the buffer, and reading the terminator gives \<open>NUL\<close>
  (\<open>cat s i\<close>). A pointer that may be NULL is an \<open>option\<close>. The character classes
  are those of the C locale (\<open>ctype.h\<close>) and the macros \<open>my_isspace\<close>
  (include/ircaux.h) and \<open>risspace\<close> (source/ircaux.c).
\<close>

named_theorems ctype_simps \<open>definitions of the character classes\<close>

type_synonym cstr = string

abbreviation NUL :: char where "NUL \<equiv> CHR 0x00"
abbreviation ord :: "char \<Rightarrow> nat" where "ord c \<equiv> of_char c"

definition cat :: "cstr \<Rightarrow> nat \<Rightarrow> char" where
  "cat s i = (if i < length s then s ! i else NUL)"

definition my_isspace :: "char \<Rightarrow> bool" where
  "my_isspace c \<longleftrightarrow> ord c \<in> {9, 10, 11, 12, 13, 32 :: nat}"

definition risspace :: "char \<Rightarrow> bool" where
  "risspace c \<longleftrightarrow> c = CHR '' ''"

definition is_digit :: "char \<Rightarrow> bool" where
  "is_digit c \<longleftrightarrow> 48 \<le> ord c \<and> ord c \<le> (57 :: nat)"

definition is_lower :: "char \<Rightarrow> bool" where
  "is_lower c \<longleftrightarrow> 97 \<le> ord c \<and> ord c \<le> (122 :: nat)"

definition is_upper :: "char \<Rightarrow> bool" where
  "is_upper c \<longleftrightarrow> 65 \<le> ord c \<and> ord c \<le> (90 :: nat)"

definition is_graph :: "char \<Rightarrow> bool" where
  "is_graph c \<longleftrightarrow> 33 \<le> ord c \<and> ord c \<le> (126 :: nat)"

definition c_toupper :: "char \<Rightarrow> char" where
  "c_toupper c = (if is_lower c then char_of (ord c - 32 :: nat) else c)"

definition c_tolower :: "char \<Rightarrow> char" where
  "c_tolower c = (if is_upper c then char_of (ord c + 32 :: nat) else c)"

text \<open>\<open>strchr(g, c) != NULL\<close>: the terminator of \<open>g\<close> counts as a member.\<close>

definition strchr :: "cstr \<Rightarrow> char \<Rightarrow> bool" where
  "strchr g c \<longleftrightarrow> c \<in> set g \<or> c = NUL"

lemmas [ctype_simps] = my_isspace_def risspace_def is_digit_def is_lower_def is_upper_def
  is_graph_def c_toupper_def c_tolower_def

subsection \<open>Reading a string\<close>

lemma cat_in [simp]: "i < length s \<Longrightarrow> cat s i = s ! i"
  by (simp add: cat_def)

lemma cat_out [simp]: "length s \<le> i \<Longrightarrow> cat s i = NUL"
  by (simp add: cat_def)

lemma cat_Cons_0 [simp]: "cat (c # s) 0 = c"
  by (simp add: cat_def)

lemma cat_Cons_Suc [simp]: "cat (c # s) (Suc i) = cat s i"
  by (simp add: cat_def)

lemma cat_Nil [simp]: "cat [] i = NUL"
  by (simp add: cat_def)

lemma cat_drop [simp]: "cat (drop n s) i = cat s (n + i)"
  by (auto simp: cat_def)

lemma ord_less_256 [simp]: "ord c < (256 :: nat)"
  by (metis of_char_of of_char_mod_256 mod_less_divisor zero_less_numeral)

lemma ord_eq_iff: "(ord c :: nat) = ord d \<longleftrightarrow> c = d"
  by simp

lemma ord_char_of: "n < 256 \<Longrightarrow> ord (char_of n) = (n :: nat)"
  by simp

text \<open>Evaluation compares characters as binary integers.\<close>

abbreviation icode :: "char \<Rightarrow> int" where "icode c \<equiv> of_char c"

lemma int_ord: "int (ord c) = icode c"
  by (rule of_nat_of_char)

lemma is_digit_code [code]: "is_digit c \<longleftrightarrow> 48 \<le> icode c \<and> icode c \<le> 57"
  unfolding is_digit_def int_ord [symmetric] by simp

lemma is_lower_code [code]: "is_lower c \<longleftrightarrow> 97 \<le> icode c \<and> icode c \<le> 122"
  unfolding is_lower_def int_ord [symmetric] by simp

lemma is_upper_code [code]: "is_upper c \<longleftrightarrow> 65 \<le> icode c \<and> icode c \<le> 90"
  unfolding is_upper_def int_ord [symmetric] by simp

lemma my_isspace_code [code]: "my_isspace c \<longleftrightarrow> 9 \<le> icode c \<and> icode c \<le> 13 \<or> icode c = 32"
  unfolding my_isspace_def int_ord [symmetric] by auto

lemma c_toupper_code [code]: "c_toupper c = (if is_lower c then char_of (icode c - 32) else c)"
  unfolding c_toupper_def is_lower_def int_ord [symmetric]
  by (simp flip: char_of_nat [where 'a = int] add: of_nat_diff)

lemma c_tolower_code [code]: "c_tolower c = (if is_upper c then char_of (icode c + 32) else c)"
  unfolding c_tolower_def int_ord [symmetric]
  by (simp flip: char_of_nat [where 'a = int])

subsection \<open>Case folding\<close>

lemma ord_diff_mod [simp]: "(ord c - n) mod 256 = (ord c - n :: nat)"
proof -
  have "ord c - n < (256 :: nat)" using ord_less_256 [of c] by linarith
  then show ?thesis by simp
qed

lemma ord_toupper: "ord (c_toupper c) = (if is_lower c then ord c - 32 else ord c :: nat)"
  by (simp add: c_toupper_def)

lemma ord_tolower: "ord (c_tolower c) = (if is_upper c then ord c + 32 else ord c :: nat)"
  by (auto simp: c_tolower_def is_upper_def)

lemma toupper_idem [simp]: "c_toupper (c_toupper c) = c_toupper c"
  by (rule iffD1 [OF ord_eq_iff]) (auto simp: ord_toupper is_lower_def)

lemma tolower_idem [simp]: "c_tolower (c_tolower c) = c_tolower c"
  by (rule iffD1 [OF ord_eq_iff]) (auto simp: ord_tolower is_upper_def)

lemma not_lower_toupper [simp]: "\<not> is_lower (c_toupper c)"
  by (auto simp: is_lower_def ord_toupper)

lemma toupper_tolower_iff: "c_toupper c = c_toupper d \<longleftrightarrow> c_tolower c = c_tolower d"
proof -
  have "(ord (c_toupper c) = (ord (c_toupper d) :: nat)) = (ord (c_tolower c) = (ord (c_tolower d) :: nat))"
    by (auto simp only: ord_toupper ord_tolower is_lower_def is_upper_def split: if_splits)
  then show ?thesis by (simp only: ord_eq_iff)
qed

lemma NUL_ord [simp]: "ord NUL = (0 :: nat)"
  by simp

lemma toupper_NUL_iff [simp]: "c_toupper c = NUL \<longleftrightarrow> c = NUL"
proof -
  have "(ord (c_toupper c) = (0 :: nat)) = (ord c = (0 :: nat))"
    by (auto simp only: ord_toupper is_lower_def split: if_splits)
  then show ?thesis by (metis NUL_ord ord_eq_iff)
qed

lemma toupper_NUL [simp]: "c_toupper NUL = NUL"
  by simp

lemma tolower_NUL_iff [simp]: "c_tolower c = NUL \<longleftrightarrow> c = NUL"
proof -
  have "(ord (c_tolower c) = (0 :: nat)) = (ord c = (0 :: nat))"
    by (auto simp only: ord_tolower is_upper_def split: if_splits)
  then show ?thesis by (metis NUL_ord ord_eq_iff)
qed

lemma tolower_NUL [simp]: "c_tolower NUL = NUL"
  by simp

lemma my_isspace_NUL [simp]: "\<not> my_isspace NUL"
  by (simp add: my_isspace_def)

lemma risspace_my_isspace: "risspace c \<Longrightarrow> my_isspace c"
  by (simp add: risspace_def my_isspace_def)

subsection \<open>Lists\<close>

declare dropWhile_eq_Nil_conv [simp del]

lemma takeWhile_dropWhile_len: "length (takeWhile P xs) + length (dropWhile P xs) = length xs"
  by (metis length_append takeWhile_dropWhile_id)

lemma find_append_None: "find P xs = None \<Longrightarrow> find P (xs @ ys) = find P ys"
  by (induction xs) (auto split: if_splits)

lemma dropWhile_hd: "dropWhile P xs = y # ys \<Longrightarrow> \<not> P y"
  by (metis dropWhile_eq_Cons_conv)

lemma length_dropWhile_Suc [simp]: "length (dropWhile P xs) < Suc (length xs)"
  by (simp add: length_dropWhile_le le_imp_less_Suc)

end
