(* ===== verification/CString.thy ===== *)
theory CString
  imports Prelude
begin

section \<open>The string routines of source/ircaux.c\<close>

text \<open>
  Searching, comparing, copying and formatting of C strings (source/ircaux.c, and the
  fallback \<open>strlcpy\<close>, \<open>strlcat\<close> of source/compat.c). A routine that returns a
  pointer into its argument returns the suffix at that pointer.
\<close>

subsection \<open>Case-insensitive comparison\<close>

definition stricmp_table :: "nat list" where
  "stricmp_table =
   [0, 1, 2, 3, 4, 5, 6, 7, 8, 9, 10, 11, 12, 13, 14, 15,
    16, 17, 18, 19, 20, 21, 22, 23, 24, 25, 26, 27, 28, 29, 30, 31,
    32, 33, 34, 35, 36, 37, 38, 39, 40, 41, 42, 43, 44, 45, 46, 47,
    48, 49, 50, 51, 52, 53, 54, 55, 56, 57, 58, 59, 60, 61, 62, 63,
    64, 65, 66, 67, 68, 69, 70, 71, 72, 73, 74, 75, 76, 77, 78, 79,
    80, 81, 82, 83, 84, 85, 86, 87, 88, 89, 90, 91, 92, 93, 94, 95,
    96, 65, 66, 67, 68, 69, 70, 71, 72, 73, 74, 75, 76, 77, 78, 79,
    80, 81, 82, 83, 84, 85, 86, 87, 88, 89, 90, 91, 92, 93, 126, 127,
    128, 129, 130, 131, 132, 133, 134, 135, 136, 137, 138, 139, 140, 141, 142, 143,
    144, 145, 146, 147, 148, 149, 150, 151, 152, 153, 154, 155, 156, 157, 158, 159,
    160, 161, 162, 163, 164, 165, 166, 167, 168, 169, 170, 171, 172, 173, 174, 175,
    176, 177, 178, 179, 180, 181, 182, 183, 184, 185, 186, 187, 188, 189, 190, 191,
    192, 193, 194, 195, 196, 197, 198, 199, 200, 201, 202, 203, 204, 205, 206, 207,
    208, 209, 210, 211, 212, 213, 214, 215, 216, 217, 218, 219, 220, 221, 222, 223,
    224, 225, 226, 227, 228, 229, 230, 231, 232, 233, 234, 235, 236, 237, 238, 239,
    240, 241, 242, 243, 244, 245, 246, 247, 248, 249, 250, 251, 252, 253, 254, 255]"

abbreviation foldc :: "char \<Rightarrow> nat" where
  "foldc c \<equiv> stricmp_table ! ord c"

fun my_stricmp :: "cstr \<Rightarrow> cstr \<Rightarrow> int" where
  "my_stricmp (a # s) (b # t) =
     (if foldc a = foldc b then my_stricmp s t else int (foldc a) - int (foldc b))"
| "my_stricmp s t = int (foldc (cat s 0)) - int (foldc (cat t 0))"

fun my_strnicmp :: "cstr \<Rightarrow> cstr \<Rightarrow> nat \<Rightarrow> int" where
  "my_strnicmp s t 0 = 0"
| "my_strnicmp (a # s) (b # t) (Suc n) =
     (if foldc a = foldc b then my_strnicmp s t n else int (foldc a) - int (foldc b))"
| "my_strnicmp s t (Suc n) = int (foldc (cat s 0)) - int (foldc (cat t 0))"

text \<open>\<open>strcmp\<close> and \<open>strncmp\<close> of the C library: bytes compared as \<open>unsigned char\<close>.\<close>

fun strcmp :: "cstr \<Rightarrow> cstr \<Rightarrow> int" where
  "strcmp (a # s) (b # t) = (if a = b then strcmp s t else int (ord a) - int (ord b))"
| "strcmp s t = int (ord (cat s 0)) - int (ord (cat t 0))"

text \<open>\<open>scanstr\<close>: 1 + the first position of \<open>str\<close> in \<open>source\<close>, or 0.\<close>

fun scanstr_loop :: "cstr \<Rightarrow> cstr \<Rightarrow> nat \<Rightarrow> nat \<Rightarrow> nat" where
  "scanstr_loop str source i 0 = 0"
| "scanstr_loop str source i (Suc k) =
     (if my_strnicmp source str (length str) = 0 then i + 1
      else scanstr_loop str (tl source) (i + 1) k)"

definition scanstr :: "cstr \<Rightarrow> cstr \<Rightarrow> nat" where
  "scanstr str source =
     (if length source < length str then 0
      else scanstr_loop str source 0 (Suc (length source - length str)))"

definition end_strcmp :: "cstr \<Rightarrow> cstr \<Rightarrow> nat \<Rightarrow> int" where
  "end_strcmp one two bytes =
     (if bytes < length one then strcmp (drop (length one - bytes) one) two else - 1)"

fun streq :: "cstr \<Rightarrow> cstr \<Rightarrow> nat" where
  "streq (a # s) (b # t) = (if a = b then Suc (streq s t) else 0)"
| "streq s t = 0"

fun strieq :: "cstr \<Rightarrow> cstr \<Rightarrow> nat" where
  "strieq (a # s) (b # t) = (if c_toupper a = c_toupper b then Suc (strieq s t) else 0)"
| "strieq s t = 0"

subsection \<open>Case conversion and substring search\<close>

definition upper :: "cstr \<Rightarrow> cstr" where
  "upper s = map (\<lambda>c. if is_lower c then c_toupper c else c) s"

definition lower :: "cstr \<Rightarrow> cstr" where
  "lower s = map (\<lambda>c. if is_upper c then c_tolower c else c) s"

function stristr_loop :: "cstr \<Rightarrow> cstr \<Rightarrow> nat \<Rightarrow> cstr option" where
  "stristr_loop source search x =
     (case source of
        [] \<Rightarrow> None
      | c # rest \<Rightarrow>
          if x < length source \<and> c_toupper (cat source x) = c_toupper (cat search x)
          then stristr_loop source search (Suc x)
          else if cat search x \<noteq> NUL then stristr_loop rest search 0
          else Some source)"
  by pat_completeness auto
termination
  by (relation "measures [\<lambda>(source, search, x). length source,
                          \<lambda>(source, search, x). length source - x]") auto

definition stristr :: "cstr \<Rightarrow> cstr \<Rightarrow> cstr option" where
  "stristr source search =
     (if source = [] \<or> search = [] \<or> length source < length search then None
      else stristr_loop source search 0)"

text \<open>\<open>rstristr\<close> walks \<open>ptr\<close>, here an index, back from the last possible position.\<close>

function rstristr_loop :: "cstr \<Rightarrow> cstr \<Rightarrow> nat \<Rightarrow> nat \<Rightarrow> cstr option" where
  "rstristr_loop source search ptr x =
     (if length search \<le> x then Some (drop ptr source)
      else if c_toupper (cat source (ptr + x)) = c_toupper (cat search x)
      then rstristr_loop source search ptr (Suc x)
      else if ptr = 0 then None
      else rstristr_loop source search (ptr - 1) 0)"
  by pat_completeness auto
termination
  by (relation "measures [\<lambda>(source, search, ptr, x). ptr,
                          \<lambda>(source, search, ptr, x). length search - x]") auto

definition rstristr :: "cstr \<Rightarrow> cstr \<Rightarrow> cstr option" where
  "rstristr source search =
     (if source = [] \<or> search = [] \<or> length source < length search then None
      else rstristr_loop source search (length source - length search) 0)"

declare stristr_loop.simps [simp del] rstristr_loop.simps [simp del]

subsection \<open>Searching for a character of a set\<close>

fun first_in :: "(char \<Rightarrow> bool) \<Rightarrow> cstr \<Rightarrow> cstr option" where
  "first_in P [] = None"
| "first_in P (c # s) = (if P c then Some (c # s) else first_in P s)"

definition sindex :: "cstr \<Rightarrow> cstr \<Rightarrow> cstr option" where
  "sindex str grp =
     (if cat grp 0 = CHR ''^'' then first_in (\<lambda>c. c \<notin> set (tl grp)) str
      else first_in (\<lambda>c. c \<in> set grp) str)"

function rsindex_loop :: "(char \<Rightarrow> bool) \<Rightarrow> cstr \<Rightarrow> nat \<Rightarrow> nat \<Rightarrow> int \<Rightarrow> nat option" where
  "rsindex_loop P buf start ptr howmany =
     (if ptr < start \<or> howmany = 0 then None
      else let howmany' = (if P (cat buf ptr) then howmany - 1 else howmany)
           in if P (cat buf ptr) \<and> howmany' = 0 then Some ptr
              else if ptr = 0 then None
              else rsindex_loop P buf start (ptr - 1) howmany')"
  by pat_completeness auto
termination
  by (relation "measure (\<lambda>(P, buf, start, ptr, howmany). ptr)") auto

declare rsindex_loop.simps [simp del]

text \<open>
  \<open>rsindex\<close> gets two pointers into one buffer, \<open>start\<close> and \<open>string\<close>; the model
  has the buffer and both positions.
\<close>

definition rsindex :: "cstr \<Rightarrow> nat \<Rightarrow> nat \<Rightarrow> cstr \<Rightarrow> int \<Rightarrow> nat option" where
  "rsindex buf string start grp howmany =
     (if howmany \<noteq> 0 \<and> start \<le> string
      then if cat grp 0 = CHR ''^''
           then rsindex_loop (\<lambda>c. \<not> strchr (tl grp) c) buf start string howmany
           else rsindex_loop (\<lambda>c. strchr grp c) buf start string howmany
      else None)"

text \<open>\<open>search\<close> of source/words.c, over a buffer and the position of the mark.\<close>

fun search_fwd :: "cstr \<Rightarrow> cstr \<Rightarrow> nat option \<Rightarrow> nat \<Rightarrow> nat option" where
  "search_fwd buf chars mark 0 = mark"
| "search_fwd buf chars None (Suc n) = None"
| "search_fwd buf chars (Some m) (Suc n) =
     (if m < length buf
      then search_fwd buf chars
             (map_option (\<lambda>t. length buf - length t) (sindex (drop (Suc m) buf) chars)) n
      else Some m)"

definition search :: "cstr \<Rightarrow> nat option \<Rightarrow> cstr \<Rightarrow> int \<Rightarrow> nat option" where
  "search buf mark chars how =
     (let m = (case mark of None \<Rightarrow> 0 | Some m \<Rightarrow> m)
      in if 0 < how
         then search_fwd buf chars
                (map_option (\<lambda>t. length buf - length t) (sindex (drop m buf) chars))
                (nat (how - 1))
         else if how = 0 then None
         else rsindex buf m 0 chars (- how))"

subsection \<open>Numbers\<close>

text \<open>
  \<open>strtol(s, &end, 10)\<close> of the C library: leading white space, an optional sign, digits;
  without a digit the value is 0 and \<open>end\<close> is the start. The value is clamped to the
  64-bit \<open>long\<close>.
\<close>

abbreviation LONG_MAX :: int where "LONG_MAX \<equiv> 9223372036854775807"
abbreviation LONG_MIN :: int where "LONG_MIN \<equiv> - 9223372036854775808"

fun digits_val :: "int \<Rightarrow> cstr \<Rightarrow> int" where
  "digits_val acc [] = acc"
| "digits_val acc (c # s) =
     (if is_digit c then digits_val (acc * 10 + (int (ord c) - 48)) s else acc)"

lemma digits_val_code [code]:
  "digits_val acc [] = acc"
  "digits_val acc (c # s) = (if is_digit c then digits_val (acc * 10 + (icode c - 48)) s else acc)"
  by (simp_all only: digits_val.simps int_ord)

definition strtol10 :: "cstr \<Rightarrow> int \<times> cstr" where
  "strtol10 s =
     (let t = dropWhile my_isspace s;
          neg = (cat t 0 = CHR ''-'');
          u = (if cat t 0 = CHR ''-'' \<or> cat t 0 = CHR ''+'' then tl t else t)
      in if is_digit (cat u 0)
         then (let v = (if neg then - digits_val 0 u else digits_val 0 u)
               in (max LONG_MIN (min LONG_MAX v), dropWhile is_digit u))
         else (0, s))"

definition my_atol :: "cstr option \<Rightarrow> int" where
  "my_atol str = (case str of Some s \<Rightarrow> fst (strtol10 s) | None \<Rightarrow> 0)"

text \<open>The conversion of a \<open>long\<close> to a 32-bit \<open>int\<close> keeps the low 32 bits.\<close>

definition to_int32 :: "int \<Rightarrow> int" where
  "to_int32 i = (i + 2147483648) mod 4294967296 - 2147483648"

definition parse_number :: "cstr \<Rightarrow> int \<times> cstr" where
  "parse_number ptr =
     (let (ret, rest) = strtol10 ptr
      in (to_int32 (if length rest = length ptr then - 1 else ret), rest))"

definition digit_char :: "nat \<Rightarrow> char" where
  "digit_char d = char_of (d + 48)"

fun ltoa_digits :: "nat \<Rightarrow> cstr \<Rightarrow> cstr" where
  "ltoa_digits absv pos =
     (if 9 < absv then ltoa_digits (absv div 10) (digit_char (absv mod 10) # pos)
      else digit_char absv # pos)"

declare ltoa_digits.simps [simp del]

definition ltoa :: "int \<Rightarrow> cstr" where
  "ltoa foo =
     (let s = ltoa_digits (nat \<bar>foo\<bar>) [] in if foo < 0 then CHR ''-'' # s else s)"

definition is_number :: "cstr \<Rightarrow> bool" where
  "is_number str =
     (str \<noteq> [] \<and>
      (let s = dropWhile (\<lambda>c. c = CHR '' '') str;
           t = (if cat s 0 = CHR ''-'' \<or> cat s 0 = CHR ''+'' then tl s else s)
       in t \<noteq> [] \<and> list_all is_digit t))"

fun comma_loop :: "nat \<Rightarrow> cstr \<Rightarrow> cstr" where
  "comma_loop 0 s = []"
| "comma_loop (Suc n) s =
     cat s 0 # (if n mod 3 = 0 \<and> n \<noteq> 0 then CHR '','' # comma_loop n (tl s) else comma_loop n (tl s))"

definition slongcomma :: "cstr \<Rightarrow> cstr" where
  "slongcomma val =
     (let len = length val; r = len mod 3
      in take r val @ (if 3 < len \<and> r \<noteq> 0 then '','' else []) @ comma_loop (len - r) (drop r val))"

definition longcomma :: "int \<Rightarrow> cstr" where
  "longcomma val = slongcomma (ltoa val)"

definition ulongcomma :: "nat \<Rightarrow> cstr" where
  "ulongcomma val = slongcomma (ltoa_digits val [])"

subsection \<open>Copying and building strings\<close>

text \<open>\<open>strext(start, end)\<close>: both pointers are positions in \<open>buf\<close>.\<close>

definition strext :: "cstr \<Rightarrow> nat \<Rightarrow> nat \<Rightarrow> cstr" where
  "strext buf start e = take (e - start) (drop start buf)"

definition strlcpy :: "cstr \<Rightarrow> cstr \<Rightarrow> nat \<Rightarrow> cstr \<times> nat" where
  "strlcpy dst src siz = ((if siz = 0 then dst else take (siz - 1) src), length src)"

definition strlcat :: "cstr \<Rightarrow> cstr \<Rightarrow> nat \<Rightarrow> cstr \<times> nat" where
  "strlcat dst src siz =
     (if siz \<le> length dst then (dst, siz + length src)
      else (dst @ take (siz - length dst - 1) src, length dst + length src))"

definition strmcpy :: "cstr \<Rightarrow> nat \<Rightarrow> cstr" where
  "strmcpy src maxlen = fst (strlcpy [] src (maxlen + 1))"

definition strmcat :: "cstr \<Rightarrow> cstr \<Rightarrow> nat \<Rightarrow> cstr" where
  "strmcat dest src maxlen = fst (strlcat dest src (maxlen + 1))"

definition m_3cat :: "cstr option \<Rightarrow> cstr option \<Rightarrow> cstr option \<Rightarrow> cstr" where
  "m_3cat one two three =
     (case one of None \<Rightarrow> [] | Some s \<Rightarrow> s) @ (case two of None \<Rightarrow> [] | Some s \<Rightarrow> s) @
     (case three of None \<Rightarrow> [] | Some s \<Rightarrow> s)"

definition m_s3cat :: "cstr option \<Rightarrow> cstr \<Rightarrow> cstr \<Rightarrow> cstr option" where
  "m_s3cat one maybe definitely =
     (if one \<noteq> None \<and> one \<noteq> Some [] then Some (m_3cat one (Some maybe) (Some definitely))
      else Some definitely)"

definition m_s3cat_s :: "cstr option \<Rightarrow> cstr \<Rightarrow> cstr option \<Rightarrow> cstr option" where
  "m_s3cat_s one maybe ifthere =
     (case ifthere of
        Some (c # s) \<Rightarrow> Some (m_3cat one (Some maybe) (Some (c # s)))
      | _ \<Rightarrow> one)"

fun strcat_ues_loop :: "cstr \<Rightarrow> cstr" where
  "strcat_ues_loop [] = []"
| "strcat_ues_loop [c] = [c]"
| "strcat_ues_loop (c # d # s) =
     (if c = CHR 0x5C
      then (if d \<in> {CHR ''n'', CHR ''p'', CHR ''r'', CHR ''0''} then CHR 0x10 else d) # strcat_ues_loop s
      else c # strcat_ues_loop (d # s))"

definition m_strcat_ues :: "cstr option \<Rightarrow> cstr \<Rightarrow> bool \<Rightarrow> cstr" where
  "m_strcat_ues dest src unescape =
     (case dest of None \<Rightarrow> [] | Some d \<Rightarrow> d) @ (if unescape then strcat_ues_loop src else src)"

definition chop :: "cstr \<Rightarrow> int \<Rightarrow> cstr" where
  "chop stuff nchar =
     (if 0 < nchar \<and> stuff \<noteq> [] \<and> nchar \<le> int (length stuff)
      then take (length stuff - nat nchar) stuff
      else if nchar < 0 \<or> int (length stuff) < nchar then [] else stuff)"

definition strextend :: "cstr \<Rightarrow> char \<Rightarrow> nat \<Rightarrow> cstr" where
  "strextend str app num = str @ replicate num app"

fun double_quote :: "cstr \<Rightarrow> cstr \<Rightarrow> cstr" where
  "double_quote [] stuff = []"
| "double_quote (c # str) stuff =
     (if strchr stuff c then [if c = CHR ''$'' then CHR ''$'' else CHR 0x5C] else []) @
     c # double_quote str stuff"

subsection \<open>Scanning and rewriting\<close>

fun mb_loop :: "char \<Rightarrow> char \<Rightarrow> nat \<Rightarrow> cstr \<Rightarrow> cstr option" where
  "mb_loop l r bracket_count [] = None"
| "mb_loop l r bracket_count [c] =
     (if c = l then None else if c = r \<and> bracket_count = 1 then Some [c] else None)"
| "mb_loop l r bracket_count (c # d # s) =
     (if c = CHR 0x5C then mb_loop l r bracket_count s
      else if c = l then mb_loop l r (bracket_count + 1) (d # s)
      else if c = r then (if bracket_count = 1 then Some (c # d # s)
                          else mb_loop l r (bracket_count - 1) (d # s))
      else mb_loop l r bracket_count (d # s))"

definition MatchingBracket :: "cstr \<Rightarrow> char \<Rightarrow> char \<Rightarrow> cstr option" where
  "MatchingBracket str left right =
     (if left = CHR ''('' then mb_loop (CHR ''('') (CHR '')'') 1 str
      else if left = CHR ''['' then mb_loop (CHR ''['') (CHR '']'') 1 str
      else mb_loop left right 1 str)"

definition empty :: "cstr option \<Rightarrow> bool" where
  "empty str = (case str of None \<Rightarrow> True | Some s \<Rightarrow> dropWhile (\<lambda>c. c = CHR '' '') s = [])"

definition next_in_comma_list :: "cstr \<Rightarrow> cstr \<times> cstr" where
  "next_in_comma_list str =
     (takeWhile (\<lambda>c. c \<noteq> CHR '','') str,
      (case dropWhile (\<lambda>c. c \<noteq> CHR '','') str of [] \<Rightarrow> [] | c # after \<Rightarrow> after))"

definition strip_control :: "cstr \<Rightarrow> cstr" where
  "strip_control src = filter (\<lambda>c. is_graph c \<or> my_isspace c) src"

fun mask_digits :: "cstr \<Rightarrow> cstr" where
  "mask_digits [] = []"
| "mask_digits (c # s) =
     (if is_digit c then CHR ''*'' # mask_digits (dropWhile is_digit s) else c # mask_digits s)"

fun ccspan :: "cstr \<Rightarrow> char \<Rightarrow> nat" where
  "ccspan [] c = 0"
| "ccspan (d # s) c = (if d \<noteq> c then Suc (ccspan s c) else 0)"

fun charcount :: "cstr \<Rightarrow> char \<Rightarrow> nat" where
  "charcount [] what = 0"
| "charcount (c # s) what = (if c = what then Suc (charcount s what) else charcount s what)"

definition chomp :: "cstr \<Rightarrow> cstr" where
  "chomp s = rev (dropWhile (\<lambda>c. c = CHR 0x0A) (rev s))"

fun strip_chars :: "cstr \<Rightarrow> cstr \<Rightarrow> char \<Rightarrow> cstr option" where
  "strip_chars buffer [] replace = Some buffer"
| "strip_chars buffer (c # strip) replace =
     (if buffer = [] \<or> replace = NUL then Some buffer
      else if c = replace \<and> c \<in> set buffer then None
      else strip_chars (map (\<lambda>b. if b = c then replace else b) buffer) strip replace)"

text \<open>
  \<open>strnrchr\<close>: the \<open>howmany\<close>-th occurrence of \<open>which\<close> from the end. The loop
  stops at the start of the buffer and then returns NULL even when the character there
  is a match.
\<close>

fun strnrchr_loop :: "cstr \<Rightarrow> char \<Rightarrow> nat \<Rightarrow> nat \<Rightarrow> nat" where
  "strnrchr_loop start which 0 howmany = 0"
| "strnrchr_loop start which (Suc ends) howmany =
     (if howmany = 0 then Suc ends
      else strnrchr_loop start which ends
             (if cat start ends = which then howmany - 1 else howmany))"

definition strnrchr :: "cstr \<Rightarrow> char \<Rightarrow> nat \<Rightarrow> nat option" where
  "strnrchr start which howmany =
     (let ends = strnrchr_loop start which (length start) howmany
      in if ends = 0 then None else Some ends)"

subsection \<open>Hex-like encoding of bytes\<close>

text \<open>Plain \<open>char\<close> is signed: a byte from 128 up is negative in the arithmetic.\<close>

definition schar :: "char \<Rightarrow> int" where
  "schar c = (if ord c < (128 :: nat) then int (ord c) else int (ord c) - 256)"

definition to_char :: "int \<Rightarrow> char" where
  "to_char i = char_of (nat (i mod 256))"

unbundle bit_operations_syntax

fun encode_loop :: "cstr \<Rightarrow> cstr" where
  "encode_loop [] = []"
| "encode_loop (c # str) =
     to_char (drop_bit 4 (schar c) + 65) # to_char ((schar c AND 15) + 65) # encode_loop str"

definition encode :: "cstr \<Rightarrow> int \<Rightarrow> cstr" where
  "encode str len =
     encode_loop (if len = - 1 then takeWhile (\<lambda>c. c \<noteq> NUL) str else take (nat len) str)"

fun decode :: "cstr \<Rightarrow> cstr" where
  "decode (a # b # str) = to_char (push_bit 4 (schar a - 65) OR (schar b - 65)) # decode str"
| "decode str = []"

subsection \<open>Comparison as an order on folded strings\<close>

abbreviation no_nul :: "cstr \<Rightarrow> bool" where "no_nul s \<equiv> NUL \<notin> set s"

lemma stricmp_table_ranges: "stricmp_table = 0 # 1 # [2..<97] @ [65..<94] @ [126..<256]"
  by (simp add: stricmp_table_def upt_rec_numeral)

lemma stricmp_table_nth:
  "n < 256 \<Longrightarrow> stricmp_table ! n = (if 97 \<le> n \<and> n \<le> 125 then n - 32 else n)"
  unfolding stricmp_table_ranges by (auto simp: nth_append nth_Cons' simp del: upt_rec_numeral)

lemma foldc_eq: "foldc c = (if 97 \<le> (ord c :: nat) \<and> (ord c :: nat) \<le> 125 then ord c - 32 else ord c)"
  by (simp add: stricmp_table_nth)

lemma ord_0_iff [simp]: "ord c = (0 :: nat) \<longleftrightarrow> c = NUL"
  by (metis NUL_ord ord_eq_iff)

lemma foldc_0_iff [simp]: "foldc c = 0 \<longleftrightarrow> c = NUL"
  by (auto simp: foldc_eq)

lemma ord_pos_iff [simp]: "(0 :: nat) < ord c \<longleftrightarrow> c \<noteq> NUL"
  by (metis ord_0_iff gr0I less_nat_zero_code)

lemma foldc_pos_iff [simp]: "0 < foldc c \<longleftrightarrow> c \<noteq> NUL"
  by (metis foldc_0_iff gr0I less_nat_zero_code)

lemma stricmp_table_0 [simp]: "stricmp_table ! 0 = 0"
  by (simp add: stricmp_table_nth)

lemma cat_0: "cat s 0 = (case s of [] \<Rightarrow> NUL | c # _ \<Rightarrow> c)"
  by (cases s) simp_all

definition ckey :: "cstr \<Rightarrow> nat list" where
  "ckey s = map (\<lambda>c. foldc c) s"

definition okey :: "cstr \<Rightarrow> nat list" where
  "okey s = map ord s"

lemma ckey_simps [simp]: "ckey [] = []" "ckey (c # s) = foldc c # ckey s"
    "length (ckey s) = length s" "ckey (s @ t) = ckey s @ ckey t"
  by (simp_all add: ckey_def)

lemma okey_simps [simp]: "okey [] = []" "okey (c # s) = ord c # okey s"
  by (simp_all add: okey_def)

lemma Nil_less_iff [simp]: "([] :: nat list) < xs \<longleftrightarrow> xs \<noteq> []"
  by (cases xs) simp_all

lemma not_less_Nil [simp]: "\<not> (xs :: nat list) < []"
  by (cases xs) simp_all

lemma my_stricmp_less_iff: "no_nul s \<Longrightarrow> no_nul t \<Longrightarrow> my_stricmp s t < 0 \<longleftrightarrow> ckey s < ckey t"
  by (induction s t rule: my_stricmp.induct) (auto simp: cat_0 split: list.splits)

lemma my_stricmp_zero_iff: "no_nul s \<Longrightarrow> no_nul t \<Longrightarrow> my_stricmp s t = 0 \<longleftrightarrow> ckey s = ckey t"
  by (induction s t rule: my_stricmp.induct) (auto simp: cat_0 split: list.splits)

lemma my_stricmp_sym: "my_stricmp s t = - my_stricmp t s"
  by (induction s t rule: my_stricmp.induct) (auto simp: cat_0 split: list.splits)

lemma my_stricmp_greater_iff:
  "no_nul s \<Longrightarrow> no_nul t \<Longrightarrow> 0 < my_stricmp s t \<longleftrightarrow> ckey t < ckey s"
  by (subst my_stricmp_sym) (simp add: my_stricmp_less_iff)

lemma my_stricmp_refl [simp]: "my_stricmp s s = 0"
  by (induction s) auto

lemma strcmp_less_iff: "no_nul s \<Longrightarrow> no_nul t \<Longrightarrow> strcmp s t < 0 \<longleftrightarrow> okey s < okey t"
  by (induction s t rule: strcmp.induct) (auto simp: cat_0 split: list.splits)

lemma okey_inj: "okey s = okey t \<longleftrightarrow> s = t"
  by (simp add: okey_def inj_map_eq_map inj_on_def)

lemma strcmp_zero_iff: "no_nul s \<Longrightarrow> no_nul t \<Longrightarrow> strcmp s t = 0 \<longleftrightarrow> s = t"
  by (induction s t rule: strcmp.induct) (auto simp: cat_0 split: list.splits)

lemma strcmp_sym: "strcmp s t = - strcmp t s"
  by (induction s t rule: strcmp.induct) (auto simp: cat_0 split: list.splits)

lemma strcmp_greater_iff: "no_nul s \<Longrightarrow> no_nul t \<Longrightarrow> 0 < strcmp s t \<longleftrightarrow> okey t < okey s"
  by (subst strcmp_sym) (simp add: strcmp_less_iff)

lemma my_strnicmp_zero_iff:
  "no_nul s \<Longrightarrow> no_nul t \<Longrightarrow> my_strnicmp s t n = 0 \<longleftrightarrow> take n (ckey s) = take n (ckey t)"
  by (induction s t n rule: my_strnicmp.induct) (auto simp: cat_0 split: list.splits)

subsection \<open>Substring needle is exact\<close>

abbreviation ci_prefix :: "cstr \<Rightarrow> cstr \<Rightarrow> bool" where
  "ci_prefix p s \<equiv> prefix (map c_toupper p) (map c_toupper s)"

lemma prefix_Suc_take:
  "x < length p \<Longrightarrow> prefix (take (Suc x) p) s \<longleftrightarrow> prefix (take x p) s \<and> x < length s \<and> s ! x = p ! x"
proof (induction x arbitrary: p s)
  case 0
  then show ?case by (cases p; cases s) auto
next
  case (Suc x)
  then show ?case by (cases p; cases s) auto
qed

lemma prefix_take_mono: "prefix p s \<Longrightarrow> prefix (take x p) s"
  by (metis append_take_drop_id prefix_order.trans prefixI)

abbreviation tails :: "cstr \<Rightarrow> cstr list" where
  "tails s \<equiv> map (\<lambda>i. drop i s) [0..<length s]"

lemma tails_Cons:
  "map (\<lambda>i. drop i (c # s)) [0..<Suc (length s)] = (c # s) # tails s"
  by (simp add: upt_conv_Cons map_Suc_upt [symmetric] o_def del: upt_Suc)

lemma stristr_loop_find:
  assumes "no_nul source" "no_nul needle" "x \<le> length needle"
    and "prefix (take x (map c_toupper needle)) (map c_toupper source)"
  shows "stristr_loop source needle x = find (ci_prefix needle) (if needle = [] then [source] else tails source)
         \<or> needle = []"
  using assms
proof (induction source needle x rule: stristr_loop.induct)
  case (1 source needle x)
  show ?case
  proof (cases source)
    case Nil
    then show ?thesis by (simp add: stristr_loop.simps)
  next
    case (Cons c rest)
    let ?m = "x < length source \<and> c_toupper (cat source x) = c_toupper (cat needle x)"
    consider (full) "x = length needle" | (hit) "x < length needle" ?m | (miss) "x < length needle" "\<not> ?m"
      using "1.prems"(3) by linarith
    then show ?thesis
    proof cases
      case full
      then have "\<not> ?m" using "1.prems"(1) by (auto simp: set_conv_nth)
      moreover have "ci_prefix needle source" using full "1.prems"(4) by simp
      moreover from calculation have "stristr_loop source needle x = Some source"
        using full Cons by (subst stristr_loop.simps) auto
      ultimately show ?thesis using Cons by (simp add: tails_Cons del: upt_Suc)
    next
      case hit
      have "prefix (take (Suc x) (map c_toupper needle)) (map c_toupper source)"
        using hit "1.prems"(4) by (subst prefix_Suc_take) auto
      then have "stristr_loop source needle (Suc x) = find (ci_prefix needle) (tails source)"
        using "1.IH"(1) [OF Cons] hit "1.prems" by (auto split: if_splits)
      then show ?thesis using hit Cons by (subst stristr_loop.simps) auto
    next
      case miss
      have nz: "cat needle x \<noteq> NUL" using miss(1) "1.prems"(2) by (auto simp: in_set_conv_nth)
      have "\<not> prefix (take (Suc x) (map c_toupper needle)) (map c_toupper source)"
        using miss by (subst prefix_Suc_take) auto
      then have np: "\<not> ci_prefix needle source" by (metis prefix_take_mono)
      have "stristr_loop rest needle 0 = find (ci_prefix needle) (tails rest)"
        using "1.IH"(2) [OF Cons miss(2) nz] "1.prems"(1,2) Cons miss(1) by (auto split: if_splits)
      then show ?thesis using miss(2) nz np Cons
        by (subst stristr_loop.simps) (auto simp: tails_Cons simp del: upt_Suc)
    qed
  qed
qed

text \<open>
  \<open>stristr\<close> returns the first (longest) suffix of the source that starts with the
  needle string, letter case ignored, and NULL exactly when there is none.
\<close>

theorem stristr_finds_first:
  assumes "no_nul source" "no_nul needle" "needle \<noteq> []"
  shows "stristr source needle = find (ci_prefix needle) (tails source)"
proof (cases "length source < length needle")
  case True
  have "\<not> ci_prefix needle t" if "t \<in> set (tails source)" for t
    using that True by (auto dest!: prefix_length_le)
  then have "find (ci_prefix needle) (tails source) = None" by (auto simp: find_None_iff)
  with True show ?thesis by (simp add: stristr_def)
next
  case False
  have "stristr_loop source needle 0 = find (ci_prefix needle) (tails source)"
    using stristr_loop_find [of source needle 0] assms by auto
  with False assms show ?thesis by (auto simp: stristr_def)
qed

theorem stristr_finds_first_witness:
  "stristr ''MotdMOTd'' ''oT'' = Some ''otdMOTd''"
  by (subst stristr_finds_first) (simp, simp, simp, code_simp)

lemma rstristr_loop_find:
  assumes "no_nul source" "no_nul needle" "ptr + length needle \<le> length source" "x \<le> length needle"
    and "prefix (take x (map c_toupper needle)) (map c_toupper (drop ptr source))"
  shows "rstristr_loop source needle ptr x
           = find (ci_prefix needle) (map (\<lambda>i. drop i source) (rev [0..<Suc ptr]))"
  using assms
proof (induction source needle ptr x rule: rstristr_loop.induct)
  case (1 source needle ptr x)
  let ?m = "c_toupper (cat source (ptr + x)) = c_toupper (cat needle x)"
  consider (full) "x = length needle" | (hit) "x < length needle" ?m
    | (miss) "x < length needle" "\<not> ?m"
    using "1.prems"(4) by linarith
  then show ?case
  proof cases
    case full
    with "1.prems"(5) show ?thesis by (subst rstristr_loop.simps) simp
  next
    case hit
    have "prefix (take (Suc x) (map c_toupper needle)) (map c_toupper (drop ptr source))"
      using hit "1.prems"(3,5) by (subst prefix_Suc_take) (auto simp: nth_append add.commute)
    with hit show ?thesis
      using "1.IH"(1) "1.prems" by (subst rstristr_loop.simps) simp
  next
    case miss
    have "\<not> prefix (take (Suc x) (map c_toupper needle)) (map c_toupper (drop ptr source))"
      using miss "1.prems"(3) by (subst prefix_Suc_take) (auto simp: add.commute)
    then have np: "\<not> ci_prefix needle (drop ptr source)" by (metis prefix_take_mono)
    show ?thesis
    proof (cases ptr)
      case 0
      with miss np show ?thesis by (subst rstristr_loop.simps) simp
    next
      case (Suc p)
      have "rstristr_loop source needle p 0
          = find (ci_prefix needle) (map (\<lambda>i. drop i source) (rev [0..<Suc p]))"
        using "1.IH"(2) "1.prems" miss Suc by simp
      with miss np Suc show ?thesis by (subst rstristr_loop.simps) simp
    qed
  qed
qed

text \<open>
  \<open>rstristr\<close> returns the last (shortest) suffix of the source that starts with the
  search string, letter case ignored, and NULL exactly when there is none.
\<close>

theorem rstristr_finds_last:
  assumes "no_nul source" "no_nul needle" "needle \<noteq> []"
  shows "rstristr source needle = find (ci_prefix needle) (rev (tails source))"
proof (cases "length source < length needle")
  case True
  have "\<not> ci_prefix needle t" if "t \<in> set (tails source)" for t
    using that True by (auto dest!: prefix_length_le)
  then have "find (ci_prefix needle) (rev (tails source)) = None" by (auto simp: find_None_iff)
  with True show ?thesis by (simp add: rstristr_def)
next
  case False
  let ?k = "length source - length needle"
  let ?hi = "rev (map (\<lambda>i. drop i source) [Suc ?k..<length source])"
  have split: "[0..<length source] = [0..<Suc ?k] @ [Suc ?k..<length source]"
  proof -
    have "Suc ?k \<le> length source" using False assms(3) by (cases needle) auto
    then have "length source = Suc ?k + (length source - Suc ?k)" by simp
    then show ?thesis by (metis upt_add_eq_append le0)
  qed
  have "\<not> ci_prefix needle t" if "t \<in> set ?hi" for t
    using that False by (auto dest!: prefix_length_le)
  then have "find (ci_prefix needle) ?hi = None" by (auto simp: find_None_iff)
  then have "find (ci_prefix needle) (?hi @ xs) = find (ci_prefix needle) xs" for xs
    by (rule find_append_None)
  then have "find (ci_prefix needle) (rev (tails source))
      = find (ci_prefix needle) (map (\<lambda>i. drop i source) (rev [0..<Suc ?k]))"
    by (simp only: split map_append rev_append rev_map)
  with False assms rstristr_loop_find [of source needle ?k 0] show ?thesis
    by (auto simp: rstristr_def)
qed

theorem rstristr_finds_last_witness:
  "rstristr ''MotdMOTd'' ''oT'' = Some ''OTd''"
  by (subst rstristr_finds_last) (simp, simp, simp, code_simp)

subsection \<open>Numbers print and parse back\<close>

lemma ltoa_digits_app: "ltoa_digits n pos = ltoa_digits n [] @ pos"
proof (induction n arbitrary: pos rule: less_induct)
  case (less n)
  show ?case
  proof (cases "9 < n")
    case True
    then have IH: "ltoa_digits (n div 10) s = ltoa_digits (n div 10) [] @ s" for s
      by (intro less.IH) simp
    have "ltoa_digits n s = ltoa_digits (n div 10) [] @ digit_char (n mod 10) # s" for s
      using True by (simp add: ltoa_digits.simps [of n s] IH [of "digit_char (n mod 10) # s"])
    then show ?thesis by simp
  next
    case False
    then show ?thesis by (subst (1 2) ltoa_digits.simps) simp
  qed
qed

lemma ltoa_digits_rec:
  "ltoa_digits n [] = (if 9 < n then ltoa_digits (n div 10) [] @ [digit_char (n mod 10)] else [digit_char n])"
  by (simp add: ltoa_digits.simps [of n] ltoa_digits_app [of "n div 10" "[digit_char (n mod 10)]"])

lemma ord_digit_char [simp]: "d < 10 \<Longrightarrow> ord (digit_char d) = (d + 48 :: nat)"
  by (simp add: digit_char_def)

lemma is_digit_digit_char [simp]: "d < 10 \<Longrightarrow> is_digit (digit_char d)"
  by (simp add: is_digit_def)

lemma ltoa_digits_all: "list_all is_digit (ltoa_digits n [])"
proof (induction n rule: less_induct)
  case (less n)
  then show ?case by (subst ltoa_digits_rec) simp
qed

lemma ltoa_digits_nonempty [simp]: "ltoa_digits n [] \<noteq> []"
  by (subst ltoa_digits_rec) simp

lemma digits_val_append:
  "list_all is_digit u \<Longrightarrow> digits_val acc (u @ v) = digits_val (digits_val acc u) v"
  by (induction u arbitrary: acc) auto

lemma digits_val_ltoa: "digits_val 0 (ltoa_digits n []) = int n"
proof (induction n rule: less_induct)
  case (less n)
  then show ?case
    by (subst ltoa_digits_rec) (simp add: digits_val_append ltoa_digits_all zdiv_int zmod_int)
qed

lemma is_digit_not_space: "is_digit c \<Longrightarrow> \<not> my_isspace c"
  by (auto simp: is_digit_def my_isspace_def)

lemma digit_not_sign: "is_digit c \<Longrightarrow> c \<noteq> CHR ''-'' \<and> c \<noteq> CHR ''+'' \<and> c \<noteq> CHR '' '' \<and> c \<noteq> CHR '',''"
  by (auto simp: is_digit_def)

lemma ltoa_digits_Cons: "\<exists>d ds. ltoa_digits n [] = d # ds \<and> is_digit d \<and> list_all is_digit ds"
  using ltoa_digits_all [of n] ltoa_digits_nonempty [of n] by (cases "ltoa_digits n []") auto

lemma strtol10_ltoa:
  assumes "LONG_MIN \<le> n" "n \<le> LONG_MAX" "\<not> is_digit (cat rest 0)"
  shows "strtol10 (ltoa n @ rest) = (n, rest)"
proof -
  obtain d ds where D: "ltoa_digits (nat \<bar>n\<bar>) [] = d # ds" "is_digit d" "list_all is_digit ds"
    using ltoa_digits_Cons by blast
  have ndr: "dropWhile is_digit rest = rest" using assms(3) by (cases rest) auto
  have dv: "digits_val acc rest = acc" for acc using assms(3) by (cases rest) auto
  have v: "digits_val 0 ((d # ds) @ rest) = \<bar>n\<bar>"
    using D digits_val_ltoa [of "nat \<bar>n\<bar>"] by (subst digits_val_append) (simp_all add: dv)
  have dw: "dropWhile is_digit ((d # ds) @ rest) = rest"
    using D(2,3) ndr by (subst dropWhile_append2) (auto simp: list_all_iff)
  show ?thesis
    using assms(1,2) D v dw digit_not_sign [OF D(2)] is_digit_not_space [OF D(2)]
    by (simp add: strtol10_def ltoa_def my_isspace_def Let_def)
qed

text \<open>
  \<open>my_atol\<close> reads back every \<open>long\<close> that \<open>ltoa\<close> prints, and \<open>ltoa\<close> prints
  only strings that \<open>is_number\<close> accepts.
\<close>

theorem my_atol_ltoa_roundtrip:
  assumes "LONG_MIN \<le> n" "n \<le> LONG_MAX"
  shows "my_atol (Some (ltoa n)) = n \<and> is_number (ltoa n)"
proof -
  obtain d ds where D: "ltoa_digits (nat \<bar>n\<bar>) [] = d # ds" "is_digit d" "list_all is_digit ds"
    using ltoa_digits_Cons by blast
  have "is_number (ltoa n)"
    using D digit_not_sign [OF D(2)] by (simp add: is_number_def ltoa_def Let_def)
  moreover have "is_digit NUL = False" by (simp add: is_digit_def)
  ultimately show ?thesis
    using strtol10_ltoa [OF assms, of "[]"] by (simp add: my_atol_def)
qed

theorem my_atol_ltoa_roundtrip_witness:
  "my_atol (Some (ltoa (-9223372036854775808))) = -9223372036854775808"
  using my_atol_ltoa_roundtrip [of "-9223372036854775808"] by simp

subsection \<open>Encoding round trip\<close>

lemma schar_bounds: "- 128 \<le> schar c" "schar c < 128"
  by (auto simp: schar_def) (use ord_less_256 [of c] in linarith)

lemma to_char_schar [simp]: "to_char (schar c) = c"
proof -
  have "nat (schar c mod 256) = ord c"
    by (cases "ord c < (128 :: nat)") (auto simp: schar_def nat_mod_distrib)
  then show ?thesis by (simp add: to_char_def)
qed

lemma schar_to_char: "- 128 \<le> i \<Longrightarrow> i < 128 \<Longrightarrow> schar (to_char i) = i"
proof -
  assume i: "- 128 \<le> i" "i < 128"
  have "i mod 256 = (if 0 \<le> i then i else i + 256)"
  proof (cases "0 \<le> i")
    case False
    have "i mod 256 = (i + 256) mod 256" by simp
    also have "\<dots> = i + 256" using i False by (intro mod_pos_pos_trivial) auto
    finally show ?thesis using False by simp
  qed (use i in simp)
  with i show ?thesis by (auto simp: schar_def to_char_def nat_less_iff)
qed

lemma push_or_add: "0 \<le> b \<Longrightarrow> b < 16 \<Longrightarrow> push_bit 4 a OR b = a * 16 + (b :: int)"
proof -
  assume b: "0 \<le> b" "b < 16"
  then have tb: "take_bit 4 b = b" by (simp add: take_bit_int_eq_self_iff)
  have "push_bit 4 a + b = push_bit 4 a OR b"
  proof (rule disjunctive_add)
    fix n
    show "\<not> bit (push_bit 4 a) n \<or> \<not> bit b n"
      by (subst tb [symmetric]) (auto simp: bit_push_bit_iff bit_take_bit_iff)
  qed
  then show ?thesis by (simp add: push_bit_eq_mult)
qed

lemma and_15_mod: "k AND 15 = k mod (16 :: int)"
  using take_bit_eq_mask [of 4 k] by (simp add: take_bit_eq_mod mask_eq_exp_minus_1)

lemma decode_encode_char:
  "to_char (push_bit 4 (schar (to_char (drop_bit 4 (schar c) + 65)) - 65) OR
            (schar (to_char ((schar c AND 15) + 65)) - 65)) = c"
proof -
  let ?k = "schar c"
  have "- 128 \<le> ?k" "?k < 128" by (rule schar_bounds)+
  then have hi: "schar (to_char (drop_bit 4 ?k + 65)) = ?k div 16 + 65"
    by (intro trans [OF schar_to_char]) (auto simp: drop_bit_eq_div)
  have "0 \<le> ?k mod 16" "?k mod 16 < 16" by simp_all
  then have lo: "schar (to_char ((?k AND 15) + 65)) = ?k mod 16 + 65"
    unfolding and_15_mod by (intro schar_to_char) linarith+
  show ?thesis by (simp add: hi lo push_or_add)
qed

lemma decode_encode_loop: "decode (encode_loop s) = s"
  by (induction s) (simp_all add: decode_encode_char del: of_char_of)

text \<open>
  \<open>decode\<close> inverts \<open>encode\<close> on every byte string, bytes from 128 up (negative as
  \<open>char\<close>) included, and the encoded text is twice as long and holds no NUL, so it can be
  passed on as a C string.
\<close>

theorem decode_encode_roundtrip:
  assumes "len \<le> length bytes"
  shows "decode (encode bytes (int len)) = take len bytes
    \<and> length (encode bytes (int len)) = 2 * len \<and> no_nul (encode bytes (int len))"
proof -
  have "length (encode_loop s) = 2 * length s" for s by (induction s) simp_all
  moreover have "no_nul (encode_loop s)" for s
  proof (induction s)
    case (Cons c s)
    have nz: "NUL \<noteq> to_char i" if "0 < i" "i < 128" for i
    proof
      assume "NUL = to_char i"
      then have "schar NUL = i" using that schar_to_char [of i] by simp
      then show False using that by (simp add: schar_def)
    qed
    have "NUL \<noteq> to_char (drop_bit 4 (schar c) + 65)"
      using schar_bounds [of c] by (intro nz) (auto simp: drop_bit_eq_div)
    moreover have "NUL \<noteq> to_char ((schar c AND 15) + 65)"
      unfolding and_15_mod using pos_mod_bound [of 16 "schar c"] pos_mod_sign [of 16 "schar c"]
      by (intro nz) linarith+
    ultimately show ?case using Cons by simp
  qed simp
  ultimately show ?thesis using assms by (simp add: encode_def decode_encode_loop)
qed

theorem decode_encode_roundtrip_witness:
  "decode (encode [CHR 0x00, CHR 0xFF, CHR ''a''] 3) = [CHR 0x00, CHR 0xFF, CHR ''a'']"
  using decode_encode_roundtrip [of 3 "[CHR 0x00, CHR 0xFF, CHR ''a'']"] by simp

subsection \<open>Matching brackets\<close>

text \<open>Occurrences of a character that no backslash escapes.\<close>

fun ucount :: "char \<Rightarrow> cstr \<Rightarrow> nat" where
  "ucount x [] = 0"
| "ucount x [c] = (if c = x then 1 else 0)"
| "ucount x (c # d # s) =
     (if c = CHR 0x5C then ucount x s else (if c = x then 1 else 0) + ucount x (d # s))"

text \<open>\<open>open_in l r n u\<close>: scanning \<open>u\<close> with \<open>n\<close> brackets open never closes the last one.\<close>

definition open_in :: "char \<Rightarrow> char \<Rightarrow> nat \<Rightarrow> cstr \<Rightarrow> bool" where
  "open_in l r n u \<longleftrightarrow> (\<forall>v. prefix v u \<longrightarrow> ucount r v < n + ucount l v)"

lemma ucount_Cons: "c \<noteq> CHR 0x5C \<Longrightarrow> ucount x (c # v) = ucount x [c] + ucount x v"
  by (cases v) auto

lemma open_in_esc:
  assumes "open_in l r n s" "l \<noteq> CHR 0x5C" "r \<noteq> CHR 0x5C" "0 < n"
  shows "open_in l r n (CHR 0x5C # d # s)"
  unfolding open_in_def
proof (intro allI impI)
  fix v assume v: "prefix v (CHR 0x5C # d # s)"
  show "ucount r v < n + ucount l v"
  proof (cases rule: ucount.cases [of "(r, v)"])
    case (3 x a b w)
    then show ?thesis using v assms by (auto simp: open_in_def)
  qed (use v assms in auto)
qed

lemma open_in_step:
  assumes "open_in l r m u" "c \<noteq> CHR 0x5C" "m + ucount r [c] = n + ucount l [c]" "0 < n"
  shows "open_in l r n (c # u)"
  unfolding open_in_def
proof (intro allI impI)
  fix v assume v: "prefix v (c # u)"
  show "ucount r v < n + ucount l v"
  proof (cases v)
    case (Cons a w)
    then have "ucount r w < m + ucount l w" "a = c" using v assms(1) by (auto simp: open_in_def)
    then show ?thesis
      using Cons assms(2,3) ucount_Cons [of c r w] ucount_Cons [of c l w] by simp
  qed (use assms(4) in simp)
qed

lemma open_in_Nil [simp]: "open_in l r n [] \<longleftrightarrow> 0 < n"
  by (simp add: open_in_def)

lemma mb_loop_spec:
  assumes "l \<noteq> r" "l \<noteq> CHR 0x5C" "r \<noteq> CHR 0x5C" "0 < n"
  shows "case mb_loop l r n s of
      Some t \<Rightarrow> \<exists>u. s = u @ t \<and> cat t 0 = r \<and> n + ucount l u = Suc (ucount r u) \<and> open_in l r n u
    | None \<Rightarrow> open_in l r n s" (is "?P n s")
  using assms
proof (induction l r n s rule: mb_loop.induct)
  case (2 l r n c)
  show ?case
  proof (cases "c = r \<and> n = 1")
    case True
    then show ?thesis using 2 by (auto intro!: exI [of _ "[]"])
  next
    case False
    have "open_in l r n [c]"
    proof (cases "c = CHR 0x5C")
      case True
      then show ?thesis using 2 by (auto simp: open_in_def prefix_Cons)
    next
      case c: False
      show ?thesis
        using 2 c False by (intro open_in_step [of l r "n + ucount l [c] - ucount r [c]"]) auto
    qed
    then show ?thesis using False 2 by auto
  qed
next
  case (3 l r n c d s)
  have step: "case mb_loop l r m (d # s) of
      Some t \<Rightarrow> \<exists>u. c # d # s = u @ t \<and> cat t 0 = r \<and> n + ucount l u = Suc (ucount r u) \<and> open_in l r n u
    | None \<Rightarrow> open_in l r n (c # d # s)"
    if m: "m + ucount r [c] = n + ucount l [c]" and c: "c \<noteq> CHR 0x5C"
      and IH: "case mb_loop l r m (d # s) of
          Some t \<Rightarrow> \<exists>u. d # s = u @ t \<and> cat t 0 = r \<and> m + ucount l u = Suc (ucount r u) \<and> open_in l r m u
        | None \<Rightarrow> open_in l r m (d # s)" for m
  proof (cases "mb_loop l r m (d # s)")
    case None
    then show ?thesis using IH m c "3.prems"(4) by (auto intro: open_in_step)
  next
    case (Some t)
    then obtain u where u: "d # s = u @ t" "cat t 0 = r" "m + ucount l u = Suc (ucount r u)" "open_in l r m u"
      using IH by auto
    moreover have "n + ucount l (c # u) = Suc (ucount r (c # u))"
      using u(3) m ucount_Cons [OF c, of l u] ucount_Cons [OF c, of r u] by simp
    moreover have "open_in l r n (c # u)" using u(4) c m "3.prems"(4) by (rule open_in_step)
    ultimately show ?thesis using Some by (auto intro!: exI [of _ "c # u"])
  qed
  consider (esc) "c = CHR 0x5C" | (left) "c = l" "c \<noteq> CHR 0x5C" | (right) "c = r" "c \<noteq> l" "c \<noteq> CHR 0x5C"
    | (other) "c \<noteq> l" "c \<noteq> r" "c \<noteq> CHR 0x5C" by blast
  then show ?case
  proof cases
    case esc
    show ?thesis
    proof (cases "mb_loop l r n s")
      case None
      then show ?thesis using esc 3 by (auto intro: open_in_esc)
    next
      case (Some t)
      then obtain u where "s = u @ t" "cat t 0 = r" "n + ucount l u = Suc (ucount r u)" "open_in l r n u"
        using 3 esc by auto
      then show ?thesis using esc Some "3.prems" by (auto intro!: exI [of _ "c # d # u"] open_in_esc)
    qed
  next
    case left
    then show ?thesis using 3 step [of "n + 1"] by auto
  next
    case right
    then show ?thesis using 3 step [of "n - 1"] by (cases "n = 1") (auto intro!: exI [of _ "[]"])
  next
    case other
    then show ?thesis using 3 step [of n] by auto
  qed
qed simp

text \<open>
  \<open>MatchingBracket\<close>, called just after a left bracket, returns the first unescaped
  right bracket that closes it: the text before it is balanced (as many unescaped left as
  right brackets) and closes nothing earlier; NULL means that no prefix of the string
  closes the bracket.
\<close>

theorem MatchingBracket_balanced:
  assumes "(left, right) \<in> {(CHR ''('', CHR '')''), (CHR ''['', CHR '']''), (CHR 0x7B, CHR 0x7D)}"
  shows "case MatchingBracket str left right of
      Some t \<Rightarrow> \<exists>u. str = u @ t \<and> cat t 0 = right \<and> ucount left u = ucount right u
                    \<and> open_in left right 1 u
    | None \<Rightarrow> open_in left right 1 str"
  using mb_loop_spec [of left right 1 str] assms
  by (auto simp: MatchingBracket_def split: option.splits)

theorem MatchingBracket_balanced_witness:
  "open_in (CHR ''('') (CHR '')'') 1 ''a(b''"
  using MatchingBracket_balanced [of "CHR ''(''" "CHR '')''" "''a(b''"] by (simp add: MatchingBracket_def)

subsection \<open>Thousands separators\<close>

lemma filter_no_comma [simp]: "CHR '','' \<notin> set s \<Longrightarrow> filter (\<lambda>c. c \<noteq> CHR '','') s = s"
  by (auto simp: filter_id_conv)

lemma comma_loop_filter:
  "n = length s \<Longrightarrow> CHR '','' \<notin> set s \<Longrightarrow> filter (\<lambda>c. c \<noteq> CHR '','') (comma_loop n s) = s"
proof (induction n s rule: comma_loop.induct)
  case (2 n s)
  then obtain c s' where s: "s = c # s'" by (cases s) auto
  show ?case
  proof (cases "n mod 3 = 0 \<and> n \<noteq> 0")
    case True
    with 2 s show ?thesis by auto
  next
    case False
    with 2 s show ?thesis by auto
  qed
qed simp

lemma comma_loop_length:
  "length (comma_loop n s) = n + (n - 1) div 3"
proof (induction n s rule: comma_loop.induct)
  case (2 n s)
  have "n div 3 = (n - 1) div 3 + (if n mod 3 = 0 \<and> n \<noteq> 0 then 1 else 0)"
    by (cases n) (auto simp: div_Suc)
  with 2 show ?case by simp
qed simp

lemma comma_length_mod: "Suc (length (comma_loop n s)) mod 4 = 0 \<longleftrightarrow> n mod 3 = 0 \<and> n \<noteq> 0"
proof -
  define k where "k = n div 3"
  have "n = 3 * k + n mod 3" by (simp add: k_def)
  moreover have "n mod 3 < 3" by simp
  ultimately consider "n = 3 * k" "n mod 3 = 0" | "n = 3 * k + 1" "n mod 3 = 1" | "n = 3 * k + 2" "n mod 3 = 2"
    by linarith
  then show ?thesis
  proof cases
    case 1
    have d: "(3 * j + 2) div 3 = j" for j :: nat by simp
    show ?thesis
    proof (cases k)
      case (Suc j)
      have "n - 1 = 3 * j + 2" using 1 Suc by simp
      then have "Suc (length (comma_loop n s)) = Suc (n + j)"
        by (simp only: comma_loop_length d)
      then have "Suc (length (comma_loop n s)) = 4 * k" using 1(1) Suc by simp
      then show ?thesis using 1 Suc by simp
    qed (use 1 in \<open>simp add: comma_loop_length\<close>)
  next
    case 2
    then have e: "Suc (length (comma_loop n s)) = 4 * k + 2" unfolding comma_loop_length by simp
    have "Suc (length (comma_loop n s)) mod 4 = 2" unfolding e by (simp only: mod_mult_self4) simp
    with 2 show ?thesis by simp
  next
    case 3
    then have e: "Suc (length (comma_loop n s)) = 4 * k + 3" unfolding comma_loop_length by simp
    have "Suc (length (comma_loop n s)) mod 4 = 3" unfolding e by (simp only: mod_mult_self4) simp
    with 3 show ?thesis by simp
  qed
qed

lemma comma_loop_length3:
  assumes "n mod 3 = 0" "n \<noteq> 0"
  shows "\<exists>k. length (comma_loop n s) = 4 * k + 3"
proof -
  have "Suc (length (comma_loop n s)) mod 4 = 0" by (rule iffD2 [OF comma_length_mod]) (intro conjI assms)
  then obtain k where "Suc (length (comma_loop n s)) = 4 * k" by (metis dvd_def mod_eq_0_iff_dvd)
  then show ?thesis by (intro exI [of _ "k - 1"]) (cases k; simp)
qed

lemma comma_loop_nth:
  assumes "n = length s" "CHR '','' \<notin> set s" "i < length (comma_loop n s)"
  shows "comma_loop n s ! i = CHR '','' \<longleftrightarrow> (length (comma_loop n s) - i) mod 4 = 0"
  using assms
proof (induction n s arbitrary: i rule: comma_loop.induct)
  case (2 n s)
  then obtain c s' where s: "s = c # s'" "n = length s'" by (cases s) auto
  note M = comma_length_mod [of n s']
  show ?case
  proof (cases "n mod 3 = 0 \<and> n \<noteq> 0")
    case True
    then obtain k where k: "length (comma_loop n s') = 4 * k + 3" by (metis comma_loop_length3)
    consider "i = 0" | "i = 1" | j where "i = Suc (Suc j)" by (metis One_nat_def not0_implies_Suc)
    then show ?thesis
    proof cases
      case 3
      with True 2 s k show ?thesis by (simp add: add.commute)
    qed (use True 2 s k in \<open>auto simp: mod_Suc\<close>)
  next
    case False
    then show ?thesis using 2 s M by (cases i) auto
  qed
qed simp

text \<open>
  \<open>slongcomma\<close> (the body of \<open>longcomma\<close> and \<open>ulongcomma\<close>) only inserts commas into a
  string of digits, and inserts them exactly at every fourth place from the right.
\<close>

theorem slongcomma_groups:
  assumes "CHR '','' \<notin> set val"
  shows "filter (\<lambda>c. c \<noteq> CHR '','') (slongcomma val) = val
    \<and> (\<forall>i < length (slongcomma val). slongcomma val ! i = CHR '','' \<longleftrightarrow> (length (slongcomma val) - i) mod 4 = 0)"
proof -
  define r where "r = length val mod 3"
  define sep where "sep = (if 3 < length val \<and> r \<noteq> 0 then '','' else [])"
  define n where "n = length val - r"
  define C where "C = comma_loop n (drop r val)"
  have S: "slongcomma val = take r val @ sep @ C"
    by (simp add: slongcomma_def r_def sep_def n_def C_def Let_def)
  have r3: "r < 3" and rle: "r \<le> length val" by (simp_all add: r_def)
  have n3: "n mod 3 = 0" by (simp add: n_def r_def minus_mod_eq_mult_div)
  have nc: "CHR '','' \<notin> set (drop r val)" "CHR '','' \<notin> set (take r val)"
    using assms by (auto dest: in_set_dropD in_set_takeD)
  have len: "n = length (drop r val)" by (simp add: n_def)
  have "filter (\<lambda>c. c \<noteq> CHR '','') C = drop r val"
    unfolding C_def using len nc(1) by (rule comma_loop_filter)
  then have 1: "filter (\<lambda>c. c \<noteq> CHR '','') (slongcomma val) = val"
    using nc(2) by (simp add: S sep_def)
  have rl: "length (take r val) = r" using rle by simp
  have LS: "length (slongcomma val) = r + length sep + length C" using rl by (simp add: S)
  have C4: "n \<noteq> 0 \<Longrightarrow> \<exists>k. length C = 4 * k + 3"
    using comma_loop_length3 [OF n3] unfolding C_def by blast
  have "slongcomma val ! i = CHR '','' \<longleftrightarrow> (length (slongcomma val) - i) mod 4 = 0"
    if i: "i < length (slongcomma val)" for i
  proof -
    have "sep = [] \<or> sep = '',''" by (simp add: sep_def)
    then consider (a) "i < r" | (b) "sep = '',''" "i = r" | (c) "r + length sep \<le> i"
      by fastforce
    then show ?thesis
    proof cases
      case a
      have nc': "slongcomma val ! i \<noteq> CHR '',''" using nc(2) a rl by (metis S nth_append nth_mem)
      have "(length (slongcomma val) - i) mod 4 = r - i"
      proof (cases "n = 0")
        case True
        then have "C = []" "sep = []" using r3 rle by (simp_all add: C_def n_def sep_def)
        then show ?thesis using r3 LS by simp
      next
        case False
        obtain k where k: "length C = 4 * k + 3" using C4 [OF False] by blast
        have "length val \<noteq> 3" using a r_def by (metis mod_self not_less_zero)
        moreover have "\<not> length val < 3" using False by (auto simp: n_def r_def)
        ultimately have "sep = '',''" using a by (simp add: sep_def)
        then have "length (slongcomma val) - i = 4 * (k + 1) + (r - i)" using LS k a by simp
        moreover have "r - i < 4" using r3 by linarith
        ultimately show ?thesis by (metis mod_less mod_mult_self4)
      qed
      with nc' a show ?thesis by simp
    next
      case b
      then have "3 < length val" by (auto simp: sep_def split: if_splits)
      then have "n \<noteq> 0" using r3 by (simp add: n_def)
      then obtain k where k: "length C = 4 * k + 3" using C4 by blast
      have "length (slongcomma val) - i = 4 * (k + 1)" using LS k b by simp
      then have "(length (slongcomma val) - i) mod 4 = 0" by simp
      moreover have "slongcomma val ! i = CHR '',''" using b rl by (simp add: S nth_append)
      ultimately show ?thesis by blast
    next
      case c
      define j where "j = i - (r + length sep)"
      have j: "j < length C" "length (slongcomma val) - i = length C - j"
        using c i LS by (simp_all add: j_def)
      have "slongcomma val = (take r val @ sep) @ C" "length (take r val @ sep) = r + length sep"
        using S rl by simp_all
      then have "slongcomma val ! i = C ! j" using c by (metis j_def nth_append not_le)
      then show ?thesis
        using comma_loop_nth [OF len nc(1), of j] j by (simp add: C_def)
    qed
  qed
  with 1 show ?thesis by blast
qed

theorem slongcomma_groups_witness:
  "slongcomma ''1234567'' = ''1,234,567''
   \<and> filter (\<lambda>c. c \<noteq> CHR '','') (slongcomma ''1234567'') = ''1234567''"
proof
  show "slongcomma ''1234567'' = ''1,234,567''" by code_simp
  show "filter (\<lambda>c. c \<noteq> CHR '','') (slongcomma ''1234567'') = ''1234567''"
    using slongcomma_groups [of "''1234567''"] by simp
qed

text \<open>\<open>longcomma\<close> counts the sign as a digit, so a negative number can get a comma after it.\<close>

lemma longcomma_negative: "longcomma (- 123) = ''-,123''"
  by code_simp

subsection \<open>Bounded copies\<close>

lemma strmcat_eq: "strmcat dest src maxlen = dest @ take (maxlen - length dest) src"
  by (auto simp: strmcat_def strlcat_def)

lemma length_strmcat_le: "length (strmcat dest src maxlen) \<le> max (length dest) maxlen"
  by (auto simp: strmcat_eq)

lemma length_strmcpy_le: "length (strmcpy src maxlen) \<le> maxlen"
  by (simp add: strmcpy_def strlcpy_def)

end
