(* ===== verification/Args.thy ===== *)
theory Args
  imports CString
begin

section \<open>Splitting a line into arguments (source/ircaux.c)\<close>

text \<open>
  The C functions cut the line they are given by writing a NUL and return a pointer to the
  argument, moving the caller's pointer past it; the model returns the argument (NULL as
  \<open>None\<close>) and the rest of the line. A NULL line is handled like the empty one by the
  first test of each function, so the line itself is a plain string.
\<close>

subsection \<open>Trailing spaces\<close>

text \<open>The scan from the end, over the reversed string; it never removes the first character.\<close>

fun trim_rev :: "cstr \<Rightarrow> cstr" where
  "trim_rev (c # d # s) = (if my_isspace c then trim_rev (d # s) else c # d # s)"
| "trim_rev s = s"

definition remove_trailing_spaces :: "cstr \<Rightarrow> cstr" where
  "remove_trailing_spaces foo = rev (trim_rev (rev foo))"

definition count_trailing_spaces :: "cstr \<Rightarrow> nat" where
  "count_trailing_spaces foo = length foo - length (trim_rev (rev foo))"

subsection \<open>The next argument\<close>

definition next_arg :: "cstr \<Rightarrow> cstr option \<times> cstr" where
  "next_arg str =
     (if str = [] then (None, str)
      else case sindex str ''^ '' of
        None \<Rightarrow> (None, [])
      | Some ptr \<Rightarrow>
          (case sindex ptr '' '' of
             None \<Rightarrow> (Some ptr, [])
           | Some rest \<Rightarrow> (Some (take (length ptr - length rest) ptr), tl rest)))"

text \<open>Inside quotes: the word up to the first unescaped double quote, and what follows it.\<close>

fun quoted :: "cstr \<Rightarrow> cstr \<times> cstr" where
  "quoted [] = ([], [])"
| "quoted [c] = (if c = CHR 0x22 then ([], []) else ([c], []))"
| "quoted (c # d # s) =
     (if c = CHR 0x5C then (let (w, r) = quoted s in (c # d # w, r))
      else if c = CHR 0x22 then ([], d # s)
      else (let (w, r) = quoted (d # s) in (c # w, r)))"

definition skip_space :: "cstr \<Rightarrow> cstr" where
  "skip_space s = (case s of [] \<Rightarrow> [] | c # t \<Rightarrow> if risspace c then t else s)"

text \<open>
  When the line holds only spaces, \<open>ptr\<close> reaches its end but \<open>str\<close> is still the start
  of the line: the argument is the empty string, not NULL, and the rest is the whole line.
\<close>

definition new_next_arg :: "cstr \<Rightarrow> cstr option \<times> cstr" where
  "new_next_arg str =
     (if str = [] then (None, str)
      else
        let ptr = dropWhile risspace str
        in if cat ptr 0 = CHR 0x22
           then (let (w, r) = quoted (tl ptr) in (Some w, skip_space r))
           else if ptr \<noteq> []
           then (Some (takeWhile (\<lambda>c. \<not> risspace c) ptr),
                 skip_space (dropWhile (\<lambda>c. \<not> risspace c) ptr))
           else (Some [], str))"

text \<open>
  \<open>safe_new_next_arg\<close>: inside quotes \<open>\"\<close> loses its backslash. \<open>start\<close> is what has
  been kept so far of the word, \<open>ptr\<close> the text still to scan, \<open>acc\<close> what was scanned
  since the last backslash. Without a closing quote the function returns \<open>ptr\<close>, the
  text after the last backslash, and not the start of the word.
\<close>

fun safe_quoted :: "cstr \<Rightarrow> cstr \<Rightarrow> cstr \<Rightarrow> cstr \<times> cstr" where
  "safe_quoted start acc [] = (acc, [])"
| "safe_quoted start acc (c # s) =
     (if c = CHR 0x22 then (start @ acc, (if cat s 0 = CHR '' '' then tl s else s))
      else if c = CHR 0x5C
      then (case s of
              [] \<Rightarrow> ([], [])
            | d # s' \<Rightarrow>
                if d = CHR 0x22 then safe_quoted (start @ acc @ [d]) [] s'
                else safe_quoted (start @ acc @ [c]) [] s)
      else safe_quoted start (acc @ [c]) s)"

definition safe_new_next_arg :: "cstr \<Rightarrow> cstr \<times> cstr" where
  "safe_new_next_arg str =
     (if str = [] then ([], str)
      else case sindex str [CHR ''^'', CHR '' '', CHR 0x09] of
        None \<Rightarrow> ([], [])
      | Some ptr \<Rightarrow>
          if cat ptr 0 = CHR 0x22 then safe_quoted [] [] (tl ptr)
          else (case sindex ptr [CHR '' '', CHR 0x09] of
                  None \<Rightarrow> (ptr, [])
                | Some rest \<Rightarrow> (take (length ptr - length rest) ptr, tl rest)))"

subsection \<open>The last argument\<close>

datatype last_result =
    LastNull
  | LastOob  \<comment> \<open>the scan reads before the start of the buffer\<close>
  | LastArg cstr cstr  \<comment> \<open>the argument and what is left of the line\<close>

fun last_quote :: "cstr \<Rightarrow> nat \<Rightarrow> nat" where
  "last_quote s 0 = 0"
| "last_quote s (Suc p) =
     (if cat s (Suc p) = CHR 0x22 \<and> cat s p = CHR '' '' then p else last_quote s p)"

fun last_space :: "cstr \<Rightarrow> nat \<Rightarrow> nat" where
  "last_space s 0 = 0"
| "last_space s (Suc p) = (if cat s (Suc p) = CHR '' '' then Suc p else last_space s p)"

definition last_arg :: "cstr \<Rightarrow> last_result" where
  "last_arg src0 =
     (if src0 = [] then LastNull
      else
        let src = remove_trailing_spaces src0; e = length src - 1
        in if cat src e = CHR 0x22 \<and> e = 0 then LastOob
           else
             let ptr = (if cat src e = CHR 0x22 then last_quote src (e - 1) else last_space src e)
             in if ptr = 0 then LastArg src []
                else LastArg (drop (Suc ptr) src) (remove_trailing_spaces (take ptr src)))"

subsection \<open>Counting and splitting words\<close>

function word_count_loop :: "nat \<Rightarrow> cstr \<Rightarrow> nat" where
  "word_count_loop cnt ptr =
     (if ptr = [] then cnt
      else word_count_loop (cnt + 1)
             (dropWhile risspace
                (if cat ptr 0 = CHR 0x22 then snd (quoted (tl ptr))
                 else dropWhile (\<lambda>c. \<not> risspace c) ptr)))"
  by pat_completeness auto

lemma quoted_length: "quoted s = (w, r) \<Longrightarrow> length r \<le> length s"
  by (induction s arbitrary: w r rule: quoted.induct) (fastforce split: if_splits prod.splits)+

lemma length_snd_quoted: "length (snd (quoted s)) \<le> length s"
  by (metis prod.collapse quoted_length)

lemma word_step_shorter:
  assumes "ptr \<noteq> []"
  shows "length (dropWhile risspace
                (if cat ptr 0 = CHR 0x22 then snd (quoted (tl ptr))
                 else dropWhile (\<lambda>c. \<not> risspace c) ptr)) < length ptr"
proof -
  obtain c s where p: "ptr = c # s" using assms(1) by (cases ptr) auto
  consider "c = CHR 0x22" | "c \<noteq> CHR 0x22" "risspace c" | "c \<noteq> CHR 0x22" "\<not> risspace c" by blast
  then show ?thesis
  proof cases
    case 1
    have "length (dropWhile risspace (snd (quoted s))) \<le> length s"
      using length_dropWhile_le [of risspace "snd (quoted s)"] length_snd_quoted [of s] by linarith
    then show ?thesis using 1 p by simp
  next
    case 2
    then show ?thesis using p by simp
  next
    case 3
    then have "length (dropWhile (\<lambda>c. \<not> risspace c) ptr) \<le> length s"
      using p length_dropWhile_le [of "\<lambda>c. \<not> risspace c" s] by simp
    then show ?thesis
      using 3 p length_dropWhile_le [of risspace "dropWhile (\<lambda>c. \<not> risspace c) ptr"] by simp
  qed
qed

termination word_count_loop
  by (relation "measure (\<lambda>(cnt, ptr). length ptr)") (simp, simp only: in_measure prod.case, rule word_step_shorter)

declare word_count_loop.simps [simp del]

definition word_count :: "cstr \<Rightarrow> nat" where
  "word_count ptr = word_count_loop 0 (dropWhile risspace ptr)"

fun splitw_loop :: "nat \<Rightarrow> cstr \<Rightarrow> cstr option list \<times> cstr" where
  "splitw_loop 0 str = ([], str)"
| "splitw_loop (Suc n) str =
     (let (w, rest) = new_next_arg str; (ws, e) = splitw_loop n rest in (w # ws, e))"

definition splitw :: "cstr \<Rightarrow> cstr option list" where
  "splitw str = fst (splitw_loop (word_count str) str)"

definition unsplitw :: "cstr list \<Rightarrow> cstr option" where
  "unsplitw container = foldl (\<lambda>retval w. m_s3cat retval '' '' w) None container"

subsection \<open>What the splitters compute\<close>

lemma first_in_dropWhile:
  "first_in P s = (case dropWhile (\<lambda>c. \<not> P c) s of [] \<Rightarrow> None | c # t \<Rightarrow> Some (c # t))"
  by (induction s) auto

text \<open>Skip the spaces, take what is no space, drop the one space after it.\<close>

lemma next_arg_eq:
  "next_arg str =
     (let p = dropWhile (\<lambda>c. c = CHR '' '') str
      in if p = [] then (None, [])
         else (Some (takeWhile (\<lambda>c. c \<noteq> CHR '' '') p), tl (dropWhile (\<lambda>c. c \<noteq> CHR '' '') p)))"
proof (cases "dropWhile (\<lambda>c. c = CHR '' '') str")
  case Nil
  then have "sindex str ''^ '' = None" by (simp add: sindex_def first_in_dropWhile)
  with Nil show ?thesis by (simp add: next_arg_def)
next
  case (Cons c t)
  define p where "p = c # t"
  define r where "r = dropWhile (\<lambda>c. c \<noteq> CHR '' '') p"
  have ne: "str \<noteq> []" using Cons by auto
  have 1: "sindex str ''^ '' = Some p" using Cons by (simp add: sindex_def first_in_dropWhile p_def)
  have 2: "sindex p '' '' = (if r = [] then None else Some r)"
    by (simp add: sindex_def first_in_dropWhile r_def split: list.split)
  have pr: "takeWhile (\<lambda>c. c \<noteq> CHR '' '') p @ r = p" by (simp add: r_def)
  then have 3: "take (length p - length r) p = takeWhile (\<lambda>c. c \<noteq> CHR '' '') p"
    by (metis add_diff_cancel_right' append_eq_conv_conj length_append)
  have 4: "r = [] \<Longrightarrow> takeWhile (\<lambda>c. c \<noteq> CHR '' '') p = p" using pr by simp
  have n: "next_arg str = (Some (takeWhile (\<lambda>c. c \<noteq> CHR '' '') p), tl r)"
    using ne 1 2 3 by (cases "r = []") (simp_all only: next_arg_def 4 if_False if_True option.case list.sel not_False_eq_True refl)
  show ?thesis unfolding n Cons Let_def by (simp add: p_def r_def)
qed

lemma dropWhile_skip_space: "dropWhile risspace (skip_space s) = dropWhile risspace s"
  by (cases s) (auto simp: skip_space_def)

lemma word_count_loop_acc: "word_count_loop n p = n + word_count_loop 0 p"
proof (induction "length p" arbitrary: n p rule: less_induct)
  case less
  show ?case
  proof (cases "p = []")
    case True
    then show ?thesis by (simp add: word_count_loop.simps)
  next
    case False
    define q where "q = dropWhile risspace (if cat p 0 = CHR 0x22 then snd (quoted (tl p))
                 else dropWhile (\<lambda>c. \<not> risspace c) p)"
    have "length q < length p" unfolding q_def by (rule word_step_shorter [OF False])
    then have IH: "word_count_loop m q = m + word_count_loop 0 q" for m by (rule less)
    have "word_count_loop m p = word_count_loop (m + 1) q" for m
      using False by (simp add: word_count_loop.simps [of m p] q_def)
    then show ?thesis using IH [of "n + 1"] IH [of "0 + 1"] by simp
  qed
qed

lemma word_count_blank: "dropWhile risspace str = [] \<Longrightarrow> word_count str = 0"
  by (simp add: word_count_def word_count_loop.simps)

text \<open>One call of \<open>new_next_arg\<close> takes exactly one of the words that \<open>word_count\<close> counts.\<close>

lemma word_count_step:
  assumes "dropWhile risspace str \<noteq> []"
  shows "\<exists>w rest. new_next_arg str = (Some w, rest) \<and> word_count str = Suc (word_count rest)
    \<and> length rest < length str"
proof -
  define p where "p = dropWhile risspace str"
  define q where "q = (if cat p 0 = CHR 0x22 then snd (quoted (tl p)) else dropWhile (\<lambda>c. \<not> risspace c) p)"
  have pne: "p \<noteq> []" using assms by (simp only: p_def) simp
  have ne: "str \<noteq> []" using assms by auto
  have "\<exists>w. new_next_arg str = (Some w, skip_space q)"
  proof (cases "cat p 0 = CHR 0x22")
    case True
    then show ?thesis using ne
      by (cases "quoted (tl p)") (simp add: new_next_arg_def p_def [symmetric] q_def Let_def)
  next
    case False
    then show ?thesis using ne pne by (simp add: new_next_arg_def p_def [symmetric] q_def Let_def)
  qed
  then obtain w where n: "new_next_arg str = (Some w, skip_space q)" by blast
  have "word_count_loop 0 p = word_count_loop (0 + 1) (dropWhile risspace q)"
    unfolding q_def using pne word_count_loop.simps [of 0 p] by simp
  then have c: "word_count str = Suc (word_count (skip_space q))"
    using word_count_loop_acc [of 1 "dropWhile risspace q"]
    by (simp add: word_count_def dropWhile_skip_space p_def)
  obtain a s where p: "p = a # s" using pne by (cases p) auto
  have "\<not> risspace a" using p by (metis p_def dropWhile_hd)
  then have "length q < length p"
    using p length_snd_quoted [of s] length_dropWhile_le [of "\<lambda>c. \<not> risspace c" s] by (simp add: q_def)
  moreover have "length (skip_space q) \<le> length q" by (cases q) (auto simp: skip_space_def)
  moreover have "length p \<le> length str" unfolding p_def by (rule length_dropWhile_le)
  ultimately have "length (skip_space q) < length str" by linarith
  with n c show ?thesis by blast
qed

lemma splitw_loop_all:
  "n = word_count str \<Longrightarrow> (case splitw_loop n str of (ws, e) \<Rightarrow>
     length ws = n \<and> None \<notin> set ws \<and> list_all risspace e)"
proof (induction n arbitrary: str)
  case 0
  have "dropWhile risspace str = []"
    using word_count_step [of str] 0 by force
  then show ?case by (simp add: list_all_iff dropWhile_eq_Nil_conv)
next
  case (Suc n)
  have "dropWhile risspace str \<noteq> []" using word_count_blank [of str] Suc.prems by force
  then obtain w rest where r: "new_next_arg str = (Some w, rest)" "word_count str = Suc (word_count rest)"
    using word_count_step by blast
  then have "n = word_count rest" using Suc.prems by simp
  from Suc.IH [OF this] r show ?case by (auto split: prod.splits)
qed

text \<open>
  \<open>word_count\<close> and \<open>new_next_arg\<close> agree on what a word is, quoted words and backslashes
  included: \<open>splitw\<close> calls \<open>new_next_arg\<close> \<open>word_count\<close> times, every one of those
  calls finds a word (no NULL in the array), and only spaces are left of the line.
\<close>

theorem splitw_takes_all_words:
  "length (splitw str) = word_count str \<and> None \<notin> set (splitw str)
   \<and> list_all risspace (snd (splitw_loop (word_count str) str))"
  using splitw_loop_all [of "word_count str" str] by (auto simp: splitw_def split: prod.splits)

text \<open>
  Once only spaces are left, \<open>new_next_arg\<close> returns an empty argument and does not
  move the line, so a loop that calls it until it returns NULL never ends; with a single
  trailing space the line is used up and the loop ends.
\<close>

theorem new_next_arg_blank_stuck:
  "new_next_arg (replicate (Suc n) (CHR '' '')) = (Some [], replicate (Suc n) (CHR '' ''))
   \<and> new_next_arg (''a'' @ replicate (Suc n) (CHR '' '')) = (Some ''a'', replicate n (CHR '' ''))"
proof -
  have "dropWhile risspace (replicate m (CHR '' '')) = []" for m
    by (simp add: dropWhile_eq_Nil_conv risspace_def)
  then show ?thesis by (simp add: new_next_arg_def skip_space_def risspace_def Let_def)
qed

subsection \<open>Joining and splitting again\<close>

definition plain_word :: "cstr \<Rightarrow> bool" where
  "plain_word w \<longleftrightarrow> w \<noteq> [] \<and> list_all (\<lambda>c. \<not> risspace c) w \<and> cat w 0 \<noteq> CHR 0x22"

fun joinw :: "cstr list \<Rightarrow> cstr" where
  "joinw [] = []"
| "joinw [w] = w"
| "joinw (w # v # ws) = w @ '' '' @ joinw (v # ws)"

lemma foldl_m_s3cat:
  "r \<noteq> [] \<Longrightarrow> foldl (\<lambda>retval w. m_s3cat retval '' '' w) (Some r) ws = Some (joinw (r # ws))"
proof (induction ws arbitrary: r)
  case (Cons w ws)
  have "foldl (\<lambda>retval w. m_s3cat retval '' '' w) (Some (r @ '' '' @ w)) ws = Some (joinw ((r @ '' '' @ w) # ws))"
    by (rule Cons.IH) simp
  moreover have "joinw ((r @ '' '' @ w) # ws) = joinw (r # w # ws)" by (cases ws) simp_all
  ultimately show ?case using Cons.prems by (simp add: m_s3cat_def m_3cat_def)
qed simp

lemma unsplitw_joinw: "w \<noteq> [] \<Longrightarrow> unsplitw (w # ws) = Some (joinw (w # ws))"
proof -
  have "m_s3cat None '' '' w = Some w" by (simp add: m_s3cat_def)
  then show "w \<noteq> [] \<Longrightarrow> unsplitw (w # ws) = Some (joinw (w # ws))"
    by (simp add: unsplitw_def foldl_m_s3cat)
qed

lemma new_next_arg_plain:
  assumes "plain_word w"
  shows "new_next_arg w = (Some w, [])" "new_next_arg (w @ CHR '' '' # s) = (Some w, s)"
proof -
  obtain c t where w: "w = c # t" "\<not> risspace c" "c \<noteq> CHR 0x22" "list_all (\<lambda>c. \<not> risspace c) t"
    using assms by (cases w) (auto simp: plain_word_def)
  have t: "\<And>x. x \<in> set t \<Longrightarrow> \<not> risspace x" using w(4) by (simp add: list_all_iff)
  have sp: "risspace (CHR '' '')" by (simp add: risspace_def)
  have "takeWhile (\<lambda>c. \<not> risspace c) t = t" "dropWhile (\<lambda>c. \<not> risspace c) t = []"
    "takeWhile (\<lambda>c. \<not> risspace c) (t @ CHR '' '' # s) = t"
    "dropWhile (\<lambda>c. \<not> risspace c) (t @ CHR '' '' # s) = CHR '' '' # s"
    using t sp by (simp_all add: takeWhile_append2 dropWhile_append2 dropWhile_eq_Nil_conv)
  then show "new_next_arg w = (Some w, [])" "new_next_arg (w @ CHR '' '' # s) = (Some w, s)"
    using w(1-3) sp by (simp_all add: new_next_arg_def skip_space_def)
qed

lemma splitw_loop_joinw:
  "list_all plain_word ws \<Longrightarrow> splitw_loop (length ws) (joinw ws) = (map Some ws, [])"
  by (induction ws rule: joinw.induct) (simp_all add: new_next_arg_plain)

lemma word_count_joinw: "list_all plain_word ws \<Longrightarrow> word_count (joinw ws) = length ws"
proof (induction ws rule: joinw.induct)
  case 1
  then show ?case by (simp add: word_count_blank)
next
  case (2 w)
  then have "dropWhile risspace w \<noteq> []" by (cases w) (auto simp: plain_word_def)
  with 2 show ?case
    using word_count_step [of w] new_next_arg_plain(1) [of w] by (auto simp: word_count_blank)
next
  case (3 w v ws)
  then have "dropWhile risspace (joinw (w # v # ws)) \<noteq> []" by (cases w) (auto simp: plain_word_def)
  with 3 show ?case
    using word_count_step [of "joinw (w # v # ws)"] new_next_arg_plain(2) [of w "joinw (v # ws)"] by auto
qed

text \<open>
  joining plain words (no space inside, not empty, no leading quote) with \<open>unsplitw\<close>
  and splitting the result with \<open>splitw\<close> gives the words back.
\<close>

theorem splitw_unsplitw_roundtrip:
  assumes "ws \<noteq> []" "list_all plain_word ws"
  shows "\<exists>line. unsplitw ws = Some line \<and> splitw line = map Some ws"
proof -
  obtain w vs where ws: "ws = w # vs" "w \<noteq> []" using assms by (cases ws) (auto simp: plain_word_def)
  then have "unsplitw ws = Some (joinw ws)" by (simp add: unsplitw_joinw)
  moreover have "splitw (joinw ws) = map Some ws"
    using assms by (simp add: splitw_def word_count_joinw splitw_loop_joinw)
  ultimately show ?thesis by blast
qed

theorem splitw_unsplitw_roundtrip_witness:
  "splitw ''join #napster now'' = map Some [''join'', ''#napster'', ''now'']"
  using splitw_unsplitw_roundtrip [of "[''join'', ''#napster'', ''now'']"]
  by (simp add: plain_word_def risspace_def unsplitw_joinw)

end
