(* ===== verification/WildMatch.thy ===== *)
theory WildMatch
  imports Args
begin

section \<open>Wildcard matching (source/reg.c)\<close>

text \<open>
  \<open>new_match\<close> matches a string against a pattern with \<open>*\<close>, \<open>%\<close> (anything but a
  space), \<open>?\<close> and backslash quoting, by a loop over explicit backtracking points;
  \<open>wild_match\<close> first expands sets \<open>\[a b\]\<close>. The local variables of the loop are the
  record \<open>mstate\<close>, one iteration is \<open>match_step\<close>, and the loop's own limit of 100000
  iterations is \<open>match_loop\<close>'s guard.
\<close>

record mstate =
  pattern :: cstr
  str :: cstr
  cnt :: int
  asterisk :: bool
  percent :: bool
  last_asterisk_point :: "cstr option"
  last_percent_point :: "cstr option"
  last_asterisk_count :: int
  last_percent_count :: int
  after_wildcard :: cstr

subsection \<open>One iteration\<close>

text \<open>An iteration goes on with a new state or returns the value of the match.\<close>

datatype mresult = Continue mstate | Return int

definition step_asterisk :: "mstate \<Rightarrow> mresult" where
  "step_asterisk m =
     (if str m = [] then Return 0
      else if cat (pattern m) 0 = CHR 0x5C then Continue (m\<lparr>pattern := tl (pattern m)\<rparr>)
      else if cat (pattern m) 0 = CHR ''?''
              \<or> c_tolower (cat (str m) 0) = c_tolower (cat (pattern m) 0)
      then Continue (m\<lparr>asterisk := False, last_asterisk_point := Some (str m),
                       last_asterisk_count := cnt m\<rparr>)
      else Continue (m\<lparr>str := tl (str m)\<rparr>))"

text \<open>
  In the \<open>%\<close> branch a backslash that is not followed by the wanted character ends the
  iteration (\<open>continue\<close>); otherwise the tests below it run in the same iteration.
\<close>

definition step_percent :: "mstate \<Rightarrow> mresult" where
  "step_percent m =
     (if str m = [] then Return (if pattern m \<noteq> [] then 0 else cnt m)
      else
        let esc = (cat (pattern m) 0 = CHR 0x5C);
            m1 = (if esc then m\<lparr>pattern := tl (pattern m)\<rparr> else m)
        in if esc \<and> c_tolower (cat (str m) 0) \<noteq> c_tolower (cat (pattern m1) 0) then Continue m1
           else if cat (str m) 0 = CHR '' ''
           then Continue (m1\<lparr>percent := False, last_percent_point := None\<rparr>)
           else if c_tolower (cat (str m) 0) \<noteq> c_tolower (cat (pattern m1) 0)
           then Continue (m1\<lparr>str := tl (str m)\<rparr>)
           else Continue (m1\<lparr>percent := False, last_percent_point := Some (str m),
                             last_percent_count := cnt m\<rparr>))"

definition is_wild :: "char \<Rightarrow> bool" where
  "is_wild c \<longleftrightarrow> c = CHR ''*'' \<or> c = CHR ''%''"

definition step_wild :: "mstate \<Rightarrow> mresult" where
  "step_wild m =
     (let run = takeWhile is_wild (pattern m);
          rest = dropWhile is_wild (pattern m);
          m1 = m\<lparr>pattern := rest, after_wildcard := rest\<rparr>
      in if CHR ''*'' \<in> set run
         then (if rest = [] then Return (cnt m)
               else Continue (m1\<lparr>asterisk := True, percent := False,
                                 last_asterisk_point := Some (str m), last_asterisk_count := cnt m\<rparr>))
         else Continue (m1\<lparr>asterisk := False, percent := True,
                           last_percent_point := Some (str m), last_percent_count := cnt m\<rparr>))"

definition step_plain :: "mstate \<Rightarrow> mresult" where
  "step_plain m =
     (if pattern m = [] \<and> str m = [] then Return (cnt m)
      else if c_tolower (cat (pattern m) 0) = c_tolower (cat (str m) 0)
      then Continue (m\<lparr>cnt := cnt m + 1, pattern := tl (pattern m), str := tl (str m)\<rparr>)
      else case last_asterisk_point m of
        Some p \<Rightarrow> Continue (m\<lparr>asterisk := True, str := tl p, pattern := after_wildcard m,
                              cnt := last_asterisk_count m\<rparr>)
      | None \<Rightarrow>
          (case last_percent_point m of
             Some p \<Rightarrow> Continue (m\<lparr>percent := True, str := tl p, pattern := after_wildcard m,
                                   cnt := last_percent_count m\<rparr>)
           | None \<Rightarrow> Return 0))"

definition match_step :: "mstate \<Rightarrow> mresult" where
  "match_step m =
     (if asterisk m then step_asterisk m
      else if percent m then step_percent m
      else
        let c = cat (pattern m) 0 in
        if is_wild c then step_wild m
        else if c = CHR ''?''
        then (if str m = [] then Return 0
              else Continue (m\<lparr>pattern := tl (pattern m), str := tl (str m)\<rparr>))
        else if c = CHR 0x5C
        then (let p = tl (pattern m)
              in if p = [] \<or> c_tolower (cat p 0) \<noteq> c_tolower (cat (str m) 0) then Return 0
                 else Continue (m\<lparr>cnt := cnt m + 1, pattern := tl p, str := tl (str m)\<rparr>))
        else step_plain m)"

subsection \<open>The loop\<close>

abbreviation SANITY :: nat where "SANITY \<equiv> 100000"

function match_loop :: "nat \<Rightarrow> mstate \<Rightarrow> int" where
  "match_loop sanity m =
     (if SANITY < sanity then 0
      else case match_step m of Return r \<Rightarrow> r | Continue m' \<Rightarrow> match_loop (Suc sanity) m')"
  by pat_completeness auto
termination
  by (relation "measure (\<lambda>(sanity, m). Suc SANITY - sanity)") auto

declare match_loop.simps [simp del]

definition match_init :: "cstr \<Rightarrow> cstr \<Rightarrow> mstate" where
  "match_init p s =
     \<lparr>pattern = p, str = s, cnt = 1, asterisk = False, percent = False,
      last_asterisk_point = None, last_percent_point = None, last_asterisk_count = 0,
      last_percent_count = 0, after_wildcard = []\<rparr>"

definition new_match :: "cstr \<Rightarrow> cstr \<Rightarrow> int" where
  "new_match p s = match_loop 0 (match_init p s)"

subsection \<open>Sets of alternatives\<close>

text \<open>The first \<open>\[\<close>: what is before it and what follows it.\<close>

fun split_open :: "cstr \<Rightarrow> (cstr \<times> cstr) option" where
  "split_open (c # d # s) =
     (if c = CHR 0x5C \<and> d = CHR ''['' then Some ([], s)
      else map_option (\<lambda>(b, a). (c # b, a)) (split_open (d # s)))"
| "split_open s = None"

datatype closing =
    Closed cstr cstr  \<comment> \<open>the text between the brackets and the text after them\<close>
  | Unmatched
  | PastEnd  \<comment> \<open>a backslash ends the pattern and the scan goes on after its NUL\<close>

fun close_loop :: "nat \<Rightarrow> cstr \<Rightarrow> cstr \<Rightarrow> closing" where
  "close_loop nest acc [] = Unmatched"
| "close_loop nest acc [c] = (if c = CHR 0x5C then PastEnd else Unmatched)"
| "close_loop nest acc (c # d # s) =
     (if c \<noteq> CHR 0x5C then close_loop nest (acc @ [c]) (d # s)
      else
        let nest' = (if d = CHR ''['' then nest + 1 else if d = CHR '']'' then nest - 1 else nest)
        in if nest' = 0 then Closed acc s else close_loop nest' (acc @ [c, d]) s)"

text \<open>All arguments of a line; no value when the loop over \<open>new_next_arg\<close> never ends.\<close>

partial_function (option) all_args :: "cstr \<Rightarrow> cstr list option" where
  "all_args s =
     (case new_next_arg s of
        (None, r) \<Rightarrow> Some []
      | (Some w, r) \<Rightarrow> Option.bind (all_args r) (\<lambda>ws. Some (w # ws)))"

declare all_args.simps [code]

abbreviation BIG_BUFFER_SIZE :: nat where "BIG_BUFFER_SIZE \<equiv> 2048"

definition alternative :: "cstr \<Rightarrow> cstr \<Rightarrow> cstr \<Rightarrow> cstr" where
  "alternative front arg rest =
     fst (strlcat (fst (strlcat (fst (strlcpy [] front BIG_BUFFER_SIZE)) arg BIG_BUFFER_SIZE))
            rest BIG_BUFFER_SIZE)"

text \<open>\<open>best_total\<close>: the largest value of the alternatives, 0 if there is none.\<close>

fun best_total :: "int \<Rightarrow> int option list \<Rightarrow> int option" where
  "best_total best [] = Some best"
| "best_total best (v # vs) =
     (case v of None \<Rightarrow> None
      | Some tmpval \<Rightarrow> best_total (if tmpval \<noteq> 0 \<and> best < tmpval then tmpval else best) vs)"

lemma new_next_arg_lengths:
  "new_next_arg s = (Some w, r) \<Longrightarrow> length w \<le> length s \<and> length r \<le> length s"
proof -
  assume n: "new_next_arg s = (Some w, r)"
  have q: "quoted t = (u, v) \<Longrightarrow> length u \<le> length t \<and> length v \<le> length t" for t u v
    by (induction t arbitrary: u v rule: quoted.induct) (fastforce split: if_splits prod.splits)+
  have sk: "length (skip_space t) \<le> length t" for t by (cases t) (auto simp: skip_space_def)
  define p where "p = dropWhile risspace s"
  have p: "length p \<le> length s" unfolding p_def by (rule length_dropWhile_le)
  have sne: "s \<noteq> []" using n by (auto simp: new_next_arg_def)
  consider "cat p 0 = CHR 0x22" | "cat p 0 \<noteq> CHR 0x22" "p \<noteq> []" | "p = []" by blast
  then show ?thesis
  proof cases
    case 1
    obtain u v where uv: "quoted (tl p) = (u, v)" by fastforce
    then have "w = u" "r = skip_space v"
      using n sne 1 by (auto simp: new_next_arg_def p_def [symmetric] Let_def)
    then show ?thesis using q [OF uv] sk [of v] p by auto
  next
    case 2
    then have "w = takeWhile (\<lambda>c. \<not> risspace c) p" "r = skip_space (dropWhile (\<lambda>c. \<not> risspace c) p)"
      using n sne by (auto simp: new_next_arg_def p_def [symmetric] Let_def)
    then show ?thesis
      using p sk [of "dropWhile (\<lambda>c. \<not> risspace c) p"] length_takeWhile_le [of "\<lambda>c. \<not> risspace c" p]
        length_dropWhile_le [of "\<lambda>c. \<not> risspace c" p] by simp
  next
    case 3
    then show ?thesis using n sne by (auto simp: new_next_arg_def p_def [symmetric] Let_def)
  qed
qed

lemma all_args_lengths:
  assumes "all_args s = Some ws" "w \<in> set ws"
  shows "length w \<le> length s"
proof -
  have "\<forall>w \<in> set ws. length w \<le> length s"
  proof (rule all_args.raw_induct [where P = "\<lambda>s ws. \<forall>w \<in> set ws. length w \<le> length s", OF _ assms(1)])
    fix f s ws
    assume IH: "\<And>s ws. f s = Some ws \<Longrightarrow> \<forall>w \<in> set ws. length w \<le> length s"
      and eq: "(case new_next_arg s of (None, r) \<Rightarrow> Some []
        | (Some w, r) \<Rightarrow> Option.bind (f r) (\<lambda>ws. Some (w # ws))) = Some ws"
    show "\<forall>w \<in> set ws. length w \<le> length s"
    proof (cases "new_next_arg s")
      case (Pair a r)
      show ?thesis
      proof (cases a)
        case None
        then show ?thesis using eq Pair by simp
      next
        case (Some v)
        then obtain vs where "f r = Some vs" "ws = v # vs"
          using eq Pair by (auto simp: bind_eq_Some_conv)
        then show ?thesis using IH [of r vs] new_next_arg_lengths [of s v r] Pair Some by fastforce
      qed
    qed
  qed
  then show ?thesis using assms(2) by blast
qed

lemma split_open_length: "split_open p = Some (b, a) \<Longrightarrow> length p = length b + 2 + length a"
  by (induction p arbitrary: b a rule: split_open.induct) (auto split: if_splits)

lemma close_loop_length:
  "close_loop n acc s = Closed t r \<Longrightarrow> length t + 2 + length r = length acc + length s"
  by (induction n acc s rule: close_loop.induct) (fastforce simp: Let_def split: if_splits)+

lemma length_strlcpy_le: "length (fst (strlcpy d t n)) \<le> length d + length t"
  by (auto simp: strlcpy_def)

lemma length_strlcat_le: "length (fst (strlcat d t n)) \<le> length d + length t"
  by (auto simp: strlcat_def)

lemma length_alternative_le: "length (alternative b a r) \<le> length b + length a + length r"
  unfolding alternative_def
  using length_strlcat_le [of "fst (strlcat (fst (strlcpy [] b BIG_BUFFER_SIZE)) a BIG_BUFFER_SIZE)" r BIG_BUFFER_SIZE]
    length_strlcat_le [of "fst (strlcpy [] b BIG_BUFFER_SIZE)" a BIG_BUFFER_SIZE]
    length_strlcpy_le [of "[]" b BIG_BUFFER_SIZE]
  by simp

function wild_match :: "cstr \<Rightarrow> cstr \<Rightarrow> int option" where
  "wild_match p s =
     (case split_open p of
        None \<Rightarrow> Some (new_match p s)
      | Some (front, after) \<Rightarrow>
          (case close_loop 1 [] after of
             PastEnd \<Rightarrow> None
           | Unmatched \<Rightarrow> Some (new_match p s)
           | Closed inner rest \<Rightarrow>
               (case all_args inner of
                  None \<Rightarrow> None
                | Some args \<Rightarrow>
                    best_total 0 (map (\<lambda>arg. wild_match (alternative front arg rest) s) args))))"
  by pat_completeness auto
termination
proof (relation "measure (\<lambda>(p, s). length p)", simp)
  fix p s x b a t r args arg
  assume "split_open p = Some x" "(b, a) = x" "close_loop 1 [] a = Closed t r"
    "all_args t = Some args" "arg \<in> set args"
  then have "length p = length b + 2 + length a" "length t + 2 + length r = length a" "length arg \<le> length t"
    using split_open_length [of p b a] close_loop_length [of 1 "[]" a t r] all_args_lengths by auto
  then show "((alternative b arg r, s), p, s) \<in> measure (\<lambda>(p, s). length p)"
    using length_alternative_le [of b arg r] by simp
qed

declare wild_match.simps [simp del]

subsection \<open>What a match means\<close>

text \<open>
  The declarative reading of a pattern of \<open>*\<close>, \<open>?\<close> and ordinary characters, with no
  backtracking points: \<open>*\<close> stands for any text, \<open>?\<close> for one character.
\<close>

definition char_matches :: "char \<Rightarrow> char \<Rightarrow> bool" where
  "char_matches c d \<longleftrightarrow> c = CHR ''?'' \<or> c_tolower c = c_tolower d"

function glob :: "cstr \<Rightarrow> cstr \<Rightarrow> bool" where
  "glob [] s = (s = [])"
| "glob (c # p) [] = (c = CHR ''*'' \<and> glob p [])"
| "glob (c # p) (d # s) =
     (if c = CHR ''*'' then glob p (d # s) \<or> glob (c # p) s
      else char_matches c d \<and> glob p s)"
  by pat_completeness auto
termination by (relation "measure (\<lambda>(p, s). length p + length s)") auto

definition literals :: "cstr \<Rightarrow> int" where
  "literals p = int (length (filter (\<lambda>c. c \<noteq> CHR ''*'' \<and> c \<noteq> CHR ''?'') p))"

definition plain_pattern :: "cstr \<Rightarrow> bool" where
  "plain_pattern p \<longleftrightarrow> CHR ''%'' \<notin> set p \<and> CHR 0x5C \<notin> set p \<and> no_nul p"

definition match_bound :: "cstr \<Rightarrow> cstr \<Rightarrow> nat" where
  "match_bound p s = (length p + 1 + length s) * (length p + 2) + length p"

lemma literals_simps [simp]:
  "literals [] = 0"
  "literals (c # p) = (if c = CHR ''*'' \<or> c = CHR ''?'' then literals p else 1 + literals p)"
  by (auto simp: literals_def)

lemma plain_pattern_simps [simp]:
  "plain_pattern []"
  "plain_pattern (c # p) \<longleftrightarrow> c \<noteq> CHR ''%'' \<and> c \<noteq> CHR 0x5C \<and> c \<noteq> NUL \<and> plain_pattern p"
  by (auto simp: plain_pattern_def)

lemma plain_pattern_append [simp]: "plain_pattern (u @ v) \<longleftrightarrow> plain_pattern u \<and> plain_pattern v"
  by (auto simp: plain_pattern_def)

lemma glob_star: "glob (CHR ''*'' # p) s \<longleftrightarrow> glob p s \<or> (s \<noteq> [] \<and> glob (CHR ''*'' # p) (tl s))"
  by (cases s) auto

lemma glob_star_suffix: "glob (CHR ''*'' # p) s \<longleftrightarrow> (\<exists>n \<le> length s. glob p (drop n s))"
proof (induction s)
  case (Cons d s)
  have "(\<exists>n \<le> length (d # s). glob p (drop n (d # s)))
      \<longleftrightarrow> glob p (d # s) \<or> (\<exists>n \<le> length s. glob p (drop n s))" (is "?L = ?R")
  proof
    assume ?L
    then obtain n where "n \<le> length (d # s)" "glob p (drop n (d # s))" by blast
    then show ?R by (cases n) auto
  next
    assume ?R
    then show ?L
    proof
      assume "glob p (d # s)"
      then show ?L by (intro exI [of _ 0]) simp
    next
      assume "\<exists>n \<le> length s. glob p (drop n s)"
      then obtain n where "n \<le> length s" "glob p (drop n s)" by blast
      then show ?L by (intro exI [of _ "Suc n"]) simp
    qed
  qed
  then show ?case using Cons by simp
qed simp

lemma glob_star_mono: "glob (CHR ''*'' # p) (drop n s) \<Longrightarrow> glob (CHR ''*'' # p) s"
proof (cases "n \<le> length s")
  case True
  assume "glob (CHR ''*'' # p) (drop n s)"
  then obtain k where "k \<le> length s - n" "glob p (drop (k + n) s)"
    by (auto simp: glob_star_suffix)
  then show ?thesis
    unfolding glob_star_suffix using True by (intro exI [of _ "k + n"]) simp
next
  case False
  assume "glob (CHR ''*'' # p) (drop n s)"
  then have "glob p []" using False by simp
  then show ?thesis unfolding glob_star_suffix by (intro exI [of _ "length s"]) simp
qed

text \<open>A star-free beginning uses up exactly its own length.\<close>

lemma glob_star_free:
  "CHR ''*'' \<notin> set u \<Longrightarrow> glob (u @ v) s \<Longrightarrow> length u \<le> length s \<and> glob v (drop (length u) s)"
proof (induction u arbitrary: s)
  case (Cons c u)
  then show ?case by (cases s) (auto split: if_splits)
qed simp

lemma glob_nonempty: "glob (c # p) [] \<Longrightarrow> c = CHR ''*''"
  by simp

text \<open>Where a later star is reached, the points before it need not be tried again.\<close>

lemma later_star:
  assumes "CHR ''*'' \<notin> set u" "glob (CHR ''*'' # u @ CHR ''*'' # v) (drop n l)"
  shows "glob (CHR ''*'' # v) (drop (length u) l)"
proof -
  obtain k where "k \<le> length (drop n l)" "glob (u @ CHR ''*'' # v) (drop k (drop n l))"
    using assms(2) unfolding glob_star_suffix by blast
  then have "glob (CHR ''*'' # v) (drop (length u) (drop k (drop n l)))"
    using glob_star_free [OF assms(1)] by blast
  then have "glob (CHR ''*'' # v) (drop (k + n) (drop (length u) l))"
    by (simp add: ac_simps)
  then show ?thesis by (rule glob_star_mono)
qed

lemma glob_star_star: "glob (CHR ''*'' # CHR ''*'' # q) s \<longleftrightarrow> glob (CHR ''*'' # q) s"
proof
  assume "glob (CHR ''*'' # CHR ''*'' # q) s"
  then obtain n where "glob (CHR ''*'' # q) (drop n s)" unfolding glob_star_suffix [of "_ # q"] by blast
  then show "glob (CHR ''*'' # q) s" by (rule glob_star_mono)
qed (subst glob_star, simp)

lemma glob_runs:
  assumes "plain_pattern p" "is_wild (cat p 0)"
  shows "glob p s \<longleftrightarrow> glob (CHR ''*'' # dropWhile is_wild p) s"
  using assms
proof (induction p arbitrary: s)
  case (Cons c p)
  then have c: "c = CHR ''*''" by (auto simp: is_wild_def)
  show ?case
  proof (cases "is_wild (cat p 0)")
    case True
    have "glob p t \<longleftrightarrow> glob (CHR ''*'' # dropWhile is_wild p) t" for t
      using Cons.prems True by (intro Cons.IH) auto
    then have "glob (CHR ''*'' # p) s \<longleftrightarrow> glob (CHR ''*'' # CHR ''*'' # dropWhile is_wild p) s"
      unfolding glob_star_suffix [of p] glob_star_suffix [of "_ # _"] by blast
    moreover have "is_wild c" using c by (simp add: is_wild_def)
    ultimately show ?thesis using c glob_star_star by simp
  next
    case False
    then have "dropWhile is_wild p = p" by (cases p) auto
    moreover have "is_wild c" using c by (simp add: is_wild_def)
    ultimately show ?thesis using c by simp
  qed
qed (simp add: is_wild_def)

subsection \<open>The loop decides the meaning\<close>

text \<open>
  What a state of the loop still stands for: the rest of the pattern against the rest of
  the string, or another try from the point of the last star.
\<close>

definition meaning :: "mstate \<Rightarrow> bool" where
  "meaning m =
     (if asterisk m then glob (CHR ''*'' # pattern m) (str m)
      else glob (pattern m) (str m) \<or>
        (case last_asterisk_point m of None \<Rightarrow> False
         | Some l \<Rightarrow> glob (CHR ''*'' # after_wildcard m) (tl l)))"

definition star_point :: "int \<Rightarrow> mstate \<Rightarrow> cstr \<Rightarrow> bool" where
  "star_point n m l \<longleftrightarrow>
     last_asterisk_count m + literals (after_wildcard m) = n \<and> l \<noteq> [] \<and>
     after_wildcard m \<noteq> [] \<and> \<not> is_wild (cat (after_wildcard m) 0) \<and> no_nul l \<and>
     plain_pattern (after_wildcard m) \<and>
     (\<exists>u. after_wildcard m = u @ pattern m \<and> CHR ''*'' \<notin> set u \<and>
          str m = drop (length u) l \<and> length u \<le> length l)"

definition match_inv :: "int \<Rightarrow> mstate \<Rightarrow> bool" where
  "match_inv n m \<longleftrightarrow>
     \<not> percent m \<and> last_percent_point m = None \<and> no_nul (str m) \<and> plain_pattern (pattern m) \<and>
     cnt m + literals (pattern m) = n \<and>
     (if asterisk m
      then after_wildcard m = pattern m \<and> pattern m \<noteq> [] \<and> \<not> is_wild (cat (pattern m) 0)
      else case last_asterisk_point m of None \<Rightarrow> True | Some l \<Rightarrow> star_point n m l)"

text \<open>What decreases: the star not yet reached, the text it may start from, the pattern.\<close>

definition potential :: "nat \<Rightarrow> nat \<Rightarrow> mstate \<Rightarrow> nat" where
  "potential np ns m =
     (if asterisk m then (length (pattern m) + length (str m)) * (np + 2) + np + 1
      else (case last_asterisk_point m of None \<Rightarrow> np + 1 + ns
            | Some l \<Rightarrow> length (after_wildcard m) + length l) * (np + 2) + length (pattern m))"

definition sizes_ok :: "nat \<Rightarrow> nat \<Rightarrow> mstate \<Rightarrow> bool" where
  "sizes_ok np ns m \<longleftrightarrow> length (str m) \<le> ns \<and> length (pattern m) \<le> np \<and>
     (if asterisk m then length (pattern m) < np
      else case last_asterisk_point m of None \<Rightarrow> True
           | Some l \<Rightarrow> length l \<le> ns \<and> length (after_wildcard m) < np)"

definition step_good :: "nat \<Rightarrow> nat \<Rightarrow> int \<Rightarrow> mstate \<Rightarrow> mresult \<Rightarrow> bool" where
  "step_good np ns n m r \<longleftrightarrow>
     (case r of Return v \<Rightarrow> v = (if meaning m then n else 0)
      | Continue m' \<Rightarrow> match_inv n m' \<and> sizes_ok np ns m' \<and> meaning m' = meaning m
                      \<and> potential np ns m' < potential np ns m)"

lemma step_asterisk_good:
  assumes "match_inv n m" "sizes_ok np ns m" "asterisk m"
  shows "step_good np ns n m (step_asterisk m)"
proof (cases "str m")
  case Nil
  then have "\<not> meaning m"
    using assms by (cases "pattern m") (auto simp: meaning_def match_inv_def is_wild_def)
  then show ?thesis using Nil by (simp add: step_good_def step_asterisk_def)
next
  case (Cons d s)
  obtain c p where p: "pattern m = c # p" using assms by (cases "pattern m") (auto simp: match_inv_def)
  have c: "c \<noteq> CHR 0x5C" "c \<noteq> CHR ''*''" using assms p by (auto simp: match_inv_def is_wild_def)
  show ?thesis
  proof (cases "char_matches c d")
    case True
    then show ?thesis using assms p c Cons
      by (auto simp: step_good_def step_asterisk_def meaning_def match_inv_def char_matches_def
          sizes_ok_def star_point_def potential_def)
  next
    case False
    then show ?thesis using assms p c Cons
      by (auto simp: step_good_def step_asterisk_def meaning_def match_inv_def char_matches_def
          sizes_ok_def potential_def)
  qed
qed

lemma step_wild_good:
  assumes "match_inv n m" "sizes_ok np ns m" "\<not> asterisk m" "is_wild (cat (pattern m) 0)"
  shows "step_good np ns n m (step_wild m)"
proof -
  define rest where "rest = dropWhile is_wild (pattern m)"
  have pp: "plain_pattern (pattern m)" using assms by (simp add: match_inv_def)
  obtain c p where p: "pattern m = c # p" and c: "c = CHR ''*''"
    using assms(4) pp by (cases "pattern m") (auto simp: is_wild_def)
  have star: "CHR ''*'' \<in> set (takeWhile is_wild (pattern m))" using p c by (simp add: is_wild_def)
  have gl: "glob (pattern m) (str m) \<longleftrightarrow> glob (CHR ''*'' # rest) (str m)"
    unfolding rest_def by (rule glob_runs [OF pp assms(4)])
  have pre: "\<And>l. last_asterisk_point m = Some l \<Longrightarrow> glob (CHR ''*'' # after_wildcard m) (tl l)
      \<Longrightarrow> glob (pattern m) (str m)"
  proof -
    fix l assume l: "last_asterisk_point m = Some l" "glob (CHR ''*'' # after_wildcard m) (tl l)"
    then obtain u where "after_wildcard m = u @ pattern m" "CHR ''*'' \<notin> set u" "str m = drop (length u) l"
      using assms by (auto simp: match_inv_def star_point_def)
    then show "glob (pattern m) (str m)" using later_star [of u p 1 l] l p c by (simp add: drop_Suc)
  qed
  have mean: "meaning m \<longleftrightarrow> glob (CHR ''*'' # rest) (str m)"
    using assms(3) pre gl by (auto simp: meaning_def split: option.splits)
  have run_lits: "literals (takeWhile is_wild q) = 0" if "plain_pattern q" for q
    using that by (induction q) (auto simp: is_wild_def)
  have "literals (pattern m) = literals (takeWhile is_wild (pattern m)) + literals rest"
    unfolding rest_def by (metis (no_types, lifting) filter_append length_append literals_def
      of_nat_add takeWhile_dropWhile_id)
  then have lits: "literals (pattern m) = literals rest" using run_lits [OF pp] by simp
  have wrest: "rest = [] \<or> \<not> is_wild (cat rest 0)" unfolding rest_def
    by (cases "dropWhile is_wild (pattern m)") (auto dest: dropWhile_hd)
  have prest: "plain_pattern rest" using pp unfolding rest_def plain_pattern_def
    by (auto dest: set_dropWhileD)
  have len: "length rest < length (pattern m)" unfolding rest_def p c
    by (simp add: is_wild_def less_Suc_eq_le length_dropWhile_le)
  show ?thesis
  proof (cases "rest = []")
    case True
    then have "meaning m" unfolding mean glob_star_suffix by (intro exI [of _ "length (str m)"]) simp
    moreover have "cnt m = n" using assms lits True by (simp add: match_inv_def)
    ultimately show ?thesis using star True by (simp add: step_good_def step_wild_def rest_def Let_def)
  next
    case False
    define m' where "m' = m\<lparr>pattern := rest, after_wildcard := rest, asterisk := True, percent := False,
        last_asterisk_point := Some (str m), last_asterisk_count := cnt m\<rparr>"
    have st: "step_wild m = Continue m'"
      using star False by (simp add: step_wild_def rest_def m'_def Let_def)
    have inv: "match_inv n m'" using assms False wrest prest lits by (auto simp: match_inv_def m'_def)
    have sz: "sizes_ok np ns m'" using assms len by (simp add: sizes_ok_def m'_def)
    have me: "meaning m' = meaning m" unfolding mean by (simp add: meaning_def m'_def)
    have less: "length rest + length (str m) <
        (case last_asterisk_point m of None \<Rightarrow> np + 1 + ns | Some l \<Rightarrow> length (after_wildcard m) + length l)"
      (is "?a < ?b")
      using assms len by (auto simp: sizes_ok_def match_inv_def star_point_def split: option.splits)
    have "Suc ?a * (np + 2) \<le> ?b * (np + 2)" using less by (intro mult_le_mono1) simp
    then have po: "potential np ns m' < potential np ns m"
      using assms(3) by (simp add: potential_def m'_def p)
    show ?thesis using st inv sz me po by (simp add: step_good_def)
  qed
qed

lemma consume_good:
  assumes "match_inv n m" "sizes_ok np ns m" "\<not> asterisk m"
    "pattern m = c # p" "str m = d # s" "c \<noteq> CHR ''*''" "char_matches c d"
  shows "step_good np ns n m (Continue (m\<lparr>cnt := cnt m + literals [c], pattern := p, str := s\<rparr>))"
proof -
  define m' where "m' = m\<lparr>cnt := cnt m + literals [c], pattern := p, str := s\<rparr>"
  have "star_point n m' l" if l: "star_point n m l" for l
  proof -
    obtain u where u: "after_wildcard m = u @ pattern m" "CHR ''*'' \<notin> set u" "str m = drop (length u) l"
      using l by (auto simp: star_point_def)
    have len: "length u < length l" using u(3) assms(5) by (metis drop_all list.distinct(1) not_le)
    have "\<exists>v. after_wildcard m' = v @ pattern m' \<and> CHR ''*'' \<notin> set v \<and>
          str m' = drop (length v) l \<and> length v \<le> length l"
    proof (intro exI [of _ "u @ [c]"] conjI)
      have "s = tl (drop (length u) l)" using u(3) assms(5) by (metis list.sel(3))
      then show "str m' = drop (length (u @ [c])) l" by (simp add: m'_def drop_Suc tl_drop)
    qed (use u assms len in \<open>auto simp: m'_def\<close>)
    moreover have same: "after_wildcard m' = after_wildcard m"
      "last_asterisk_count m' = last_asterisk_count m"
      by (simp_all add: m'_def)
    ultimately show ?thesis using l unfolding star_point_def by (simp only: same not_False_eq_True simp_thms)
  qed
  moreover have "asterisk m' = asterisk m" "last_asterisk_point m' = last_asterisk_point m"
      "percent m' = percent m" "last_percent_point m' = last_percent_point m" "str m' = s"
      "pattern m' = p" "cnt m' = cnt m + literals [c]"
    by (simp_all add: m'_def)
  ultimately have "match_inv n m'" using assms(1,3-6)
    by (cases "last_asterisk_point m"; cases "c = CHR ''?''") (simp_all add: match_inv_def)
  moreover have "sizes_ok np ns m'" using assms
    by (cases "last_asterisk_point m") (simp_all add: sizes_ok_def m'_def)
  moreover have "meaning m' = meaning m" using assms
    by (cases "last_asterisk_point m") (simp_all add: meaning_def m'_def)
  moreover have "potential np ns m' < potential np ns m" using assms
    by (cases "last_asterisk_point m") (simp_all add: potential_def m'_def)
  ultimately show ?thesis unfolding step_good_def m'_def [symmetric] by simp
qed

lemma backtrack_good:
  assumes "match_inv n m" "sizes_ok np ns m" "\<not> asterisk m" "\<not> glob (pattern m) (str m)"
  shows "step_good np ns n m
    (case last_asterisk_point m of
       Some p \<Rightarrow> Continue (m\<lparr>asterisk := True, str := tl p, pattern := after_wildcard m,
                             cnt := last_asterisk_count m\<rparr>)
     | None \<Rightarrow> Return 0)"
proof (cases "last_asterisk_point m")
  case None
  then show ?thesis using assms by (simp add: step_good_def meaning_def)
next
  case (Some l)
  then have sp: "star_point n m l" using assms by (simp add: match_inv_def)
  then obtain d s where l: "l = d # s" by (cases l) (auto simp: star_point_def)
  show ?thesis using assms sp Some l
    by (auto simp: step_good_def match_inv_def star_point_def sizes_ok_def meaning_def potential_def)
qed

lemma question_end:
  assumes "match_inv n m" "\<not> asterisk m" "pattern m = CHR ''?'' # p" "str m = []"
  shows "\<not> meaning m"
proof
  assume "meaning m"
  then obtain l where l: "last_asterisk_point m = Some l" "glob (CHR ''*'' # after_wildcard m) (tl l)"
    using assms by (auto simp: meaning_def split: option.splits)
  then have sp: "star_point n m l" using assms by (simp add: match_inv_def)
  then obtain u where u: "after_wildcard m = u @ pattern m" "CHR ''*'' \<notin> set u"
      "str m = drop (length u) l" "l \<noteq> []"
    by (auto simp: star_point_def)
  obtain k where "glob (after_wildcard m) (drop k (tl l))"
    using l(2) unfolding glob_star_suffix by blast
  then have "length u \<le> length l - 1 - k" using glob_star_free [OF u(2)] u(1) by force
  moreover have "length l \<le> length u" using u(3) assms(4) by simp
  moreover have "0 < length l" using u(4) by simp
  ultimately show False by linarith
qed

lemma step_other_good:
  assumes "match_inv n m" "sizes_ok np ns m" "\<not> asterisk m" "\<not> is_wild (cat (pattern m) 0)"
  shows "step_good np ns n m (match_step m)"
proof -
  have np: "\<not> percent m" "last_percent_point m = None" "no_nul (str m)" "plain_pattern (pattern m)"
    using assms by (auto simp: match_inv_def)
  have bs: "cat (pattern m) 0 \<noteq> CHR 0x5C" using np by (cases "pattern m") auto
  have plain: "step_good np ns n m (step_plain m)" if q: "cat (pattern m) 0 \<noteq> CHR ''?''"
  proof (cases "c_tolower (cat (pattern m) 0) = c_tolower (cat (str m) 0)")
    case True
    show ?thesis
    proof (cases "pattern m")
      case Nil
      with True have "c_tolower (cat (str m) 0) = NUL" by simp
      then have "cat (str m) 0 = NUL" by (simp only: tolower_NUL_iff)
      with np(3) have "str m = []" by (cases "str m") auto
      then show ?thesis using Nil assms
        by (simp add: step_plain_def step_good_def meaning_def match_inv_def)
    next
      case (Cons c p)
      then have "cat (str m) 0 \<noteq> NUL" using True np(4) by auto
      then obtain d s where s: "str m = d # s" by (cases "str m") auto
      have c: "c \<noteq> CHR ''*''" "c \<noteq> CHR ''?''" using assms(4) q Cons by (auto simp: is_wild_def)
      have m: "char_matches c d" using True s Cons by (simp add: char_matches_def)
      show ?thesis using consume_good [OF assms(1-3) Cons s c(1) m] c True s Cons
        by (simp add: step_plain_def)
    qed
  next
    case False
    have "\<not> glob (pattern m) (str m)"
      using False q assms(4) by (cases "(pattern m, str m)" rule: glob.cases) (auto simp: char_matches_def is_wild_def)
    then have "step_good np ns n m
        (case last_asterisk_point m of
           Some p \<Rightarrow> Continue (m\<lparr>asterisk := True, str := tl p, pattern := after_wildcard m,
                                 cnt := last_asterisk_count m\<rparr>)
         | None \<Rightarrow> Return 0)"
      by (rule backtrack_good [OF assms(1-3)])
    then show ?thesis using False np by (auto simp: step_plain_def split: option.splits)
  qed
  show ?thesis
  proof (cases "cat (pattern m) 0 = CHR ''?''")
    case True
    then obtain p where p: "pattern m = CHR ''?'' # p" by (cases "pattern m") auto
    show ?thesis
    proof (cases "str m")
      case Nil
      then show ?thesis using question_end [OF assms(1,3) p Nil] p np assms(3)
        by (simp add: match_step_def step_good_def is_wild_def)
    next
      case (Cons d s)
      have "char_matches (CHR ''?'') d" by (simp add: char_matches_def)
      then show ?thesis using consume_good [OF assms(1-3) p Cons] p np assms(3) Cons
        by (simp add: match_step_def is_wild_def)
    qed
  next
    case False
    then show ?thesis using plain bs assms np by (simp add: match_step_def Let_def)
  qed
qed

lemma match_step_good:
  assumes "match_inv n m" "sizes_ok np ns m"
  shows "step_good np ns n m (match_step m)"
proof (cases "asterisk m")
  case True
  then show ?thesis using step_asterisk_good [OF assms] by (simp add: match_step_def)
next
  case False
  have "\<not> percent m" using assms by (simp add: match_inv_def)
  then show ?thesis using step_wild_good [OF assms False] step_other_good [OF assms False] False
    by (cases "is_wild (cat (pattern m) 0)") (simp_all add: match_step_def)
qed

lemma match_loop_decides:
  "match_inv n m \<Longrightarrow> sizes_ok np ns m \<Longrightarrow> sanity + potential np ns m \<le> SANITY
    \<Longrightarrow> match_loop sanity m = (if meaning m then n else 0)"
proof (induction sanity m rule: match_loop.induct)
  case (1 sanity m)
  have good: "step_good np ns n m (match_step m)" by (rule match_step_good [OF 1(2,3)])
  show ?case
  proof (cases "match_step m")
    case (Return r)
    then show ?thesis using good 1(4) by (simp add: step_good_def match_loop.simps [of sanity m])
  next
    case (Continue m')
    then have "match_inv n m'" "sizes_ok np ns m'" "meaning m' = meaning m"
        "potential np ns m' < potential np ns m"
      using good by (simp_all add: step_good_def)
    then show ?thesis using 1(1) [OF _ Continue] 1(4) Continue
      by (simp add: match_loop.simps [of sanity m])
  qed
qed

text \<open>
  C35: For a pattern without \<open>%\<close> and backslashes, of a size for which the loop's limit of
  100000 iterations is not reached, \<open>new_match\<close> returns 0 exactly when the pattern does
  not match in the declarative sense, and otherwise one more than the number of literal
  characters of the pattern: greedy matching with a single backtracking point is complete.
\<close>
theorem new_match_decides_glob:
  assumes "plain_pattern p" "no_nul s" "match_bound p s \<le> SANITY"
  shows "new_match p s = (if glob p s then 1 + literals p else 0)"
proof -
  have "match_inv (1 + literals p) (match_init p s)"
    using assms by (simp add: match_inv_def match_init_def)
  moreover have "sizes_ok (length p) (length s) (match_init p s)"
    by (simp add: sizes_ok_def match_init_def)
  moreover have "potential (length p) (length s) (match_init p s) = match_bound p s"
    by (simp add: potential_def match_init_def match_bound_def)
  ultimately show ?thesis
    using match_loop_decides [of "1 + literals p" "match_init p s" "length p" "length s" 0] assms(3)
    by (simp add: new_match_def meaning_def match_init_def)
qed

theorem new_match_decides_glob_witness:
  "new_match ''*.m?3'' ''a.b.MP3'' = (if glob ''*.m?3'' ''a.b.MP3'' then 1 + literals ''*.m?3'' else 0)
    \<and> glob ''*.m?3'' ''a.b.MP3''"
proof -
  have "plain_pattern ''*.m?3''" "no_nul ''a.b.MP3''" "match_bound ''*.m?3'' ''a.b.MP3'' \<le> SANITY"
    by (simp_all add: match_bound_def)
  moreover have "glob ''*.m?3'' ''a.b.MP3''" by code_simp
  ultimately show ?thesis using new_match_decides_glob by blast
qed

text \<open>
  The two backtracking points share \<open>after_wildcard\<close>: after a failure under a \<open>%\<close> that
  follows a \<open>*\<close>, the loop starts again from the star's point with the pattern of the
  \<open>%\<close>, and accepts a string the pattern does not describe.
\<close>

lemma new_match_percent_after_star: "new_match ''*a%b'' ''a b'' = 2"
  by (simp add: new_match_def match_init_def match_loop.simps match_step_def step_wild_def
      step_asterisk_def step_percent_def step_plain_def is_wild_def Let_def
      c_tolower_def is_upper_def)

end
