(* ===== verification/LinkedList.thy ===== *)
theory LinkedList
  imports WildMatch
begin

section \<open>Sorted linked lists (source/list.c)\<close>

text \<open>
  The generic list of the program: nicks, channels, shared files, ping requests, the hot
  list are nodes with a \<open>next\<close> pointer, a \<open>prev\<close> pointer that only the "double" routines
  keep, and a key \<open>name\<close>. The store is an explicit heap from addresses to nodes, because the
  routines change the nodes in place and callers keep pointers to them. A walk that does
  not end (a cyclic list) has the value \<open>None\<close>.
\<close>

type_synonym addr = nat

record List =
  "next" :: "addr option"
  prev :: "addr option"
  name :: cstr

type_synonym heap = "addr \<Rightarrow> List"

subsection \<open>Comparison functions\<close>

definition add_list_strcmp :: "List \<Rightarrow> List \<Rightarrow> int" where
  "add_list_strcmp item1 item2 = strcmp (name item1) (name item2)"

definition add_list_stricmp :: "List \<Rightarrow> List \<Rightarrow> int" where
  "add_list_stricmp item1 item2 = my_stricmp (name item1) (name item2)"

definition list_stricmp :: "List \<Rightarrow> cstr \<Rightarrow> int option" where
  "list_stricmp item1 s = Some (my_stricmp (name item1) s)"

definition list_strnicmp :: "List \<Rightarrow> cstr \<Rightarrow> int option" where
  "list_strnicmp item1 s = Some (my_strnicmp (name item1) s (length s))"

text \<open>\<open>wild_match\<close> may not return, so a comparison is an option.\<close>

definition list_wildstrcmp :: "List \<Rightarrow> cstr \<Rightarrow> int option" where
  "list_wildstrcmp item1 s =
     Option.bind (wild_match (name item1) s) (\<lambda>r.
       if r \<noteq> 0 then Some 0
       else Option.bind (wild_match s (name item1)) (\<lambda>r'. Some (if r' \<noteq> 0 then 0 else 1)))"

definition list_match :: "List \<Rightarrow> cstr \<Rightarrow> int option" where
  "list_match item1 s = wild_match (name item1) s"

subsection \<open>The operations\<close>

text \<open>
  The walk all of them share: the first node that satisfies the test, and the node
  before it.
\<close>

partial_function (option) walk ::
  "addr option \<Rightarrow> addr option \<Rightarrow> heap \<Rightarrow> (List \<Rightarrow> bool option)
    \<Rightarrow> (addr option \<times> addr option) option" where
  "walk tmp lst h stop =
     (case tmp of
        None \<Rightarrow> Some (lst, None)
      | Some t \<Rightarrow>
          (case stop (h t) of
             None \<Rightarrow> None
           | Some b \<Rightarrow> if b then Some (lst, Some t) else walk (next (h t)) (Some t) h stop))"

definition set_next :: "heap \<Rightarrow> addr \<Rightarrow> addr option \<Rightarrow> heap" where
  "set_next h a v = h(a := (h a)\<lparr>next := v\<rparr>)"

definition set_prev :: "heap \<Rightarrow> addr \<Rightarrow> addr option \<Rightarrow> heap" where
  "set_prev h a v = h(a := (h a)\<lparr>prev := v\<rparr>)"

definition add_to_list_ext ::
  "(List \<Rightarrow> List \<Rightarrow> int) \<Rightarrow> heap \<Rightarrow> addr option \<Rightarrow> addr \<Rightarrow> bool \<Rightarrow> (heap \<times> addr option) option" where
  "add_to_list_ext cmp_func h list add dble =
     Option.bind (walk list None h (\<lambda>n. Some (0 < cmp_func n (h add)))) (\<lambda>(lst, tmp).
       let (h', list') =
         (case lst of
            Some l \<Rightarrow>
              let h1 = set_next h l (Some add) in
              (if dble
               then (let h2 = set_prev h1 add (Some l)
                     in case tmp of None \<Rightarrow> h2 | Some t \<Rightarrow> set_prev h2 t (Some add))
               else h1, list)
          | None \<Rightarrow>
              (case list of
                 Some f \<Rightarrow> if dble then set_prev h f (Some add) else h
               | None \<Rightarrow> h, Some add))
       in Some (set_next h' add tmp, list'))"

definition add_to_list :: "heap \<Rightarrow> addr option \<Rightarrow> addr \<Rightarrow> (heap \<times> addr option) option" where
  "add_to_list h list add = add_to_list_ext add_list_stricmp h list add False"

definition add_to_list_double :: "heap \<Rightarrow> addr option \<Rightarrow> addr \<Rightarrow> (heap \<times> addr option) option" where
  "add_to_list_double h list add = add_to_list_ext add_list_stricmp h list add True"

partial_function (option) find_best ::
  "addr option \<Rightarrow> int \<Rightarrow> addr option \<Rightarrow> heap \<Rightarrow> (List \<Rightarrow> int option) \<Rightarrow> addr option option" where
  "find_best tmp best_match match h value =
     (case tmp of
        None \<Rightarrow> Some match
      | Some t \<Rightarrow>
          (case value (h t) of
             None \<Rightarrow> None
           | Some current_match \<Rightarrow>
               if best_match < current_match
               then find_best (next (h t)) current_match (Some t) h value
               else find_best (next (h t)) best_match match h value))"

text \<open>A NULL comparison function (\<open>None\<close>) stands for the default one.\<close>

definition find_in_list_ext ::
  "heap \<Rightarrow> addr option \<Rightarrow> cstr \<Rightarrow> bool \<Rightarrow> (List \<Rightarrow> cstr \<Rightarrow> int option) option \<Rightarrow> addr option option" where
  "find_in_list_ext h list nm wild cmp_func =
     (let cmp = (case cmp_func of None \<Rightarrow> if wild then list_match else list_stricmp | Some f \<Rightarrow> f)
      in if wild then find_best list 0 None h (\<lambda>n. cmp n nm)
         else map_option snd (walk list None h (\<lambda>n. map_option (\<lambda>r. r = 0) (cmp n nm))))"

definition find_in_list :: "heap \<Rightarrow> addr option \<Rightarrow> cstr \<Rightarrow> bool \<Rightarrow> addr option option" where
  "find_in_list h list nm wild = find_in_list_ext h list nm wild None"

text \<open>The results are the store, the head of the list and the node that was taken out.\<close>

definition remove_from_list_ext ::
  "heap \<Rightarrow> addr option \<Rightarrow> cstr \<Rightarrow> (List \<Rightarrow> cstr \<Rightarrow> int option) option
    \<Rightarrow> (heap \<times> addr option \<times> addr option) option" where
  "remove_from_list_ext h list nm cmp_func =
     (let cmp = (case cmp_func of None \<Rightarrow> list_stricmp | Some f \<Rightarrow> f) in
      Option.bind (walk list None h (\<lambda>n. map_option (\<lambda>r. r = 0) (cmp n nm))) (\<lambda>(lst, tmp).
        case tmp of
          None \<Rightarrow> Some (h, list, None)
        | Some t \<Rightarrow>
            (case lst of
               Some l \<Rightarrow> Some (set_next h l (next (h t)), list, Some t)
             | None \<Rightarrow> Some (h, next (h t), Some t))))"

definition remove_from_list :: "heap \<Rightarrow> addr option \<Rightarrow> cstr \<Rightarrow> (heap \<times> addr option \<times> addr option) option" where
  "remove_from_list h list nm = remove_from_list_ext h list nm None"

definition relink :: "heap \<Rightarrow> addr \<Rightarrow> heap" where
  "relink h t =
     (let h1 = (case prev (h t) of None \<Rightarrow> h | Some p \<Rightarrow> set_next h p (next (h t)))
      in case next (h1 t) of None \<Rightarrow> h1 | Some n \<Rightarrow> set_prev h1 n (prev (h1 t)))"

definition remove_from_list_double ::
  "heap \<Rightarrow> addr option \<Rightarrow> cstr \<Rightarrow> (heap \<times> addr option \<times> addr option) option" where
  "remove_from_list_double h list nm =
     map_option (\<lambda>(h', list', tmp). (case tmp of None \<Rightarrow> h' | Some t \<Rightarrow> relink h' t, list', tmp))
       (remove_from_list_ext h list nm None)"

definition removewild_from_list :: "heap \<Rightarrow> addr option \<Rightarrow> cstr \<Rightarrow> (heap \<times> addr option \<times> addr option) option" where
  "removewild_from_list h list nm = remove_from_list_ext h list nm (Some list_wildstrcmp)"

definition list_lookup_ext ::
  "heap \<Rightarrow> addr option \<Rightarrow> cstr \<Rightarrow> bool \<Rightarrow> bool \<Rightarrow> (List \<Rightarrow> cstr \<Rightarrow> int option) option
    \<Rightarrow> (heap \<times> addr option \<times> addr option) option" where
  "list_lookup_ext h list nm wild delete cmp_func =
     (if delete then remove_from_list_ext h list nm cmp_func
      else map_option (\<lambda>r. (h, list, r)) (find_in_list_ext h list nm wild cmp_func))"

definition list_lookup ::
  "heap \<Rightarrow> addr option \<Rightarrow> cstr \<Rightarrow> bool \<Rightarrow> bool \<Rightarrow> (heap \<times> addr option \<times> addr option) option" where
  "list_lookup h list nm wild delete = list_lookup_ext h list nm wild delete None"

definition break_from_list :: "heap \<Rightarrow> addr option \<Rightarrow> addr \<Rightarrow> heap \<times> addr option" where
  "break_from_list h list t =
     (let (h1, list1) =
        (case prev (h t) of
           Some p \<Rightarrow> (set_next h p (next (h t)), list)
         | None \<Rightarrow> (h, next (h t)));
          h2 = (case next (h1 t) of None \<Rightarrow> h1 | Some n \<Rightarrow> set_prev h1 n (prev (h1 t)));
          h3 = (case list1 of None \<Rightarrow> h2 | Some f \<Rightarrow> set_prev h2 f None)
      in (set_next (set_prev h3 t None) t None, list1))"

subsection \<open>The list a store holds\<close>

fun is_list :: "heap \<Rightarrow> addr option \<Rightarrow> addr list \<Rightarrow> bool" where
  "is_list h p [] \<longleftrightarrow> p = None"
| "is_list h p (x # xs) \<longleftrightarrow> p = Some x \<and> is_list h (next (h x)) xs"

fun prevs :: "heap \<Rightarrow> addr option \<Rightarrow> addr list \<Rightarrow> bool" where
  "prevs h q [] \<longleftrightarrow> True"
| "prevs h q (x # xs) \<longleftrightarrow> prev (h x) = q \<and> prevs h (Some x) xs"

text \<open>A segment that ends in \<open>r\<close> instead of NULL.\<close>

fun segment :: "heap \<Rightarrow> addr option \<Rightarrow> addr list \<Rightarrow> addr option \<Rightarrow> bool" where
  "segment h p [] r \<longleftrightarrow> p = r"
| "segment h p (x # xs) r \<longleftrightarrow> p = Some x \<and> segment h (next (h x)) xs r"

definition dlist :: "heap \<Rightarrow> addr option \<Rightarrow> addr list \<Rightarrow> bool" where
  "dlist h p xs \<longleftrightarrow> is_list h p xs \<and> prevs h None xs"

text \<open>What the routines do to the sequence of nodes.\<close>

definition insert_seq :: "(addr \<Rightarrow> bool) \<Rightarrow> addr \<Rightarrow> addr list \<Rightarrow> addr list" where
  "insert_seq after a xs = takeWhile (\<lambda>x. \<not> after x) xs @ a # dropWhile (\<lambda>x. \<not> after x) xs"

definition remove_seq :: "(addr \<Rightarrow> bool) \<Rightarrow> addr list \<Rightarrow> addr list" where
  "remove_seq hit xs = takeWhile (\<lambda>x. \<not> hit x) xs @ tl (dropWhile (\<lambda>x. \<not> hit x) xs)"

subsection \<open>Lists and segments\<close>

definition hd_opt :: "'a list \<Rightarrow> 'a option" where
  "hd_opt xs = (case xs of [] \<Rightarrow> None | x # _ \<Rightarrow> Some x)"

definition last_opt :: "'a option \<Rightarrow> 'a list \<Rightarrow> 'a option" where
  "last_opt q xs = (if xs = [] then q else Some (last xs))"

lemma hd_opt_simps [simp]: "hd_opt [] = None" "hd_opt (x # xs) = Some x"
  by (simp_all add: hd_opt_def)

lemma last_opt_simps [simp]: "last_opt q [] = q" "last_opt q (x # xs) = last_opt (Some x) xs"
  "last_opt q (xs @ [x]) = Some x"
  by (simp_all add: last_opt_def)

lemma is_list_head: "is_list h p xs \<Longrightarrow> p = hd_opt xs"
  by (cases xs) auto

lemma is_list_append:
  "is_list h p (xs @ ys) \<longleftrightarrow> segment h p xs (hd_opt ys) \<and> is_list h (hd_opt ys) ys"
  by (induction xs arbitrary: p) (auto dest: is_list_head)

lemma segment_append:
  "segment h p (xs @ ys) r \<longleftrightarrow> (\<exists>q. segment h p xs q \<and> segment h q ys r)"
  by (induction xs arbitrary: p) auto

lemma prevs_append: "prevs h q (xs @ ys) \<longleftrightarrow> prevs h q xs \<and> prevs h (last_opt q xs) ys"
  by (induction xs arbitrary: q) auto

lemma is_list_unique: "is_list h p xs \<Longrightarrow> is_list h p ys \<Longrightarrow> xs = ys"
proof (induction xs arbitrary: p ys)
  case (Cons x xs)
  then show ?case by (cases ys) auto
next
  case Nil
  then show ?case by (cases ys) auto
qed

lemma is_list_distinct: "is_list h p xs \<Longrightarrow> distinct xs"
proof (induction xs arbitrary: p)
  case (Cons x xs)
  have "x \<notin> set xs"
  proof
    assume "x \<in> set xs"
    then obtain as bs where xs: "xs = as @ x # bs" by (meson split_list)
    then have "is_list h (Some x) (x # bs)" using Cons.prems by (auto simp: is_list_append)
    moreover have "is_list h (Some x) (x # xs)" using Cons.prems by simp
    ultimately have "x # bs = x # xs" by (rule is_list_unique)
    then have "length bs = length xs" by simp
    then show False using xs by simp
  qed
  then show ?case using Cons by auto
qed simp

lemma is_list_cong:
  "(\<And>x. x \<in> set xs \<Longrightarrow> next (h' x) = next (h x)) \<Longrightarrow> is_list h' p xs = is_list h p xs"
  by (induction xs arbitrary: p) auto

lemma segment_cong:
  "(\<And>x. x \<in> set xs \<Longrightarrow> next (h' x) = next (h x)) \<Longrightarrow> segment h' p xs r = segment h p xs r"
  by (induction xs arbitrary: p) auto

lemma prevs_cong:
  "(\<And>x. x \<in> set xs \<Longrightarrow> prev (h' x) = prev (h x)) \<Longrightarrow> prevs h' q xs = prevs h q xs"
  by (induction xs arbitrary: q) auto

lemma set_next_sel [simp]:
  "next (set_next h a v x) = (if x = a then v else next (h x))"
  "prev (set_next h a v x) = prev (h x)" "name (set_next h a v x) = name (h x)"
  by (simp_all add: set_next_def)

lemma set_prev_sel [simp]:
  "prev (set_prev h a v x) = (if x = a then v else prev (h x))"
  "next (set_prev h a v x) = next (h x)" "name (set_prev h a v x) = name (h x)"
  by (simp_all add: set_prev_def)

lemma walk_spec:
  assumes "is_list h p xs" "\<And>x. x \<in> set xs \<Longrightarrow> stop (h x) = Some (hit x)"
  shows "walk p q h stop = Some (last_opt q (takeWhile (\<lambda>x. \<not> hit x) xs),
    hd_opt (dropWhile (\<lambda>x. \<not> hit x) xs))"
  using assms
proof (induction xs arbitrary: p q)
  case (Cons x xs)
  then have "p = Some x" "is_list h (next (h x)) xs" "stop (h x) = Some (hit x)" by auto
  then show ?case using Cons.IH [of "next (h x)" "Some x"] Cons.prems(2)
    by (subst walk.simps) simp
qed (subst walk.simps, simp)

subsection \<open>Insertion\<close>

lemma segment_relinked:
  assumes "segment h p (as @ [l]) r" "l \<notin> set as" "next (h' l) = Some a"
    "\<And>x. x \<in> set as \<Longrightarrow> next (h' x) = next (h x)"
  shows "segment h' p (as @ [l]) (Some a)"
proof -
  have "segment h p as (Some l)" using assms(1) by (auto simp: segment_append)
  then have "segment h' p as (Some l)" using assms(4) by (simp add: segment_cong [of as h' h])
  then show ?thesis using assms(3) by (auto simp: segment_append)
qed

lemma add_to_list_ext_spec:
  assumes xs: "is_list h list xs" and a: "a \<notin> set xs"
    and hit: "\<And>x. hit x \<longleftrightarrow> 0 < cmp (h x) (h a)"
  obtains h' list' where "add_to_list_ext cmp h list a dble = Some (h', list')"
    "is_list h' list' (insert_seq hit a xs)"
    "\<And>x. name (h' x) = name (h x)"
    "\<And>x. x \<notin> set xs \<Longrightarrow> x \<noteq> a \<Longrightarrow> h' x = h x"
    "\<not> dble \<Longrightarrow> prev \<circ> h' = prev \<circ> h"
    "dble \<Longrightarrow> prevs h None xs \<Longrightarrow> prev (h a) = None \<or> takeWhile (\<lambda>x. \<not> hit x) xs \<noteq> []
      \<Longrightarrow> prevs h' None (insert_seq hit a xs)"
    "dble \<Longrightarrow> takeWhile (\<lambda>x. \<not> hit x) xs = [] \<Longrightarrow> prev (h' a) = prev (h a)"
proof -
  define as where "as = takeWhile (\<lambda>x. \<not> hit x) xs"
  define bs where "bs = dropWhile (\<lambda>x. \<not> hit x) xs"
  have xs_eq: "xs = as @ bs" by (simp add: as_def bs_def)
  have dist: "distinct xs" using xs by (rule is_list_distinct)
  have seg: "segment h list as (hd_opt bs)" and bl: "is_list h (hd_opt bs) bs"
    using xs by (auto simp: xs_eq is_list_append)
  have w: "walk list None h (\<lambda>n. Some (0 < cmp n (h a))) = Some (last_opt None as, hd_opt bs)"
    unfolding as_def bs_def by (rule walk_spec [OF xs]) (simp add: hit)
  have ins: "insert_seq hit a xs = as @ a # bs" by (simp add: insert_seq_def as_def bs_def)
  show ?thesis
  proof (cases as rule: rev_cases)
    case Nil
    have hd: "list = hd_opt bs" using seg Nil by simp
    define h1 where "h1 = (case list of Some f \<Rightarrow> if dble then set_prev h f (Some a) else h | None \<Rightarrow> h)"
    define h' where "h' = set_next h1 a (hd_opt bs)"
    have add: "add_to_list_ext cmp h list a dble = Some (h', Some a)"
      using w Nil by (simp add: add_to_list_ext_def h'_def h1_def)
    have nx: "next (h' x) = (if x = a then hd_opt bs else next (h x))" for x
      by (simp add: h'_def h1_def split: option.splits)
    have pv: "prev (h' x) = (if dble \<and> Some x = hd_opt bs then Some a else prev (h x))" for x
      by (auto simp: h'_def h1_def hd split: option.splits)
    show ?thesis
    proof (rule that [OF add])
      have "is_list h' (hd_opt bs) bs" using bl a xs_eq by (subst is_list_cong) (auto simp: nx)
      then show "is_list h' (Some a) (insert_seq hit a xs)" unfolding ins Nil by (simp add: nx)
      show "name (h' x) = name (h x)" for x by (simp add: h'_def h1_def split: option.splits)
      show "h' x = h x" if "x \<notin> set xs" "x \<noteq> a" for x
        using that xs_eq hd by (cases bs) (auto simp: h'_def h1_def set_prev_def set_next_def)
      show "prev \<circ> h' = prev \<circ> h" if "\<not> dble" using that by (auto simp: pv)
      show "prevs h' None (insert_seq hit a xs)"
        if d: "dble" "prevs h None xs" and "prev (h a) = None \<or> takeWhile (\<lambda>x. \<not> hit x) xs \<noteq> []"
      proof -
        have pa: "prev (h a) = None" using that Nil by (simp add: as_def)
        show ?thesis
        proof (cases bs)
          case Nil': Nil
          then show ?thesis unfolding ins Nil using pa by (simp add: pv)
        next
          case (Cons b cs)
          have "prevs h (Some b) cs" using d Cons Nil xs_eq by simp
          then have "prevs h' (Some b) cs" using dist Cons xs_eq
            by (subst prevs_cong) (auto simp: pv)
          then show ?thesis unfolding ins Nil using pa a d Cons xs_eq by (auto simp: pv)
        qed
      qed
      show "prev (h' a) = prev (h a)" using a xs_eq by (cases bs) (auto simp: pv)
    qed
  next
    case (snoc cs l)
    define h2 where "h2 = (if dble then (let h2 = set_prev (set_next h l (Some a)) a (Some l)
      in case hd_opt bs of None \<Rightarrow> h2 | Some t \<Rightarrow> set_prev h2 t (Some a)) else set_next h l (Some a))"
    define h' where "h' = set_next h2 a (hd_opt bs)"
    have add: "add_to_list_ext cmp h list a dble = Some (h', list)"
      using w snoc by (simp add: add_to_list_ext_def h'_def h2_def Let_def)
    have la: "l \<noteq> a" "a \<notin> set bs" "a \<notin> set cs" "l \<notin> set cs" "l \<notin> set bs"
      using a dist snoc xs_eq by auto
    have nx: "next (h' x) = (if x = a then hd_opt bs else if x = l then Some a else next (h x))" for x
      by (simp add: h'_def h2_def Let_def split: option.splits)
    have pv: "prev (h' x) = (if dble \<and> Some x = hd_opt bs then Some a
        else if dble \<and> x = a then Some l else prev (h x))" for x
      by (auto simp: h'_def h2_def Let_def split: option.splits)
    show ?thesis
    proof (rule that [OF add])
      have "segment h' list (cs @ [l]) (Some a)"
        using seg la by (intro segment_relinked) (auto simp: nx snoc)
      moreover have "is_list h' (hd_opt bs) bs" using bl la by (subst is_list_cong) (auto simp: nx)
      ultimately show "is_list h' list (insert_seq hit a xs)"
        unfolding ins snoc using la by (auto simp: is_list_append segment_append nx)
      show "name (h' x) = name (h x)" for x by (simp add: h'_def h2_def Let_def split: option.splits)
      show "h' x = h x" if "x \<notin> set xs" "x \<noteq> a" for x
        using that xs_eq snoc
        by (cases bs) (auto simp: h'_def h2_def Let_def set_prev_def set_next_def)
      show "prev \<circ> h' = prev \<circ> h" if "\<not> dble" using that by (auto simp: pv)
      show "prevs h' None (insert_seq hit a xs)" if d: "dble" "prevs h None xs"
      proof -
        have "prevs h None (cs @ [l])" using d snoc xs_eq by (simp add: prevs_append)
        then have "prevs h' None (cs @ [l])"
          using dist la snoc xs_eq by (subst prevs_cong) (cases bs; auto simp: pv)+
        moreover have "prevs h' (Some a) bs"
        proof (cases bs)
          case (Cons b ds)
          have "prevs h (Some b) ds" using d Cons xs_eq snoc by (simp add: prevs_append)
          then have "prevs h' (Some b) ds" using dist la Cons xs_eq
            by (subst prevs_cong) (auto simp: pv)
          then show ?thesis using d Cons by (simp add: pv)
        qed simp
        moreover have "prev (h' a) = Some l" using d la by (cases bs) (auto simp: pv)
        ultimately show ?thesis unfolding ins snoc by (simp add: prevs_append)
      qed
      show "prev (h' a) = prev (h a)" if "takeWhile (\<lambda>x. \<not> hit x) xs = []"
        using that snoc by (simp add: as_def)
    qed
  qed
qed

subsection \<open>Removal and lookup\<close>

lemma list_stricmp_hits: "map_option (\<lambda>r. r = 0) (list_stricmp n nm) = Some (my_stricmp (name n) nm = 0)"
  by (simp add: list_stricmp_def)

lemma remove_from_list_ext_spec:
  assumes xs: "is_list h list xs"
    and hit: "\<And>x. x \<in> set xs \<Longrightarrow>
      map_option (\<lambda>r. r = 0) (case_option list_stricmp id cmp (h x) nm) = Some (hit x)"
  obtains h' list' where
    "remove_from_list_ext h list nm cmp = Some (h', list', hd_opt (dropWhile (\<lambda>x. \<not> hit x) xs))"
    "is_list h' list' (remove_seq hit xs)"
    "h' = (if takeWhile (\<lambda>x. \<not> hit x) xs = [] \<or> dropWhile (\<lambda>x. \<not> hit x) xs = [] then h
       else set_next h (last (takeWhile (\<lambda>x. \<not> hit x) xs))
              (next (h (hd (dropWhile (\<lambda>x. \<not> hit x) xs)))))"
proof -
  define as where "as = takeWhile (\<lambda>x. \<not> hit x) xs"
  define bs where "bs = dropWhile (\<lambda>x. \<not> hit x) xs"
  have xs_eq: "xs = as @ bs" by (simp add: as_def bs_def)
  have dist: "distinct xs" using xs by (rule is_list_distinct)
  have seg: "segment h list as (hd_opt bs)" and bl: "is_list h (hd_opt bs) bs"
    using xs by (auto simp: xs_eq is_list_append)
  have cmp: "(case cmp of None \<Rightarrow> list_stricmp | Some f \<Rightarrow> f) = case_option list_stricmp id cmp"
    by (cases cmp) auto
  have w: "walk list None h (\<lambda>n. map_option (\<lambda>r. r = 0) (case_option list_stricmp id cmp n nm))
      = Some (last_opt None as, hd_opt bs)"
    unfolding as_def bs_def by (rule walk_spec [OF xs]) (simp add: hit)
  have rem: "remove_seq hit xs = as @ tl bs" by (simp add: remove_seq_def as_def bs_def)
  show ?thesis
  proof (cases bs)
    case Nil
    then have "remove_from_list_ext h list nm cmp = Some (h, list, None)"
      using w by (simp add: remove_from_list_ext_def cmp)
    moreover have "dropWhile (\<lambda>x. \<not> hit x) xs = []" using Nil by (simp add: bs_def)
    moreover have "remove_seq hit xs = xs" using rem Nil xs_eq by simp
    ultimately show ?thesis using that [of h list] xs by (simp split: list.splits)
  next
    case (Cons t cs)
    have tl: "is_list h (next (h t)) cs" using bl Cons by simp
    show ?thesis
    proof (cases as rule: rev_cases)
      case Nil
      then have "remove_from_list_ext h list nm cmp = Some (h, next (h t), Some t)"
        using w Cons by (simp add: remove_from_list_ext_def cmp)
      then show ?thesis using that [of h "next (h t)"] rem Nil Cons tl
        by (simp add: as_def [symmetric] bs_def [symmetric])
    next
      case (snoc ds l)
      define h' where "h' = set_next h l (next (h t))"
      have "remove_from_list_ext h list nm cmp = Some (h', list, Some t)"
        using w Cons snoc by (simp add: remove_from_list_ext_def cmp h'_def)
      moreover have "is_list h' list (ds @ l # cs)"
      proof -
        have "segment h' list ds (Some l)"
          using seg snoc dist xs_eq by (subst segment_cong) (auto simp: h'_def segment_append)
        moreover have "is_list h' (next (h t)) cs"
          using tl dist xs_eq snoc Cons by (subst is_list_cong) (auto simp: h'_def)
        ultimately show ?thesis by (simp add: is_list_append h'_def)
      qed
      moreover have "as \<noteq> []" "last as = l" using snoc by auto
      moreover have "dropWhile (\<lambda>x. \<not> hit x) xs = t # cs" using Cons by (simp add: bs_def)
      moreover have "takeWhile (\<lambda>x. \<not> hit x) xs = as" by (simp add: as_def)
      ultimately show ?thesis using that [of h' list] rem Cons snoc by (simp add: h'_def)
    qed
  qed
qed

lemma remove_from_list_double_spec:
  assumes xs: "dlist h list xs"
    and hit: "\<And>x. x \<in> set xs \<Longrightarrow> hit x \<longleftrightarrow> my_stricmp (name (h x)) nm = 0"
  obtains h' list' where
    "remove_from_list_double h list nm = Some (h', list', hd_opt (dropWhile (\<lambda>x. \<not> hit x) xs))"
    "dlist h' list' (remove_seq hit xs)" "\<And>x. name (h' x) = name (h x)"
proof -
  define as where "as = takeWhile (\<lambda>x. \<not> hit x) xs"
  define bs where "bs = dropWhile (\<lambda>x. \<not> hit x) xs"
  have xs_eq: "xs = as @ bs" by (simp add: as_def bs_def)
  have il: "is_list h list xs" and pv: "prevs h None xs" using xs by (auto simp: dlist_def)
  have dist: "distinct xs" using il by (rule is_list_distinct)
  have rem: "remove_seq hit xs = as @ tl bs" by (simp add: remove_seq_def as_def bs_def)
  have hit': "\<And>x. x \<in> set xs \<Longrightarrow>
      map_option (\<lambda>r. r = 0) (case_option list_stricmp id None (h x) nm) = Some (hit x)"
    using hit by (simp add: list_stricmp_hits)
  obtain h1 list1 where r: "remove_from_list_ext h list nm None = Some (h1, list1, hd_opt bs)"
      "is_list h1 list1 (as @ tl bs)"
      "h1 = (if as = [] \<or> bs = [] then h else set_next h (last as) (next (h (hd bs))))"
    using remove_from_list_ext_spec [where cmp = None and nm = nm and hit = hit, OF il hit']
    unfolding as_def [symmetric] bs_def [symmetric] rem by metis
  have n1: "name (h1 x) = name (h x)" "prev (h1 x) = prev (h x)" for x
    by (auto simp: r(3) split: list.splits)
  show ?thesis
  proof (cases bs)
    case Nil
    then have "h1 = h" using r(3) by (simp split: list.splits)
    moreover have "dropWhile (\<lambda>x. \<not> hit x) xs = []" using Nil by (simp add: bs_def)
    moreover have "remove_seq hit xs = xs" "as = xs" using rem Nil xs_eq by simp_all
    ultimately show ?thesis using that [of h list1] r Nil pv
      by (simp add: remove_from_list_double_def dlist_def)
  next
    case (Cons t cs)
    define h' where "h' = relink h1 t"
    have tas: "t \<notin> set as" "t \<notin> set cs" "set as \<inter> set cs = {}" "distinct cs"
      using dist xs_eq Cons by auto
    have nt: "next (h1 t) = hd_opt cs"
    proof -
      have "next (h t) = hd_opt cs" using il Cons xs_eq by (auto simp: is_list_append dest: is_list_head)
      moreover have "next (h1 t) = next (h t)"
        using tas(1) r(3) last_in_set [of as] by (auto split: list.splits)
      ultimately show ?thesis by simp
    qed
    have pt: "prev (h1 t) = last_opt None as" using pv Cons xs_eq n1 by (simp add: prevs_append)
    have h': "next (h' x) = (if as \<noteq> [] \<and> x = last as then hd_opt cs else next (h1 x))"
      "prev (h' x) = (if Some x = hd_opt cs then last_opt None as else prev (h x))" for x
      unfolding h'_def relink_def pt nt
      using nt pt tas last_in_set [of as] by (auto simp: Let_def last_opt_def n1 split: option.splits)
    have res: "remove_from_list_double h list nm = Some (h', list1, Some t)"
      using r(1) Cons by (simp add: remove_from_list_double_def h'_def)
    have "next (h' x) = next (h1 x)" for x
    proof (cases "as \<noteq> [] \<and> x = last as")
      case True
      then have "next (h1 x) = next (h t)" using r(3) Cons by (auto split: list.splits)
      also have "\<dots> = hd_opt cs" using il Cons xs_eq by (auto simp: is_list_append dest: is_list_head)
      finally show ?thesis using True h'(1) [of x] by simp
    next
      case False
      then show ?thesis using h'(1) [of x] by auto
    qed
    then have "is_list h' list1 (as @ cs)" using r(2) Cons by (subst is_list_cong) auto
    moreover have "prevs h' None (as @ cs)"
    proof -
      have "prevs h None as" using pv xs_eq by (simp add: prevs_append)
      then have "prevs h' None as" using tas by (subst prevs_cong) (cases cs; auto simp: h')+
      moreover have "prevs h' (last_opt None as) cs"
      proof (cases cs)
        case (Cons c ds)
        have "prevs h (Some c) ds" using pv xs_eq Cons \<open>bs = t # cs\<close> by (simp add: prevs_append)
        then have "prevs h' (Some c) ds" using tas Cons by (subst prevs_cong) (auto simp: h')
        then show ?thesis using Cons by (simp add: h')
      qed simp
      ultimately show ?thesis by (simp add: prevs_append)
    qed
    moreover have "name (h' x) = name (h x)" for x
      unfolding h'_def relink_def by (auto simp: Let_def n1 split: option.splits)
    ultimately show ?thesis using that [of h' list1] res rem Cons
      by (simp add: dlist_def bs_def [symmetric])
  qed
qed

lemma find_in_list_spec:
  assumes "is_list h list xs"
  shows "find_in_list h list nm False = Some (find (\<lambda>x. my_stricmp (name (h x)) nm = 0) xs)"
proof -
  have fd: "find P xs = hd_opt (dropWhile (\<lambda>x. \<not> P x) xs)" for P and xs :: "addr list"
    by (induction xs) auto
  have "walk list None h (\<lambda>n. map_option (\<lambda>r. r = 0) (list_stricmp n nm))
    = Some (last_opt None (takeWhile (\<lambda>x. \<not> my_stricmp (name (h x)) nm = 0) xs),
            hd_opt (dropWhile (\<lambda>x. \<not> my_stricmp (name (h x)) nm = 0) xs))"
    by (rule walk_spec [OF assms]) (rule list_stricmp_hits)
  then show ?thesis by (simp add: find_in_list_def find_in_list_ext_def fd)
qed

lemma break_from_list_spec:
  assumes xs: "dlist h list (as @ t # cs)"
  obtains h' list' where "break_from_list h list t = (h', list')" "dlist h' list' (as @ cs)"
    "next (h' t) = None" "prev (h' t) = None"
proof -
  have il: "is_list h list (as @ t # cs)" and pv: "prevs h None (as @ t # cs)"
    using xs by (auto simp: dlist_def)
  have dist: "distinct (as @ t # cs)" using il by (rule is_list_distinct)
  have seg: "segment h list as (Some t)" and tl: "is_list h (next (h t)) cs"
    using il by (auto simp: is_list_append)
  have nt: "next (h t) = hd_opt cs" using tl by (rule is_list_head)
  have pt: "prev (h t) = last_opt None as" using pv by (simp add: prevs_append)
  define h' where "h' = fst (break_from_list h list t)"
  define list' where "list' = snd (break_from_list h list t)"
  have l': "list' = (if as = [] then hd_opt cs else list)"
    using pt nt by (auto simp: list'_def break_from_list_def Let_def last_opt_def)
  have hl: "as \<noteq> [] \<Longrightarrow> list = Some (hd as)" using seg by (cases as) auto
  have nx: "next (h' x) = (if x = t then None else if as \<noteq> [] \<and> x = last as then hd_opt cs else next (h x))" for x
    using pt nt by (auto simp: h'_def break_from_list_def Let_def last_opt_def split: option.splits)
  have pvx: "prev (h' x) = (if x = t then None else if as \<noteq> [] \<and> x = hd as then None
      else if Some x = hd_opt cs then last_opt None as else prev (h x))" for x
    using pt nt hl dist
    by (auto simp: h'_def break_from_list_def Let_def last_opt_def split: option.splits)
  have "is_list h' list' (as @ cs)"
  proof (cases as rule: rev_cases)
    case Nil
    then show ?thesis using tl dist nt l' by (subst is_list_cong) (auto simp: nx)
  next
    case (snoc ds l)
    have "segment h' list ds (Some l)"
      using seg snoc dist by (subst segment_cong) (auto simp: nx segment_append)
    moreover have "is_list h' (hd_opt cs) cs"
      using tl nt dist snoc by (subst is_list_cong) (auto simp: nx)
    ultimately show ?thesis using snoc l' dist by (auto simp: is_list_append nx)
  qed
  moreover have "prevs h' None (as @ cs)"
  proof -
    have 1: "prevs h None as" using pv by (simp add: prevs_append)
    have "prevs h' None as"
    proof (cases as)
      case (Cons a bs)
      have "prevs h (Some a) bs" using 1 Cons by simp
      then have "prevs h' (Some a) bs"
        using dist Cons by (subst prevs_cong) (cases cs; auto simp: pvx)+
      then show ?thesis using Cons dist by (simp add: pvx)
    qed simp
    moreover have "prevs h' (last_opt None as) cs"
    proof (cases cs)
      case (Cons c ds)
      have "prevs h (Some c) ds" using pv Cons by (simp add: prevs_append)
      then have "prevs h' (Some c) ds" using dist Cons
        by (subst prevs_cong) (cases as; auto simp: pvx)+
      moreover have "c \<noteq> t" "as \<noteq> [] \<Longrightarrow> c \<noteq> hd as" using dist Cons by (cases as; auto)+
      ultimately show ?thesis using Cons by (auto simp: pvx)
    qed simp
    ultimately show ?thesis by (simp add: prevs_append)
  qed
  moreover have "break_from_list h list t = (h', list')" by (simp add: h'_def list'_def)
  ultimately show ?thesis using that [of h' list'] by (simp add: dlist_def nx pvx)
qed

subsection \<open>Order, lookup and the pointers\<close>

abbreviation node_key :: "heap \<Rightarrow> addr \<Rightarrow> nat list" where
  "node_key h x \<equiv> ckey (name (h x))"

lemma insert_seq_mset: "mset (insert_seq after a xs) = add_mset a (mset xs)"
proof -
  have "mset (takeWhile P xs) + mset (dropWhile P xs) = mset xs" for P
    by (metis mset_append takeWhile_dropWhile_id)
  then show ?thesis by (simp add: insert_seq_def)
qed

lemma set_insert_seq [simp]: "set (insert_seq after a xs) = insert a (set xs)"
  by (metis insert_seq_mset set_mset_add_mset_insert set_mset_mset)

lemma insert_seq_sorted:
  assumes "sorted (map key xs)" "\<And>x. x \<in> set xs \<Longrightarrow> after x \<longleftrightarrow> key a < (key x :: 'k :: linorder)"
  shows "sorted (map key (insert_seq after a xs))"
  using assms
proof (induction xs)
  case (Cons x xs)
  show ?case
  proof (cases "after x")
    case True
    then have "key a \<le> key x" using Cons.prems by auto
    then show ?thesis using True Cons.prems by (auto simp: insert_seq_def)
  next
    case False
    then have "key x \<le> key a" using Cons.prems by auto
    moreover have "insert_seq after a (x # xs) = x # insert_seq after a xs"
      using False by (simp add: insert_seq_def)
    ultimately show ?thesis using Cons by auto
  qed
qed (simp add: insert_seq_def)

lemma filter_insert_seq:
  assumes "a \<notin> set xs"
  shows "filter (\<lambda>x. x \<noteq> a) (insert_seq after a xs) = xs"
proof -
  have "filter (\<lambda>x. x \<noteq> a) (takeWhile P xs) = takeWhile P xs"
    "filter (\<lambda>x. x \<noteq> a) (dropWhile P xs) = dropWhile P xs" for P
    using assms by (auto intro!: filter_True dest: set_takeWhileD set_dropWhileD)
  then show ?thesis by (simp add: insert_seq_def)
qed

lemma stricmp_after:
  "no_nul (name (h x)) \<Longrightarrow> no_nul (name (h a)) \<Longrightarrow>
    0 < add_list_stricmp (h x) (h a) \<longleftrightarrow> node_key h a < node_key h x"
  by (simp add: add_list_stricmp_def my_stricmp_greater_iff)

text \<open>
  C36: \<open>add_to_list_double\<close> on a well-linked list that is sorted by folded key returns a
  list whose \<open>next\<close> and \<open>prev\<close> pointers agree, that is sorted by folded key again, holds
  exactly one node more and keeps the order of the old nodes, with no other node of the
  store touched. The new node's \<open>prev\<close> must be NULL beforehand: the routine does not set
  it when the node becomes the head.
\<close>
theorem add_to_list_double_sorted:
  assumes "dlist h list xs" "a \<notin> set xs" "prev (h a) = None"
    "\<And>x. x \<in> insert a (set xs) \<Longrightarrow> no_nul (name (h x))" "sorted (map (node_key h) xs)"
  shows "\<exists>h' list' ys. add_to_list_double h list a = Some (h', list') \<and> dlist h' list' ys
    \<and> sorted (map (node_key h') ys) \<and> mset ys = add_mset a (mset xs)
    \<and> filter (\<lambda>x. x \<noteq> a) ys = xs \<and> (\<forall>x. x \<notin> insert a (set xs) \<longrightarrow> h' x = h x)"
proof -
  define hit where "hit = (\<lambda>x. 0 < add_list_stricmp (h x) (h a))"
  have hit: "\<And>x. hit x \<longleftrightarrow> 0 < add_list_stricmp (h x) (h a)" by (simp add: hit_def)
  have il: "is_list h list xs" "prevs h None xs" using assms(1) by (auto simp: dlist_def)
  obtain h' list' where add: "add_to_list_ext add_list_stricmp h list a True = Some (h', list')"
      "is_list h' list' (insert_seq hit a xs)" "\<And>x. name (h' x) = name (h x)"
      "\<And>x. x \<notin> set xs \<Longrightarrow> x \<noteq> a \<Longrightarrow> h' x = h x" "prevs h' None (insert_seq hit a xs)"
    by (rule add_to_list_ext_spec [of h list xs a hit add_list_stricmp True, OF il(1) assms(2) hit])
      (use il(2) assms(3) in auto)
  have "sorted (map (node_key h) (insert_seq hit a xs))"
    using assms(4) by (intro insert_seq_sorted [OF assms(5)]) (auto simp: hit stricmp_after)
  then have "sorted (map (node_key h') (insert_seq hit a xs))" using add(3) by simp
  then show ?thesis using add filter_insert_seq [OF assms(2)]
    by (intro exI [of _ h'] exI [of _ list'] exI [of _ "insert_seq hit a xs"])
      (auto simp: add_to_list_double_def dlist_def insert_seq_mset)
qed

text \<open>
  \<open>remove_from_list_double\<close> returns the node that \<open>find_in_list\<close> finds (the first one
  whose key is equal up to case), leaves a well-linked list of exactly the other nodes in
  their order, and changes nothing when the key is absent.
\<close>
theorem remove_from_list_double_removes:
  assumes "dlist h list xs"
  shows "\<exists>h' list' r. remove_from_list_double h list nm = Some (h', list', r)
    \<and> find_in_list h list nm False = Some r
    \<and> (case r of None \<Rightarrow> h' = h \<and> list' = list
       | Some t \<Rightarrow> t \<in> set xs \<and> dlist h' list' (remove1 t xs))
    \<and> (\<forall>x. name (h' x) = name (h x))"
proof -
  define hit where "hit = (\<lambda>x. my_stricmp (name (h x)) nm = 0)"
  have fd: "find P xs = hd_opt (dropWhile (\<lambda>x. \<not> P x) xs)" for P and xs :: "addr list"
    by (induction xs) auto
  have rm: "dropWhile (\<lambda>x. \<not> P x) xs = t # cs \<Longrightarrow> remove_seq P xs = remove1 t xs" for P t cs and xs :: "addr list"
    by (induction xs) (auto simp: remove_seq_def dest: dropWhile_hd)
  have il: "is_list h list xs" using assms by (simp add: dlist_def)
  obtain h' list' where r: "remove_from_list_double h list nm = Some (h', list', find hit xs)"
      "dlist h' list' (remove_seq hit xs)" "\<And>x. name (h' x) = name (h x)"
    using remove_from_list_double_spec [OF assms, of hit nm] unfolding fd by (auto simp: hit_def)
  have "find_in_list h list nm False = Some (find hit xs)"
    using find_in_list_spec [OF il] by (simp add: hit_def)
  moreover have "h' = h \<and> list' = list" if "find hit xs = None"
  proof -
    have "walk list None h (\<lambda>n. map_option (\<lambda>r. r = 0) (list_stricmp n nm))
        = Some (last_opt None (takeWhile (\<lambda>x. \<not> hit x) xs), hd_opt (dropWhile (\<lambda>x. \<not> hit x) xs))"
      by (rule walk_spec [OF il]) (simp add: hit_def list_stricmp_hits)
    then show ?thesis using r(1) that
      by (simp add: fd remove_from_list_double_def remove_from_list_ext_def)
  qed
  moreover have "t \<in> set xs \<and> dlist h' list' (remove1 t xs)" if ft: "find hit xs = Some t" for t
  proof -
    obtain cs where cs: "dropWhile (\<lambda>x. \<not> hit x) xs = t # cs"
      using ft fd [of hit xs] by (cases "dropWhile (\<lambda>x. \<not> hit x) xs") auto
    then have "t \<in> set xs" by (metis list.set_intros(1) set_dropWhileD)
    then show ?thesis using r(2) rm [OF cs] by simp
  qed
  ultimately show ?thesis using r
    by (intro exI [of _ h'] exI [of _ list'] exI [of _ "find hit xs"]) (auto split: option.splits)
qed

text \<open>
  \<open>break_from_list\<close> takes a node of a well-linked list out in place: the others stay
  well linked in their order and the node's own pointers become NULL.
\<close>
theorem break_from_list_unlinks:
  assumes "dlist h list xs" "t \<in> set xs"
  shows "\<exists>h' list'. break_from_list h list t = (h', list') \<and> dlist h' list' (remove1 t xs)
    \<and> next (h' t) = None \<and> prev (h' t) = None"
proof -
  obtain as cs where xs: "xs = as @ t # cs" "t \<notin> set as" using assms(2) by (meson split_list_first)
  then have "remove1 t xs = as @ cs" by (simp add: remove1_append)
  then show ?thesis using break_from_list_spec [of h list as t cs] assms(1) xs by metis
qed

lemma find_best_spec:
  assumes "is_list h p xs" "\<And>x. x \<in> set xs \<Longrightarrow> val (h x) = Some (v x)"
  shows "find_best p b m h val =
    Some (snd (foldl (\<lambda>(b, m) x. if b < v x then (v x, Some x) else (b, m)) (b, m) xs))"
  using assms
proof (induction xs arbitrary: p b m)
  case Nil
  then show ?case by (subst find_best.simps) simp
next
  case (Cons x xs)
  then have "p = Some x" "is_list h (next (h x)) xs" "val (h x) = Some (v x)" by auto
  then show ?case using Cons.IH [of "next (h x)"] Cons.prems(2)
    by (subst find_best.simps) simp
qed

definition best_upto :: "(addr \<Rightarrow> int) \<Rightarrow> addr list \<Rightarrow> int \<times> addr option \<Rightarrow> bool" where
  "best_upto v xs bm \<longleftrightarrow>
     (case snd bm of
        None \<Rightarrow> fst bm = 0 \<and> (\<forall>x \<in> set xs. v x \<le> 0)
      | Some t \<Rightarrow> fst bm = v t \<and> 0 < v t \<and>
          (\<exists>as cs. xs = as @ t # cs \<and> (\<forall>x \<in> set as. v x < v t) \<and> (\<forall>x \<in> set cs. v x \<le> v t)))"

lemma best_upto_last:
  "\<forall>y \<in> set xs. v y < v x \<Longrightarrow> 0 < v x \<Longrightarrow> best_upto v (xs @ [x]) (v x, Some x)"
  by (simp add: best_upto_def) (rule exI [of _ xs], rule exI [of _ "[]"], auto)

lemma best_upto_step:
  assumes "best_upto v xs (b, m)"
  shows "best_upto v (xs @ [x]) (if b < v x then (v x, Some x) else (b, m))"
proof (cases m)
  case None
  then have "b = 0" "\<forall>y \<in> set xs. v y \<le> 0" using assms by (auto simp: best_upto_def)
  moreover from this have "\<forall>y \<in> set xs. v y < v x" if "0 < v x" using that by force
  ultimately show ?thesis using None best_upto_last [of xs v x] by (auto simp: best_upto_def)
next
  case (Some t)
  then obtain as cs where t: "b = v t" "0 < v t" "xs = as @ t # cs" "\<forall>x \<in> set as. v x < v t"
      "\<forall>x \<in> set cs. v x \<le> v t"
    using assms by (auto simp: best_upto_def)
  show ?thesis
  proof (cases "b < v x")
    case True
    then have "\<forall>y \<in> set xs. v y < v x" using t by force
    then show ?thesis using True t best_upto_last [of xs v x] by simp
  next
    case False
    then show ?thesis using Some t
      by (simp add: best_upto_def) (rule exI [of _ as], rule exI [of _ "cs @ [x]"], auto)
  qed
qed

lemma best_upto_fold:
  "best_upto v xs (foldl (\<lambda>(b, m) x. if b < v x then (v x, Some x) else (b, m)) (0, None) xs)"
proof (induction xs rule: rev_induct)
  case Nil
  then show ?case by (simp add: best_upto_def)
next
  case (snoc x xs)
  obtain b m where "foldl (\<lambda>(b, m) x. if b < v x then (v x, Some x) else (b, m)) (0, None) xs = (b, m)"
    by fastforce
  then show ?case using snoc best_upto_step [of v xs b m x] by simp
qed

text \<open>
  a wildcard lookup in a list returns the first node with the highest positive value
  of \<open>wild_match\<close>, and NULL when no name matches.
\<close>
theorem find_in_list_wild_best:
  assumes "is_list h list xs" "\<And>x. x \<in> set xs \<Longrightarrow> wild_match (name (h x)) nm = Some (v x)"
  shows "case find_in_list h list nm True of
      None \<Rightarrow> False
    | Some None \<Rightarrow> (\<forall>x \<in> set xs. v x \<le> 0)
    | Some (Some t) \<Rightarrow> 0 < v t \<and> (\<exists>as cs. xs = as @ t # cs
        \<and> (\<forall>x \<in> set as. v x < v t) \<and> (\<forall>x \<in> set cs. v x \<le> v t))"
proof -
  define bm where "bm = foldl (\<lambda>(b, m) x. if b < v x then (v x, Some x) else (b, m)) (0, None) xs"
  have "find_in_list h list nm True = Some (snd bm)"
    using find_best_spec [OF assms(1), of "\<lambda>n. list_match n nm" v 0 None] assms(2)
    by (simp add: find_in_list_def find_in_list_ext_def list_match_def bm_def)
  moreover have "best_upto v xs bm" unfolding bm_def by (rule best_upto_fold)
  ultimately show ?thesis by (auto simp: best_upto_def split: option.splits)
qed

subsection \<open>A node that is taken out and put back\<close>

text \<open>
  \<open>p_nick\<close> (source/irchandler.c) renames a nick by taking its node out of the list with
  \<open>remove_from_list_double\<close>, changing the name and adding it again. The removal leaves
  the node's \<open>prev\<close> pointing at its old neighbour, and an insertion at the head does not
  reset it; the next removal of that node then links its old neighbour to itself.
\<close>

definition set_name :: "heap \<Rightarrow> addr \<Rightarrow> cstr \<Rightarrow> heap" where
  "set_name h a nm = h(a := (h a)\<lparr>name := nm\<rparr>)"

definition rename_node :: "heap \<Rightarrow> addr option \<Rightarrow> cstr \<Rightarrow> cstr \<Rightarrow> (heap \<times> addr option) option" where
  "rename_node h list old new =
     (case remove_from_list_double h list old of
        None \<Rightarrow> None
      | Some (h', list', None) \<Rightarrow> Some (h', list')
      | Some (h', list', Some n) \<Rightarrow> add_to_list_double (set_name h' n new) list' n)"

definition two_nicks :: heap where
  "two_nicks = (\<lambda>_. \<lparr>next = None, prev = None, name = []\<rparr>)
     (2 := \<lparr>next = Some 3, prev = None, name = ''bob''\<rparr>,
      3 := \<lparr>next = None, prev = Some 2, name = ''carol''\<rparr>)"

lemma two_nicks_dlist: "dlist two_nicks (Some 2) [2, 3]"
  by (simp add: dlist_def two_nicks_def)

lemma walk_unfold:
  "walk (Some t) lst h stop =
     (case stop (h t) of None \<Rightarrow> None
      | Some b \<Rightarrow> if b then Some (lst, Some t) else walk (next (h t)) (Some t) h stop)"
  "walk None lst h stop = Some (lst, None)"
  by (subst walk.simps, simp)+

text \<open>A walk over a node that points to itself never ends, unless the node is the one sought.\<close>

lemma walk_self_loop:
  assumes "next (h t) = Some t" "stop (h t) = Some False"
  shows "walk (Some t) lst h stop = None"
proof (cases "walk (Some t) lst h stop")
  case (Some y)
  have "next (h t) = Some t \<longrightarrow> stop (h t) = Some False \<longrightarrow> p = Some t \<longrightarrow> False"
    if "walk p l h stop = Some z" for p l z
    by (rule walk.raw_induct [where P = "\<lambda>p l h' stop' z. next (h' t) = Some t \<longrightarrow>
          stop' (h' t) = Some False \<longrightarrow> p = Some t \<longrightarrow> False", OF _ that])
      (auto split: option.splits if_splits; blast)
  then show ?thesis using Some assms by blast
qed simp

lemma stricmp_names:
  "my_stricmp ''bob'' ''carol'' = -1" "my_stricmp ''carol'' ''carol'' = 0"
  "my_stricmp ''bob'' ''alice'' = 1" "my_stricmp ''alice'' ''alice'' = 0"
  "my_stricmp ''bob'' ''dave'' = -2"
  by code_simp+

declare my_stricmp.simps [simp del]

text \<open>
  A nick that is renamed to sort first in a channel's list keeps a stale \<open>prev\<close>: the
  list is still right in its \<open>next\<close> pointers, but when the nick then leaves, its old
  neighbour is linked to itself, and looking up any other name never returns.
\<close>
theorem rename_then_leave_corrupts:
  "\<exists>h1 h2. rename_node two_nicks (Some 2) ''carol'' ''alice'' = Some (h1, Some 3)
    \<and> is_list h1 (Some 3) [3, 2] \<and> prev (h1 3) = Some 2
    \<and> remove_from_list_double h1 (Some 3) ''alice'' = Some (h2, Some 2, Some 3)
    \<and> next (h2 2) = Some 2 \<and> find_in_list h2 (Some 2) ''dave'' False = None"
proof -
  define h1 where "h1 = set_next (set_prev (set_name (set_next two_nicks 2 None) 3 ''alice'') 2 (Some 3)) 3 (Some 2)"
  have n1: "next (h1 x) = (if x = 3 then Some 2 else if x = 2 then None else next (two_nicks x))"
    "name (h1 x) = (if x = 3 then ''alice'' else name (two_nicks x))"
    "prev (h1 x) = (if x = 2 then Some 3 else prev (two_nicks x))" for x
    by (auto simp: h1_def set_name_def)
  have t: "next (two_nicks 2) = Some 3" "next (two_nicks 3) = None" "prev (two_nicks 3) = Some 2"
    "prev (two_nicks 2) = None" "name (two_nicks 2) = ''bob''" "name (two_nicks 3) = ''carol''"
    by (simp_all add: two_nicks_def)
  have rem: "remove_from_list_double two_nicks (Some 2) ''carol'' = Some (set_next two_nicks 2 None, Some 2, Some 3)"
    by (simp add: remove_from_list_double_def remove_from_list_ext_def walk_unfold list_stricmp_def t
        stricmp_names relink_def Let_def set_next_def)
  have ren: "rename_node two_nicks (Some 2) ''carol'' ''alice'' = Some (h1, Some 3)"
    by (simp add: rename_node_def rem add_to_list_double_def add_to_list_ext_def walk_unfold
        add_list_stricmp_def set_name_def t stricmp_names h1_def)
  define h2 where "h2 = relink h1 3"
  have "remove_from_list_double h1 (Some 3) ''alice'' = Some (h2, Some 2, Some 3)"
    by (simp add: remove_from_list_double_def remove_from_list_ext_def walk_unfold list_stricmp_def
        n1 stricmp_names h2_def)
  moreover have loop: "next (h2 2) = Some 2" "name (h2 2) = ''bob''"
    by (simp_all add: h2_def relink_def Let_def n1 t)
  moreover have "find_in_list h2 (Some 2) ''dave'' False = None"
    using walk_self_loop [of h2 2 "\<lambda>n. map_option (\<lambda>r. r = 0) (list_stricmp n ''dave'')" None] loop
    by (simp add: find_in_list_def find_in_list_ext_def list_stricmp_def stricmp_names)
  ultimately show ?thesis using ren by (intro exI [of _ h1] exI [of _ h2]) (simp add: n1 t)
qed

text \<open>The theorems above at the list of two nicks.\<close>

lemma dave_fresh: "prev (set_name two_nicks 4 ''dave'' 4) = None" "dlist (set_name two_nicks 4 ''dave'') (Some 2) [2, 3]"
  by (simp_all add: set_name_def dlist_def two_nicks_def)

theorem add_to_list_double_sorted_witness:
  "\<exists>h' list' ys. add_to_list_double (set_name two_nicks 4 ''dave'') (Some 2) 4 = Some (h', list')
    \<and> dlist h' list' ys \<and> mset ys = add_mset 4 (mset [2, 3])"
proof -
  have nn: "\<And>x. x \<in> insert 4 (set [2, 3]) \<Longrightarrow> no_nul (name (set_name two_nicks 4 ''dave'' x))"
    by (auto simp: set_name_def two_nicks_def)
  have "ckey ''bob'' \<le> ckey ''carol''" by code_simp
  then have so: "sorted (map (node_key (set_name two_nicks 4 ''dave'')) [2, 3])"
    by (simp add: set_name_def two_nicks_def)
  have new: "(4 :: nat) \<notin> set [2, 3]" by simp
  from add_to_list_double_sorted [OF dave_fresh(2) new dave_fresh(1) nn so] show ?thesis by blast
qed

theorem remove_from_list_double_removes_witness:
  "\<exists>h' list'. remove_from_list_double two_nicks (Some 2) ''CAROL'' = Some (h', list', Some 3) \<and> dlist h' list' [2]"
proof -
  obtain h' list' r where r: "remove_from_list_double two_nicks (Some 2) ''CAROL'' = Some (h', list', r)"
      "find_in_list two_nicks (Some 2) ''CAROL'' False = Some r"
      "case r of None \<Rightarrow> h' = two_nicks \<and> list' = Some 2 | Some t \<Rightarrow> t \<in> set [2, 3] \<and> dlist h' list' (remove1 t [2, 3])"
    using remove_from_list_double_removes [OF two_nicks_dlist, of "''CAROL''"]
    by (elim exE conjE) (rule that)
  have c: "my_stricmp ''bob'' ''CAROL'' = -1" "my_stricmp ''carol'' ''CAROL'' = 0" by code_simp+
  have "is_list two_nicks (Some 2) [2, 3]" using two_nicks_dlist by (simp add: dlist_def)
  from find_in_list_spec [OF this, of "''CAROL''"] have "r = Some 3"
    using r(2) by (simp add: two_nicks_def c)
  then show ?thesis using r(1,3) by simp
qed

theorem break_from_list_unlinks_witness:
  "\<exists>h' list'. break_from_list two_nicks (Some 2) 2 = (h', list') \<and> dlist h' list' [3]"
  using break_from_list_unlinks [OF two_nicks_dlist, of 2] by fastforce

theorem find_in_list_wild_best_witness:
  "case find_in_list two_nicks (Some 2) ''bob'' True of None \<Rightarrow> False | Some r \<Rightarrow> True"
proof -
  have il: "is_list two_nicks (Some 2) [2, 3]" using two_nicks_dlist by (simp add: dlist_def)
  have "wild_match (name (two_nicks x)) ''bob'' = Some (new_match (name (two_nicks x)) ''bob'')"
    if "x \<in> set [2, 3]" for x
    using that by (auto simp: two_nicks_def wild_match.simps)
  from find_in_list_wild_best [OF il this] show ?thesis by (auto split: option.splits)
qed

end
