(* ===== verification/ScriptArray.thy ===== *)
theory ScriptArray
  imports LinkedList
begin

section \<open>Script arrays (source/array.c)\<close>

text \<open>
  The arrays of the script language: \<open>SETITEM\<close>, \<open>GETITEM\<close>, \<open>DELITEM\<close>, \<open>FINDITEM\<close> and
  the other built-in functions. An array keeps its items in the order of their numbers and
  an index, the item numbers in the order of the items' contents; the names of all arrays
  are such an array themselves (\<open>array_info\<close>), and \<open>array_array\<close> holds the arrays in the
  order of their names' item numbers. \<open>long\<close> results that may be negative are \<open>int\<close>.
\<close>

record an_array =
  item :: "cstr list"
  index :: "nat list"
  arr_size :: nat

record arrays =
  array_info :: an_array
  array_array :: "an_array list"

abbreviation ARRAY_THRESHOLD :: nat where "ARRAY_THRESHOLD \<equiv> 100"

definition no_arrays :: arrays where
  "no_arrays = \<lparr>array_info = \<lparr>item = [], index = [], arr_size = 0\<rparr>, array_array = []\<rparr>"

subsection \<open>The index\<close>

function find_item_loop :: "an_array \<Rightarrow> cstr \<Rightarrow> int \<Rightarrow> int \<Rightarrow> int" where
  "find_item_loop a s bottom top' =
     (if bottom \<le> top'
      then let key = (top' - bottom) div 2 + bottom;
               cmp = strcmp s (item a ! (index a ! nat key))
           in if cmp = 0 then key
              else if cmp < 0 then find_item_loop a s bottom (key - 1)
              else find_item_loop a s (key + 1) top'
      else - bottom - 1)"
  by pat_completeness auto
termination
  by (relation "measure (\<lambda>(a, s, bottom, top'). nat (top' - bottom + 1))") auto

declare find_item_loop.simps [simp del]

definition find_item :: "an_array \<Rightarrow> cstr \<Rightarrow> int" where
  "find_item a s = find_item_loop a s 0 (int (arr_size a) - 1)"

text \<open>The copying loops: \<open>for (cnt = hi; cnt > lo; cnt--)\<close> and \<open>for (; lo < hi; lo++)\<close>.\<close>

fun shift_up :: "nat \<Rightarrow> nat \<Rightarrow> 'a list \<Rightarrow> 'a list" where
  "shift_up lo 0 xs = xs"
| "shift_up lo (Suc k) xs = (if lo < Suc k then shift_up lo k (xs[Suc k := xs ! k]) else xs)"

function shift_down :: "nat \<Rightarrow> nat \<Rightarrow> 'a list \<Rightarrow> 'a list" where
  "shift_down lo hi xs = (if lo < hi then shift_down (Suc lo) hi (xs[lo := xs ! Suc lo]) else xs)"
  by pat_completeness auto
termination by (relation "measure (\<lambda>(lo, hi, xs). hi - lo)") auto

declare shift_down.simps [simp del]

text \<open>The last cell of the reallocated index is new; the loop or the last line sets it.\<close>

definition insert_index :: "nat list \<Rightarrow> nat \<Rightarrow> nat \<Rightarrow> nat list \<times> nat" where
  "insert_index ind sz newIndex =
     (let newIndex = (if sz \<noteq> 0 then newIndex else 0)
      in ((shift_up newIndex sz (ind @ [0]))[newIndex := sz], sz + 1))"

definition move_index :: "an_array \<Rightarrow> nat \<Rightarrow> nat \<Rightarrow> an_array" where
  "move_index a oldindex newindex =
     (let newindex = (if oldindex < newindex then newindex - 1 else newindex)
      in if newindex = oldindex then a
         else let temp = index a ! oldindex;
                  ind = (if oldindex < newindex then shift_down oldindex newindex (index a)
                         else shift_up newindex oldindex (index a))
              in a\<lparr>index := ind[newindex := temp]\<rparr>)"

text \<open>Back over the items equal to the one sought, then forward to its own index.\<close>

function skip_back :: "an_array \<Rightarrow> cstr \<Rightarrow> int \<Rightarrow> int" where
  "skip_back a s i =
     (if 0 \<le> i \<and> strcmp (item a ! (index a ! nat i)) s = 0 then skip_back a s (i - 1) else i)"
  by pat_completeness auto
termination by (relation "measure (\<lambda>(a, s, i). nat (i + 1))") auto

declare skip_back.simps [simp del]

function find_from :: "an_array \<Rightarrow> nat \<Rightarrow> nat \<Rightarrow> nat" where
  "find_from a it i = (if i < arr_size a \<and> index a ! i \<noteq> it then find_from a it (Suc i) else i)"
  by pat_completeness auto
termination by (relation "measure (\<lambda>(a, it, i). arr_size a - i)") auto

declare find_from.simps [simp del]

definition find_index :: "an_array \<Rightarrow> nat \<Rightarrow> nat" where
  "find_index a it =
     find_from a it
       (if ARRAY_THRESHOLD \<le> arr_size a
        then nat (skip_back a (item a ! it) (find_item a (item a ! it)) + 1) else 0)"

subsection \<open>The arrays by name\<close>

definition get_array :: "arrays \<Rightarrow> cstr \<Rightarrow> nat option" where
  "get_array st nm =
     (if arr_size (array_info st) \<noteq> 0 \<and> nm \<noteq> []
      then let i = find_item (array_info st) (upper nm)
           in if 0 \<le> i then Some (index (array_info st) ! nat i) else None
      else None)"

definition lower_above :: "nat \<Rightarrow> nat list \<Rightarrow> nat list" where
  "lower_above it ind = map (\<lambda>i. if it < i then i - 1 else i) ind"

text \<open>The removal of item \<open>it\<close>, whose index is \<open>i\<close>, from an array of more than one item.\<close>

definition drop_item :: "an_array \<Rightarrow> nat \<Rightarrow> nat \<Rightarrow> an_array" where
  "drop_item a i it =
     (let a1 = move_index (a\<lparr>index := lower_above it (index a)\<rparr>) i (arr_size a);
          sz = arr_size a - 1
      in \<lparr>item = take sz (shift_down it sz (item a1)), index = take sz (index a1), arr_size = sz\<rparr>)"

definition delete_array :: "arrays \<Rightarrow> cstr \<Rightarrow> arrays" where
  "delete_array st nm =
     (let info = array_info st;
          i = nat (find_item info nm);
          it = index info ! i
      in if 1 < arr_size info
         then \<lparr>array_info = drop_item info i it,
               array_array = take (arr_size info - 1)
                 (shift_down it (arr_size info - 1) (array_array st))\<rparr>
         else no_arrays)"

definition delete_all_arrays :: "arrays \<Rightarrow> arrays" where
  "delete_all_arrays st = no_arrays"

subsection \<open>The built-in functions that change arrays\<close>

text \<open>\<open>index = find_item(..); index = (index >= 0) ? index : (-index) - 1\<close>\<close>

definition insertion_place :: "an_array \<Rightarrow> cstr \<Rightarrow> nat" where
  "insertion_place a s = (let i = find_item a s in nat (if 0 \<le> i then i else - i - 1))"

definition set_existing :: "an_array \<Rightarrow> nat \<Rightarrow> cstr \<Rightarrow> an_array" where
  "set_existing a it s =
     (let oldindex = find_index a it;
          a1 = move_index a oldindex (insertion_place a s)
      in a1\<lparr>item := (item a1)[it := s]\<rparr>)"

definition append_item :: "an_array \<Rightarrow> cstr \<Rightarrow> an_array" where
  "append_item a s =
     (let (ind, sz) = insert_index (index a) (arr_size a) (insertion_place a s)
      in \<lparr>item = item a @ [s], index = ind, arr_size = sz\<rparr>)"

definition set_item :: "arrays \<Rightarrow> cstr \<Rightarrow> int \<Rightarrow> cstr \<Rightarrow> arrays \<times> int" where
  "set_item st name0 it s =
     (if it < 0 then (st, -1)
      else
        let nm = upper name0;
            info = array_info st;
            i = (if arr_size info \<noteq> 0 then find_item info nm else 0)
        in if arr_size info \<noteq> 0 \<and> 0 \<le> i
           then let slot = index info ! nat i; a = array_array st ! slot
                in if it < int (arr_size a)
                   then (st\<lparr>array_array := (array_array st)[slot := set_existing a (nat it) s]\<rparr>, 0)
                   else if it = int (arr_size a)
                   then (st\<lparr>array_array := (array_array st)[slot := append_item a s]\<rparr>, 2)
                   else (st, -2)
           else if it = 0
           then let (ind, sz) = insert_index (index info) (arr_size info) (nat (- i - 1))
                in (\<lparr>array_info = \<lparr>item = item info @ [nm], index = ind, arr_size = sz\<rparr>,
                     array_array = array_array st @ [\<lparr>item = [s], index = [0], arr_size = 1\<rparr>]\<rparr>, 1)
           else (st, -1))"

definition function_setitem :: "arrays \<Rightarrow> cstr \<Rightarrow> arrays \<times> cstr" where
  "function_setitem st input =
     (case next_arg input of
        (None, _) \<Rightarrow> (st, ltoa (-1))
      | (Some nm, rest) \<Rightarrow>
          (if nm = [] then (st, ltoa (-1))
           else case next_arg rest of
             (None, _) \<Rightarrow> (st, ltoa (-1))
           | (Some itemstr, data) \<Rightarrow>
               (let (st', r) = set_item st nm (my_atol (Some itemstr)) data in (st', ltoa r))))"

text \<open>
  \<open>(name = next_arg(input, &input)) && (array = get_array(name))\<close>: the name in upper case,
  the array's place and the rest of the input.
\<close>

definition named_array :: "arrays \<Rightarrow> cstr \<Rightarrow> (cstr \<times> nat \<times> cstr) option" where
  "named_array st input =
     (case next_arg input of
        (None, _) \<Rightarrow> None
      | (Some nm, rest) \<Rightarrow> map_option (\<lambda>slot. (upper nm, slot, rest)) (get_array st nm))"

definition delete_item :: "arrays \<Rightarrow> cstr \<Rightarrow> nat \<Rightarrow> int \<Rightarrow> arrays \<times> int" where
  "delete_item st nm slot it =
     (let a = array_array st ! slot
      in if 0 \<le> it \<and> it < int (arr_size a)
         then (if arr_size a = 1 then delete_array st nm
               else st\<lparr>array_array := (array_array st)
                         [slot := drop_item a (find_index a (nat it)) (nat it)]\<rparr>, 0)
         else (st, -2))"

definition function_delitem :: "arrays \<Rightarrow> cstr \<Rightarrow> arrays \<times> cstr" where
  "function_delitem st input =
     (case named_array st input of
        None \<Rightarrow> (st, ltoa (-1))
      | Some (nm, slot, rest) \<Rightarrow>
          (case next_arg rest of
             (None, _) \<Rightarrow> (st, ltoa (-2))
           | (Some itemstr, _) \<Rightarrow>
               (let (st', r) = delete_item st nm slot (my_atol (Some itemstr)) in (st', ltoa r))))"

definition function_delarray :: "arrays \<Rightarrow> cstr \<Rightarrow> arrays \<times> cstr" where
  "function_delarray st input =
     (case named_array st input of
        None \<Rightarrow> (st, ltoa (-1))
      | Some (nm, _, _) \<Rightarrow> (delete_array st nm, ltoa 0))"

subsection \<open>The built-in functions that read arrays\<close>

definition RETURN_STR :: "cstr option \<Rightarrow> cstr" where
  "RETURN_STR x = (case x of None \<Rightarrow> [] | Some s \<Rightarrow> s)"

text \<open>The place of the best positive match so far; no value if a match does not return.\<close>

fun best_match_loop :: "(cstr \<Rightarrow> int option) \<Rightarrow> nat \<Rightarrow> cstr list \<Rightarrow> int \<Rightarrow> int \<Rightarrow> int option" where
  "best_match_loop val i [] match best_match = Some match"
| "best_match_loop val i (x # xs) match best_match =
     (case val x of
        None \<Rightarrow> None
      | Some current_match \<Rightarrow>
          if best_match < current_match
          then best_match_loop val (Suc i) xs (int i) current_match
          else best_match_loop val (Suc i) xs match best_match)"

definition items :: "an_array \<Rightarrow> cstr list" where
  "items a = take (arr_size a) (item a)"

definition match_item :: "(cstr \<Rightarrow> cstr \<Rightarrow> int option) \<Rightarrow> arrays \<Rightarrow> cstr \<Rightarrow> cstr option" where
  "match_item val st input =
     (case named_array st input of
        None \<Rightarrow> Some (ltoa (-1))
      | Some (nm, slot, rest) \<Rightarrow>
          (if rest = [] then Some (ltoa (-2))
           else map_option ltoa (best_match_loop (val rest) 0 (items (array_array st ! slot)) (-2) 0)))"

definition function_matchitem :: "arrays \<Rightarrow> cstr \<Rightarrow> cstr option" where
  "function_matchitem = match_item (\<lambda>inp it. wild_match inp it)"

definition function_rmatchitem :: "arrays \<Rightarrow> cstr \<Rightarrow> cstr option" where
  "function_rmatchitem = match_item (\<lambda>inp it. wild_match it inp)"

definition function_gettmatch :: "arrays \<Rightarrow> cstr \<Rightarrow> cstr option" where
  "function_gettmatch st input =
     (case named_array st input of
        None \<Rightarrow> Some []
      | Some (nm, slot, rest) \<Rightarrow>
          (if rest = [] then Some []
           else let a = array_array st ! slot in
             map_option (\<lambda>m. if m \<noteq> -1 then item a ! nat m else [])
               (best_match_loop (wild_match rest) 0 (items a) (-1) 0)))"

fun matches_loop :: "(cstr \<Rightarrow> int option) \<Rightarrow> (nat \<Rightarrow> nat) \<Rightarrow> nat \<Rightarrow> cstr list \<Rightarrow> cstr option
    \<Rightarrow> cstr option option" where
  "matches_loop val shown i [] result = Some result"
| "matches_loop val shown i (x # xs) result =
     (case val x of
        None \<Rightarrow> None
      | Some r \<Rightarrow> matches_loop val shown (Suc i) xs
                   (if 0 < r then m_s3cat result '' '' (ltoa (int (shown i))) else result))"

definition get_matches ::
  "(cstr \<Rightarrow> cstr \<Rightarrow> int option) \<Rightarrow> (an_array \<Rightarrow> nat \<Rightarrow> nat) \<Rightarrow> arrays \<Rightarrow> cstr \<Rightarrow> cstr option" where
  "get_matches val shown st input =
     (case named_array st input of
        None \<Rightarrow> Some []
      | Some (nm, slot, rest) \<Rightarrow>
          (if rest = [] then Some []
           else let a = array_array st ! slot in
             map_option RETURN_STR (matches_loop (val rest) (shown a) 0 (items a) None)))"

definition function_getmatches :: "arrays \<Rightarrow> cstr \<Rightarrow> cstr option" where
  "function_getmatches = get_matches (\<lambda>inp it. wild_match inp it) (\<lambda>a i. i)"

definition function_getrmatches :: "arrays \<Rightarrow> cstr \<Rightarrow> cstr option" where
  "function_getrmatches = get_matches (\<lambda>inp it. wild_match it inp) (\<lambda>a i. i)"

definition function_igetmatches :: "arrays \<Rightarrow> cstr \<Rightarrow> cstr option" where
  "function_igetmatches = get_matches (\<lambda>inp it. wild_match inp it) find_index"

definition function_igetrmatches :: "arrays \<Rightarrow> cstr \<Rightarrow> cstr option" where
  "function_igetrmatches = get_matches (\<lambda>inp it. wild_match it inp) find_index"

definition function_listarray :: "arrays \<Rightarrow> cstr \<Rightarrow> cstr" where
  "function_listarray st input =
     (case named_array st input of
        None \<Rightarrow> []
      | Some (nm, slot, rest) \<Rightarrow>
          RETURN_STR (foldl (\<lambda>result s. m_s3cat result '' '' s) None (items (array_array st ! slot))))"

definition function_numitems :: "arrays \<Rightarrow> cstr \<Rightarrow> cstr" where
  "function_numitems st input =
     (case named_array st input of
        None \<Rightarrow> ltoa 0
      | Some (nm, slot, rest) \<Rightarrow> ltoa (int (arr_size (array_array st ! slot))))"

text \<open>
  An item number of an array: the result for no array, for no or a wrong number, and for
  a number of the array.
\<close>

definition with_number :: "'a \<Rightarrow> 'a \<Rightarrow> (an_array \<Rightarrow> nat \<Rightarrow> 'a) \<Rightarrow> arrays \<Rightarrow> cstr \<Rightarrow> 'a" where
  "with_number none bad f st input =
     (case named_array st input of
        None \<Rightarrow> none
      | Some (nm, slot, rest) \<Rightarrow>
          (case next_arg rest of
             (None, _) \<Rightarrow> bad
           | (Some itemstr, _) \<Rightarrow>
               (let a = array_array st ! slot; it = my_atol (Some itemstr)
                in if 0 \<le> it \<and> it < int (arr_size a) then f a (nat it) else bad)))"

definition function_getitem :: "arrays \<Rightarrow> cstr \<Rightarrow> cstr" where
  "function_getitem = with_number [] [] (\<lambda>a it. item a ! it)"

definition function_igetitem :: "arrays \<Rightarrow> cstr \<Rightarrow> cstr" where
  "function_igetitem = with_number [] [] (\<lambda>a i. item a ! (index a ! i))"

definition function_indextoitem :: "arrays \<Rightarrow> cstr \<Rightarrow> cstr" where
  "function_indextoitem = with_number (ltoa (-1)) (ltoa (-2)) (\<lambda>a i. ltoa (int (index a ! i)))"

definition function_itemtoindex :: "arrays \<Rightarrow> cstr \<Rightarrow> cstr" where
  "function_itemtoindex = with_number (ltoa (-1)) (ltoa (-2)) (\<lambda>a it. ltoa (int (find_index a it)))"

definition with_found :: "(an_array \<Rightarrow> cstr \<Rightarrow> int) \<Rightarrow> arrays \<Rightarrow> cstr \<Rightarrow> cstr" where
  "with_found f st input =
     (case named_array st input of
        None \<Rightarrow> ltoa (-1)
      | Some (nm, slot, rest) \<Rightarrow>
          (if rest = [] then ltoa (-1) else ltoa (f (array_array st ! slot) rest)))"

definition function_finditem :: "arrays \<Rightarrow> cstr \<Rightarrow> cstr" where
  "function_finditem =
     with_found (\<lambda>a s. let it = find_item a s in if 0 \<le> it then int (index a ! nat it) else -2)"

definition function_ifinditem :: "arrays \<Rightarrow> cstr \<Rightarrow> cstr" where
  "function_ifinditem = with_found (\<lambda>a s. let it = find_item a s in if it < 0 then -2 else it)"

definition function_ifindfirst :: "arrays \<Rightarrow> cstr \<Rightarrow> cstr" where
  "function_ifindfirst =
     with_found (\<lambda>a s. let it = find_item a s in if it < 0 then -2 else skip_back a s it + 1)"

definition function_getarrays :: "arrays \<Rightarrow> cstr" where
  "function_getarrays st =
     RETURN_STR (foldl (\<lambda>result i. m_s3cat result '' '' (item (array_info st) ! i)) None
       (take (arr_size (array_info st)) (index (array_info st))))"

definition function_numarrays :: "arrays \<Rightarrow> cstr" where
  "function_numarrays st = ltoa (int (arr_size (array_info st)))"

subsection \<open>The invariant\<close>

text \<open>
  The index is a permutation of the item numbers that lists the items in the order of
  \<open>strcmp\<close>; there are as many arrays as names, the names differ, and no array is empty.
\<close>

definition contents :: "an_array \<Rightarrow> cstr list" where
  "contents a = map (\<lambda>i. item a ! i) (index a)"

definition arr_ok :: "an_array \<Rightarrow> bool" where
  "arr_ok a \<longleftrightarrow>
     length (item a) = arr_size a \<and> mset (index a) = mset [0..<arr_size a]
     \<and> sorted (map okey (contents a)) \<and> list_all no_nul (item a)"

definition arrays_ok :: "arrays \<Rightarrow> bool" where
  "arrays_ok st \<longleftrightarrow>
     arr_ok (array_info st) \<and> distinct (item (array_info st))
     \<and> length (array_array st) = arr_size (array_info st)
     \<and> list_all (\<lambda>a. arr_ok a \<and> 0 < arr_size a) (array_array st)"

subsection \<open>The copying loops\<close>

definition insert_at :: "nat \<Rightarrow> 'a \<Rightarrow> 'a list \<Rightarrow> 'a list" where
  "insert_at n x xs = take n xs @ x # drop n xs"

definition delete_at :: "nat \<Rightarrow> 'a list \<Rightarrow> 'a list" where
  "delete_at n xs = take n xs @ drop (Suc n) xs"

lemma length_insert_at [simp]: "length (insert_at n x xs) = Suc (length xs)"
  by (simp add: insert_at_def)

lemma length_delete_at [simp]: "n < length xs \<Longrightarrow> length (delete_at n xs) = length xs - 1"
  by (auto simp: delete_at_def)

lemma nth_insert_at:
  "n \<le> length xs \<Longrightarrow> j \<le> length xs \<Longrightarrow>
    insert_at n x xs ! j = (if j < n then xs ! j else if j = n then x else xs ! (j - 1))"
proof -
  assume n: "n \<le> length xs" and j: "j \<le> length xs"
  consider "j < n" | "j = n" | k where "j = Suc (n + k)" using less_imp_Suc_add by (meson linorder_neqE_nat)
  then show ?thesis using n j by cases (auto simp: insert_at_def nth_append)
qed

lemma nth_delete_at:
  "n < length xs \<Longrightarrow> j < length xs - 1 \<Longrightarrow> delete_at n xs ! j = (if j < n then xs ! j else xs ! Suc j)"
  by (auto simp: delete_at_def nth_append min_def)

lemma map_insert_at: "map f (insert_at n x xs) = insert_at n (f x) (map f xs)"
  by (simp add: insert_at_def take_map drop_map)

lemma map_delete_at: "map f (delete_at n xs) = delete_at n (map f xs)"
  by (simp add: delete_at_def take_map drop_map)

lemma mset_insert_at: "mset (insert_at n x xs) = add_mset x (mset xs)"
proof -
  have "mset (take n xs) + mset (drop n xs) = mset xs" by (metis append_take_drop_id mset_append)
  then show ?thesis by (simp add: insert_at_def)
qed

lemma insert_delete_same: "n < length xs \<Longrightarrow> insert_at n (xs ! n) (delete_at n xs) = xs"
  by (simp add: insert_at_def delete_at_def id_take_nth_drop [symmetric])

lemma mset_delete_at: "n < length xs \<Longrightarrow> add_mset (xs ! n) (mset (delete_at n xs)) = mset xs"
  by (metis insert_delete_same mset_insert_at)

lemma sorted_delete_at: "sorted xs \<Longrightarrow> sorted (delete_at n xs)"
proof -
  assume "sorted xs"
  then have "sorted (take n xs @ drop n xs)" by simp
  moreover have "set (drop (Suc n) xs) \<subseteq> set (drop n xs)" by (simp add: set_drop_subset_set_drop)
  moreover have "sorted (drop (Suc n) xs)" using \<open>sorted xs\<close> by (rule sorted_wrt_drop)
  ultimately show ?thesis unfolding delete_at_def sorted_append by blast
qed

lemma insert_delete_at:
  assumes "old < length xs" "n \<le> length xs"
  shows "insert_at (if old < n then n - 1 else n) s (delete_at old xs)
    = delete_at (if old < n then old else Suc old) (insert_at n s xs)"
proof (rule nth_equalityI)
  fix j assume j: "j < length (insert_at (if old < n then n - 1 else n) s (delete_at old xs))"
  then have "j < length xs" using assms by simp
  then show "insert_at (if old < n then n - 1 else n) s (delete_at old xs) ! j
      = delete_at (if old < n then old else Suc old) (insert_at n s xs) ! j"
  proof (cases "old < n")
    case True
    then have "n - 1 \<le> length (delete_at old xs)" "j \<le> length (delete_at old xs)"
      using assms \<open>j < length xs\<close> by auto
    from nth_insert_at [OF this] show ?thesis using True assms \<open>j < length xs\<close>
      by (simp add: nth_insert_at nth_delete_at) arith
  next
    case False
    then have "n \<le> length (delete_at old xs)" "j \<le> length (delete_at old xs)"
      using assms \<open>j < length xs\<close> by auto
    from nth_insert_at [OF this] show ?thesis using False assms \<open>j < length xs\<close>
      by (simp add: nth_insert_at nth_delete_at) arith
  qed
qed (use assms in auto)

lemma length_shift_up [simp]: "length (shift_up lo hi xs) = length xs"
  by (induction lo hi xs rule: shift_up.induct) simp_all

lemma shift_up_nth:
  "hi < length xs \<Longrightarrow> j < length xs \<Longrightarrow>
    shift_up lo hi xs ! j = (if lo < j \<and> j \<le> hi then xs ! (j - 1) else xs ! j)"
proof (induction lo hi xs rule: shift_up.induct)
  case (2 lo k xs)
  then show ?case by (auto simp: nth_list_update le_Suc_eq)
qed auto

lemma length_shift_down [simp]: "length (shift_down lo hi xs) = length xs"
  by (induction lo hi xs rule: shift_down.induct) (subst shift_down.simps, simp)

lemma shift_down_nth:
  "hi < length xs \<Longrightarrow> j < length xs \<Longrightarrow>
    shift_down lo hi xs ! j = (if lo \<le> j \<and> j < hi then xs ! Suc j else xs ! j)"
proof (induction lo hi xs rule: shift_down.induct)
  case (1 lo hi xs)
  show ?case
  proof (cases "lo < hi")
    case True
    then have "shift_down lo hi xs ! j
        = (if Suc lo \<le> j \<and> j < hi then xs[lo := xs ! Suc lo] ! Suc j else xs[lo := xs ! Suc lo] ! j)"
      using 1 by (subst shift_down.simps) simp
    then show ?thesis using 1(2,3) True by (auto simp: nth_list_update)
  qed (subst shift_down.simps, auto)
qed

lemma shift_down_delete:
  "it < length xs \<Longrightarrow> take (length xs - 1) (shift_down it (length xs - 1) xs) = delete_at it xs"
  by (rule nth_equalityI) (auto simp: shift_down_nth nth_delete_at)

lemma insert_index_eq:
  assumes "length ind = sz" "n \<le> sz"
  shows "insert_index ind sz n = (insert_at n sz ind, Suc sz)"
proof -
  have "(shift_up n sz (ind @ [0]))[n := sz] = insert_at n sz ind"
  proof (rule nth_equalityI)
    fix j assume "j < length ((shift_up n sz (ind @ [0]))[n := sz])"
    then have "j < Suc sz" using assms by simp
    then show "(shift_up n sz (ind @ [0]))[n := sz] ! j = insert_at n sz ind ! j"
      using assms by (auto simp: nth_list_update shift_up_nth nth_insert_at nth_append)
  qed (use assms in simp)
  then show ?thesis using assms by (cases "sz = 0") (simp_all add: insert_index_def Let_def insert_at_def)
qed

lemma move_index_eq:
  assumes "old < length (index a)" "new \<le> length (index a)"
  shows "move_index a old new = a\<lparr>index :=
    insert_at (if old < new then new - 1 else new) (index a ! old) (delete_at old (index a))\<rparr>"
proof -
  define n where "n = (if old < new then new - 1 else new)"
  have n: "n < length (index a) \<or> n = length (index a) \<and> old < n" "n \<le> length (index a) - 1 \<or> n = new"
    using assms by (auto simp: n_def)
  have nl: "n \<le> length (index a) - 1" if "n \<noteq> length (index a)" using n assms that by auto
  have nlt: "n < length (index a)"
  proof (cases "old < new")
    case True
    then show ?thesis using assms by (simp add: n_def)
  next
    case False
    then show ?thesis using assms by (simp add: n_def)
  qed
  have "(if old < n then shift_down old n (index a) else shift_up n old (index a))[n := index a ! old]
      = insert_at n (index a ! old) (delete_at old (index a))" (is "?l = ?r") if "n \<noteq> old"
  proof (rule nth_equalityI)
    fix j assume "j < length ?l"
    then have "j < length (index a)" by (simp split: if_splits)
    then show "?l ! j = ?r ! j"
      using assms nlt that
      by (auto simp: nth_list_update shift_up_nth shift_down_nth nth_insert_at nth_delete_at)
  qed (use assms nlt in simp)
  moreover have "insert_at n (index a ! old) (delete_at old (index a)) = index a" if "n = old"
    using insert_delete_same assms that by metis
  ultimately show ?thesis by (auto simp: move_index_def Let_def n_def [symmetric])
qed

subsection \<open>What a search promises\<close>

text \<open>
  The contract between the binary search and its callers: \<open>seq a\<close> is the sequence the
  search looks at, in the order of \<open>strcmp\<close>. A hit is a place of the string; a miss
  names the place where the string belongs.
\<close>

locale item_search =
  fixes search_for :: "'a \<Rightarrow> cstr \<Rightarrow> int" and seq :: "'a \<Rightarrow> cstr list" and ok :: "'a \<Rightarrow> bool"
  assumes in_order: "ok a \<Longrightarrow> sorted (map okey (seq a))"
    and hit: "ok a \<Longrightarrow> no_nul s \<Longrightarrow> 0 \<le> search_for a s
      \<Longrightarrow> nat (search_for a s) < length (seq a) \<and> seq a ! nat (search_for a s) = s"
    and miss: "ok a \<Longrightarrow> no_nul s \<Longrightarrow> search_for a s < 0
      \<Longrightarrow> nat (- search_for a s - 1) \<le> length (seq a)
        \<and> (\<forall>j < nat (- search_for a s - 1). okey (seq a ! j) < okey s)
        \<and> (\<forall>j < length (seq a). nat (- search_for a s - 1) \<le> j \<longrightarrow> okey s < okey (seq a ! j))"
begin

lemma found_iff:
  assumes "ok a" "no_nul s"
  shows "0 \<le> search_for a s \<longleftrightarrow> s \<in> set (seq a)"
proof
  assume "0 \<le> search_for a s"
  then show "s \<in> set (seq a)" using hit [OF assms] by (metis nth_mem)
next
  assume "s \<in> set (seq a)"
  then obtain j where j: "j < length (seq a)" "seq a ! j = s" by (auto simp: in_set_conv_nth)
  show "0 \<le> search_for a s"
  proof (rule ccontr)
    assume "\<not> 0 \<le> search_for a s"
    then show False using miss [OF assms] j by (meson less_irrefl linorder_not_le not_le)
  qed
qed

lemma place_sorted:
  assumes "ok a" "no_nul s"
    "p = nat (if 0 \<le> search_for a s then search_for a s else - search_for a s - 1)"
  shows "p \<le> length (seq a)" "sorted (map okey (insert_at p s (seq a)))"
proof -
  have so: "sorted (map okey (seq a))" by (rule in_order [OF assms(1)])
  have "p \<le> length (seq a) \<and> (\<forall>j < p. okey (seq a ! j) \<le> okey s)
      \<and> (\<forall>j < length (seq a). p \<le> j \<longrightarrow> okey s \<le> okey (seq a ! j))"
  proof (cases "0 \<le> search_for a s")
    case True
    then have h: "p < length (seq a)" "seq a ! p = s" using hit [OF assms(1,2)] assms(3) by auto
    have "okey (seq a ! j) \<le> okey (seq a ! k)" if "j \<le> k" "k < length (seq a)" for j k
      using so that sorted_nth_mono [of "map okey (seq a)" j k] by simp
    then show ?thesis using h by (metis less_imp_le)
  next
    case False
    then have "search_for a s < 0" "p = nat (- search_for a s - 1)" using assms(3) by auto
    then show ?thesis using miss [OF assms(1,2)] by (auto intro: less_imp_le)
  qed
  then have p: "p \<le> length (seq a)" "\<forall>j < p. okey (seq a ! j) \<le> okey s"
      "\<forall>j < length (seq a). p \<le> j \<longrightarrow> okey s \<le> okey (seq a ! j)" by auto
  then show "p \<le> length (seq a)" by simp
  have "\<forall>x \<in> set (take p (seq a)). okey x \<le> okey s" using p by (auto simp: in_set_conv_nth)
  moreover have "\<forall>x \<in> set (drop p (seq a)). okey s \<le> okey x"
  proof
    fix x assume "x \<in> set (drop p (seq a))"
    then obtain j where "j < length (seq a) - p" "x = seq a ! (p + j)" by (auto simp: in_set_conv_nth)
    then show "okey s \<le> okey x" using p(3) by auto
  qed
  moreover have "sorted (map okey (take p (seq a) @ drop p (seq a)))" using so by simp
  ultimately show "sorted (map okey (insert_at p s (seq a)))"
    by (auto simp: insert_at_def sorted_append ball_Un simp del: append_take_drop_id)
qed

end

lemma arr_ok_contents:
  assumes "arr_ok a"
  shows "length (contents a) = arr_size a" "length (index a) = arr_size a" "distinct (index a)"
    "set (index a) = {..<arr_size a}" "mset (contents a) = mset (item a)"
    "list_all no_nul (contents a)" "sorted (map okey (contents a))"
proof -
  have m: "mset (index a) = mset [0..<arr_size a]" "length (item a) = arr_size a"
    "list_all no_nul (item a)"
    using assms by (auto simp: arr_ok_def)
  show l: "length (index a) = arr_size a" using m(1) by (metis diff_zero length_upt size_mset)
  then show "length (contents a) = arr_size a" by (simp add: contents_def)
  show "distinct (index a)" using m(1) by (metis distinct_upt mset_eq_imp_distinct_iff)
  have "set (index a) = set [0..<arr_size a]" using m(1) by (metis set_mset_mset)
  then show "set (index a) = {..<arr_size a}" by (simp only: set_upt atLeast0LessThan)
  have "mset (contents a) = image_mset ((!) (item a)) (mset (index a))"
    unfolding contents_def by (rule mset_map)
  also have "\<dots> = mset (map ((!) (item a)) [0..<length (item a)])" using m by simp
  also have "\<dots> = mset (item a)" by (simp only: map_nth)
  finally show mm: "mset (contents a) = mset (item a)" .
  then have "set (contents a) = set (item a)" by (metis set_mset_mset)
  then show "list_all no_nul (contents a)" using m(3) by (simp add: list_all_iff)
  show "sorted (map okey (contents a))" using assms by (simp add: arr_ok_def)
qed

lemma find_item_loop_spec:
  assumes a: "arr_ok a" and s: "no_nul s"
    and b: "0 \<le> bottom" "top' < int (arr_size a)" "bottom \<le> top' + 1"
    and low: "\<And>j. j < nat bottom \<Longrightarrow> okey (contents a ! j) < okey s"
    and high: "\<And>j. j < arr_size a \<Longrightarrow> nat (top' + 1) \<le> j \<Longrightarrow> okey s < okey (contents a ! j)"
    and r: "r = find_item_loop a s bottom top'"
  shows "if 0 \<le> r then nat r < arr_size a \<and> contents a ! nat r = s
    else nat (- r - 1) \<le> arr_size a \<and> (\<forall>j < nat (- r - 1). okey (contents a ! j) < okey s)
      \<and> (\<forall>j < arr_size a. nat (- r - 1) \<le> j \<longrightarrow> okey s < okey (contents a ! j))"
  using a s b low high r
proof (induction a s bottom top' rule: find_item_loop.induct)
  case (1 a s bottom top')
  have len: "length (contents a) = arr_size a" and so: "sorted (map okey (contents a))"
    and nn: "list_all no_nul (contents a)" using arr_ok_contents [OF 1(3)] by auto
  show ?case
  proof (cases "bottom \<le> top'")
    case False
    then have "r = - bottom - 1" "top' = bottom - 1" using 1(7,10) find_item_loop.simps [of a s bottom top'] by auto
    then show ?thesis using 1(5-9) by auto
  next
    case True
    define key where "key = (top' - bottom) div 2 + bottom"
    define x where "x = contents a ! nat key"
    have key: "bottom \<le> key" "key \<le> top'" using True by (auto simp: key_def)
    then have kn: "nat key < arr_size a" "0 \<le> key" using 1(5,6) by auto
    have x: "item a ! (index a ! nat key) = x"
      using kn len by (simp add: x_def contents_def)
    have nx: "no_nul x" using nn kn len by (simp add: x_def list_all_length)
    have mono: "okey (contents a ! j) \<le> okey (contents a ! k)" if "j \<le> k" "k < arr_size a" for j k
      using so that len sorted_nth_mono [of "map okey (contents a)" j k] by simp
    have loop: "r = (if strcmp s x = 0 then key
        else if strcmp s x < 0 then find_item_loop a s bottom (key - 1)
        else find_item_loop a s (key + 1) top')"
      unfolding 1(10) using True x by (subst find_item_loop.simps) (simp add: key_def Let_def)
    consider "strcmp s x = 0" | "strcmp s x < 0" | "0 < strcmp s x" by linarith
    then show ?thesis
    proof cases
      case 1
      then show ?thesis using loop kn nx \<open>no_nul s\<close> by (simp add: strcmp_zero_iff x_def)
    next
      case 2
      then have less: "okey s < okey x" using \<open>no_nul s\<close> nx by (simp add: strcmp_less_iff)
      have up: "okey s < okey (contents a ! j)" if "j < arr_size a" "nat (key - 1 + 1) \<le> j" for j
        using mono [of "nat key" j] that less by (simp add: x_def)
      show ?thesis
        using 1(1) [OF True key_def _ _ _ 1(3,4), of "strcmp s x"] 2 x loop up key 1(5-8) by auto
    next
      case 3
      then have more: "okey x < okey s" using \<open>no_nul s\<close> nx by (simp add: strcmp_greater_iff)
      have dn: "okey (contents a ! j) < okey s" if "j < nat (key + 1)" for j
      proof -
        have "j \<le> nat key" using that kn by linarith
        then show ?thesis using mono [of j "nat key"] more kn by (simp add: x_def)
      qed
      show ?thesis
        using 1(2) [OF True key_def _ _ _ 1(3,4), of "strcmp s x"] 3 x loop dn key 1(5-9) by auto
    qed
  qed
qed

interpretation finder: item_search find_item contents arr_ok
proof
  fix a s assume a: "arr_ok a" "no_nul s"
  have len: "length (contents a) = arr_size a" using arr_ok_contents(1) [OF a(1)] .
  note sp = find_item_loop_spec [OF a, of 0 "int (arr_size a) - 1" "find_item a s"]
  show "0 \<le> find_item a s \<Longrightarrow>
      nat (find_item a s) < length (contents a) \<and> contents a ! nat (find_item a s) = s"
    using sp by (simp add: find_item_def len)
  show "find_item a s < 0 \<Longrightarrow> nat (- find_item a s - 1) \<le> length (contents a)
      \<and> (\<forall>j < nat (- find_item a s - 1). okey (contents a ! j) < okey s)
      \<and> (\<forall>j < length (contents a). nat (- find_item a s - 1) \<le> j \<longrightarrow> okey s < okey (contents a ! j))"
    using sp by (simp add: find_item_def len)
qed (rule arr_ok_contents)

subsection \<open>Items and indexes\<close>

lemma skip_back_spec:
  assumes "arr_ok a" "no_nul s" "i < int (arr_size a)" "-1 \<le> i"
  shows "-1 \<le> skip_back a s i" "skip_back a s i \<le> i"
    "0 \<le> skip_back a s i \<Longrightarrow> contents a ! nat (skip_back a s i) \<noteq> s"
    "\<And>j. skip_back a s i < j \<Longrightarrow> j \<le> i \<Longrightarrow> contents a ! nat j = s"
proof -
  have len: "length (contents a) = arr_size a" and nn: "list_all no_nul (contents a)"
    using arr_ok_contents [OF assms(1)] by auto
  have rd: "item a ! (index a ! nat i) = contents a ! nat i" and nni: "no_nul (contents a ! nat i)"
    if "0 \<le> i" "i < int (arr_size a)" for i
    using that len nn by (auto simp: contents_def list_all_length)
  have "-1 \<le> skip_back a s i \<and> skip_back a s i \<le> i
      \<and> (0 \<le> skip_back a s i \<longrightarrow> contents a ! nat (skip_back a s i) \<noteq> s)
      \<and> (\<forall>j. skip_back a s i < j \<longrightarrow> j \<le> i \<longrightarrow> contents a ! nat j = s)"
    using assms
  proof (induction a s i rule: skip_back.induct)
    case (1 a s i)
    have rd: "item a ! (index a ! nat i) = contents a ! nat i" "no_nul (contents a ! nat i)" if "0 \<le> i"
      using that 1(4) arr_ok_contents [OF 1(2)] by (auto simp: contents_def list_all_length)
    show ?case
    proof (cases "0 \<le> i \<and> contents a ! nat i = s")
      case True
      then have c: "0 \<le> i \<and> strcmp (item a ! (index a ! nat i)) s = 0"
        using rd 1(3) by (simp add: strcmp_zero_iff)
      have eq: "skip_back a s i = skip_back a s (i - 1)" using c by (subst skip_back.simps) simp
      have "skip_back a s (i - 1) < j \<Longrightarrow> j \<le> i \<Longrightarrow> contents a ! nat j = s" for j
        using 1(1) [OF c 1(2,3)] 1(4) True by (cases "j = i") auto
      then show ?thesis using 1(1) [OF c 1(2,3)] 1(4) True unfolding eq by auto
    next
      case False
      then have "skip_back a s i = i" using rd 1(3) by (subst skip_back.simps) (auto simp: strcmp_zero_iff)
      then show ?thesis using False 1(5) by auto
    qed
  qed
  then show "-1 \<le> skip_back a s i" "skip_back a s i \<le> i"
    "0 \<le> skip_back a s i \<Longrightarrow> contents a ! nat (skip_back a s i) \<noteq> s"
    "\<And>j. skip_back a s i < j \<Longrightarrow> j \<le> i \<Longrightarrow> contents a ! nat j = s" by blast+
qed

lemma find_from_spec:
  "i \<le> k \<Longrightarrow> k < arr_size a \<Longrightarrow> index a ! k = it \<Longrightarrow> distinct (index a)
    \<Longrightarrow> length (index a) = arr_size a \<Longrightarrow> find_from a it i = k"
proof (induction a it i rule: find_from.induct)
  case (1 a it i)
  show ?case
  proof (cases "index a ! i = it")
    case True
    then have "i = k" using 1(2-6) nth_eq_iff_index_eq [of "index a" i k] by simp
    then show ?thesis using True by (subst find_from.simps) simp
  next
    case False
    then have "Suc i \<le> k" using 1(2,4) by (cases "i = k") auto
    then show ?thesis using False 1 by (subst find_from.simps) simp
  qed
qed

text \<open>
  \<open>find_index\<close> inverts the index: for an item number of the array it returns the
  place of the index that holds the number, below and above the size from which on it
  starts with a binary search, and however many items are equal.
\<close>
theorem find_index_inverts:
  assumes "arr_ok a" "it < arr_size a"
  shows "find_index a it < arr_size a \<and> index a ! find_index a it = it"
proof -
  note ok = arr_ok_contents [OF assms(1)]
  obtain k where k: "k < arr_size a" "index a ! k = it"
    using assms(2) ok(2,4) by (metis in_set_conv_nth lessThan_iff)
  define s where "s = item a ! it"
  have s: "contents a ! k = s" using k ok(1,2) by (simp add: contents_def s_def)
  have nn: "no_nul s" using ok(6) s k ok(1) by (auto simp: list_all_length)
  define start where "start = (if ARRAY_THRESHOLD \<le> arr_size a
      then nat (skip_back a s (find_item a s) + 1) else 0)"
  have "start \<le> k"
  proof (cases "ARRAY_THRESHOLD \<le> arr_size a")
    case True
    define f where "f = find_item a s"
    have "0 \<le> f" unfolding f_def using finder.found_iff [OF assms(1) nn] s k ok(1) by (metis nth_mem)
    then have f: "nat f < arr_size a" "contents a ! nat f = s"
      using finder.hit [OF assms(1) nn] ok(1) by (auto simp: f_def)
    define b where "b = skip_back a s f"
    have bf: "- 1 \<le> b" "b \<le> f" "0 \<le> b \<Longrightarrow> contents a ! nat b \<noteq> s"
      using skip_back_spec(1-3) [OF assms(1) nn, of f] f \<open>0 \<le> f\<close> by (auto simp: b_def)
    have "b < int k"
    proof (cases "0 \<le> b")
      case b0: True
      have mono: "okey (contents a ! j) \<le> okey (contents a ! l)" if "j \<le> l" "l < arr_size a" for j l
        using ok(7) that ok(1) sorted_nth_mono [of "map okey (contents a)" j l] by simp
      show ?thesis
      proof (rule ccontr)
        assume "\<not> b < int k"
        then have "k \<le> nat b" "nat b \<le> nat f" using bf(2) by linarith+
        then have "okey s \<le> okey (contents a ! nat b)" "okey (contents a ! nat b) \<le> okey s"
          using mono [of k "nat b"] mono [of "nat b" "nat f"] f s by auto
        then show False using bf(3) [OF b0] okey_inj by auto
      qed
    qed simp
    then show ?thesis using True by (simp add: start_def b_def f_def)
  qed (simp add: start_def)
  then have "find_index a it = k"
    using find_from_spec [of start k a it] k ok(2,3)
    by (simp add: find_index_def start_def s_def split: if_splits)
  then show ?thesis using k by simp
qed

subsection \<open>The changes of one array\<close>

lemma place_of:
  assumes "arr_ok a" "no_nul s"
  shows "insertion_place a s \<le> arr_size a"
    and "sorted (map okey (insert_at (insertion_place a s) s (contents a)))"
  using finder.place_sorted [OF assms refl] arr_ok_contents(1) [OF assms(1)]
  by (simp_all add: insertion_place_def Let_def)

lemma insert_at_distinct: "distinct (insert_at n x xs) \<longleftrightarrow> distinct (x # xs)"
  by (rule mset_eq_imp_distinct_iff) (simp add: mset_insert_at)

lemma set_existing_ok:
  assumes "arr_ok a" "no_nul s" "it < arr_size a"
  shows "arr_ok (set_existing a it s)" "item (set_existing a it s) = (item a)[it := s]"
    "arr_size (set_existing a it s) = arr_size a"
proof -
  note ok = arr_ok_contents [OF assms(1)]
  define old where "old = find_index a it"
  define p where "p = insertion_place a s"
  define n where "n = (if old < p then p - 1 else p)"
  have old: "old < arr_size a" "index a ! old = it"
    using find_index_inverts [OF assms(1,3)] by (auto simp: old_def)
  have p: "p \<le> arr_size a" "sorted (map okey (insert_at p s (contents a)))"
    using place_of [OF assms(1,2)] by (simp_all add: p_def)
  have eq: "set_existing a it s = a\<lparr>index := insert_at n it (delete_at old (index a)),
      item := (item a)[it := s]\<rparr>"
    using move_index_eq [of old a p] old p(1) ok(2)
    by (simp add: set_existing_def old_def [symmetric] p_def [symmetric] n_def [symmetric] Let_def)
  show item: "item (set_existing a it s) = (item a)[it := s]" by (simp add: eq)
  show size: "arr_size (set_existing a it s) = arr_size a" by (simp add: eq)
  have ms: "add_mset it (mset (delete_at old (index a))) = mset (index a)"
    using mset_delete_at [of old "index a"] old ok(2) by simp
  have "it \<notin> set (delete_at old (index a))"
  proof -
    have "distinct (insert_at old it (delete_at old (index a)))"
      using insert_delete_same [of old "index a"] old ok(2,3) by simp
    then show ?thesis by (simp add: insert_at_distinct)
  qed
  then have "j \<noteq> it" if "j \<in> set (delete_at old (index a))" for j using that by blast
  then have "map ((!) ((item a)[it := s])) (delete_at old (index a)) = map ((!) (item a)) (delete_at old (index a))"
    by (intro map_cong refl) (metis nth_list_update_neq)
  moreover have "length (item a) = arr_size a" using assms(1) by (simp add: arr_ok_def)
  ultimately have con: "contents (set_existing a it s) = insert_at n s (delete_at old (contents a))"
    using assms(3) by (simp add: eq contents_def map_insert_at map_delete_at)
  have "insert_at n s (delete_at old (contents a))
      = delete_at (if old < p then old else Suc old) (insert_at p s (contents a))"
    unfolding n_def using old p(1) ok(1) by (intro insert_delete_at) auto
  then have "sorted (map okey (contents (set_existing a it s)))"
    using sorted_delete_at [OF p(2)] by (simp add: con map_delete_at)
  moreover have "mset (index (set_existing a it s)) = mset [0..<arr_size a]"
    using ms assms(1) by (simp add: eq mset_insert_at arr_ok_def)
  moreover have "list_all no_nul ((item a)[it := s])"
    using assms(1,2) by (auto simp: arr_ok_def list_all_iff dest: set_update_subset_insert [THEN subsetD])
  ultimately show "arr_ok (set_existing a it s)"
    using assms(1) by (simp add: arr_ok_def item size)
qed

lemma append_item_ok:
  assumes "arr_ok a" "no_nul s"
  shows "arr_ok (append_item a s)" "item (append_item a s) = item a @ [s]"
    "arr_size (append_item a s) = Suc (arr_size a)"
proof -
  note ok = arr_ok_contents [OF assms(1)]
  define p where "p = insertion_place a s"
  have p: "p \<le> arr_size a" "sorted (map okey (insert_at p s (contents a)))"
    using place_of [OF assms] by (simp_all add: p_def)
  have eq: "append_item a s = \<lparr>item = item a @ [s], index = insert_at p (arr_size a) (index a),
      arr_size = Suc (arr_size a)\<rparr>"
    using insert_index_eq [OF ok(2) p(1)]
    by (simp add: append_item_def p_def [symmetric])
  show "item (append_item a s) = item a @ [s]" "arr_size (append_item a s) = Suc (arr_size a)"
    by (simp_all add: eq)
  have len: "length (item a) = arr_size a" using assms(1) by (simp add: arr_ok_def)
  have m: "map ((!) (item a @ [s])) (index a) = contents a"
    unfolding contents_def using ok(4) len by (intro map_cong) (auto simp: nth_append)
  then have con: "contents (append_item a s) = insert_at p s (contents a)"
    unfolding eq contents_def
    by (simp only: an_array.select_convs map_insert_at m [unfolded contents_def])
      (simp add: len [symmetric])
  show "arr_ok (append_item a s)"
    using assms p(2) con by (simp add: arr_ok_def eq mset_insert_at)
qed

lemma nth_delete_lowered:
  "it < length xs \<Longrightarrow> j < length xs \<Longrightarrow> j \<noteq> it \<Longrightarrow>
    delete_at it xs ! (if it < j then j - 1 else j) = xs ! j"
  by (auto simp: nth_delete_at)

lemma lowered_upt:
  assumes "it < n"
  shows "mset (map (\<lambda>i. if it < i then i - 1 else i) (delete_at it [0..<n])) = mset [0..<n - 1]"
proof -
  have "map (\<lambda>i. if it < i then i - 1 else i) (delete_at it [0..<n]) = [0..<n - 1]"
    by (rule nth_equalityI) (use assms in \<open>auto simp: nth_delete_at\<close>)
  then show ?thesis by simp
qed

lemma drop_item_ok:
  assumes "arr_ok a" "it < arr_size a" "i < arr_size a" "index a ! i = it"
  shows "arr_ok (drop_item a i it)" "item (drop_item a i it) = delete_at it (item a)"
    "arr_size (drop_item a i it) = arr_size a - 1"
proof -
  note ok = arr_ok_contents [OF assms(1)]
  have len: "length (item a) = arr_size a" using assms(1) by (simp add: arr_ok_def)
  define ind where "ind = lower_above it (index a)"
  have li: "length ind = arr_size a" using ok(2) by (simp add: ind_def lower_above_def)
  have mv: "move_index (a\<lparr>index := ind\<rparr>) i (arr_size a)
      = a\<lparr>index := insert_at (arr_size a - 1) (ind ! i) (delete_at i ind)\<rparr>"
    using move_index_eq [of i "a\<lparr>index := ind\<rparr>" "arr_size a"] assms(3) li by simp
  have "take (arr_size a - 1) (insert_at (arr_size a - 1) (ind ! i) (delete_at i ind)) = delete_at i ind"
    using li assms(3) by (simp add: insert_at_def)
  then have eq: "drop_item a i it = \<lparr>item = delete_at it (item a), index = delete_at i ind, arr_size = arr_size a - 1\<rparr>"
    using shift_down_delete [of it "item a"] assms(2) len
    by (simp add: drop_item_def Let_def ind_def [symmetric] mv)
  show item: "item (drop_item a i it) = delete_at it (item a)"
    and size: "arr_size (drop_item a i it) = arr_size a - 1" by (simp_all add: eq)
  have notin: "it \<notin> set (delete_at i (index a))"
  proof -
    have "distinct (insert_at i it (delete_at i (index a)))"
      using insert_delete_same [of i "index a"] assms(3,4) ok(2,3) by simp
    then show ?thesis by (simp add: insert_at_distinct)
  qed
  have ind_eq: "delete_at i ind = map (\<lambda>j. if it < j then j - 1 else j) (delete_at i (index a))"
    by (simp add: ind_def lower_above_def map_delete_at)
  have below: "j < arr_size a" if "j \<in> set (delete_at i (index a))" for j
    using that ok(4) by (auto simp: delete_at_def dest: in_set_takeD in_set_dropD)
  have "contents (drop_item a i it)
      = map (\<lambda>j. delete_at it (item a) ! (if it < j then j - 1 else j)) (delete_at i (index a))"
    by (simp add: eq contents_def ind_eq)
  also have "\<dots> = map ((!) (item a)) (delete_at i (index a))"
    using notin below assms(2) len by (intro map_cong refl nth_delete_lowered) auto
  also have "\<dots> = delete_at i (contents a)" by (simp add: contents_def map_delete_at)
  finally have con: "contents (drop_item a i it) = delete_at i (contents a)" .
  have "mset (index (drop_item a i it)) = mset [0..<arr_size a - 1]"
  proof -
    have "add_mset it (mset (delete_at i (index a))) = mset (index a)"
      using mset_delete_at [of i "index a"] assms(3,4) ok(2) by simp
    also have "\<dots> = mset [0..<arr_size a]" using assms(1) by (simp add: arr_ok_def)
    also have "\<dots> = add_mset it (mset (delete_at it [0..<arr_size a]))"
      using mset_delete_at [of it "[0..<arr_size a]"] assms(2) by simp
    finally have "mset (delete_at i (index a)) = mset (delete_at it [0..<arr_size a])" by simp
    then have "mset (delete_at i ind)
        = mset (map (\<lambda>j. if it < j then j - 1 else j) (delete_at it [0..<arr_size a]))"
      unfolding ind_eq mset_map by (rule arg_cong)
    then show ?thesis using lowered_upt [OF assms(2)] by (simp add: eq)
  qed
  moreover have "sorted (map okey (contents (drop_item a i it)))"
    using sorted_delete_at [OF ok(7)] by (simp add: con map_delete_at)
  moreover have "list_all no_nul (delete_at it (item a))"
    using assms(1) by (auto simp: arr_ok_def list_all_iff delete_at_def dest: in_set_takeD in_set_dropD)
  ultimately show "arr_ok (drop_item a i it)"
    using len assms(2) by (simp add: arr_ok_def item size)
qed

subsection \<open>The arrays as a map from names to item lists\<close>

definition abs_arrays :: "arrays \<Rightarrow> cstr \<Rightarrow> cstr list option" where
  "abs_arrays st = map_of (zip (item (array_info st)) (map item (array_array st)))"

definition set_spec :: "(cstr \<Rightarrow> cstr list option) \<Rightarrow> cstr \<Rightarrow> int \<Rightarrow> cstr
    \<Rightarrow> (cstr \<Rightarrow> cstr list option) \<times> int" where
  "set_spec m nm it s =
     (if it < 0 then (m, -1)
      else case m nm of
        None \<Rightarrow> if it = 0 then (m(nm \<mapsto> [s]), 1) else (m, -1)
      | Some xs \<Rightarrow>
          if it < int (length xs) then (m(nm \<mapsto> xs[nat it := s]), 0)
          else if it = int (length xs) then (m(nm \<mapsto> xs @ [s]), 2)
          else (m, -2))"

definition delete_spec :: "(cstr \<Rightarrow> cstr list option) \<Rightarrow> cstr \<Rightarrow> int
    \<Rightarrow> (cstr \<Rightarrow> cstr list option) \<times> int" where
  "delete_spec m nm it =
     (case m nm of
        None \<Rightarrow> (m, -1)
      | Some xs \<Rightarrow>
          if 0 \<le> it \<and> it < int (length xs)
          then (if length xs = 1 then m(nm := None) else m(nm \<mapsto> delete_at (nat it) xs), 0)
          else (m, -2))"

lemma arrays_ok_slot:
  assumes "arrays_ok st" "slot < arr_size (array_info st)"
  shows "arr_ok (array_array st ! slot)" "0 < arr_size (array_array st ! slot)"
    "length (item (array_array st ! slot)) = arr_size (array_array st ! slot)"
    "slot < length (array_array st)" "slot < length (item (array_info st))"
    "abs_arrays st (item (array_info st) ! slot) = Some (item (array_array st ! slot))"
  using assms
proof -
  have l: "length (array_array st) = arr_size (array_info st)"
    "length (item (array_info st)) = arr_size (array_info st)" "distinct (item (array_info st))"
    "list_all (\<lambda>a. arr_ok a \<and> 0 < arr_size a) (array_array st)"
    using assms(1) by (simp_all add: arrays_ok_def arr_ok_def)
  show "slot < length (array_array st)" "slot < length (item (array_info st))"
    using l assms(2) by simp_all
  show ok: "arr_ok (array_array st ! slot)" and "0 < arr_size (array_array st ! slot)"
    using l assms(2) by (simp_all add: list_all_length)
  show "length (item (array_array st ! slot)) = arr_size (array_array st ! slot)"
    using ok by (simp add: arr_ok_def)
  show "abs_arrays st (item (array_info st) ! slot) = Some (item (array_array st ! slot))"
    using l assms(2) by (simp add: abs_arrays_def map_of_zip_nth)
qed

lemma abs_arrays_None: "nm \<notin> set (item (array_info st)) \<Longrightarrow> abs_arrays st nm = None"
  by (auto simp: abs_arrays_def map_of_eq_None_iff dest: set_zip_leftD)

lemma find_name:
  assumes "arrays_ok st" "no_nul nm"
  shows "if 0 \<le> find_item (array_info st) nm
    then index (array_info st) ! nat (find_item (array_info st) nm) < arr_size (array_info st)
      \<and> item (array_info st) ! (index (array_info st) ! nat (find_item (array_info st) nm)) = nm
    else nm \<notin> set (item (array_info st))"
proof -
  have ok: "arr_ok (array_info st)" using assms(1) by (simp add: arrays_ok_def)
  note c = arr_ok_contents [OF ok]
  have "set (contents (array_info st)) = set (item (array_info st))"
    using c(5) by (metis set_mset_mset)
  moreover have "index (array_info st) ! nat (find_item (array_info st) nm) < arr_size (array_info st)
      \<and> item (array_info st) ! (index (array_info st) ! nat (find_item (array_info st) nm)) = nm"
    if "0 \<le> find_item (array_info st) nm"
  proof -
    have "nat (find_item (array_info st) nm) < length (contents (array_info st))"
      "contents (array_info st) ! nat (find_item (array_info st) nm) = nm"
      using finder.hit [OF ok assms(2) that] by auto
    moreover have "index (array_info st) ! k < arr_size (array_info st)" if "k < arr_size (array_info st)" for k
      using c(2,4) that by (metis lessThan_iff nth_mem)
    ultimately show ?thesis using c(1,2) by (simp add: contents_def)
  qed
  ultimately show ?thesis using finder.found_iff [OF ok assms(2)] by auto
qed

lemma map_of_zip_delete:
  assumes "distinct ks" "length vs = length ks" "i < length ks"
  shows "map_of (zip (delete_at i ks) (delete_at i vs)) = (map_of (zip ks vs))(ks ! i := None)"
  using assms
proof (induction ks arbitrary: vs i)
  case (Cons k ks)
  then obtain v ws where vs: "vs = v # ws" by (cases vs) auto
  show ?case
  proof (cases i)
    case 0
    then have "map_of (zip ks ws) k = None" using Cons.prems vs by (auto simp: map_of_eq_None_iff dest: set_zip_leftD)
    then show ?thesis using 0 vs by (auto simp: delete_at_def fun_eq_iff)
  next
    case (Suc j)
    then have "map_of (zip (delete_at j ks) (delete_at j ws)) = (map_of (zip ks ws))(ks ! j := None)"
      using Cons.prems Suc vs by (intro Cons.IH) simp_all
    moreover have "ks ! j \<noteq> k" using Cons.prems Suc by auto
    ultimately show ?thesis using Suc vs by - (rule ext, simp add: delete_at_def)
  qed
qed simp

lemma map_of_zip_update:
  assumes "distinct ks" "length vs = length ks" "i < length ks"
  shows "map_of (zip ks (vs[i := v])) = (map_of (zip ks vs))(ks ! i \<mapsto> v)"
  using assms
proof (induction ks arbitrary: vs i)
  case (Cons k ks)
  then obtain w ws where vs: "vs = w # ws" by (cases vs) auto
  show ?case
  proof (cases i)
    case (Suc j)
    then have "map_of (zip ks (ws[j := v])) = (map_of (zip ks ws))(ks ! j \<mapsto> v)"
      using Cons.prems Suc vs by (intro Cons.IH) simp_all
    moreover have "ks ! j \<noteq> k" using Cons.prems Suc by auto
    ultimately show ?thesis using Suc vs by - (rule ext, simp)
  qed (rule ext, use vs in simp)
qed simp

lemma update_slot:
  assumes "arrays_ok st" "slot < arr_size (array_info st)" "arr_ok a" "0 < arr_size a"
  shows "arrays_ok (st\<lparr>array_array := (array_array st)[slot := a]\<rparr>)"
    "abs_arrays (st\<lparr>array_array := (array_array st)[slot := a]\<rparr>)
      = (abs_arrays st)(item (array_info st) ! slot \<mapsto> item a)"
proof -
  show "arrays_ok (st\<lparr>array_array := (array_array st)[slot := a]\<rparr>)"
    using assms by (auto simp: arrays_ok_def list_all_length nth_list_update)
  show "abs_arrays (st\<lparr>array_array := (array_array st)[slot := a]\<rparr>)
      = (abs_arrays st)(item (array_info st) ! slot \<mapsto> item a)"
    using assms by (simp add: abs_arrays_def map_update map_of_zip_update arrays_ok_def arr_ok_def)
qed

lemma new_array:
  assumes "arrays_ok st" "no_nul nm" "nm \<notin> set (item (array_info st))" "no_nul s"
    and st': "st' = \<lparr>array_info = append_item (array_info st) nm,
      array_array = array_array st @ [\<lparr>item = [s], index = [0], arr_size = 1\<rparr>]\<rparr>"
  shows "arrays_ok st'" "abs_arrays st' = (abs_arrays st)(nm \<mapsto> [s])"
proof -
  have ok: "arr_ok (array_info st)" using assms(1) by (simp add: arrays_ok_def)
  note ap = append_item_ok [OF ok assms(2)]
  show "arrays_ok st'" using assms ap
    by (auto simp: arrays_ok_def arr_ok_def [of "\<lparr>item = _, index = _, arr_size = _\<rparr>"] contents_def)
  have "length (item (array_info st)) = length (array_array st)"
    using assms(1) by (simp add: arrays_ok_def arr_ok_def)
  then have "abs_arrays st' = map_of [(nm, [s])] ++ abs_arrays st"
    unfolding abs_arrays_def st' by (simp add: ap)
  moreover have "abs_arrays st nm = None" by (rule abs_arrays_None [OF assms(3)])
  ultimately show "abs_arrays st' = (abs_arrays st)(nm \<mapsto> [s])"
    by (simp add: map_add_def fun_eq_iff split: option.splits)
qed

lemma no_nul_upper [simp]: "no_nul (upper s) \<longleftrightarrow> no_nul s"
proof -
  have "NUL = (if is_lower c then c_toupper c else c) \<longleftrightarrow> c = NUL" for c
  proof (cases "is_lower c")
    case True
    have "NUL = c_toupper c \<longleftrightarrow> c = NUL" by (subst eq_commute) (rule toupper_NUL_iff)
    then show ?thesis using True by (simp only: if_True)
  qed auto
  then show ?thesis unfolding upper_def set_map image_iff by (simp only: bex_simps) blast
qed

lemma upper_Nil_iff [simp]: "upper s = [] \<longleftrightarrow> s = []"
  by (simp add: upper_def)

lemma no_arrays_ok: "arrays_ok no_arrays" "abs_arrays no_arrays = (\<lambda>_. None)"
  by (simp_all add: arrays_ok_def no_arrays_def arr_ok_def contents_def abs_arrays_def)

lemma get_array_spec:
  assumes "arrays_ok st" "no_nul nm" "nm \<noteq> []"
  shows "case get_array st nm of
      None \<Rightarrow> upper nm \<notin> set (item (array_info st)) \<and> abs_arrays st (upper nm) = None
    | Some slot \<Rightarrow> slot < arr_size (array_info st) \<and> item (array_info st) ! slot = upper nm
        \<and> abs_arrays st (upper nm) = Some (item (array_array st ! slot))"
proof (cases "arr_size (array_info st) = 0")
  case True
  then have "item (array_info st) = []" using assms(1) by (auto simp: arrays_ok_def arr_ok_def)
  then show ?thesis using True by (simp add: get_array_def abs_arrays_None)
next
  case False
  have fn: "if 0 \<le> find_item (array_info st) (upper nm)
    then index (array_info st) ! nat (find_item (array_info st) (upper nm)) < arr_size (array_info st)
      \<and> item (array_info st) ! (index (array_info st) ! nat (find_item (array_info st) (upper nm))) = upper nm
    else upper nm \<notin> set (item (array_info st))"
    using find_name [OF assms(1), of "upper nm"] assms(2) by simp
  show ?thesis
  proof (cases "0 \<le> find_item (array_info st) (upper nm)")
    case True
    define slot where "slot = index (array_info st) ! nat (find_item (array_info st) (upper nm))"
    have "get_array st nm = Some slot" using True False assms(3) by (simp add: get_array_def slot_def)
    moreover have "slot < arr_size (array_info st)" "item (array_info st) ! slot = upper nm"
      using fn True by (simp_all add: slot_def)
    ultimately show ?thesis using arrays_ok_slot(6) [OF assms(1), of slot] by simp
  next
    case no: False
    then have "get_array st nm = None" using False by (simp add: get_array_def)
    then show ?thesis using fn no by (simp add: abs_arrays_None)
  qed
qed

lemma set_item_slots:
  assumes "0 \<le> it" "nm \<noteq> []"
  shows "set_item st nm it s =
    (case get_array st nm of
       Some slot \<Rightarrow>
         (let a = array_array st ! slot
          in if it < int (arr_size a)
             then (st\<lparr>array_array := (array_array st)[slot := set_existing a (nat it) s]\<rparr>, 0)
             else if it = int (arr_size a)
             then (st\<lparr>array_array := (array_array st)[slot := append_item a s]\<rparr>, 2)
             else (st, -2))
     | None \<Rightarrow>
         (if it = 0
          then (\<lparr>array_info = append_item (array_info st) (upper nm),
                 array_array = array_array st @ [\<lparr>item = [s], index = [0], arr_size = 1\<rparr>]\<rparr>, 1)
          else (st, -1)))"
proof -
  define f where "f = find_item (array_info st) (upper nm)"
  consider "arr_size (array_info st) \<noteq> 0" "0 \<le> f" | "arr_size (array_info st) \<noteq> 0" "\<not> 0 \<le> f"
    | "arr_size (array_info st) = 0" by blast
  then show ?thesis
  proof cases
    case 1
    then show ?thesis using assms by (simp add: set_item_def get_array_def f_def [symmetric] Let_def)
  next
    case 2
    then have "get_array st nm = None" "insertion_place (array_info st) (upper nm) = nat (- f - 1)"
      by (simp_all add: get_array_def insertion_place_def f_def [symmetric] Let_def)
    then show ?thesis using assms 2
      by (simp add: set_item_def f_def [symmetric] append_item_def Let_def split: prod.splits)
  next
    case 3
    then have "get_array st nm = None" "insert_index (index (array_info st)) 0 n
        = insert_index (index (array_info st)) 0 m" for n m
      by (simp_all add: get_array_def insert_index_def)
    then show ?thesis using assms 3
      by (simp add: set_item_def append_item_def Let_def insert_index_def)
  qed
qed

text \<open>
  C1: \<open>SETITEM\<close> implements a map from upper-case names to lists of items: it replaces an
  item, appends the item whose number is the array's size, creates an array for item 0,
  or changes nothing and returns -1 or -2: -2 for a number above the size of an array, and -1 for
  a number other than 0 without an array and for every negative number, where the comment of
  \<open>function_setitem\<close> and the help file have -2 (the code does not look the array up then). The invariant
  of all the indexes is kept on every branch.
\<close>
theorem set_item_refines:
  assumes "arrays_ok st" "no_nul nm" "nm \<noteq> []" "no_nul s"
  shows "arrays_ok (fst (set_item st nm it s))
    \<and> (abs_arrays (fst (set_item st nm it s)), snd (set_item st nm it s))
      = set_spec (abs_arrays st) (upper nm) it s"
proof (cases "it < 0")
  case True
  then show ?thesis using assms by (simp add: set_item_def set_spec_def)
next
  case False
  then have it: "0 \<le> it" by simp
  note eq = set_item_slots [OF it assms(3), of st s]
  show ?thesis
  proof (cases "get_array st nm")
    case None
    then have none: "upper nm \<notin> set (item (array_info st))" "abs_arrays st (upper nm) = None"
      using get_array_spec [OF assms(1-3)] by simp_all
    show ?thesis
    proof (cases "it = 0")
      case True
      define st' where "st' = \<lparr>array_info = append_item (array_info st) (upper nm),
        array_array = array_array st @ [\<lparr>item = [s], index = [0], arr_size = 1\<rparr>]\<rparr>"
      have "set_item st nm it s = (st', 1)" using eq None True by (simp add: st'_def)
      then show ?thesis using new_array [OF assms(1) _ none(1) assms(4) st'_def] assms(2) True none(2)
        by (simp add: set_spec_def)
    next
      case nz: False
      then have "set_item st nm it s = (st, -1)" using eq None by simp
      then show ?thesis using assms(1) none(2) nz it by (simp add: set_spec_def)
    qed
  next
    case (Some slot)
    then have sl: "slot < arr_size (array_info st)" "item (array_info st) ! slot = upper nm"
        "abs_arrays st (upper nm) = Some (item (array_array st ! slot))"
      using get_array_spec [OF assms(1-3)] by simp_all
    define a where "a = array_array st ! slot"
    have a: "arr_ok a" "0 < arr_size a" "length (item a) = arr_size a"
      using arrays_ok_slot [OF assms(1) sl(1)] by (simp_all add: a_def)
    consider "it < int (arr_size a)" | "it = int (arr_size a)" | "int (arr_size a) < it" by linarith
    then show ?thesis
    proof cases
      case 1
      then have r: "set_item st nm it s
          = (st\<lparr>array_array := (array_array st)[slot := set_existing a (nat it) s]\<rparr>, 0)"
        using eq Some by (simp add: a_def)
      have "nat it < arr_size a" using 1 it by simp
      note se = set_existing_ok [OF a(1) assms(4) this]
      show ?thesis using update_slot [OF assms(1) sl(1) se(1)] se(2,3) a sl 1 it
        by (simp add: r set_spec_def a_def [symmetric])
    next
      case 2
      then have r: "set_item st nm it s
          = (st\<lparr>array_array := (array_array st)[slot := append_item a s]\<rparr>, 2)"
        using eq Some by (simp add: a_def)
      note ap = append_item_ok [OF a(1) assms(4)]
      show ?thesis using update_slot [OF assms(1) sl(1) ap(1)] ap(2,3) a sl 2 it
        unfolding r by (simp add: set_spec_def a_def [symmetric])
    next
      case 3
      then have "set_item st nm it s = (st, -2)" using eq Some by (simp add: a_def)
      then show ?thesis using assms(1) sl(3) 3 a(3) it by (simp add: set_spec_def a_def)
    qed
  qed
qed

lemma map_of_zip_singleton:
  "length ks = 1 \<Longrightarrow> length vs = 1 \<Longrightarrow> (map_of (zip ks vs))(ks ! 0 := None) = (\<lambda>_. None)"
  by (auto simp: length_Suc_conv fun_eq_iff)

lemma delete_array_ok:
  assumes "arrays_ok st" "no_nul nm" "nm \<noteq> []" "get_array st nm = Some slot"
  shows "arrays_ok (delete_array st (upper nm))"
    "abs_arrays (delete_array st (upper nm)) = (abs_arrays st)(upper nm := None)"
proof -
  define info where "info = array_info st"
  define i where "i = nat (find_item info (upper nm))"
  have sl: "slot < arr_size info" "item info ! slot = upper nm"
    using get_array_spec [OF assms(1-3)] assms(4) by (simp_all add: info_def)
  have f: "0 \<le> find_item info (upper nm)" "index info ! i = slot"
    using assms(4) by (auto simp: get_array_def i_def info_def Let_def split: if_splits)
  have ok: "arr_ok info" using assms(1) by (simp add: arrays_ok_def info_def)
  have i: "i < arr_size info"
    using finder.hit [OF ok _ f(1)] assms(2) arr_ok_contents(1) [OF ok] by (simp add: i_def)
  have l: "length (array_array st) = arr_size info" "length (item info) = arr_size info"
    "distinct (item info)" "list_all (\<lambda>a. arr_ok a \<and> 0 < arr_size a) (array_array st)"
    using assms(1) ok by (simp_all add: arrays_ok_def arr_ok_def info_def)
  have "arrays_ok (delete_array st (upper nm)) \<and>
    abs_arrays (delete_array st (upper nm)) = (abs_arrays st)(upper nm := None)"
  proof (cases "1 < arr_size info")
    case True
    note dr = drop_item_ok [OF ok sl(1) i f(2)]
    have eq: "delete_array st (upper nm)
        = \<lparr>array_info = drop_item info i slot, array_array = delete_at slot (array_array st)\<rparr>"
      using True f(2) shift_down_delete [of slot "array_array st"] sl(1) l(1)
      by (simp add: delete_array_def info_def [symmetric] i_def [symmetric] Let_def)
    have "distinct (delete_at slot (item info))"
      using insert_at_distinct insert_delete_same [of slot "item info"] sl(1) l(2,3)
      by (metis distinct.simps(2))
    moreover have "list_all (\<lambda>a. arr_ok a \<and> 0 < arr_size a) (delete_at slot (array_array st))"
      using l(4) by (auto simp: list_all_iff delete_at_def dest: in_set_takeD in_set_dropD)
    ultimately have "arrays_ok (delete_array st (upper nm))"
      using dr l sl(1) by (simp add: eq arrays_ok_def)
    moreover have "abs_arrays (delete_array st (upper nm)) = (abs_arrays st)(upper nm := None)"
      using map_of_zip_delete [of "item info" "map item (array_array st)" slot] l sl dr(2)
      by (simp add: eq abs_arrays_def map_delete_at info_def)
    ultimately show ?thesis by simp
  next
    case False
    then have one: "arr_size info = 1" "slot = 0" using sl(1) by auto
    have "delete_array st (upper nm) = no_arrays"
      using False by (simp add: delete_array_def info_def [symmetric] Let_def)
    moreover have "(abs_arrays st)(upper nm := None) = (\<lambda>_. None)"
      using map_of_zip_singleton [of "item info" "map item (array_array st)"] l one sl
      by (simp add: abs_arrays_def info_def)
    ultimately show ?thesis using no_arrays_ok by simp
  qed
  then show "arrays_ok (delete_array st (upper nm))"
    "abs_arrays (delete_array st (upper nm)) = (abs_arrays st)(upper nm := None)" by auto
qed

text \<open>
  C2: \<open>DELITEM\<close> removes an item and moves the later ones down by one, removes the array
  with its last item, and changes nothing for a wrong number; every index stays a sorted
  permutation.
\<close>
theorem delete_item_refines:
  assumes "arrays_ok st" "no_nul nm" "nm \<noteq> []" "get_array st nm = Some slot"
  shows "arrays_ok (fst (delete_item st (upper nm) slot it))
    \<and> (abs_arrays (fst (delete_item st (upper nm) slot it)), snd (delete_item st (upper nm) slot it))
      = delete_spec (abs_arrays st) (upper nm) it"
proof -
  define a where "a = array_array st ! slot"
  have sl: "slot < arr_size (array_info st)" "item (array_info st) ! slot = upper nm"
      "abs_arrays st (upper nm) = Some (item a)"
    using get_array_spec [OF assms(1-3)] assms(4) by (simp_all add: a_def)
  have a: "arr_ok a" "0 < arr_size a" "length (item a) = arr_size a"
    using arrays_ok_slot [OF assms(1) sl(1)] by (simp_all add: a_def)
  consider "it < 0 \<or> int (arr_size a) \<le> it" | "0 \<le> it" "it < int (arr_size a)" "arr_size a = 1"
    | "0 \<le> it" "it < int (arr_size a)" "arr_size a \<noteq> 1" by linarith
  then show ?thesis
  proof cases
    case 1
    then have "delete_item st (upper nm) slot it = (st, -2)"
      by (auto simp: delete_item_def a_def [symmetric])
    then show ?thesis using 1 assms(1) sl(3) a(3) by (auto simp: delete_spec_def)
  next
    case 2
    then have "delete_item st (upper nm) slot it = (delete_array st (upper nm), 0)"
      by (simp add: delete_item_def a_def [symmetric])
    then show ?thesis using 2 delete_array_ok [OF assms] sl(3) a(3) by (simp add: delete_spec_def)
  next
    case 3
    define a' where "a' = drop_item a (find_index a (nat it)) (nat it)"
    have r: "delete_item st (upper nm) slot it
        = (st\<lparr>array_array := (array_array st)[slot := a']\<rparr>, 0)"
      using 3 by (simp add: delete_item_def a_def [symmetric] a'_def)
    have n: "nat it < arr_size a" using 3 by simp
    have fi: "find_index a (nat it) < arr_size a" "index a ! find_index a (nat it) = nat it"
      using find_index_inverts [OF a(1) n] by auto
    note dr = drop_item_ok [OF a(1) n fi, folded a'_def]
    have pos: "0 < arr_size a'" using dr(3) a(2) 3(3) by simp
    show ?thesis using update_slot [OF assms(1) sl(1) dr(1) pos] dr(2) sl(2,3) a(3) 3
      unfolding r by (simp add: delete_spec_def)
  qed
qed

text \<open>
  \<open>FINDITEM\<close>'s search is exact: it returns the number of an item equal to the text, or
  -2 when no item is.
\<close>
theorem find_item_exact:
  assumes "arr_ok a" "no_nul s"
  shows "(if 0 \<le> find_item a s
     then index a ! nat (find_item a s) < arr_size a \<and> item a ! (index a ! nat (find_item a s)) = s
     else s \<notin> set (item a))"
proof -
  note c = arr_ok_contents [OF assms(1)]
  have "set (contents a) = set (item a)" using c(5) by (metis set_mset_mset)
  moreover have "index a ! nat (find_item a s) < arr_size a \<and> item a ! (index a ! nat (find_item a s)) = s"
    if "0 \<le> find_item a s"
  proof -
    have h: "nat (find_item a s) < arr_size a" "contents a ! nat (find_item a s) = s"
      using finder.hit [OF assms that] c(1) by auto
    then have "index a ! nat (find_item a s) \<in> set (index a)" using c(2) by simp
    then show ?thesis using h c(2,4) by (simp add: contents_def)
  qed
  ultimately show ?thesis using finder.found_iff [OF assms] by auto
qed

subsection \<open>An example store\<close>

definition two_items :: an_array where
  "two_items = \<lparr>item = [''y'', ''x''], index = [1, 0], arr_size = 2\<rparr>"

definition one_array :: arrays where
  "one_array = \<lparr>array_info = \<lparr>item = [''A''], index = [0], arr_size = 1\<rparr>, array_array = [two_items]\<rparr>"

lemma two_items_ok: "arr_ok two_items"
proof -
  have "okey ''x'' \<le> okey ''y''" by code_simp
  then show ?thesis by (simp add: two_items_def arr_ok_def contents_def upt_rec)
qed

lemma one_array_ok: "arrays_ok one_array"
  using two_items_ok by (simp add: one_array_def arrays_ok_def two_items_def arr_ok_def contents_def)

theorem find_index_inverts_witness: "index two_items ! find_index two_items 0 = 0"
  using find_index_inverts [OF two_items_ok, of 0] by (simp add: two_items_def)

theorem find_item_exact_witness:
  "(if 0 \<le> find_item two_items ''x''
     then index two_items ! nat (find_item two_items ''x'') < 2 else False)"
proof -
  have "''x'' \<in> set (item two_items)" by (simp add: two_items_def)
  then show ?thesis using find_item_exact [OF two_items_ok, of "''x''"]
    by (simp add: two_items_def split: if_splits)
qed

theorem set_item_refines_witness:
  "snd (set_item one_array ''a'' 2 ''z'') = 2 \<and> arrays_ok (fst (set_item one_array ''a'' 2 ''z''))"
proof -
  have "set_spec (abs_arrays one_array) (upper ''a'') 2 ''z''
      = ((abs_arrays one_array)(''A'' \<mapsto> [''y'', ''x'', ''z'']), 2)"
  proof -
    have "upper ''a'' = ''A''" by code_simp
    then show ?thesis by (simp add: set_spec_def abs_arrays_def one_array_def two_items_def)
  qed
  then show ?thesis using set_item_refines [OF one_array_ok, of "''a''" "''z''" 2] by simp
qed

theorem delete_item_refines_witness:
  "snd (delete_item one_array (upper ''a'') 0 1) = 0
    \<and> abs_arrays (fst (delete_item one_array (upper ''a'') 0 1)) (upper ''a'') = Some [''y'']"
proof -
  have g: "get_array one_array ''a'' = Some 0" by code_simp
  have "delete_spec (abs_arrays one_array) (upper ''a'') 1
      = ((abs_arrays one_array)(''A'' \<mapsto> [''y'']), 0)" and u: "upper ''a'' = ''A''"
  proof -
    show "upper ''a'' = ''A''" by code_simp
    then show "delete_spec (abs_arrays one_array) (upper ''a'') 1
      = ((abs_arrays one_array)(''A'' \<mapsto> [''y'']), 0)"
      by (simp add: delete_spec_def abs_arrays_def one_array_def two_items_def delete_at_def)
  qed
  then show ?thesis using delete_item_refines [OF one_array_ok _ _ g, of 1] by simp
qed

end
