(* ===== verification/WordExtract.thy ===== *)
theory WordExtract
  imports LinkedList
begin

section \<open>Extraction of words (source/words.c)\<close>

text \<open>
  \<open>$n\<close>, \<open>$n-m\<close>, \<open>$-n\<close>, \<open>$~\<close> and the word functions of the script language cut words out of a
  string. Pointers into the string are indices; the backward walk may stop one before the
  string, so it has an \<open>int\<close>. With \<open>extended\<close>, a word may be a quoted text. A result of
  \<open>None\<close> stands for a call that does not come back: the endless loop of
  \<open>find_backward_quote\<close> and the panics on a NULL from the quote searches.
\<close>

abbreviation EOS :: int where "EOS \<equiv> 32767"
abbreviation SOS :: int where "SOS \<equiv> - 32767"

abbreviation quote :: char where "quote \<equiv> CHR 0x22"
abbreviation backslash :: char where "backslash \<equiv> CHR 0x5C"

subsection \<open>Quotes (source/ircaux.c)\<close>

function forward_loop :: "cstr \<Rightarrow> nat \<Rightarrow> nat" where
  "forward_loop s i =
     (if length s \<le> i then i
      else if cat s i = backslash \<and> cat s (i + 1) \<noteq> NUL then forward_loop s (i + 2)
      else if cat s i = quote \<and> (cat s (i + 1) = NUL \<or> risspace (cat s (i + 1))) then i
      else forward_loop s (i + 1))"
  by pat_completeness auto
termination by (relation "measure (\<lambda>(s, i). length s - i)") auto

declare forward_loop.simps [simp del]

definition find_forward_quote :: "cstr \<Rightarrow> nat \<Rightarrow> nat option" where
  "find_forward_quote s i =
     (if cat s i \<noteq> quote then None
      else if 0 < i \<and> \<not> risspace (cat s (i - 1)) then None
      else Some (forward_loop s (i + 1)))"

text \<open>
  In the backward walk a backslash advances the pointer and the loop takes it back: the
  loop stays where it is for ever.
\<close>

partial_function (option) backward_loop :: "nat \<Rightarrow> cstr \<Rightarrow> nat option" where
  "backward_loop i s =
     (if i = 0 then Some 0
      else if cat s i = backslash \<and> cat s (i + 1) \<noteq> NUL then backward_loop (i + 1 - 1) s
      else if cat s i = quote \<and> (cat s (i + 1) = NUL \<or> risspace (cat s (i + 1))) then Some i
      else backward_loop (i - 1) s)"

fun back_to_space :: "cstr \<Rightarrow> nat \<Rightarrow> nat" where
  "back_to_space s 0 = 0"
| "back_to_space s (Suc i) = (if risspace (cat s (Suc i)) then Suc i else back_to_space s i)"

text \<open>
  NULL or a place. The walk's own end at the first character stands for no quote found;
  the input must not be the first character, where the walk would start before the string.
\<close>

definition find_backward_quote :: "cstr \<Rightarrow> nat \<Rightarrow> nat option option" where
  "find_backward_quote s i =
     (if cat s i \<noteq> quote then Some None
      else if cat s (i + 1) \<noteq> NUL \<and> \<not> risspace (cat s (i + 1)) then Some None
      else case (if i = 0 then Some 0 else backward_loop (i - 1) s) of
        None \<Rightarrow> None
      | Some k \<Rightarrow>
          if 0 < k then Some (Some k)
          else let j = back_to_space s i
               in Some (Some (if risspace (cat s j) then j + 1 else j)))"

subsection \<open>Moving by words\<close>

function skip_fwd :: "(char \<Rightarrow> bool) \<Rightarrow> cstr \<Rightarrow> nat \<Rightarrow> nat" where
  "skip_fwd P s i = (if i < length s \<and> P (cat s i) then skip_fwd P s (i + 1) else i)"
  by pat_completeness auto
termination by (relation "measure (\<lambda>(P, s, i). length s - i)") auto

declare skip_fwd.simps [simp del]

abbreviation nonspace :: "char \<Rightarrow> bool" where "nonspace c \<equiv> \<not> my_isspace c"

text \<open>The end of the word at \<open>i\<close>; for a quoted word one after its closing quote.\<close>

definition word_end :: "cstr \<Rightarrow> nat \<Rightarrow> bool \<Rightarrow> nat option" where
  "word_end s i extended =
     (if extended \<and> cat s i = quote
      then map_option (\<lambda>a. if a < length s then a + 1 else a) (find_forward_quote s i)
      else Some (skip_fwd nonspace s i))"

fun move_abs_loop :: "cstr \<Rightarrow> nat \<Rightarrow> nat \<Rightarrow> bool \<Rightarrow> nat option" where
  "move_abs_loop s i 0 extended = Some i"
| "move_abs_loop s i (Suc counter) extended =
     (if length s \<le> i then Some i
      else case word_end s i extended of
        None \<Rightarrow> None
      | Some j \<Rightarrow> move_abs_loop s (skip_fwd my_isspace s j) counter extended)"

definition real_move_to_abs_word :: "cstr \<Rightarrow> int \<Rightarrow> bool \<Rightarrow> nat option" where
  "real_move_to_abs_word s word extended =
     move_abs_loop s (skip_fwd my_isspace s 0) (nat word) extended"

fun move_fwd_loop :: "cstr \<Rightarrow> nat \<Rightarrow> nat \<Rightarrow> bool \<Rightarrow> nat option" where
  "move_fwd_loop s i 0 extended = Some i"
| "move_fwd_loop s i (Suc counter) extended =
     (case word_end s i extended of
        None \<Rightarrow> None
      | Some j \<Rightarrow> move_fwd_loop s (skip_fwd my_isspace s j) counter extended)"

function back_word :: "cstr \<Rightarrow> int \<Rightarrow> int" where
  "back_word s i = (if 0 \<le> i \<and> nonspace (cat s (nat i)) then back_word s (i - 1) else i)"
  by pat_completeness auto
termination by (relation "measure (\<lambda>(s, i). nat (i + 1))") auto

function back_spaces :: "cstr \<Rightarrow> int \<Rightarrow> int" where
  "back_spaces s i = (if 0 < i \<and> my_isspace (cat s (nat i)) then back_spaces s (i - 1) else i)"
  by pat_completeness auto
termination by (relation "measure (\<lambda>(s, i). nat i)") auto

declare back_word.simps [simp del] back_spaces.simps [simp del]

definition word_begin :: "cstr \<Rightarrow> int \<Rightarrow> bool \<Rightarrow> int option" where
  "word_begin s i extended =
     (if extended \<and> cat s (nat i) = quote
      then case find_backward_quote s (nat i) of
             None \<Rightarrow> None
           | Some None \<Rightarrow> None
           | Some (Some b) \<Rightarrow> Some (if 0 < b then int b - 1 else int b)
      else Some (back_word s i))"

fun move_back_loop :: "cstr \<Rightarrow> int \<Rightarrow> nat \<Rightarrow> bool \<Rightarrow> int option" where
  "move_back_loop s i 0 extended = Some i"
| "move_back_loop s i (Suc counter) extended =
     (if i \<le> 0 then Some i
      else case word_begin s i extended of
        None \<Rightarrow> None
      | Some j \<Rightarrow> move_back_loop s (back_spaces s j) counter extended)"

definition move_word_rel :: "cstr \<Rightarrow> nat \<Rightarrow> int \<Rightarrow> bool \<Rightarrow> nat option" where
  "move_word_rel s mark word extended =
     (if s = [] then Some 0
      else if 0 < word then move_fwd_loop s mark (nat word) extended
      else if word = 0 then Some mark
      else map_option (\<lambda>p. nat (p + 1)) (move_back_loop s (int mark) (nat (- word)) extended))"

subsection \<open>Extraction\<close>

text \<open>\<open>while (mark > start && my_isspace(mark[-1])) mark--\<close>\<close>

fun strip_back :: "cstr \<Rightarrow> nat \<Rightarrow> nat" where
  "strip_back s 0 = 0"
| "strip_back s (Suc i) = (if my_isspace (cat s i) then strip_back s i else Suc i)"

definition real_extract2 :: "cstr \<Rightarrow> int \<Rightarrow> int \<Rightarrow> bool \<Rightarrow> cstr option" where
  "real_extract2 s firstword lastword extended =
     (if firstword = EOS
      then map_option (\<lambda>mark. drop mark s) (move_word_rel s (length s) (-1) extended)
      else
        case (if firstword = SOS then Some 0
              else if 0 \<le> firstword then real_move_to_abs_word s firstword extended
              else move_word_rel s (length s) firstword extended) of
          None \<Rightarrow> None
        | Some mark \<Rightarrow>
            if firstword \<noteq> SOS \<and> 0 \<le> firstword \<and> length s \<le> mark then Some []
            else
              let mark =
                (if lastword = EOS \<or> firstword < lastword
                 then let m = strip_back s mark in if 0 < m then m + 1 else m
                 else mark)
              in if lastword = EOS then Some (strext s mark (length s))
                 else case (if 0 \<le> lastword then real_move_to_abs_word s (lastword + 1) extended
                            else move_word_rel s (length s) lastword extended) of
                   None \<Rightarrow> None
                 | Some m2 \<Rightarrow>
                     let mark2 = strip_back s m2
                     in Some (if mark2 < mark then [] else strext s mark mark2))"

definition real_extract :: "cstr \<Rightarrow> int \<Rightarrow> int \<Rightarrow> bool \<Rightarrow> cstr option" where
  "real_extract start firstword lastword extended =
     (let s = remove_trailing_spaces (dropWhile my_isspace start) in
      case (if firstword = EOS then move_word_rel s (length s) (-1) extended
            else if 0 \<le> firstword then real_move_to_abs_word s firstword extended
            else Some 0) of
        None \<Rightarrow> None
      | Some mark \<Rightarrow>
          if lastword < 0 then Some []
          else case (if lastword = EOS then Some (length s)
                     else map_option (strip_back s) (real_move_to_abs_word s (lastword + 1) extended)) of
            None \<Rightarrow> None
          | Some mark2 \<Rightarrow>
              Some (if lastword < max firstword 0 then []
                    else if mark2 < mark then [] else strext s mark mark2))"

subsection \<open>The words of a string\<close>

function words :: "cstr \<Rightarrow> cstr list" where
  "words s =
     (let t = dropWhile my_isspace s
      in if t = [] then [] else takeWhile nonspace t # words (dropWhile nonspace t))"
  by pat_completeness auto
termination
proof (relation "measure length", simp)
  fix s t :: cstr assume t: "t = dropWhile my_isspace s" "t \<noteq> []"
  then obtain c u where "t = c # u" by (meson neq_Nil_conv)
  moreover from this have "nonspace c" using t(1) by (metis dropWhile_hd)
  ultimately have "length (dropWhile nonspace t) < length t" by (simp add: le_imp_less_Suc length_dropWhile_le)
  moreover have "length t \<le> length s" using t(1) by (simp add: length_dropWhile_le)
  ultimately show "(dropWhile nonspace t, s) \<in> measure length" by simp
qed

declare words.simps [simp del]

fun after_words :: "nat \<Rightarrow> cstr \<Rightarrow> cstr" where
  "after_words 0 s = s"
| "after_words (Suc k) s = after_words k (dropWhile my_isspace (dropWhile nonspace s))"

lemma drop_skip_fwd: "drop (skip_fwd P s i) s = dropWhile P (drop i s)"
proof (induction P s i rule: skip_fwd.induct)
  case (1 P s i)
  show ?case
  proof (cases "i < length s \<and> P (cat s i)")
    case True
    then have "drop i s = cat s i # drop (i + 1) s" by (simp add: Cons_nth_drop_Suc)
    then show ?thesis using 1 True by (subst skip_fwd.simps) simp
  next
    case False
    then have "dropWhile P (drop i s) = drop i s"
      by (cases "i < length s") (auto simp: Cons_nth_drop_Suc [symmetric])
    then show ?thesis using False by (subst skip_fwd.simps) auto
  qed
qed

lemma skip_fwd_bounds: "i \<le> length s \<Longrightarrow> i \<le> skip_fwd P s i \<and> skip_fwd P s i \<le> length s"
proof (induction P s i rule: skip_fwd.induct)
  case (1 P s i)
  show ?case
  proof (cases "i < length s \<and> P (cat s i)")
    case True
    then have "skip_fwd P s i = skip_fwd P s (i + 1)" by (subst skip_fwd.simps) auto
    then show ?thesis using 1 True by auto
  next
    case False
    then have "skip_fwd P s i = i" by (subst skip_fwd.simps) auto
    then show ?thesis using 1(2) by simp
  qed
qed

lemma after_words_Nil [simp]: "after_words k [] = []"
  by (induction k) simp_all

lemma move_abs_loop_spec:
  assumes "i \<le> length s"
  shows "\<exists>j. move_abs_loop s i k False = Some j \<and> drop j s = after_words k (drop i s)
    \<and> i \<le> j \<and> j \<le> length s"
  using assms
proof (induction k arbitrary: i)
  case (Suc k)
  show ?case
  proof (cases "length s \<le> i")
    case True
    then show ?thesis using Suc.prems by simp
  next
    case False
    define i' where "i' = skip_fwd my_isspace s (skip_fwd nonspace s i)"
    have b: "i \<le> skip_fwd nonspace s i" "skip_fwd nonspace s i \<le> length s"
      using skip_fwd_bounds [of i s] Suc.prems by auto
    then have "i \<le> i'" "i' \<le> length s"
      using skip_fwd_bounds [of "skip_fwd nonspace s i" s my_isspace] by (auto simp: i'_def)
    then show ?thesis using Suc.IH [of i'] False
      by (auto simp: word_end_def i'_def drop_skip_fwd)
  qed
qed simp

lemma words_skip [simp]: "words (dropWhile my_isspace s) = words s"
  by (subst (1 2) words.simps) (simp add: dropWhile_idem)

lemma words_after: "(s = [] \<or> nonspace (cat s 0)) \<Longrightarrow> words (after_words k s) = drop k (words s)"
proof (induction k arbitrary: s)
  case (Suc k)
  define t where "t = dropWhile my_isspace (dropWhile nonspace s)"
  have t: "t = [] \<or> nonspace (cat t 0)" unfolding t_def
    by (cases "dropWhile my_isspace (dropWhile nonspace s)") (auto dest: dropWhile_hd)
  have "drop (Suc k) (words s) = drop k (words t)"
  proof (cases s)
    case Nil
    then show ?thesis by (simp add: t_def words.simps [of "[]"])
  next
    case (Cons c u)
    then have "dropWhile my_isspace s = s" using Suc.prems by simp
    then have "words s = takeWhile nonspace s # words t" using Cons
      by (subst words.simps) (simp add: t_def)
    then show ?thesis by simp
  qed
  then show ?case using Suc.IH [OF t] by (simp add: t_def)
qed simp

text \<open>Words of two texts side by side, where the cut is not inside a word.\<close>

lemma takeWhile_append_stop: "v = [] \<or> \<not> P (hd v) \<or> (\<exists>x \<in> set u. \<not> P x) \<Longrightarrow>
    takeWhile P (u @ v) = takeWhile P u"
  by (induction u) (cases v; auto)+

lemma words_append:
  assumes "v = [] \<or> u = [] \<or> my_isspace (last u) \<or> my_isspace (hd v)"
  shows "words (u @ v) = words u @ words v"
  using assms
proof (induction u rule: words.induct)
  case (1 u)
  define t where "t = dropWhile my_isspace u"
  show ?case
  proof (cases "t = []")
    case True
    then have "\<forall>c \<in> set u. my_isspace c" unfolding t_def by (simp add: dropWhile_eq_Nil_conv)
    then have "dropWhile my_isspace (u @ v) = dropWhile my_isspace v" by (simp add: dropWhile_append2)
    then have "words (u @ v) = words v" by (metis words_skip)
    then show ?thesis using True by (simp add: words.simps [of u] t_def [symmetric])
  next
    case False
    then obtain c w where t: "t = c # w" by (cases t) auto
    have c: "nonspace c" using t unfolding t_def by (metis dropWhile_hd)
    obtain x where "x \<in> set u" "nonspace x"
      using False unfolding t_def by (auto simp: dropWhile_eq_Nil_conv)
    then have dt: "dropWhile my_isspace (u @ v) = t @ v" unfolding t_def by (simp add: dropWhile_append1)
    define r where "r = dropWhile nonspace t"
    have lt: "u \<noteq> [] \<and> last u = last t"
    proof -
      have "u = takeWhile my_isspace u @ t" unfolding t_def by simp
      then show ?thesis using False by (metis append_is_Nil_conv last_appendR)
    qed
    have cond: "v = [] \<or> r = [] \<or> my_isspace (last r) \<or> my_isspace (hd v)"
    proof -
      have "r \<noteq> [] \<Longrightarrow> last r = last t" unfolding r_def by (metis last_appendR takeWhile_dropWhile_id)
      then show ?thesis using 1(2) lt False by auto
    qed
    have stop: "v = [] \<or> \<not> nonspace (hd v) \<or> (\<exists>x \<in> set t. \<not> nonspace x)"
      using 1(2) lt False by (metis last_in_set)
    have tw: "takeWhile nonspace (t @ v) = takeWhile nonspace t"
      using takeWhile_append_stop [OF stop] .
    have dw: "words (dropWhile nonspace (t @ v)) = words (r @ v)"
    proof (cases "\<exists>x \<in> set t. \<not> nonspace x")
      case True
      then show ?thesis unfolding r_def by (auto simp: dropWhile_append1)
    next
      case False
      then have "dropWhile nonspace (t @ v) = dropWhile nonspace v" "r = []"
        unfolding r_def by (auto simp: dropWhile_append2 dropWhile_eq_Nil_conv)
      moreover have "dropWhile nonspace v = v" using stop False by (cases v) auto
      ultimately show ?thesis by simp
    qed
    have "words (u @ v) = takeWhile nonspace t # words (r @ v)"
      using dt t tw dw by (subst words.simps) (simp add: Let_def)
    moreover have "words (r @ v) = words r @ words v"
      using 1(1) [OF t_def False] cond by (simp add: r_def)
    moreover have "words u = takeWhile nonspace t # words r"
      using False by (subst words.simps) (simp add: t_def [symmetric] r_def Let_def)
    ultimately show ?thesis by simp
  qed
qed

lemma strip_back_take:
  "i \<le> length s \<Longrightarrow> strip_back s i \<le> i
    \<and> (\<forall>j. strip_back s i \<le> j \<longrightarrow> j < i \<longrightarrow> my_isspace (s ! j))
    \<and> (0 < strip_back s i \<longrightarrow> nonspace (s ! (strip_back s i - 1)))"
  by (induction s i rule: strip_back.induct) (auto simp: less_Suc_eq)

lemma words_strip:
  assumes "\<forall>c \<in> set v. my_isspace c"
  shows "words (u @ v) = words u"
proof -
  have "dropWhile my_isspace v = []" using assms by (simp add: dropWhile_eq_Nil_conv)
  then have "words v = []" by (subst words.simps) simp
  moreover have "v = [] \<or> u = [] \<or> my_isspace (last u) \<or> my_isspace (hd v)"
    using assms by (cases v) auto
  ultimately show ?thesis by (simp add: words_append)
qed

lemma trim_rev_spec: "\<exists>v. s = v @ trim_rev s \<and> (\<forall>c \<in> set v. my_isspace c)
    \<and> (trim_rev s = [] \<or> nonspace (hd (trim_rev s)) \<or> length (trim_rev s) = 1)"
proof (induction s rule: trim_rev.induct)
  case (1 c d s)
  show ?case
  proof (cases "my_isspace c")
    case True
    then obtain v where "d # s = v @ trim_rev (d # s)" "\<forall>c \<in> set v. my_isspace c"
        "trim_rev (d # s) = [] \<or> nonspace (hd (trim_rev (d # s))) \<or> length (trim_rev (d # s)) = 1"
      using 1 by auto
    then show ?thesis using True by (intro exI [of _ "c # v"]) auto
  qed simp
qed auto

lemma words_remove_trailing: "words (remove_trailing_spaces s) = words s"
proof -
  obtain v where "rev s = v @ trim_rev (rev s)" "\<forall>c \<in> set v. my_isspace c"
    using trim_rev_spec [of "rev s"] by auto
  then have "s = remove_trailing_spaces s @ rev v" "\<forall>c \<in> set (rev v). my_isspace c"
    unfolding remove_trailing_spaces_def by (metis rev_append rev_rev_ident, simp)
  then show ?thesis using words_strip by metis
qed

lemma skip_fwd_run:
  "(\<forall>j. i \<le> j \<longrightarrow> j < skip_fwd P s i \<longrightarrow> P (s ! j))
    \<and> (skip_fwd P s i < length s \<longrightarrow> \<not> P (s ! skip_fwd P s i))"
proof (induction P s i rule: skip_fwd.induct)
  case (1 P s i)
  show ?case
  proof (cases "i < length s \<and> P (cat s i)")
    case True
    then have e: "skip_fwd P s i = skip_fwd P s (i + 1)" by (subst skip_fwd.simps) auto
    have "P (s ! j)" if "i \<le> j" "j < skip_fwd P s (i + 1)" for j
      using 1 True that by (cases "j = i") auto
    then show ?thesis using 1 True e by auto
  next
    case False
    then have "skip_fwd P s i = i" by (subst skip_fwd.simps) auto
    then show ?thesis using False by auto
  qed
qed

lemma move_abs_loop_before:
  "move_abs_loop s i n False = Some j \<Longrightarrow> i \<le> length s
    \<Longrightarrow> j = i \<or> j = length s \<or> my_isspace (s ! (j - 1))"
proof (induction n arbitrary: i)
  case (Suc n)
  show ?case
  proof (cases "length s \<le> i")
    case True
    then show ?thesis using Suc.prems by simp
  next
    case False
    define q where "q = skip_fwd nonspace s i"
    define i' where "i' = skip_fwd my_isspace s q"
    have q: "q \<le> length s" using skip_fwd_bounds [of i s nonspace] Suc.prems by (simp add: q_def)
    have i': "q \<le> i'" "i' \<le> length s" using skip_fwd_bounds [OF q, of my_isspace] by (auto simp: i'_def)
    have "j = i' \<or> j = length s \<or> my_isspace (s ! (j - 1))"
      using Suc.IH [of i'] Suc.prems(1) False i' by (simp add: word_end_def q_def i'_def)
    moreover have "i' = length s \<or> my_isspace (s ! (i' - 1))"
    proof (cases "q < length s")
      case True
      then have "my_isspace (s ! q)" using skip_fwd_run [of i nonspace s] by (simp add: q_def)
      then have "i' \<noteq> q" using skip_fwd_run [of q my_isspace s] True by (auto simp: i'_def)
      then have "q \<le> i' - 1" "i' - 1 < i'" using i' by auto
      then show ?thesis using skip_fwd_run [of q my_isspace s] by (auto simp: i'_def)
    qed (use q i' in auto)
    ultimately show ?thesis by auto
  qed
qed simp

text \<open>
  with word numbers \<open>0 \<le> firstword \<le> lastword\<close> and without quotes, \<open>extract\<close> always
  returns, and the words of what it returns are exactly the words \<open>firstword\<close> to
  \<open>lastword\<close> of the string (as many of them as there are), in particular the single word
  \<open>n\<close> for \<open>extract(s, n, n)\<close>.
\<close>
theorem real_extract_words:
  assumes "0 \<le> firstword" "firstword \<le> lastword" "lastword < EOS"
  shows "\<exists>t. real_extract start firstword lastword False = Some t
    \<and> words t = take (nat (lastword + 1 - firstword)) (drop (nat firstword) (words start))"
proof -
  define s where "s = remove_trailing_spaces (dropWhile my_isspace start)"
  have ws: "words s = words start" unfolding s_def by (simp add: words_remove_trailing)
  define b where "b = skip_fwd my_isspace s 0"
  have bl: "b \<le> length s" and bd: "drop b s = dropWhile my_isspace s"
    using skip_fwd_bounds [of 0 s my_isspace] drop_skip_fwd [of my_isspace s 0] by (auto simp: b_def)
  define n where "n = nat firstword"
  define m where "m = nat (lastword + 1)"
  have nm: "n < m" using assms by (simp add: n_def m_def)
  obtain i where i: "move_abs_loop s b n False = Some i" "drop i s = after_words n (drop b s)"
      "b \<le> i" "i \<le> length s"
    using move_abs_loop_spec [OF bl, of n] by blast
  obtain k where k: "move_abs_loop s b m False = Some k" "drop k s = after_words m (drop b s)"
      "b \<le> k" "k \<le> length s"
    using move_abs_loop_spec [OF bl, of m] by blast
  have hd: "drop b s = [] \<or> nonspace (cat (drop b s) 0)" unfolding bd
    by (cases "dropWhile my_isspace s") (auto dest: dropWhile_hd)
  have wi: "words (drop i s) = drop n (words start)" and wk: "words (drop k s) = drop m (words start)"
    using words_after [OF hd, of n] words_after [OF hd, of m] i(2) k(2) ws bd by simp_all
  have aw: "length (after_words (Suc j) t) \<le> length (after_words j t)" for j t
  proof (induction j arbitrary: t)
    case 0
    have "length (dropWhile my_isspace (dropWhile nonspace t)) \<le> length t"
      by (meson le_trans length_dropWhile_le)
    then show ?case by simp
  next
    case (Suc j)
    then show ?case by simp
  qed
  have aw2: "length (after_words m t) \<le> length (after_words n t)" for t
    using lift_Suc_antimono_le [of "\<lambda>j. length (after_words j t)" n m] aw nm by simp
  have ik: "i \<le> k"
  proof -
    have "length s - k \<le> length s - i" using aw2 [of "drop b s"] i(2) k(2) by (metis length_drop)
    then show ?thesis using i(4) k(4) by linarith
  qed
  define k' where "k' = strip_back s k"
  note sb = strip_back_take [OF k(4), folded k'_def]
  define u where "u = take (k - i) (drop i s)"
  have u: "drop i s = u @ drop k s"
    using append_take_drop_id [of "k - i" "drop i s"] ik by (simp add: u_def)
  have ul: "length u = k - i" using ik k(4) by (simp add: u_def)
  have un: "u ! j = s ! (i + j)" if "j < k - i" for j using that i(4) k(4) by (simp add: u_def)
  have cut: "drop k s = [] \<or> u = [] \<or> my_isspace (last u) \<or> my_isspace (hd (drop k s))"
  proof (cases "k = b \<or> k = length s \<or> u = []")
    case True
    then show ?thesis using i(3) ik ul by auto
  next
    case False
    then have "my_isspace (s ! (k - 1))" using move_abs_loop_before [OF k(1) bl] by blast
    moreover have "i < k" using False ul by (cases "i = k") (use ik in auto)
    ultimately have "my_isspace (last u)"
      using un [of "k - i - 1"] ul False by (simp add: last_conv_nth)
    then show ?thesis by simp
  qed
  have wu: "words u = take (m - n) (drop n (words start))"
  proof -
    have "drop n (words start) = words u @ drop (m - n) (drop n (words start))"
      using words_append [OF cut] u wi wk nm by simp
    then show ?thesis by (metis append_same_eq append_take_drop_id)
  qed
  define t where "t = (if k' < i then [] else strext s i k')"
  have "words t = words u"
  proof (cases "k' < i")
    case True
    then have "\<forall>c \<in> set u. my_isspace c" using sb ul un by (auto simp: in_set_conv_nth)
    from words_strip [OF this, of "[]"] show ?thesis using True by (simp add: t_def)
  next
    case False
    have "k' - i \<le> k - i" using sb by (simp add: diff_le_mono)
    then have "t = take (k' - i) u" using False
      by (simp add: t_def strext_def u_def min_absorb1)
    moreover have "u = take (k' - i) u @ drop (k' - i) u" by (simp only: append_take_drop_id)
    moreover have "\<forall>c \<in> set (drop (k' - i) u). my_isspace c"
      using sb ul un False by (auto simp: in_set_conv_nth)
    ultimately show ?thesis using words_strip by metis
  qed
  moreover have "real_extract start firstword lastword False = Some t"
    using assms i(1) k(1) unfolding n_def m_def b_def s_def
    by (simp add: real_extract_def real_move_to_abs_word_def t_def k'_def s_def Let_def)
  moreover have "m - n = nat (lastword + 1 - firstword)" using assms by (simp add: m_def n_def)
  ultimately show ?thesis using wu by (simp add: n_def)
qed

theorem real_extract_words_witness:
  "\<exists>t. real_extract ''one  two three'' 1 1 False = Some t \<and> words t = [''two'']"
proof -
  have "words ''one  two three'' = [''one'', ''two'', ''three'']" by code_simp
  then show ?thesis using real_extract_words [of 1 1 "''one  two three''"] by (simp add: take_Suc)
qed

text \<open>
  The backward walk passes the space before a word and then steps forward by one, so it
  stops at the space: \<open>$~\<close>, the last word, comes with the space before it.
\<close>

lemma last_word_keeps_space: "real_extract2 ''a b'' EOS EOS False = Some '' b''"
  by code_simp

lemma backward_loop_stuck:
  assumes "0 < i" "cat s i = backslash" "cat s (i + 1) \<noteq> NUL"
  shows "backward_loop i s = None"
proof (cases "backward_loop i s")
  case (Some y)
  have "k = i \<longrightarrow> t = s \<longrightarrow> False" if "backward_loop k t = Some z" for k t z
    by (rule backward_loop.raw_induct [where P = "\<lambda>k t z. k = i \<longrightarrow> t = s \<longrightarrow> False", OF _ that])
      (use assms in \<open>auto split: if_splits\<close>)
  then show ?thesis using Some by blast
qed simp

text \<open>A word after a tab is not at the start of a word for the quote search: the client panics.\<close>

lemma quote_after_tab_panics:
  "real_move_to_abs_word [CHR ''a'', CHR 0x09, quote, CHR ''b'', quote] 2 True = None"
  by code_simp

end
