(* ===== verification/Flood.thy ===== *)
theory Flood
  imports LinkedList
begin

section \<open>Flood detection (source/flood.c)\<close>

text \<open>
  \<open>check_flooding\<close> remembers the last \<open>FLOOD_USERS\<close> senders in a table that is filled
  in a circle and fires the script hook \<open>ON FLOOD\<close> when one of them sends too much too
  fast. The static variables \<open>flood\<close>, \<open>users\<close> and \<open>pos\<close> are the record \<open>flood_state\<close>;
  what the function reads from elsewhere (the current server, the settings, the clock
  and the hook's answer) is the record \<open>flood_env\<close>. A dereference of the freed table is
  the result \<open>None\<close>.
\<close>

datatype FloodType = JOIN_FLOOD | MSG_FLOOD | PUBLIC_FLOOD

record Flooding =
  nick :: cstr
  channel :: cstr
  server :: int
  flood_type :: "FloodType option"  \<comment> \<open>\<open>None\<close> for the initial -1\<close>
  fcnt :: int
  start :: int
  floods :: int

record flood_state =
  flood :: "Flooding list option"
  users :: nat
  pos :: nat

record flood_env =
  from_server :: int
  FLOOD_USERS_VAR :: nat
  FLOOD_AFTER_VAR :: int
  FLOOD_RATE_VAR :: int
  right_now :: int
  hook_answer :: int  \<comment> \<open>what \<open>do_hook(FLOOD_LIST, ..)\<close> returns\<close>

abbreviation NICKNAME_LEN :: nat where "NICKNAME_LEN \<equiv> 30"

text \<open>C's division truncates toward zero.\<close>

definition c_div :: "int \<Rightarrow> int \<Rightarrow> int" where
  "c_div a b = sgn a * sgn b * (\<bar>a\<bar> div \<bar>b\<bar>)"

definition free_entry :: Flooding where
  "free_entry = \<lparr>nick = [], channel = [], server = -1, flood_type = None, fcnt = 0, start = 0, floods = 0\<rparr>"

definition same_sender :: "flood_env \<Rightarrow> cstr \<Rightarrow> cstr option \<Rightarrow> FloodType \<Rightarrow> Flooding \<Rightarrow> bool" where
  "same_sender env nk chan t f \<longleftrightarrow>
     flood_type f = Some t \<and> server f = from_server env \<and> my_stricmp nk (nick f) = 0 \<and>
     (channel f \<noteq> [] \<longleftrightarrow> chan \<noteq> None) \<and>
     (case chan of None \<Rightarrow> True | Some c \<Rightarrow> my_stricmp c (channel f) = 0)"

text \<open>\<open>for (i = 0; i < users; i++)\<close> with the tests: the first match, or \<open>users\<close>.\<close>

fun find_sender :: "(Flooding \<Rightarrow> bool) \<Rightarrow> Flooding list \<Rightarrow> nat" where
  "find_sender P [] = 0"
| "find_sender P (f # fs) = (if P f then 0 else Suc (find_sender P fs))"

text \<open>
  \<open>do pos = (pos + 1) % users; while (flood[pos].floods && pos != old_pos)\<close>. After a
  shrinking of the table \<open>old_pos\<close> may be outside it; the bound \<open>users\<close> on the number of
  steps is enough, because \<open>users\<close> steps visit every entry (\<open>next_pos_total\<close>).
\<close>

fun next_pos :: "nat \<Rightarrow> Flooding list \<Rightarrow> nat \<Rightarrow> nat \<Rightarrow> nat option" where
  "next_pos 0 fs old_pos p = None"
| "next_pos (Suc fuel) fs old_pos p =
     (let p' = (p + 1) mod length fs
      in if floods (fs ! p') \<noteq> 0 \<and> p' \<noteq> old_pos then next_pos fuel fs old_pos p' else Some p')"

definition new_entry :: "flood_env \<Rightarrow> cstr \<Rightarrow> cstr option \<Rightarrow> FloodType \<Rightarrow> Flooding \<Rightarrow> Flooding" where
  "new_entry env nk chan t f =
     f\<lparr>nick := strmcpy nk NICKNAME_LEN,
       channel := (case chan of None \<Rightarrow> [] | Some c \<Rightarrow> strmcpy c NICKNAME_LEN),
       server := from_server env, flood_type := Some t, fcnt := 1, start := right_now env\<rparr>"

text \<open>The count of a known sender: the entry, the result, and whether the hook fires.\<close>

definition count_message :: "flood_env \<Rightarrow> Flooding \<Rightarrow> Flooding \<times> int \<times> bool" where
  "count_message env f0 =
     (let f = f0\<lparr>fcnt := fcnt f0 + 1\<rparr>
      in if FLOOD_AFTER_VAR env \<le> fcnt f
         then let diff = right_now env - start f
              in if diff = 0 \<or> FLOOD_RATE_VAR env \<le> c_div (fcnt f) diff
                 then (f\<lparr>floods := floods f + 1\<rparr>, hook_answer env, True)
                 else (f\<lparr>floods := 0, fcnt := 1, start := right_now env\<rparr>, 1, False)
         else (f, 1, False))"

definition check_flooding ::
  "flood_env \<Rightarrow> flood_state \<Rightarrow> cstr \<Rightarrow> cstr option \<Rightarrow> FloodType \<Rightarrow> (flood_state \<times> int \<times> bool) option" where
  "check_flooding env st nk chan t =
     (if from_server env = -1 then Some (st, 0, False)
      else if FLOOD_USERS_VAR env = 0 then Some (st\<lparr>flood := None\<rparr>, 1, False)
      else
        let st1 = (if users st \<noteq> FLOOD_USERS_VAR env
                   then st\<lparr>users := FLOOD_USERS_VAR env,
                           flood := Some (replicate (FLOOD_USERS_VAR env) free_entry)\<rparr>
                   else st)
        in case flood st1 of
             None \<Rightarrow> None
           | Some fs \<Rightarrow>
               let i = find_sender (same_sender env nk chan t) fs
               in if i = users st1
                  then case next_pos (users st1 + 1) fs (pos st1) (pos st1) of
                         None \<Rightarrow> None
                       | Some p \<Rightarrow>
                           Some (st1\<lparr>flood := Some (fs[p := new_entry env nk chan t (fs ! p)]), pos := p\<rparr>, 1, False)
                  else let (f, r, fired) = count_message env (fs ! i)
                       in Some (st1\<lparr>flood := Some (fs[i := f])\<rparr>, r, fired))"

definition flood_init :: flood_state where
  "flood_init = \<lparr>flood = None, users = 0, pos = 0\<rparr>"

subsection \<open>The table\<close>

definition flood_ok :: "flood_state \<Rightarrow> bool" where
  "flood_ok st \<longleftrightarrow>
     (case flood st of None \<Rightarrow> True | Some fs \<Rightarrow> length fs = users st \<and> pos st < users st)"

inductive flood_reachable :: "flood_state \<Rightarrow> bool" where
  flood_start: "flood_reachable flood_init"
| flood_step: "flood_reachable st \<Longrightarrow> check_flooding env st nk chan t = Some (st', r, b) \<Longrightarrow> flood_reachable st'"

inductive_cases flood_reachableE: "flood_reachable st"

lemma find_sender_le: "find_sender P fs \<le> length fs"
  by (induction fs) auto

lemma find_sender_none: "find_sender P fs = length fs \<longleftrightarrow> (\<forall>f \<in> set fs. \<not> P f)"
proof (induction fs)
  case (Cons f fs)
  then show ?case using find_sender_le [of P fs] by auto
qed simp

lemma find_sender_update:
  "p < length fs \<Longrightarrow> P f \<Longrightarrow> (\<forall>g \<in> set fs. \<not> P g) \<Longrightarrow> find_sender P (fs[p := f]) = p"
proof (induction fs arbitrary: p)
  case (Cons g fs)
  then show ?case by (cases p) auto
qed simp

lemma next_pos_total:
  assumes "(p + Suc d) mod length fs = old" "d < fuel" "fs \<noteq> []"
  shows "\<exists>q < length fs. next_pos fuel fs old p = Some q"
  using assms
proof (induction d arbitrary: p fuel)
  case 0
  then obtain k where "fuel = Suc k" by (cases fuel) auto
  then show ?case using 0 by (auto simp: Let_def)
next
  case (Suc d)
  then obtain k where k: "fuel = Suc k" by (cases fuel) auto
  define p' where "p' = Suc p mod length fs"
  have "(p' + Suc d) mod length fs = old"
    using Suc.prems(1) mod_add_left_eq [of "Suc p" "length fs" "Suc d"] by (simp add: p'_def)
  then have "\<exists>q < length fs. next_pos k fs old p' = Some q"
    using Suc.IH [of p' k] Suc.prems k by simp
  moreover have "p' < length fs" using Suc.prems by (simp add: p'_def)
  ultimately show ?case using k by (auto simp: Let_def p'_def [symmetric])
qed

lemma next_pos_old: "old < length fs \<Longrightarrow> \<exists>q < length fs. next_pos (length fs + 1) fs old old = Some q"
  using next_pos_total [of old "length fs - 1" fs old "length fs + 1"]
  by (cases "fs = []") (simp_all del: next_pos.simps)

lemma next_pos_free:
  "0 < n \<Longrightarrow> next_pos (n + 1) (replicate n free_entry) old p = Some ((p + 1) mod n)"
  by (simp add: free_entry_def Let_def)

lemma same_sender_free [simp]: "\<not> same_sender env nk chan t free_entry"
  by (simp add: same_sender_def free_entry_def)

text \<open>What a call does once the table is there: it returns, and keeps the table's shape.\<close>

lemma check_flooding_returns:
  assumes "flood_ok st" "from_server env \<noteq> -1" "FLOOD_USERS_VAR env \<noteq> 0"
    "flood st \<noteq> None \<or> users st \<noteq> FLOOD_USERS_VAR env"
  shows "\<exists>res. check_flooding env st nk chan t = Some res \<and> flood_ok (fst res)"
proof (cases "users st = FLOOD_USERS_VAR env")
  case False
  define n where "n = FLOOD_USERS_VAR env"
  have "find_sender (same_sender env nk chan t) (replicate n free_entry) = n"
    using find_sender_none [of "same_sender env nk chan t" "replicate n free_entry"] by simp
  then show ?thesis using assms False next_pos_free [of n "pos st" "pos st"]
    by (simp add: check_flooding_def n_def Let_def flood_ok_def del: next_pos.simps)
next
  case True
  then obtain fs where fs: "flood st = Some fs" "length fs = users st" "pos st < users st"
    using assms by (auto simp: flood_ok_def)
  obtain q where q: "q < length fs" "next_pos (users st + 1) fs (pos st) (pos st) = Some q"
    using next_pos_old [of "pos st" fs] fs by auto
  show ?thesis using assms True fs q
    by (auto simp: check_flooding_def Let_def flood_ok_def simp del: next_pos.simps split: prod.splits)
qed

lemma flood_reachable_ok: "flood_reachable st \<Longrightarrow> flood_ok st"
proof (induction rule: flood_reachable.induct)
  case flood_start
  then show ?case by (simp add: flood_ok_def flood_init_def)
next
  case (flood_step st env nk chan t st' r b)
  show ?case
  proof (cases "from_server env = -1 \<or> FLOOD_USERS_VAR env = 0")
    case True
    then have "st' = st \<or> st' = st\<lparr>flood := None\<rparr>"
      using flood_step.hyps(2) by (auto simp: check_flooding_def split: if_splits)
    then show ?thesis using flood_step.IH by (auto simp: flood_ok_def)
  next
    case False
    moreover have "flood st \<noteq> None \<or> users st \<noteq> FLOOD_USERS_VAR env"
      using flood_step.hyps(2) False by (auto simp: check_flooding_def)
    ultimately show ?thesis using check_flooding_returns [of st env nk chan t] flood_step by auto
  qed
qed

text \<open>
  in every state the client can reach, \<open>check_flooding\<close> returns, unless flood checking
  was switched off (which frees the table but leaves \<open>users\<close>) and is on again with the same
  number of users: then, and only then, the freed table is dereferenced.
\<close>
theorem check_flooding_crashes_iff:
  assumes "flood_reachable st"
  shows "check_flooding env st nk chan t = None \<longleftrightarrow>
    from_server env \<noteq> -1 \<and> FLOOD_USERS_VAR env \<noteq> 0 \<and> flood st = None \<and> users st = FLOOD_USERS_VAR env"
proof (cases "from_server env \<noteq> -1 \<and> FLOOD_USERS_VAR env \<noteq> 0 \<and> flood st = None \<and> users st = FLOOD_USERS_VAR env")
  case True
  then show ?thesis by (simp add: check_flooding_def)
next
  case False
  then show ?thesis
    using check_flooding_returns [OF flood_reachable_ok [OF assms], of env nk chan t]
    by (cases "from_server env = -1 \<or> FLOOD_USERS_VAR env = 0") (auto simp: check_flooding_def)
qed

definition example_env :: "nat \<Rightarrow> flood_env" where
  "example_env n = \<lparr>from_server = 0, FLOOD_USERS_VAR = n, FLOOD_AFTER_VAR = 2, FLOOD_RATE_VAR = 1,
     right_now = 100, hook_answer = 0\<rparr>"

text \<open>The crash is reachable: a message, one with \<open>FLOOD_USERS\<close> off, and one with it on again.\<close>

theorem check_flooding_crashes_iff_witness:
  "\<exists>st. flood_reachable st \<and> users st = 3
    \<and> check_flooding (example_env 3) st ''bob'' None MSG_FLOOD = None"
proof -
  obtain res where "check_flooding (example_env 3) flood_init ''bob'' None MSG_FLOOD = Some res"
    using check_flooding_returns [of flood_init "example_env 3" "''bob''" None MSG_FLOOD]
    by (auto simp: flood_ok_def flood_init_def example_env_def)
  then obtain st1 r b where 1: "check_flooding (example_env 3) flood_init ''bob'' None MSG_FLOOD = Some (st1, r, b)"
    by (cases res) auto
  have r1: "flood_reachable st1" using flood_reachable.intros(1) 1 by (rule flood_reachable.intros(2))
  have u1: "users st1 = 3"
    using 1 by (auto simp: check_flooding_def flood_init_def example_env_def Let_def split: if_splits option.splits prod.splits)
  define st2 where "st2 = st1\<lparr>flood := None\<rparr>"
  have "check_flooding (example_env 0) st1 ''bob'' None MSG_FLOOD = Some (st2, 1, False)"
    by (simp add: check_flooding_def example_env_def st2_def)
  with r1 have r2: "flood_reachable st2" by (rule flood_reachable.intros(2))
  have "users st2 = 3" "flood st2 = None" using u1 by (simp_all add: st2_def)
  moreover from this have "check_flooding (example_env 3) st2 ''bob'' None MSG_FLOOD = None"
    using check_flooding_crashes_iff [OF r2] by (simp add: example_env_def)
  ultimately show ?thesis using r2 by blast
qed

subsection \<open>Detection\<close>

text \<open>\<open>k\<close> messages of one sender under one setting: whether the hook fires at each.\<close>

fun flood_run :: "flood_env \<Rightarrow> cstr \<Rightarrow> cstr option \<Rightarrow> FloodType \<Rightarrow> nat \<Rightarrow> flood_state
    \<Rightarrow> (flood_state \<times> bool list) option" where
  "flood_run env nk chan t 0 st = Some (st, [])"
| "flood_run env nk chan t (Suc k) st =
     (case flood_run env nk chan t k st of
        None \<Rightarrow> None
      | Some (st1, bs) \<Rightarrow>
          (case check_flooding env st1 nk chan t of
             None \<Rightarrow> None
           | Some (st2, r, b) \<Rightarrow> Some (st2, bs @ [b])))"

definition tracked :: "flood_env \<Rightarrow> cstr \<Rightarrow> cstr option \<Rightarrow> FloodType \<Rightarrow> int \<Rightarrow> flood_state \<Rightarrow> bool" where
  "tracked env nk chan t c st \<longleftrightarrow>
     users st = FLOOD_USERS_VAR env \<and>
     (\<exists>fs i. flood st = Some fs \<and> length fs = users st \<and> i < length fs \<and>
        find_sender (same_sender env nk chan t) fs = i \<and>
        fcnt (fs ! i) = c \<and> start (fs ! i) = right_now env)"

lemma find_sender_hit: "find_sender P fs < length fs \<Longrightarrow> P (fs ! find_sender P fs)"
  by (induction fs) auto

lemma find_sender_same:
  "find_sender P fs < length fs \<Longrightarrow> P f \<Longrightarrow> find_sender P (fs[find_sender P fs := f]) = find_sender P fs"
  by (induction fs) auto

lemma count_message_same:
  "start f = right_now env \<Longrightarrow> count_message env f =
    (if FLOOD_AFTER_VAR env \<le> fcnt f + 1
     then (f\<lparr>fcnt := fcnt f + 1, floods := floods f + 1\<rparr>, hook_answer env, True)
     else (f\<lparr>fcnt := fcnt f + 1\<rparr>, 1, False))"
  by (simp add: count_message_def)

lemma same_sender_update [simp]:
  "same_sender env nk chan t (f\<lparr>fcnt := c\<rparr>) = same_sender env nk chan t f"
  "same_sender env nk chan t (f\<lparr>fcnt := c, floods := d\<rparr>) = same_sender env nk chan t f"
  by (cases chan; simp add: same_sender_def)+

lemma tracked_step:
  assumes "tracked env nk chan t c st" "from_server env \<noteq> -1" "FLOOD_USERS_VAR env \<noteq> 0"
  shows "\<exists>st' r. check_flooding env st nk chan t = Some (st', r, FLOOD_AFTER_VAR env \<le> c + 1)
    \<and> tracked env nk chan t (c + 1) st'"
proof -
  define P where "P = same_sender env nk chan t"
  obtain fs where fs: "flood st = Some fs" "length fs = users st" "users st = FLOOD_USERS_VAR env"
      "find_sender P fs < length fs" "fcnt (fs ! find_sender P fs) = c"
      "start (fs ! find_sender P fs) = right_now env"
    using assms(1) by (auto simp: tracked_def P_def)
  define f where "f = fs ! find_sender P fs"
  obtain f' r b where cm: "count_message env f = (f', r, b)" by (metis surj_pair)
  have f': "fcnt f' = c + 1" "start f' = right_now env" "b \<longleftrightarrow> FLOOD_AFTER_VAR env \<le> c + 1" "P f' = P f"
  proof -
    have f: "fcnt f = c" "start f = right_now env" using fs(5,6) by (simp_all add: f_def)
    show "fcnt f' = c + 1" "start f' = right_now env" "b \<longleftrightarrow> FLOOD_AFTER_VAR env \<le> c + 1" "P f' = P f"
      using cm count_message_same [OF f(2)] f by (auto simp: P_def split: if_splits)
  qed
  have "P f'" using f'(4) find_sender_hit [OF fs(4)] by (simp add: f_def)
  define st' where "st' = st\<lparr>flood := Some (fs[find_sender P fs := f'])\<rparr>"
  have "check_flooding env st nk chan t = Some (st', r, b)"
    using assms(2,3) fs cm by (simp add: check_flooding_def Let_def P_def [symmetric] f_def [symmetric] st'_def)
  moreover have "tracked env nk chan t (c + 1) st'"
    using fs f' find_sender_same [OF fs(4) \<open>P f'\<close>] by (simp add: tracked_def st'_def P_def [symmetric])
  ultimately show ?thesis using f'(3) by blast
qed

lemma tracked_start:
  assumes "flood_reachable st" "from_server env \<noteq> -1" "FLOOD_USERS_VAR env \<noteq> 0"
    "users st \<noteq> FLOOD_USERS_VAR env \<or> (\<exists>fs. flood st = Some fs \<and> (\<forall>f \<in> set fs. \<not> same_sender env nk chan t f))"
    "length nk \<le> NICKNAME_LEN" "\<And>c. chan = Some c \<Longrightarrow> c \<noteq> [] \<and> length c \<le> NICKNAME_LEN"
  shows "\<exists>st' r. check_flooding env st nk chan t = Some (st', r, False) \<and> tracked env nk chan t 1 st'"
proof -
  define n where "n = FLOOD_USERS_VAR env"
  define fs where "fs = (if users st \<noteq> n then replicate n free_entry else the (flood st))"
  define st1 where "st1 = (if users st \<noteq> n then st\<lparr>users := n, flood := Some fs\<rparr> else st)"
  have st1: "flood st1 = Some fs" "users st1 = n" "length fs = n" "\<forall>f \<in> set fs. \<not> same_sender env nk chan t f"
    using assms(4) flood_reachable_ok [OF assms(1)]
    by (auto simp: st1_def fs_def n_def flood_ok_def)
  have "\<exists>p < n. next_pos (n + 1) fs (pos st1) (pos st1) = Some p"
  proof (cases "users st = n")
    case True
    then have "pos st1 < length fs"
      using st1 assms(4) flood_reachable_ok [OF assms(1)] by (auto simp: st1_def flood_ok_def n_def)
    then show ?thesis using next_pos_old [of "pos st1" fs] st1(3) by simp
  next
    case False
    then show ?thesis using next_pos_free [of n] assms(3) by (simp add: fs_def n_def del: next_pos.simps)
  qed
  then obtain p where p: "p < n" "next_pos (n + 1) fs (pos st1) (pos st1) = Some p" by blast
  define f where "f = new_entry env nk chan t (fs ! p)"
  have sf: "same_sender env nk chan t f" "fcnt f = 1" "start f = right_now env"
    using assms(5,6)
    by (auto simp: f_def new_entry_def same_sender_def strmcpy_def strlcpy_def split: option.splits)
  have nf: "find_sender (same_sender env nk chan t) fs = n"
    using find_sender_none [of "same_sender env nk chan t" fs] st1 by simp
  have "find_sender (same_sender env nk chan t) (fs[p := f]) = p"
    using find_sender_update [of p fs "same_sender env nk chan t" f] p(1) st1 sf(1) by simp
  moreover have "check_flooding env st nk chan t
      = Some (st1\<lparr>flood := Some (fs[p := f]), pos := p\<rparr>, 1, False)"
  proof -
    have eq: "(if users st \<noteq> n then st\<lparr>users := n, flood := Some (replicate n free_entry)\<rparr> else st) = st1"
      by (simp add: st1_def fs_def)
    show ?thesis unfolding check_flooding_def n_def [symmetric] eq Let_def
      using assms(2,3) st1 nf p by (simp add: f_def n_def [symmetric] del: next_pos.simps)
  qed
  ultimately show ?thesis using st1 p sf by (simp add: tracked_def n_def)
qed

text \<open>
  C38: a sender the table does not hold (with a nick and channel that fit into the table)
  who sends \<open>k\<close> messages within one second fires the hook exactly at the messages from the
  \<open>FLOOD_AFTER\<close>-th on, the first message never.
\<close>
theorem flood_detected:
  assumes "flood_reachable st" "from_server env \<noteq> -1" "FLOOD_USERS_VAR env \<noteq> 0"
    "users st \<noteq> FLOOD_USERS_VAR env \<or> (\<exists>fs. flood st = Some fs \<and> (\<forall>f \<in> set fs. \<not> same_sender env nk chan t f))"
    "length nk \<le> NICKNAME_LEN" "\<And>c. chan = Some c \<Longrightarrow> c \<noteq> [] \<and> length c \<le> NICKNAME_LEN"
  shows "\<exists>st'. flood_run env nk chan t k st
    = Some (st', map (\<lambda>i. 0 < i \<and> FLOOD_AFTER_VAR env \<le> int i + 1) [0..<k])"
proof (cases k)
  case (Suc j)
  have "\<exists>st'. flood_run env nk chan t (Suc j) st
      = Some (st', map (\<lambda>i. 0 < i \<and> FLOOD_AFTER_VAR env \<le> int i + 1) [0..<Suc j])
    \<and> tracked env nk chan t (int (Suc j)) st'"
  proof (induction j)
    case 0
    then show ?case using tracked_start [OF assms(1-5)] assms(6) by fastforce
  next
    case (Suc j)
    then obtain st1 where st1: "flood_run env nk chan t (Suc j) st
        = Some (st1, map (\<lambda>i. 0 < i \<and> FLOOD_AFTER_VAR env \<le> int i + 1) [0..<Suc j])"
        "tracked env nk chan t (int (Suc j)) st1" by blast
    obtain st2 r where "check_flooding env st1 nk chan t = Some (st2, r, FLOOD_AFTER_VAR env \<le> int (Suc j) + 1)"
        "tracked env nk chan t (int (Suc j) + 1) st2"
      using tracked_step [OF st1(2) assms(2,3)] by blast
    then show ?case using st1 by (subst flood_run.simps) (simp add: add.commute)
  qed
  then show ?thesis using Suc by blast
qed simp

theorem flood_detected_witness:
  "\<exists>st'. flood_run (example_env 5) ''bob'' (Some ''#c'') PUBLIC_FLOOD 3 flood_init
    = Some (st', [False, True, True])"
proof -
  have "\<exists>st'. flood_run (example_env 5) ''bob'' (Some ''#c'') PUBLIC_FLOOD 3 flood_init
    = Some (st', map (\<lambda>i. 0 < i \<and> FLOOD_AFTER_VAR (example_env 5) \<le> int i + 1) [0..<3])"
    by (rule flood_detected [OF flood_start]) (auto simp: example_env_def flood_init_def)
  then show ?thesis by (simp add: example_env_def upt_rec)
qed

text \<open>
  A place that is taken over from a flooding sender keeps its \<open>floods\<close> count: the new
  sender starts as a flooder whose place is not given away.
\<close>

lemma new_entry_keeps_floods: "floods (new_entry env nk chan t f) = floods f"
  by (simp add: new_entry_def)

end
