(* ===== verification/Timer.thy ===== *)
theory Timer
  imports LinkedList
begin

section \<open>Timers (source/timer.c)\<close>

text \<open>
  The pending timers are a list in the order of their due times. A time is the C pair of
  seconds and microseconds; \<open>time_diff\<close> is the difference in microseconds (the code's
  \<open>double\<close> in seconds has the same sign). Waiting times are whole milliseconds. What a timer
  runs, a callback or a script line, is the parameter \<open>exec\<close> of \<open>ExecuteTimers\<close>: it may
  change the pending timers and may not return.
\<close>

record timeval =
  tv_sec :: int
  tv_usec :: int

record TimerList =
  ref :: cstr
  ttime :: timeval
  interval :: int
  events :: int
  callback :: "nat option"
  command :: cstr
  subargs :: "cstr option"
  whom :: "cstr option"
  tserver :: int
  twindow :: int
  delete_flag :: bool
  taddress :: nat  \<comment> \<open>the address of the timer's storage\<close>

record timers =
  PendingTimers :: "TimerList list"
  current_exec_timer :: "cstr option"  \<comment> \<open>\<open>None\<close> for \<open>empty_string\<close>\<close>
  parsingtimer :: bool

abbreviation REFNUM_MAX :: nat where "REFNUM_MAX \<equiv> 10"

definition time_diff :: "timeval \<Rightarrow> timeval \<Rightarrow> int" where
  "time_diff one two = (tv_sec two - tv_sec one) * 1000000 + (tv_usec two - tv_usec one)"

subsection \<open>The list of pending timers\<close>

definition schedule_timer :: "TimerList \<Rightarrow> timers \<Rightarrow> timers" where
  "schedule_timer ntimer st =
     (let later = (\<lambda>t. time_diff (ttime t) (ttime ntimer) < 0)
      in st\<lparr>PendingTimers := takeWhile (\<lambda>t. \<not> later t) (PendingTimers st) @
              ntimer # dropWhile (\<lambda>t. \<not> later t) (PendingTimers st)\<rparr>)"

text \<open>\<open>refnum\<close> is an \<open>int\<close>: a larger \<open>long\<close> is cut to 32 bits.\<close>

fun highest_ref :: "int \<Rightarrow> TimerList list \<Rightarrow> int" where
  "highest_ref refnum [] = refnum"
| "highest_ref refnum (t # ts) =
     (let r = my_atol (Some (ref t)) in highest_ref (if refnum < r then to_int32 r else refnum) ts)"

definition create_timer_ref :: "timers \<Rightarrow> cstr \<Rightarrow> cstr option" where
  "create_timer_ref st refnum_want =
     (let want = take REFNUM_MAX refnum_want
      in if want = []
         then Some (strmcpy (ltoa (to_int32 (highest_ref 0 (PendingTimers st) + 1))) REFNUM_MAX)
         else if \<exists>t \<in> set (PendingTimers st). my_stricmp (ref t) want = 0 then None
         else Some (strmcpy want REFNUM_MAX))"

definition get_timer :: "timers \<Rightarrow> cstr \<Rightarrow> TimerList option" where
  "get_timer st r =
     find (\<lambda>t. my_stricmp (ref t) r = 0 \<or>
            (case whom t of None \<Rightarrow> False | Some w \<Rightarrow> my_stricmp w r = 0)) (PendingTimers st)"

fun remove_ref :: "cstr \<Rightarrow> TimerList list \<Rightarrow> TimerList list option" where
  "remove_ref r [] = None"
| "remove_ref r (t # ts) =
     (if my_stricmp (ref t) r = 0 then Some ts else map_option (\<lambda>us. t # us) (remove_ref r ts))"

definition delete_timer :: "timers \<Rightarrow> cstr \<Rightarrow> timers \<times> int" where
  "delete_timer st r =
     (if current_exec_timer st \<noteq> None then (st, -1)
      else case remove_ref r (PendingTimers st) of
        None \<Rightarrow> (st, -1)
      | Some ts \<Rightarrow> (st\<lparr>PendingTimers := ts\<rparr>, 0))"

text \<open>
  \<open>kill_timer\<close> takes the timer out in both of its branches; for the name of the running timer
  it only marks the node instead of freeing it.
\<close>

definition kill_timer :: "timers \<Rightarrow> cstr \<Rightarrow> timers \<times> int" where
  "kill_timer st r =
     (case remove_ref r (PendingTimers st) of
        None \<Rightarrow> (st, -1)
      | Some ts \<Rightarrow> (st\<lparr>PendingTimers := ts\<rparr>, 0))"

fun mark_ref :: "cstr \<Rightarrow> TimerList list \<Rightarrow> TimerList list option" where
  "mark_ref r [] = None"
| "mark_ref r (t # ts) =
     (if my_stricmp (ref t) r = 0 then Some (t\<lparr>delete_flag := True\<rparr> # ts)
      else map_option (\<lambda>us. t # us) (mark_ref r ts))"

definition kill_current_timer :: "timers \<Rightarrow> cstr \<Rightarrow> timers \<times> int" where
  "kill_current_timer st r =
     (case mark_ref r (PendingTimers st) of
        None \<Rightarrow> (st, -1)
      | Some ts \<Rightarrow> (st\<lparr>PendingTimers := ts\<rparr>, 0))"

definition get_delete_timer :: "timers \<Rightarrow> cstr \<Rightarrow> int" where
  "get_delete_timer st r =
     (case find (\<lambda>t. my_stricmp (ref t) r = 0) (PendingTimers st) of
        None \<Rightarrow> -1
      | Some t \<Rightarrow> if delete_flag t then 1 else 0)"

text \<open>\<open>while (PendingTimers) delete_timer(PendingTimers->ref)\<close>\<close>

partial_function (option) delete_all_timers :: "timers \<Rightarrow> timers option" where
  "delete_all_timers st =
     (case PendingTimers st of
        [] \<Rightarrow> Some st
      | t # _ \<Rightarrow> delete_all_timers (fst (delete_timer st (ref t))))"

definition timer_exists :: "timers \<Rightarrow> cstr \<Rightarrow> bool" where
  "timer_exists st r \<longleftrightarrow> get_timer st r \<noteq> None"

definition timer_callback_exists :: "timers \<Rightarrow> nat \<Rightarrow> bool" where
  "timer_callback_exists st c \<longleftrightarrow> (\<exists>t \<in> set (PendingTimers st). callback t = Some c)"

subsection \<open>Adding and running timers\<close>

definition due_after :: "timeval \<Rightarrow> int \<Rightarrow> timeval" where
  "due_after now ms =
     (let milli = ms * 1000 + tv_usec now
      in \<lparr>tv_sec = tv_sec now + milli div 1000000, tv_usec = milli mod 1000000\<rparr>)"

record timer_request =
  update :: bool
  refnum_want :: cstr
  wait_ms :: int
  revents :: int
  rcallback :: "nat option"
  what :: cstr
  rsubargs :: "cstr option"
  winref :: int
  rwhom :: "cstr option"

definition add_timer ::
  "timeval \<Rightarrow> int \<Rightarrow> nat \<Rightarrow> timer_request \<Rightarrow> timers \<Rightarrow> timers \<times> cstr option" where
  "add_timer now from_server address rq st =
     (let n0 = \<lparr>ref = [], ttime = due_after now (wait_ms rq), interval = wait_ms rq, events = revents rq,
                callback = None, command = [], subargs = None, whom = rwhom rq, tserver = from_server,
                twindow = winref rq, delete_flag = False, taddress = address\<rparr>;
          old = (if update rq then get_timer st (refnum_want rq) else None);
          (n1, st1) =
            (case old of
               Some t \<Rightarrow>
                 (let n = (if wait_ms rq = -1 then n0\<lparr>ttime := ttime t, interval := interval t\<rparr> else n0);
                      n = (if revents rq = -1 then n\<lparr>events := events t\<rparr> else n);
                      n = n\<lparr>callback := callback t\<rparr>;
                      n = (if what rq \<noteq> [] then n\<lparr>command := what rq, subargs := rsubargs rq\<rparr>
                           else n\<lparr>command := command t, subargs := subargs t\<rparr>)
                  in (n, fst (delete_timer st (refnum_want rq))))
             | None \<Rightarrow>
                 (n0\<lparr>callback := rcallback rq, command := what rq, subargs := rsubargs rq\<rparr>, st))
      in case create_timer_ref st1 (refnum_want rq) of
           None \<Rightarrow> (st1, None)
         | Some r \<Rightarrow> (schedule_timer (n1\<lparr>ref := r\<rparr>) st1, Some r))"

text \<open>
  The next due time of a repeating timer: the seconds come from the interval, but the
  microseconds are taken from the address of the timer instead of \<open>milli\<close>.
\<close>

definition reschedule :: "TimerList \<Rightarrow> TimerList" where
  "reschedule t =
     (let milli = interval t * 1000 + tv_usec (ttime t)
      in t\<lparr>ttime := \<lparr>tv_sec = tv_sec (ttime t) + milli div 1000000,
                     tv_usec = int (taddress t mod 1000000)\<rparr>\<rparr>)"

text \<open>
  The loop of \<open>ExecuteTimers\<close>. A marked timer that was scheduled again is freed while it is
  in the list; the loop has no result then.
\<close>

partial_function (option) execute_loop ::
  "timers \<Rightarrow> timeval \<Rightarrow> (TimerList \<Rightarrow> timers \<Rightarrow> timers option) \<Rightarrow> timers option" where
  "execute_loop st now exec =
     (case PendingTimers st of
        [] \<Rightarrow> Some st
      | t # ts \<Rightarrow>
          (if time_diff now (ttime t) < 0
           then (case exec t (st\<lparr>PendingTimers := ts, current_exec_timer := Some (ref t)\<rparr>) of
                   None \<Rightarrow> None
                 | Some st1 \<Rightarrow>
                     (if events t = 0 \<or> events t = 1
                      then execute_loop (st1\<lparr>current_exec_timer := None\<rparr>) now exec
                      else if delete_flag t then None
                      else execute_loop
                             (schedule_timer
                               (reschedule (t\<lparr>events := (if events t = -1 then -1 else events t - 1)\<rparr>))
                               (st1\<lparr>current_exec_timer := None\<rparr>)) now exec))
           else Some st))"

definition ExecuteTimers ::
  "bool \<Rightarrow> timeval \<Rightarrow> (TimerList \<Rightarrow> timers \<Rightarrow> timers option) \<Rightarrow> timers \<Rightarrow> timers option" where
  "ExecuteTimers waiting now exec st =
     (if waiting \<or> PendingTimers st = [] \<or> parsingtimer st then Some st
      else map_option (\<lambda>st'. st'\<lparr>parsingtimer := False\<rparr>)
             (execute_loop (st\<lparr>parsingtimer := True\<rparr>) now exec))"

text \<open>In milliseconds; the C code converts the microseconds with a truncating cast.\<close>

definition TimerTimeout :: "timeval \<Rightarrow> timers \<Rightarrow> int" where
  "TimerTimeout now st =
     (if parsingtimer st \<or> PendingTimers st = [] then 100000000
      else let d = time_diff now (ttime (hd (PendingTimers st)));
               timeout_in = sgn d * (\<bar>d\<bar> div 1000)
           in if timeout_in < 0 then 0 else timeout_in + 100)"

text \<open>\<open>/TIMER -DELETE ptr\<close>\<close>

definition timercmd_delete :: "timers \<Rightarrow> cstr \<Rightarrow> timers option" where
  "timercmd_delete st ptr =
     (if timer_exists st ptr then Some (fst (delete_timer st ptr))
      else if my_strnicmp ptr ''A'' 1 = 0 then delete_all_timers st
      else Some st)"

subsection \<open>The queue of timers\<close>

definition due :: "TimerList \<Rightarrow> int" where
  "due t = tv_sec (ttime t) * 1000000 + tv_usec (ttime t)"

definition now_us :: "timeval \<Rightarrow> int" where
  "now_us now = tv_sec now * 1000000 + tv_usec now"

abbreviation timers_sorted :: "timers \<Rightarrow> bool" where
  "timers_sorted st \<equiv> sorted (map due (PendingTimers st))"

lemma time_diff_due: "time_diff (ttime s) (ttime t) = due t - due s"
  by (simp add: time_diff_def due_def algebra_simps)

lemma time_diff_now: "time_diff now (ttime t) = due t - now_us now"
  by (simp add: time_diff_def due_def now_us_def algebra_simps)

text \<open>
  What the code that runs timers relies on: scheduling keeps the queue in the order of the
  due times, adds one timer and goes behind the timers that are due at the same time.
\<close>

locale timer_queue =
  fixes schedule :: "'e \<Rightarrow> 's \<Rightarrow> 's" and queue :: "'s \<Rightarrow> 'e list" and due_time :: "'e \<Rightarrow> int"
  assumes schedule_sorted: "sorted (map due_time (queue s)) \<Longrightarrow> sorted (map due_time (queue (schedule e s)))"
    and schedule_place: "\<exists>us vs. queue s = us @ vs \<and> queue (schedule e s) = us @ e # vs
      \<and> (\<forall>u \<in> set us. due_time u \<le> due_time e) \<and> (vs = [] \<or> due_time e < due_time (hd vs))"
begin

lemma schedule_mset: "mset (queue (schedule e s)) = add_mset e (mset (queue s))"
  using schedule_place [of s e] by auto

lemma all_due_later:
  assumes "sorted (map due_time (queue s))" "queue s = [] \<or> now \<le> due_time (hd (queue s))"
  shows "\<forall>t \<in> set (queue s). now \<le> due_time t"
  using assms by (cases "queue s") auto

lemma schedule_all:
  assumes "sorted (map due_time (queue s))"
  shows "sorted (map due_time (queue (fold schedule es s)))"
    "mset (queue (fold schedule es s)) = mset (queue s) + mset es"
  using assms by (induction es arbitrary: s) (auto simp: schedule_sorted schedule_mset)

lemma first_after_schedule:
  assumes "sorted (map due_time (queue s))" "queue s \<noteq> []" "due_time (hd (queue s)) \<le> due_time e"
  shows "hd (queue (schedule e s)) = hd (queue s)"
proof -
  obtain us vs where uv: "queue s = us @ vs" "queue (schedule e s) = us @ e # vs"
      "vs = [] \<or> due_time e < due_time (hd vs)"
    using schedule_place [of s e] by blast
  then have "us \<noteq> []" using assms(2,3) by (cases us) auto
  then show ?thesis using uv by simp
qed

end

lemma schedule_timer_parts:
  "\<exists>us vs. PendingTimers st = us @ vs \<and> PendingTimers (schedule_timer n st) = us @ n # vs
    \<and> (\<forall>u \<in> set us. due u \<le> due n) \<and> (vs = [] \<or> due n < due (hd vs))"
proof (intro exI conjI)
  let ?P = "\<lambda>t. \<not> time_diff (ttime t) (ttime n) < 0"
  show "PendingTimers st = takeWhile ?P (PendingTimers st) @ dropWhile ?P (PendingTimers st)" by simp
  show "PendingTimers (schedule_timer n st)
      = takeWhile ?P (PendingTimers st) @ n # dropWhile ?P (PendingTimers st)"
    by (simp add: schedule_timer_def)
  show "\<forall>u \<in> set (takeWhile ?P (PendingTimers st)). due u \<le> due n"
    by (auto dest: set_takeWhileD simp: time_diff_due)
  show "dropWhile ?P (PendingTimers st) = [] \<or> due n < due (hd (dropWhile ?P (PendingTimers st)))"
    using hd_dropWhile [of ?P "PendingTimers st"] by (auto simp: time_diff_due)
qed

interpretation pending: timer_queue schedule_timer PendingTimers due
proof
  fix st n
  obtain us vs where uv: "PendingTimers st = us @ vs" "PendingTimers (schedule_timer n st) = us @ n # vs"
      "\<forall>u \<in> set us. due u \<le> due n" "vs = [] \<or> due n < due (hd vs)"
    using schedule_timer_parts by blast
  assume "timers_sorted st"
  moreover have "\<forall>v \<in> set vs. due n \<le> due v" if "sorted (map due vs)"
    using uv(4) that by (cases vs) auto
  ultimately show "timers_sorted (schedule_timer n st)" using uv by (auto simp: sorted_append)
qed (rule schedule_timer_parts)

text \<open>
  Scheduling a timer keeps the pending timers in the order of their due times, adds
  exactly that timer, and puts it behind those that are due at the same moment.
\<close>
theorem schedule_timer_ordered:
  assumes "timers_sorted st"
  shows "timers_sorted (schedule_timer n st)
    \<and> mset (PendingTimers (schedule_timer n st)) = add_mset n (mset (PendingTimers st))
    \<and> (\<exists>us vs. PendingTimers (schedule_timer n st) = us @ n # vs
        \<and> (\<forall>u \<in> set us. due u \<le> due n) \<and> (\<forall>v \<in> set vs. due n < due v))"
proof -
  obtain us vs where uv: "PendingTimers st = us @ vs" "PendingTimers (schedule_timer n st) = us @ n # vs"
      "\<forall>u \<in> set us. due u \<le> due n" "vs = [] \<or> due n < due (hd vs)"
    using schedule_timer_parts by blast
  have "\<forall>v \<in> set vs. due n < due v" using uv(1,4) assms by (cases vs) (auto simp: sorted_append)
  then show ?thesis using uv pending.schedule_sorted [OF assms] pending.schedule_mset by blast
qed

subsection \<open>Running the timers\<close>

definition keeps_order :: "(TimerList \<Rightarrow> timers \<Rightarrow> timers option) \<Rightarrow> bool" where
  "keeps_order exec \<longleftrightarrow> (\<forall>t st st'. exec t st = Some st' \<longrightarrow> timers_sorted st \<longrightarrow> timers_sorted st')"

lemma execute_loop_result:
  assumes "execute_loop st now exec = Some st'" "keeps_order exec" "timers_sorted st"
  shows "timers_sorted st' \<and> (PendingTimers st' = [] \<or> now_us now \<le> due (hd (PendingTimers st')))"
proof -
  have "keeps_order exec \<longrightarrow> timers_sorted st \<longrightarrow> timers_sorted st'
      \<and> (PendingTimers st' = [] \<or> now_us now \<le> due (hd (PendingTimers st')))"
  proof (rule execute_loop.raw_induct [where P = "\<lambda>st now exec st'. keeps_order exec \<longrightarrow>
        timers_sorted st \<longrightarrow> timers_sorted st'
        \<and> (PendingTimers st' = [] \<or> now_us now \<le> due (hd (PendingTimers st')))", OF _ assms(1)])
    fix loop :: "timers \<Rightarrow> timeval \<Rightarrow> (TimerList \<Rightarrow> timers \<Rightarrow> timers option) \<Rightarrow> timers option"
      and st now exec st'
    assume IH: "\<And>st now exec st'. loop st now exec = Some st' \<Longrightarrow> keeps_order exec \<longrightarrow>
        timers_sorted st \<longrightarrow> timers_sorted st'
        \<and> (PendingTimers st' = [] \<or> now_us now \<le> due (hd (PendingTimers st')))"
      and eq: "(case PendingTimers st of
        [] \<Rightarrow> Some st
      | t # ts \<Rightarrow>
          (if time_diff now (ttime t) < 0
           then (case exec t (st\<lparr>PendingTimers := ts, current_exec_timer := Some (ref t)\<rparr>) of
                   None \<Rightarrow> None
                 | Some st1 \<Rightarrow>
                     (if events t = 0 \<or> events t = 1
                      then loop (st1\<lparr>current_exec_timer := None\<rparr>) now exec
                      else if delete_flag t then None
                      else loop
                             (schedule_timer
                               (reschedule (t\<lparr>events := (if events t = -1 then -1 else events t - 1)\<rparr>))
                               (st1\<lparr>current_exec_timer := None\<rparr>)) now exec))
           else Some st)) = Some st'"
    show "keeps_order exec \<longrightarrow> timers_sorted st \<longrightarrow> timers_sorted st'
        \<and> (PendingTimers st' = [] \<or> now_us now \<le> due (hd (PendingTimers st')))"
    proof (intro impI)
      assume ko: "keeps_order exec" and so: "timers_sorted st"
      show "timers_sorted st' \<and> (PendingTimers st' = [] \<or> now_us now \<le> due (hd (PendingTimers st')))"
      proof (cases "PendingTimers st")
        case Nil
        then show ?thesis using eq so by simp
      next
        case (Cons t ts)
        show ?thesis
        proof (cases "time_diff now (ttime t) < 0")
          case False
          then show ?thesis using eq so Cons by (simp add: time_diff_now)
        next
          case True
          then obtain st1 where st1: "exec t (st\<lparr>PendingTimers := ts, current_exec_timer := Some (ref t)\<rparr>) = Some st1"
            using eq Cons by (auto split: option.splits)
          then have so1: "timers_sorted (st1\<lparr>current_exec_timer := None\<rparr>)"
            using ko so Cons unfolding keeps_order_def by fastforce
          show ?thesis
          proof (cases "events t = 0 \<or> events t = 1")
            case e: True
            then show ?thesis using eq Cons True st1 IH ko so1 by simp
          next
            case e: False
            define n where "n = reschedule (t\<lparr>events := (if events t = -1 then -1 else events t - 1)\<rparr>)"
            have "loop (schedule_timer n (st1\<lparr>current_exec_timer := None\<rparr>)) now exec = Some st'"
              using eq Cons True st1 e by (simp add: n_def split: if_splits)
            then show ?thesis using IH ko pending.schedule_sorted [OF so1] by blast
          qed
        qed
      qed
    qed
  qed
  then show ?thesis using assms by blast
qed

text \<open>
  C37: when \<open>ExecuteTimers\<close> has run, whatever the timers did to the list as long as they kept
  its order, no pending timer is due and the list is in order; the guard against recursion
  is down again.
\<close>
theorem ExecuteTimers_none_due:
  assumes "ExecuteTimers False now exec st = Some st'" "keeps_order exec" "timers_sorted st"
    "\<not> parsingtimer st"
  shows "timers_sorted st' \<and> (\<forall>t \<in> set (PendingTimers st'). now_us now \<le> due t) \<and> \<not> parsingtimer st'"
proof (cases "PendingTimers st = []")
  case True
  then show ?thesis using assms by (simp add: ExecuteTimers_def)
next
  case False
  then obtain st1 where st1: "execute_loop (st\<lparr>parsingtimer := True\<rparr>) now exec = Some st1"
      "st' = st1\<lparr>parsingtimer := False\<rparr>"
    using assms(1,4) by (auto simp: ExecuteTimers_def)
  have "timers_sorted (st\<lparr>parsingtimer := True\<rparr>)" using assms(3) by simp
  from execute_loop_result [OF st1(1) assms(2) this]
  have "timers_sorted st1" "PendingTimers st1 = [] \<or> now_us now \<le> due (hd (PendingTimers st1))" by auto
  then show ?thesis using pending.all_due_later [of st1 "now_us now"] st1(2) by simp
qed

text \<open>With timers that leave the list alone and end, the loop ends: each run uses up an event.\<close>

definition events_left :: "TimerList list \<Rightarrow> nat" where
  "events_left ts = sum_list (map (\<lambda>t. nat (max 1 (events t))) ts)"

lemma events_left_schedule:
  "events_left (PendingTimers (schedule_timer n st)) = nat (max 1 (events n)) + events_left (PendingTimers st)"
proof -
  obtain us vs where "PendingTimers st = us @ vs" "PendingTimers (schedule_timer n st) = us @ n # vs"
    using schedule_timer_parts by blast
  then show ?thesis by (simp add: events_left_def)
qed

lemma execute_loop_terminates:
  assumes "\<And>t st. \<exists>st'. exec t st = Some st' \<and> PendingTimers st' = PendingTimers st"
    "\<forall>t \<in> set (PendingTimers st). 0 \<le> events t \<and> \<not> delete_flag t"
  shows "\<exists>st'. execute_loop st now exec = Some st'"
  using assms(2)
proof (induction "events_left (PendingTimers st)" arbitrary: st rule: less_induct)
  case less
  show ?case
  proof (cases "PendingTimers st")
    case Nil
    then show ?thesis by (subst execute_loop.simps) simp
  next
    case (Cons t ts)
    show ?thesis
    proof (cases "time_diff now (ttime t) < 0")
      case False
      then show ?thesis using Cons by (subst execute_loop.simps) simp
    next
      case True
      obtain st1 where st1: "exec t (st\<lparr>PendingTimers := ts, current_exec_timer := Some (ref t)\<rparr>) = Some st1"
          "PendingTimers st1 = ts"
        using assms(1) [of t "st\<lparr>PendingTimers := ts, current_exec_timer := Some (ref t)\<rparr>"] by auto
      have t: "0 \<le> events t" "\<not> delete_flag t" using less.prems Cons by auto
      show ?thesis
      proof (cases "events t = 0 \<or> events t = 1")
        case e: True
        have "\<exists>st'. execute_loop (st1\<lparr>current_exec_timer := None\<rparr>) now exec = Some st'"
          using less.prems Cons st1 t by (intro less.hyps) (auto simp: events_left_def)
        then show ?thesis using Cons True st1 e by (subst execute_loop.simps) simp
      next
        case e: False
        define n where "n = reschedule (t\<lparr>events := events t - 1\<rparr>)"
        have n: "events n = events t - 1" "\<not> delete_flag n" using t by (simp_all add: n_def reschedule_def Let_def)
        define st2 where "st2 = schedule_timer n (st1\<lparr>current_exec_timer := None\<rparr>)"
        have ms: "set (PendingTimers st2) = insert n (set ts)"
          using pending.schedule_mset [of n "st1\<lparr>current_exec_timer := None\<rparr>"] st1(2)
          by (metis st2_def set_mset_add_mset_insert set_mset_mset timers.select_convs(1) timers.surjective timers.update_convs(2))
        have "\<exists>st'. execute_loop st2 now exec = Some st'"
        proof (rule less.hyps)
          show "events_left (PendingTimers st2) < events_left (PendingTimers st)"
            unfolding st2_def using n t e Cons st1(2) by (simp add: events_left_schedule) (simp add: events_left_def)
          show "\<forall>t \<in> set (PendingTimers st2). 0 \<le> events t \<and> \<not> delete_flag t"
            using ms n t e less.prems Cons by auto
        qed
        moreover have "execute_loop st now exec = execute_loop st2 now exec"
          using Cons True st1 e t by (subst execute_loop.simps) (simp add: st2_def n_def)
        ultimately show ?thesis by simp
      qed
    qed
  qed
qed

text \<open>
  if no pending timer repeats for ever and the timers' commands return without touching
  the list, \<open>ExecuteTimers\<close> returns.
\<close>
theorem ExecuteTimers_terminates:
  assumes "\<And>t st. \<exists>st'. exec t st = Some st' \<and> PendingTimers st' = PendingTimers st"
    "\<forall>t \<in> set (PendingTimers st). 0 \<le> events t \<and> \<not> delete_flag t"
  shows "\<exists>st'. ExecuteTimers waiting now exec st = Some st'"
  using execute_loop_terminates [OF assms(1), of "st\<lparr>parsingtimer := True\<rparr>"] assms(2)
  by (auto simp: ExecuteTimers_def)

subsection \<open>Reference names\<close>

lemma my_atol_printed: "0 \<le> n \<Longrightarrow> n \<le> LONG_MAX \<Longrightarrow> my_atol (Some (ltoa n)) = n"
  using strtol10_ltoa [of n "[]"] by (simp add: my_atol_def is_digit_def)

lemma length_ltoa_digits: "n < 10 ^ k \<Longrightarrow> 0 < k \<Longrightarrow> length (ltoa_digits n []) \<le> k"
proof (induction k arbitrary: n)
  case (Suc k)
  show ?case
  proof (cases "9 < n")
    case True
    then have "0 < k" using Suc.prems by (cases k) auto
    moreover have "n div 10 < 10 ^ k" using Suc.prems(1) by (simp add: less_mult_imp_div_less mult.commute)
    ultimately have "length (ltoa_digits (n div 10) []) \<le> k" using Suc.IH by simp
    then show ?thesis using True by (subst ltoa_digits_rec) simp
  next
    case False
    then show ?thesis by (subst ltoa_digits.simps) simp
  qed
qed simp

lemma highest_ref_bounds:
  assumes "\<forall>t \<in> set ts. my_atol (Some (ref t)) < b" "b \<le> 2147483648" "0 \<le> n" "n < b"
  shows "n \<le> highest_ref n ts \<and> highest_ref n ts < b
    \<and> (\<forall>t \<in> set ts. my_atol (Some (ref t)) \<le> highest_ref n ts)"
  using assms
proof (induction ts arbitrary: n)
  case (Cons t ts)
  define r where "r = my_atol (Some (ref t))"
  define n' where "n' = (if n < r then r else n)"
  have "n < r \<Longrightarrow> to_int32 r = r" using Cons.prems by (simp add: to_int32_def r_def)
  then have e: "highest_ref n (t # ts) = highest_ref n' ts" by (simp add: n'_def r_def Let_def)
  have n': "n \<le> n'" "r \<le> n'" "n' < b" using Cons.prems by (auto simp: n'_def r_def)
  then have "n' \<le> highest_ref n' ts \<and> highest_ref n' ts < b
      \<and> (\<forall>t \<in> set ts. my_atol (Some (ref t)) \<le> highest_ref n' ts)"
    using Cons.prems by (intro Cons.IH) auto
  then show ?case using n' unfolding e r_def by auto
qed simp

lemma create_timer_ref_unused:
  assumes "\<forall>t \<in> set (PendingTimers st). my_atol (Some (ref t)) < 2147483646"
  shows "\<exists>r. create_timer_ref st [] = Some r \<and> (\<forall>t \<in> set (PendingTimers st). ref t \<noteq> r)"
proof -
  define m where "m = highest_ref 0 (PendingTimers st)"
  have m: "0 \<le> m" "\<forall>t \<in> set (PendingTimers st). my_atol (Some (ref t)) \<le> m" "m < 2147483646"
    using highest_ref_bounds [OF assms, of 0] by (simp_all add: m_def)
  then have ti: "to_int32 (m + 1) = m + 1" by (simp add: to_int32_def)
  define r where "r = strmcpy (ltoa (m + 1)) REFNUM_MAX"
  have r: "my_atol (Some (ltoa (m + 1))) = m + 1"
    using m by (intro my_atol_printed) auto
  have "length (ltoa_digits (nat (m + 1)) []) \<le> 10" using m(3) by (intro length_ltoa_digits) auto
  then have len: "length (ltoa (m + 1)) \<le> REFNUM_MAX" using m(1) by (simp add: ltoa_def Let_def)
  then have "r = ltoa (m + 1)" by (simp add: r_def strmcpy_def strlcpy_def)
  then have "ref t \<noteq> r" if "t \<in> set (PendingTimers st)" for t
    using m(2) that r by fastforce
  moreover have "create_timer_ref st [] = Some r"
    by (simp add: create_timer_ref_def m_def [symmetric] ti r_def)
  ultimately show ?thesis by blast
qed

subsection \<open>Adding and removing timers\<close>

lemma remove_ref_subseq: "remove_ref r ts = Some us \<Longrightarrow> subseq us ts"
  by (induction ts arbitrary: us) (auto split: if_splits)

lemma set_subseq: "subseq us ts \<Longrightarrow> set us \<subseteq> set ts"
  by (induction rule: list_emb.induct) auto

lemma subseq_sorted: "subseq us ts \<Longrightarrow> sorted (map due ts) \<Longrightarrow> sorted (map due us)"
proof (induction rule: list_emb.induct)
  case (list_emb_Cons xs ys y)
  then show ?case by simp
next
  case (list_emb_Cons2 x y xs ys)
  then have "set xs \<subseteq> set ys" using set_subseq by blast
  then show ?case using list_emb_Cons2 by auto
qed simp

lemma subseq_names: "subseq us ts \<Longrightarrow> distinct (map ref ts) \<Longrightarrow> distinct (map ref us)"
proof (induction rule: list_emb.induct)
  case (list_emb_Cons2 x y xs ys)
  then have "set xs \<subseteq> set ys" using set_subseq by blast
  then show ?case using list_emb_Cons2 by auto
qed simp_all

definition names_ok :: "timers \<Rightarrow> bool" where
  "names_ok st \<longleftrightarrow> timers_sorted st \<and> distinct (map ref (PendingTimers st))
     \<and> (\<forall>t \<in> set (PendingTimers st). my_atol (Some (ref t)) < 2147483646)"

lemma names_ok_subseq:
  "subseq us (PendingTimers st) \<Longrightarrow> names_ok st \<Longrightarrow> names_ok (st\<lparr>PendingTimers := us\<rparr>)"
  unfolding names_ok_def by (auto intro: subseq_sorted subseq_names dest: set_subseq)

lemma delete_timer_subseq:
  obtains us where "fst (delete_timer st r) = st\<lparr>PendingTimers := us\<rparr>" "subseq us (PendingTimers st)"
proof (cases "fst (delete_timer st r) = st")
  case True
  then show ?thesis using that [of "PendingTimers st"] by simp
next
  case False
  then obtain us where "remove_ref r (PendingTimers st) = Some us" "fst (delete_timer st r) = st\<lparr>PendingTimers := us\<rparr>"
    by (auto simp: delete_timer_def split: if_splits option.splits)
  then show ?thesis using that remove_ref_subseq by blast
qed

lemma create_timer_ref_new:
  assumes "names_ok st" "create_timer_ref st want = Some r"
  shows "r \<notin> ref ` set (PendingTimers st)"
proof (cases "take REFNUM_MAX want = []")
  case True
  then have "create_timer_ref st [] = Some r" using assms(2) by (simp add: create_timer_ref_def)
  then show ?thesis using create_timer_ref_unused [of st] assms(1) by (auto simp: names_ok_def)
next
  case False
  then have "\<forall>t \<in> set (PendingTimers st). my_stricmp (ref t) (take REFNUM_MAX want) \<noteq> 0"
      "r = strmcpy (take REFNUM_MAX want) REFNUM_MAX"
    using assms(2) by (auto simp: create_timer_ref_def Let_def split: if_splits)
  moreover have "strmcpy (take REFNUM_MAX want) REFNUM_MAX = take REFNUM_MAX want"
    by (simp add: strmcpy_def strlcpy_def)
  ultimately show ?thesis by fastforce
qed

lemma schedule_timer_names:
  assumes "names_ok st" "ref n \<notin> ref ` set (PendingTimers st)" "my_atol (Some (ref n)) < 2147483646"
  shows "names_ok (schedule_timer n st)"
proof -
  obtain us vs where "PendingTimers st = us @ vs" "PendingTimers (schedule_timer n st) = us @ n # vs"
    using schedule_timer_parts by blast
  then show ?thesis
    using assms pending.schedule_sorted [of st n] by (auto simp: names_ok_def)
qed

text \<open>
  adding a timer, a new one or in place of an old one, keeps the pending timers in the
  order of their due times and their names distinct; a timer that is added is in the list
  under the name that is returned.
\<close>
theorem add_timer_keeps_names:
  assumes "names_ok st" "\<And>r. snd (add_timer now srv adr rq st) = Some r \<Longrightarrow> my_atol (Some r) < 2147483646"
  shows "names_ok (fst (add_timer now srv adr rq st))
    \<and> (\<forall>r. snd (add_timer now srv adr rq st) = Some r \<longrightarrow>
         (\<exists>t \<in> set (PendingTimers (fst (add_timer now srv adr rq st))). ref t = r))"
proof -
  obtain n1 st1 where S: "names_ok st1"
      "add_timer now srv adr rq st =
         (case create_timer_ref st1 (refnum_want rq) of
            None \<Rightarrow> (st1, None)
          | Some r \<Rightarrow> (schedule_timer (n1\<lparr>ref := r\<rparr>) st1, Some r))"
  proof (cases "if update rq then get_timer st (refnum_want rq) else None")
    case None
    show ?thesis
      by (rule that [OF assms(1)]) (unfold add_timer_def Let_def None option.case prod.case, rule refl)
  next
    case (Some t)
    obtain us where "fst (delete_timer st (refnum_want rq)) = st\<lparr>PendingTimers := us\<rparr>" "subseq us (PendingTimers st)"
      using delete_timer_subseq by blast
    then have "names_ok (fst (delete_timer st (refnum_want rq)))"
      using names_ok_subseq assms(1) by simp
    then show ?thesis
      by (rule that) (unfold add_timer_def Let_def Some option.case prod.case, rule refl)
  qed
  show ?thesis
  proof (cases "create_timer_ref st1 (refnum_want rq)")
    case (Some r)
    then have R: "add_timer now srv adr rq st = (schedule_timer (n1\<lparr>ref := r\<rparr>) st1, Some r)" using S(2) by simp
    obtain us vs where "PendingTimers (schedule_timer (n1\<lparr>ref := r\<rparr>) st1) = us @ n1\<lparr>ref := r\<rparr> # vs"
      using schedule_timer_parts by blast
    then show ?thesis
      using R schedule_timer_names [OF S(1), of "n1\<lparr>ref := r\<rparr>"] create_timer_ref_new [OF S(1) Some] assms(2)
      by simp
  qed (use S in simp)
qed

lemma delete_first: "PendingTimers st = t # ts \<Longrightarrow> current_exec_timer st = None \<Longrightarrow>
    fst (delete_timer st (ref t)) = st\<lparr>PendingTimers := ts\<rparr>"
  by (simp add: delete_timer_def)

lemma delete_all_outside:
  "current_exec_timer st = None \<Longrightarrow> delete_all_timers st = Some (st\<lparr>PendingTimers := []\<rparr>)"
proof (induction "PendingTimers st" arbitrary: st)
  case Nil
  then show ?case by (subst delete_all_timers.simps) (simp flip: Nil.hyps)
next
  case (Cons t ts)
  have "fst (delete_timer st (ref t)) = st\<lparr>PendingTimers := ts\<rparr>"
    using delete_first [of st t ts] Cons by simp
  then show ?case
    using Cons.hyps(1) [of "st\<lparr>PendingTimers := ts\<rparr>"] Cons.prems
    by (subst delete_all_timers.simps) (simp flip: Cons.hyps(2))
qed

lemma delete_all_inside:
  "delete_all_timers st = Some st' \<Longrightarrow> PendingTimers st = [] \<or> current_exec_timer st = None"
proof (rule delete_all_timers.raw_induct [where P = "\<lambda>st _. PendingTimers st = [] \<or> current_exec_timer st = None"])
  fix f st st'
  assume ih: "\<And>st st'. f st = Some st' \<Longrightarrow> PendingTimers st = [] \<or> current_exec_timer st = None"
    and eq: "(case PendingTimers st of [] \<Rightarrow> Some st | t # _ \<Rightarrow> f (fst (delete_timer st (ref t)))) = Some st'"
  show "PendingTimers st = [] \<or> current_exec_timer st = None"
  proof (cases "PendingTimers st")
    case (Cons t ts)
    have "fst (delete_timer st (ref t)) = st" if "current_exec_timer st \<noteq> None"
      using that by (auto simp: delete_timer_def)
    then show ?thesis using ih eq Cons by fastforce
  qed simp
qed

text \<open>
  \<open>/TIMER -DELETE ALL\<close> empties the list of timers; run from a timer, while others are
  pending, it never returns (\<open>delete_timer\<close> refuses and the loop goes on).
\<close>
theorem delete_all_timers_result:
  "delete_all_timers st =
     (if PendingTimers st \<noteq> [] \<and> current_exec_timer st \<noteq> None then None
      else Some (st\<lparr>PendingTimers := []\<rparr>))"
proof (cases "PendingTimers st \<noteq> [] \<and> current_exec_timer st \<noteq> None")
  case True
  then show ?thesis using delete_all_inside [of st] by (cases "delete_all_timers st") auto
next
  case False
  show ?thesis
  proof (cases "current_exec_timer st")
    case None
    then show ?thesis by (simp add: delete_all_outside)
  next
    case (Some r)
    then have "PendingTimers st = []" using False by simp
    then show ?thesis by (subst delete_all_timers.simps) simp
  qed
qed

subsection \<open>Witnesses\<close>

definition example_timer :: "cstr \<Rightarrow> int \<Rightarrow> int \<Rightarrow> TimerList" where
  "example_timer r s n =
     \<lparr>ref = r, ttime = \<lparr>tv_sec = s, tv_usec = 0\<rparr>, interval = 1000, events = n, callback = None,
      command = ''echo'', subargs = None, whom = None, tserver = 0, twindow = 0, delete_flag = False,
      taddress = 4096\<rparr>"

definition example_timers :: timers where
  "example_timers =
     \<lparr>PendingTimers = [example_timer ''1'' 10 2, example_timer ''2'' 20 1],
      current_exec_timer = None, parsingtimer = False\<rparr>"

lemmas example_timer_defs = example_timer_def example_timers_def due_def

theorem schedule_timer_ordered_witness:
  "timers_sorted (schedule_timer (example_timer ''3'' 15 1) example_timers)
   \<and> map ref (PendingTimers (schedule_timer (example_timer ''3'' 15 1) example_timers)) = [''1'', ''3'', ''2'']"
proof -
  have "timers_sorted example_timers" by (simp add: example_timer_defs)
  moreover have "map ref (PendingTimers (schedule_timer (example_timer ''3'' 15 1) example_timers))
      = [''1'', ''3'', ''2'']"
    by (simp add: schedule_timer_def time_diff_def example_timer_defs)
  ultimately show ?thesis
    using schedule_timer_ordered [of example_timers "example_timer ''3'' 15 1"] by blast
qed

lemma example_run:
  "map_option (\<lambda>st. map ref (PendingTimers st))
     (ExecuteTimers False \<lparr>tv_sec = 12, tv_usec = 0\<rparr> (\<lambda>_. Some) example_timers) = Some [''2'']"
  unfolding ExecuteTimers_def example_timers_def example_timer_def
  apply simp
  apply (subst execute_loop.simps, simp add: time_diff_def schedule_timer_def reschedule_def Let_def)
  apply (subst execute_loop.simps, simp add: time_diff_def schedule_timer_def reschedule_def Let_def)
  apply (subst execute_loop.simps, simp add: time_diff_def)
  done

theorem ExecuteTimers_none_due_witness:
  "\<exists>st'. ExecuteTimers False \<lparr>tv_sec = 12, tv_usec = 0\<rparr> (\<lambda>_. Some) example_timers = Some st'
     \<and> map ref (PendingTimers st') = [''2''] \<and> (\<forall>t \<in> set (PendingTimers st'). 12000000 \<le> due t)"
proof -
  obtain st' where st': "ExecuteTimers False \<lparr>tv_sec = 12, tv_usec = 0\<rparr> (\<lambda>_. Some) example_timers = Some st'"
      "map ref (PendingTimers st') = [''2'']"
    using example_run by auto
  have "keeps_order (\<lambda>_. Some)" "timers_sorted example_timers" "\<not> parsingtimer example_timers"
    by (simp_all add: keeps_order_def example_timer_defs)
  from ExecuteTimers_none_due [OF st'(1) this] show ?thesis using st' by (simp add: now_us_def)
qed

theorem ExecuteTimers_terminates_witness:
  "\<exists>st'. ExecuteTimers False \<lparr>tv_sec = 99, tv_usec = 0\<rparr> (\<lambda>_. Some) example_timers = Some st'"
  by (rule ExecuteTimers_terminates) (auto simp: example_timer_def example_timers_def)

definition example_request :: timer_request where
  "example_request =
     \<lparr>update = False, refnum_want = [], wait_ms = 5000, revents = 1, rcallback = None, what = ''echo hi'',
      rsubargs = None, winref = 0, rwhom = None\<rparr>"

lemma example_numbers:
  "my_atol (Some ''1'') = 1" "my_atol (Some ''2'') = 2" "my_atol (Some ''3'') = 3" "ltoa 3 = ''3''"
proof -
  have "digit_char 3 = CHR ''3''" by code_simp
  then show "ltoa 3 = ''3''" by (simp add: ltoa_def ltoa_digits.simps [of 3])
qed (simp_all add: my_atol_def strtol10_def is_digit_def my_isspace_def)

lemma example_added:
  "snd (add_timer \<lparr>tv_sec = 12, tv_usec = 0\<rparr> 0 8192 example_request example_timers) = Some ''3''"
  by (simp add: add_timer_def example_request_def create_timer_ref_def example_timers_def example_timer_def
      example_numbers to_int32_def strmcpy_def strlcpy_def Let_def)

theorem add_timer_keeps_names_witness:
  "names_ok (fst (add_timer \<lparr>tv_sec = 12, tv_usec = 0\<rparr> 0 8192 example_request example_timers))
   \<and> snd (add_timer \<lparr>tv_sec = 12, tv_usec = 0\<rparr> 0 8192 example_request example_timers) = Some ''3''"
proof -
  have "names_ok example_timers" by (simp add: names_ok_def example_timer_defs example_numbers)
  from add_timer_keeps_names [OF this, of "\<lparr>tv_sec = 12, tv_usec = 0\<rparr>" 0 8192 example_request]
  show ?thesis by (simp add: example_added example_numbers)
qed

end
