(* ===== verification/HashArray.thy ===== *)
theory HashArray
  imports CString "HOL-Library.Word"
begin

section \<open>Hashed arrays (source/alist.c)\<close>

text \<open>
  An \<open>Array\<close> is a resizeable block of pointers to named items, in the order of their names;
  a hash of the first four characters speeds up the search, which finds the items that a
  given text is a prefix of. The block is the list \<open>slots\<close>, as long as \<open>total_max\<close>; a slot is
  \<open>None\<close> when it holds \<open>NULL\<close> or nothing was stored there yet. The result of an operation is
  \<open>None\<close> when the code reads or writes outside the block, follows such a pointer, or uses a
  value that was not set.
\<close>

unbundle bit_operations_syntax

record Array_item =
  iname :: cstr
  ihash :: "32 word"
  iaddr :: nat  \<comment> \<open>which structure it is\<close>

datatype hash_type = HASH_INSENSITIVE | HASH_SENSITIVE

record Array =
  slots :: "Array_item option list"
  amax :: nat
  func :: "cstr \<Rightarrow> cstr \<Rightarrow> nat \<Rightarrow> int"
  hash :: hash_type

abbreviation total_max :: "Array \<Rightarrow> nat" where "total_max a \<equiv> length (slots a)"

text \<open>\<open>strncmp\<close> of the C library.\<close>

fun strncmp :: "cstr \<Rightarrow> cstr \<Rightarrow> nat \<Rightarrow> int" where
  "strncmp s t 0 = 0"
| "strncmp (a # s) (b # t) (Suc n) =
     (if a = b then strncmp s t n else int (ord a) - int (ord b))"
| "strncmp s t (Suc n) = int (ord (cat s 0)) - int (ord (cat t 0))"

subsection \<open>The hash\<close>

text \<open>
  A character is signed: \<open>s[0] << 24\<close> extends its sign, and \<open>stricmp_table[(int)s[0]]\<close> is
  outside the table for a negative one.
\<close>

fun hash_char :: "hash_type \<Rightarrow> char \<Rightarrow> 32 word option" where
  "hash_char HASH_SENSITIVE c = Some (word_of_int (schar c))"
| "hash_char HASH_INSENSITIVE c = (if schar c < 0 then None else Some (word_of_nat (foldc c)))"

text \<open>
  \<open>cs_alist_hash\<close> and \<open>ci_alist_hash\<close>: the hash and the mask. For the empty name the mask
  is not set.
\<close>

fun alist_hash :: "hash_type \<Rightarrow> cstr \<Rightarrow> (32 word \<times> 32 word option) option" where
  "alist_hash h [] = Some (0, None)"
| "alist_hash h [a] =
     (case hash_char h a of None \<Rightarrow> None | Some x \<Rightarrow> Some (push_bit 24 x, Some 0xFF000000))"
| "alist_hash h [a, b] =
     (case (hash_char h a, hash_char h b) of
        (Some x, Some y) \<Rightarrow> Some (push_bit 24 x OR push_bit 16 y, Some 0xFFFF0000)
      | _ \<Rightarrow> None)"
| "alist_hash h (a # b # c # s) =
     (case (hash_char h a, hash_char h b, hash_char h c, hash_char h (cat s 0)) of
        (Some x, Some y, Some z, Some w) \<Rightarrow>
          Some (push_bit 24 x OR push_bit 16 y OR push_bit 8 z OR w,
                Some (0xFFFFFF00 OR (if cat s 0 \<noteq> NUL then 0xFF else 0x00)))
      | _ \<Rightarrow> None)"

subsection \<open>Searching\<close>

definition entry :: "Array \<Rightarrow> int \<Rightarrow> Array_item option" where
  "entry a i = (if 0 \<le> i \<and> nat i < total_max a then slots a ! nat i else None)"

text \<open>
  The binary search, with what it compares at a position as the parameter \<open>cmp\<close>: the sign of
  the last comparison and the last position.
\<close>

function bin_loop :: "(int \<Rightarrow> int option) \<Rightarrow> int \<Rightarrow> int \<Rightarrow> int \<Rightarrow> int \<Rightarrow> (int \<times> int) option" where
  "bin_loop cmp c p lo hi =
     (if hi < lo then Some (c, p)
      else let p' = (hi - lo) div 2 + lo
           in case cmp p' of
                None \<Rightarrow> None
              | Some c' \<Rightarrow>
                  if c' = 0 then Some (0, p')
                  else if c' < 0 then bin_loop cmp c' p' lo (p' - 1)
                  else bin_loop cmp c' p' (p' + 1) hi)"
  by pat_completeness auto
termination by (relation "measure (\<lambda>(_, _, _, lo, hi). nat (hi - lo + 1))") auto

declare bin_loop.simps [simp del]

text \<open>\<open>while (min > 0 && P(min)) min--\<close> and \<open>while (max < bound && P(max)) max++\<close>\<close>

fun run_down :: "(nat \<Rightarrow> bool option) \<Rightarrow> nat \<Rightarrow> nat option" where
  "run_down P 0 = Some 0"
| "run_down P (Suc n) =
     (case P (Suc n) of None \<Rightarrow> None | Some b \<Rightarrow> if b then run_down P n else Some (Suc n))"

function run_up :: "(nat \<Rightarrow> bool option) \<Rightarrow> nat \<Rightarrow> nat \<Rightarrow> nat option" where
  "run_up P bound n =
     (if n < bound
      then case P n of None \<Rightarrow> None | Some b \<Rightarrow> if b then run_up P bound (Suc n) else Some n
      else Some n)"
  by pat_completeness auto
termination by (relation "measure (\<lambda>(_, b, n). b - n)") auto

declare run_up.simps [simp del]

definition place :: "int \<Rightarrow> int \<Rightarrow> nat" where
  "place c p = nat (if 0 < c then p + 1 else p)"

text \<open>The part of \<open>find_array_item\<close> after the search by hash has stopped at \<open>p\<close>.\<close>

definition find_by_name ::
  "Array \<Rightarrow> cstr \<Rightarrow> (nat \<Rightarrow> bool option) \<Rightarrow> nat \<Rightarrow> (Array_item option \<times> int \<times> nat) option" where
  "find_by_name a nm same_hash p =
     (let len = length nm;
          cmp = (\<lambda>i. map_option (\<lambda>e. func a nm (iname e) len) (entry a i));
          hit = (\<lambda>i. map_option (\<lambda>c. c = 0) (cmp (int i)))
      in case (run_down same_hash p, run_up same_hash (amax a - 1) p) of
           (Some lo, Some hi) \<Rightarrow>
             (case bin_loop cmp 0 (int p) (int lo) (int hi) of
                None \<Rightarrow> None
              | Some (c, q) \<Rightarrow>
                  if c \<noteq> 0 then Some (None, 0, place c q)
                  else (case (run_down (\<lambda>i. hit (i - 1)) (nat q), run_up hit (amax a) (Suc (nat q))) of
                          (Some first, Some behind) \<Rightarrow>
                            (case entry a (int first) of
                               None \<Rightarrow> None
                             | Some e \<Rightarrow>
                                 let cnt = int (behind - first)
                                 in Some (Some e, if length (iname e) = len then - cnt else cnt, first))
                        | _ \<Rightarrow> None))
         | _ \<Rightarrow> None)"

definition find_array_item :: "Array \<Rightarrow> cstr \<Rightarrow> (Array_item option \<times> int \<times> nat) option" where
  "find_array_item a nm =
     (case alist_hash (hash a) nm of
        None \<Rightarrow> None
      | Some (hsh, given) \<Rightarrow>
          if total_max a = 0 \<or> amax a = 0 then Some (None, 0, 0)
          else case given of
            None \<Rightarrow> None
          | Some m \<Rightarrow>
              let cmp = (\<lambda>i. map_option (\<lambda>e. sint ((hsh AND m) - (ihash e AND m))) (entry a i))
              in case bin_loop cmp 0 0 0 (int (amax a) - 1) of
                   None \<Rightarrow> None
                 | Some (c, p) \<Rightarrow>
                     if c \<noteq> 0 then Some (None, 0, place c p)
                     else find_by_name a nm (\<lambda>i. map_option (\<lambda>c. c = 0) (cmp (int i))) (nat p))"

subsection \<open>Changing an array\<close>

definition n_realloc :: "nat \<Rightarrow> Array_item option list \<Rightarrow> Array_item option list" where
  "n_realloc n s = take n s @ replicate (n - length s) None"

definition check_array_size :: "Array \<Rightarrow> Array" where
  "check_array_size a =
     (let t = total_max a;
          t' = (if t = 0 then 6
                else if amax a = t - 1 then t * 2
                else if amax a * 3 < t then t div 2
                else t)
      in a\<lparr>slots := n_realloc t' (slots a)\<rparr>)"

fun copy_items :: "nat list \<Rightarrow> int \<Rightarrow> Array_item option list \<Rightarrow> Array_item option list option" where
  "copy_items [] dir s = Some s"
| "copy_items (i # is) dir s =
     (let j = int i + dir
      in if i < length s \<and> 0 \<le> j \<and> nat j < length s
         then copy_items is dir (s[nat j := s ! i]) else None)"

text \<open>
  The clearing loop of the second branch starts behind its end and does nothing. With
  \<open>dir < 0\<close> the slot \<open>end\<close> is read, one behind the last item.
\<close>

definition move_array_items :: "Array \<Rightarrow> nat \<Rightarrow> nat \<Rightarrow> int \<Rightarrow> Array option" where
  "move_array_items a start end' dir =
     (if 0 < dir
      then map_option (\<lambda>s. a\<lparr>slots := fold (\<lambda>i s. s[start + i := None]) (rev [0..<nat dir]) s\<rparr>)
             (copy_items (rev [start..<Suc end']) dir (slots a))
      else if dir < 0
      then map_option (\<lambda>s. a\<lparr>slots := s\<rparr>) (copy_items [start..<Suc end'] dir (slots a))
      else Some a)"

definition store_item :: "Array \<Rightarrow> nat \<Rightarrow> Array_item \<Rightarrow> Array option" where
  "store_item a i item =
     (if i < total_max a then Some (a\<lparr>slots := (slots a)[i := Some item], amax := amax a + 1\<rparr>) else None)"

definition add_to_array :: "Array \<Rightarrow> Array_item \<Rightarrow> (Array \<times> Array_item option) option" where
  "add_to_array a item =
     (case alist_hash (hash a) (iname item) of
        None \<Rightarrow> None
      | Some (hsh, _) \<Rightarrow>
          let item = item\<lparr>ihash := hsh\<rparr>;
              a = check_array_size a
          in if amax a = 0 then map_option (\<lambda>a. (a, None)) (store_item a 0 item)
             else case find_array_item a (iname item) of
               None \<Rightarrow> None
             | Some (_, cnt, location) \<Rightarrow>
                 if cnt < 0
                 then map_option (\<lambda>a'. (a', entry a (int location)))
                        (store_item (a\<lparr>amax := amax a - 1\<rparr>) location item)
                 else (case move_array_items a location (amax a) 1 of
                         None \<Rightarrow> None
                       | Some a \<Rightarrow> map_option (\<lambda>a. (a, None)) (store_item a location item)))"

definition array_pop :: "Array \<Rightarrow> int \<Rightarrow> (Array \<times> Array_item option) option" where
  "array_pop a which =
     (if which < 0 \<or> int (amax a) \<le> which then Some (a, None)
      else map_option (\<lambda>a'. (a'\<lparr>amax := amax a - 1\<rparr>, entry a which))
             (move_array_items a (nat which + 1) (amax a) (- 1)))"

definition remove_from_array :: "Array \<Rightarrow> cstr \<Rightarrow> (Array \<times> Array_item option) option" where
  "remove_from_array a nm =
     (if amax a = 0 then Some (a, None)
      else case find_array_item a nm of
        None \<Rightarrow> None
      | Some (_, cnt, location) \<Rightarrow>
          if 0 \<le> cnt then Some (a, None) else array_pop a (int location))"

definition remove_all_from_array :: "Array \<Rightarrow> cstr \<Rightarrow> (Array \<times> Array_item option) option" where
  "remove_all_from_array a nm =
     (if amax a = 0 then Some (a, None)
      else case find_array_item a nm of
        None \<Rightarrow> None
      | Some (_, cnt, location) \<Rightarrow>
          if cnt = 0 then Some (a, None)
          else map_option (\<lambda>a'. (a'\<lparr>amax := amax a - 1\<rparr>, entry a (int location)))
                 (move_array_items a (location + 1) (amax a) (- 1)))"

definition array_lookup :: "Array \<Rightarrow> cstr \<Rightarrow> bool \<Rightarrow> bool \<Rightarrow> (Array \<times> Array_item option) option" where
  "array_lookup a nm wild delete =
     (if delete then remove_from_array a nm
      else map_option (\<lambda>(r, _). (a, r)) (find_array_item a nm))"

subsection \<open>The hash orders names like the names themselves\<close>

definition plain_char :: "char \<Rightarrow> bool" where
  "plain_char c \<longleftrightarrow> 0 < (ord c :: nat) \<and> (ord c :: nat) < 128 \<and> \<not> (97 \<le> (ord c :: nat) \<and> (ord c :: nat) \<le> 125)"

definition canonical :: "cstr \<Rightarrow> bool" where
  "canonical s \<longleftrightarrow> s \<noteq> [] \<and> (\<forall>c \<in> set s. plain_char c)"

lemma canonical_no_nul: "canonical s \<Longrightarrow> no_nul s"
  by (auto simp: canonical_def plain_char_def)

lemma hash_char_plain: "plain_char c \<or> c = NUL \<Longrightarrow> hash_char h c = Some (word_of_nat (ord c))"
  by (cases h) (auto simp: schar_def plain_char_def foldc_eq)

fun pack :: "nat \<Rightarrow> nat list \<Rightarrow> nat" where
  "pack 0 ks = 0"
| "pack (Suc n) [] = 0"
| "pack (Suc n) (k # ks) = k * 256 ^ n + pack n ks"

lemma pack_less_exp: "\<forall>k \<in> set ks. k < 256 \<Longrightarrow> pack n ks < 256 ^ n"
proof (induction n ks rule: pack.induct)
  case (3 n k ks)
  then have "k * 256 ^ n + pack n ks < (k + 1) * 256 ^ n" by simp
  also have "\<dots> \<le> 256 * 256 ^ n" using "3.prems" by (intro mult_right_mono) auto
  finally show ?case by simp
qed simp_all

lemma pack_Nil [simp]: "pack n [] = 0"
  by (cases n) auto

lemma pack_pos: "ks \<noteq> [] \<Longrightarrow> 0 \<notin> set ks \<Longrightarrow> 0 < n \<Longrightarrow> 0 < pack n ks"
  by (cases n; cases ks) auto

lemma pack_less_iff:
  assumes "\<forall>k \<in> set xs \<union> set ys. 0 < k \<and> k < 256" "length xs \<le> n" "length ys \<le> n"
  shows "pack n xs < pack n ys \<longleftrightarrow> xs < ys"
  using assms
proof (induction n arbitrary: xs ys)
  case (Suc n)
  show ?case
  proof (cases xs)
    case Nil
    then show ?thesis using Suc.prems pack_pos [of ys "Suc n"] by (cases ys) auto
  next
    case (Cons x xs')
    show ?thesis
    proof (cases ys)
      case Nil
      then show ?thesis using Cons by simp
    next
      case (Cons y ys')
      have b: "pack n xs' < 256 ^ n" "pack n ys' < 256 ^ n"
        using Suc.prems \<open>xs = x # xs'\<close> Cons by (auto intro: pack_less_exp)
      have ih: "pack n xs' < pack n ys' \<longleftrightarrow> xs' < ys'"
        using Suc.prems \<open>xs = x # xs'\<close> Cons by (intro Suc.IH) auto
      consider "x < y" | "x = y" | "y < x" by linarith
      then show ?thesis
      proof cases
        case 1
        then have "x * 256 ^ n + pack n xs' < (x + 1) * 256 ^ n" using b by simp
        also have "\<dots> \<le> y * 256 ^ n" using 1 by (intro mult_right_mono) auto
        finally show ?thesis using 1 \<open>xs = x # xs'\<close> Cons by simp
      next
        case 2
        then show ?thesis using ih \<open>xs = x # xs'\<close> Cons by simp
      next
        case 3
        then have "y * 256 ^ n + pack n ys' < (y + 1) * 256 ^ n" using b by simp
        also have "\<dots> \<le> x * 256 ^ n" using 3 by (intro mult_right_mono) auto
        finally show ?thesis using 3 \<open>xs = x # xs'\<close> Cons by simp
      qed
    qed
  qed
qed simp

lemma push_or_nat:
  assumes "r < 2 ^ n"
  shows "push_bit n (word_of_nat a) OR word_of_nat r = (word_of_nat (a * 2 ^ n + r) :: 'a::len word)"
proof -
  have "word_of_nat (a * 2 ^ n + r) = push_bit n (word_of_nat a) + (word_of_nat r :: 'a word)"
    by (simp add: push_bit_eq_mult)
  moreover have "push_bit n (word_of_nat a) + word_of_nat r = push_bit n (word_of_nat a) OR (word_of_nat r :: 'a word)"
  proof (rule disjunctive_add)
    fix i
    have "\<not> bit r i" if "n \<le> i"
    proof -
      have "r div 2 ^ i = 0" using assms that by (meson div_less less_le_trans one_le_numeral power_increasing)
      then show ?thesis by (simp add: bit_iff_odd)
    qed
    then show "\<not> bit (push_bit n (word_of_nat a) :: 'a word) i \<or> \<not> bit (word_of_nat r :: 'a word) i"
      by (auto simp: bit_push_bit_iff bit_of_nat_iff)
  qed
  ultimately show ?thesis by simp
qed

lemma and_not_mask_nat:
  assumes "p < 2 ^ 32"
  shows "(word_of_nat p :: 32 word) AND NOT (Bit_Operations.mask n) = word_of_nat (p div 2 ^ n * 2 ^ n)"
proof -
  have "p div 2 ^ n \<le> p" by simp
  then have "p div 2 ^ n < 2 ^ 32" using assms by linarith
  then have "word_of_nat (p div 2 ^ n) = drop_bit n (word_of_nat p :: 32 word)"
    using assms by (intro word_unat_eq_iff [THEN iffD2]) (subst unat_drop_bit_eq, simp add: unat_of_nat drop_bit_eq_div)
  then have "word_of_nat (p div 2 ^ n * 2 ^ n) = push_bit n (drop_bit n (word_of_nat p :: 32 word))"
    by (simp add: push_bit_eq_mult)
  also have "\<dots> = word_of_nat p AND NOT (Bit_Operations.mask n)"
    by (rule bit_eqI) (auto simp: bit_simps)
  finally show ?thesis ..
qed

definition hash_mask :: "nat \<Rightarrow> 32 word" where
  "hash_mask l = NOT (Bit_Operations.mask (32 - 8 * l))"

lemma hash_mask_eq: "hash_mask l = - (2 ^ (32 - 8 * l))"
  by (simp add: hash_mask_def minus_exp_eq_not_mask)

lemma hash_mask_values:
  "hash_mask 1 = 0xFF000000" "hash_mask 2 = 0xFFFF0000" "hash_mask 3 = 0xFFFFFF00" "hash_mask 4 = 0xFFFFFFFF"
  unfolding hash_mask_eq by simp_all

lemma four: "(4 :: nat) = Suc (Suc (Suc (Suc 0)))"
  by simp

lemma plain_char_bounds: "plain_char c \<Longrightarrow> 0 < (ord c :: nat) \<and> (ord c :: nat) < 128"
  unfolding plain_char_def by blast

lemma okey_plain: "canonical s \<Longrightarrow> k \<in> set (okey s) \<Longrightarrow> 0 < k \<and> k < 128"
  unfolding okey_def canonical_def set_map using plain_char_bounds by blast

lemma alist_hash_canonical:
  assumes "canonical s"
  shows "alist_hash h s = Some (word_of_nat (pack 4 (okey s)), Some (hash_mask (min 4 (length s))))"
  using assms
proof (cases "(h, s)" rule: alist_hash.cases)
  case (4 h' a b c r)
  have pl: "plain_char a" "plain_char b" "plain_char c" "plain_char (cat r 0) \<or> cat r 0 = NUL"
    using assms 4 by (auto simp: canonical_def cat_0 split: list.splits)
  have lt: "ord b < (256 :: nat)" "ord c < (256 :: nat)" "ord (cat r 0) < (256 :: nat)" by auto
  have p: "pack 4 (okey s) = ord a * 2 ^ 24 + (ord b * 2 ^ 16 + (ord c * 2 ^ 8 + ord (cat r 0)))"
    using 4 by (cases r) (simp_all add: four)
  have cd: "ord c * 2 ^ 8 + ord (cat r 0) < (2 ^ 16 :: nat)" using lt(2,3) by (simp del: ord_less_256)
  then have bcd: "ord b * 2 ^ 16 + (ord c * 2 ^ 8 + ord (cat r 0)) < (2 ^ 24 :: nat)" using lt(1) by (simp del: ord_less_256)
  have "ord (cat r 0) < (2 ^ 8 :: nat)" by simp
  note or = push_or_nat [OF this] push_or_nat [OF cd] push_or_nat [OF bcd]
  have "(word_of_nat (pack 4 (okey s)) :: 32 word) =
      push_bit 24 (word_of_nat (ord a)) OR (push_bit 16 (word_of_nat (ord b)) OR
        (push_bit 8 (word_of_nat (ord c)) OR word_of_nat (ord (cat r 0))))"
    unfolding p or ..
  moreover have "min 4 (length s) = (if cat r 0 \<noteq> NUL then 4 else 3)"
    using 4 pl assms by (cases r) (auto simp: canonical_def plain_char_def)
  ultimately show ?thesis
    using 4 pl by (simp add: hash_char_plain hash_mask_values)
next
  case (3 h' a b)
  have "ord b * 2 ^ 16 < (2 ^ 24 :: nat)" using ord_less_256 [of b] by (simp del: ord_less_256)
  from push_or_nat [OF this, of "ord a", where 'a = 32]
  have "push_bit 24 (word_of_nat (ord a)) OR push_bit 16 (word_of_nat (ord b)) =
      (word_of_nat (pack 4 (okey s)) :: 32 word)"
    using 3 by (simp add: push_bit_eq_mult four)
  moreover have "min 4 (length s) = 2" using 3 by simp
  ultimately show ?thesis
    using 3 assms hash_mask_values(2) by (simp add: hash_char_plain canonical_def numeral_2_eq_2)
next
  case (2 h' a)
  have "min 4 (length s) = 1" using 2 by simp
  moreover have "push_bit 24 (word_of_nat (ord a)) = (word_of_nat (pack 4 (okey s)) :: 32 word)"
    using 2 by (simp add: push_bit_eq_mult four)
  ultimately show ?thesis
    using 2 assms hash_mask_values(1) by (simp add: hash_char_plain canonical_def)
qed (use assms in \<open>simp add: canonical_def\<close>)

subsection \<open>Comparing by hash and by name\<close>

lemma strncmp_sign:
  assumes "no_nul s" "no_nul t"
  shows "strncmp s t n < 0 \<longleftrightarrow> take n (okey s) < take n (okey t)"
    and "strncmp s t n = 0 \<longleftrightarrow> take n (okey s) = take n (okey t)"
  using assms
  by (induction s t n rule: strncmp.induct) (auto simp: cat_0 ord_eq_iff split: list.splits)

lemma take_less: "take n xs < take n ys \<Longrightarrow> xs < (ys :: nat list)"
proof (induction n arbitrary: xs ys)
  case (Suc n)
  then show ?case by (cases xs; cases ys) auto
qed simp

lemma take_mono: "xs < ys \<Longrightarrow> take n xs < take n ys \<or> take n xs = take n (ys :: nat list)"
proof (induction n arbitrary: xs ys)
  case (Suc n)
  then show ?case by (cases xs; cases ys) auto
qed simp

lemma pack_take: "\<forall>k \<in> set ks. k < 256 \<Longrightarrow> l \<le> n \<Longrightarrow> pack n ks div 256 ^ (n - l) * 256 ^ (n - l) = pack n (take l ks)"
proof (induction n ks arbitrary: l rule: pack.induct)
  case (3 n k ks)
  show ?case
  proof (cases l)
    case 0
    have "pack (Suc n) (k # ks) < 256 ^ Suc n" by (rule pack_less_exp) (use 3 in simp)
    then show ?thesis using 0 by simp
  next
    case (Suc m)
    then have nm: "256 ^ n = 256 ^ m * (256 :: nat) ^ (n - m)" using 3 by (simp flip: power_add)
    have "(k * 256 ^ n + pack n ks) div 256 ^ (n - m) * 256 ^ (n - m)
        = k * 256 ^ n + pack n ks div 256 ^ (n - m) * 256 ^ (n - m)"
      unfolding nm by (simp add: algebra_simps div_mult_self1 flip: mult.assoc)
    then show ?thesis using 3 Suc by simp
  qed
qed simp_all

lemma pack_less_int: "\<forall>k \<in> set ks. k < 128 \<Longrightarrow> pack 4 ks < 2 ^ 31"
proof (cases ks)
  case (Cons k r)
  assume a: "\<forall>k \<in> set ks. k < 128"
  then have "pack 3 r < 256 ^ 3" using Cons by (intro pack_less_exp) auto
  then show ?thesis using a Cons by (simp add: four numeral_3_eq_3)
qed simp

lemma sint_diff_nat:
  assumes "p < 2 ^ 31" "q < 2 ^ 31"
  shows "sint (word_of_nat p - word_of_nat q :: 32 word) = int p - int q"
proof -
  have e: "(word_of_nat p - word_of_nat q :: 32 word) = word_of_int (int p - int q)" by simp
  have s: "sint (word_of_int k :: 32 word) = k" if "- (2 ^ 31) \<le> k" "k < 2 ^ 31" for k :: int
    using that unfolding sint_sbintrunc' by (intro signed_take_bit_int_eq_self) simp_all
  show ?thesis unfolding e by (rule s) (use assms in auto)
qed

definition hash_of :: "cstr \<Rightarrow> 32 word" where
  "hash_of s = word_of_nat (pack 4 (okey s))"

lemma hash_and_mask:
  assumes "canonical s" "l \<le> 4"
  shows "hash_of s AND hash_mask l = word_of_nat (pack 4 (take l (okey s)))"
proof -
  have b: "\<forall>k \<in> set (okey s). k < 256" using okey_plain [OF assms(1)] by fastforce
  have "(256 :: nat) ^ (4 - l) = 2 ^ (32 - 8 * l)"
  proof -
    have "32 - 8 * l = 8 * (4 - l)" by simp
    then show ?thesis by (simp add: power_mult)
  qed
  then have e: "pack 4 (okey s) div 2 ^ (32 - 8 * l) * 2 ^ (32 - 8 * l) = pack 4 (take l (okey s))"
    using pack_take [OF b assms(2)] by simp
  have "pack 4 (okey s) < 2 ^ 32" using pack_less_exp [OF b, of 4] by simp
  from and_not_mask_nat [OF this, of "32 - 8 * l"] show ?thesis
    unfolding hash_of_def hash_mask_def e .
qed

lemma hash_diff_sign:
  fixes l :: nat
  assumes "canonical s" "canonical t" "l \<le> 4"
  defines "c \<equiv> sint ((hash_of s AND hash_mask l) - (hash_of t AND hash_mask l))"
  shows "c < 0 \<longleftrightarrow> take l (okey s) < take l (okey t)" and "c = 0 \<longleftrightarrow> take l (okey s) = take l (okey t)"
proof -
  have b: "\<forall>k \<in> set (take l (okey s)) \<union> set (take l (okey t)). 0 < k \<and> k < 128"
    using okey_plain [OF assms(1)] okey_plain [OF assms(2)] by (auto dest: in_set_takeD)
  then have "c = int (pack 4 (take l (okey s))) - int (pack 4 (take l (okey t)))"
    unfolding c_def hash_and_mask [OF assms(1,3)] hash_and_mask [OF assms(2,3)]
    by (intro sint_diff_nat pack_less_int) auto
  moreover have p: "pack 4 (take l xs) < pack 4 (take l ys) \<longleftrightarrow> take l xs < take l ys"
    if "xs \<in> {okey s, okey t}" "ys \<in> {okey s, okey t}" for xs ys
  proof (rule pack_less_iff)
    have "k \<in> set (take l (okey s)) \<union> set (take l (okey t))" if "k \<in> set (take l xs) \<union> set (take l ys)" for k
      using that \<open>xs \<in> _\<close> \<open>ys \<in> _\<close> by blast
    then have "0 < k \<and> k < 128" if "k \<in> set (take l xs) \<union> set (take l ys)" for k
      using b that by blast
    then show "\<forall>k \<in> set (take l xs) \<union> set (take l ys). 0 < k \<and> k < 256"
      by (meson less_trans numeral_less_iff semiring_norm(76,78))
  qed (use assms(3) in auto)
  ultimately show "c < 0 \<longleftrightarrow> take l (okey s) < take l (okey t)" by simp
  have "c = 0 \<longleftrightarrow> \<not> pack 4 (take l (okey s)) < pack 4 (take l (okey t))
      \<and> \<not> pack 4 (take l (okey t)) < pack 4 (take l (okey s))"
    using \<open>c = _\<close> by auto
  then show "c = 0 \<longleftrightarrow> take l (okey s) = take l (okey t)"
    using p [of "okey s" "okey t"] p [of "okey t" "okey s"] by (metis insertCI less_irrefl linorder_less_linear)
qed

subsection \<open>The binary search\<close>

definition decr :: "(int \<Rightarrow> int) \<Rightarrow> int \<Rightarrow> bool" where
  "decr c n \<longleftrightarrow> (\<forall>i j. 0 \<le> i \<and> i \<le> j \<and> j < n \<longrightarrow> (c i < 0 \<longrightarrow> c j < 0) \<and> (0 < c j \<longrightarrow> 0 < c i))"

definition boundary :: "(int \<Rightarrow> int) \<Rightarrow> int \<Rightarrow> int \<Rightarrow> bool" where
  "boundary c n k \<longleftrightarrow> 0 \<le> k \<and> k \<le> n \<and> (\<forall>i. 0 \<le> i \<and> i < k \<longrightarrow> 0 < c i) \<and> (\<forall>i. k \<le> i \<and> i < n \<longrightarrow> c i < 0)"

lemma bin_loop_result:
  assumes "\<And>i. 0 \<le> i \<Longrightarrow> i < n \<Longrightarrow> cmp i = Some (c i)" "decr c n"
    "0 \<le> lo" "lo \<le> hi + 1" "hi < n"
    "\<And>i. 0 \<le> i \<Longrightarrow> i < lo \<Longrightarrow> 0 < c i" "\<And>i. hi < i \<Longrightarrow> i < n \<Longrightarrow> c i < 0"
    "hi < lo \<Longrightarrow> c0 \<noteq> 0 \<and> lo = (if 0 < c0 then p0 + 1 else p0)"
  shows "\<exists>r p. bin_loop cmp c0 p0 lo hi = Some (r, p) \<and>
    (if r = 0 then lo \<le> p \<and> p \<le> hi \<and> c p = 0 else boundary c n (if 0 < r then p + 1 else p))"
  using assms
proof (induction cmp c0 p0 lo hi rule: bin_loop.induct)
  case (1 cmp c0 p0 lo hi)
  show ?case
  proof (cases "hi < lo")
    case True
    have "boundary c n (if 0 < c0 then p0 + 1 else p0)"
      using True "1.prems"(3-8) by (auto simp: boundary_def)
    then show ?thesis using True "1.prems"(8) by (auto simp: bin_loop.simps)
  next
    case False
    define p where "p = (hi - lo) div 2 + lo"
    have p: "lo \<le> p" "p \<le> hi" using False by (auto simp: p_def)
    have cp: "cmp p = Some (c p)" using "1.prems"(1,3,5) p by simp
    consider "c p = 0" | "c p < 0" | "0 < c p" by linarith
    then show ?thesis
    proof cases
      case 1
      then show ?thesis using False cp p by (subst bin_loop.simps) (simp add: p_def [symmetric])
    next
      case 2
      have "\<exists>r q. bin_loop cmp (c p) p lo (p - 1) = Some (r, q) \<and>
          (if r = 0 then lo \<le> q \<and> q \<le> p - 1 \<and> c q = 0 else boundary c n (if 0 < r then q + 1 else q))"
      proof (rule "1.IH"(1) [OF False p_def cp])
        show "c i < 0" if "p - 1 < i" "i < n" for i
        proof -
          have "0 \<le> p \<and> p \<le> i \<and> i < n" using "1.prems"(3) p that by auto
          then show ?thesis using "1.prems"(2) 2 unfolding decr_def by blast
        qed
      qed (use "1.prems" 2 p in auto)
      then show ?thesis using False cp p 2 by (subst bin_loop.simps) (fastforce simp: p_def [symmetric])
    next
      case 3
      have "\<exists>r q. bin_loop cmp (c p) p (p + 1) hi = Some (r, q) \<and>
          (if r = 0 then p + 1 \<le> q \<and> q \<le> hi \<and> c q = 0 else boundary c n (if 0 < r then q + 1 else q))"
      proof (rule "1.IH"(2) [OF False p_def cp])
        show "0 < c i" if "0 \<le> i" "i < p + 1" for i
        proof -
          have "0 \<le> i \<and> i \<le> p \<and> p < n" using "1.prems"(5) p that by auto
          then show ?thesis using "1.prems"(2) 3 unfolding decr_def by blast
        qed
      qed (use "1.prems" 3 p in auto)
      then show ?thesis using False cp p 3 by (subst bin_loop.simps) (fastforce simp: p_def [symmetric])
    qed
  qed
qed

lemma run_down_result:
  assumes "\<And>i. i \<le> n \<Longrightarrow> 0 < i \<Longrightarrow> P i = Some (b i)"
  shows "\<exists>k \<le> n. run_down P n = Some k \<and> (\<forall>i. k < i \<and> i \<le> n \<longrightarrow> b i) \<and> (k = 0 \<or> \<not> b k)"
  using assms
proof (induction n)
  case (Suc n)
  show ?case
  proof (cases "b (Suc n)")
    case True
    obtain k where "k \<le> n" "run_down P n = Some k" "\<forall>i. k < i \<and> i \<le> n \<longrightarrow> b i" "k = 0 \<or> \<not> b k"
      using Suc.IH Suc.prems by auto
    then show ?thesis using True Suc.prems [of "Suc n"] by (auto simp: le_Suc_eq intro!: exI [of _ k])
  next
    case False
    then show ?thesis using Suc.prems [of "Suc n"] by auto
  qed
qed simp

lemma run_up_result:
  assumes "\<And>i. n \<le> i \<Longrightarrow> i < m \<Longrightarrow> P i = Some (b i)" "n \<le> m"
  shows "\<exists>k. run_up P m n = Some k \<and> n \<le> k \<and> k \<le> m \<and> (\<forall>i. n \<le> i \<and> i < k \<longrightarrow> b i) \<and> (k = m \<or> \<not> b k)"
  using assms
proof (induction P m n rule: run_up.induct)
  case (1 P m n)
  show ?case
  proof (cases "n < m \<and> b n")
    case True
    have "\<exists>k. run_up P m (Suc n) = Some k \<and> Suc n \<le> k \<and> k \<le> m \<and> (\<forall>i. Suc n \<le> i \<and> i < k \<longrightarrow> b i) \<and> (k = m \<or> \<not> b k)"
      using True "1.prems" by (intro "1.IH") auto
    then obtain k where k: "run_up P m (Suc n) = Some k" "Suc n \<le> k" "k \<le> m"
        "\<forall>i. Suc n \<le> i \<and> i < k \<longrightarrow> b i" "k = m \<or> \<not> b k" by blast
    have "b i" if "n \<le> i" "i < k" for i using that True k(4) by (cases "i = n") auto
    then show ?thesis using True k "1.prems"(1) [of n] by (subst run_up.simps) auto
  next
    case False
    then show ?thesis using "1.prems" by (subst run_up.simps) auto
  qed
qed

subsection \<open>Arrays in order\<close>

definition elems :: "Array \<Rightarrow> Array_item list" where
  "elems a = map the (take (amax a) (slots a))"

definition in_order :: "Array_item list \<Rightarrow> bool" where
  "in_order es \<longleftrightarrow> sorted_wrt (\<lambda>e f. okey (iname e) < okey (iname f)) es
     \<and> (\<forall>e \<in> set es. canonical (iname e) \<and> ihash e = hash_of (iname e))"

definition array_ok :: "Array \<Rightarrow> bool" where
  "array_ok a \<longleftrightarrow> amax a \<le> total_max a \<and> None \<notin> set (take (amax a) (slots a))
     \<and> in_order (elems a) \<and> func a = strncmp"

lemma array_ok_entry:
  assumes "array_ok a" "i < amax a"
  shows "entry a (int i) = Some (elems a ! i)" "slots a ! i = Some (elems a ! i)"
proof -
  have "slots a ! i \<in> set (take (amax a) (slots a))" "i < total_max a"
    using assms by (auto simp: array_ok_def in_set_conv_nth)
  then have "slots a ! i \<noteq> None" using assms(1) unfolding array_ok_def by metis
  moreover have "elems a ! i = the (slots a ! i)"
    using assms by (simp add: elems_def array_ok_def)
  ultimately show "slots a ! i = Some (elems a ! i)" by simp
  then show "entry a (int i) = Some (elems a ! i)"
    using assms by (simp add: entry_def array_ok_def)
qed

lemma length_items [simp]: "array_ok a \<Longrightarrow> length (elems a) = amax a"
  by (simp add: elems_def array_ok_def)

lemma in_order_nth:
  assumes "in_order es" "i < length es"
  shows "canonical (iname (es ! i))" "ihash (es ! i) = hash_of (iname (es ! i))"
    "j < i \<Longrightarrow> okey (iname (es ! j)) < okey (iname (es ! i))"
  using assms by (auto simp: in_order_def sorted_wrt_iff_nth_less)

text \<open>The two comparisons of a search, for the items in order.\<close>

definition by_hash :: "Array_item list \<Rightarrow> cstr \<Rightarrow> int \<Rightarrow> int" where
  "by_hash es s i = sint ((hash_of s AND hash_mask (min 4 (length s))) - (ihash (es ! nat i) AND hash_mask (min 4 (length s))))"

definition by_name :: "Array_item list \<Rightarrow> cstr \<Rightarrow> int \<Rightarrow> int" where
  "by_name es s i = strncmp s (iname (es ! nat i)) (length s)"

lemma by_hash_sign:
  assumes "in_order es" "canonical s" "nat i < length es"
  defines "l \<equiv> min 4 (length s)"
  shows "by_hash es s i < 0 \<longleftrightarrow> take l (okey s) < take l (okey (iname (es ! nat i)))"
    and "by_hash es s i = 0 \<longleftrightarrow> take l (okey s) = take l (okey (iname (es ! nat i)))"
    and "0 < by_hash es s i \<longleftrightarrow> take l (okey (iname (es ! nat i))) < take l (okey s)"
  using hash_diff_sign [OF assms(2) in_order_nth(1) [OF assms(1,3)], of l]
  unfolding by_hash_def l_def [symmetric] in_order_nth(2) [OF assms(1,3)]
  by (auto simp: l_def not_less_iff_gr_or_eq)

lemma length_okey [simp]: "length (okey s) = length s"
  by (simp add: okey_def)

lemma by_name_sign:
  assumes "in_order es" "canonical s" "nat i < length es"
  shows "by_name es s i < 0 \<longleftrightarrow> okey s < take (length s) (okey (iname (es ! nat i)))"
    and "by_name es s i = 0 \<longleftrightarrow> okey s = take (length s) (okey (iname (es ! nat i)))"
    and "0 < by_name es s i \<longleftrightarrow> take (length s) (okey (iname (es ! nat i))) < okey s"
  using strncmp_sign [OF canonical_no_nul [OF assms(2)] canonical_no_nul [OF in_order_nth(1) [OF assms(1,3)]], of "length s"]
  unfolding by_name_def by (auto simp: not_less_iff_gr_or_eq)

lemma okey_order:
  assumes "in_order es" "0 \<le> i" "i \<le> j" "nat j < length es"
  shows "okey (iname (es ! nat i)) \<le> okey (iname (es ! nat j))"
  using assms in_order_nth(3) [of es "nat j" "nat i"] by (cases "i = j") auto

lemma take_le: "xs \<le> ys \<Longrightarrow> take n xs \<le> take n (ys :: nat list)"
  by (metis order_le_less take_mono)

lemma le_append: "xs \<le> xs @ (ys :: nat list)"
  by (induction xs) auto

lemma decr_sign:
  assumes "in_order es"
    "\<And>i. nat i < length es \<Longrightarrow> (c i < 0 \<longleftrightarrow> x < take l (okey (iname (es ! nat i))))
       \<and> (0 < c i \<longleftrightarrow> take l (okey (iname (es ! nat i))) < x)"
  shows "decr c (int (length es))"
  unfolding decr_def
proof (intro allI impI conjI)
  fix i j :: int
  assume a: "0 \<le> i \<and> i \<le> j \<and> j < int (length es)"
  then have s: "nat i < length es" "nat j < length es" by auto
  then have le: "take l (okey (iname (es ! nat i))) \<le> take l (okey (iname (es ! nat j)))"
    using okey_order [OF assms(1), of i j] a by (simp add: take_le)
  show "c j < 0" if "c i < 0" using that assms(2) [OF s(1)] assms(2) [OF s(2)] le by auto
  show "0 < c i" if "0 < c j" using that assms(2) [OF s(1)] assms(2) [OF s(2)] le by auto
qed

lemma decr_by_hash: "in_order es \<Longrightarrow> canonical s \<Longrightarrow> decr (by_hash es s) (int (length es))"
  by (rule decr_sign [where x = "take (min 4 (length s)) (okey s)" and l = "min 4 (length s)"])
    (simp_all add: by_hash_sign)

lemma decr_by_name: "in_order es \<Longrightarrow> canonical s \<Longrightarrow> decr (by_name es s) (int (length es))"
  by (rule decr_sign [where x = "okey s" and l = "length s"]) (simp_all add: by_name_sign)

lemma hash_then_name:
  assumes "in_order es" "canonical s" "nat i < length es"
  shows "by_hash es s i < 0 \<Longrightarrow> by_name es s i < 0" "0 < by_hash es s i \<Longrightarrow> 0 < by_name es s i"
proof -
  define k where "k = okey (iname (es ! nat i))"
  define l where "l = min 4 (length s)"
  have t: "take l k = take l (take (length s) k)" by (simp add: l_def)
  show "by_hash es s i < 0 \<Longrightarrow> by_name es s i < 0" "0 < by_hash es s i \<Longrightarrow> 0 < by_name es s i"
    using take_less [of l "okey s" "take (length s) k"] take_less [of l "take (length s) k" "okey s"] t
    by (simp_all add: by_hash_sign [OF assms] by_name_sign [OF assms] k_def l_def)
qed

lemma prefix_take_eq: "prefix p x \<longleftrightarrow> p = take (length p) x"
  by (metis append_take_drop_id prefixI take_is_prefix prefix_def append_eq_conv_conj)

lemma okey_take_prefix: "okey s = take (length s) (okey t) \<longleftrightarrow> prefix s t"
  by (metis length_okey okey_def okey_inj prefix_take_eq take_map)

text \<open>
  What a search finds in a list of items in order: the place of the name, and the items that
  it is a prefix of, which come next.
\<close>

definition found_at :: "Array_item list \<Rightarrow> cstr \<Rightarrow> nat \<Rightarrow> nat \<Rightarrow> bool" where
  "found_at es s k m \<longleftrightarrow> k \<le> m \<and> m \<le> length es
     \<and> (\<forall>i < length es. (okey (iname (es ! i)) < okey s \<longleftrightarrow> i < k)
          \<and> (prefix s (iname (es ! i)) \<longleftrightarrow> k \<le> i \<and> i < m))"

lemma found_at_boundary:
  assumes "in_order es" "canonical s" "boundary (by_name es s) (int (length es)) k"
  shows "found_at es s (nat k) (nat k)"
proof -
  have "(okey (iname (es ! i)) < okey s \<longleftrightarrow> i < nat k) \<and> \<not> prefix s (iname (es ! i))" if i: "i < length es" for i
  proof (cases "i < nat k")
    case True
    then have "0 < by_name es s (int i)" using assms(3) by (simp add: boundary_def)
    then have "take (length s) (okey (iname (es ! i))) < take (length s) (okey s)"
      using by_name_sign(3) [OF assms(1,2), of "int i"] i by simp
    then show ?thesis using True take_less okey_take_prefix [of s "iname (es ! i)"]
      by (metis length_okey order_less_irrefl take_all_iff order_refl)
  next
    case False
    then have "by_name es s (int i) < 0" using assms(3) i by (simp add: boundary_def)
    then have "take (length s) (okey s) < take (length s) (okey (iname (es ! i)))"
      using by_name_sign(1) [OF assms(1,2), of "int i"] i by simp
    then show ?thesis using False take_less okey_take_prefix [of s "iname (es ! i)"]
      by (metis length_okey order_less_irrefl order_less_asym take_all_iff order_refl)
  qed
  then show ?thesis using assms(3) by (auto simp: found_at_def boundary_def)
qed

lemma found_at_hits:
  assumes "in_order es" "canonical s" "k < m" "m \<le> length es"
    "\<forall>i. k \<le> i \<and> i < m \<longrightarrow> by_name es s (int i) = 0"
    "k = 0 \<or> by_name es s (int (k - 1)) \<noteq> 0" "m = length es \<or> by_name es s (int m) \<noteq> 0"
  shows "found_at es s k m"
proof -
  have d: "by_name es s i < 0 \<Longrightarrow> by_name es s j < 0" "0 < by_name es s j \<Longrightarrow> 0 < by_name es s i"
    if "0 \<le> i" "i \<le> j" "j < int (length es)" for i j
    using decr_by_name [OF assms(1,2)] that unfolding decr_def by blast+
  have before: "0 < by_name es s (int i)" if "i < k" for i
  proof -
    have "0 < by_name es s (int (k - 1))"
      using assms(3-6) that d(1) [of "int (k - 1)" "int k"] by (force simp: not_less_iff_gr_or_eq)
    then show ?thesis using d(2) [of "int i" "int (k - 1)"] that assms(3,4) by auto
  qed
  have behind: "by_name es s (int i) < 0" if "m \<le> i" "i < length es" for i
  proof -
    have "by_name es s (int (m - 1)) = 0" using assms(3) assms(5) [rule_format, of "m - 1"] by simp
    moreover have "by_name es s (int m) \<noteq> 0" using assms(7) that by auto
    ultimately have "by_name es s (int m) < 0"
      using d(2) [of "int (m - 1)" "int m"] that by fastforce
    then show ?thesis using d(1) [of "int m" "int i"] that by auto
  qed
  have "(okey (iname (es ! i)) < okey s \<longleftrightarrow> i < k) \<and> (prefix s (iname (es ! i)) \<longleftrightarrow> k \<le> i \<and> i < m)"
    if i: "i < length es" for i
  proof -
    note b = by_name_sign [OF assms(1,2), of "int i", simplified, OF i]
    consider "i < k" | "k \<le> i" "i < m" | "m \<le> i" by linarith
    then show ?thesis
    proof cases
      case 1
      then have "take (length s) (okey (iname (es ! i))) < take (length s) (okey s)" using before b(3) by simp
      then show ?thesis using 1 take_less okey_take_prefix [of s "iname (es ! i)"]
        by (metis leD length_okey order_less_irrefl take_all_iff order_refl)
    next
      case 2
      then have p: "prefix s (iname (es ! i))" using assms(5) b(2) okey_take_prefix by blast
      then have "okey s \<le> okey (iname (es ! i))" by (auto simp: prefix_def okey_def intro: le_append)
      then show ?thesis using 2 p by auto
    next
      case 3
      then have "take (length s) (okey s) < take (length s) (okey (iname (es ! i)))" using behind i b(1) by simp
      then show ?thesis using 3 assms(3) take_less okey_take_prefix [of s "iname (es ! i)"]
        by (metis leD length_okey order_less_irrefl order_less_asym order_less_le_trans take_all_iff order_refl)
    qed
  qed
  then show ?thesis using assms(3,4) by (auto simp: found_at_def)
qed

subsection \<open>The search finds the names with a prefix\<close>

lemma found_at_exact:
  assumes "in_order es" "found_at es s k m" "k < m"
  shows "length (iname (es ! k)) = length s \<longleftrightarrow> (\<exists>e \<in> set es. iname e = s)"
proof
  assume "length (iname (es ! k)) = length s"
  moreover have "prefix s (iname (es ! k))" using assms(2,3) by (auto simp: found_at_def)
  ultimately have "iname (es ! k) = s" by (auto simp: prefix_def)
  then show "\<exists>e \<in> set es. iname e = s" using assms(2,3) by (auto simp: found_at_def)
next
  assume "\<exists>e \<in> set es. iname e = s"
  then obtain i where i: "i < length es" "iname (es ! i) = s" by (auto simp: in_set_conv_nth)
  then have "k \<le> i" using assms(2) by (auto simp: found_at_def)
  have p: "prefix s (iname (es ! k))" using assms(2,3) by (auto simp: found_at_def)
  have "i = k"
  proof (rule ccontr)
    assume "i \<noteq> k"
    then have "okey (iname (es ! k)) < okey s" using in_order_nth(3) [OF assms(1) i(1), of k] \<open>k \<le> i\<close> i(2) by simp
    then show False using assms(2,3) by (auto simp: found_at_def)
  qed
  then show "length (iname (es ! k)) = length s" using i by simp
qed

definition find_result :: "Array_item list \<Rightarrow> cstr \<Rightarrow> nat \<Rightarrow> nat \<Rightarrow> Array_item option \<times> int \<times> nat" where
  "find_result es s k m =
     (if k = m then (None, 0, k)
      else (Some (es ! k), if \<exists>e \<in> set es. iname e = s then - int (m - k) else int (m - k), k))"

lemma hash_range:
  assumes "in_order es" "canonical s" "p < length es" "by_hash es s (int p) = 0"
  shows "lo \<le> p \<Longrightarrow> lo = 0 \<or> by_hash es s (int lo) \<noteq> 0 \<Longrightarrow> 0 \<le> i \<Longrightarrow> i < int lo \<Longrightarrow> 0 < by_name es s i"
    and "p \<le> hi \<Longrightarrow> hi \<le> length es - 1 \<Longrightarrow> hi = length es - 1 \<or> by_hash es s (int hi) \<noteq> 0
      \<Longrightarrow> int hi < i \<Longrightarrow> i < int (length es) \<Longrightarrow> by_name es s i < 0"
proof -
  have dh: "by_hash es s i < 0 \<Longrightarrow> by_hash es s j < 0" "0 < by_hash es s j \<Longrightarrow> 0 < by_hash es s i"
    if "0 \<le> i" "i \<le> j" "j < int (length es)" for i j
    using decr_by_hash [OF assms(1,2)] that unfolding decr_def by blast+
  have dn: "by_name es s i < 0 \<Longrightarrow> by_name es s j < 0" "0 < by_name es s j \<Longrightarrow> 0 < by_name es s i"
    if "0 \<le> i" "i \<le> j" "j < int (length es)" for i j
    using decr_by_name [OF assms(1,2)] that unfolding decr_def by blast+
  show "0 < by_name es s i" if "lo \<le> p" "lo = 0 \<or> by_hash es s (int lo) \<noteq> 0" "0 \<le> i" "i < int lo"
  proof -
    have "\<not> by_hash es s (int lo) < 0" using dh(1) [of "int lo" "int p"] that assms(3,4) by auto
    then have "0 < by_hash es s (int lo)" using that by auto
    then have "0 < by_name es s (int lo)"
      using hash_then_name(2) [OF assms(1,2), of "int lo"] that assms(3) by simp
    then show ?thesis using dn(2) [of i "int lo"] that assms(3) by simp
  qed
  show "by_name es s i < 0" if "p \<le> hi" "hi \<le> length es - 1"
    "hi = length es - 1 \<or> by_hash es s (int hi) \<noteq> 0" "int hi < i" "i < int (length es)"
  proof -
    have "\<not> 0 < by_hash es s (int hi)" using dh(2) [of "int p" "int hi"] that assms(3,4) by auto
    then have "by_hash es s (int hi) < 0" using that by auto
    then have "by_name es s (int hi) < 0"
      using hash_then_name(1) [OF assms(1,2), of "int hi"] that assms(3) by simp
    then show ?thesis using dn(1) [of "int hi" i] that by simp
  qed
qed

lemma name_run:
  assumes "\<And>i. i < n \<Longrightarrow> hit i = Some (b i)" "q < n" "b q"
  obtains k m where "run_down (\<lambda>i. hit (i - 1)) q = Some k" "run_up hit n (Suc q) = Some m" "k < m" "m \<le> n"
    "\<forall>i. k \<le> i \<and> i < m \<longrightarrow> b i" "k = 0 \<or> \<not> b (k - 1)" "m = n \<or> \<not> b m"
proof -
  obtain k where k: "k \<le> q" "run_down (\<lambda>i. hit (i - 1)) q = Some k"
      "\<forall>i. k < i \<and> i \<le> q \<longrightarrow> b (i - 1)" "k = 0 \<or> \<not> b (k - 1)"
    using run_down_result [of q "\<lambda>i. hit (i - 1)" "\<lambda>i. b (i - 1)"] assms by auto
  obtain m where m: "Suc q \<le> m" "m \<le> n" "run_up hit n (Suc q) = Some m"
      "\<forall>i. Suc q \<le> i \<and> i < m \<longrightarrow> b i" "m = n \<or> \<not> b m"
    using run_up_result [of "Suc q" n hit b] assms by auto
  have "b i" if "k \<le> i" "i < m" for i
  proof -
    consider "i < q" | "i = q" | "q < i" by linarith
    then show ?thesis
    proof cases
      case 1
      then show ?thesis using k(3) [rule_format, of "Suc i"] that by simp
    qed (use assms(3) m(4) that in auto)
  qed
  then show ?thesis using that k m by auto
qed

lemma find_by_name_result:
  assumes "array_ok a" "canonical s" "p < amax a" "by_hash (elems a) s (int p) = 0"
    "\<And>i. i < amax a \<Longrightarrow> same i = Some (by_hash (elems a) s (int i) = 0)"
  shows "\<exists>k m. found_at (elems a) s k m \<and> find_by_name a s same p = Some (find_result (elems a) s k m)"
proof -
  define es where "es = elems a"
  have o: "in_order es" "length es = amax a" using assms(1) by (simp_all add: es_def) (simp add: array_ok_def)
  note as = assms(3,4,5) [folded es_def]
  define cmp where "cmp = (\<lambda>i. map_option (\<lambda>e. func a s (iname e) (length s)) (entry a i))"
  have f: "func a = strncmp" using assms(1) by (simp add: array_ok_def)
  have cmp: "cmp i = Some (by_name es s i)" if "0 \<le> i" "i < int (amax a)" for i
    using array_ok_entry(1) [OF assms(1), of "nat i"] that by (simp add: es_def cmp_def f by_name_def)
  have le: "p \<le> amax a - 1" using as(1) by simp
  obtain lo where lo: "lo \<le> p" "run_down same p = Some lo" "lo = 0 \<or> by_hash es s (int lo) \<noteq> 0"
    using run_down_result [of p same "\<lambda>i. by_hash es s (int i) = 0"] as by auto
  obtain hi where hi: "p \<le> hi" "hi \<le> amax a - 1" "run_up same (amax a - 1) p = Some hi"
      "hi = amax a - 1 \<or> by_hash es s (int hi) \<noteq> 0"
    using run_up_result [of p "amax a - 1" same "\<lambda>i. by_hash es s (int i) = 0", OF _ le] as by auto
  have hin: "hi < amax a" using hi(2) as(1) by linarith
  note range = hash_range [OF o(1) assms(2), unfolded o(2), OF as(1,2)]
  obtain c q where cq: "bin_loop cmp 0 (int p) (int lo) (int hi) = Some (c, q)"
      "if c = 0 then int lo \<le> q \<and> q \<le> int hi \<and> by_name es s q = 0
       else boundary (by_name es s) (int (amax a)) (if 0 < c then q + 1 else q)"
    using bin_loop_result [of "int (amax a)" cmp "by_name es s" "int lo" "int hi" 0 "int p"]
      cmp decr_by_name [OF o(1) assms(2), unfolded o(2)] range(1) [OF lo(1,3)] range(2) [OF hi(1,2,4)] lo hi hin as(1) by auto
  show ?thesis
  proof (cases "c = 0")
    case False
    then have "found_at es s (place c q) (place c q)"
      using found_at_boundary [OF o(1) assms(2)] cq(2) o(2) unfolding place_def by simp
    moreover have "find_by_name a s same p = Some (None, 0, place c q)"
      using lo(2) hi(3) cq(1) False unfolding find_by_name_def cmp_def Let_def by simp
    ultimately show ?thesis unfolding es_def by (metis find_result_def)
  next
    case True
    define hit where "hit = (\<lambda>i. map_option (\<lambda>c. c = 0) (cmp (int i)))"
    have hit: "hit i = Some (by_name es s (int i) = 0)" if "i < amax a" for i using cmp that by (simp add: hit_def)
    have q: "nat q < amax a" "by_name es s (int (nat q)) = 0" using True cq(2) hi(2) as(1) by auto
    obtain k m where km: "run_down (\<lambda>i. hit (i - 1)) (nat q) = Some k" "run_up hit (amax a) (Suc (nat q)) = Some m"
        "k < m" "m \<le> amax a" "\<forall>i. k \<le> i \<and> i < m \<longrightarrow> by_name es s (int i) = 0"
        "k = 0 \<or> by_name es s (int (k - 1)) \<noteq> 0" "m = amax a \<or> by_name es s (int m) \<noteq> 0"
      using name_run [of "amax a" hit "\<lambda>i. by_name es s (int i) = 0", OF hit q] by blast
    have fa: "found_at es s k m" by (rule found_at_hits [OF o(1) assms(2) km(3)]) (use km o(2) in auto)
    have "entry a (int k) = Some (es ! k)"
      using array_ok_entry(1) [OF assms(1), of k] km(3,4) by (simp add: es_def)
    then have "find_by_name a s same p = Some (find_result es s k m)"
      using lo(2) hi(3) cq(1) True km(1-3) found_at_exact [OF o(1) fa km(3)]
      unfolding find_by_name_def find_result_def cmp_def hit_def Let_def by simp
    then show ?thesis using fa unfolding es_def by blast
  qed
qed

lemma find_array_item_result:
  assumes "array_ok a" "canonical s"
  shows "\<exists>k m. found_at (elems a) s k m \<and> find_array_item a s = Some (find_result (elems a) s k m)"
proof (cases "amax a = 0")
  case True
  then have "found_at (elems a) s 0 0" using assms(1) by (simp add: found_at_def)
  then show ?thesis using True assms by (auto simp: find_array_item_def alist_hash_canonical find_result_def)
next
  case False
  have o: "in_order (elems a)" "length (elems a) = amax a" using assms(1) by (simp_all) (simp add: array_ok_def)
  have t: "total_max a \<noteq> 0" using False assms(1) by (auto simp: array_ok_def)
  define m where "m = hash_mask (min 4 (length s))"
  define cmp where "cmp = (\<lambda>i. map_option (\<lambda>e. sint ((hash_of s AND m) - (ihash e AND m))) (entry a i))"
  have F: "find_array_item a s = (case bin_loop cmp 0 0 0 (int (amax a) - 1) of
      None \<Rightarrow> None
    | Some (c, p) \<Rightarrow> if c \<noteq> 0 then Some (None, 0, place c p)
        else find_by_name a s (\<lambda>i. map_option (\<lambda>c. c = 0) (cmp (int i))) (nat p))"
    unfolding find_array_item_def alist_hash_canonical [OF assms(2)] m_def cmp_def hash_of_def
    using False t by (simp add: Let_def)
  have cmp: "cmp i = Some (by_hash (elems a) s i)" if "0 \<le> i" "i < int (amax a)" for i
    using array_ok_entry(1) [OF assms(1), of "nat i"] that by (simp add: cmp_def by_hash_def m_def)
  obtain c p where cp: "bin_loop cmp 0 0 0 (int (amax a) - 1) = Some (c, p)"
      "if c = 0 then 0 \<le> p \<and> p \<le> int (amax a) - 1 \<and> by_hash (elems a) s p = 0
       else boundary (by_hash (elems a) s) (int (amax a)) (if 0 < c then p + 1 else p)"
    using bin_loop_result [of "int (amax a)" cmp "by_hash (elems a) s" 0 "int (amax a) - 1" 0 0]
      cmp decr_by_hash [OF o(1) assms(2), unfolded o(2)] False by auto
  show ?thesis
  proof (cases "c = 0")
    case True
    then have "nat p < amax a" using cp(2) by auto
    then show ?thesis
      using True F cp find_by_name_result [OF assms, of "nat p" "\<lambda>i. map_option (\<lambda>c. c = 0) (cmp (int i))"] cmp by simp
  next
    case c: False
    then have "boundary (by_name (elems a) s) (int (amax a)) (if 0 < c then p + 1 else p)"
      using cp(2) hash_then_name [OF o(1) assms(2)] o(2) by (auto simp: boundary_def)
    then have "found_at (elems a) s (place c p) (place c p)"
      using found_at_boundary [OF o(1) assms(2)] o(2) unfolding place_def by simp
    then show ?thesis using F cp(1) c by (auto simp: find_result_def)
  qed
qed

text \<open>
  on an array in order (with names of upper-case letters, digits and other characters
  that the hash does not fold) the search returns the first of the items whose names start
  with the text, their number, negative exactly when one of them is the text itself, and
  the place of the text in the order.
\<close>
theorem find_array_item_prefix:
  assumes "array_ok a" "canonical s"
  shows "\<exists>k m. found_at (elems a) s k m \<and> find_array_item a s =
    Some (if k = m then (None, 0, k)
          else (Some (elems a ! k), if \<exists>e \<in> set (elems a). iname e = s then - int (m - k) else int (m - k), k))"
  using find_array_item_result [OF assms] unfolding find_result_def .

subsection \<open>Adding and removing items\<close>

definition store :: "Array \<Rightarrow> cstr \<Rightarrow> nat option" where
  "store a = map_of (map (\<lambda>e. (iname e, iaddr e)) (elems a))"

definition new_total :: "nat \<Rightarrow> nat \<Rightarrow> nat" where
  "new_total n t = (if t = 0 then 6 else if n = t - 1 then t * 2 else if n * 3 < t then t div 2 else t)"

lemma check_array_size_eq: "check_array_size a = a\<lparr>slots := n_realloc (new_total (amax a) (total_max a)) (slots a)\<rparr>"
  by (simp add: check_array_size_def new_total_def Let_def)

lemma new_total_ge: "n \<le> t \<Longrightarrow> n \<le> new_total n t" "0 < new_total n t"
  by (auto simp: new_total_def)

lemma length_n_realloc [simp]: "length (n_realloc t s) = t"
  by (simp add: n_realloc_def)

lemma check_array_size_ok:
  assumes "array_ok a"
  shows "array_ok (check_array_size a)" "elems (check_array_size a) = elems a"
proof -
  have le: "amax a \<le> new_total (amax a) (total_max a)" "amax a \<le> total_max a"
    using assms new_total_ge(1) by (auto simp: array_ok_def)
  then have "take (amax a) (n_realloc (new_total (amax a) (total_max a)) (slots a)) = take (amax a) (slots a)"
    by (simp add: n_realloc_def min_def)
  then show "array_ok (check_array_size a)" "elems (check_array_size a) = elems a"
    using assms le by (simp_all add: check_array_size_eq array_ok_def elems_def)
qed

lemma copy_items_up:
  "Suc (k + n) < length s \<Longrightarrow> copy_items (rev [k..<Suc (k + n)]) 1 s =
     Some (take (Suc k) s @ take (Suc n) (drop k s) @ drop (Suc (Suc (k + n))) s)"
proof (induction n arbitrary: s)
  case 0
  then show ?case
    by (simp add: list_update_append upd_conv_take_nth_drop Cons_nth_drop_Suc [symmetric] take_Suc_conv_app_nth nat_add_distrib)
next
  case (Suc n)
  define s' where "s' = s[Suc (Suc (k + n)) := s ! Suc (k + n)]"
  have "copy_items (rev [k..<Suc (k + Suc n)]) 1 s = copy_items (rev [k..<Suc (k + n)]) 1 s'"
    using Suc.prems by (simp add: s'_def nat_add_distrib)
  also have "\<dots> = Some (take (Suc k) s' @ take (Suc n) (drop k s') @ drop (Suc (Suc (k + n))) s')"
    using Suc.prems by (intro Suc.IH) (simp add: s'_def)
  also have "take (Suc k) s' @ take (Suc n) (drop k s') @ drop (Suc (Suc (k + n))) s'
      = take (Suc k) s @ take (Suc (Suc n)) (drop k s) @ drop (Suc (Suc (k + Suc n))) s"
    using Suc.prems
    by (intro nth_equalityI) (auto simp: s'_def nth_append nth_list_update intro!: arg_cong [of _ _ "(!) s"])
  finally show ?case by simp
qed

lemma copy_items_down:
  "k + n < length s \<Longrightarrow> 0 < k \<Longrightarrow> copy_items [k..<Suc (k + n)] (- 1) s =
     Some (take (k - 1) s @ take (Suc n) (drop k s) @ drop (k + n) s)"
proof (induction n arbitrary: k s)
  case 0
  then show ?case
    by (cases k) (auto simp: upd_conv_take_nth_drop Cons_nth_drop_Suc [symmetric] nat_diff_distrib take_Suc_conv_app_nth)
next
  case (Suc n)
  define s' where "s' = s[k - 1 := s ! k]"
  have "copy_items [k..<Suc (k + Suc n)] (- 1) s = copy_items [Suc k..<Suc (Suc k + n)] (- 1) s'"
    using Suc.prems by (subst upt_conv_Cons) (auto simp: s'_def nat_diff_distrib)
  also have "\<dots> = Some (take k s' @ take (Suc n) (drop (Suc k) s') @ drop (Suc k + n) s')"
    using Suc.IH [of "Suc k" s'] Suc.prems by (simp add: s'_def)
  also have "take k s' @ take (Suc n) (drop (Suc k) s') @ drop (Suc k + n) s'
      = take (k - 1) s @ take (Suc (Suc n)) (drop k s) @ drop (k + Suc n) s"
    using Suc.prems
    by (intro nth_equalityI) (auto simp: s'_def nth_append nth_list_update less_diff_conv2 split: nat_diff_split)
  finally show ?case .
qed

lemma sorted_insert_order:
  assumes "in_order es" "in_order [x]" "found_at es (iname x) k m" "iname x \<notin> iname ` set es"
  shows "in_order (take k es @ x # drop k es)"
proof -
  have a: "okey (iname e) < okey (iname x)" if "e \<in> set (take k es)" for e
    using that assms(3) by (auto simp: found_at_def in_set_conv_nth)
  have "okey (iname x) < okey (iname e)" if "e \<in> set (drop k es)" for e
  proof -
    have "\<not> okey (iname e) < okey (iname x)"
      using that assms(3) by (auto simp: found_at_def in_set_conv_nth)
    moreover have "okey (iname e) \<noteq> okey (iname x)"
      using that assms(4) okey_inj by (metis image_eqI in_set_dropD)
    ultimately show ?thesis by (simp add: not_less_iff_gr_or_eq)
  qed
  moreover have "\<forall>e \<in> set (take k es). \<forall>f \<in> set (drop k es). okey (iname e) < okey (iname f)"
      "sorted_wrt (\<lambda>e f. okey (iname e) < okey (iname f)) (take k es)"
      "sorted_wrt (\<lambda>e f. okey (iname e) < okey (iname f)) (drop k es)"
    using assms(1) sorted_wrt_append [of "\<lambda>e f. okey (iname e) < okey (iname f)" "take k es" "drop k es"]
    by (simp_all add: in_order_def)
  ultimately show ?thesis
    using a assms(1,2) by (auto simp: in_order_def sorted_wrt_append dest: in_set_takeD in_set_dropD)
qed

lemma in_order_update:
  assumes "in_order es" "k < length es" "iname x = iname (es ! k)" "ihash x = hash_of (iname x)"
  shows "in_order (es[k := x])"
proof -
  have "map iname (es[k := x]) = map iname es" using assms(2,3) by (metis list_update_id map_update)
  moreover have srt: "sorted_wrt (\<lambda>e f. okey (iname e) < okey (iname f)) us \<longleftrightarrow> sorted_wrt (\<lambda>s t. okey s < okey t) (map iname us)" for us
    by (simp add: sorted_wrt_map)
  moreover have "sorted_wrt (\<lambda>s t. okey s < okey t) (map iname es)"
    using assms(1) unfolding in_order_def srt by blast
  ultimately have "sorted_wrt (\<lambda>e f. okey (iname e) < okey (iname f)) (es[k := x])" by (metis srt)
  moreover have "canonical (iname x)" using in_order_nth(1) [OF assms(1,2)] assms(3) by simp
  ultimately show ?thesis using assms(1,4) set_update_subset_insert [of es k x] by (auto simp: in_order_def)
qed

lemma in_order_distinct: "in_order es \<Longrightarrow> distinct (map iname es)"
  by (auto simp: distinct_conv_nth dest: in_order_nth(3)) (metis in_order_nth(3) linorder_neqE_nat order_less_irrefl)

lemma array_ok_parts:
  assumes "array_ok a"
  shows "in_order (elems a)" "amax a \<le> total_max a" "func a = strncmp" "length (elems a) = amax a"
  using assms by (simp_all) (simp_all add: array_ok_def)

lemma array_ok_slots: "array_ok a \<longleftrightarrow> (\<exists>es. take (amax a) (slots a) = map Some es \<and> length es = amax a
    \<and> in_order es \<and> func a = strncmp) "
proof
  assume ok: "array_ok a"
  have "take (amax a) (slots a) = map Some (elems a)"
  proof (rule nth_equalityI)
    show "length (take (amax a) (slots a)) = length (map Some (elems a))"
      using array_ok_parts(2,4) [OF ok] by simp
    show "take (amax a) (slots a) ! i = map Some (elems a) ! i" if "i < length (take (amax a) (slots a))" for i
      using that array_ok_entry(2) [OF ok, of i] array_ok_parts(4) [OF ok] by simp
  qed
  then show "\<exists>es. take (amax a) (slots a) = map Some es \<and> length es = amax a \<and> in_order es \<and> func a = strncmp"
    using array_ok_parts [OF ok] by blast
next
  assume "\<exists>es. take (amax a) (slots a) = map Some es \<and> length es = amax a \<and> in_order es \<and> func a = strncmp"
  then obtain es where es: "take (amax a) (slots a) = map Some es" "length es = amax a" "in_order es" "func a = strncmp"
    by blast
  then have "length (take (amax a) (slots a)) = amax a" by simp
  then have "amax a \<le> total_max a" by simp
  then show "array_ok a" using es by (auto simp: array_ok_def elems_def comp_def)
qed

lemma array_okI:
  assumes "take (amax a) (slots a) = map Some es" "length es = amax a" "in_order es" "func a = strncmp"
  shows "array_ok a" "elems a = es"
  using assms array_ok_slots [of a] by (auto simp: elems_def comp_def)

lemma array_ok_take: "array_ok a \<Longrightarrow> take (amax a) (slots a) = map Some (elems a)"
  by (auto simp: array_ok_slots elems_def comp_def)

lemma slots_split:
  assumes "array_ok a"
  obtains rest where "slots a = map Some (elems a) @ rest"
proof -
  obtain es where es: "take (amax a) (slots a) = map Some es" using assms array_ok_slots by blast
  then have "elems a = es" by (simp add: elems_def comp_def)
  then show ?thesis using that [of "drop (amax a) (slots a)"] es by (metis append_take_drop_id)
qed

lemma move_up_items:
  assumes "array_ok a" "k \<le> amax a" "amax a + 2 \<le> total_max a"
  obtains a' rest where "move_array_items a k (amax a) 1 = Some a'"
    "slots a' = map Some (take k (elems a)) @ None # map Some (drop k (elems a)) @ rest"
    "total_max a' = total_max a" "amax a' = amax a" "func a' = func a" "hash a' = hash a"
proof -
  obtain rest where s: "slots a = map Some (elems a) @ rest" using slots_split assms(1) by blast
  define n where "n = amax a - k"
  have kn: "amax a = k + n" using assms(2) by (simp add: n_def)
  have l: "length (elems a) = k + n" using array_ok_parts(4) [OF assms(1)] kn by simp
  obtain r rest' where rest: "rest = r # rest'" using s assms(3) l kn by (cases rest) auto
  have "copy_items (rev [k..<Suc (amax a)]) 1 (slots a) =
      Some (take (Suc k) (slots a) @ take (Suc n) (drop k (slots a)) @ drop (Suc (Suc (k + n))) (slots a))"
    unfolding kn by (rule copy_items_up) (use assms(3) kn in simp)
  also have "take (Suc k) (slots a) = map Some (take k (elems a)) @ [slots a ! k]"
  proof -
    have "take (Suc k) (slots a) = take k (slots a) @ [slots a ! k]"
      by (rule take_Suc_conv_app_nth) (use assms(3) kn in simp)
    also have "take k (slots a) = map Some (take k (elems a))" using l by (subst s) (simp add: take_map)
    finally show ?thesis .
  qed
  also have "take (Suc n) (drop k (slots a)) = map Some (drop k (elems a)) @ [r]"
    using l by (simp add: s rest drop_map Suc_diff_le)
  also have "drop (Suc (Suc (k + n))) (slots a) = drop 1 rest'"
    using l by (simp add: s rest)
  finally have c: "copy_items (rev [k..<Suc (amax a)]) 1 (slots a) =
      Some (map Some (take k (elems a)) @ (slots a ! k) # map Some (drop k (elems a)) @ r # drop 1 rest')" by simp
  have len: "length (map Some (take k (elems a)) @ (slots a ! k) # map Some (drop k (elems a)) @ r # drop 1 rest') = total_max a"
    using s rest l assms(3) kn by simp
  show ?thesis
    by (rule that [of "a\<lparr>slots := map Some (take k (elems a)) @ None # map Some (drop k (elems a)) @ r # drop 1 rest'\<rparr>"])
      (use c len l in \<open>simp_all add: move_array_items_def list_update_append\<close>)
qed

definition room :: "Array \<Rightarrow> bool" where
  "room a \<longleftrightarrow> amax a = 0 \<or> amax a + 2 \<le> new_total (amax a) (total_max a)"

definition inserted :: "Array_item list \<Rightarrow> Array_item \<Rightarrow> nat \<Rightarrow> Array_item list" where
  "inserted es x k =
     (if k < length es \<and> iname (es ! k) = iname x then es[k := x] else take k es @ x # drop k es)"

lemma found_at_name:
  assumes "in_order es" "found_at es s k m"
  shows "(\<exists>e \<in> set es. iname e = s) \<longleftrightarrow> k < length es \<and> iname (es ! k) = s"
proof
  assume r: "k < length es \<and> iname (es ! k) = s"
  then show "\<exists>e \<in> set es. iname e = s" by auto
next
  assume l: "\<exists>e \<in> set es. iname e = s"
  then obtain i where i: "i < length es" "iname (es ! i) = s" by (auto simp: in_set_conv_nth)
  then have "k \<le> i" "i < m" using assms(2) by (auto simp: found_at_def)
  then have "k < m" "k < length es" using i(1) by auto
  moreover have "prefix s (iname (es ! k))" using assms(2) calculation by (auto simp: found_at_def)
  ultimately show "k < length es \<and> iname (es ! k) = s"
    using found_at_exact [OF assms(1,2)] l by (auto simp: prefix_def)
qed

lemma inserted_in_order:
  assumes "in_order es" "canonical (iname x)" "ihash x = hash_of (iname x)" "found_at es (iname x) k m"
  shows "in_order (inserted es x k)"
proof (cases "k < length es \<and> iname (es ! k) = iname x")
  case True
  then show ?thesis using in_order_update [of es k x] assms by (simp add: inserted_def)
next
  case False
  then have "iname x \<notin> iname ` set es" using found_at_name [OF assms(1,4)] by force
  moreover have "in_order [x]" using assms(2,3) by (simp add: in_order_def)
  moreover have "inserted es x k = take k es @ x # drop k es" using False by (auto simp: inserted_def)
  ultimately show ?thesis using sorted_insert_order [OF assms(1) _ assms(4)] by simp
qed

lemma set_inserted:
  assumes "in_order es" "found_at es (iname x) k m"
  shows "set (inserted es x k) = insert x {e \<in> set es. iname e \<noteq> iname x}"
proof (cases "k < length es \<and> iname (es ! k) = iname x")
  case True
  have u: "set (es[k := x]) = insert x (set (take k es) \<union> set (drop (Suc k) es))"
    using True by (simp add: upd_conv_take_nth_drop)
  have "iname e \<noteq> iname x" if "e \<in> set (take k es) \<union> set (drop (Suc k) es)" for e
    using that True in_order_distinct [OF assms(1)]
    by (subst (asm) (3) id_take_nth_drop [of k es]) (auto simp: image_iff)
  moreover have "set es = insert (es ! k) (set (take k es) \<union> set (drop (Suc k) es))"
    using True by (subst id_take_nth_drop [of k es]) auto
  ultimately show ?thesis using True u by (auto simp: inserted_def)
next
  case False
  then have "iname e \<noteq> iname x" if "e \<in> set es" for e
    using found_at_name [OF assms] that by blast
  moreover have "set (take k es) \<union> set (drop k es) = set es"
    by (metis append_take_drop_id set_append)
  ultimately show ?thesis using False by (auto simp: inserted_def)
qed

lemma store_Some:
  assumes "in_order (elems a)"
  shows "store a n = Some v \<longleftrightarrow> (\<exists>e \<in> set (elems a). iname e = n \<and> iaddr e = v)"
proof -
  have "distinct (map fst (map (\<lambda>e. (iname e, iaddr e)) (elems a)))"
    using in_order_distinct [OF assms] by (simp add: comp_def)
  from map_of_eq_Some_iff [OF this] show ?thesis unfolding store_def by auto
qed

lemma store_eqI:
  assumes "\<And>v. x = Some v \<longleftrightarrow> y = Some v"
  shows "x = y"
  using assms by (metis not_None_eq)

lemma store_inserted:
  assumes "in_order (elems a)" "in_order (elems a')" "elems a' = inserted (elems a) x k"
    "found_at (elems a) (iname x) k m"
  shows "store a' = (store a)(iname x \<mapsto> iaddr x)"
proof (rule ext, rule store_eqI)
  fix n v
  have "store a' n = Some v \<longleftrightarrow> (\<exists>e \<in> set (inserted (elems a) x k). iname e = n \<and> iaddr e = v)"
    using store_Some [OF assms(2)] assms(3) by simp
  also have "\<dots> \<longleftrightarrow> (if n = iname x then v = iaddr x else store a n = Some v)"
    using store_Some [OF assms(1)] by (auto simp: set_inserted [OF assms(1,4)])
  finally show "store a' n = Some v \<longleftrightarrow> ((store a)(iname x \<mapsto> iaddr x)) n = Some v" by auto
qed

lemma add_to_array_result:
  assumes "array_ok a" "canonical (iname item)" "room a"
  defines "x \<equiv> item\<lparr>ihash := hash_of (iname item)\<rparr>"
  shows "\<exists>a' r k m. add_to_array a item = Some (a', r) \<and> array_ok a' \<and> found_at (elems a) (iname item) k m
    \<and> elems a' = inserted (elems a) x k
    \<and> r = (if k < length (elems a) \<and> iname (elems a ! k) = iname item then Some (elems a ! k) else None)
    \<and> total_max a' = new_total (amax a) (total_max a) \<and> hash a' = hash a"
proof -
  define b where "b = check_array_size a"
  have b: "array_ok b" "elems b = elems a" "amax b = amax a" "hash b = hash a" "func b = func a"
      "total_max b = new_total (amax a) (total_max a)"
    using check_array_size_ok [OF assms(1)] by (simp_all add: b_def) (simp_all add: check_array_size_eq)
  note ob = array_ok_parts [OF b(1)]
  have xn: "iname x = iname item" "ihash x = hash_of (iname x)" by (simp_all add: x_def)
  have hash: "alist_hash (hash a) (iname item) = Some (hash_of (iname item), Some (hash_mask (min 4 (length (iname item)))))"
    using alist_hash_canonical [OF assms(2)] by (simp add: hash_of_def)
  obtain k m where fa: "found_at (elems a) (iname item) k m"
      and f: "find_array_item b (iname item) = Some (find_result (elems a) (iname item) k m)"
    using find_array_item_result [OF b(1) assms(2)] b(2) by auto
  have kle: "k \<le> amax a" using fa ob(4) b by (auto simp: found_at_def)
  note io = inserted_in_order [OF ob(1), of x k m, unfolded b(2), OF _ xn(2)]
  have oi: "in_order (inserted (elems a) x k)" using io fa assms(2) xn(1) by simp
  show ?thesis
  proof (cases "amax a = 0")
    case True
    then have e: "elems a = []" "k = 0" using ob(4) b(2,3) kle by auto
    have t: "0 < total_max b" using b(6) new_total_ge(2) by simp
    define a' where "a' = b\<lparr>slots := (slots b)[0 := Some x], amax := 1\<rparr>"
    have "array_ok a'" "elems a' = [x]"
      using array_okI [of a' "[x]"] t ob(3) oi e by (cases "slots b"; simp add: a'_def inserted_def)+
    moreover have "add_to_array a item = Some (a', None)"
      using True hash b(3) t by (simp add: add_to_array_def b_def [symmetric] store_item_def a'_def x_def)
    ultimately show ?thesis using fa e b(6,4) by (auto simp: inserted_def a'_def)
  next
    case False
    have t: "amax b + 2 \<le> total_max b" using assms(3) False b by (simp add: room_def)
    have add: "add_to_array a item = (let (_, cnt, location) = find_result (elems a) (iname item) k m in
        if cnt < 0
        then map_option (\<lambda>a'. (a', entry b (int location))) (store_item (b\<lparr>amax := amax b - 1\<rparr>) location x)
        else (case move_array_items b location (amax b) 1 of
                None \<Rightarrow> None
              | Some a \<Rightarrow> map_option (\<lambda>a. (a, None)) (store_item a location x)))"
      unfolding x_def using False hash f b(3)
      by (simp add: add_to_array_def b_def [symmetric] Let_def split: prod.splits)
    have ex: "(\<exists>e \<in> set (elems a). iname e = iname item) \<longleftrightarrow> k < length (elems a) \<and> iname (elems a ! k) = iname item"
      using found_at_name [OF _ fa] ob(1) b(2) by simp
    show ?thesis
    proof (cases "k < length (elems a) \<and> iname (elems a ! k) = iname item")
      case True
      have "k < m" using fa True by (auto simp: found_at_def)
      then have fr: "find_result (elems a) (iname item) k m = (Some (elems a ! k), - int (m - k), k)" "0 < m - k"
        using ex True by (auto simp: find_result_def)
      have kt: "k < total_max b" "k < amax b" using True ob(4) b t by auto
      define a' where "a' = b\<lparr>slots := (slots b)[k := Some x]\<rparr>"
      have "take (amax a') (slots a') = (take (amax b) (slots b))[k := Some x]"
        by (simp add: a'_def take_update_swap)
      also have "take (amax b) (slots b) = map Some (elems a)"
        using array_ok_take [OF b(1)] b(2) by simp
      finally have "take (amax a') (slots a') = map Some (inserted (elems a) x k)"
        using True xn by (simp add: inserted_def map_update)
      from array_okI [OF this _ oi] have "array_ok a'" "elems a' = inserted (elems a) x k"
        using ob True b xn by (simp_all add: a'_def inserted_def)
      moreover have "add_to_array a item = Some (a', Some (elems a ! k))"
        using add fr kt array_ok_entry(1) [OF b(1) kt(2)] b(2,3) False
        by (simp add: store_item_def a'_def)
      ultimately show ?thesis using fa True b(6,4) by (auto simp: a'_def)
    next
      case new: False
      then have "\<not> (\<exists>e \<in> set (elems a). iname e = iname item)" using ex by blast
      then have fr: "\<exists>r c. find_result (elems a) (iname item) k m = (r, c, k) \<and> \<not> c < 0"
        by (auto simp: find_result_def)
      obtain c rest where c: "move_array_items b k (amax b) 1 = Some c"
          "slots c = map Some (take k (elems b)) @ None # map Some (drop k (elems b)) @ rest"
          "total_max c = total_max b" "amax c = amax b" "func c = func b" "hash c = hash b"
        using move_up_items [OF b(1) _ t] kle b(3) by metis
      define a' where "a' = c\<lparr>slots := (slots c)[k := Some x], amax := amax c + 1\<rparr>"
      have lk: "length (map Some (take k (elems b))) = k" using ob(4) kle b(3) by simp
      have s': "slots a' = map Some (take k (elems b) @ x # drop k (elems b)) @ rest"
        using lk by (simp add: a'_def c(2) list_update_append)
      have ins: "inserted (elems a) x k = take k (elems b) @ x # drop k (elems b)"
        using new b(2) xn(1) by (auto simp: inserted_def)
      have len: "length (take k (elems b) @ x # drop k (elems b)) = amax b + 1" using ob(4) kle b(3) by simp
      have am: "amax a' = amax b + 1" using c(4) by (simp add: a'_def)
      have "take (amax a') (slots a') = map Some (inserted (elems a) x k)"
        unfolding s' ins am using len by (metis append_eq_conv_conj length_map)
      from array_okI [OF this _ oi] have "array_ok a'" "elems a' = inserted (elems a) x k"
        using len ins am ob(3) c(5) by (simp_all add: a'_def)
      moreover have "add_to_array a item = Some (a', None)"
        using add fr c t kle b(3) by (auto simp: store_item_def a'_def)
      ultimately show ?thesis using fa new b(6,4) c by (auto simp: a'_def)
    qed
  qed
qed

lemma find_entry:
  assumes "array_ok a" "found_at (elems a) s k m" "k < length (elems a)" "iname (elems a ! k) = s" "canonical s"
  shows "find_array_item a s = Some (Some (elems a ! k), - int (m - k), k)" "k < m"
proof -
  have o: "in_order (elems a)" using array_ok_parts(1) [OF assms(1)] .
  show "k < m" using assms(2,3,4) by (auto simp: found_at_def)
  obtain k' m' where f: "found_at (elems a) s k' m'" "find_array_item a s = Some (find_result (elems a) s k' m')"
    using find_array_item_result [OF assms(1,5)] by blast
  have "k' < length (elems a) \<and> iname (elems a ! k') = s"
    using found_at_name [OF o f(1)] assms(3,4) by (metis nth_mem)
  moreover have "k' = k"
  proof (rule ccontr)
    assume "k' \<noteq> k"
    then show False
      using in_order_nth(3) [OF o, of k k'] in_order_nth(3) [OF o, of k' k] calculation assms(3,4) by fastforce
  qed
  moreover have "m' = m"
  proof (rule ccontr)
    assume "m' \<noteq> m"
    then consider "m' < m" | "m < m'" by linarith
    then show False
    proof cases
      case 1
      then show False using assms(2) f(1) \<open>k' = k\<close> \<open>k < m\<close> unfolding found_at_def by (meson leI le_less_trans less_le_trans order_less_irrefl)
    next
      case 2
      then show False using assms(2) f(1) \<open>k' = k\<close> \<open>k < m\<close> unfolding found_at_def by (meson leI le_less_trans less_le_trans order_less_irrefl)
    qed
  qed
  ultimately show "find_array_item a s = Some (Some (elems a ! k), - int (m - k), k)"
    using f(2) \<open>k < m\<close> assms(3,4) by (auto simp: find_result_def)
qed

lemma move_down_items:
  assumes "array_ok a" "k < amax a" "amax a < total_max a"
  obtains a' rest where "move_array_items a (k + 1) (amax a) (- 1) = Some a'"
    "slots a' = map Some (take k (elems a) @ drop (Suc k) (elems a)) @ rest"
    "total_max a' = total_max a" "amax a' = amax a" "func a' = func a" "hash a' = hash a"
proof -
  obtain rest where s: "slots a = map Some (elems a) @ rest" using slots_split assms(1) by blast
  define n where "n = amax a - Suc k"
  have kn: "amax a = Suc k + n" using assms(2) by (simp add: n_def)
  have l: "length (elems a) = Suc k + n" using array_ok_parts(4) [OF assms(1)] kn by simp
  obtain r rest' where rest: "rest = r # rest'" using s assms(3) l kn by (cases rest) auto
  have "copy_items [Suc k..<Suc (Suc k + n)] (- 1) (slots a) =
      Some (take (Suc k - 1) (slots a) @ take (Suc n) (drop (Suc k) (slots a)) @ drop (Suc k + n) (slots a))"
    by (rule copy_items_down) (use assms(3) kn in simp_all)
  also have "take (Suc k - 1) (slots a) = map Some (take k (elems a))" using l by (simp add: s take_map)
  also have "take (Suc n) (drop (Suc k) (slots a)) = map Some (drop (Suc k) (elems a)) @ [r]"
    using l by (simp add: s rest drop_map)
  also have "drop (Suc k + n) (slots a) = r # rest'" using l by (simp add: s rest)
  finally have c: "copy_items [k + 1..<Suc (amax a)] (- 1) (slots a) =
      Some (map Some (take k (elems a) @ drop (Suc k) (elems a)) @ r # r # rest')"
    by (simp add: kn)
  show ?thesis
    by (rule that [of "a\<lparr>slots := map Some (take k (elems a) @ drop (Suc k) (elems a)) @ r # r # rest'\<rparr>" "r # r # rest'"])
      (use c l s rest in \<open>simp_all add: move_array_items_def\<close>)
qed

lemma in_order_remove:
  assumes "in_order es"
  shows "in_order (take k es @ drop (Suc k) es)"
proof (cases "k < length es")
  case True
  have "in_order (take k es @ es ! k # drop (Suc k) es)" using assms id_take_nth_drop [OF True] by metis
  then show ?thesis by (auto simp: in_order_def sorted_wrt_append)
qed (use assms in simp)

lemma add_store:
  assumes "array_ok a" "canonical (iname item)" "room a"
  shows "\<exists>a' r. add_to_array a item = Some (a', r) \<and> array_ok a'
    \<and> store a' = (store a)(iname item \<mapsto> iaddr item)
    \<and> map_option iaddr r = store a (iname item)"
proof -
  define x where "x = item\<lparr>ihash := hash_of (iname item)\<rparr>"
  obtain a' r k m where R: "add_to_array a item = Some (a', r)" "array_ok a'" "found_at (elems a) (iname item) k m"
      "elems a' = inserted (elems a) x k"
      "r = (if k < length (elems a) \<and> iname (elems a ! k) = iname item then Some (elems a ! k) else None)"
    using add_to_array_result [OF assms] unfolding x_def by blast
  note o = array_ok_parts(1) [OF assms(1)]
  have "store a' = (store a)(iname x \<mapsto> iaddr x)"
    by (rule store_inserted [OF o array_ok_parts(1) [OF R(2)] R(4)]) (use R(3) in \<open>simp add: x_def\<close>)
  moreover have "map_option iaddr r = store a (iname item)"
  proof (rule store_eqI)
    fix v
    have "\<exists>e \<in> set (elems a). iname e = iname item \<and> iaddr e = v"
      if "k < length (elems a)" "iname (elems a ! k) = iname item" "iaddr (elems a ! k) = v"
      using that by auto
    moreover have "iaddr (elems a ! k) = v"
      if "k < length (elems a)" "iname (elems a ! k) = iname item" "store a (iname item) = Some v"
      using calculation store_Some [OF o] that by (metis nth_mem option.inject)
    ultimately show "map_option iaddr r = Some v \<longleftrightarrow> store a (iname item) = Some v"
      using R(5) store_Some [OF o, of "iname item" v] found_at_name [OF o R(3)] by auto
  qed
  ultimately show ?thesis using R(1,2) by (auto simp: x_def)
qed

text \<open>
  C33: adding an item to an array in order, when there is room for two more pointers, keeps the
  array in order and makes the item's name stand for it; an item that had the name is
  replaced and returned, and all other names keep their items.
\<close>
theorem add_to_array_refines:
  assumes "array_ok a" "canonical (iname item)" "room a"
  shows "\<exists>a' r. add_to_array a item = Some (a', r) \<and> array_ok a'
    \<and> store a' = (store a)(iname item \<mapsto> iaddr item)
    \<and> map_option iaddr r = store a (iname item)"
  using add_store [OF assms] .

lemma remove_result:
  assumes "array_ok a" "canonical s" "amax a < total_max a"
  shows "\<exists>a' r. remove_from_array a s = Some (a', r) \<and> array_ok a' \<and> total_max a' = total_max a \<and> hash a' = hash a
    \<and> store a' = (store a)(s := None) \<and> map_option iaddr r = store a s"
proof -
  note ob = array_ok_parts [OF assms(1)]
  obtain k m where fa: "found_at (elems a) s k m"
      and f: "find_array_item a s = Some (find_result (elems a) s k m)"
    using find_array_item_result [OF assms(1,2)] by blast
  have ex: "(\<exists>e \<in> set (elems a). iname e = s) \<longleftrightarrow> k < length (elems a) \<and> iname (elems a ! k) = s"
    using found_at_name [OF ob(1) fa] .
  show ?thesis
  proof (cases "k < length (elems a) \<and> iname (elems a ! k) = s")
    case False
    then have "\<exists>r c. find_result (elems a) s k m = (r, c, k) \<and> 0 \<le> c" using ex by (auto simp: find_result_def)
    then have "remove_from_array a s = Some (a, None)" using f by (auto simp: remove_from_array_def)
    moreover have "store a s = None"
      using False ex store_Some [OF ob(1), of s] by (metis not_None_eq)
    ultimately show ?thesis using assms(1) by (auto simp: fun_upd_idem)
  next
    case True
    then have kn: "k < amax a" using ob(4) by simp
    have e: "entry a (int k) = Some (elems a ! k)" using array_ok_entry(1) [OF assms(1) kn] .
    obtain c rest where c: "move_array_items a (k + 1) (amax a) (- 1) = Some c"
        "slots c = map Some (take k (elems a) @ drop (Suc k) (elems a)) @ rest"
        "total_max c = total_max a" "amax c = amax a" "func c = func a" "hash c = hash a"
      using move_down_items [OF assms(1) kn assms(3)] by blast
    define a' where "a' = c\<lparr>amax := amax a - 1\<rparr>"
    have l: "length (take k (elems a) @ drop (Suc k) (elems a)) = amax a - 1" using ob(4) kn by simp
    then have "take (amax a') (slots a') = map Some (take k (elems a) @ drop (Suc k) (elems a))"
      using c(2) by (simp add: a'_def)
    from array_okI [OF this] have ok: "array_ok a'" "elems a' = take k (elems a) @ drop (Suc k) (elems a)"
      using l in_order_remove [OF ob(1)] ob(3) c(5) by (simp_all add: a'_def)
    have "remove_from_array a s = Some (a', Some (elems a ! k))"
      using find_entry(1,2) [OF assms(1) fa _ _ assms(2)] True kn c(1) e
      by (simp add: remove_from_array_def array_pop_def a'_def)
    moreover have "store a' = (store a)(s := None)"
    proof (rule ext, rule store_eqI)
      fix n v
      have d: "distinct (map iname (take k (elems a) @ elems a ! k # drop (Suc k) (elems a)))"
        using in_order_distinct [OF ob(1)] id_take_nth_drop [of k "elems a"] True by simp
      have "set (elems a) = insert (elems a ! k) (set (elems a'))"
        using id_take_nth_drop [of k "elems a"] True ok(2) by (metis Un_insert_right list.simps(15) set_append)
      then have "store a n = Some v \<longleftrightarrow> iname (elems a ! k) = n \<and> iaddr (elems a ! k) = v
          \<or> (\<exists>e \<in> set (elems a'). iname e = n \<and> iaddr e = v)"
        unfolding store_Some [OF ob(1)] by simp
      moreover have "store a' n = Some v \<longleftrightarrow> (\<exists>e \<in> set (elems a'). iname e = n \<and> iaddr e = v)"
        by (rule store_Some [OF array_ok_parts(1) [OF ok(1)]])
      moreover have "\<forall>e \<in> set (elems a'). iname e \<noteq> s"
      proof -
        have "s \<notin> iname ` set (elems a')" using d True ok(2) by auto
        then show ?thesis by (metis imageI)
      qed
      ultimately show "store a' n = Some v \<longleftrightarrow> ((store a)(s := None)) n = Some v"
        using True by (cases "n = s") auto
    qed
    moreover have "store a s = Some (iaddr (elems a ! k))" using store_Some [OF ob(1)] True by auto
    ultimately show ?thesis using ok(1) c by (auto simp: a'_def)
  qed
qed

text \<open>
  removing a name from an array in order that is not full (the code reads one pointer
  behind the last item) takes exactly that name out and returns its item, or nothing when
  no item has the name.
\<close>
theorem remove_from_array_refines:
  assumes "array_ok a" "canonical s" "amax a < total_max a"
  shows "\<exists>a' r. remove_from_array a s = Some (a', r) \<and> array_ok a'
    \<and> store a' = (store a)(s := None) \<and> map_option iaddr r = store a s"
  using remove_result [OF assms] by blast

subsection \<open>The size of the block\<close>

datatype array_op = Add Array_item | Remove cstr

fun run_ops :: "array_op list \<Rightarrow> Array \<Rightarrow> Array option" where
  "run_ops [] a = Some a"
| "run_ops (Add item # ops) a =
     (case add_to_array a item of None \<Rightarrow> None | Some (a', _) \<Rightarrow> run_ops ops a')"
| "run_ops (Remove s # ops) a =
     (case remove_from_array a s of None \<Rightarrow> None | Some (a', _) \<Rightarrow> run_ops ops a')"

definition empty_array :: "hash_type \<Rightarrow> Array" where
  "empty_array h = \<lparr>slots = [], amax = 0, func = strncmp, hash = h\<rparr>"

definition grown :: "Array \<Rightarrow> bool" where
  "grown a \<longleftrightarrow> amax a = 0 \<and> total_max a = 0 \<or> amax a = 1 \<and> total_max a \<in> {3, 6}
     \<or> 2 \<le> amax a \<and> amax a + 1 \<le> total_max a \<and> total_max a \<le> 3 * amax a"

lemma grown_room: "grown a \<Longrightarrow> room a"
  by (auto simp: grown_def room_def new_total_def)

lemma grown_step:
  assumes "grown a" "total_max a' = new_total (amax a) (total_max a)"
    "amax a' = amax a + 1 \<or> 0 < amax a \<and> amax a' = amax a"
  shows "grown a'"
proof -
  have "n' = n + 1 \<or> 0 < n \<and> n' = n \<Longrightarrow>
      n = 0 \<and> t = 0 \<or> n = 1 \<and> (t = 3 \<or> t = 6) \<or> 2 \<le> n \<and> n + 1 \<le> t \<and> t \<le> 3 * n \<Longrightarrow>
      n' = 1 \<and> (new_total n t = 3 \<or> new_total n t = 6) \<or> 2 \<le> n' \<and> n' + 1 \<le> new_total n t \<and> new_total n t \<le> 3 * n'"
    for n n' t :: nat
    by (elim disjE conjE) (auto simp: new_total_def)
  from this [OF assms(3), of "total_max a"] show ?thesis
    using assms(1,2) by (simp add: grown_def)
qed

lemma array_ok_empty: "array_ok (empty_array h)"
  by (simp add: array_ok_def empty_array_def elems_def in_order_def)

lemma adds_grown:
  assumes "array_ok a" "grown a" "\<forall>it \<in> set its. canonical (iname it)"
  shows "\<exists>a'. run_ops (map Add its) a = Some a' \<and> array_ok a' \<and> grown a'
    \<and> store a' = store a ++ map_of (rev (map (\<lambda>it. (iname it, iaddr it)) its))"
  using assms
proof (induction its arbitrary: a)
  case (Cons it its)
  have c: "canonical (iname it)" and r: "room a" using Cons.prems grown_room by auto
  obtain a1 old where a1: "add_to_array a it = Some (a1, old)" "store a1 = (store a)(iname it \<mapsto> iaddr it)"
    using add_store [OF Cons.prems(1) c r] by blast
  obtain k where k: "array_ok a1" "elems a1 = inserted (elems a) (it\<lparr>ihash := hash_of (iname it)\<rparr>) k"
      "total_max a1 = new_total (amax a) (total_max a)"
    using add_to_array_result [OF Cons.prems(1) c r] a1(1) by auto
  have "length (elems a1) = length (elems a) + 1 \<or> 0 < length (elems a) \<and> length (elems a1) = length (elems a)"
    using k(2) by (auto simp: inserted_def min_def)
  then have "grown a1"
    using array_ok_parts(4) [OF Cons.prems(1)] array_ok_parts(4) [OF k(1)] k(3) Cons.prems(2)
    by (intro grown_step [OF Cons.prems(2)]) auto
  then obtain a' where a': "run_ops (map Add its) a1 = Some a'" "array_ok a'" "grown a'"
      "store a' = store a1 ++ map_of (rev (map (\<lambda>it. (iname it, iaddr it)) its))"
    using Cons.IH [OF k(1)] Cons.prems(3) by auto
  have "store a ++ map_of (rev (map (\<lambda>it. (iname it, iaddr it)) (it # its))) =
      store a1 ++ map_of (rev (map (\<lambda>it. (iname it, iaddr it)) its))"
    unfolding a1(2) by (rule ext) (simp add: map_add_def split: option.split)
  then show ?case using a' a1(1) by simp
qed simp

text \<open>
  starting from an empty array, any sequence of additions of such names stays inside the
  block, and the array then maps each name to the item added last under it.
\<close>
theorem additions_stay_inside:
  assumes "\<forall>it \<in> set its. canonical (iname it)"
  shows "\<exists>a'. run_ops (map Add its) (empty_array h) = Some a' \<and> array_ok a'
    \<and> store a' = map_of (rev (map (\<lambda>it. (iname it, iaddr it)) its))"
proof -
  have "grown (empty_array h)" by (simp add: grown_def empty_array_def)
  moreover have "store (empty_array h) = Map.empty" by (simp add: store_def elems_def empty_array_def)
  ultimately show ?thesis using adds_grown [OF array_ok_empty _ assms] by (metis empty_map_add)
qed

definition named :: "cstr \<Rightarrow> nat \<Rightarrow> Array_item" where
  "named s adr = \<lparr>iname = s, ihash = 0, iaddr = adr\<rparr>"

text \<open>
  with removals the block can become too small: adding and removing one name three times
  halves the block to a single pointer, and the next new name is written behind its end.
\<close>
theorem removals_shrink_too_far:
  "run_ops [Add (named ''A'' 1), Remove ''A'', Add (named ''A'' 2), Remove ''A'', Add (named ''A'' 3),
     Add (named ''B'' 4)] (empty_array h) = None"
proof (cases h)
  case HASH_INSENSITIVE
  show ?thesis unfolding HASH_INSENSITIVE by code_simp
next
  case HASH_SENSITIVE
  show ?thesis unfolding HASH_SENSITIVE by code_simp
qed

subsection \<open>Tables that do not change\<close>

text \<open>
  \<open>find_fixed_array_item\<close> on the names of a table. \<open>old_pos\<close> is the position compared last; an
  empty table is read at position 0 all the same.
\<close>

partial_function (option) fixed_loop :: "int \<Rightarrow> (nat \<Rightarrow> int option) \<Rightarrow> nat \<Rightarrow> nat \<Rightarrow> (bool \<times> nat) option" where
  "fixed_loop old_pos cmp lo hi =
     (let p = (hi + lo) div 2
      in if int p = old_pos then Some (False, p)
         else (case cmp p of
                 None \<Rightarrow> None
               | Some c \<Rightarrow>
                   (if c = 0 then Some (True, p)
                    else if 0 < c then fixed_loop (int p) cmp p hi
                    else fixed_loop (int p) cmp lo p)))"

definition find_fixed_array_item :: "cstr list \<Rightarrow> cstr \<Rightarrow> (nat option \<times> int \<times> nat) option" where
  "find_fixed_array_item names s =
     (let len = length s;
          cmp = (\<lambda>i. if i < length names then Some (strncmp s (names ! i) len) else None);
          hit = (\<lambda>i. map_option (\<lambda>c. c = 0) (cmp i))
      in case fixed_loop (- 1) cmp 0 (length names) of
           None \<Rightarrow> None
         | Some (False, p) \<Rightarrow> Some (None, 0, p)
         | Some (True, p) \<Rightarrow>
             (case (run_down (\<lambda>i. hit (i - 1)) p, run_up hit (length names) (Suc p)) of
                (Some first, Some behind) \<Rightarrow>
                  let cnt = int (behind - first)
                  in Some (Some first, if length (names ! first) = len then - cnt else cnt, first)
              | _ \<Rightarrow> None))"

definition table_items :: "cstr list \<Rightarrow> Array_item list" where
  "table_items = map (\<lambda>n. \<lparr>iname = n, ihash = hash_of n, iaddr = 0\<rparr>)"

definition table_ok :: "cstr list \<Rightarrow> bool" where
  "table_ok names \<longleftrightarrow> names \<noteq> [] \<and> sorted_wrt (\<lambda>s t. okey s < okey t) names \<and> list_all canonical names"

lemma table_in_order: "table_ok names \<Longrightarrow> in_order (table_items names)"
  by (auto simp: table_ok_def in_order_def table_items_def sorted_wrt_map list_all_iff)

lemma fixed_loop_result:
  assumes "\<And>i. i < n \<Longrightarrow> cmp i = Some (c i)"
    "\<And>i j. i \<le> j \<Longrightarrow> j < n \<Longrightarrow> (c i < 0 \<longrightarrow> c j < 0) \<and> (0 < c j \<longrightarrow> 0 < (c i :: int))"
    "lo \<le> hi" "hi \<le> n" "lo < n" "\<forall>i < lo. 0 < c i" "\<forall>i. hi \<le> i \<and> i < n \<longrightarrow> c i < 0"
    "old = - 1 \<and> lo < hi \<or> old = int lo \<and> 0 < c lo \<or> old = int hi \<and> hi < n"
  shows "\<exists>b p. fixed_loop old cmp lo hi = Some (b, p) \<and> p < n \<and> (if b then c p = 0 else \<forall>i < n. c i \<noteq> 0)"
  using assms(3-8)
proof (induction "2 * (hi - lo) + (if int ((hi + lo) div 2) = old then 0 else 1)" arbitrary: lo hi old rule: less_induct)
  case less
  define p where "p = (hi + lo) div 2"
  have lp: "lo \<le> p" "p \<le> hi" using less.prems by (auto simp: p_def)
  show ?case
  proof (cases "int p = old")
    case True
    have *: "old = int lo \<and> hi \<le> lo + 1 \<and> 0 < c lo \<or> lo = hi \<and> hi < n" using True less.prems(6) lp by (auto simp: p_def)
    have "c i \<noteq> 0" if "i < n" for i
    proof -
      have "i < lo \<or> i = lo \<or> hi \<le> i" using * by auto
      moreover have "i = lo \<longrightarrow> 0 < c lo \<or> hi \<le> i" using * by auto
      ultimately have "0 < c i \<or> c i < 0" using less.prems(4,5) that by blast
      then show ?thesis by auto
    qed
    then show ?thesis using True lp less.prems by (subst fixed_loop.simps) (auto simp: p_def)
  next
    case False
    have pn: "p < n"
      using less.prems lp False by (auto simp: p_def)
    then have cp: "cmp p = Some (c p)" using assms(1) by simp
    consider "c p = 0" | "0 < c p" | "c p < 0" by linarith
    then show ?thesis
    proof cases
      case 1
      then show ?thesis using False cp pn by (subst fixed_loop.simps) (auto simp: p_def [symmetric])
    next
      case 2
      have "\<exists>b q. fixed_loop (int p) cmp p hi = Some (b, q) \<and> q < n \<and> (if b then c q = 0 else \<forall>i < n. c i \<noteq> 0)"
      proof (rule less.hyps)
        show "2 * (hi - p) + (if int ((hi + p) div 2) = int p then 0 else 1)
            < 2 * (hi - lo) + (if int ((hi + lo) div 2) = old then 0 else 1)"
          using False lp by (auto simp: p_def)
        show "\<forall>i < p. 0 < c i" using assms(2) [of _ p] 2 pn by auto
      qed (use lp pn 2 less.prems in auto)
      then show ?thesis using False cp 2 by (subst fixed_loop.simps) (auto simp: p_def [symmetric])
    next
      case 3
      have "\<exists>b q. fixed_loop (int p) cmp lo p = Some (b, q) \<and> q < n \<and> (if b then c q = 0 else \<forall>i < n. c i \<noteq> 0)"
      proof (rule less.hyps)
        show "2 * (p - lo) + (if int ((p + lo) div 2) = int p then 0 else 1)
            < 2 * (hi - lo) + (if int ((hi + lo) div 2) = old then 0 else 1)"
          using False lp by (auto simp: p_def)
        show "\<forall>i. p \<le> i \<and> i < n \<longrightarrow> c i < 0" using assms(2) [of p] 3 by auto
      qed (use lp pn 3 less.prems in auto)
      then show ?thesis using False cp 3 by (subst fixed_loop.simps) (auto simp: p_def [symmetric])
    qed
  qed
qed

lemma boundary_nat:
  assumes "k \<le> n" "\<forall>i < k. 0 < c (int i)" "\<forall>i. k \<le> i \<and> i < n \<longrightarrow> c (int i) < 0"
  shows "boundary c (int n) (int k)"
proof -
  have "0 < c i" if "0 \<le> i" "i < int k" for i using assms(2) [rule_format, of "nat i"] that by (simp add: le_nat_iff)
  moreover have "c i < 0" if "int k \<le> i" "i < int n" for i using assms(3) [rule_format, of "nat i"] that by (simp add: le_nat_iff)
  ultimately show ?thesis using assms(1) by (simp add: boundary_def)
qed

text \<open>
  In a table of names in order the search finds exactly the names that start with the
  text: nothing when there is none, otherwise the place of the first and their number,
  negative exactly when one of them is the text itself.
\<close>
theorem find_fixed_array_item_prefix:
  assumes "table_ok names" "canonical s"
  shows "\<exists>k m p. found_at (table_items names) s k m \<and> find_fixed_array_item names s =
    Some (if k = m then (None, 0, p) else (Some k, if s \<in> set names then - int (m - k) else int (m - k), k))"
proof -
  define es where "es = table_items names"
  define n where "n = length names"
  define c where "c = (\<lambda>i. by_name es s (int i))"
  define cmp where "cmp = (\<lambda>i. if i < length names then Some (strncmp s (names ! i) (length s)) else None)"
  have o: "in_order es" "length es = n" using table_in_order [OF assms(1)] by (simp_all add: es_def table_items_def n_def)
  have nm: "iname (es ! i) = names ! i" if "i < n" for i using that by (simp add: es_def table_items_def n_def)
  have cmp: "cmp i = Some (c i)" if "i < n" for i using that nm by (simp add: cmp_def c_def by_name_def n_def)
  have d: "(c i < 0 \<longrightarrow> c j < 0) \<and> (0 < c j \<longrightarrow> 0 < c i)" if "i \<le> j" "j < n" for i j
    using decr_by_name [OF o(1) assms(2)] that o(2) unfolding decr_def c_def
    by (metis of_nat_0_le_iff of_nat_le_iff of_nat_less_iff)
  have "0 < n" using assms(1) by (simp add: table_ok_def n_def)
  then obtain b p where bp: "fixed_loop (- 1) cmp 0 n = Some (b, p)" "p < n" "if b then c p = 0 else \<forall>i < n. c i \<noteq> 0"
    using fixed_loop_result [of n cmp c 0 n "- 1", OF cmp d] by auto
  have ex: "(\<exists>e \<in> set es. iname e = s) \<longleftrightarrow> s \<in> set names" by (auto simp: es_def table_items_def)
  show ?thesis
  proof (cases b)
    case False
    have "\<exists>k. k \<le> n \<and> (\<forall>i < k. 0 < c i) \<and> (\<forall>i. k \<le> i \<and> i < n \<longrightarrow> c i < 0)"
    proof (cases "\<exists>i < n. c i < 0")
      case True
      define k where "k = (LEAST i. i < n \<and> c i < 0)"
      have k: "k < n" "c k < 0" using LeastI_ex [OF True] by (auto simp: k_def)
      have "0 < c i" if "i < k" for i
        using not_less_Least [of i "\<lambda>i. i < n \<and> c i < 0"] that k(1) bp(3) False
        by (auto simp: k_def [symmetric]) (metis less_trans linorder_less_linear)
      then show ?thesis using k d by (meson less_imp_le_nat)
    next
      case none: False
      then show ?thesis using bp(3) False by (metis linorder_less_linear not_le order_refl)
    qed
    then obtain k where "k \<le> n" "\<forall>i < k. 0 < c i" "\<forall>i. k \<le> i \<and> i < n \<longrightarrow> c i < 0" by blast
    then have "boundary (by_name es s) (int (length es)) (int k)"
      unfolding o(2) by (intro boundary_nat) (simp_all add: c_def)
    from found_at_boundary [OF o(1) assms(2) this] have "found_at es s k k" by simp
    moreover have "find_fixed_array_item names s = Some (None, 0, p)"
      using bp(1) False by (simp add: find_fixed_array_item_def cmp_def n_def Let_def)
    ultimately show ?thesis
      unfolding es_def by (intro exI [of _ k] exI [of _ k] exI [of _ p]) simp
  next
    case True
    define hit where "hit = (\<lambda>i. map_option (\<lambda>c. c = 0) (cmp i))"
    have hit: "hit i = Some (by_name es s (int i) = 0)" if "i < n" for i using cmp [OF that] by (simp add: hit_def c_def)
    have q: "by_name es s (int p) = 0" using True bp(3) by (simp add: c_def)
    obtain k m where km: "run_down (\<lambda>i. hit (i - 1)) p = Some k" "run_up hit n (Suc p) = Some m"
        "k < m" "m \<le> n" "\<forall>i. k \<le> i \<and> i < m \<longrightarrow> by_name es s (int i) = 0"
        "k = 0 \<or> by_name es s (int (k - 1)) \<noteq> 0" "m = n \<or> by_name es s (int m) \<noteq> 0"
      using name_run [of n hit "\<lambda>i. by_name es s (int i) = 0", OF hit bp(2) q] by blast
    have fa: "found_at es s k m" by (rule found_at_hits [OF o(1) assms(2) km(3)]) (use km o(2) in auto)
    have "length (names ! k) = length s \<longleftrightarrow> s \<in> set names"
      using found_at_exact [OF o(1) fa km(3)] nm [of k] km(3,4) ex by simp
    then have "find_fixed_array_item names s = Some (Some k, if s \<in> set names then - int (m - k) else int (m - k), k)"
      using True unfolding find_fixed_array_item_def Let_def bp(1) [unfolded cmp_def n_def]
      by (simp add: km(1,2) [unfolded hit_def cmp_def n_def] del: One_nat_def)
    then show ?thesis
      using fa km(3) unfolding es_def by (intro exI [of _ k] exI [of _ m] exI [of _ 0]) simp
  qed
qed

subsection \<open>What the users of an array rely on\<close>

text \<open>
  The exact lookup of alias.c: \<open>find_array_item\<close> and the test of the sign of the count.
\<close>

definition look_exact :: "Array \<Rightarrow> cstr \<Rightarrow> Array_item option option" where
  "look_exact a s =
     (case find_array_item a s of
        None \<Rightarrow> None
      | Some (r, cnt, _) \<Rightarrow> Some (if cnt < 0 then r else None))"

locale item_store =
  fixes ok :: "'s \<Rightarrow> bool"
    and roomy :: "'s \<Rightarrow> bool"
    and spare :: "'s \<Rightarrow> bool"
    and name_ok :: "cstr \<Rightarrow> bool"
    and content :: "'s \<Rightarrow> cstr \<Rightarrow> nat option"
    and look :: "'s \<Rightarrow> cstr \<Rightarrow> Array_item option option"
    and put :: "'s \<Rightarrow> Array_item \<Rightarrow> ('s \<times> Array_item option) option"
    and take_out :: "'s \<Rightarrow> cstr \<Rightarrow> ('s \<times> Array_item option) option"
  assumes look_content: "ok s \<Longrightarrow> name_ok n \<Longrightarrow> \<exists>r. look s n = Some r \<and> map_option iaddr r = content s n
      \<and> (\<forall>e. r = Some e \<longrightarrow> iname e = n)"
    and put_content: "ok s \<Longrightarrow> name_ok (iname e) \<Longrightarrow> roomy s \<Longrightarrow>
      \<exists>s' r. put s e = Some (s', r) \<and> ok s' \<and> content s' = (content s)(iname e \<mapsto> iaddr e)"
    and take_out_content: "ok s \<Longrightarrow> name_ok n \<Longrightarrow> spare s \<Longrightarrow>
      \<exists>s' r. take_out s n = Some (s', r) \<and> ok s' \<and> content s' = (content s)(n := None)
        \<and> map_option iaddr r = content s n"
begin

text \<open>A cache of items is sound when each of them is the one the store has for its name.\<close>

definition cache_ok :: "'s \<Rightarrow> Array_item option list \<Rightarrow> bool" where
  "cache_ok s c \<longleftrightarrow> (\<forall>e. Some e \<in> set c \<longrightarrow> content s (iname e) = Some (iaddr e))"

lemma cache_hit_looks_up:
  assumes "ok s" "name_ok n" "cache_ok s c" "Some e \<in> set c" "iname e = n"
  shows "\<exists>f. look s n = Some (Some f) \<and> iaddr f = iaddr e"
proof -
  have "content s n = Some (iaddr e)" using assms(3-5) by (auto simp: cache_ok_def)
  then show ?thesis using look_content [OF assms(1,2)] by auto
qed

lemma cache_ok_after_put:
  assumes "ok s" "name_ok (iname e)" "roomy s" "cache_ok s c" "content s (iname e) = None" "put s e = Some (s', r)"
  shows "ok s' \<and> cache_ok s' c \<and> content s' = (content s)(iname e \<mapsto> iaddr e)"
  using put_content [OF assms(1-3)] assms(4-6) unfolding cache_ok_def by fastforce

lemma cache_ok_after_take_out:
  assumes "ok s" "name_ok n" "spare s" "cache_ok s c" "take_out s n = Some (s', r)"
  shows "ok s' \<and> content s' = (content s)(n := None)
    \<and> cache_ok s' (map (\<lambda>x. if \<exists>e f. x = Some e \<and> r = Some f \<and> iaddr e = iaddr f then None else x) c)"
proof -
  have t: "ok s'" "content s' = (content s)(n := None)" "map_option iaddr r = content s n"
    using take_out_content [OF assms(1-3)] assms(5) by auto
  have "content s' (iname e) = Some (iaddr e)"
    if "Some e \<in> set c" "\<not> (\<exists>f. r = Some f \<and> iaddr e = iaddr f)" for e
  proof -
    have e: "content s (iname e) = Some (iaddr e)" using assms(4) that(1) by (simp add: cache_ok_def)
    then have "iname e \<noteq> n" using that(2) t(3) by auto
    then show ?thesis using e t(2) by simp
  qed
  then show ?thesis using t(1,2) unfolding cache_ok_def by (auto split: if_splits)
qed

end

lemma look_exact_result:
  assumes "array_ok a" "canonical n"
  shows "\<exists>r. look_exact a n = Some r \<and> map_option iaddr r = store a n \<and> (\<forall>e. r = Some e \<longrightarrow> iname e = n)"
proof -
  note o = array_ok_parts(1) [OF assms(1)]
  obtain k m where f: "found_at (elems a) n k m" "find_array_item a n = Some (find_result (elems a) n k m)"
    using find_array_item_result [OF assms] by blast
  note nm = found_at_name [OF o f(1)]
  show ?thesis
  proof (cases "k < length (elems a) \<and> iname (elems a ! k) = n")
    case True
    then have "k < m" using f(1) by (auto simp: found_at_def)
    then have "look_exact a n = Some (Some (elems a ! k))"
      using f(2) nm True by (auto simp: look_exact_def find_result_def)
    moreover have "store a n = Some (iaddr (elems a ! k))" using True store_Some [OF o] by auto
    ultimately show ?thesis using True by simp
  next
    case False
    then have "store a n = None" using nm store_Some [OF o, of n] by (metis not_None_eq)
    moreover have "look_exact a n = Some None" using f(2) nm False by (auto simp: look_exact_def find_result_def)
    ultimately show ?thesis by simp
  qed
qed

interpretation hashed: item_store array_ok room "\<lambda>a. amax a < total_max a" canonical store
    look_exact add_to_array remove_from_array
proof
  show "\<exists>s' r. add_to_array s e = Some (s', r) \<and> array_ok s' \<and> store s' = (store s)(iname e \<mapsto> iaddr e)"
    if "array_ok s" "canonical (iname e)" "room s" for s e
    using add_store [OF that] by blast
  show "\<exists>s' r. remove_from_array s n = Some (s', r) \<and> array_ok s' \<and> store s' = (store s)(n := None)
      \<and> map_option iaddr r = store s n"
    if "array_ok s" "canonical n" "amax s < total_max s" for s n
    using remove_result [OF that] by blast
qed (rule look_exact_result)

subsection \<open>Witnesses\<close>

text \<open>An array with the names \<open>A\<close> and \<open>AB\<close>.\<close>

definition example_array :: Array where
  "example_array =
     \<lparr>slots = [Some (named ''A'' 1 \<lparr>ihash := hash_of ''A''\<rparr>), Some (named ''AB'' 2 \<lparr>ihash := hash_of ''AB''\<rparr>),
        None, None, None, None], amax = 2, func = strncmp, hash = HASH_SENSITIVE\<rparr>"

lemma example_array_ok: "array_ok example_array" "room example_array" "amax example_array < total_max example_array"
  "elems example_array = [named ''A'' 1 \<lparr>ihash := hash_of ''A''\<rparr>, named ''AB'' 2 \<lparr>ihash := hash_of ''AB''\<rparr>]"
  by (simp_all add: example_array_def array_ok_def elems_def in_order_def named_def canonical_def plain_char_def
      room_def new_total_def okey_def)

lemma canonical_examples: "canonical ''A''" "canonical ''AB''" "canonical ''B''"
  by (simp_all add: canonical_def plain_char_def)

theorem find_array_item_prefix_witness:
  "\<exists>e. find_array_item example_array ''A'' = Some (Some e, - 2, 0)"
proof -
  obtain k m where f: "found_at (elems example_array) ''A'' k m" "find_array_item example_array ''A'' =
      Some (if k = m then (None, 0, k)
        else (Some (elems example_array ! k),
          if \<exists>e \<in> set (elems example_array). iname e = ''A'' then - int (m - k) else int (m - k), k))"
    using find_array_item_prefix [OF example_array_ok(1) canonical_examples(1)] by blast
  then have i: "(okey (iname (elems example_array ! i)) < okey ''A'' \<longleftrightarrow> i < k)
      \<and> (prefix ''A'' (iname (elems example_array ! i)) \<longleftrightarrow> k \<le> i \<and> i < m)" if "i < 2" for i
    using that by (simp add: found_at_def example_array_ok(4))
  have "k = 0" using i [of 0] by (simp add: example_array_ok(4) named_def)
  moreover have "m \<le> 2" using f(1) by (simp add: found_at_def example_array_ok(4))
  ultimately have "m = 2" using i [of 1] by (simp add: example_array_ok(4) named_def)
  then show ?thesis using f(2) \<open>k = 0\<close> by (simp add: example_array_ok(4) named_def)
qed

theorem add_to_array_refines_witness:
  "\<exists>a' r. add_to_array example_array (named ''B'' 3) = Some (a', r) \<and> store a' ''B'' = Some 3"
  using add_to_array_refines [OF example_array_ok(1), of "named ''B'' 3"] canonical_examples(3) example_array_ok(2)
  by (fastforce simp: named_def)

theorem remove_from_array_refines_witness:
  "\<exists>a' r. remove_from_array example_array ''A'' = Some (a', r) \<and> store a' ''A'' = None"
  using remove_from_array_refines [OF example_array_ok(1) canonical_examples(1) example_array_ok(3)] by fastforce

theorem additions_stay_inside_witness:
  "\<exists>a'. run_ops (map Add [named ''A'' 1, named ''AB'' 2, named ''A'' 3]) (empty_array HASH_SENSITIVE) = Some a'
    \<and> store a' ''A'' = Some 3"
proof -
  have "\<forall>it \<in> set [named ''A'' 1, named ''AB'' 2, named ''A'' 3]. canonical (iname it)"
    using canonical_examples by (simp add: named_def)
  from additions_stay_inside [OF this, of HASH_SENSITIVE] show ?thesis by (auto simp: named_def)
qed

theorem find_fixed_array_item_prefix_witness:
  "find_fixed_array_item [''A'', ''AB'', ''B''] ''A'' = Some (Some 0, - 2, 0)"
proof -
  have "table_ok [''A'', ''AB'', ''B'']" using canonical_examples by (simp add: table_ok_def okey_def)
  from find_fixed_array_item_prefix [OF this canonical_examples(1)]
  obtain k m p where f: "found_at (table_items [''A'', ''AB'', ''B'']) ''A'' k m"
      "find_fixed_array_item [''A'', ''AB'', ''B''] ''A'' =
        Some (if k = m then (None, 0, p)
          else (Some k, if ''A'' \<in> set [''A'', ''AB'', ''B''] then - int (m - k) else int (m - k), k))" by blast
  then have i: "(okey (iname (table_items [''A'', ''AB'', ''B''] ! i)) < okey ''A'' \<longleftrightarrow> i < k)
      \<and> (prefix ''A'' (iname (table_items [''A'', ''AB'', ''B''] ! i)) \<longleftrightarrow> k \<le> i \<and> i < m)" if "i < 3" for i
    using that by (simp add: found_at_def table_items_def)
  have "k = 0" using i [of 0] by (simp add: table_items_def)
  moreover have "m = 2" using i [of 1] i [of 2] \<open>k = 0\<close> by (simp add: table_items_def)
  ultimately show ?thesis using f(2) by simp
qed

end
