(* ===== verification/AliasVars.thy ===== *)
theory AliasVars
  imports HashArray
begin

section \<open>Global variables and their cache (source/alias.c)\<close>

text \<open>
  The table of global variables is a hashed array of pointers to \<open>Alias\<close> structures together
  with a cache of the ten variables that were looked up last. The fields of a structure that
  change (\<open>stuff\<close> and \<open>stub\<close>) are kept in a store by address; its name and hash never change
  once it is in the table and stay with the pointer. The counters of cache hits and misses
  and the texts for the user are left out.
\<close>

abbreviation ALIAS_CACHE_SIZE :: nat where "ALIAS_CACHE_SIZE \<equiv> 10"

record alias_vars =
  arr :: Array
  cache :: "Array_item option list"
  stuff :: "nat \<Rightarrow> cstr option"
  stub :: "nat \<Rightarrow> cstr option"
  already_looking :: bool

text \<open>
  \<open>AliasSet\<close> has no field for the kind of hash: where \<open>Array\<close> has it, \<open>AliasSet\<close> has the
  pointer to the cache. So the names are hashed without regard to case until the cache is
  allocated, and with regard to case from then on.
\<close>

definition as_array :: "alias_vars \<Rightarrow> Array" where
  "as_array v = (arr v)\<lparr>hash := if cache v = [] then HASH_INSENSITIVE else HASH_SENSITIVE\<rparr>"

definition resize_cache :: "alias_vars \<Rightarrow> nat \<Rightarrow> alias_vars" where
  "resize_cache v n = v\<lparr>cache := n_realloc n (cache v)\<rparr>"

fun cache_find :: "Array_item option list \<Rightarrow> 32 word \<Rightarrow> cstr \<Rightarrow> (nat \<times> Array_item) option" where
  "cache_find [] h n = None"
| "cache_find (x # c) h n =
     (case x of
        Some e \<Rightarrow> if ihash e = h \<and> strcmp n (iname e) = 0 then Some (0, e)
                  else map_option (\<lambda>(i, f). (Suc i, f)) (cache_find c h n)
      | None \<Rightarrow> map_option (\<lambda>(i, f). (Suc i, f)) (cache_find c h n))"

text \<open>\<open>for (i = cache; i > 0; i--) cache[i] = cache[i - 1]; cache[0] = item\<close>\<close>

definition move_to_front :: "nat \<Rightarrow> Array_item \<Rightarrow> alias_vars \<Rightarrow> alias_vars" where
  "move_to_front i e v = v\<lparr>cache := Some e # take i (cache v) @ drop (Suc i) (cache v)\<rparr>"

definition lookup_cached :: "alias_vars \<Rightarrow> cstr \<Rightarrow> (alias_vars \<times> Array_item option) option" where
  "lookup_cached v name =
     (case alist_hash HASH_SENSITIVE name of
        None \<Rightarrow> None
      | Some (h, _) \<Rightarrow>
          let n = (if strcmp name ''::'' = 0 then drop 2 name else name);
              v = (if length (cache v) = 0 then resize_cache v ALIAS_CACHE_SIZE else v)
          in case cache_find (cache v) h n of
               Some (i, e) \<Rightarrow> Some (move_to_front i e v, Some e)
             | None \<Rightarrow>
                 (case find_array_item (as_array v) n of
                    None \<Rightarrow> None
                  | Some (r, cnt, _) \<Rightarrow>
                      (case r of
                         Some e \<Rightarrow> if cnt < 0 then Some (move_to_front (length (cache v) - 1) e v, Some e)
                                   else Some (v, None)
                       | None \<Rightarrow> Some (v, None))))"

definition forget :: "Array_item \<Rightarrow> Array_item option list \<Rightarrow> Array_item option list" where
  "forget e = map (\<lambda>x. case x of Some f \<Rightarrow> if iaddr f = iaddr e then None else x | None \<Rightarrow> None)"

definition delete_var_alias :: "alias_vars \<Rightarrow> cstr \<Rightarrow> alias_vars option" where
  "delete_var_alias v name =
     (case remove_from_array (as_array v) (upper name) of
        None \<Rightarrow> None
      | Some (a, None) \<Rightarrow> Some (v\<lparr>arr := a\<rparr>)
      | Some (a, Some e) \<Rightarrow>
          Some (v\<lparr>arr := a, cache := forget e (cache v),
                  stuff := (stuff v)(iaddr e := None), stub := (stub v)(iaddr e := None)\<rparr>))"

text \<open>
  \<open>load\<close> reads the file of a stubbed variable; it may change all variables and may not return.
\<close>

definition unstub_alias ::
  "(cstr \<Rightarrow> alias_vars \<Rightarrow> alias_vars option) \<Rightarrow> Array_item \<Rightarrow> cstr \<Rightarrow> alias_vars \<Rightarrow> alias_vars option" where
  "unstub_alias load e file v =
     (let v = v\<lparr>stub := (stub v)(iaddr e := None)\<rparr>
      in if already_looking v then Some v
         else map_option (\<lambda>v. v\<lparr>already_looking := False\<rparr>) (load file (v\<lparr>already_looking := True\<rparr>)))"

definition delete_if_unset :: "alias_vars \<times> Array_item option \<Rightarrow> (alias_vars \<times> Array_item option) option" where
  "delete_if_unset = (\<lambda>(v, r).
     case r of
       None \<Rightarrow> Some (v, None)
     | Some e \<Rightarrow>
         if stuff v (iaddr e) = None
         then map_option (\<lambda>v'. (v', None)) (delete_var_alias v (iname e))
         else Some (v, Some e))"

partial_function (option) find_var_alias ::
  "alias_vars \<Rightarrow> cstr \<Rightarrow> (cstr \<Rightarrow> alias_vars \<Rightarrow> alias_vars option) \<Rightarrow> (alias_vars \<times> Array_item option) option" where
  "find_var_alias v name load =
     Option.bind (lookup_cached v name) (\<lambda>p.
       case snd p of
         None \<Rightarrow> Some (fst p, None)
       | Some e \<Rightarrow>
           (case stub (fst p) (iaddr e) of
              None \<Rightarrow> Some (fst p, Some e)
            | Some file \<Rightarrow>
                Option.bind (unstub_alias load e file (fst p)) (\<lambda>v2.
                  Option.bind (find_var_alias v2 name load) delete_if_unset)))"

text \<open>
  \<open>add_var_alias\<close> after the checks of the name: an empty value deletes the variable. \<open>adr\<close> is the
  address \<open>make_new_Alias\<close> gets for a new structure.
\<close>

definition set_var :: "nat \<Rightarrow> alias_vars \<Rightarrow> cstr \<Rightarrow> cstr option \<Rightarrow> alias_vars option" where
  "set_var adr v name value =
     (case value of
        None \<Rightarrow> delete_var_alias v name
      | Some w \<Rightarrow>
          if w = [] then delete_var_alias v name
          else (case find_array_item (as_array v) name of
                  None \<Rightarrow> None
                | Some (r, cnt, _) \<Rightarrow>
                    (let fill = (\<lambda>v a. v\<lparr>stuff := (stuff v)(a := Some w), stub := (stub v)(a := None)\<rparr>)
                     in case (if 0 \<le> cnt then None else r) of
                          Some e \<Rightarrow> Some (fill v (iaddr e))
                        | None \<Rightarrow>
                            map_option (\<lambda>(a, _). fill (v\<lparr>arr := a\<rparr>) adr)
                              (add_to_array (as_array v) \<lparr>iname = name, ihash = 0, iaddr = adr\<rparr>))))"

subsection \<open>The cache changes nothing\<close>

definition vars_ok :: "alias_vars \<Rightarrow> bool" where
  "vars_ok v \<longleftrightarrow> array_ok (arr v) \<and> hashed.cache_ok (arr v) (cache v)
     \<and> length (cache v) \<in> {0, ALIAS_CACHE_SIZE}
     \<and> inj_on (store (arr v)) (dom (store (arr v)))"

definition var_values :: "alias_vars \<Rightarrow> cstr \<Rightarrow> cstr option" where
  "var_values v n = Option.bind (store (arr v) n) (stuff v)"

lemma dom_inj: "inj_on f (dom f) \<Longrightarrow> f m = Some b \<Longrightarrow> f k = Some b \<Longrightarrow> m = k"
  by (metis domI inj_onD)

lemma inj_upd:
  assumes "inj_on f (dom f)" "\<And>m. f m \<noteq> Some a"
  shows "inj_on (f(n \<mapsto> a)) (dom (f(n \<mapsto> a)))"
proof (rule inj_onI)
  fix m k
  assume a: "(f(n \<mapsto> a)) m = (f(n \<mapsto> a)) k" "m \<in> dom (f(n \<mapsto> a))" "k \<in> dom (f(n \<mapsto> a))"
  show "m = k"
  proof (cases "m = n \<or> k = n")
    case True
    then show ?thesis using a(1) assms(2) by (metis fun_upd_apply)
  next
    case False
    then show ?thesis using a inj_onD [OF assms(1), of m k] by simp
  qed
qed

lemma inj_del: "inj_on f (dom f) \<Longrightarrow> inj_on (f(n := None)) (dom (f(n := None)))"
  by (rule inj_onI) (auto split: if_splits dest: inj_onD)

lemma as_array_simps [simp]:
  "array_ok (as_array v) = array_ok (arr v)" "store (as_array v) = store (arr v)" "elems (as_array v) = elems (arr v)"
  "room (as_array v) = room (arr v)" "amax (as_array v) = amax (arr v)" "slots (as_array v) = slots (arr v)"
  by (simp_all add: as_array_def array_ok_def store_def elems_def room_def fun_eq_iff)

lemma store_name_ok: "array_ok a \<Longrightarrow> store a n = Some b \<Longrightarrow> canonical n"
  using store_Some [OF array_ok_parts(1)] array_ok_parts(1) by (fastforce simp: in_order_def)

lemma cached_name_ok: "vars_ok v \<Longrightarrow> Some e \<in> set (cache v) \<Longrightarrow> canonical (iname e)"
  by (auto simp: vars_ok_def hashed.cache_ok_def dest: store_name_ok)

lemma cache_find_hit: "cache_find c h n = Some (i, e) \<Longrightarrow> i < length c \<and> c ! i = Some e \<and> strcmp n (iname e) = 0"
proof (induction c arbitrary: i)
  case (Cons x c)
  then show ?case by (cases x) (auto split: if_splits)
qed simp

lemma cache_find_name:
  assumes "vars_ok v" "canonical n" "cache_find (cache v) h n = Some (i, e)"
  shows "i < length (cache v)" "Some e \<in> set (cache v)" "iname e = n"
proof -
  from cache_find_hit [OF assms(3)] have c: "i < length (cache v)" "cache v ! i = Some e" "strcmp n (iname e) = 0"
    by auto
  then show "i < length (cache v)" "Some e \<in> set (cache v)" by (auto simp: in_set_conv_nth)
  then show "iname e = n"
    using c(3) strcmp_zero_iff canonical_no_nul [OF assms(2)] canonical_no_nul [OF cached_name_ok [OF assms(1)]] by metis
qed

lemma vars_ok_cache:
  assumes "vars_ok v" "\<forall>e. Some e \<in> set c \<longrightarrow> store (arr v) (iname e) = Some (iaddr e)" "length c \<in> {0, ALIAS_CACHE_SIZE}"
  shows "vars_ok (v\<lparr>cache := c\<rparr>)"
  using assms by (simp add: vars_ok_def hashed.cache_ok_def)

lemma vars_ok_resize: "vars_ok v \<Longrightarrow> vars_ok (resize_cache v ALIAS_CACHE_SIZE)"
  unfolding resize_cache_def
  by (rule vars_ok_cache) (auto simp: n_realloc_def vars_ok_def hashed.cache_ok_def dest: in_set_takeD)

lemma vars_ok_front:
  assumes "vars_ok v" "store (arr v) (iname e) = Some (iaddr e)" "i < length (cache v)"
  shows "vars_ok (move_to_front i e v)"
  unfolding move_to_front_def
proof (rule vars_ok_cache [OF assms(1)])
  show "\<forall>f. Some f \<in> set (Some e # take i (cache v) @ drop (Suc i) (cache v)) \<longrightarrow> store (arr v) (iname f) = Some (iaddr f)"
    using assms(1,2) by (auto simp: vars_ok_def hashed.cache_ok_def dest: in_set_takeD in_set_dropD)
qed (use assms(1,3) in \<open>auto simp: vars_ok_def\<close>)

lemma lookup_cached_result:
  assumes "vars_ok v" "canonical n" "n \<noteq> ''::''"
  shows "\<exists>v' r. lookup_cached v n = Some (v', r) \<and> vars_ok v' \<and> length (cache v') = ALIAS_CACHE_SIZE
    \<and> arr v' = arr v \<and> stuff v' = stuff v \<and> stub v' = stub v \<and> already_looking v' = already_looking v
    \<and> map_option iaddr r = store (arr v) n \<and> (\<forall>e. r = Some e \<longrightarrow> iname e = n)"
proof -
  define w where "w = (if length (cache v) = 0 then resize_cache v ALIAS_CACHE_SIZE else v)"
  have w: "vars_ok w" "length (cache w) = ALIAS_CACHE_SIZE" "arr w = arr v" "stuff w = stuff v" "stub w = stub v"
      "already_looking w = already_looking v"
    using assms(1) vars_ok_resize [OF assms(1)] by (auto simp: w_def vars_ok_def resize_cache_def)
  have aw: "array_ok (as_array w)" using w(1) by (simp add: vars_ok_def)
  have nn: "strcmp n ''::'' \<noteq> 0" using strcmp_zero_iff [OF canonical_no_nul [OF assms(2)]] assms(3) by simp
  have L: "lookup_cached v n =
      (case cache_find (cache w) (hash_of n) n of
         Some (i, e) \<Rightarrow> Some (move_to_front i e w, Some e)
       | None \<Rightarrow>
           (case find_array_item (as_array w) n of
              None \<Rightarrow> None
            | Some (r, cnt, _) \<Rightarrow>
                (case r of
                   Some e \<Rightarrow> if cnt < 0 then Some (move_to_front (length (cache w) - 1) e w, Some e) else Some (w, None)
                 | None \<Rightarrow> Some (w, None))))"
    unfolding lookup_cached_def w_def hash_of_def using nn by (simp add: alist_hash_canonical [OF assms(2)] Let_def)
  obtain r0 where r0: "look_exact (as_array w) n = Some r0" "map_option iaddr r0 = store (arr w) n"
      "\<forall>e. r0 = Some e \<longrightarrow> iname e = n"
    using look_exact_result [OF aw assms(2)] by auto
  show ?thesis
  proof (cases "cache_find (cache w) (hash_of n) n")
    case (Some p)
    obtain i e where p: "p = (i, e)" by (cases p)
    note c = cache_find_name [OF w(1) assms(2) Some [unfolded p]]
    have "store (arr w) n = Some (iaddr e)" using w(1) c(2,3) by (auto simp: vars_ok_def hashed.cache_ok_def)
    then show ?thesis
      using L Some p w c vars_ok_front [OF w(1) _ c(1)] by (auto simp: move_to_front_def)
  next
    case None
    obtain r cnt loc where f: "find_array_item (as_array w) n = Some (r, cnt, loc)" "r0 = (if cnt < 0 then r else None)"
      using r0(1) by (auto simp: look_exact_def split: option.splits prod.splits)
    show ?thesis
    proof (cases "r0")
      case (Some e)
      then have "cnt < 0" "r = Some e" using f(2) by (auto split: if_splits)
      moreover have "vars_ok (move_to_front (length (cache w) - 1) e w)"
        using vars_ok_front [OF w(1), of e] r0(2,3) Some w(2) by simp
      ultimately show ?thesis
        using L None f(1) w r0 Some by (auto simp: move_to_front_def)
    next
      case none: None
      then have "lookup_cached v n = Some (w, None)"
        using L None f by (auto split: option.splits if_splits)
      then show ?thesis using w r0 none by auto
    qed
  qed
qed

text \<open>
  C34: looking up a variable with no stub gives exactly what the table holds under its name,
  whatever the cache held before; the table and all values stay as they are and the cache
  stays sound.
\<close>
theorem find_var_alias_transparent:
  assumes "vars_ok v" "canonical n" "n \<noteq> ''::''" "\<And>a. store (arr v) n = Some a \<Longrightarrow> stub v a = None"
  shows "\<exists>v' r. find_var_alias v n load = Some (v', r) \<and> vars_ok v' \<and> var_values v' = var_values v
    \<and> map_option iaddr r = store (arr v) n"
proof -
  obtain v' r where l: "lookup_cached v n = Some (v', r)" "vars_ok v'" "arr v' = arr v" "stuff v' = stuff v"
      "stub v' = stub v" "map_option iaddr r = store (arr v) n"
    using lookup_cached_result [OF assms(1-3)] by auto
  have "stub v' (iaddr e) = None" if "r = Some e" for e using assms(4) l(5,6) that by auto
  then have "find_var_alias v n load = Some (v', r)"
    using l(1) by (subst find_var_alias.simps) (auto split: option.split)
  moreover have "var_values v' = var_values v" using l(3,4) by (simp add: var_values_def [abs_def])
  ultimately show ?thesis using l by blast
qed

subsection \<open>Setting and deleting\<close>

lemma upper_plain: "plain_char c \<Longrightarrow> c_toupper c = c"
  by (auto simp: c_toupper_def is_lower_def plain_char_def)

lemma upper_canonical: "canonical n \<Longrightarrow> upper n = n"
  by (auto simp: upper_def canonical_def upper_plain intro: map_idI)

lemma forget_eq: "forget e c = map (\<lambda>x. if \<exists>f g. x = Some f \<and> Some e = Some g \<and> iaddr f = iaddr g then None else x) c"
  by (auto simp: forget_def split: option.split)

lemma delete_var_result:
  assumes "vars_ok v" "canonical n" "amax (arr v) < total_max (arr v)"
  shows "\<exists>v'. delete_var_alias v n = Some v' \<and> vars_ok v' \<and> var_values v' = (var_values v)(n := None)"
proof -
  have ok: "array_ok (as_array v)" "amax (as_array v) < total_max (as_array v)" "hashed.cache_ok (as_array v) (cache v)"
    using assms by (simp_all add: vars_ok_def hashed.cache_ok_def)
  obtain a r where t: "remove_from_array (as_array v) n = Some (a, r)" "array_ok a"
      "store a = (store (arr v))(n := None)" "map_option iaddr r = store (arr v) n"
    using hashed.take_out_content [OF ok(1) assms(2) ok(2)] by auto
  note c = hashed.cache_ok_after_take_out [OF ok(1) assms(2) ok(2,3) t(1)]
  have io: "inj_on (store (arr v)) (dom (store (arr v)))" using assms(1) by (simp add: vars_ok_def)
  note inj = dom_inj [OF io]
  show ?thesis
  proof (cases r)
    case None
    then have "store (arr v) n = None" using t(4) by simp
    moreover have "delete_var_alias v n = Some (v\<lparr>arr := a\<rparr>)"
      using t(1) None by (simp add: delete_var_alias_def upper_canonical [OF assms(2)])
    moreover have "vars_ok (v\<lparr>arr := a\<rparr>)"
      using assms(1) t(2,3) calculation(1) by (simp add: vars_ok_def hashed.cache_ok_def fun_upd_idem)
    ultimately show ?thesis using t(3) by (auto simp: var_values_def fun_eq_iff)
  next
    case (Some e)
    define v' where "v' = v\<lparr>arr := a, cache := forget e (cache v),
        stuff := (stuff v)(iaddr e := None), stub := (stub v)(iaddr e := None)\<rparr>"
    have "delete_var_alias v n = Some v'"
      using t(1) Some by (simp add: delete_var_alias_def upper_canonical [OF assms(2)] v'_def)
    moreover have "vars_ok v'"
    proof -
      have "hashed.cache_ok a (forget e (cache v))" using c unfolding Some forget_eq by blast
      moreover have "inj_on (store a) (dom (store a))" unfolding t(3) by (rule inj_del [OF io])
      ultimately show ?thesis
        using t(2) assms(1) unfolding vars_ok_def v'_def by (simp add: forget_def)
    qed
    moreover have "var_values v' = (var_values v)(n := None)"
    proof
      fix m
      have "store (arr v) m \<noteq> Some (iaddr e)" if "m \<noteq> n" using t(4) Some inj that by (metis option.simps(9))
      then show "var_values v' m = ((var_values v)(n := None)) m"
        using t(3) by (cases "m = n"; cases "store (arr v) m") (auto simp: var_values_def v'_def)
    qed
    ultimately show ?thesis by blast
  qed
qed

text \<open>
  Deleting a variable removes exactly its value, also from the cache.
\<close>
theorem delete_var_alias_refines:
  assumes "vars_ok v" "canonical n" "amax (arr v) < total_max (arr v)"
  shows "\<exists>v'. delete_var_alias v n = Some v' \<and> vars_ok v' \<and> var_values v' = (var_values v)(n := None)"
  using delete_var_result [OF assms] .

text \<open>
  assigning a value to a variable, while there is room for a new name and the address of a
  new structure is not in use, changes exactly that variable; assigning nothing deletes it.
\<close>
theorem set_var_refines:
  assumes "vars_ok v" "canonical n" "room (arr v)" "amax (arr v) < total_max (arr v) \<or> w \<noteq> []"
    "\<And>m. store (arr v) m \<noteq> Some adr"
  shows "\<exists>v'. set_var adr v n (Some w) = Some v' \<and> vars_ok v'
    \<and> var_values v' = (var_values v)(n := if w = [] then None else Some w)"
proof (cases "w = []")
  case True
  then show ?thesis using delete_var_result [OF assms(1,2)] assms(4) by (simp add: set_var_def)
next
  case False
  have ok: "array_ok (as_array v)" "room (as_array v)" "hashed.cache_ok (as_array v) (cache v)"
    using assms by (simp_all add: vars_ok_def hashed.cache_ok_def)
  have io: "inj_on (store (arr v)) (dom (store (arr v)))" using assms(1) by (simp add: vars_ok_def)
  note inj = dom_inj [OF io]
  define fill where "fill = (\<lambda>v a. v\<lparr>stuff := (stuff v)(a := Some w), stub := (stub v)(a := None)\<rparr> :: alias_vars)"
  define x where "x = \<lparr>iname = n, ihash = 0, iaddr = adr\<rparr>"
  obtain r where r: "look_exact (as_array v) n = Some r" "map_option iaddr r = store (arr v) n"
      "\<forall>e. r = Some e \<longrightarrow> iname e = n"
    using look_exact_result [OF ok(1) assms(2)] by auto
  then obtain r0 cnt loc where f: "find_array_item (as_array v) n = Some (r0, cnt, loc)" "r = (if cnt < 0 then r0 else None)"
    by (auto simp: look_exact_def split: option.splits prod.splits)
  have S: "set_var adr v n (Some w) =
      (case r of Some e \<Rightarrow> Some (fill v (iaddr e))
       | None \<Rightarrow> map_option (\<lambda>(a, _). fill (v\<lparr>arr := a\<rparr>) adr) (add_to_array (as_array v) x))"
    unfolding fill_def x_def using f False by (simp add: set_var_def Let_def not_less split: if_splits)
  show ?thesis
  proof (cases r)
    case (Some e)
    have "vars_ok (fill v (iaddr e))" using assms(1) by (simp add: vars_ok_def fill_def)
    moreover have "var_values (fill v (iaddr e)) = (var_values v)(n := Some w)"
    proof
      fix m
      have "store (arr v) m \<noteq> Some (iaddr e)" if "m \<noteq> n" using r(2) Some inj that by (metis option.simps(9))
      moreover have "store (arr v) n = Some (iaddr e)" using r(2) Some by simp
      ultimately show "var_values (fill v (iaddr e)) m = ((var_values v)(n := Some w)) m"
        by (cases "m = n"; cases "store (arr v) m") (auto simp: var_values_def fill_def)
    qed
    ultimately show ?thesis using S Some False by simp
  next
    case None
    have none: "store (as_array v) (iname x) = None" using r(2) None by (simp add: x_def)
    have c: "canonical (iname x)" using assms(2) by (simp add: x_def)
    obtain a old where a: "add_to_array (as_array v) x = Some (a, old)"
      using hashed.put_content [OF ok(1) c ok(2)] by blast
    note p = hashed.cache_ok_after_put [OF ok(1) c ok(2,3) none a]
    have s: "store a = (store (arr v))(n \<mapsto> adr)" using p by (simp add: x_def)
    have "inj_on (store a) (dom (store a))" unfolding s by (rule inj_upd [OF io assms(5)])
    then have "vars_ok (fill (v\<lparr>arr := a\<rparr>) adr)"
      using p assms(1) unfolding vars_ok_def fill_def by simp
    moreover have "var_values (fill (v\<lparr>arr := a\<rparr>) adr) = (var_values v)(n := Some w)"
    proof
      fix m
      show "var_values (fill (v\<lparr>arr := a\<rparr>) adr) m = ((var_values v)(n := Some w)) m"
        using s assms(5) [of m] by (cases "store (arr v) m") (auto simp: var_values_def fill_def)
    qed
    ultimately show ?thesis using S None a False by simp
  qed
qed

subsection \<open>Witnesses\<close>

definition example_vars :: alias_vars where
  "example_vars =
     \<lparr>arr = example_array, cache = [], stuff = [1 \<mapsto> ''one'', 2 \<mapsto> ''two''], stub = Map.empty, already_looking = False\<rparr>"

lemma example_store: "store example_array = [''A'' \<mapsto> 1, ''AB'' \<mapsto> 2]"
  by (auto simp: store_def example_array_ok(4) named_def fun_eq_iff)

lemma example_vars_ok: "vars_ok example_vars"
  using example_array_ok(1)
  by (auto simp: vars_ok_def example_vars_def hashed.cache_ok_def example_store inj_on_def split: if_splits)

theorem find_var_alias_transparent_witness:
  "\<exists>v' r. find_var_alias example_vars ''AB'' (\<lambda>_. Some) = Some (v', r) \<and> map_option iaddr r = Some 2"
  using find_var_alias_transparent [OF example_vars_ok canonical_examples(2), of "\<lambda>_. Some"]
  by (auto simp: example_vars_def example_store)

theorem delete_var_alias_refines_witness:
  "\<exists>v'. delete_var_alias example_vars ''A'' = Some v' \<and> var_values v' ''A'' = None"
  using delete_var_alias_refines [OF example_vars_ok canonical_examples(1)] example_array_ok(3)
  by (auto simp: example_vars_def)

theorem set_var_refines_witness:
  "\<exists>v'. set_var 3 example_vars ''B'' (Some ''three'') = Some v' \<and> var_values v' ''B'' = Some ''three''"
proof -
  have "store (arr example_vars) m \<noteq> Some 3" for m by (simp add: example_vars_def example_store)
  from set_var_refines [OF example_vars_ok canonical_examples(3), of "''three''", OF _ _ this] example_array_ok(2)
  show ?thesis by (auto simp: example_vars_def)
qed

end
