(* ===== verification/History.thy ===== *)
theory History
  imports WildMatch
begin

section \<open>The command history (source/history.c)\<close>

text \<open>
  The history is a doubly linked list, newest line first, whose nodes are freed at the other
  end when it is full. Two pointers stay behind from earlier calls: the place of browsing,
  \<open>command_history_pos\<close>, and \<open>tmp\<close>, where the last search stopped. A node is named by its
  address, which is not used again; a pointer whose address is not in the list points to a
  freed node, and following it is the result \<open>None\<close>. The settings \<open>HISTORY\<close> and
  \<open>HISTORY_CIRCLEQ\<close>, the command characters and the input line are parameters.
\<close>

record hist_node =
  haddr :: nat
  number :: int
  line :: cstr

record history =
  entries :: "hist_node list"  \<comment> \<open>from \<open>command_history_head\<close> to \<open>command_history_tail\<close>\<close>
  hist_size :: nat
  hist_count :: int
  last_dir :: int
  htmp :: "nat option"
  hpos :: "nat option"
  last_com :: "cstr option"
  fresh :: nat

abbreviation NEXT_DIR :: int where "NEXT_DIR \<equiv> 0"
abbreviation PREV_DIR :: int where "PREV_DIR \<equiv> 1"

definition history_init :: history where
  "history_init = \<lparr>entries = [], hist_size = 0, hist_count = 0, last_dir = -1, htmp = None, hpos = None,
     last_com = None, fresh = 0\<rparr>"

text \<open>A node, with the newer nodes before it and the older ones behind it.\<close>

definition newer :: "hist_node list \<Rightarrow> nat \<Rightarrow> hist_node list" where
  "newer es a = takeWhile (\<lambda>e. haddr e \<noteq> a) es"

definition from_node :: "hist_node list \<Rightarrow> nat \<Rightarrow> hist_node list option" where
  "from_node es a = (case dropWhile (\<lambda>e. haddr e \<noteq> a) es of [] \<Rightarrow> None | e # r \<Rightarrow> Some (e # r))"

subsection \<open>Adding lines\<close>

definition add_to_history_list :: "nat \<Rightarrow> int \<Rightarrow> cstr \<Rightarrow> history \<Rightarrow> history" where
  "add_to_history_list limit num stuff st =
     (if limit = 0 then st
      else if hist_size st = limit \<and> entries st \<noteq> [] \<and> hist_size st = 1
      then st\<lparr>entries := butlast (entries st) @ [(last (entries st))\<lparr>line := stuff\<rparr>]\<rparr>
      else
        let es = (if hist_size st = limit \<and> entries st \<noteq> [] then butlast (entries st) else entries st);
            n = (if hist_size st = limit \<and> entries st \<noteq> [] then hist_size st else hist_size st + 1)
        in st\<lparr>entries := \<lparr>haddr = fresh st, number = num, line = stuff\<rparr> # es,
              hist_size := n, hpos := None, fresh := fresh st + 1\<rparr>)"

lemma first_in_length: "first_in P s = Some r \<Longrightarrow> length r \<le> length s \<and> r \<noteq> []"
  by (induction s) (auto split: if_splits)

lemma sindex_rest: "sindex s g = Some r \<Longrightarrow> length (tl r) < length s"
proof -
  assume "sindex s g = Some r"
  then have "length r \<le> length s \<and> r \<noteq> []" unfolding sindex_def by (metis first_in_length)
  then show ?thesis by (cases r) auto
qed

text \<open>
  The lines of a text: each ends at a newline or carriage return; the loop ends at an empty
  line, so what follows one is dropped.
\<close>

function add_to_history :: "nat \<Rightarrow> cstr \<Rightarrow> history \<Rightarrow> history" where
  "add_to_history limit text st =
     (if text = [] then st
      else let rest = sindex text [CHR 0x0A, CHR 0x0D];
               l = takeWhile (\<lambda>c. c \<noteq> CHR 0x0A \<and> c \<noteq> CHR 0x0D) text;
               st' = add_to_history_list limit (hist_count st) l st;
               st'' = st'\<lparr>last_dir := PREV_DIR, hist_count := hist_count st' + 1\<rparr>
           in case rest of None \<Rightarrow> st'' | Some r \<Rightarrow> add_to_history limit (tl r) st'')"
  by pat_completeness auto

termination
  by (relation "measure (\<lambda>(_, s, _). length s)") (simp, simp, metis length_tl One_nat_def sindex_rest)

declare add_to_history.simps [simp del]

fun drop_tail :: "nat \<Rightarrow> hist_node list \<Rightarrow> hist_node list option" where
  "drop_tail 0 es = Some es"
| "drop_tail (Suc n) es = (if es = [] then None else drop_tail n (butlast es))"

text \<open>\<open>set_history_size\<close> frees the oldest lines; it does not look at \<open>command_history_pos\<close> or \<open>tmp\<close>.\<close>

definition set_history_size :: "nat \<Rightarrow> history \<Rightarrow> history option" where
  "set_history_size n st =
     (if n < hist_size st
      then map_option (\<lambda>es. st\<lparr>entries := es, hist_size := n\<rparr>) (drop_tail (hist_size st - n) (entries st))
      else Some st)"

subsection \<open>Browsing\<close>

definition get_from_history :: "nat \<Rightarrow> bool \<Rightarrow> cstr option \<Rightarrow> int \<Rightarrow> history \<Rightarrow> (history \<times> cstr option) option" where
  "get_from_history limit circleq input which st =
     (if limit = 0 \<or> hist_size st = 0 then Some (st, None)
      else
        let add = (\<lambda>st. case input of None \<Rightarrow> st | Some i \<Rightarrow> add_to_history limit i st);
            head = (\<lambda>st. case entries st of [] \<Rightarrow> None | e # _ \<Rightarrow> Some (haddr e));
            tail = (\<lambda>st. if entries st = [] then None else Some (haddr (last (entries st))));
            moved =
              (if which = NEXT_DIR
               then (case hpos st of
                       Some a \<Rightarrow>
                         if from_node (entries st) a = None then None
                         else if newer (entries st) a \<noteq> []
                         then Some (st\<lparr>hpos := Some (haddr (last (newer (entries st) a)))\<rparr>)
                         else if circleq then Some (st\<lparr>hpos := tail st\<rparr>)
                         else Some (st\<lparr>hpos := None\<rparr>)
                     | None \<Rightarrow>
                         if circleq then (let st1 = add st in Some (st1\<lparr>hpos := tail st1\<rparr>)) else Some st)
               else (case hpos st of
                       Some a \<Rightarrow>
                         (case from_node (entries st) a of
                            None \<Rightarrow> None
                          | Some es \<Rightarrow>
                              (case tl es of
                                 e # _ \<Rightarrow> Some (st\<lparr>hpos := Some (haddr e)\<rparr>)
                               | [] \<Rightarrow> if circleq then Some (st\<lparr>hpos := head st\<rparr>) else Some st))
                     | None \<Rightarrow>
                         if input = None \<or> input = Some [] then Some (st\<lparr>hpos := head st\<rparr>)
                         else let st1 = add st
                              in (case entries st1 of
                                    [] \<Rightarrow> None
                                  | [e] \<Rightarrow> Some (st1\<lparr>hpos := Some (haddr e)\<rparr>)
                                  | _ # e # _ \<Rightarrow> Some (st1\<lparr>hpos := Some (haddr e)\<rparr>))))
        in case moved of
             None \<Rightarrow> None
           | Some st2 \<Rightarrow>
               (case hpos st2 of
                  None \<Rightarrow> Some (st2, None)
                | Some a \<Rightarrow>
                    (case from_node (entries st2) a of
                       None \<Rightarrow> None
                     | Some es \<Rightarrow> Some (st2, Some (line (hd es))))))"

definition abort_history_browsing :: "history \<Rightarrow> history" where
  "abort_history_browsing st = st\<lparr>hpos := None\<rparr>"

subsection \<open>Searching\<close>

text \<open>
  \<open>while (ptr && strchr(cmdchars, *ptr)) ptr++\<close>: \<open>strchr\<close> also finds the NUL, so a line of
  command characters only is read past its end.
\<close>

fun skip_cmdchars :: "cstr \<Rightarrow> cstr \<Rightarrow> cstr option" where
  "skip_cmdchars cmdchars [] = None"
| "skip_cmdchars cmdchars (c # s) = (if c \<in> set cmdchars then skip_cmdchars cmdchars s else Some (c # s))"

fun match_from :: "cstr \<Rightarrow> cstr \<Rightarrow> hist_node list \<Rightarrow> hist_node option option" where
  "match_from cmdchars pat [] = Some None"
| "match_from cmdchars pat (e # es) =
     (case skip_cmdchars cmdchars (line e) of
        None \<Rightarrow> None
      | Some ptr \<Rightarrow>
          (case wild_match pat ptr of
             None \<Rightarrow> None
           | Some m \<Rightarrow> if m \<noteq> 0 then Some (Some e) else match_from cmdchars pat es))"

definition history_match :: "nat \<Rightarrow> cstr \<Rightarrow> cstr \<Rightarrow> history \<Rightarrow> (history \<times> cstr option) option" where
  "history_match limit cmdchars m st =
     (if m = [] then None
      else
        let pat = (if last m = CHR ''*'' then m else m @ ''*'');
            start = (if last_dir st = -1 \<or> htmp st = None then Some (entries st)
                     else map_option tl (from_node (entries st) (the (htmp st))))
        in if limit = 0 then Some (st\<lparr>last_dir := -1\<rparr>, None)
           else case start of
             None \<Rightarrow> None
           | Some es \<Rightarrow>
               (case match_from cmdchars pat es of
                  None \<Rightarrow> None
                | Some None \<Rightarrow> Some (st\<lparr>htmp := None, last_dir := -1\<rparr>, None)
                | Some (Some e) \<Rightarrow> Some (st\<lparr>htmp := Some (haddr e), last_dir := PREV_DIR\<rparr>, Some (line e))))"

definition do_history :: "nat \<Rightarrow> cstr \<Rightarrow> cstr option \<Rightarrow> cstr \<Rightarrow> history \<Rightarrow> (history \<times> cstr option) option" where
  "do_history limit cmdchars com rest st =
     (let (c, st) =
        (if com = None \<or> com = Some []
         then (case last_com st of Some l \<Rightarrow> (l, st) | None \<Rightarrow> ([], st))
         else (the com, st\<lparr>last_com := com\<rparr>));
          found = (\<lambda>st s. Some (st, m_s3cat_s (Some s) '' '' (Some rest)))
      in if \<not> is_number c
         then (case history_match limit cmdchars c st of
                 None \<Rightarrow> None
               | Some (st1, None) \<Rightarrow> Some (st1, None)
               | Some (st1, Some s) \<Rightarrow> found st1 s)
         else
           let hist_num = to_int32 (my_atol (Some c));
               hit = (if 0 < hist_num then find (\<lambda>e. number e = hist_num) (entries st)
                      else case drop (nat (- (hist_num + 1))) (entries st) of [] \<Rightarrow> None | e # _ \<Rightarrow> Some e);
               st1 = st\<lparr>htmp := map_option haddr hit\<rparr>
           in case hit of None \<Rightarrow> Some (st1, None) | Some e \<Rightarrow> found st1 (line e))"

text \<open>
  The \<open>/HISTORY\<close> command: the new state and the lines it shows. The test of the option is the
  wrong way round: every argument but \<open>-CLEAR\<close> clears the history.
\<close>

fun shown :: "cstr option \<Rightarrow> nat \<Rightarrow> hist_node list \<Rightarrow> hist_node list option" where
  "shown None n es = Some (take n es)"
| "shown (Some m) n [] = Some []"
| "shown (Some m) n (e # es) =
     (case (wild_match m (line e), shown (Some m) n es) of
        (Some b, Some r) \<Rightarrow> Some (if b \<noteq> 0 then e # r else r)
      | _ \<Rightarrow> None)"

definition history_command :: "nat \<Rightarrow> cstr option \<Rightarrow> history \<Rightarrow> (history \<times> hist_node list) option" where
  "history_command limit value st =
     (if limit = 0 then Some (st, [])
      else case value of
        None \<Rightarrow> map_option (\<lambda>r. (st\<lparr>htmp := None\<rparr>, r)) (shown None limit (rev (entries st)))
      | Some v \<Rightarrow>
          if my_strnicmp v ''-CLEAR'' 3 \<noteq> 0
          then Some (st\<lparr>entries := [], hist_size := 0, hist_count := 0, hpos := None, htmp := None\<rparr>, [])
          else if is_digit (cat v 0)
          then (let n = min limit (nat (to_int32 (my_atol (Some v))));
                    tmp = (case drop n (rev (entries st)) of [] \<Rightarrow> None | e # _ \<Rightarrow> Some (haddr e))
                in map_option (\<lambda>r. (st\<lparr>htmp := tmp\<rparr>, r)) (shown None n (rev (entries st))))
          else map_option (\<lambda>r. (st\<lparr>htmp := None\<rparr>, r)) (shown (Some v) 0 (rev (entries st))))"

subsection \<open>The history keeps the latest lines\<close>

definition hist_ok :: "nat \<Rightarrow> history \<Rightarrow> bool" where
  "hist_ok limit st \<longleftrightarrow> hist_size st = length (entries st) \<and> length (entries st) \<le> limit
     \<and> distinct (map haddr (entries st)) \<and> (\<forall>e \<in> set (entries st). haddr e < fresh st)
     \<and> (\<forall>a. hpos st = Some a \<longrightarrow> a \<in> haddr ` set (entries st))"

abbreviation hist_lines :: "history \<Rightarrow> cstr list" where
  "hist_lines st \<equiv> map line (entries st)"

lemma add_list_entries:
  assumes "hist_ok limit st" "0 < limit"
  shows "hist_ok limit (add_to_history_list limit n l st)"
    and "hist_lines (add_to_history_list limit n l st) = take limit (l # hist_lines st)"
    and "entries (add_to_history_list limit n l st) \<noteq> []"
proof -
  define es where "es = entries st"
  have ok: "hist_size st = length es" "length es \<le> limit" "distinct (map haddr es)" "\<forall>e \<in> set es. haddr e < fresh st"
      "\<forall>a. hpos st = Some a \<longrightarrow> a \<in> haddr ` set es"
    using assms(1) by (simp_all add: hist_ok_def es_def)
  have bl: "butlast es = take (length es - 1) es" by (simp add: butlast_conv_take)
  have d: "distinct (map haddr (butlast es))" "\<forall>e \<in> set (butlast es). haddr e < fresh st"
    using ok(3,4) by (auto simp: distinct_butlast map_butlast dest: in_set_butlastD)
  consider "length es = limit" "limit = 1" | "length es = limit" "limit \<noteq> 1" | "length es < limit"
    using ok(2) by linarith
  then have "hist_ok limit (add_to_history_list limit n l st)
      \<and> hist_lines (add_to_history_list limit n l st) = take limit (l # hist_lines st)
      \<and> entries (add_to_history_list limit n l st) \<noteq> []"
  proof cases
    case 1
    then obtain e where "es = [e]" by (cases es) auto
    then show ?thesis using 1 ok by (auto simp: add_to_history_list_def hist_ok_def es_def)
  next
    case 2
    then have "es \<noteq> []" using assms(2) by auto
    then show ?thesis
      using 2 ok d assms(2) bl
      by (auto simp: add_to_history_list_def hist_ok_def es_def [symmetric] take_map take_Cons' image_iff less_Suc_eq;
          metis less_irrefl)
  next
    case 3
    then show ?thesis
      using ok assms(2)
      by (auto simp: add_to_history_list_def hist_ok_def es_def [symmetric] take_Cons' image_iff less_Suc_eq;
          metis less_irrefl)
  qed
  then show "hist_ok limit (add_to_history_list limit n l st)"
    "hist_lines (add_to_history_list limit n l st) = take limit (l # hist_lines st)"
    "entries (add_to_history_list limit n l st) \<noteq> []" by auto
qed

lemma hist_ok_counters [simp]:
  "hist_ok limit (st\<lparr>last_dir := d, hist_count := n\<rparr>) = hist_ok limit st"
  "hist_ok limit (st\<lparr>htmp := t\<rparr>) = hist_ok limit st"
  "hist_ok limit (st\<lparr>last_dir := d\<rparr>) = hist_ok limit st"
  "hist_ok limit (st\<lparr>last_com := c\<rparr>) = hist_ok limit st"
  by (simp_all add: hist_ok_def)

lemma add_to_history_ok:
  "hist_ok limit st \<Longrightarrow> 0 < limit \<Longrightarrow> hist_ok limit (add_to_history limit s st) \<and> (s \<noteq> [] \<longrightarrow> entries (add_to_history limit s st) \<noteq> [])"
proof (induction limit s st rule: add_to_history.induct)
  case (1 limit s st)
  show ?case
  proof (cases "s = []")
    case True
    then show ?thesis using "1.prems" by (subst add_to_history.simps) simp
  next
    case False
    define l where "l = takeWhile (\<lambda>c. c \<noteq> CHR 0x0A \<and> c \<noteq> CHR 0x0D) s"
    define st1 where "st1 = add_to_history_list limit (hist_count st) l st"
    define st2 where "st2 = st1\<lparr>last_dir := PREV_DIR, hist_count := hist_count st1 + 1\<rparr>"
    have ok: "hist_ok limit st2" "entries st2 \<noteq> []"
      using add_list_entries [OF "1.prems"] by (simp_all add: st1_def st2_def)
    have e: "add_to_history limit s st = (case sindex s [CHR 0x0A, CHR 0x0D] of None \<Rightarrow> st2
        | Some r \<Rightarrow> add_to_history limit (tl r) st2)"
      unfolding st2_def st1_def l_def using False by (subst add_to_history.simps) (simp add: Let_def)
    show ?thesis
    proof (cases "sindex s [CHR 0x0A, CHR 0x0D]")
      case None
      then show ?thesis using e ok by simp
    next
      case (Some r)
      have ih: "hist_ok limit (add_to_history limit (tl r) st2)"
          "tl r \<noteq> [] \<longrightarrow> entries (add_to_history limit (tl r) st2) \<noteq> []"
        using "1.IH" [OF False refl refl refl refl Some] ok(1) "1.prems"(2) unfolding l_def st1_def st2_def by auto
      moreover have "add_to_history limit [] st2 = st2" by (subst add_to_history.simps) simp
      ultimately show ?thesis using e Some ok by (cases "tl r = []") auto
    qed
  qed
qed

text \<open>
  adding a line (without line ends) to a history of at most \<open>limit\<close> lines gives the line
  and the latest of the old ones, up to the limit.
\<close>
theorem add_to_history_keeps_latest:
  assumes "hist_ok limit st" "0 < limit" "l \<noteq> []" "CHR 0x0A \<notin> set l" "CHR 0x0D \<notin> set l"
  shows "hist_ok limit (add_to_history limit l st)
    \<and> hist_lines (add_to_history limit l st) = take limit (l # hist_lines st)"
proof -
  have "first_in (\<lambda>c. c \<in> {CHR 0x0A, CHR 0x0D}) s = None" if "CHR 0x0A \<notin> set s" "CHR 0x0D \<notin> set s" for s
    using that by (induction s) auto
  then have "sindex l [CHR 0x0A, CHR 0x0D] = None" using assms(4,5) by (simp add: sindex_def)
  moreover have "takeWhile (\<lambda>c. c \<noteq> CHR 0x0A \<and> c \<noteq> CHR 0x0D) l = l"
    using assms(4,5) by (auto simp: takeWhile_eq_all_conv)
  ultimately have "add_to_history limit l st = (let st1 = add_to_history_list limit (hist_count st) l st
      in st1\<lparr>last_dir := PREV_DIR, hist_count := hist_count st1 + 1\<rparr>)"
    using assms(3) by (subst add_to_history.simps) (simp add: Let_def del: takeWhile_eq_all_conv)
  then show ?thesis using add_list_entries [OF assms(1,2), of "hist_count st" l] by (simp add: Let_def)
qed


subsection \<open>Browsing\<close>

lemma from_node_split:
  assumes "distinct (map haddr (us @ e # vs))"
  shows "newer (us @ e # vs) (haddr e) = us" "from_node (us @ e # vs) (haddr e) = Some (e # vs)"
proof -
  have u: "\<forall>u \<in> set us. haddr u \<noteq> haddr e" using assms by (auto simp: image_iff)
  then show "newer (us @ e # vs) (haddr e) = us" by (simp add: newer_def takeWhile_append2)
  show "from_node (us @ e # vs) (haddr e) = Some (e # vs)" using u by (simp add: from_node_def dropWhile_append2)
qed

lemma node_split:
  assumes "a \<in> haddr ` set es"
  obtains us e vs where "es = us @ e # vs" "haddr e = a"
  using assms by (metis imageE split_list)

lemma get_from_history_pos:
  assumes "hist_ok limit st" "entries st = us @ e # vs" "hpos st = Some (haddr e)"
  shows "get_from_history limit circleq inp NEXT_DIR st =
      (if us \<noteq> [] then Some (st\<lparr>hpos := Some (haddr (last us))\<rparr>, Some (line (last us)))
       else if circleq then Some (st\<lparr>hpos := Some (haddr (last (e # vs)))\<rparr>, Some (line (last (e # vs))))
       else Some (st\<lparr>hpos := None\<rparr>, None))"
    and "get_from_history limit circleq inp PREV_DIR st =
      (if vs \<noteq> [] then Some (st\<lparr>hpos := Some (haddr (hd vs))\<rparr>, Some (line (hd vs)))
       else if circleq then Some (st\<lparr>hpos := Some (haddr (hd (us @ [e])))\<rparr>, Some (line (hd (us @ [e]))))
       else Some (st, Some (line e)))"
proof -
  have d: "distinct (map haddr (us @ e # vs))" and lim: "limit \<noteq> 0" "hist_size st \<noteq> 0"
    using assms(1,2) by (auto simp: hist_ok_def)
  note s = from_node_split [OF d]
  have at: "from_node (entries st) (haddr x) = Some (x # ys)" if "us @ e # vs = xs @ x # ys" for x xs ys
    using from_node_split(2) [of xs x ys] d that assms(2) by metis
  have last: "from_node (entries st) (haddr (last us)) = Some (last us # e # vs)" if "us \<noteq> []"
    by (rule at [of "butlast us"]) (use that in simp)
  have tail: "from_node (entries st) (haddr (last (e # vs))) = Some [last (e # vs)]"
  proof (rule at [of "us @ butlast (e # vs)"])
    show "us @ e # vs = (us @ butlast (e # vs)) @ [last (e # vs)]"
      by (simp only: append_assoc append_butlast_last_id list.distinct not_False_eq_True)
  qed
  have nxt: "from_node (entries st) (haddr (hd vs)) = Some vs" if "vs \<noteq> []"
    using at [of "us @ [e]" "hd vs" "tl vs"] that by simp
  have head: "from_node (entries st) (haddr (hd (us @ [e]))) = Some (us @ e # vs)"
    using at [of "[]" "hd (us @ [e])" "tl (us @ [e]) @ vs"] by (cases us) auto
  show "get_from_history limit circleq inp NEXT_DIR st =
      (if us \<noteq> [] then Some (st\<lparr>hpos := Some (haddr (last us))\<rparr>, Some (line (last us)))
       else if circleq then Some (st\<lparr>hpos := Some (haddr (last (e # vs)))\<rparr>, Some (line (last (e # vs))))
       else Some (st\<lparr>hpos := None\<rparr>, None))"
    using lim assms(2,3) s last tail by (cases "us = []") (auto simp: get_from_history_def Let_def)
  show "get_from_history limit circleq inp PREV_DIR st =
      (if vs \<noteq> [] then Some (st\<lparr>hpos := Some (haddr (hd vs))\<rparr>, Some (line (hd vs)))
       else if circleq then Some (st\<lparr>hpos := Some (haddr (hd (us @ [e])))\<rparr>, Some (line (hd (us @ [e]))))
       else Some (st, Some (line e)))"
    using lim assms(2,3) s nxt head by (cases vs; cases us) (auto simp: get_from_history_def Let_def)
qed

text \<open>
  with a circular history, going to the previous line and then to the next one comes back
  to the line one was at, also over the ends of the list.
\<close>
theorem next_undoes_prev:
  assumes "hist_ok limit st" "hpos st = Some a"
  shows "\<exists>st1 r1 st2 e. get_from_history limit True inp PREV_DIR st = Some (st1, r1)
    \<and> get_from_history limit True inp2 NEXT_DIR st1 = Some (st2, Some (line e))
    \<and> e \<in> set (entries st) \<and> haddr e = a \<and> hpos st2 = Some a \<and> entries st2 = entries st"
proof -
  have "a \<in> haddr ` set (entries st)" using assms by (simp add: hist_ok_def)
  then obtain us e vs where s: "entries st = us @ e # vs" "haddr e = a" by (rule node_split)
  note prev = get_from_history_pos(2) [OF assms(1) s(1), unfolded s(2), OF assms(2), of True inp]
  show ?thesis
  proof (cases vs)
    case (Cons w ws)
    define st1 where "st1 = st\<lparr>hpos := Some (haddr w)\<rparr>"
    have s1: "entries st1 = (us @ [e]) @ w # ws" using s(1) Cons by (simp add: st1_def)
    have "hist_ok limit st1" using assms(1) s1 by (auto simp: hist_ok_def st1_def)
    from get_from_history_pos(1) [OF this s1, of True inp2]
    have "get_from_history limit True inp2 NEXT_DIR st1 = Some (st1\<lparr>hpos := Some a\<rparr>, Some (line e))"
      using s(2) by (simp add: st1_def)
    then show ?thesis using prev Cons s by (auto simp: st1_def)
  next
    case Nil
    obtain h ts where h: "us @ [e] = h # ts" by (cases "us @ [e]") auto
    define st1 where "st1 = st\<lparr>hpos := Some (haddr h)\<rparr>"
    have s1: "entries st1 = [] @ h # ts" using s(1) Nil h by (simp add: st1_def)
    have "last (h # ts) = e" using h by (metis last_snoc)
    moreover have "hist_ok limit st1" using assms(1) s1 by (auto simp: hist_ok_def st1_def)
    ultimately have "get_from_history limit True inp2 NEXT_DIR st1 = Some (st1\<lparr>hpos := Some a\<rparr>, Some (line e))"
      using get_from_history_pos(1) [OF _ s1, of limit True inp2] s(2) by (simp add: st1_def)
    moreover have "e \<in> set (entries st)" using s(1) by simp
    ultimately show ?thesis using prev Nil s(2) h by (auto simp: st1_def)
  qed
qed

subsection \<open>The states of a history\<close>

text \<open>
  What the client does with a history while the setting \<open>HISTORY\<close> is \<open>limit\<close>. Changing the
  setting (\<open>set_history_size\<close>) is not among the steps.
\<close>

inductive history_step :: "nat \<Rightarrow> history \<Rightarrow> history \<Rightarrow> bool" for limit where
  step_add: "history_step limit st (add_to_history limit s st)"
| step_browse: "d = NEXT_DIR \<or> d = PREV_DIR \<Longrightarrow> get_from_history limit circleq inp d st = Some (st', r) \<Longrightarrow> history_step limit st st'"
| step_abort: "history_step limit st (abort_history_browsing st)"
| step_search: "do_history limit cmdchars com rest st = Some (st', r) \<Longrightarrow> history_step limit st st'"
| step_command: "history_command limit v st = Some (st', r) \<Longrightarrow> history_step limit st st'"

inductive_cases history_stepE: "history_step limit st st'"

lemma get_from_history_ok:
  assumes "hist_ok limit st" "0 < limit" "d = NEXT_DIR \<or> d = PREV_DIR"
  shows "\<exists>st' r. get_from_history limit circleq inp d st = Some (st', r) \<and> hist_ok limit st'"
proof (cases "hist_size st = 0")
  case True
  then show ?thesis using assms(1) by (simp add: get_from_history_def)
next
  case ne: False
  show ?thesis
  proof (cases "hpos st")
    case (Some a)
    then have "a \<in> haddr ` set (entries st)" using assms(1) by (simp add: hist_ok_def)
    then obtain us e vs where s: "entries st = us @ e # vs" "hpos st = Some (haddr e)"
      using Some by (metis node_split)
    note p = get_from_history_pos [OF assms(1) s, of circleq inp]
    have set_pos: "hist_ok limit (st\<lparr>hpos := Some (haddr x)\<rparr>)" if "x \<in> set (entries st)" for x
      using assms(1) that by (simp add: hist_ok_def)
    have none: "hist_ok limit (st\<lparr>hpos := None\<rparr>)" using assms(1) by (simp add: hist_ok_def)
    have m: "us \<noteq> [] \<Longrightarrow> last us \<in> set (entries st)" "last (e # vs) \<in> set (entries st)"
        "vs \<noteq> [] \<Longrightarrow> hd vs \<in> set (entries st)" "hd (us @ [e]) \<in> set (entries st)"
      unfolding s(1) by (cases us; auto)+
    show ?thesis
      using assms(3) p set_pos [OF m(1)] set_pos [OF m(2)] set_pos [OF m(3)] set_pos [OF m(4)] none assms(1)
      by (auto simp del: last.simps)
  next
    case None
    define st1 where "st1 = (case inp of None \<Rightarrow> st | Some i \<Rightarrow> add_to_history limit i st)"
    have ok1: "hist_ok limit st1" "inp \<noteq> None \<and> inp \<noteq> Some [] \<Longrightarrow> entries st1 \<noteq> []"
      using add_to_history_ok [OF assms(1,2)] assms(1) by (auto simp: st1_def split: option.splits)
    have e1: "entries st1 \<noteq> []"
    proof (cases "inp \<noteq> None \<and> inp \<noteq> Some []")
      case False
      then have "st1 = st" by (auto simp: st1_def add_to_history.simps)
      then show ?thesis using ne assms(1) by (auto simp: hist_ok_def)
    qed (use ok1(2) in simp)
    have es: "entries st \<noteq> []" using ne assms(1) by (auto simp: hist_ok_def)
    have fn: "from_node es (haddr x) \<noteq> None" if "x \<in> set es" for es x
      using that by (auto simp: from_node_def dropWhile_eq_Nil_conv split: list.split)
    have set_pos: "hist_ok limit (w\<lparr>hpos := Some (haddr x)\<rparr>)" if "x \<in> set (entries w)" "hist_ok limit w" for x w
      using that by (simp add: hist_ok_def)
    show ?thesis
    proof (cases "d = NEXT_DIR")
      case True
      have "from_node (entries st1) (haddr (last (entries st1))) \<noteq> None" using fn e1 by simp
      then show ?thesis
        using True None ne assms(1,2) ok1 e1 set_pos [OF last_in_set [OF e1] ok1(1)]
        by (auto simp: get_from_history_def st1_def [symmetric] Let_def)
    next
      case False
      define x where "x = (case entries st1 of [] \<Rightarrow> undefined | [e] \<Rightarrow> e | _ # e # _ \<Rightarrow> e)"
      have x: "x \<in> set (entries st1)" using e1 by (auto simp: x_def split: list.split)
      have h: "hd (entries st) \<in> set (entries st)" using es by simp
      show ?thesis
        using False None ne assms(1,2) e1 es fn [OF x] fn [OF h] set_pos [OF x ok1(1)] set_pos [OF h assms(1)]
        by (auto simp: get_from_history_def st1_def [symmetric] Let_def x_def split: list.splits)
    qed
  qed
qed

lemma from_node_in:
  assumes "from_node es a = Some r"
  shows "hd r \<in> set es"
proof -
  have "dropWhile (\<lambda>e. haddr e \<noteq> a) es = r" "r \<noteq> []"
    using assms by (auto simp: from_node_def split: list.splits)
  then have "hd r \<in> set (dropWhile (\<lambda>e. haddr e \<noteq> a) es)" by simp
  then show ?thesis by (rule set_dropWhileD)
qed

lemma hist_ok_cleared: "hist_ok limit (st\<lparr>entries := [], hist_size := 0, hist_count := 0, hpos := None\<rparr>)"
  by (simp add: hist_ok_def)

lemma history_match_ok:
  "history_match limit c m st = Some (st', r) \<Longrightarrow> hist_ok limit' st \<Longrightarrow> hist_ok limit' st'"
  by (auto simp: history_match_def hist_ok_def Let_def split: if_splits option.splits)

lemma do_history_ok:
  assumes "do_history limit c com rest st = Some (st', r)" "hist_ok limit st"
  shows "hist_ok limit st'"
proof -
  obtain w st0 where w: "(if com = None \<or> com = Some []
         then (case last_com st of Some l \<Rightarrow> (l, st) | None \<Rightarrow> ([], st))
         else (the com, st\<lparr>last_com := com\<rparr>)) = (w, st0)" by (metis surj_pair)
  then have "hist_ok limit st0" using assms(2) by (auto split: if_splits option.splits)
  then show ?thesis
    using assms(1) w history_match_ok
    by (auto simp: do_history_def Let_def split: if_splits option.splits prod.splits list.splits)
qed

lemma history_command_ok:
  "history_command limit v st = Some (st', r) \<Longrightarrow> hist_ok limit st \<Longrightarrow> hist_ok limit st'"
  by (auto simp: history_command_def hist_ok_cleared Let_def simp del: shown.simps split: if_splits option.splits)

lemma history_step_ok:
  assumes "history_step limit st st'" "hist_ok limit st" "0 < limit"
  shows "hist_ok limit st'"
  using assms(1)
proof cases
  case (step_browse d circleq inp r)
  then show ?thesis using get_from_history_ok [OF assms(2,3), of d circleq inp] by auto
next
  case step_abort
  then show ?thesis using assms(2) by (simp add: hist_ok_def abort_history_browsing_def)
next
  case step_add
  then show ?thesis using add_to_history_ok [OF assms(2,3)] by simp
next
  case step_search
  then show ?thesis using do_history_ok assms(2) by simp
next
  case step_command
  then show ?thesis using history_command_ok assms(2) by simp
qed

text \<open>
  C39: while the size of the history is not changed, whatever else is done, browsing always
  returns, shows a line that is in the history, and the history holds at most \<open>limit\<close> lines.
\<close>
theorem browsing_is_safe:
  assumes "(history_step limit)\<^sup>*\<^sup>* history_init st" "0 < limit" "d = NEXT_DIR \<or> d = PREV_DIR"
  shows "\<exists>st' r. get_from_history limit circleq inp d st = Some (st', r)
    \<and> length (entries st') \<le> limit \<and> (\<forall>l. r = Some l \<longrightarrow> l \<in> set (hist_lines st'))"
proof -
  have "hist_ok limit st" using assms(1)
  proof (induction rule: rtranclp_induct)
    case base
    show ?case by (simp add: hist_ok_def history_init_def)
  next
    case (step y z)
    then show ?case using history_step_ok assms(2) by blast
  qed
  from get_from_history_ok [OF this assms(2,3), of circleq inp]
  obtain st' r where g: "get_from_history limit circleq inp d st = Some (st', r)" "hist_ok limit st'" by blast
  have "l \<in> set (hist_lines st')" if "r = Some l" for l
  proof -
    obtain a es where a: "from_node (entries st') a = Some es" "l = line (hd es)"
    proof -
      obtain m where "get_from_history limit circleq inp d st =
          (if limit = 0 \<or> hist_size st = 0 then Some (st, None)
           else case m of
             None \<Rightarrow> None
           | Some st2 \<Rightarrow>
               (case hpos st2 of
                  None \<Rightarrow> Some (st2, None)
                | Some a \<Rightarrow>
                    (case from_node (entries st2) a of
                       None \<Rightarrow> None
                     | Some es \<Rightarrow> Some (st2, Some (line (hd es))))))"
        unfolding get_from_history_def Let_def by blast
      then show ?thesis using g(1) \<open>r = Some l\<close> by (auto split: if_splits option.splits intro: that)
    qed
    have "hd es \<in> set (entries st')"
      by (rule from_node_in [OF a(1)])
    then show ?thesis using a(2) by simp
  qed
  then show ?thesis using g by (auto simp: hist_ok_def)
qed

subsection \<open>Pointers that stay behind\<close>

text \<open>
  Lowering \<open>HISTORY\<close> while one browses frees the node that \<open>command_history_pos\<close> points to.
\<close>

definition browsed :: history where
  "browsed = (add_to_history 2 ''newer'' (add_to_history 2 ''older'' history_init))\<lparr>hpos := Some 0\<rparr>"

lemma browsed_entries:
  "entries browsed = [\<lparr>haddr = 1, number = 1, line = ''newer''\<rparr>, \<lparr>haddr = 0, number = 0, line = ''older''\<rparr>]"
  "hist_size browsed = 2" "hpos browsed = Some 0" "hist_ok 2 browsed" "fresh browsed = 2"
  by (simp_all add: browsed_def history_init_def add_to_history.simps add_to_history_list_def sindex_def hist_ok_def)

lemma resizing_frees_the_place:
  "\<exists>st. set_history_size 1 browsed = Some st \<and> get_from_history 1 circleq None PREV_DIR st = None"
  using browsed_entries
  by (auto simp: set_history_size_def get_from_history_def from_node_def Let_def numeral_2_eq_2)

lemma example_matches:
  "wild_match ''old*'' ''newer'' = Some 0" "wild_match ''old*'' ''older'' = Some 4"
  by (simp_all add: wild_match.simps new_match_def match_init_def match_loop.simps match_step_def step_wild_def
      step_asterisk_def step_percent_def step_plain_def is_wild_def Let_def c_tolower_def is_upper_def)

text \<open>
  a search stops at a line, two more lines push it out of a history of two; the next search
  goes on from the node that has been freed, because adding a line sets \<open>last_dir\<close> to
  \<open>PREV\<close> and not back to \<open>-1\<close>.
\<close>
theorem search_follows_freed_node:
  "\<exists>st. history_match 2 [] ''old*'' (browsed\<lparr>last_dir := -1\<rparr>) = Some (st, Some ''older'')
    \<and> history_match 2 [] ''x*'' (add_to_history 2 ''b'' (add_to_history 2 ''a'' st)) = None"
proof -
  define st where "st = browsed\<lparr>htmp := Some 0, last_dir := 1\<rparr>"
  have "history_match 2 [] ''old*'' (browsed\<lparr>last_dir := -1\<rparr>) = Some (st, Some ''older'')"
    using example_matches browsed_entries(1) by (simp add: history_match_def st_def)
  moreover have "htmp (add_to_history 2 ''b'' (add_to_history 2 ''a'' st)) = Some 0"
      "last_dir (add_to_history 2 ''b'' (add_to_history 2 ''a'' st)) = 1"
      "from_node (entries (add_to_history 2 ''b'' (add_to_history 2 ''a'' st))) 0 = None"
    using browsed_entries
    by (simp_all add: st_def add_to_history.simps add_to_history_list_def sindex_def from_node_def)
  ultimately show ?thesis by (auto simp: history_match_def)
qed

subsection \<open>Witnesses\<close>

theorem add_to_history_keeps_latest_witness:
  "hist_lines (add_to_history 2 ''third'' browsed) = [''third'', ''newer'']"
  using add_to_history_keeps_latest [OF browsed_entries(4), of "''third''"] browsed_entries(1) by simp

theorem next_undoes_prev_witness:
  "\<exists>st1 r1 st2. get_from_history 2 True None PREV_DIR browsed = Some (st1, r1)
    \<and> get_from_history 2 True None NEXT_DIR st1 = Some (st2, Some ''older'')"
  using next_undoes_prev [OF browsed_entries(4,3), of None None] browsed_entries(1) by auto

theorem browsing_is_safe_witness:
  "\<exists>st' r. get_from_history 2 False (Some ''x'') PREV_DIR (add_to_history 2 ''older'' history_init) = Some (st', r)
    \<and> length (entries st') \<le> 2"
proof -
  have "(history_step 2)\<^sup>*\<^sup>* history_init (add_to_history 2 ''older'' history_init)"
    by (rule r_into_rtranclp) (rule step_add)
  from browsing_is_safe [OF this, of PREV_DIR False "Some ''x''"] show ?thesis by auto
qed

end
