(* ===== verification/ExprToken.thy ===== *)
theory ExprToken
  imports WildMatch
begin

section \<open>Expressions: tokens and the operand stack (source/expr2.c)\<close>

text \<open>
  The state of one evaluation of \<open>matheval\<close>. The C struct \<open>expr_info\<close> is split in two records:
  \<open>operands\<close> holds what the operators read and write (the token table, the operand stack, the
  arguments, the rest of the client as \<open>world\<close>), \<open>expr_info\<close> adds the position of the lexer.
  The token table is a list whose length is the C field \<open>token\<close>; the bits of the C field
  \<open>used\<close> are the fields of a symbol that are \<open>Some\<close>. The operand stack is a list with its top
  first, so \<open>sp\<close> is its length minus one.

  What the evaluator calls is in the record \<open>env\<close>: the arithmetic of \<open>double\<close>, and the parts of
  the client that an expression reaches (\<open>expand_alias\<close>, \<open>alias_special_char\<close>,
  \<open>add_var_alias\<close>, \<open>parse_line_with_return\<close>) as functions on the world, which may be anything; \<open>None\<close>
  is a call that does not come back, as \<open>LocalVars.block_in_alias_hangs\<close> shows one. A result is \<open>Inl\<close> when the program stops: in \<open>nappanic\<close>, in an operation that C does not
  define, or in a call that does not return.
\<close>

subsection \<open>Results\<close>

datatype stop =
    Panic  \<comment> \<open>\<open>nappanic\<close>\<close>
  | Undefined  \<comment> \<open>an operation C does not define; a trap for \<open>LONG_MIN % -1\<close>\<close>
  | NoReturn  \<comment> \<open>\<open>wild_match\<close> or a call of the client does not return\<close>
  | OutOfFuel

type_synonym 'a result = "stop + 'a"

fun bnd :: "'a result \<Rightarrow> ('a \<Rightarrow> 'b result) \<Rightarrow> 'b result" where
  "bnd (Inl e) f = Inl e"
| "bnd (Inr x) f = f x"

lemma bnd_unfold [code_unfold]: "bnd m f = (case m of Inl e \<Rightarrow> Inl e | Inr x \<Rightarrow> f x)"
  by (cases m) auto

definition or_hang :: "'a option \<Rightarrow> 'a result" where
  "or_hang x = (case x of None \<Rightarrow> Inl NoReturn | Some t \<Rightarrow> Inr t)"

lemma or_hang_simps [simp]: "or_hang None = Inl NoReturn" "or_hang (Some t) = Inr t"
  by (simp_all add: or_hang_def)

lemma bnd_Inr_iff: "bnd m f = Inr y \<longleftrightarrow> (\<exists>x. m = Inr x \<and> f x = Inr y)"
  by (cases m) auto

lemma bnd_Inl_iff: "bnd m f = Inl e \<longleftrightarrow> m = Inl e \<or> (\<exists>x. m = Inr x \<and> f x = Inl e)"
  by (cases m) auto

lemma bnd_assoc: "bnd (bnd m f) g = bnd m (\<lambda>x. bnd (f x) g)"
  by (cases m) auto

subsection \<open>Numbers\<close>

record 'd fpu =
  d_add :: "'d \<Rightarrow> 'd \<Rightarrow> 'd"
  d_sub :: "'d \<Rightarrow> 'd \<Rightarrow> 'd"
  d_mul :: "'d \<Rightarrow> 'd \<Rightarrow> 'd"
  d_div :: "'d \<Rightarrow> 'd \<Rightarrow> 'd"
  d_pow :: "'d \<Rightarrow> 'd \<Rightarrow> 'd"
  d_neg :: "'d \<Rightarrow> 'd"
  d_less :: "'d \<Rightarrow> 'd \<Rightarrow> bool"
  d_le :: "'d \<Rightarrow> 'd \<Rightarrow> bool"
  d_is_zero :: "'d \<Rightarrow> bool"
  d_of_long :: "int \<Rightarrow> 'd"
  d_to_long :: "'d \<Rightarrow> int"
  d_read :: "cstr \<Rightarrow> 'd"  \<comment> \<open>\<open>atof\<close>\<close>
  d_show :: "'d \<Rightarrow> cstr"  \<comment> \<open>\<open>%f\<close>\<close>

text \<open>Where \<open>strtod\<close> stops reading (C99); the text itself when there is no number.\<close>

definition is_xdigit :: "char \<Rightarrow> bool" where
  "is_xdigit c \<longleftrightarrow> is_digit c \<or> c_tolower c \<in> set ''abcdef''"

definition skip_sign :: "cstr \<Rightarrow> cstr" where
  "skip_sign s = (if cat s 0 = CHR ''-'' \<or> cat s 0 = CHR ''+'' then tl s else s)"

definition exponent_end :: "char \<Rightarrow> cstr \<Rightarrow> cstr" where
  "exponent_end e s =
     (if c_tolower (cat s 0) = e \<and> is_digit (cat (skip_sign (tl s)) 0)
      then dropWhile is_digit (skip_sign (tl s)) else s)"

definition mantissa_end :: "(char \<Rightarrow> bool) \<Rightarrow> cstr \<Rightarrow> cstr option" where
  "mantissa_end P s =
     (let r = dropWhile P s;
          r' = (if cat r 0 = CHR ''.'' then dropWhile P (tl r) else r)
      in if \<not> P (cat s 0) \<and> \<not> (cat r 0 = CHR ''.'' \<and> P (cat (tl r) 0)) then None else Some r')"

definition strtod_end :: "cstr \<Rightarrow> cstr" where
  "strtod_end s =
     (let u = skip_sign (dropWhile my_isspace s); l = map c_tolower u;
          hex = (if cat u 0 = CHR ''0'' \<and> c_tolower (cat u 1) = CHR ''x''
                 then mantissa_end is_xdigit (drop 2 u) else None)
      in if prefix ''infinity'' l then drop 8 u
         else if prefix ''inf'' l then drop 3 u
         else if prefix ''nan'' l
         then (let r = drop 3 u; q = dropWhile (\<lambda>c. is_digit c \<or> is_lower c \<or> is_upper c \<or> c = CHR ''_'') (tl r)
               in if cat r 0 = CHR ''('' \<and> cat q 0 = CHR '')'' then tl q else r)
         else case hex of
           Some r \<Rightarrow> exponent_end (CHR ''p'') r
         | None \<Rightarrow>
             (case mantissa_end is_digit u of
                Some r \<Rightarrow> exponent_end (CHR ''e'') r
              | None \<Rightarrow> s))"

text \<open>\<open>check_val\<close> keeps the value of \<open>strtod\<close> in a \<open>long\<close>.\<close>

definition check_val :: "('d, 'x) fpu_scheme \<Rightarrow> cstr \<Rightarrow> bool" where
  "check_val F sub \<longleftrightarrow>
     sub \<noteq> [] \<and> (d_to_long F (d_read F sub) \<noteq> 0 \<or> strtod_end sub \<noteq> [] \<or> strtod_end sub = sub)"

fun real_digits :: "bool \<Rightarrow> cstr \<Rightarrow> bool" where
  "real_digits dot [] = True"
| "real_digits dot (c # s) =
     (if is_digit c then real_digits dot s
      else if c = CHR ''.'' \<and> \<not> dot then real_digits True s
      else False)"

definition is_real_number :: "cstr \<Rightarrow> bool" where
  "is_real_number num =
     (num \<noteq> [] \<and>
      (let s = dropWhile (\<lambda>c. c = CHR '' '') num;
           t = (if cat s 0 = CHR ''-'' then tl s else s)
       in t \<noteq> [] \<and> real_digits False t))"

text \<open>
  \<open>canon_number\<close>: \<open>fp\<close> is the setting \<open>FLOATING_POINT\<close>. The scan for zeros has no bound; the
  text of \<open>%f\<close> has a point where it stops.
\<close>

definition canon_number :: "int \<Rightarrow> cstr \<Rightarrow> cstr" where
  "canon_number fp input =
     (if fp = 1
      then (let r = dropWhile (\<lambda>c. c = CHR ''0'') (rev input)
            in rev (if cat r 0 = CHR ''.'' then tl r else r))
      else takeWhile (\<lambda>c. c \<noteq> CHR ''.'') input)"

text \<open>Integers are 64-bit \<open>long\<close>s; a shift keeps the low 64 bits.\<close>

definition to_int64 :: "int \<Rightarrow> int" where
  "to_int64 i = (i + 9223372036854775808) mod 18446744073709551616 - 9223372036854775808"

definition c_inc :: "int \<Rightarrow> int \<Rightarrow> int result" where
  "c_inc i d = (if LONG_MIN \<le> i + d \<and> i + d \<le> LONG_MAX then Inr (i + d) else Inl Undefined)"

definition c_shl :: "int \<Rightarrow> int \<Rightarrow> int result" where
  "c_shl i j = (if 0 \<le> j \<and> j < 64 then Inr (to_int64 (push_bit (nat j) i)) else Inl Undefined)"

definition c_shr :: "int \<Rightarrow> int \<Rightarrow> int result" where
  "c_shr i j = (if 0 \<le> j \<and> j < 64 then Inr (drop_bit (nat j) i) else Inl Undefined)"

definition c_mod :: "int \<Rightarrow> int \<Rightarrow> int result" where
  "c_mod i j = (if i = LONG_MIN \<and> j = - 1 then Inl Undefined else Inr (sgn i * (\<bar>i\<bar> mod \<bar>j\<bar>)))"

subsection \<open>The state\<close>

record 'd symbol =
  lval :: "cstr option"
  raw_value :: "cstr option"
  expanded_value :: "cstr option"
  integer_value :: "int option"
  float_value :: "'d option"
  boolean_value :: "bool option"

record ('d, 'w) operands =
  noeval :: int
  tokens :: "'d symbol list"
  stack :: "int list"
  last_token :: int
  eargs :: cstr
  args_flag :: bool
  world :: 'w

record ('d, 'w) env = "'d fpu" +
  fp_setting :: int
  expand_alias :: "cstr \<Rightarrow> cstr \<Rightarrow> 'w \<Rightarrow> (cstr \<times> bool \<times> 'w) option"  \<comment> \<open>text, arguments; result, \<open>args_flag\<close> set\<close>
  alias_special_char :: "cstr \<Rightarrow> cstr \<Rightarrow> 'w \<Rightarrow> (cstr \<times> bool \<times> 'w) option"
  add_var_alias :: "cstr \<Rightarrow> cstr \<Rightarrow> 'w \<Rightarrow> 'w option"
  parse_line_with_return :: "cstr \<Rightarrow> cstr \<Rightarrow> 'w \<Rightarrow> (cstr \<times> 'w) option"

abbreviation TOKENCOUNT :: nat where "TOKENCOUNT \<equiv> 80"
abbreviation STACKSZ :: nat where "STACKSZ \<equiv> 80"
abbreviation MAGIC_TOKEN :: int where "MAGIC_TOKEN \<equiv> - 14"

subsection \<open>Making tokens\<close>

definition no_symbol :: "'d symbol" where
  "no_symbol = \<lparr>lval = None, raw_value = None, expanded_value = None, integer_value = None,
     float_value = None, boolean_value = None\<rparr>"

definition new_token :: "'d symbol \<Rightarrow> ('d, 'w) operands \<Rightarrow> int \<times> ('d, 'w) operands" where
  "new_token s st =
     (if TOKENCOUNT \<le> length (tokens st) then (- 1, st)
      else (int (length (tokens st)), st\<lparr>tokens := tokens st @ [s]\<rparr>))"

definition tokenize_lval :: "cstr \<Rightarrow> ('d, 'w) operands \<Rightarrow> int \<times> ('d, 'w) operands" where
  "tokenize_lval t = new_token (no_symbol\<lparr>lval := Some t\<rparr>)"

definition tokenize_raw :: "cstr \<Rightarrow> ('d, 'w) operands \<Rightarrow> int \<times> ('d, 'w) operands" where
  "tokenize_raw t = new_token (no_symbol\<lparr>raw_value := Some t\<rparr>)"

definition tokenize_expanded :: "cstr \<Rightarrow> ('d, 'w) operands \<Rightarrow> int \<times> ('d, 'w) operands" where
  "tokenize_expanded t = new_token (no_symbol\<lparr>expanded_value := Some t\<rparr>)"

definition tokenize_integer :: "int \<Rightarrow> ('d, 'w) operands \<Rightarrow> int \<times> ('d, 'w) operands" where
  "tokenize_integer t = new_token (no_symbol\<lparr>integer_value := Some t\<rparr>)"

definition tokenize_float :: "'d \<Rightarrow> ('d, 'w) operands \<Rightarrow> int \<times> ('d, 'w) operands" where
  "tokenize_float t = new_token (no_symbol\<lparr>float_value := Some t\<rparr>)"

definition tokenize_bool :: "bool \<Rightarrow> ('d, 'w) operands \<Rightarrow> int \<times> ('d, 'w) operands" where
  "tokenize_bool t = new_token (no_symbol\<lparr>boolean_value := Some t\<rparr>)"

definition setup_expr_info :: "cstr \<Rightarrow> bool \<Rightarrow> 'w \<Rightarrow> ('d, 'w) operands" where
  "setup_expr_info a flag w =
     snd (tokenize_raw [] \<lparr>noeval = 0, tokens = [], stack = [], last_token = 0, eargs = a,
                             args_flag = flag, world = w\<rparr>)"

subsection \<open>Reading tokens\<close>

definition set_symbol :: "int \<Rightarrow> 'd symbol \<Rightarrow> ('d, 'w) operands \<Rightarrow> ('d, 'w) operands" where
  "set_symbol v s st = st\<lparr>tokens := (tokens st)[nat v := s]\<rparr>"

abbreviation symbol_of :: "('d, 'w) operands \<Rightarrow> int \<Rightarrow> 'd symbol" where
  "symbol_of st v \<equiv> tokens st ! nat v"

definition out_of_range :: "('d, 'w) operands \<Rightarrow> int \<Rightarrow> bool" where
  "out_of_range st v \<longleftrightarrow> v < 0 \<or> int (length (tokens st)) \<le> v"

definition raw_text :: "('d, 'w) env \<Rightarrow> 'd symbol \<Rightarrow> ('d, 'w) operands \<Rightarrow> (cstr \<times> ('d, 'w) operands) result" where
  "raw_text E s st =
     (if expanded_value s \<noteq> None then Inl Panic
      else case float_value s of
        Some a \<Rightarrow> Inr (canon_number (fp_setting E) (d_show E a), st)
      | None \<Rightarrow>
          (case integer_value s of
             Some i \<Rightarrow> Inr (ltoa i, st)
           | None \<Rightarrow>
               (case boolean_value s of
                  Some b \<Rightarrow> Inr (if b then ''1'' else ''0'', st)
                | None \<Rightarrow>
                    (case lval s of
                       Some l \<Rightarrow>
                         bnd (or_hang (expand_alias E l (eargs st) (world st))) (\<lambda>(r, fl, w).
                           Inr (r, st\<lparr>args_flag := args_flag st \<or> fl, world := w\<rparr>))
                     | None \<Rightarrow> Inl Panic))))"

definition get_token_raw :: "('d, 'w) env \<Rightarrow> int \<Rightarrow> ('d, 'w) operands \<Rightarrow> (cstr \<times> ('d, 'w) operands) result" where
  "get_token_raw E v st =
     (if v = MAGIC_TOKEN then Inr (eargs st, st)
      else if out_of_range st v \<or> v = 0 \<or> noeval st \<noteq> 0 then Inr ([], st)
      else case raw_value (symbol_of st v) of
        Some r \<Rightarrow> Inr (r, st)
      | None \<Rightarrow>
          bnd (raw_text E (symbol_of st v) st) (\<lambda>(r, st).
            Inr (r, set_symbol v ((symbol_of st v)\<lparr>raw_value := Some r\<rparr>) st)))"

definition get_token_lval ::
  "('d, 'w) env \<Rightarrow> int \<Rightarrow> ('d, 'w) operands \<Rightarrow> (cstr option \<times> ('d, 'w) operands) result" where
  "get_token_lval E v st =
     (if v = MAGIC_TOKEN then Inr (Some (eargs st), st)
      else if out_of_range st v \<or> v = 0 \<or> lval (symbol_of st v) = None then Inr (None, st)
      else if noeval st \<noteq> 0 then Inr (Some [], st)
      else bnd (get_token_raw E v st) (\<lambda>(r, st). Inr (Some r, st)))"

text \<open>The text of a name, its variable; the text of a raw value, expanded.\<close>

definition expanded_text ::
  "('d, 'w) env \<Rightarrow> 'd symbol \<Rightarrow> cstr \<Rightarrow> ('d, 'w) operands \<Rightarrow> (cstr \<times> ('d, 'w) operands) result" where
  "expanded_text E s myval st =
     (if lval s = None \<and> raw_value s = None then Inl Panic
      else bnd (or_hang ((if lval s \<noteq> None then alias_special_char E else expand_alias E) myval (eargs st) (world st)))
        (\<lambda>(t, fl, w). Inr (t, st\<lparr>args_flag := args_flag st \<or> fl, world := w\<rparr>)))"

definition get_token_expanded ::
  "('d, 'w) env \<Rightarrow> int \<Rightarrow> ('d, 'w) operands \<Rightarrow> (cstr \<times> ('d, 'w) operands) result" where
  "get_token_expanded E v st =
     (if v = MAGIC_TOKEN then Inr (eargs st, st)
      else if out_of_range st v \<or> v = 0 \<or> noeval st \<noteq> 0 then Inr ([], st)
      else case expanded_value (symbol_of st v) of
        Some t \<Rightarrow> Inr (t, st)
      | None \<Rightarrow>
          bnd (get_token_raw E v st) (\<lambda>(myval, st).
            bnd (expanded_text E (symbol_of st v) myval st) (\<lambda>(t, st).
              Inr (t, set_symbol v ((symbol_of st v)\<lparr>expanded_value := Some t\<rparr>) st))))"

definition get_token_integer ::
  "('d, 'w) env \<Rightarrow> int \<Rightarrow> ('d, 'w) operands \<Rightarrow> (int \<times> ('d, 'w) operands) result" where
  "get_token_integer E v st =
     (if v = MAGIC_TOKEN then Inr (fst (strtol10 (eargs st)), st)
      else if out_of_range st v then Inr (0, st)
      else case integer_value (symbol_of st v) of
        Some i \<Rightarrow> Inr (i, st)
      | None \<Rightarrow>
          bnd (get_token_expanded E v st) (\<lambda>(myval, st).
            let i = fst (strtol10 myval)
            in Inr (i, set_symbol v ((symbol_of st v)\<lparr>integer_value := Some i\<rparr>) st)))"

definition get_token_float ::
  "('d, 'w) env \<Rightarrow> int \<Rightarrow> ('d, 'w) operands \<Rightarrow> ('d \<times> ('d, 'w) operands) result" where
  "get_token_float E v st =
     (if v = MAGIC_TOKEN then Inr (d_read E (eargs st), st)
      else if out_of_range st v then Inr (d_of_long E 0, st)
      else case float_value (symbol_of st v) of
        Some a \<Rightarrow> Inr (a, st)
      | None \<Rightarrow>
          bnd (get_token_expanded E v st) (\<lambda>(myval, st).
            let a = d_read E myval
            in Inr (a, set_symbol v ((symbol_of st v)\<lparr>float_value := Some a\<rparr>) st)))"

definition get_token_boolean ::
  "('d, 'w) env \<Rightarrow> int \<Rightarrow> ('d, 'w) operands \<Rightarrow> (bool \<times> ('d, 'w) operands) result" where
  "get_token_boolean E v st =
     (if v = MAGIC_TOKEN then Inr (check_val E (eargs st), st)
      else if out_of_range st v then Inr (False, st)
      else case boolean_value (symbol_of st v) of
        Some b \<Rightarrow> Inr (b, st)
      | None \<Rightarrow>
          bnd (get_token_expanded E v st) (\<lambda>(myval, st).
            let b = check_val E myval
            in Inr (b, set_symbol v ((symbol_of st v)\<lparr>boolean_value := Some b\<rparr>) st)))"

subsection \<open>The operand stack\<close>

definition push_token :: "int \<Rightarrow> ('d, 'w) operands \<Rightarrow> ('d, 'w) operands" where
  "push_token t st = (if length (stack st) = STACKSZ then st else st\<lparr>stack := t # stack st\<rparr>)"

definition push_string :: "cstr \<Rightarrow> ('d, 'w) operands \<Rightarrow> ('d, 'w) operands" where
  "push_string t st = (case tokenize_expanded t st of (v, st) \<Rightarrow> push_token v st)"

definition push_float :: "'d \<Rightarrow> ('d, 'w) operands \<Rightarrow> ('d, 'w) operands" where
  "push_float t st = (case tokenize_float t st of (v, st) \<Rightarrow> push_token v st)"

definition push_integer :: "int \<Rightarrow> ('d, 'w) operands \<Rightarrow> ('d, 'w) operands" where
  "push_integer t st = (case tokenize_integer t st of (v, st) \<Rightarrow> push_token v st)"

definition push_boolean :: "bool \<Rightarrow> ('d, 'w) operands \<Rightarrow> ('d, 'w) operands" where
  "push_boolean t st = (case tokenize_bool t st of (v, st) \<Rightarrow> push_token v st)"

definition push_lval :: "cstr \<Rightarrow> ('d, 'w) operands \<Rightarrow> ('d, 'w) operands" where
  "push_lval t st = (case tokenize_lval t st of (v, st) \<Rightarrow> push_token v st)"

definition top_token :: "('d, 'w) operands \<Rightarrow> int" where
  "top_token st = (case stack st of [] \<Rightarrow> - 1 | t # _ \<Rightarrow> t)"

definition pop_token :: "('d, 'w) operands \<Rightarrow> int \<times> ('d, 'w) operands" where
  "pop_token st = (case stack st of [] \<Rightarrow> (0, st) | t # ts \<Rightarrow> (t, st\<lparr>stack := ts\<rparr>))"

text \<open>\<open>pop_integer\<close> returns a \<open>double\<close>; its callers store it in a \<open>long\<close>.\<close>

definition pop_integer :: "('d, 'w) env \<Rightarrow> ('d, 'w) operands \<Rightarrow> ('d \<times> ('d, 'w) operands) result" where
  "pop_integer E st =
     (case pop_token st of (v, st) \<Rightarrow> bnd (get_token_integer E v st) (\<lambda>(i, st). Inr (d_of_long E i, st)))"

definition pop_long :: "('d, 'w) env \<Rightarrow> ('d, 'w) operands \<Rightarrow> (int \<times> ('d, 'w) operands) result" where
  "pop_long E st = bnd (pop_integer E st) (\<lambda>(a, st). Inr (d_to_long E a, st))"

definition pop_float :: "('d, 'w) env \<Rightarrow> ('d, 'w) operands \<Rightarrow> ('d \<times> ('d, 'w) operands) result" where
  "pop_float E st = (case pop_token st of (v, st) \<Rightarrow> get_token_float E v st)"

definition pop_expanded :: "('d, 'w) env \<Rightarrow> ('d, 'w) operands \<Rightarrow> (cstr \<times> ('d, 'w) operands) result" where
  "pop_expanded E st = (case pop_token st of (v, st) \<Rightarrow> get_token_expanded E v st)"

definition pop_boolean :: "('d, 'w) env \<Rightarrow> ('d, 'w) operands \<Rightarrow> (bool \<times> ('d, 'w) operands) result" where
  "pop_boolean E st = (case pop_token st of (v, st) \<Rightarrow> get_token_boolean E v st)"

definition pop_2_tokens :: "('d, 'w) operands \<Rightarrow> int \<times> int \<times> ('d, 'w) operands" where
  "pop_2_tokens st = (case pop_token st of (t2, st) \<Rightarrow> case pop_token st of (t1, st) \<Rightarrow> (t1, t2, st))"

definition pop_2_floats ::
  "('d, 'w) env \<Rightarrow> ('d, 'w) operands \<Rightarrow> ('d \<times> 'd \<times> ('d, 'w) operands) result" where
  "pop_2_floats E st =
     bnd (pop_float E st) (\<lambda>(b, st). bnd (pop_float E st) (\<lambda>(a, st). Inr (a, b, st)))"

definition pop_2_integers ::
  "('d, 'w) env \<Rightarrow> ('d, 'w) operands \<Rightarrow> (int \<times> int \<times> ('d, 'w) operands) result" where
  "pop_2_integers E st =
     bnd (pop_long E st) (\<lambda>(j, st). bnd (pop_long E st) (\<lambda>(i, st). Inr (i, j, st)))"

definition pop_2_strings ::
  "('d, 'w) env \<Rightarrow> ('d, 'w) operands \<Rightarrow> (cstr \<times> cstr \<times> ('d, 'w) operands) result" where
  "pop_2_strings E st =
     bnd (pop_expanded E st) (\<lambda>(t, st). bnd (pop_expanded E st) (\<lambda>(s, st). Inr (s, t, st)))"

definition pop_2_booleans ::
  "('d, 'w) env \<Rightarrow> ('d, 'w) operands \<Rightarrow> (bool \<times> bool \<times> ('d, 'w) operands) result" where
  "pop_2_booleans E st =
     bnd (pop_boolean E st) (\<lambda>(b, st). bnd (pop_boolean E st) (\<lambda>(a, st). Inr (a, b, st)))"

definition pop_3_tokens ::
  "('d, 'w) env \<Rightarrow> ('d, 'w) operands \<Rightarrow> (bool \<times> int \<times> int \<times> ('d, 'w) operands) result" where
  "pop_3_tokens E st =
     (case pop_token st of (t3, st) \<Rightarrow>
        (case pop_2_tokens st of (t1, t2, st) \<Rightarrow>
           bnd (get_token_boolean E t1 st) (\<lambda>(a, st). Inr (a, t2, t3, st))))"

end
