(* ===== verification/ExprOp.thy ===== *)
theory ExprOp
  imports ExprToken Args
begin

section \<open>Expressions: the operators (source/expr2.c)\<close>

text \<open>
  The token kinds with their precedence and associativity, and the reducer \<open>op\<close>, which takes the
  operands of an operator from the stack and pushes the result. The C macros are the definitions
  named after them.
\<close>

datatype (plugins only: code) LEX =
    M_INPAR
  | M_NOT | M_COMP | PREMINUS | PREPLUS | UPLUS | UMINUS | STRLEN | WORDC | DEREF
  | POWER
  | MUL | M_DIV | M_MOD
  | PLUS | MINUS | STRCAT
  | SHLEFT | SHRIGHT
  | LES | LEQ | GRE | GEQ
  | MATCH | NOMATCH
  | DEQ | NEQ
  | M_AND
  | M_XOR
  | M_OR
  | DAND
  | DXOR
  | DOR
  | QUEST | COLON
  | EQ | PLUSEQ | MINUSEQ | MULEQ | DIVEQ | MODEQ | ANDEQ | XOREQ | OREQ | SHLEFTEQ | SHRIGHTEQ
  | DANDEQ | DOREQ | DXOREQ | POWEREQ | STRCATEQ | STRPREEQ | SWAP
  | COMMA
  | POSTMINUS | POSTPLUS
  | ID
  | M_OUTPAR
  | EXPERROR
  | EOI

primrec prec :: "LEX \<Rightarrow> nat" where
  "prec M_INPAR = 1"
| "prec M_NOT = 2" | "prec M_COMP = 2" | "prec PREMINUS = 2" | "prec PREPLUS = 2"
| "prec UPLUS = 2" | "prec UMINUS = 2" | "prec STRLEN = 2" | "prec WORDC = 2" | "prec DEREF = 2"
| "prec POWER = 3"
| "prec MUL = 4" | "prec M_DIV = 4" | "prec M_MOD = 4"
| "prec PLUS = 5" | "prec MINUS = 5" | "prec STRCAT = 5"
| "prec SHLEFT = 6" | "prec SHRIGHT = 6"
| "prec LES = 7" | "prec LEQ = 7" | "prec GRE = 7" | "prec GEQ = 7"
| "prec MATCH = 8" | "prec NOMATCH = 8"
| "prec DEQ = 9" | "prec NEQ = 9"
| "prec M_AND = 10" | "prec M_XOR = 11" | "prec M_OR = 12"
| "prec DAND = 13" | "prec DXOR = 14" | "prec DOR = 15"
| "prec QUEST = 16" | "prec COLON = 16"
| "prec EQ = 17" | "prec PLUSEQ = 17" | "prec MINUSEQ = 17" | "prec MULEQ = 17" | "prec DIVEQ = 17"
| "prec MODEQ = 17" | "prec ANDEQ = 17" | "prec XOREQ = 17" | "prec OREQ = 17"
| "prec SHLEFTEQ = 17" | "prec SHRIGHTEQ = 17" | "prec DANDEQ = 17" | "prec DOREQ = 17"
| "prec DXOREQ = 17" | "prec POWEREQ = 17" | "prec STRCATEQ = 17" | "prec STRPREEQ = 17" | "prec SWAP = 17"
| "prec COMMA = 18"
| "prec POSTMINUS = 2" | "prec POSTPLUS = 2"
| "prec ID = 0"
| "prec M_OUTPAR = 137"
| "prec EXPERROR = 156"
| "prec EOI = 200"

abbreviation TOPPREC :: nat where "TOPPREC \<equiv> 21"

datatype associativity = A_LR | A_RL | A_BOOL

primrec assoc :: "LEX \<Rightarrow> associativity" where
  "assoc M_INPAR = A_LR"
| "assoc M_NOT = A_RL" | "assoc M_COMP = A_RL" | "assoc PREMINUS = A_RL" | "assoc PREPLUS = A_RL"
| "assoc UPLUS = A_RL" | "assoc UMINUS = A_RL" | "assoc STRLEN = A_RL" | "assoc WORDC = A_RL"
| "assoc DEREF = A_RL" | "assoc POWER = A_RL" | "assoc MUL = A_LR" | "assoc M_DIV = A_LR"
| "assoc M_MOD = A_LR" | "assoc PLUS = A_LR" | "assoc MINUS = A_LR" | "assoc STRCAT = A_LR"
| "assoc SHLEFT = A_LR" | "assoc SHRIGHT = A_LR" | "assoc LES = A_LR" | "assoc LEQ = A_LR"
| "assoc GRE = A_LR" | "assoc GEQ = A_LR" | "assoc MATCH = A_LR" | "assoc NOMATCH = A_LR"
| "assoc DEQ = A_LR" | "assoc NEQ = A_LR" | "assoc M_AND = A_LR" | "assoc M_XOR = A_LR"
| "assoc M_OR = A_LR" | "assoc DAND = A_BOOL" | "assoc DXOR = A_BOOL" | "assoc DOR = A_BOOL"
| "assoc QUEST = A_RL" | "assoc COLON = A_RL" | "assoc EQ = A_RL" | "assoc PLUSEQ = A_RL"
| "assoc MINUSEQ = A_RL" | "assoc MULEQ = A_RL" | "assoc DIVEQ = A_RL" | "assoc MODEQ = A_RL"
| "assoc ANDEQ = A_RL" | "assoc XOREQ = A_RL" | "assoc OREQ = A_RL" | "assoc SHLEFTEQ = A_RL"
| "assoc SHRIGHTEQ = A_RL" | "assoc DANDEQ = A_RL" | "assoc DOREQ = A_RL" | "assoc DXOREQ = A_RL"
| "assoc POWEREQ = A_RL" | "assoc STRCATEQ = A_RL" | "assoc STRPREEQ = A_RL" | "assoc SWAP = A_RL"
| "assoc COMMA = A_LR" | "assoc POSTMINUS = A_RL" | "assoc POSTPLUS = A_RL" | "assoc ID = A_LR"
| "assoc M_OUTPAR = A_LR" | "assoc EXPERROR = A_LR" | "assoc EOI = A_LR"

subsection \<open>The macros\<close>

type_synonym ('d, 'w) step = "('d, 'w) operands \<Rightarrow> ('d, 'w) operands result"

definition BINARY_FLOAT :: "('d, 'w) env \<Rightarrow> ('d \<Rightarrow> 'd \<Rightarrow> 'd) \<Rightarrow> ('d, 'w) step" where
  "BINARY_FLOAT E f st = bnd (pop_2_floats E st) (\<lambda>(a, b, st). Inr (push_float (f a b) st))"

definition BINARY_INTEGER :: "('d, 'w) env \<Rightarrow> (int \<Rightarrow> int \<Rightarrow> int result) \<Rightarrow> ('d, 'w) step" where
  "BINARY_INTEGER E f st =
     bnd (pop_2_integers E st) (\<lambda>(i, j, st). bnd (f i j) (\<lambda>k. Inr (push_integer k st)))"

definition BINARY_BOOLEAN :: "('d, 'w) env \<Rightarrow> (bool \<Rightarrow> bool \<Rightarrow> bool) \<Rightarrow> ('d, 'w) step" where
  "BINARY_BOOLEAN E f st = bnd (pop_2_booleans E st) (\<lambda>(c, d, st). Inr (push_boolean (f c d) st))"

definition BINARY_FLOAT_NOZERO :: "('d, 'w) env \<Rightarrow> ('d \<Rightarrow> 'd \<Rightarrow> 'd) \<Rightarrow> ('d, 'w) step" where
  "BINARY_FLOAT_NOZERO E f st =
     bnd (pop_2_floats E st) (\<lambda>(a, b, st).
       Inr (if d_is_zero E b then push_token 0 st else push_float (f a b) st))"

definition BINARY_INTEGER_NOZERO :: "('d, 'w) env \<Rightarrow> (int \<Rightarrow> int \<Rightarrow> int result) \<Rightarrow> ('d, 'w) step" where
  "BINARY_INTEGER_NOZERO E f st =
     bnd (pop_2_integers E st) (\<lambda>(i, j, st).
       if j = 0 then Inr (push_token 0 st) else bnd (f i j) (\<lambda>k. Inr (push_integer k st)))"

text \<open>The name to assign to and the two tokens; without a name the result is the empty token.\<close>

definition GET_LVAL_RVAL ::
  "('d, 'w) env \<Rightarrow> (cstr \<Rightarrow> int \<Rightarrow> int \<Rightarrow> ('d, 'w) step) \<Rightarrow> ('d, 'w) step" where
  "GET_LVAL_RVAL E k st =
     (case pop_2_tokens st of (v, w, st) \<Rightarrow>
        bnd (get_token_lval E v st) (\<lambda>(s, st).
          case s of None \<Rightarrow> Inr (push_token 0 st) | Some s \<Rightarrow> k s v w st))"

definition assign_var :: "('d, 'w) env \<Rightarrow> cstr \<Rightarrow> cstr \<Rightarrow> ('d, 'w) step" where
  "assign_var E s t st = bnd (or_hang (add_var_alias E s t (world st))) (\<lambda>w. Inr (st\<lparr>world := w\<rparr>))"

text \<open>The end all implied operators share: the new token is assigned and pushed.\<close>

definition store_token :: "('d, 'w) env \<Rightarrow> cstr \<Rightarrow> int \<times> ('d, 'w) operands \<Rightarrow> ('d, 'w) operands result" where
  "store_token E s p =
     (case p of (w, st) \<Rightarrow>
        bnd (get_token_expanded E w st) (\<lambda>(t, st).
          bnd (assign_var E s t st) (\<lambda>st. Inr (push_token w st))))"

definition IMPLIED_INTEGER :: "('d, 'w) env \<Rightarrow> (int \<Rightarrow> int \<Rightarrow> int result) \<Rightarrow> ('d, 'w) step" where
  "IMPLIED_INTEGER E f = GET_LVAL_RVAL E (\<lambda>s v w st.
     bnd (get_token_integer E v st) (\<lambda>(i, st). bnd (get_token_integer E w st) (\<lambda>(j, st).
       bnd (f i j) (\<lambda>k. store_token E s (tokenize_integer k st)))))"

definition IMPLIED_FLOAT :: "('d, 'w) env \<Rightarrow> ('d \<Rightarrow> 'd \<Rightarrow> 'd) \<Rightarrow> ('d, 'w) step" where
  "IMPLIED_FLOAT E f = GET_LVAL_RVAL E (\<lambda>s v w st.
     bnd (get_token_float E v st) (\<lambda>(a, st). bnd (get_token_float E w st) (\<lambda>(b, st).
       store_token E s (tokenize_float (f a b) st))))"

definition IMPLIED_BOOLEAN :: "('d, 'w) env \<Rightarrow> (bool \<Rightarrow> bool \<Rightarrow> bool) \<Rightarrow> ('d, 'w) step" where
  "IMPLIED_BOOLEAN E f = GET_LVAL_RVAL E (\<lambda>s v w st.
     bnd (get_token_boolean E v st) (\<lambda>(c, st). bnd (get_token_boolean E w st) (\<lambda>(d, st).
       store_token E s (tokenize_bool (f c d) st))))"

definition IMPLIED_FLOAT_NOZERO :: "('d, 'w) env \<Rightarrow> ('d \<Rightarrow> 'd \<Rightarrow> 'd) \<Rightarrow> ('d, 'w) step" where
  "IMPLIED_FLOAT_NOZERO E f = GET_LVAL_RVAL E (\<lambda>s v w st.
     bnd (get_token_float E v st) (\<lambda>(a, st). bnd (get_token_float E w st) (\<lambda>(b, st).
       if d_is_zero E b then bnd (assign_var E s [] st) (\<lambda>st. Inr (push_token 0 st))
       else store_token E s (tokenize_float (f a b) st))))"

definition IMPLIED_INTEGER_NOZERO :: "('d, 'w) env \<Rightarrow> (int \<Rightarrow> int \<Rightarrow> int result) \<Rightarrow> ('d, 'w) step" where
  "IMPLIED_INTEGER_NOZERO E f = GET_LVAL_RVAL E (\<lambda>s v w st.
     bnd (get_token_float E v st) (\<lambda>(a, st). bnd (get_token_float E w st) (\<lambda>(b, st).
       if d_to_long E b = 0 then bnd (assign_var E s [] st) (\<lambda>st. Inr (push_token 0 st))
       else bnd (f (d_to_long E a) (d_to_long E b)) (\<lambda>k. store_token E s (tokenize_float (d_of_long E k) st)))))"

definition AUTO_UNARY :: "('d, 'w) env \<Rightarrow> int \<Rightarrow> bool \<Rightarrow> ('d, 'w) step" where
  "AUTO_UNARY E d post st =
     (case pop_token st of (v, st) \<Rightarrow>
        bnd (get_token_lval E v st) (\<lambda>(s, st).
          case s of
            None \<Rightarrow> Inr (push_token 0 st)
          | Some s \<Rightarrow>
              bnd (get_token_integer E v st) (\<lambda>(j, st).
                bnd (c_inc j d) (\<lambda>k.
                  case tokenize_integer k st of (w, st) \<Rightarrow>
                    bnd (get_token_expanded E w st) (\<lambda>(t, st).
                      bnd (assign_var E s t st) (\<lambda>st. Inr (push_integer (if post then j else k) st)))))))"

definition COMPARE :: "('d, 'w) env \<Rightarrow> ('d \<Rightarrow> 'd \<Rightarrow> bool) \<Rightarrow> (int \<Rightarrow> bool) \<Rightarrow> ('d, 'w) step" where
  "COMPARE E x y st =
     bnd (pop_2_strings E st) (\<lambda>(s, t, st).
       Inr (push_boolean
              (if is_real_number s \<and> is_real_number t then x (d_read E s) (d_read E t)
               else y (my_stricmp s t)) st))"

subsection \<open>The operators\<close>

definition op_unary_float :: "('d, 'w) env \<Rightarrow> ('d \<Rightarrow> 'd) \<Rightarrow> ('d, 'w) step" where
  "op_unary_float E f st = bnd (pop_float E st) (\<lambda>(a, st). Inr (push_float (f a) st))"

definition op_count :: "('d, 'w) env \<Rightarrow> (cstr \<Rightarrow> nat) \<Rightarrow> ('d, 'w) step" where
  "op_count E f st = bnd (pop_expanded E st) (\<lambda>(s, st). Inr (push_integer (int (f s)) st))"

definition op_deref :: "('d, 'w) env \<Rightarrow> ('d, 'w) step" where
  "op_deref E st =
     (if top_token st = MAGIC_TOKEN then Inr st
      else bnd (pop_expanded E (st\<lparr>args_flag := True\<rparr>)) (\<lambda>(s, st). Inr (push_lval s st)))"

definition op_strcat :: "('d, 'w) env \<Rightarrow> ('d, 'w) step" where
  "op_strcat E st = bnd (pop_2_strings E st) (\<lambda>(s, t, st). Inr (push_string (s @ t) st))"

definition op_strcateq :: "('d, 'w) env \<Rightarrow> ('d, 'w) step" where
  "op_strcateq E = GET_LVAL_RVAL E (\<lambda>s v w st.
     bnd (get_token_expanded E v st) (\<lambda>(myval, st). bnd (get_token_expanded E w st) (\<lambda>(t, st).
       assign_var E s (myval @ t) (push_string (myval @ t) st))))"

definition op_strpreeq :: "('d, 'w) env \<Rightarrow> ('d, 'w) step" where
  "op_strpreeq E = GET_LVAL_RVAL E (\<lambda>s v w st.
     bnd (get_token_expanded E w st) (\<lambda>(myval, st). bnd (get_token_expanded E v st) (\<lambda>(t, st).
       assign_var E s (myval @ t) (push_string (myval @ t) st))))"

definition op_eq :: "('d, 'w) env \<Rightarrow> ('d, 'w) step" where
  "op_eq E = GET_LVAL_RVAL E (\<lambda>s v w st.
     bnd (get_token_expanded E w st) (\<lambda>(t, st). assign_var E s t (push_token w st)))"

definition op_swap :: "('d, 'w) env \<Rightarrow> ('d, 'w) step" where
  "op_swap E = GET_LVAL_RVAL E (\<lambda>s v w st.
     bnd (get_token_lval E w st) (\<lambda>(t, st).
       case t of
         None \<Rightarrow> Inr (push_token 0 st)
       | Some t \<Rightarrow>
           bnd (get_token_expanded E v st) (\<lambda>(sval, st). bnd (get_token_expanded E w st) (\<lambda>(tval, st).
             bnd (assign_var E s tval st) (\<lambda>st. bnd (assign_var E t sval st) (\<lambda>st. Inr (push_token w st)))))))"

definition op_same :: "('d, 'w) env \<Rightarrow> bool \<Rightarrow> ('d, 'w) step" where
  "op_same E want st =
     bnd (pop_2_strings E st) (\<lambda>(s, t, st). Inr (push_boolean ((my_stricmp s t = 0) = want) st))"

definition op_match :: "('d, 'w) env \<Rightarrow> bool \<Rightarrow> ('d, 'w) step" where
  "op_match E want st =
     bnd (pop_2_strings E st) (\<lambda>(s, t, st).
       case wild_match t s of
         None \<Rightarrow> Inl NoReturn
       | Some r \<Rightarrow> Inr (push_boolean ((r \<noteq> 0) = want) st))"

definition op_quest :: "('d, 'w) env \<Rightarrow> ('d, 'w) step" where
  "op_quest E st = bnd (pop_3_tokens E st) (\<lambda>(c, v, w, st). Inr (push_token (if c then v else w) st))"

definition op_comma :: "('d, 'w) env \<Rightarrow> ('d, 'w) step" where
  "op_comma E st = (case pop_2_tokens st of (v, w, st) \<Rightarrow> Inr (push_token w st))"

definition op_not :: "('d, 'w) env \<Rightarrow> ('d, 'w) step" where
  "op_not E st = bnd (pop_boolean E st) (\<lambda>(c, st). Inr (push_boolean (\<not> c) st))"

definition op_comp :: "('d, 'w) env \<Rightarrow> ('d, 'w) step" where
  "op_comp E st = bnd (pop_long E st) (\<lambda>(i, st). Inr (push_integer (NOT i) st))"

text \<open>The cases of the switch; the tokens it does not name are its default.\<close>

primrec reduce :: "LEX \<Rightarrow> ('d, 'w) env \<Rightarrow> ('d, 'w) step" where
  "reduce M_INPAR E st = Inr st"
| "reduce M_NOT E st = op_not E st"
| "reduce M_COMP E st = op_comp E st"
| "reduce PREMINUS E st = AUTO_UNARY E (- 1) False st"
| "reduce PREPLUS E st = AUTO_UNARY E 1 False st"
| "reduce UPLUS E st = op_unary_float E id st"
| "reduce UMINUS E st = op_unary_float E (d_neg E) st"
| "reduce STRLEN E st = op_count E length st"
| "reduce WORDC E st = op_count E word_count st"
| "reduce DEREF E st = op_deref E st"
| "reduce POWER E st = BINARY_FLOAT E (d_pow E) st"
| "reduce MUL E st = BINARY_FLOAT E (d_mul E) st"
| "reduce M_DIV E st = BINARY_FLOAT_NOZERO E (d_div E) st"
| "reduce M_MOD E st = BINARY_INTEGER_NOZERO E c_mod st"
| "reduce PLUS E st = BINARY_FLOAT E (d_add E) st"
| "reduce MINUS E st = BINARY_FLOAT E (d_sub E) st"
| "reduce STRCAT E st = op_strcat E st"
| "reduce SHLEFT E st = BINARY_INTEGER E c_shl st"
| "reduce SHRIGHT E st = BINARY_INTEGER E c_shr st"
| "reduce LES E st = COMPARE E (d_less E) (\<lambda>r. r < 0) st"
| "reduce LEQ E st = COMPARE E (d_le E) (\<lambda>r. r \<le> 0) st"
| "reduce GRE E st = COMPARE E (\<lambda>a b. d_less E b a) (\<lambda>r. r > 0) st"
| "reduce GEQ E st = COMPARE E (\<lambda>a b. d_le E b a) (\<lambda>r. r \<ge> 0) st"
| "reduce MATCH E st = op_match E True st"
| "reduce NOMATCH E st = op_match E False st"
| "reduce DEQ E st = op_same E True st"
| "reduce NEQ E st = op_same E False st"
| "reduce M_AND E st = BINARY_INTEGER E (\<lambda>i j. Inr (i AND j)) st"
| "reduce M_XOR E st = BINARY_INTEGER E (\<lambda>i j. Inr (i XOR j)) st"
| "reduce M_OR E st = BINARY_INTEGER E (\<lambda>i j. Inr (i OR j)) st"
| "reduce DAND E st = BINARY_BOOLEAN E (\<and>) st"
| "reduce DXOR E st = BINARY_BOOLEAN E (\<noteq>) st"
| "reduce DOR E st = BINARY_BOOLEAN E (\<or>) st"
| "reduce QUEST E st = op_quest E st"
| "reduce COLON E st = Inr st"
| "reduce EQ E st = op_eq E st"
| "reduce PLUSEQ E st = IMPLIED_FLOAT E (d_add E) st"
| "reduce MINUSEQ E st = IMPLIED_FLOAT E (d_sub E) st"
| "reduce MULEQ E st = IMPLIED_FLOAT E (d_mul E) st"
| "reduce DIVEQ E st = IMPLIED_FLOAT_NOZERO E (d_div E) st"
| "reduce MODEQ E st = IMPLIED_INTEGER_NOZERO E c_mod st"
| "reduce ANDEQ E st = IMPLIED_INTEGER E (\<lambda>i j. Inr (i AND j)) st"
| "reduce XOREQ E st = IMPLIED_INTEGER E (\<lambda>i j. Inr (i XOR j)) st"
| "reduce OREQ E st = IMPLIED_INTEGER E (\<lambda>i j. Inr (i OR j)) st"
| "reduce SHLEFTEQ E st = IMPLIED_INTEGER E c_shl st"
| "reduce SHRIGHTEQ E st = IMPLIED_INTEGER E c_shr st"
| "reduce DANDEQ E st = IMPLIED_BOOLEAN E (\<and>) st"
| "reduce DOREQ E st = IMPLIED_BOOLEAN E (\<or>) st"
| "reduce DXOREQ E st = IMPLIED_BOOLEAN E (\<noteq>) st"
| "reduce POWEREQ E st = IMPLIED_FLOAT E (d_pow E) st"
| "reduce STRCATEQ E st = op_strcateq E st"
| "reduce STRPREEQ E st = op_strpreeq E st"
| "reduce SWAP E st = op_swap E st"
| "reduce COMMA E st = op_comma E st"
| "reduce POSTMINUS E st = AUTO_UNARY E (- 1) True st"
| "reduce POSTPLUS E st = AUTO_UNARY E 1 True st"
| "reduce ID E st = Inr st"
| "reduce M_OUTPAR E st = Inr st"
| "reduce EXPERROR E st = Inr st"
| "reduce EOI E st = Inr st"

definition op :: "('d, 'w) env \<Rightarrow> bool \<Rightarrow> LEX \<Rightarrow> ('d, 'w) step" where
  "op E errflag what st = (if stack st = [] \<or> errflag then Inr st else reduce what E st)"

end
