(* ===== verification/ExprLex.thy ===== *)
theory ExprLex
  imports ExprOp
begin

section \<open>Expressions: the lexer (source/expr2.c, alias.c)\<close>

text \<open>
  \<open>zzlex\<close> finds the next token. A \<open>char *\<close> into the expression is the rest of the text, so the
  static \<open>empty_string\<close> and the end of the text are both the empty list. The flag \<open>operand\<close> says
  what is expected: 0 an operator, 1 an operand or prefix operator, 2 an operand that may be
  left out (after \<open>#\<close>, \<open>@\<close> and \<open>*\<close>), which then is the text of the arguments. The mark \<open>hung\<close> says
  that a command in braces has not come back; the parser looks at it before it does anything else.
\<close>

record ('d, 'w) expr_info =
  ptr :: cstr
  operand :: int
  mtok :: LEX
  errflag :: bool
  hung :: bool
  vals :: "('d, 'w) operands"

subsection \<open>Names\<close>

definition expando_char :: "char \<Rightarrow> bool" where
  "expando_char c \<longleftrightarrow> is_lower c \<or> is_upper c \<or> is_digit c \<or> c = CHR ''_'' \<or> c = CHR ''.''"

text \<open>The names of the table of one-character functions of functions.c.\<close>

definition is_built_in_alias :: "char \<Rightarrow> bool" where
  "is_built_in_alias c \<longleftrightarrow> c \<in> set ''.,CEFGIJLNOSTWv$''"

definition strchr_at :: "cstr \<Rightarrow> char \<Rightarrow> cstr option" where
  "strchr_at s c = (case dropWhile (\<lambda>d. d \<noteq> c) s of [] \<Rightarrow> None | t \<Rightarrow> Some t)"

text \<open>The end of a bracketed part; without a matching bracket, the first closing one.\<close>

definition bracket_end :: "char \<Rightarrow> char \<Rightarrow> cstr \<Rightarrow> cstr option" where
  "bracket_end l r s = (case MatchingBracket (tl s) l r of None \<Rightarrow> strchr_at s r | Some t \<Rightarrow> Some t)"

lemma mb_loop_suffix: "mb_loop l r n s = Some t \<Longrightarrow> suffix t s \<and> t \<noteq> []"
  by (induction l r n s rule: mb_loop.induct) (auto split: if_splits simp: suffix_Cons)

lemma MatchingBracket_suffix: "MatchingBracket s l r = Some t \<Longrightarrow> suffix t s \<and> t \<noteq> []"
  unfolding MatchingBracket_def by (auto split: if_splits dest: mb_loop_suffix)

lemma strchr_at_suffix: "strchr_at s c = Some t \<Longrightarrow> suffix t s \<and> t \<noteq> []"
  unfolding strchr_at_def by (auto split: list.splits) (metis suffix_dropWhile)

lemma bracket_end_suffix: "bracket_end l r s = Some t \<Longrightarrow> suffix t s \<and> t \<noteq> []"
  unfolding bracket_end_def
  by (auto split: option.splits dest: strchr_at_suffix MatchingBracket_suffix)
    (metis MatchingBracket_suffix suffix_order.trans suffix_tl)

lemma bracket_end_shorter: "bracket_end l r s = Some t \<Longrightarrow> length (tl t) < length s"
  using bracket_end_suffix [of l r s t] suffix_length_le [of t s] by (cases t) auto

function subscripts :: "cstr \<Rightarrow> cstr option" where
  "subscripts s2 =
     (if cat s2 0 = CHR ''[''
      then (case bracket_end (CHR ''['') (CHR '']'') s2 of None \<Rightarrow> None | Some rest \<Rightarrow> subscripts (tl rest))
      else Some s2)"
  by pat_completeness auto
termination by (relation "measure length") (auto simp only: in_measure intro: bracket_end_shorter)

declare subscripts.simps [simp del]

definition skip_colons :: "cstr \<Rightarrow> cstr" where
  "skip_colons s = (if cat s 0 = CHR '':'' then (if cat s 1 = CHR '':'' then drop 2 s else tl s) else s)"

definition or_built_in :: "cstr \<Rightarrow> cstr \<Rightarrow> cstr" where
  "or_built_in start s2 = (if s2 = start \<and> is_built_in_alias (cat start 0) then tl s2 else s2)"

definition after_expando :: "cstr \<Rightarrow> bool \<Rightarrow> cstr \<times> bool" where
  "after_expando start lvalue =
     (if start = [] then (start, False)
      else case subscripts (dropWhile expando_char (skip_colons start)) of
        None \<Rightarrow> ([], False)
      | Some s2 \<Rightarrow>
          if \<not> lvalue \<and> cat s2 0 = CHR ''(''
          then (case bracket_end (CHR ''('') (CHR '')'') s2 of
                  None \<Rightarrow> ([], False)
                | Some rest \<Rightarrow> (or_built_in start (tl rest), True))
          else (or_built_in start s2, False))"

text \<open>An lvalue of an expression: names joined by \<open>$\<close>; \<open>None\<close> is NULL.\<close>

lemma subscripts_suffix: "subscripts s = Some t \<Longrightarrow> suffix t s"
proof (induction s arbitrary: t rule: subscripts.induct)
  case (1 s)
  show ?case
  proof (cases "cat s 0 = CHR ''[''")
    case True
    then obtain r where r: "bracket_end (CHR ''['') (CHR '']'') s = Some r" "subscripts (tl r) = Some t"
      using "1.prems" by (subst (asm) subscripts.simps) (auto split: option.splits)
    then have "suffix t (tl r)" using "1.IH" True by blast
    moreover have "suffix r s" using r(1) bracket_end_suffix by blast
    ultimately show ?thesis by (meson suffix_order.trans suffix_tl)
  next
    case False
    then show ?thesis using "1.prems" by (subst (asm) subscripts.simps) simp
  qed
qed

lemma suffix_tl_trans: "suffix u s \<Longrightarrow> suffix (tl u) s"
  using suffix_tl suffix_order.trans by blast

lemma skip_colons_suffix: "suffix (skip_colons s) s"
  by (simp add: skip_colons_def suffix_drop)

lemma or_built_in_suffix: "suffix u s \<Longrightarrow> suffix (or_built_in s u) s"
  by (auto simp: or_built_in_def intro: suffix_tl_trans)

lemma after_expando_suffix: "suffix (fst (after_expando s l)) s"
proof -
  have t: "suffix t s" if "subscripts (dropWhile expando_char (skip_colons s)) = Some t" for t
    using subscripts_suffix [OF that] skip_colons_suffix suffix_dropWhile suffix_order.trans by blast
  have r: "suffix (tl r) s"
    if "subscripts (dropWhile expando_char (skip_colons s)) = Some t" "bracket_end (CHR ''('') (CHR '')'') t = Some r" for t r
    using t [OF that(1)] bracket_end_suffix [OF that(2)] suffix_tl_trans suffix_order.trans by blast
  show ?thesis
    unfolding after_expando_def by (auto split: option.splits intro: or_built_in_suffix t r)
qed

lemma after_expando_length: "length (fst (after_expando s l)) \<le> length s"
  by (rule suffix_length_le [OF after_expando_suffix])

function lvalue_end :: "cstr \<Rightarrow> cstr" where
  "lvalue_end start =
     (let rest = fst (after_expando start False)
      in if cat rest 0 = CHR ''$'' then lvalue_end (tl rest) else rest)"
  by pat_completeness auto
termination
proof (relation "measure length", simp)
  fix start x
  assume "x = fst (after_expando start False)" "cat x 0 = CHR ''$''"
  then have "x \<noteq> []" "length x \<le> length start" using after_expando_length by auto
  then show "(tl x, start) \<in> measure length" by (cases x) auto
qed

declare lvalue_end.simps [simp del]

definition after_expando_special :: "cstr \<Rightarrow> cstr option" where
  "after_expando_special p = (let rest = lvalue_end p in if rest = p then None else Some rest)"

subsection \<open>Operators\<close>

definition lexerr :: "('d, 'w) expr_info \<Rightarrow> LEX \<times> ('d, 'w) expr_info" where
  "lexerr c = (EOI, c\<lparr>errflag := True\<rparr>)"

definition check_implied_arg :: "('d, 'w) expr_info \<Rightarrow> ('d, 'w) expr_info" where
  "check_implied_arg c =
     (if operand c = 2
      then c\<lparr>operand := 0, vals := (push_token MAGIC_TOKEN (vals c))\<lparr>args_flag := True\<rparr>\<rparr>
      else c)"

definition operator :: "nat \<Rightarrow> LEX \<Rightarrow> ('d, 'w) expr_info \<Rightarrow> LEX \<times> ('d, 'w) expr_info" where
  "operator y z c =
     (let c = check_implied_arg c
      in if operand c \<noteq> 0 then lexerr c else (z, c\<lparr>ptr := drop y (ptr c), operand := 1\<rparr>))"

definition unary :: "int \<Rightarrow> LEX \<Rightarrow> ('d, 'w) expr_info \<Rightarrow> LEX \<times> ('d, 'w) expr_info" where
  "unary dummy z c = (if operand c = 0 then lexerr c else (z, c\<lparr>operand := dummy\<rparr>))"

text \<open>In the lexers below the first character of the operator is already passed.\<close>

abbreviation nxt :: "('d, 'w) expr_info \<Rightarrow> char" where "nxt c \<equiv> cat (ptr c) 0"

abbreviation pass :: "('d, 'w) expr_info \<Rightarrow> ('d, 'w) expr_info" where "pass c \<equiv> c\<lparr>ptr := tl (ptr c)\<rparr>"

text \<open>An operator, and the same followed by \<open>=\<close>.\<close>

definition lex_assign :: "LEX \<Rightarrow> LEX \<Rightarrow> ('d, 'w) expr_info \<Rightarrow> LEX \<times> ('d, 'w) expr_info" where
  "lex_assign z zeq c = (if nxt c = CHR ''='' then operator 1 zeq c else operator 0 z c)"

definition lex_rparen :: "('d, 'w) expr_info \<Rightarrow> LEX \<times> ('d, 'w) expr_info" where
  "lex_rparen c =
     (let c = check_implied_arg c;
          c = (if operand c \<noteq> 0 then c\<lparr>vals := push_token 0 (vals c)\<rparr> else c)
      in (M_OUTPAR, c\<lparr>operand := 0\<rparr>))"

definition lex_plus :: "('d, 'w) expr_info \<Rightarrow> LEX \<times> ('d, 'w) expr_info" where
  "lex_plus c =
     (let c = check_implied_arg c
      in if nxt c = CHR ''+'' then (if operand c \<noteq> 0 then PREPLUS else POSTPLUS, pass c)
         else if nxt c = CHR ''='' then operator 1 PLUSEQ c
         else if operand c \<noteq> 0 then unary 1 UPLUS c
         else operator 0 PLUS c)"

definition lex_minus :: "('d, 'w) expr_info \<Rightarrow> LEX \<times> ('d, 'w) expr_info" where
  "lex_minus c =
     (let c = check_implied_arg c
      in if nxt c = CHR ''-'' then (if operand c \<noteq> 0 then PREMINUS else POSTMINUS, pass c)
         else if nxt c = CHR ''='' then operator 1 MINUSEQ c
         else if operand c \<noteq> 0 then unary 1 UMINUS c
         else operator 0 MINUS c)"

definition lex_star :: "('d, 'w) expr_info \<Rightarrow> LEX \<times> ('d, 'w) expr_info" where
  "lex_star c =
     (if nxt c = CHR ''*'' then lex_assign POWER POWEREQ (pass c)
      else if nxt c = CHR ''='' then operator 1 MULEQ c
      else if operand c \<noteq> 0 then unary 2 DEREF c
      else operator 0 MUL c)"

definition lex_bang :: "('d, 'w) expr_info \<Rightarrow> LEX \<times> ('d, 'w) expr_info" where
  "lex_bang c =
     (if nxt c = CHR ''='' then operator 1 NEQ c
      else if nxt c = CHR ''~'' then operator 1 NOMATCH c
      else unary 1 M_NOT c)"

text \<open>\<open>&\<close>, \<open>|\<close> and \<open>^\<close>: single and double, each with \<open>=\<close>.\<close>

definition lex_double ::
  "char \<Rightarrow> LEX \<Rightarrow> LEX \<Rightarrow> LEX \<Rightarrow> LEX \<Rightarrow> ('d, 'w) expr_info \<Rightarrow> LEX \<times> ('d, 'w) expr_info" where
  "lex_double d one oneq two twoeq c =
     (if nxt c = d then lex_assign two twoeq (pass c) else lex_assign one oneq c)"

definition lex_hash :: "('d, 'w) expr_info \<Rightarrow> LEX \<times> ('d, 'w) expr_info" where
  "lex_hash c =
     (let c = check_implied_arg c
      in if nxt c = CHR ''#'' then lex_assign STRCAT STRCATEQ (pass c)
         else if nxt c = CHR ''='' then operator 1 STRCATEQ c
         else if nxt c = CHR ''~'' then operator 1 STRPREEQ c
         else if operand c \<noteq> 0 then unary 2 WORDC c
         else operator 0 STRCAT c)"

definition lex_less :: "('d, 'w) expr_info \<Rightarrow> LEX \<times> ('d, 'w) expr_info" where
  "lex_less c =
     (if nxt c = CHR ''<'' then lex_assign SHLEFT SHLEFTEQ (pass c)
      else if nxt c = CHR ''=''
      then (if nxt (pass c) = CHR ''>'' then operator 1 SWAP (pass c) else operator 0 LEQ (pass c))
      else operator 0 LES c)"

definition lex_greater :: "('d, 'w) expr_info \<Rightarrow> LEX \<times> ('d, 'w) expr_info" where
  "lex_greater c =
     (if nxt c = CHR ''>'' then lex_assign SHRIGHT SHRIGHTEQ (pass c)
      else lex_assign GRE GEQ c)"

definition lex_equals :: "('d, 'w) expr_info \<Rightarrow> LEX \<times> ('d, 'w) expr_info" where
  "lex_equals c =
     (if nxt c = CHR ''='' then operator 1 DEQ c
      else if nxt c = CHR ''~'' then operator 1 MATCH c
      else operator 0 EQ c)"

definition lex_end :: "('d, 'w) expr_info \<Rightarrow> LEX \<times> ('d, 'w) expr_info" where
  "lex_end c = (let c = check_implied_arg c in (EOI, c\<lparr>operand := 1\<rparr>))"

subsection \<open>Operands\<close>

text \<open>The end of a bracketed operand and the text in it; unclosed, it takes the whole rest.\<close>

definition bracketed :: "char \<Rightarrow> char \<Rightarrow> cstr \<Rightarrow> cstr \<times> cstr" where
  "bracketed l r p =
     (case MatchingBracket p l r of
        Some e \<Rightarrow> (take (length p - length e) p, tl e)
      | None \<Rightarrow> (p, []))"

definition id_token :: "cstr \<Rightarrow> int \<times> ('d, 'w) operands \<Rightarrow> ('d, 'w) expr_info \<Rightarrow> LEX \<times> ('d, 'w) expr_info" where
  "id_token rest p c =
     (case p of (t, st) \<Rightarrow> (ID, c\<lparr>ptr := rest, operand := 0, vals := st\<lparr>last_token := t\<rparr>\<rparr>))"

definition lex_brace :: "('d, 'w) env \<Rightarrow> ('d, 'w) expr_info \<Rightarrow> LEX \<times> ('d, 'w) expr_info" where
  "lex_brace E c =
     (if operand c = 0 then lexerr c
      else case bracketed (CHR 0x7B) (CHR 0x7D) (ptr c) of
        (p, rest) \<Rightarrow>
          if noeval (vals c) \<noteq> 0 then id_token rest (0, vals c) c
          else case parse_line_with_return E p (eargs (vals c)) (world (vals c)) of
            None \<Rightarrow> (ID, c\<lparr>hung := True\<rparr>)
          | Some (r, w) \<Rightarrow> id_token rest (tokenize_expanded r ((vals c)\<lparr>world := w\<rparr>)) c)"

definition lex_bracket :: "('d, 'w) expr_info \<Rightarrow> LEX \<times> ('d, 'w) expr_info" where
  "lex_bracket c =
     (if operand c = 0 then lexerr c
      else case bracketed (CHR ''['') (CHR '']'') (ptr c) of
        (p, rest) \<Rightarrow> id_token rest (if noeval (vals c) \<noteq> 0 then (0, vals c) else tokenize_raw p (vals c)) c)"

text \<open>\<open>p\<close> is the text from the first digit, or from the first character of a name, on.\<close>

definition lex_number :: "cstr \<Rightarrow> ('d, 'w) expr_info \<Rightarrow> LEX \<times> ('d, 'w) expr_info" where
  "lex_number p c =
     (let e = strtod_end p
      in id_token e
           (if noeval (vals c) \<noteq> 0 then (0, vals c)
            else tokenize_expanded (take (length p - length e) p) (vals c)) c)"

definition lex_expando :: "cstr \<Rightarrow> cstr \<Rightarrow> ('d, 'w) expr_info \<Rightarrow> LEX \<times> ('d, 'w) expr_info" where
  "lex_expando start p c =
     (case after_expando_special p of
        Some e \<Rightarrow>
          id_token e
            (if noeval (vals c) \<noteq> 0 then (0, vals c)
             else tokenize_lval (take (length start - length e) start) (vals c)) c
      | None \<Rightarrow> id_token [] (0, vals c) c)"

text \<open>\<open>:\<close> and \<open>,\<close>: an operator, or the start of a name where an operand is expected.\<close>

definition lex_list :: "LEX \<Rightarrow> cstr \<Rightarrow> cstr \<Rightarrow> ('d, 'w) expr_info \<Rightarrow> LEX \<times> ('d, 'w) expr_info" where
  "lex_list z start p c = (if operand c \<noteq> 0 then lex_expando start p c else (z, c\<lparr>operand := 1\<rparr>))"

text \<open>The token that begins with \<open>x\<close>; \<open>p\<close> begins with \<open>x\<close> and \<open>c\<close> has passed it.\<close>

definition lex_token ::
  "('d, 'w) env \<Rightarrow> cstr \<Rightarrow> cstr \<Rightarrow> char \<Rightarrow> ('d, 'w) expr_info \<Rightarrow> LEX \<times> ('d, 'w) expr_info" where
  "lex_token E start p x c =
     (if x = CHR ''('' then (M_INPAR, c\<lparr>operand := 1\<rparr>)
      else if x = CHR '')'' then lex_rparen c
      else if x = CHR ''+'' then lex_plus c
      else if x = CHR ''-'' then lex_minus c
      else if x = CHR ''*'' then lex_star c
      else if x = CHR ''/'' then lex_assign M_DIV DIVEQ c
      else if x = CHR ''%'' then lex_assign M_MOD MODEQ c
      else if x = CHR ''!'' then lex_bang c
      else if x = CHR ''~'' then unary 1 M_COMP c
      else if x = CHR ''&'' then lex_double x M_AND ANDEQ DAND DANDEQ c
      else if x = CHR ''|'' then lex_double x M_OR OREQ DOR DOREQ c
      else if x = CHR ''^'' then lex_double x M_XOR XOREQ DXOR DXOREQ c
      else if x = CHR ''#'' then lex_hash c
      else if x = CHR ''@'' then unary 2 STRLEN c
      else if x = CHR ''<'' then lex_less c
      else if x = CHR ''>'' then lex_greater c
      else if x = CHR ''='' then lex_equals c
      else if x = CHR ''?'' then (QUEST, c\<lparr>operand := 1\<rparr>)
      else if x = CHR '':'' then lex_list COLON start p c
      else if x = CHR '','' then lex_list COMMA start p c
      else if x = CHR 0x7B then lex_brace E c
      else if x = CHR ''['' then lex_bracket c
      else if is_digit x then lex_number p c
      else lex_expando start p c)"

fun zzlex_loop ::
  "('d, 'w) env \<Rightarrow> cstr \<Rightarrow> cstr \<Rightarrow> ('d, 'w) expr_info \<Rightarrow> LEX \<times> ('d, 'w) expr_info" where
  "zzlex_loop E start [] c = lex_end (c\<lparr>ptr := []\<rparr>)"
| "zzlex_loop E start (x # s) c =
     (if x = CHR '' '' \<or> x = CHR 0x09 \<or> x = CHR 0x0A then zzlex_loop E (tl start) s c
      else if x = CHR ''$'' then zzlex_loop E start s c
      else lex_token E start (x # s) x (c\<lparr>ptr := s\<rparr>))"

definition zzlex :: "('d, 'w) env \<Rightarrow> ('d, 'w) expr_info \<Rightarrow> LEX \<times> ('d, 'w) expr_info" where
  "zzlex E c = zzlex_loop E (ptr c) (ptr c) c"

end
