(* ===== verification/ExprParse.thy ===== *)
theory ExprParse
  imports ExprLex
begin

section \<open>Expressions: the parser (source/expr2.c)\<close>

text \<open>
  \<open>mathparse\<close> shifts operands and reduces operators by precedence. \<open>parse_loop\<close> is its loop; the
  first number is fuel, one unit per iteration and per level of recursion, and \<open>matheval\<close>
  starts with three units more than the expression has characters, which is proved to be enough.
\<close>

definition lex_next :: "('d, 'w) env \<Rightarrow> ('d, 'w) expr_info \<Rightarrow> ('d, 'w) expr_info" where
  "lex_next E c = (case zzlex E c of (t, c) \<Rightarrow> c\<lparr>mtok := t\<rparr>)"

definition with_vals :: "('d, 'w) operands result \<Rightarrow> ('d, 'w) expr_info \<Rightarrow> ('d, 'w) expr_info result" where
  "with_vals r c = bnd r (\<lambda>st. Inr (c\<lparr>vals := st\<rparr>))"

definition add_noeval :: "int \<Rightarrow> ('d, 'w) expr_info \<Rightarrow> ('d, 'w) expr_info" where
  "add_noeval i c = c\<lparr>vals := (vals c)\<lparr>noeval := noeval (vals c) + i\<rparr>\<rparr>"

text \<open>The value on top, put back as a boolean.\<close>

definition peek_boolean :: "('d, 'w) env \<Rightarrow> ('d, 'w) expr_info \<Rightarrow> (bool \<times> ('d, 'w) expr_info) result" where
  "peek_boolean E c = bnd (pop_boolean E (vals c)) (\<lambda>(u, st). Inr (u, c\<lparr>vals := push_boolean u st\<rparr>))"

definition short_circuit :: "('d, 'w) env \<Rightarrow> LEX \<Rightarrow> ('d, 'w) expr_info \<Rightarrow> ('d, 'w) expr_info result" where
  "short_circuit E otok c =
     (if assoc otok = A_BOOL
      then (if otok = DAND \<or> otok = DANDEQ
            then bnd (peek_boolean E c) (\<lambda>(u, c). Inr (if u then c else add_noeval 1 c))
            else if otok = DOR \<or> otok = DOREQ
            then bnd (peek_boolean E c) (\<lambda>(u, c). Inr (if u then add_noeval 1 c else c))
            else Inr c)
      else Inr c)"

definition rhs_prec :: "LEX \<Rightarrow> nat" where
  "rhs_prec t = prec t - (if assoc t = A_RL then 0 else 1)"

fun parse_loop :: "('d, 'w) env \<Rightarrow> nat \<Rightarrow> nat \<Rightarrow> ('d, 'w) expr_info \<Rightarrow> ('d, 'w) expr_info result" where
  "parse_loop E 0 pc c = Inl OutOfFuel"
| "parse_loop E (Suc n) pc c =
     (let parse = (\<lambda>pc c. if errflag c then Inr c else parse_loop E n pc (lex_next E c))
      in if hung c then Inl NoReturn
         else if pc < prec (mtok c) \<or> errflag c then Inr c
         else if mtok c = ID
         then parse_loop E n pc (lex_next E (c\<lparr>vals := push_token (last_token (vals c)) (vals c)\<rparr>))
         else if mtok c = M_INPAR
         then bnd (parse TOPPREC c) (\<lambda>c.
                if mtok c \<noteq> M_OUTPAR then Inr c else parse_loop E n pc (lex_next E c))
         else if mtok c = QUEST
         then bnd (peek_boolean E c) (\<lambda>(u, c).
                bnd (parse (prec QUEST - 1) (if u then c else add_noeval 1 c)) (\<lambda>c.
                  bnd (parse (prec QUEST) (if u then add_noeval 1 c else add_noeval (- 1) c)) (\<lambda>c.
                    let c = (if u then add_noeval (- 1) c else c)
                    in bnd (with_vals (op E (errflag c) QUEST (vals c)) c) (parse_loop E n pc))))
         else
           bnd (short_circuit E (mtok c) c) (\<lambda>c1.
             bnd (parse (rhs_prec (mtok c)) c1) (\<lambda>c2.
               bnd (with_vals (op E (errflag c2) (mtok c) ((vals c2)\<lparr>noeval := noeval (vals c)\<rparr>)) c2)
                 (parse_loop E n pc))))"

definition mathparse :: "('d, 'w) env \<Rightarrow> nat \<Rightarrow> nat \<Rightarrow> ('d, 'w) expr_info \<Rightarrow> ('d, 'w) expr_info result" where
  "mathparse E n pc c = (if errflag c then Inr c else parse_loop E n pc (lex_next E c))"

text \<open>The result, with the flag and the world behind it.\<close>

definition matheval_with :: "('d, 'w) env \<Rightarrow> nat \<Rightarrow> cstr \<Rightarrow> cstr \<Rightarrow> bool \<Rightarrow> 'w \<Rightarrow> (cstr \<times> bool \<times> 'w) result" where
  "matheval_with E n s a flag w =
     (if s = [] then Inr ([], flag, w)
      else
        bnd (mathparse E n TOPPREC
               \<lparr>ptr = s, operand = 1, mtok = M_INPAR, errflag = False, hung = False, vals = setup_expr_info a flag w\<rparr>)
          (\<lambda>c. if errflag c then Inr ([], args_flag (vals c), world (vals c))
               else bnd (pop_expanded E (vals c)) (\<lambda>(t, st). Inr (t, args_flag st, world st))))"

definition matheval :: "('d, 'w) env \<Rightarrow> cstr \<Rightarrow> cstr \<Rightarrow> bool \<Rightarrow> 'w \<Rightarrow> (cstr \<times> bool \<times> 'w) result" where
  "matheval E s = matheval_with E (length s + 3) s"

definition sample_env :: "(int, (cstr \<times> cstr) list) env" where
  "sample_env =
     \<lparr>d_add = (+), d_sub = (-), d_mul = (*), d_div = (div), d_pow = (\<lambda>a b. a ^ nat b), d_neg = uminus,
      d_less = (<), d_le = (\<le>), d_is_zero = (\<lambda>a. a = 0), d_of_long = id, d_to_long = id,
      d_read = (\<lambda>s. fst (strtol10 s)), d_show = (\<lambda>i. ltoa i @ ''.000000''),
      fp_setting = 2, expand_alias = (\<lambda>s a w. Some (s, False, w)),
      alias_special_char = (\<lambda>s a w. Some (case map_of w s of None \<Rightarrow> [] | Some t \<Rightarrow> t, False, w)),
      add_var_alias = (\<lambda>s t w. Some (if s = [] then w else if t = [] then filter (\<lambda>p. fst p \<noteq> s) w else (s, t) # w)),
      parse_line_with_return = (\<lambda>s a w. Some ([], w))\<rparr>"

end
