(* ===== verification/ExprSafe.thy ===== *)
theory ExprSafe
  imports ExprParse
begin

section \<open>Expressions: what every evaluation keeps\<close>

text \<open>
  The invariant of the token table and the operand stack, kept by every operator and by the parser
  on every text, and with it: \<open>nappanic\<close> is never reached, the fuel is enough, and a part of an
  expression that is short-circuited has no effect. Lemmas about a call are stated over
  \<open>outcome\<close>, and about the state since some earlier state over \<open>follows\<close>, so that they compose
  by the rule for \<open>bnd\<close>.
\<close>

definition outcome :: "('a \<Rightarrow> bool) \<Rightarrow> 'a result \<Rightarrow> bool" where
  "outcome P r = (case r of Inl e \<Rightarrow> e \<noteq> Panic \<and> e \<noteq> OutOfFuel | Inr x \<Rightarrow> P x)"

lemma outcome_Inr [simp]: "outcome P (Inr x) = P x"
  by (simp add: outcome_def)

lemma outcome_Inl [simp]: "outcome P (Inl e) \<longleftrightarrow> e \<noteq> Panic \<and> e \<noteq> OutOfFuel"
  by (simp add: outcome_def)

lemma outcome_bnd: "outcome Q m \<Longrightarrow> (\<And>x. Q x \<Longrightarrow> outcome P (f x)) \<Longrightarrow> outcome P (bnd m f)"
  by (cases m) auto

lemma outcome_mono: "outcome P r \<Longrightarrow> (\<And>x. P x \<Longrightarrow> Q x) \<Longrightarrow> outcome Q r"
  by (cases r) auto

lemma outcome_call: "(\<And>x. m = Some x \<Longrightarrow> outcome Q (f x)) \<Longrightarrow> outcome Q (bnd (or_hang m) f)"
  by (cases m) auto

subsection \<open>The invariant\<close>

definition symbol_ok :: "'d symbol \<Rightarrow> bool" where
  "symbol_ok s \<longleftrightarrow>
     (lval s = None \<and> expanded_value s = None \<longrightarrow>
        raw_value s \<noteq> None \<or> float_value s \<noteq> None \<or> integer_value s \<noteq> None \<or> boolean_value s \<noteq> None)
     \<and> (lval s \<noteq> None \<and> expanded_value s \<noteq> None \<longrightarrow> raw_value s \<noteq> None)"

definition valid :: "('d, 'w) operands \<Rightarrow> int \<Rightarrow> bool" where
  "valid st v \<longleftrightarrow> v = MAGIC_TOKEN \<or> v = - 1 \<and> TOKENCOUNT \<le> length (tokens st) \<or> (0 \<le> v \<and> v < int (length (tokens st)))"

definition operands_ok :: "('d, 'w) operands \<Rightarrow> bool" where
  "operands_ok st \<longleftrightarrow>
     0 \<le> noeval st \<and> 1 \<le> length (tokens st) \<and> length (tokens st) \<le> TOKENCOUNT \<and> length (stack st) \<le> STACKSZ
     \<and> list_all symbol_ok (tokens st) \<and> list_all (valid st) (stack st) \<and> valid st (last_token st)"

text \<open>What is left of the effects while nothing is evaluated: assigning the empty text to the empty name.\<close>

definition assigns_nothing :: "('d, 'w) env \<Rightarrow> 'w \<Rightarrow> 'w \<Rightarrow> bool" where
  "assigns_nothing E = (\<lambda>w w'. add_var_alias E [] [] w = Some w')\<^sup>*\<^sup>*"

lemma assigns_nothing_refl [simp]: "assigns_nothing E w w"
  by (simp add: assigns_nothing_def)

lemma assigns_nothing_trans: "assigns_nothing E a b \<Longrightarrow> assigns_nothing E b c \<Longrightarrow> assigns_nothing E a c"
  unfolding assigns_nothing_def by (rule rtranclp_trans)

lemma assigns_nothing_step: "assigns_nothing E a b \<Longrightarrow> add_var_alias E [] [] b = Some c \<Longrightarrow> assigns_nothing E a c"
  unfolding assigns_nothing_def by (rule rtranclp.rtrancl_into_rtrancl)

lemma assigns_nothing_one: "add_var_alias E [] [] b = Some c \<Longrightarrow> assigns_nothing E b c"
  by (rule assigns_nothing_step [OF assigns_nothing_refl])

definition quiet :: "('d, 'w) operands \<Rightarrow> bool" where
  "quiet st \<longleftrightarrow> noeval st \<noteq> 0 \<and> eargs st = []"

definition follows :: "('d, 'w) env \<Rightarrow> ('d, 'w) operands \<Rightarrow> ('d, 'w) operands \<Rightarrow> bool" where
  "follows E st0 st \<longleftrightarrow>
     operands_ok st \<and> length (tokens st0) \<le> length (tokens st)
     \<and> noeval st = noeval st0 \<and> eargs st = eargs st0 \<and> (quiet st0 \<longrightarrow> assigns_nothing E (world st0) (world st))"

lemma follows_ok: "follows E st0 st \<Longrightarrow> operands_ok st"
  by (simp add: follows_def)

lemma follows_refl: "operands_ok st \<Longrightarrow> follows E st st"
  by (simp add: follows_def)

lemma follows_trans: "follows E a b \<Longrightarrow> follows E b c \<Longrightarrow> follows E a c"
  by (auto simp: follows_def quiet_def intro: assigns_nothing_trans)

lemma follows_valid: "follows E st0 st \<Longrightarrow> valid st0 v \<Longrightarrow> valid st v"
  by (auto simp: follows_def valid_def)

lemma follows_quiet: "follows E st0 st \<Longrightarrow> quiet st0 \<Longrightarrow> quiet st"
  by (auto simp: follows_def quiet_def)

subsection \<open>Tokens\<close>

lemma valid_more: "length (tokens st) \<le> length (tokens st') \<Longrightarrow> valid st v \<Longrightarrow> valid st' v"
  by (auto simp: valid_def)

lemma valid_tokens: "length (tokens st) = length (tokens st') \<Longrightarrow> valid st = valid st'"
  by (auto simp: valid_def fun_eq_iff)

lemma follows_set_symbol:
  assumes "follows E st0 st" "symbol_ok s"
  shows "follows E st0 (set_symbol v s st)"
proof -
  have "valid (set_symbol v s st) = valid st" by (rule valid_tokens) (simp add: set_symbol_def)
  moreover have "list_all symbol_ok (tokens (set_symbol v s st))"
    using assms set_update_subset_insert [of "tokens st" "nat v" s]
    by (auto simp: follows_def operands_ok_def set_symbol_def list_all_iff)
  ultimately show ?thesis
    using assms(1) by (simp add: follows_def operands_ok_def set_symbol_def)
qed

lemma follows_world:
  assumes "follows E st0 st" "quiet st0 \<Longrightarrow> assigns_nothing E (world st) w"
  shows "follows E st0 (st\<lparr>args_flag := f, world := w\<rparr>)" "follows E st0 (st\<lparr>world := w\<rparr>)"
  using assms by (auto simp: follows_def operands_ok_def valid_def list_all_iff intro: assigns_nothing_trans)

lemma follows_flag: "follows E st0 st \<Longrightarrow> follows E st0 (st\<lparr>args_flag := f\<rparr>)"
  by (auto simp: follows_def operands_ok_def valid_def list_all_iff)

lemma symbol_ok_nth: "operands_ok st \<Longrightarrow> \<not> out_of_range st v \<Longrightarrow> symbol_ok (symbol_of st v)"
  by (auto simp: operands_ok_def out_of_range_def list_all_length)

lemma raw_text_outcome:
  assumes "follows E st0 st" "noeval st0 = 0" "symbol_ok s" "raw_value s = None" "expanded_value s = None"
  shows "outcome (\<lambda>(r, st'). follows E st0 st' \<and> tokens st' = tokens st) (raw_text E s st)"
proof -
  have w: "follows E st0 (st\<lparr>args_flag := f, world := w\<rparr>)" for f w
    using assms(1,2) by (intro follows_world) (auto simp: quiet_def)
  show ?thesis
    using assms w by (auto simp: raw_text_def symbol_ok_def split: option.splits prod.splits intro!: outcome_call)
qed

lemma symbol_ok_upd:
  "symbol_ok s \<Longrightarrow> symbol_ok (s\<lparr>raw_value := Some r\<rparr>)"
  "symbol_ok s \<Longrightarrow> lval s \<noteq> None \<longrightarrow> raw_value s \<noteq> None \<Longrightarrow> symbol_ok (s\<lparr>expanded_value := Some r\<rparr>)"
  "symbol_ok s \<Longrightarrow> symbol_ok (s\<lparr>integer_value := Some i\<rparr>)"
  "symbol_ok s \<Longrightarrow> symbol_ok (s\<lparr>float_value := Some a\<rparr>)"
  "symbol_ok s \<Longrightarrow> symbol_ok (s\<lparr>boolean_value := Some b\<rparr>)"
  by (auto simp: symbol_ok_def)

lemma symbol_of_set [simp]:
  "\<not> out_of_range st v \<Longrightarrow> symbol_of (set_symbol v s st) v = s"
  by (auto simp: set_symbol_def out_of_range_def nat_less_iff)

lemma out_of_range_cong: "length (tokens st) = length (tokens st') \<Longrightarrow> out_of_range st = out_of_range st'"
  by (simp add: out_of_range_def fun_eq_iff)

lemma out_of_range_set [simp]: "out_of_range (set_symbol v s st) v' = out_of_range st v'"
  by (simp add: set_symbol_def out_of_range_def)

lemma raw_outcome:
  assumes f: "follows E st0 st"
    and e: "expanded_value (symbol_of st v) = None \<or> lval (symbol_of st v) \<noteq> None"
  shows "outcome (\<lambda>(r, st'). follows E st0 st'
           \<and> (\<not> out_of_range st v \<and> v \<noteq> MAGIC_TOKEN \<and> v \<noteq> 0 \<and> noeval st = 0 \<longrightarrow>
                \<not> out_of_range st' v \<and> raw_value (symbol_of st' v) \<noteq> None))
           (get_token_raw E v st)"
proof (cases "v = MAGIC_TOKEN \<or> out_of_range st v \<or> v = 0 \<or> noeval st \<noteq> 0")
  case True
  then show ?thesis using f by (auto simp: get_token_raw_def out_of_range_def)
next
  case False
  then have s: "symbol_ok (symbol_of st v)" and n: "noeval st0 = 0"
    using symbol_ok_nth follows_ok [OF f] f by (auto simp: follows_def)
  show ?thesis
  proof (cases "raw_value (symbol_of st v)")
    case (Some r)
    then show ?thesis using False f by (auto simp: get_token_raw_def)
  next
    case None
    then have x: "expanded_value (symbol_of st v) = None" using e s by (auto simp: symbol_ok_def)
    have step: "get_token_raw E v st = bnd (raw_text E (symbol_of st v) st) (\<lambda>(r, st).
        Inr (r, set_symbol v ((symbol_of st v)\<lparr>raw_value := Some r\<rparr>) st))"
      using False None by (simp add: get_token_raw_def)
    show ?thesis
      unfolding step
    proof (rule outcome_bnd [OF raw_text_outcome [OF f n s None x]], clarify)
      fix r b assume b: "follows E st0 b" "tokens b = tokens st"
      have o: "out_of_range b = out_of_range st" by (rule out_of_range_cong) (simp add: b)
      have "symbol_ok (symbol_of b v\<lparr>raw_value := Some r\<rparr>)" using s b(2) by (simp add: symbol_ok_upd)
      then show "outcome (\<lambda>(r, st'). follows E st0 st' \<and>
          (\<not> out_of_range st v \<and> v \<noteq> MAGIC_TOKEN \<and> v \<noteq> 0 \<and> noeval st = 0 \<longrightarrow>
            \<not> out_of_range st' v \<and> raw_value (symbol_of st' v) \<noteq> None))
          (Inr (r, set_symbol v (symbol_of b v\<lparr>raw_value := Some r\<rparr>) b))"
        using b(1) o False by (simp add: follows_set_symbol)
    qed
  qed
qed

text \<open>What is read without evaluation is empty, and nothing changes.\<close>

lemma expanded_quiet: "noeval st \<noteq> 0 \<Longrightarrow> get_token_expanded E v st = Inr (if v = MAGIC_TOKEN then eargs st else [], st)"
  by (simp add: get_token_expanded_def)

lemma lval_quiet:
  "noeval st \<noteq> 0 \<Longrightarrow> get_token_lval E v st = Inr (Some s, st') \<Longrightarrow> eargs st = [] \<Longrightarrow> s = []"
  by (auto simp: get_token_lval_def split: if_splits)

lemma lval_outcome:
  assumes f: "follows E st0 st"
  shows "outcome (\<lambda>(r, st'). follows E st0 st' \<and> (quiet st0 \<longrightarrow> r = None \<or> r = Some [])) (get_token_lval E v st)"
proof (cases "v = MAGIC_TOKEN \<or> out_of_range st v \<or> v = 0 \<or> lval (symbol_of st v) = None \<or> noeval st \<noteq> 0")
  case True
  then show ?thesis using f by (auto simp: get_token_lval_def follows_def quiet_def)
next
  case False
  then have "get_token_lval E v st = bnd (get_token_raw E v st) (\<lambda>(r, st). Inr (Some r, st))"
    by (auto simp: get_token_lval_def)
  moreover have "\<not> quiet st0" using False f by (simp add: follows_def quiet_def)
  ultimately show ?thesis
    using False by (auto intro: outcome_bnd [OF raw_outcome [OF f]])
qed

lemma expanded_text_outcome:
  assumes "follows E st0 st" "noeval st0 = 0" "raw_value s \<noteq> None"
  shows "outcome (\<lambda>(t, st'). follows E st0 st' \<and> tokens st' = tokens st) (expanded_text E s m st)"
proof -
  have w: "follows E st0 (st\<lparr>args_flag := f, world := w\<rparr>)" for f w
    using assms(1,2) by (intro follows_world) (auto simp: quiet_def)
  show ?thesis using assms w by (auto simp: expanded_text_def split: prod.splits intro!: outcome_call)
qed

lemma expanded_outcome:
  assumes f: "follows E st0 st"
  shows "outcome (\<lambda>(t, st'). follows E st0 st' \<and> (quiet st0 \<longrightarrow> t = [])) (get_token_expanded E v st)"
proof (cases "v = MAGIC_TOKEN \<or> out_of_range st v \<or> v = 0 \<or> noeval st \<noteq> 0")
  case True
  then show ?thesis using f by (auto simp: get_token_expanded_def follows_def quiet_def)
next
  case False
  have nq: "\<not> quiet st0" and n: "noeval st0 = 0" using False f by (auto simp: follows_def quiet_def)
  show ?thesis
  proof (cases "expanded_value (symbol_of st v)")
    case (Some t)
    then show ?thesis using False f nq by (simp add: get_token_expanded_def)
  next
    case None
    have step: "get_token_expanded E v st = bnd (get_token_raw E v st) (\<lambda>(myval, st).
            bnd (expanded_text E (symbol_of st v) myval st) (\<lambda>(t, st).
              Inr (t, set_symbol v ((symbol_of st v)\<lparr>expanded_value := Some t\<rparr>) st)))"
      using False None by (simp add: get_token_expanded_def)
    show ?thesis
      unfolding step
    proof (rule outcome_bnd [OF raw_outcome [OF f]], simp add: None, clarify)
      fix m b assume b: "follows E st0 b"
        "\<not> out_of_range st v \<and> v \<noteq> MAGIC_TOKEN \<and> v \<noteq> 0 \<and> noeval st = 0 \<longrightarrow>
           \<not> out_of_range b v \<and> raw_value (symbol_of b v) \<noteq> None"
      then have r: "\<not> out_of_range b v" "raw_value (symbol_of b v) \<noteq> None" using False by auto
      have s: "symbol_ok (symbol_of b v)" using symbol_ok_nth [OF follows_ok [OF b(1)] r(1)] .
      show "outcome (\<lambda>(t, st'). follows E st0 st' \<and> (quiet st0 \<longrightarrow> t = []))
          (bnd (expanded_text E (symbol_of b v) m b) (\<lambda>(t, st).
             Inr (t, set_symbol v (symbol_of st v\<lparr>expanded_value := Some t\<rparr>) st)))"
        by (rule outcome_bnd [OF expanded_text_outcome [OF b(1) n r(2)]])
          (use s r nq in \<open>auto intro!: follows_set_symbol symbol_ok_upd\<close>)
    qed
  qed
qed

lemma follows_in_range: "follows E st b \<Longrightarrow> \<not> out_of_range st v \<Longrightarrow> \<not> out_of_range b v"
  by (auto simp: follows_def out_of_range_def)

text \<open>Keeping a value in a symbol, as the three conversions do.\<close>

lemma convert_outcome:
  assumes f: "follows E st0 st" and r: "\<not> out_of_range st v"
    and g: "\<And>s t. symbol_ok s \<Longrightarrow> symbol_ok (g s t)"
  shows "outcome (\<lambda>(i, st'). follows E st0 st')
           (bnd (get_token_expanded E v st) (\<lambda>(t, b). Inr (h t, set_symbol v (g (symbol_of b v) t) b)))"
proof (rule outcome_bnd [OF expanded_outcome [OF follows_refl [OF follows_ok [OF f]]]], clarify)
  fix t b assume b: "follows E st b"
  have "symbol_ok (g (symbol_of b v) t)"
    using g symbol_ok_nth [OF follows_ok [OF b] follows_in_range [OF b r]] .
  then show "outcome (\<lambda>(i, st'). follows E st0 st') (Inr (h t, set_symbol v (g (symbol_of b v) t) b))"
    using follows_set_symbol [OF follows_trans [OF f b]] by simp
qed

lemma integer_outcome:
  assumes f: "follows E st0 st"
  shows "outcome (\<lambda>(i, st'). follows E st0 st') (get_token_integer E v st)"
  using f convert_outcome [OF f, of v "\<lambda>s t. s\<lparr>integer_value := Some (fst (strtol10 t))\<rparr>" "\<lambda>t. fst (strtol10 t)"]
  by (auto simp: get_token_integer_def Let_def symbol_ok_upd split: option.splits)

lemma float_outcome:
  assumes f: "follows E st0 st"
  shows "outcome (\<lambda>(i, st'). follows E st0 st') (get_token_float E v st)"
  using f convert_outcome [OF f, of v "\<lambda>s t. s\<lparr>float_value := Some (d_read E t)\<rparr>" "\<lambda>t. d_read E t"]
  by (auto simp: get_token_float_def Let_def symbol_ok_upd split: option.splits)

lemma boolean_outcome:
  assumes f: "follows E st0 st"
  shows "outcome (\<lambda>(i, st'). follows E st0 st') (get_token_boolean E v st)"
  using f convert_outcome [OF f, of v "\<lambda>s t. s\<lparr>boolean_value := Some (check_val E t)\<rparr>" "\<lambda>t. check_val E t"]
  by (auto simp: get_token_boolean_def Let_def symbol_ok_upd split: option.splits)

subsection \<open>The stack\<close>

lemma new_token_follows:
  assumes "follows E st0 st" "symbol_ok s"
  shows "follows E st0 (snd (new_token s st))" "valid (snd (new_token s st)) (fst (new_token s st))"
proof -
  have "list_all (valid (st\<lparr>tokens := tokens st @ [s]\<rparr>)) (stack st)" "valid (st\<lparr>tokens := tokens st @ [s]\<rparr>) (last_token st)"
    using assms(1) by (auto simp: follows_def operands_ok_def list_all_iff intro: valid_more [of st])
  then show "follows E st0 (snd (new_token s st))" "valid (snd (new_token s st)) (fst (new_token s st))"
    using assms by (auto simp: new_token_def follows_def operands_ok_def valid_def)
qed

lemma push_follows:
  assumes "follows E st0 st" "valid st v"
  shows "follows E st0 (push_token v st)"
proof -
  have "valid (st\<lparr>stack := v # stack st\<rparr>) = valid st" by (rule valid_tokens) simp
  then show ?thesis
    using assms by (auto simp: push_token_def follows_def operands_ok_def)
qed

lemma pop_follows:
  assumes "follows E st0 st"
  shows "follows E st0 (snd (pop_token st))" "valid (snd (pop_token st)) (fst (pop_token st))"
proof -
  have "valid (st\<lparr>stack := ts\<rparr>) = valid st" for ts by (rule valid_tokens) simp
  then show "follows E st0 (snd (pop_token st))" "valid (snd (pop_token st)) (fst (pop_token st))"
    using assms by (auto simp: pop_token_def follows_def operands_ok_def valid_def split: list.splits)
qed

lemma one_field_ok:
  "symbol_ok (no_symbol\<lparr>lval := Some t\<rparr>)" "symbol_ok (no_symbol\<lparr>raw_value := Some t\<rparr>)"
  "symbol_ok (no_symbol\<lparr>expanded_value := Some t\<rparr>)" "symbol_ok (no_symbol\<lparr>integer_value := Some i\<rparr>)"
  "symbol_ok (no_symbol\<lparr>float_value := Some a\<rparr>)" "symbol_ok (no_symbol\<lparr>boolean_value := Some b\<rparr>)"
  by (simp_all add: symbol_ok_def no_symbol_def)

lemma push_new_follows:
  assumes "follows E st0 st" "symbol_ok s"
  shows "follows E st0 (case new_token s st of (v, st) \<Rightarrow> push_token v st)"
  using new_token_follows [OF assms] push_follows by (auto split: prod.split)

lemma pushes_follow:
  assumes "follows E st0 st"
  shows "follows E st0 (push_string t st)" "follows E st0 (push_float a st)" "follows E st0 (push_integer i st)"
    "follows E st0 (push_boolean b st)" "follows E st0 (push_lval t st)"
  unfolding push_string_def push_float_def push_integer_def push_boolean_def push_lval_def
    tokenize_lval_def tokenize_expanded_def tokenize_integer_def tokenize_float_def tokenize_bool_def
  using push_new_follows [OF assms one_field_ok(1)] push_new_follows [OF assms one_field_ok(3)]
    push_new_follows [OF assms one_field_ok(4)] push_new_follows [OF assms one_field_ok(5)]
    push_new_follows [OF assms one_field_ok(6)] by simp_all

lemma zero_valid: "follows E st0 st \<Longrightarrow> valid st 0"
  by (auto simp: follows_def operands_ok_def valid_def)

lemma pop_outcome:
  assumes "follows E st0 st" "\<And>v b. follows E st0 b \<Longrightarrow> valid b v \<Longrightarrow> outcome P (f v b)"
  shows "outcome P (case pop_token st of (v, b) \<Rightarrow> f v b)"
  using assms pop_follows [OF assms(1)] by (cases "pop_token st") auto

lemma pop_float_outcome: "follows E st0 st \<Longrightarrow> outcome (\<lambda>(a, st'). follows E st0 st') (pop_float E st)"
  unfolding pop_float_def by (erule pop_outcome) (rule float_outcome)

lemma pop_expanded_outcome:
  "follows E st0 st \<Longrightarrow> outcome (\<lambda>(t, st'). follows E st0 st' \<and> (quiet st0 \<longrightarrow> t = [])) (pop_expanded E st)"
  unfolding pop_expanded_def by (erule pop_outcome) (rule expanded_outcome)

lemma pop_boolean_outcome: "follows E st0 st \<Longrightarrow> outcome (\<lambda>(b, st'). follows E st0 st') (pop_boolean E st)"
  unfolding pop_boolean_def by (erule pop_outcome) (rule boolean_outcome)

lemma pop_long_outcome: "follows E st0 st \<Longrightarrow> outcome (\<lambda>(i, st'). follows E st0 st') (pop_long E st)"
  unfolding pop_long_def pop_integer_def
  by (rule outcome_bnd [where Q = "\<lambda>(i, st'). follows E st0 st'"], erule pop_outcome)
    (auto intro!: outcome_bnd [OF integer_outcome])

lemma pop_2_floats_outcome: "follows E st0 st \<Longrightarrow> outcome (\<lambda>(a, b, st'). follows E st0 st') (pop_2_floats E st)"
  unfolding pop_2_floats_def by (auto intro!: outcome_bnd [OF pop_float_outcome])

lemma pop_2_integers_outcome: "follows E st0 st \<Longrightarrow> outcome (\<lambda>(a, b, st'). follows E st0 st') (pop_2_integers E st)"
  unfolding pop_2_integers_def by (auto intro!: outcome_bnd [OF pop_long_outcome])

lemma pop_2_strings_outcome: "follows E st0 st \<Longrightarrow> outcome (\<lambda>(a, b, st'). follows E st0 st') (pop_2_strings E st)"
  unfolding pop_2_strings_def by (auto intro!: outcome_bnd [OF pop_expanded_outcome])

lemma pop_2_booleans_outcome: "follows E st0 st \<Longrightarrow> outcome (\<lambda>(a, b, st'). follows E st0 st') (pop_2_booleans E st)"
  unfolding pop_2_booleans_def by (auto intro!: outcome_bnd [OF pop_boolean_outcome])

subsection \<open>The operators\<close>

abbreviation step_ok :: "('d, 'w) env \<Rightarrow> ('d, 'w) operands \<Rightarrow> ('d, 'w) operands result \<Rightarrow> bool" where
  "step_ok E st0 \<equiv> outcome (follows E st0)"

lemma assign_ok:
  assumes "follows E st0 st" "quiet st0 \<longrightarrow> s = [] \<and> t = []"
  shows "outcome (\<lambda>b. follows E st0 b \<and> valid b = valid st) (assign_var E s t st)"
proof (cases "add_var_alias E s t (world st)")
  case (Some w)
  have "follows E st0 (st\<lparr>world := w\<rparr>)"
    using assms Some by (intro follows_world(2)) (auto intro: assigns_nothing_one)
  moreover have "valid (st\<lparr>world := w\<rparr>) = valid st" by (rule valid_tokens) simp
  ultimately show ?thesis by (simp add: assign_var_def Some)
qed (simp add: assign_var_def)

lemma assign_then_ok:
  assumes "follows E st0 st" "quiet st0 \<longrightarrow> s = [] \<and> t = []" "\<And>b. follows E st0 b \<Longrightarrow> valid b = valid st \<Longrightarrow> outcome P (f b)"
  shows "outcome P (bnd (assign_var E s t st) f)"
  by (rule outcome_bnd [OF assign_ok [OF assms(1,2)]]) (use assms(3) in blast)

lemma assign_last_ok: "follows E st0 st \<Longrightarrow> quiet st0 \<longrightarrow> s = [] \<and> t = [] \<Longrightarrow> step_ok E st0 (assign_var E s t st)"
  by (rule outcome_mono [OF assign_ok]) auto

text \<open>The same with what happened since the call.\<close>

lemma expanded_since:
  assumes "follows E st0 c"
  shows "outcome (\<lambda>(t, b). follows E c b \<and> follows E st0 b \<and> (quiet st0 \<longrightarrow> t = [])) (get_token_expanded E v c)"
  by (rule outcome_mono [OF expanded_outcome [OF follows_refl [OF follows_ok [OF assms]]]])
    (use follows_trans [OF assms] follows_quiet [OF assms] in auto)

lemma lval_since:
  assumes "follows E st0 c"
  shows "outcome (\<lambda>(r, b). follows E c b \<and> follows E st0 b \<and> (quiet st0 \<longrightarrow> r = None \<or> r = Some []))
    (get_token_lval E v c)"
  by (rule outcome_mono [OF lval_outcome [OF follows_refl [OF follows_ok [OF assms]]]])
    (use follows_trans [OF assms] follows_quiet [OF assms] in auto)

lemma lval_rval_ok:
  assumes f: "follows E st0 st"
    and k: "\<And>s v w b. follows E st0 b \<Longrightarrow> valid b v \<Longrightarrow> valid b w \<Longrightarrow> quiet st0 \<longrightarrow> s = [] \<Longrightarrow> step_ok E st0 (k s v w b)"
  shows "step_ok E st0 (GET_LVAL_RVAL E k st)"
proof -
  obtain w a v c where p: "pop_token st = (w, a)" "pop_token a = (v, c)" by fastforce
  have a: "follows E st0 a" "valid a w" using pop_follows [OF f] p by auto
  have c: "follows E st0 c" "valid c v" using pop_follows [OF a(1)] p by auto
  have "length (tokens a) = length (tokens c)" using p(2) by (auto simp: pop_token_def split: list.splits)
  then have w: "valid c w" using a(2) valid_tokens by metis
  show ?thesis
    unfolding GET_LVAL_RVAL_def pop_2_tokens_def p prod.case
    by (rule outcome_bnd [OF lval_since [OF c(1)]])
      (auto split: option.splits intro!: k push_follows zero_valid intro: follows_valid [OF _ c(2)] follows_valid [OF _ w])
qed

lemma store_ok:
  assumes "follows E st0 b" "symbol_ok y" "quiet st0 \<longrightarrow> s = []"
  shows "step_ok E st0 (store_token E s (new_token y b))"
proof -
  obtain w c where n: "new_token y b = (w, c)" by fastforce
  then have c: "follows E st0 c" "valid c w" using new_token_follows [OF assms(1,2)] by auto
  show ?thesis
    unfolding n store_token_def prod.case
    by (rule outcome_bnd [OF expanded_since [OF c(1)]])
      (use assms(3) c(2) in \<open>auto intro!: assign_then_ok [of E st0] push_follows elim!: follows_valid [of E c]\<close>)
qed

lemma macros_ok:
  assumes "follows E st0 st" "\<And>i j. outcome (\<lambda>_. True) (f i j)"
  shows "step_ok E st0 (BINARY_FLOAT E g st)" "step_ok E st0 (BINARY_INTEGER E f st)"
    "step_ok E st0 (BINARY_BOOLEAN E h st)" "step_ok E st0 (BINARY_FLOAT_NOZERO E g st)"
    "step_ok E st0 (BINARY_INTEGER_NOZERO E f st)"
proof -
  show "step_ok E st0 (BINARY_FLOAT E g st)" "step_ok E st0 (BINARY_FLOAT_NOZERO E g st)"
    unfolding BINARY_FLOAT_def BINARY_FLOAT_NOZERO_def
    by (rule outcome_bnd [OF pop_2_floats_outcome [OF assms(1)]],
        auto intro!: pushes_follow push_follows intro: zero_valid)+
  show "step_ok E st0 (BINARY_BOOLEAN E h st)"
    unfolding BINARY_BOOLEAN_def
    by (rule outcome_bnd [OF pop_2_booleans_outcome [OF assms(1)]]) (auto intro: pushes_follow)
  have "step_ok E st0 (bnd (f i j) (\<lambda>k. Inr (push_integer k b)))" if "follows E st0 b" for i j b
    by (rule outcome_bnd [OF assms(2)]) (auto intro: pushes_follow that)
  note int = this
  show "step_ok E st0 (BINARY_INTEGER E f st)" "step_ok E st0 (BINARY_INTEGER_NOZERO E f st)"
    unfolding BINARY_INTEGER_def BINARY_INTEGER_NOZERO_def
    by (rule outcome_bnd [OF pop_2_integers_outcome [OF assms(1)]],
        auto intro!: push_follows int intro: zero_valid)+
qed


lemmas make_token_defs = tokenize_lval_def tokenize_raw_def tokenize_expanded_def tokenize_integer_def
  tokenize_float_def tokenize_bool_def

lemma implied_ok:
  assumes f: "follows E st0 st" and g: "\<And>i j. outcome (\<lambda>_. True) (f i j)"
  shows "step_ok E st0 (IMPLIED_FLOAT E h st)" "step_ok E st0 (IMPLIED_FLOAT_NOZERO E h st)"
    "step_ok E st0 (IMPLIED_BOOLEAN E b st)" "step_ok E st0 (IMPLIED_INTEGER E f st)"
    "step_ok E st0 (IMPLIED_INTEGER_NOZERO E f st)"
proof -
  show "step_ok E st0 (IMPLIED_FLOAT E h st)" "step_ok E st0 (IMPLIED_FLOAT_NOZERO E h st)"
    unfolding IMPLIED_FLOAT_def IMPLIED_FLOAT_NOZERO_def make_token_defs
    by (rule lval_rval_ok [OF f];
        auto intro!: outcome_bnd [OF float_outcome] store_ok one_field_ok push_follows assign_then_ok [of E st0]
          simp: zero_valid)+
  show "step_ok E st0 (IMPLIED_BOOLEAN E b st)"
    unfolding IMPLIED_BOOLEAN_def make_token_defs
    by (rule lval_rval_ok [OF f]; auto intro!: outcome_bnd [OF boolean_outcome] store_ok one_field_ok)
  show "step_ok E st0 (IMPLIED_INTEGER E f st)"
    unfolding IMPLIED_INTEGER_def make_token_defs
    by (rule lval_rval_ok [OF f]; auto intro!: outcome_bnd [OF integer_outcome] outcome_bnd [OF g] store_ok one_field_ok)
  show "step_ok E st0 (IMPLIED_INTEGER_NOZERO E f st)"
    unfolding IMPLIED_INTEGER_NOZERO_def make_token_defs
    by (rule lval_rval_ok [OF f];
        auto intro!: outcome_bnd [OF float_outcome] outcome_bnd [OF g] store_ok one_field_ok push_follows assign_then_ok [of E st0]
          simp: zero_valid)
qed

lemma auto_unary_ok:
  assumes f: "follows E st0 st"
  shows "step_ok E st0 (AUTO_UNARY E d post st)"
  unfolding AUTO_UNARY_def
proof (rule pop_outcome [OF f])
  fix v b assume b: "follows E st0 b" "valid b v"
  have inc: "outcome (\<lambda>_. True) (c_inc i d)" for i by (simp add: c_inc_def)
  have fin: "step_ok E st0 (case tokenize_integer k c of (w, st) \<Rightarrow>
      bnd (get_token_expanded E w st) (\<lambda>(t, st). bnd (assign_var E s t st) (\<lambda>st. Inr (push_integer i st))))"
    if "follows E st0 c" "quiet st0 \<longrightarrow> s = []" for k c i s
  proof -
    obtain w e where n: "tokenize_integer k c = (w, e)" by fastforce
    then have e: "follows E st0 e"
      using new_token_follows [OF that(1) one_field_ok(4) [of k]] by (auto simp: tokenize_integer_def)
    show ?thesis
      unfolding n prod.case
      by (rule outcome_bnd [OF expanded_outcome [OF e]]) (use that(2) in \<open>auto intro!: assign_then_ok [of E st0] pushes_follow\<close>)
  qed
  show "step_ok E st0 (bnd (get_token_lval E v b) (\<lambda>(s, st). case s of None \<Rightarrow> Inr (push_token 0 st)
      | Some s \<Rightarrow> bnd (get_token_integer E v st) (\<lambda>(j, st). bnd (c_inc j d) (\<lambda>k.
          case tokenize_integer k st of (w, st) \<Rightarrow> bnd (get_token_expanded E w st) (\<lambda>(t, st).
            bnd (assign_var E s t st) (\<lambda>st. Inr (push_integer (if post then j else k) st)))))))"
    by (rule outcome_bnd [OF lval_outcome [OF b(1)]])
      (auto split: option.split intro!: push_follows outcome_bnd [OF integer_outcome] outcome_bnd [OF inc] fin
        simp: zero_valid)
qed

lemma simple_ops_ok:
  assumes f: "follows E st0 st"
  shows "step_ok E st0 (op_unary_float E g st)" "step_ok E st0 (op_count E n st)" "step_ok E st0 (op_strcat E st)"
    "step_ok E st0 (op_same E b st)" "step_ok E st0 (op_not E st)" "step_ok E st0 (op_comp E st)"
    "step_ok E st0 (COMPARE E x y st)" "step_ok E st0 (op_match E b st)"
    "step_ok E st0 (op_deref E st)"
  unfolding op_unary_float_def op_count_def op_strcat_def op_same_def op_not_def op_comp_def COMPARE_def op_match_def
    op_deref_def
  by (auto intro!: outcome_bnd [OF pop_float_outcome [OF f]] outcome_bnd [OF pop_expanded_outcome]
      outcome_bnd [OF pop_2_strings_outcome [OF f]] outcome_bnd [OF pop_boolean_outcome [OF f]]
      outcome_bnd [OF pop_long_outcome [OF f]] pushes_follow follows_flag f split: option.split)

lemma assigning_ops_ok:
  assumes f: "follows E st0 st"
  shows "step_ok E st0 (op_strcateq E st)" "step_ok E st0 (op_strpreeq E st)"
  unfolding op_strcateq_def op_strpreeq_def
  by (rule lval_rval_ok [OF f];
      auto intro!: outcome_bnd [OF expanded_outcome] assign_last_ok pushes_follow)+

lemma op_eq_ok:
  assumes f: "follows E st0 st"
  shows "step_ok E st0 (op_eq E st)"
  unfolding op_eq_def
  by (rule lval_rval_ok [OF f], rule outcome_bnd [OF expanded_since])
    (auto intro!: assign_last_ok push_follows elim!: follows_valid)

lemma op_swap_ok:
  assumes f: "follows E st0 st"
  shows "step_ok E st0 (op_swap E st)"
  unfolding op_swap_def
proof (rule lval_rval_ok [OF f])
  fix s :: cstr and v w b
  assume b: "follows E st0 b" "valid b v" "valid b w" "quiet st0 \<longrightarrow> s = []"
  show "step_ok E st0 (bnd (get_token_lval E w b) (\<lambda>(t, st). case t of None \<Rightarrow> Inr (push_token 0 st)
      | Some t \<Rightarrow> bnd (get_token_expanded E v st) (\<lambda>(sval, st). bnd (get_token_expanded E w st) (\<lambda>(tval, st).
          bnd (assign_var E s tval st) (\<lambda>st. bnd (assign_var E t sval st) (\<lambda>st. Inr (push_token w st)))))))"
  proof (rule outcome_bnd [OF lval_since [OF b(1)]], clarify)
    fix r :: "cstr option" and c assume c: "follows E b c" "follows E st0 c" "quiet st0 \<longrightarrow> r = None \<or> r = Some []"
    have "step_ok E st0 (bnd (get_token_expanded E v c) (\<lambda>(sval, st). bnd (get_token_expanded E w st) (\<lambda>(tval, st).
          bnd (assign_var E s tval st) (\<lambda>st. bnd (assign_var E t sval st) (\<lambda>st. Inr (push_token w st))))))" if t: "r = Some t" for t
    proof (rule outcome_bnd [OF expanded_since [OF c(2)]], clarify)
      fix sv :: cstr and d assume d: "follows E c d" "follows E st0 d" "quiet st0 \<longrightarrow> sv = []"
      show "step_ok E st0 (bnd (get_token_expanded E w d) (\<lambda>(tval, st).
          bnd (assign_var E s tval st) (\<lambda>st. bnd (assign_var E t sv st) (\<lambda>st. Inr (push_token w st)))))"
        by (rule outcome_bnd [OF expanded_since [OF d(2)]])
          (use b(3,4) c(3) d(3) t follows_valid [OF follows_trans [OF c(1) d(1)] b(3)] in
            \<open>auto intro!: assign_then_ok [of E st0] push_follows elim!: follows_valid [of E d]\<close>)
    qed
    then show "step_ok E st0 (case r of None \<Rightarrow> Inr (push_token 0 c)
      | Some t \<Rightarrow> bnd (get_token_expanded E v c) (\<lambda>(sval, st). bnd (get_token_expanded E w st) (\<lambda>(tval, st).
          bnd (assign_var E s tval st) (\<lambda>st. bnd (assign_var E t sval st) (\<lambda>st. Inr (push_token w st))))))"
      using push_follows [OF c(2) zero_valid [OF c(2)]] by (auto split: option.split)
  qed
qed


lemma pop_2_valid:
  assumes "follows E st0 st" "pop_2_tokens st = (v, w, b)"
  shows "follows E st0 b" "valid b v" "valid b w"
proof -
  obtain a where p: "pop_token st = (w, a)" "pop_token a = (v, b)"
    using assms(2) by (auto simp: pop_2_tokens_def split: prod.splits)
  have a: "follows E st0 a" "valid a w" using pop_follows [OF assms(1)] p by auto
  show "follows E st0 b" "valid b v" using pop_follows [OF a(1)] p by auto
  have "length (tokens a) = length (tokens b)" using p(2) by (auto simp: pop_token_def split: list.splits)
  then show "valid b w" using a(2) valid_tokens by metis
qed

lemma op_comma_ok: "follows E st0 st \<Longrightarrow> step_ok E st0 (op_comma E st)"
  unfolding op_comma_def using pop_2_valid [of E st0 st] by (auto split: prod.split intro!: push_follows)

lemma op_quest_ok:
  assumes f: "follows E st0 st"
  shows "step_ok E st0 (op_quest E st)"
proof -
  obtain w a u v b where p: "pop_token st = (w, a)" "pop_2_tokens a = (u, v, b)" by (metis prod.exhaust)
  have a: "follows E st0 a" "valid a w" using pop_follows [OF f] p by auto
  have b: "follows E st0 b" "valid b v" using pop_2_valid [OF a(1) p(2)] by auto
  have "length (tokens a) = length (tokens b)"
    using p(2) by (auto simp: pop_2_tokens_def pop_token_def split: list.splits prod.splits)
  then have w: "valid b w" using a(2) valid_tokens by metis
  have g: "outcome (\<lambda>(i, st'). follows E b st') (get_token_boolean E u b)"
    by (rule boolean_outcome [OF follows_refl [OF follows_ok [OF b(1)]]])
  show ?thesis
    unfolding op_quest_def pop_3_tokens_def p prod.case bnd_assoc
    by (rule outcome_bnd [OF g])
      (use follows_trans [OF b(1)] b(2) w in \<open>auto intro!: push_follows elim!: follows_valid\<close>)
qed

lemma op_ok:
  assumes f: "follows E st0 st"
  shows "step_ok E st0 (op E err what st)"
proof (cases "stack st = [] \<or> err")
  case False
  have i: "outcome (\<lambda>_. True) (c_shl i j)" "outcome (\<lambda>_. True) (c_shr i j)" "outcome (\<lambda>_. True) (c_mod i j)"
    "outcome (\<lambda>_. True) (Inr (i AND j))" "outcome (\<lambda>_. True) (Inr (i OR j))" "outcome (\<lambda>_. True) (Inr (i XOR j))"
    for i j by (simp_all add: c_shl_def c_shr_def c_mod_def)
  note g = macros_ok(2,5) [OF f] implied_ok(4,5) [OF f] macros_ok(1,3,4) [OF f i(4)] implied_ok(1-3) [OF f i(4)]
  note m = auto_unary_ok [OF f] simple_ops_ok [OF f] assigning_ops_ok [OF f]
    op_eq_ok [OF f] op_swap_ok [OF f] op_comma_ok [OF f] op_quest_ok [OF f]
  show ?thesis
    unfolding op_def using False f
    by (cases what) (simp_all add: g i m)
qed (use f in \<open>simp add: op_def\<close>)

subsection \<open>The lexer\<close>

abbreviation keeps :: "('d, 'w) env \<Rightarrow> ('d, 'w) operands \<Rightarrow> LEX \<times> ('d, 'w) expr_info \<Rightarrow> bool" where
  "keeps E st0 r \<equiv> follows E st0 (vals (snd r))"

text \<open>Nothing is read twice.\<close>

abbreviation shrinks :: "nat \<Rightarrow> LEX \<times> ('d, 'w) expr_info \<Rightarrow> bool" where
  "shrinks n r \<equiv> length (ptr (snd r)) \<le> n"

lemma magic_valid: "valid st MAGIC_TOKEN"
  by (simp add: valid_def)

lemma implied_arg_ok:
  "follows E st0 (vals c) \<Longrightarrow> follows E st0 (vals (check_implied_arg c))" "ptr (check_implied_arg c) = ptr c"
  by (auto simp: check_implied_arg_def intro!: follows_flag push_follows magic_valid)

lemma operator_ok:
  "follows E st0 (vals c) \<Longrightarrow> keeps E st0 (operator y z c)" "length (ptr c) \<le> n \<Longrightarrow> shrinks n (operator y z c)"
  "follows E st0 (vals c) \<Longrightarrow> keeps E st0 (unary d z c)" "length (ptr c) \<le> n \<Longrightarrow> shrinks n (unary d z c)"
  using implied_arg_ok(1) [of E st0 c] by (auto simp: operator_def lexerr_def unary_def Let_def implied_arg_ok(2))

lemma lex_assign_ok:
  "follows E st0 (vals c) \<Longrightarrow> keeps E st0 (lex_assign z y c)" "length (ptr c) \<le> n \<Longrightarrow> shrinks n (lex_assign z y c)"
  by (auto simp: lex_assign_def intro: operator_ok)

lemma operators_keep:
  assumes "follows E st0 (vals c)"
  shows "keeps E st0 (lex_rparen c)" "keeps E st0 (lex_plus c)" "keeps E st0 (lex_minus c)"
    "keeps E st0 (lex_star c)" "keeps E st0 (lex_bang c)" "keeps E st0 (lex_double d z1 z2 z3 z4 c)"
    "keeps E st0 (lex_hash c)" "keeps E st0 (lex_less c)" "keeps E st0 (lex_greater c)" "keeps E st0 (lex_equals c)"
    "keeps E st0 (lex_end c)"
  using assms implied_arg_ok(1) [OF assms]
  by (auto simp: lex_rparen_def lex_plus_def lex_minus_def lex_star_def lex_bang_def lex_double_def lex_hash_def
      lex_less_def lex_greater_def lex_equals_def lex_end_def Let_def
      intro!: operator_ok lex_assign_ok push_follows zero_valid)

lemma operators_shrink:
  assumes "length (ptr c) \<le> n"
  shows "shrinks n (lex_rparen c)" "shrinks n (lex_plus c)" "shrinks n (lex_minus c)"
    "shrinks n (lex_star c)" "shrinks n (lex_bang c)" "shrinks n (lex_double d z1 z2 z3 z4 c)"
    "shrinks n (lex_hash c)" "shrinks n (lex_less c)" "shrinks n (lex_greater c)" "shrinks n (lex_equals c)"
    "shrinks n (lex_end c)"
  using assms
  by (auto simp: lex_rparen_def lex_plus_def lex_minus_def lex_star_def lex_bang_def lex_double_def lex_hash_def
      lex_less_def lex_greater_def lex_equals_def lex_end_def Let_def implied_arg_ok(2)
      intro!: operator_ok lex_assign_ok)


subsection \<open>Operands\<close>

lemma length_skip_sign: "length (skip_sign s) \<le> length s"
  by (simp add: skip_sign_def)

lemma exponent_end_length: "length (exponent_end e s) \<le> length s"
  using length_dropWhile_le [of is_digit "skip_sign (tl s)"] length_skip_sign [of "tl s"]
  by (auto simp: exponent_end_def)

lemma mantissa_end_length: "mantissa_end P s = Some r \<Longrightarrow> length r \<le> length (dropWhile P s)"
  using length_dropWhile_le [of P "tl (dropWhile P s)"] by (auto simp: mantissa_end_def Let_def split: if_splits)

lemma digit_not_letter: "is_digit x \<Longrightarrow> c_tolower x = x \<and> x \<noteq> CHR ''i'' \<and> x \<noteq> CHR ''n''"
  by (auto simp: is_digit_def c_tolower_def is_upper_def)

lemma strtod_end_length:
  assumes "is_digit x"
  shows "length (strtod_end (x # s)) \<le> length s"
proof -
  have u: "skip_sign (dropWhile my_isspace (x # s)) = x # s"
    using assms is_digit_not_space [OF assms] digit_not_sign [OF assms] by (auto simp: skip_sign_def)
  have no: "\<not> prefix ''infinity'' (map c_tolower (x # s))" "\<not> prefix ''inf'' (map c_tolower (x # s))"
    "\<not> prefix ''nan'' (map c_tolower (x # s))"
    using digit_not_letter [OF assms] by auto
  have dec: "length r \<le> length s" if "mantissa_end is_digit (x # s) = Some r" for r
    using mantissa_end_length [OF that] assms length_dropWhile_le [of is_digit s] by simp
  have hex: "length r \<le> length s" if "mantissa_end is_xdigit (tl s) = Some r" for r
    using mantissa_end_length [OF that] length_dropWhile_le [of is_xdigit "tl s"] by simp
  obtain d where d: "mantissa_end is_digit (x # s) = Some d"
    using assms by (auto simp: mantissa_end_def Let_def)
  have e: "length (exponent_end c t) \<le> length s" if "length t \<le> length s" for c t
    using that exponent_end_length [of c t] by linarith
  show ?thesis
    unfolding strtod_end_def u Let_def
    using no d e [OF dec [OF d]] hex e by (auto simp: drop_Suc split: option.split)
qed

lemma lvalue_end_suffix: "suffix (lvalue_end s) s"
proof (induction s rule: lvalue_end.induct)
  case (1 s)
  define r where "r = fst (after_expando s False)"
  have r: "suffix r s" unfolding r_def by (rule after_expando_suffix)
  show ?case
  proof (cases "cat r 0 = CHR ''$''")
    case True
    then have "suffix (lvalue_end (tl r)) (tl r)" using 1 [OF r_def] by simp
    then have "suffix (lvalue_end (tl r)) s" using suffix_tl_trans [OF r] suffix_order.trans by blast
    then show ?thesis using True by (subst lvalue_end.simps) (simp add: r_def [symmetric] Let_def)
  next
    case False
    then show ?thesis using r by (subst lvalue_end.simps) (simp add: r_def [symmetric] Let_def)
  qed
qed

lemma after_expando_special_shorter: "after_expando_special (x # s) = Some e \<Longrightarrow> length e \<le> length s"
  using lvalue_end_suffix [of "x # s"]
  by (auto simp: after_expando_special_def Let_def suffix_Cons dest: suffix_length_le split: if_splits)

lemma bracketed_length: "bracketed l r p = (t, e) \<Longrightarrow> length e \<le> length p"
  using MatchingBracket_suffix [of p l r] suffix_length_le
  by (fastforce simp: bracketed_def split: option.splits)

lemma id_token_ok:
  assumes "follows E st0 (snd p)" "valid (snd p) (fst p)"
  shows "keeps E st0 (id_token e p c)"
proof -
  obtain t st where p: "p = (t, st)" by fastforce
  have "valid (st\<lparr>last_token := t\<rparr>) = valid st" by (rule valid_tokens) simp
  then show ?thesis using assms unfolding p id_token_def by (simp add: follows_def operands_ok_def)
qed

lemma new_id_ok:
  assumes "follows E st0 st" "symbol_ok s"
  shows "keeps E st0 (id_token e (if noeval st \<noteq> 0 then (0, st) else new_token s st) c)"
  using assms new_token_follows [OF assms] by (intro id_token_ok) (auto simp: zero_valid)

lemma operands_keep:
  assumes f: "follows E st0 (vals c)"
  shows "keeps E st0 (lex_brace E c)" "keeps E st0 (lex_bracket c)" "keeps E st0 (lex_number p c)"
    "keeps E st0 (lex_expando start p c)" "keeps E st0 (lex_list z start p c)"
proof -
  show e: "keeps E st0 (lex_expando start p c)"
    using f new_token_follows [OF f one_field_ok(1)]
    by (auto simp: lex_expando_def tokenize_lval_def zero_valid split: option.split intro!: id_token_ok)
  show "keeps E st0 (lex_list z start p c)" using f e by (simp add: lex_list_def)
  show "keeps E st0 (lex_bracket c)"
    using f new_id_ok [OF f one_field_ok(2)] by (auto simp: lex_bracket_def tokenize_raw_def lexerr_def split: prod.split)
  show "keeps E st0 (lex_number p c)"
    using f new_id_ok [OF f one_field_ok(3)] by (auto simp: lex_number_def tokenize_expanded_def Let_def)
  show "keeps E st0 (lex_brace E c)"
  proof (cases "operand c = 0 \<or> noeval (vals c) \<noteq> 0")
    case True
    then show ?thesis using f by (auto simp: lex_brace_def lexerr_def zero_valid split: prod.split intro!: id_token_ok)
  next
    case False
    obtain p rest where p: "bracketed (CHR 0x7B) (CHR 0x7D) (ptr c) = (p, rest)" by fastforce
    have w: "follows E st0 ((vals c)\<lparr>world := w\<rparr>)" for w
      using False f by (intro follows_world(2)) (auto simp: follows_def quiet_def)
    show ?thesis
      using new_token_follows [OF w one_field_ok(3)] False f
      by (auto simp: lex_brace_def p tokenize_expanded_def split: option.split intro!: id_token_ok)
  qed
qed

lemma operands_shrink:
  shows "shrinks (length (ptr c)) (lex_brace E c)" "shrinks (length (ptr c)) (lex_bracket c)"
    "is_digit x \<Longrightarrow> shrinks (length s) (lex_number (x # s) c)"
    "shrinks (length s) (lex_expando start (x # s) c)"
    "ptr c = s \<Longrightarrow> shrinks (length s) (lex_list z start (x # s) c)"
proof -
  show e: "shrinks (length s) (lex_expando start (x # s) c)"
    using after_expando_special_shorter [of x s]
    by (auto simp: lex_expando_def id_token_def split: option.split prod.split)
  show "ptr c = s \<Longrightarrow> shrinks (length s) (lex_list z start (x # s) c)" using e by (simp add: lex_list_def)
  show "is_digit x \<Longrightarrow> shrinks (length s) (lex_number (x # s) c)"
    using strtod_end_length [of x s] by (auto simp: lex_number_def id_token_def Let_def split: prod.split)
  show "shrinks (length (ptr c)) (lex_brace E c)" "shrinks (length (ptr c)) (lex_bracket c)"
    using bracketed_length [of _ _ "ptr c"]
    by (auto simp: lex_brace_def lex_bracket_def lexerr_def id_token_def split: prod.split option.split)
qed

lemma lex_token_keeps: "follows E st0 (vals c) \<Longrightarrow> keeps E st0 (lex_token E start p x c)"
  unfolding lex_token_def by (simp add: operators_keep operands_keep operator_ok lex_assign_ok)

lemma lex_token_shrinks:
  assumes p: "ptr c = s"
  shows "shrinks (length s) (lex_token E start (x # s) x c)"
proof -
  have o: "length (ptr c) \<le> length s" by (simp add: p)
  have b: "shrinks (length s) (lex_brace E c)" "shrinks (length s) (lex_bracket c)"
    using operands_shrink(1) [of E c] operands_shrink(2) [of c] p by simp_all
  show ?thesis
    unfolding lex_token_def
    by (simp add: operators_shrink [OF o] operator_ok(4) [OF o] lex_assign_ok(2) [OF o] b
        operands_shrink(3,4) operands_shrink(5) [OF p] o)
qed

lemma zzlex_loop_ok:
  assumes "follows E st0 (vals c)"
  shows "keeps E st0 (zzlex_loop E start s c) \<and> shrinks (length s) (zzlex_loop E start s c)
    \<and> (fst (zzlex_loop E start s c) = EOI \<or> length (ptr (snd (zzlex_loop E start s c))) < length s)"
  using assms
proof (induction s arbitrary: start c)
  case Nil
  then show ?case using operators_keep(11) [of E st0 "c\<lparr>ptr := []\<rparr>"]
    by (auto simp: lex_end_def Let_def implied_arg_ok(2))
next
  case (Cons x s)
  have IH: "keeps E st0 (zzlex_loop E start s c) \<and> shrinks (length s) (zzlex_loop E start s c)" for start
    using Cons.IH [OF Cons.prems] by blast
  show ?case
  proof (cases "x = CHR '' '' \<or> x = CHR 0x09 \<or> x = CHR 0x0A \<or> x = CHR ''$''")
    case True
    then have "zzlex_loop E start (x # s) c = zzlex_loop E (if x = CHR ''$'' then start else tl start) s c" by auto
    then show ?thesis using IH by (simp add: le_SucI le_imp_less_Suc)
  next
    case False
    then show ?thesis
      using lex_token_keeps [of E st0 "c\<lparr>ptr := s\<rparr>" start "x # s" x]
        lex_token_shrinks [of "c\<lparr>ptr := s\<rparr>" s E start x] Cons.prems
      by (simp add: le_SucI le_imp_less_Suc)
  qed
qed


subsection \<open>The parser\<close>

lemma lex_next_ok:
  assumes "follows E st0 (vals c)"
  shows "follows E st0 (vals (lex_next E c))" "length (ptr (lex_next E c)) \<le> length (ptr c)"
    "mtok (lex_next E c) = EOI \<or> length (ptr (lex_next E c)) < length (ptr c)"
  using zzlex_loop_ok [OF assms, of "ptr c" "ptr c"] by (auto simp: lex_next_def zzlex_def split: prod.splits)

text \<open>Enough fuel for the loop, and what a part of the parse that follows \<open>st0\<close> and begins with \<open>l\<close>
  characters keeps.\<close>

definition ready :: "nat \<Rightarrow> ('d, 'w) expr_info \<Rightarrow> bool" where
  "ready n c \<longleftrightarrow> 1 \<le> n \<and> (mtok c = EOI \<or> errflag c) \<or> length (ptr c) + 2 \<le> n"

abbreviation parse_ok ::
  "('d, 'w) env \<Rightarrow> ('d, 'w) operands \<Rightarrow> nat \<Rightarrow> nat \<Rightarrow> ('d, 'w) expr_info result \<Rightarrow> bool" where
  "parse_ok E st0 l n \<equiv>
     outcome (\<lambda>c. follows E st0 (vals c) \<and> length (ptr c) \<le> l \<and> ready n c)"

lemma ready_lex_next:
  "follows E st0 (vals c) \<Longrightarrow> length (ptr c) + 2 \<le> Suc n \<Longrightarrow> ready n (lex_next E c)"
  using lex_next_ok(2,3) [of E st0 c] by (auto simp: ready_def)

text \<open>What follows \<open>st0\<close> with \<open>noeval\<close> raised by \<open>k\<close>.\<close>

definition under :: "('d, 'w) env \<Rightarrow> ('d, 'w) operands \<Rightarrow> int \<Rightarrow> ('d, 'w) expr_info \<Rightarrow> bool" where
  "under E st0 k c \<longleftrightarrow> 0 \<le> k \<and> (\<exists>b. follows E st0 b \<and> vals c = b\<lparr>noeval := noeval st0 + k\<rparr>)"

lemma valid_noeval [simp]: "valid (st\<lparr>noeval := m\<rparr>) = valid st"
  by (rule valid_tokens) simp

lemma noeval_ok:
  assumes "operands_ok st" "0 \<le> m"
  shows "operands_ok (st\<lparr>noeval := m\<rparr>)"
proof -
  have v: "valid (st\<lparr>noeval := m\<rparr>) = valid st" by (rule valid_tokens) simp
  show ?thesis using assms by (simp add: operands_ok_def v)
qed

lemma under_0: "under E st0 0 c \<longleftrightarrow> follows E st0 (vals c)"
proof
  assume f: "follows E st0 (vals c)"
  then have "vals c = (vals c)\<lparr>noeval := noeval st0 + 0\<rparr>" by (simp add: follows_def)
  then show "under E st0 0 c" using f unfolding under_def by blast
qed (auto simp: under_def follows_def noeval_ok operands_ok_def)

lemma under_ok: "under E st0 k c \<Longrightarrow> follows E (vals c) (vals c)"
  by (auto simp: under_def follows_def operands_ok_def intro!: follows_refl noeval_ok)

lemma under_add: "under E st0 k c \<Longrightarrow> 0 \<le> k + i \<Longrightarrow> under E st0 (k + i) (add_noeval i c)"
  by (auto simp: under_def add_noeval_def algebra_simps)

lemma under_follows:
  assumes "under E st0 k c" "follows E (vals c) (vals d)"
  shows "under E st0 k d"
proof -
  obtain b where b: "follows E st0 b" "vals c = b\<lparr>noeval := noeval st0 + k\<rparr>" "0 \<le> k"
    using assms(1) by (auto simp: under_def)
  have m: "0 \<le> noeval st0" "noeval (vals d) = noeval st0 + k"
    using b assms(2) by (auto simp: follows_def operands_ok_def)
  have "operands_ok ((vals d)\<lparr>noeval := noeval st0\<rparr>)"
    using noeval_ok [OF follows_ok [OF assms(2)] m(1)] .
  then have "follows E st0 ((vals d)\<lparr>noeval := noeval st0\<rparr>)"
    using b(1,3) assms(2) m unfolding b(2) follows_def quiet_def by (auto intro: assigns_nothing_trans)
  then show ?thesis
    unfolding under_def using b(3) m by (intro conjI exI [of _ "(vals d)\<lparr>noeval := noeval st0\<rparr>"]) auto
qed

lemma under_back:
  assumes "under E st0 k c" "m = noeval st0"
  shows "follows E st0 ((vals c)\<lparr>noeval := m\<rparr>)"
proof -
  obtain b where b: "follows E st0 b" "vals c = b\<lparr>noeval := noeval st0 + k\<rparr>"
    using assms(1) by (auto simp: under_def)
  then have "(vals c)\<lparr>noeval := m\<rparr> = b" using assms(2) by (simp add: follows_def)
  then show ?thesis using b(1) by simp
qed

lemma peek_ok:
  "follows E st0 (vals c) \<Longrightarrow>
   outcome (\<lambda>(u, d). follows E st0 (vals d) \<and> ptr d = ptr c \<and> errflag d = errflag c \<and> mtok d = mtok c) (peek_boolean E c)"
  unfolding peek_boolean_def by (auto intro!: outcome_bnd [OF pop_boolean_outcome] pushes_follow)

lemma short_circuit_ok:
  assumes f: "follows E st0 (vals c)"
  shows "outcome (\<lambda>d. (under E st0 0 d \<or> under E st0 1 d) \<and> ptr d = ptr c \<and> errflag d = errflag c)
    (short_circuit E t c)"
proof -
  have "under E st0 1 (add_noeval 1 d)" if "follows E st0 (vals d)" for d
    using under_add [of E st0 0 d 1] that by (simp add: under_0)
  then show ?thesis
    unfolding short_circuit_def
    using f by (auto intro!: outcome_bnd [OF peek_ok [OF f]] simp: under_0) (auto simp: add_noeval_def)
qed

lemma with_vals_ok:
  assumes "step_ok E st0 r" "length (ptr c) \<le> l" "ready n c"
  shows "parse_ok E st0 l n (with_vals r c)"
  unfolding with_vals_def
  by (rule outcome_bnd [OF assms(1)]) (use assms(2,3) in \<open>auto simp: ready_def\<close>)

lemma parse_loop_ok:
  fixes c :: "('d, 'w) expr_info"
  assumes "follows E st0 (vals c)" "ready n c" "pc \<le> TOPPREC"
  shows "parse_ok E st0 (length (ptr c)) n (parse_loop E n pc c)"
  using assms
proof (induction n arbitrary: st0 pc c)
  case 0
  then show ?case by (simp add: ready_def)
next
  case (Suc n)
  note f = Suc.prems(1)
  define parse where "parse = (\<lambda>p d. if errflag d then Inr d else parse_loop E n p (lex_next E d))"
  have parse0: "parse_ok E s1 l n (parse p d)"
    if "follows E s1 (vals d)" "length (ptr d) \<le> l" "l + 2 \<le> Suc n" "p \<le> TOPPREC" for s1 d l p
  proof (cases "errflag d")
    case True
    then show ?thesis using that by (auto simp: ready_def parse_def)
  next
    case False
    have r: "ready n (lex_next E d)" using ready_lex_next [OF that(1)] that(2,3) by simp
    show ?thesis
      using False outcome_mono [OF Suc.IH [OF lex_next_ok(1) [OF that(1)] r that(4)]] lex_next_ok(2) [OF that(1)] that(2)
      unfolding parse_def by fastforce
  qed
  have parse: "outcome (\<lambda>e. under E st0 k e \<and> length (ptr e) \<le> length (ptr c) \<and> ready n e) (parse p d)"
    if "under E st0 k d" "length (ptr d) \<le> length (ptr c)" "length (ptr c) + 2 \<le> Suc n" "p \<le> TOPPREC" for k d p
    by (rule outcome_mono [OF parse0 [OF under_ok [OF that(1)] that(2,3,4)]]) (use under_follows [OF that(1)] in blast)
  have mono: "parse_ok E st0 (length (ptr c)) (Suc n) (parse_loop E n p d)"
    if "follows E st0 (vals d)" "length (ptr d) \<le> length (ptr c)" "ready n d" "p \<le> TOPPREC" for d p
    by (rule outcome_mono [OF Suc.IH [OF that(1,3,4)]]) (use that(2) in \<open>auto simp: ready_def\<close>)
  have reduce: "parse_ok E st0 (length (ptr c)) (Suc n)
      (bnd (with_vals (op E (errflag d) t st) d) (parse_loop E n pc))"
    if "follows E st0 st" "length (ptr d) \<le> length (ptr c)" "ready n d" for d t st
    by (rule outcome_bnd [OF with_vals_ok [OF op_ok [OF that(1)] that(2,3)]]) (auto intro: mono Suc.prems(3))
  show ?case
  proof (cases "pc < prec (mtok c) \<or> errflag c \<or> hung c")
    case True
    then show ?thesis using Suc.prems by auto
  next
    case False
    then have l: "length (ptr c) + 2 \<le> Suc n" using Suc.prems(2,3) by (auto simp: ready_def)
    have p: "prec (mtok c) \<le> TOPPREC" using False Suc.prems(3) by simp
    consider (id) "mtok c = ID" | (par) "mtok c = M_INPAR" | (quest) "mtok c = QUEST"
      | (op) "mtok c \<noteq> ID" "mtok c \<noteq> M_INPAR" "mtok c \<noteq> QUEST" by blast
    then show ?thesis
    proof cases
      case id
      define d where "d = c\<lparr>vals := push_token (last_token (vals c)) (vals c)\<rparr>"
      have d: "follows E st0 (vals d)" "ptr d = ptr c"
        using f push_follows [OF f] by (auto simp: d_def follows_def operands_ok_def)
      have "parse_ok E st0 (length (ptr c)) (Suc n) (parse_loop E n pc (lex_next E d))"
        using mono [OF lex_next_ok(1) [OF d(1)] _ ready_lex_next [OF d(1)] Suc.prems(3)] lex_next_ok(2) [OF d(1)] d(2) l
        by simp
      then show ?thesis using False id by (simp add: d_def)
    next
      case par
      have "parse_ok E st0 (length (ptr c)) (Suc n)
          (bnd (parse TOPPREC c) (\<lambda>c. if mtok c \<noteq> M_OUTPAR then Inr c else parse_loop E n pc (lex_next E c)))"
      proof (rule outcome_bnd [OF parse0 [OF f le_refl l le_refl]])
        fix d assume d: "follows E st0 (vals d) \<and> length (ptr d) \<le> length (ptr c) \<and> ready n d"
        show "parse_ok E st0 (length (ptr c)) (Suc n) (if mtok d \<noteq> M_OUTPAR then Inr d else parse_loop E n pc (lex_next E d))"
          using d mono [OF lex_next_ok(1) _ ready_lex_next Suc.prems(3), of d] lex_next_ok(2) [of E st0 d] l
          by (auto simp: ready_def)
      qed
      then show ?thesis using False par by (simp add: parse_def)
    next
      case op
      have rp: "rhs_prec (mtok c) \<le> TOPPREC" using p by (simp add: rhs_prec_def)
      have nv: "noeval (vals c) = noeval st0" using f by (simp add: follows_def)
      have "parse_ok E st0 (length (ptr c)) (Suc n)
          (bnd (short_circuit E (mtok c) c) (\<lambda>c1. bnd (parse (rhs_prec (mtok c)) c1) (\<lambda>c2.
               bnd (with_vals (op E (errflag c2) (mtok c) ((vals c2)\<lparr>noeval := noeval (vals c)\<rparr>)) c2)
                 (parse_loop E n pc))))"
      proof (rule outcome_bnd [OF short_circuit_ok [OF f]], clarify)
        fix c1 :: "('d, 'w) expr_info"
        assume c1: "ptr c1 = ptr c" and u: "under E st0 0 c1 \<or> under E st0 1 c1"
        then obtain k where k: "under E st0 k c1" by blast
        show "parse_ok E st0 (length (ptr c)) (Suc n) (bnd (parse (rhs_prec (mtok c)) c1) (\<lambda>c2.
               bnd (with_vals (op E (errflag c2) (mtok c) ((vals c2)\<lparr>noeval := noeval (vals c)\<rparr>)) c2) (parse_loop E n pc)))"
          by (rule outcome_bnd [OF parse [OF k _ l rp]]) (auto simp: c1 intro!: reduce under_back nv)
      qed
      then show ?thesis using False op by (simp add: parse_def)
    next
      case quest
      have "parse_ok E st0 (length (ptr c)) (Suc n)
         (bnd (peek_boolean E c) (\<lambda>(u, c).
                bnd (parse (prec QUEST - 1) (if u then c else add_noeval 1 c)) (\<lambda>c.
                  bnd (parse (prec QUEST) (if u then add_noeval 1 c else add_noeval (- 1) c)) (\<lambda>c.
                    let c = (if u then add_noeval (- 1) c else c)
                    in bnd (with_vals (op E (errflag c) QUEST (vals c)) c) (parse_loop E n pc)))))"
      proof (rule outcome_bnd [OF peek_ok [OF f]], clarify)
        fix u and c1 :: "('d, 'w) expr_info"
        assume c1: "follows E st0 (vals c1)" "ptr c1 = ptr c"
        define k :: int where "k = (if u then 0 else 1)"
        have s1: "under E st0 k (if u then c1 else add_noeval 1 c1)"
          using c1(1) under_add [of E st0 0 c1 1] by (simp add: k_def under_0)
        have l1: "length (ptr (if u then c1 else add_noeval 1 c1)) \<le> length (ptr c)" using c1(2) by (simp add: add_noeval_def)
        show "parse_ok E st0 (length (ptr c)) (Suc n)
            (bnd (parse (prec QUEST - 1) (if u then c1 else add_noeval 1 c1)) (\<lambda>c.
                  bnd (parse (prec QUEST) (if u then add_noeval 1 c else add_noeval (- 1) c)) (\<lambda>c.
                    let c = (if u then add_noeval (- 1) c else c)
                    in bnd (with_vals (op E (errflag c) QUEST (vals c)) c) (parse_loop E n pc))))"
        proof (rule outcome_bnd [OF parse [OF s1 l1 l]], simp, clarify)
          fix d :: "('d, 'w) expr_info"
          assume d: "under E st0 k d" "length (ptr d) \<le> length (ptr c)"
          have s2: "under E st0 (1 - k) (if u then add_noeval 1 d else add_noeval (- 1) d)"
            using d(1) under_add [of E st0 0 d 1] under_add [of E st0 1 d "- 1"] by (cases u) (simp_all add: k_def)
          have l2: "length (ptr (if u then add_noeval 1 d else add_noeval (- 1) d)) \<le> length (ptr c)"
            using d(2) by (simp add: add_noeval_def)
          show "parse_ok E st0 (length (ptr c)) (Suc n)
              (bnd (parse (prec QUEST) (if u then add_noeval 1 d else add_noeval (- 1) d)) (\<lambda>c.
                    let c = (if u then add_noeval (- 1) c else c)
                    in bnd (with_vals (op E (errflag c) QUEST (vals c)) c) (parse_loop E n pc)))"
          proof (rule outcome_bnd [OF parse [OF s2 l2 l]], simp, clarify)
            fix e :: "('d, 'w) expr_info"
            assume e: "under E st0 (1 - k) e" "length (ptr e) \<le> length (ptr c)" "ready n e"
            have s3: "follows E st0 (vals (if u then add_noeval (- 1) e else e))"
              using e(1) under_add [of E st0 1 e "- 1"] by (simp add: k_def under_0 split: if_splits)
            have r3: "length (ptr (if u then add_noeval (- 1) e else e)) \<le> length (ptr c)"
              "ready n (if u then add_noeval (- 1) e else e)"
              using e(2,3) by (auto simp: add_noeval_def ready_def)
            show "parse_ok E st0 (length (ptr c)) (Suc n)
              (let c = (if u then add_noeval (- 1) e else e)
               in bnd (with_vals (op E (errflag c) QUEST (vals c)) c) (parse_loop E n pc))"
              unfolding Let_def by (rule reduce [OF s3 r3])
          qed
        qed
      qed
      then show ?thesis using False quest by (simp add: parse_def)
    qed
  qed
qed


lemma mathparse_ok:
  assumes "operands_ok (vals c)" "length (ptr c) + 2 \<le> Suc n" "pc \<le> TOPPREC"
  shows "outcome (\<lambda>d. follows E (vals c) (vals d)) (mathparse E n pc c)"
proof -
  have f: "follows E (vals c) (vals c)" using assms(1) by (rule follows_refl)
  show ?thesis
    unfolding mathparse_def
    using f outcome_mono [OF parse_loop_ok [OF lex_next_ok(1) [OF f] ready_lex_next [OF f assms(2)] assms(3)]] by auto
qed

text \<open>A client for examples: whole numbers, and variables that hold texts.\<close>

lemma setup_ok: "operands_ok (setup_expr_info a flag w)" "noeval (setup_expr_info a flag w) = 0"
  "eargs (setup_expr_info a flag w) = a"
  by (simp_all add: setup_expr_info_def tokenize_raw_def new_token_def no_symbol_def operands_ok_def symbol_ok_def valid_def)

lemma stack_symbol_ok:
  assumes "operands_ok st" "v \<in> set (stack st)"
  shows "v = MAGIC_TOKEN \<or> v = - 1 \<and> length (tokens st) = TOKENCOUNT \<or>
    0 \<le> v \<and> v < int (length (tokens st)) \<and> symbol_ok (symbol_of st v)"
proof -
  have "valid st v" using assms by (simp add: operands_ok_def list_all_iff)
  then show ?thesis using assms(1) by (auto simp: valid_def operands_ok_def list_all_length)
qed

text \<open>
  C7: Parsing any text, from any state in which the token table and the operand stack are in
  order, keeps them in order: at most 80 tokens, each with a value, and at most 80 operands. Each
  operand is the index of a token of the table, or one of the two numbers that name no token: -14
  (\<open>MAGIC_TOKEN\<close>), which is read as the arguments, and -1, which stands for the tokens that found
  no room, only when the table is full, and is read as nothing. Reading any operand reaches no panic. The
  level of short circuits is what it was.
\<close>

theorem mathparse_keeps_operands:
  assumes "operands_ok (vals c)" "length (ptr c) + 2 \<le> Suc n" "pc \<le> TOPPREC" "mathparse E n pc c = Inr d"
  shows "operands_ok (vals d) \<and> length (tokens (vals d)) \<le> 80 \<and> length (stack (vals d)) \<le> 80 \<and>
    (\<forall>v \<in> set (stack (vals d)).
       (v = MAGIC_TOKEN \<or> v = - 1 \<and> length (tokens (vals d)) = 80 \<or>
        0 \<le> v \<and> v < int (length (tokens (vals d))) \<and> symbol_ok (symbol_of (vals d) v)) \<and>
       get_token_expanded E v (vals d) \<noteq> Inl Panic) \<and>
    noeval (vals d) = noeval (vals c) \<and> length (tokens (vals c)) \<le> length (tokens (vals d))"
proof -
  have d: "follows E (vals c) (vals d)" using mathparse_ok [OF assms(1-3), of E] assms(4) by simp
  have "get_token_expanded E v (vals d) \<noteq> Inl Panic" for v
    using expanded_outcome [OF d, of v] by auto
  then show ?thesis
    using stack_symbol_ok [OF follows_ok [OF d]] d by (simp add: follows_def operands_ok_def)
qed

theorem mathparse_keeps_operands_witness:
  "\<exists>d. mathparse sample_env 5 TOPPREC
     \<lparr>ptr = ''1+'', operand = 1, mtok = M_INPAR, errflag = False, hung = False, vals = setup_expr_info [] False []\<rparr> = Inr d
   \<and> operands_ok (vals d)"
proof -
  define c :: "(int, (cstr \<times> cstr) list) expr_info" where
    "c = \<lparr>ptr = ''1+'', operand = 1, mtok = M_INPAR, errflag = False, hung = False, vals = setup_expr_info [] False []\<rparr>"
  have "\<not> isl (mathparse sample_env 5 TOPPREC c)" unfolding c_def by code_simp
  then have "\<exists>d. mathparse sample_env 5 TOPPREC c = Inr d" by (cases "mathparse sample_env 5 TOPPREC c") auto
  then show ?thesis
    using mathparse_keeps_operands [of c 5 TOPPREC sample_env] setup_ok(1) unfolding c_def by fastforce
qed

subsection \<open>Expressions that return\<close>

text \<open>
  What can stop an evaluation besides a panic: a call of the client that does not come back, a
  match that does not end, and the operations that C does not define. A text without their operators
  reaches none of them when the calls of the client come back.
\<close>

definition clients_return :: "('d, 'w) env \<Rightarrow> bool" where
  "clients_return E \<longleftrightarrow> (\<forall>s a w. expand_alias E s a w \<noteq> None \<and> alias_special_char E s a w \<noteq> None \<and>
     add_var_alias E s a w \<noteq> None \<and> parse_line_with_return E s a w \<noteq> None)"

text \<open>No \<open>%\<close>, \<open>++\<close>, \<open>--\<close>, \<open><<\<close>, \<open>>>\<close>, \<open>=~\<close> and \<open>!~\<close>.\<close>

fun tame :: "cstr \<Rightarrow> bool" where
  "tame [] = True"
| "tame (x # s) \<longleftrightarrow> x \<noteq> CHR ''%'' \<and> tame s \<and>
     (x, cat s 0) \<notin> {(CHR ''+'', CHR ''+''), (CHR ''-'', CHR ''-''), (CHR ''<'', CHR ''<''), (CHR ''>'', CHR ''>''),
       (CHR ''='', CHR ''~''), (CHR ''!'', CHR ''~'')}"

definition risky :: "LEX \<Rightarrow> bool" where
  "risky t \<longleftrightarrow> t \<in> {M_MOD, MODEQ, SHLEFT, SHRIGHT, SHLEFTEQ, SHRIGHTEQ, MATCH, NOMATCH, PREMINUS, PREPLUS, POSTMINUS, POSTPLUS}"

definition calm :: "('a \<Rightarrow> bool) \<Rightarrow> 'a result \<Rightarrow> bool" where
  "calm P r = (case r of Inl e \<Rightarrow> e \<noteq> NoReturn \<and> e \<noteq> Undefined | Inr x \<Rightarrow> P x)"

abbreviation fine :: "'a result \<Rightarrow> bool" where
  "fine r \<equiv> calm (\<lambda>_. True) r"

lemma calm_Inr [simp]: "calm P (Inr x) = P x"
  by (simp add: calm_def)

lemma calm_Inl [simp]: "calm P (Inl e) \<longleftrightarrow> e \<noteq> NoReturn \<and> e \<noteq> Undefined"
  by (simp add: calm_def)

lemma calm_bnd: "calm Q m \<Longrightarrow> (\<And>x. Q x \<Longrightarrow> calm P (f x)) \<Longrightarrow> calm P (bnd m f)"
  by (cases m) auto

lemma fine_bnd: "fine m \<Longrightarrow> (\<And>x. calm P (f x)) \<Longrightarrow> calm P (bnd m f)"
  by (rule calm_bnd)

lemma fine_pair: "(\<And>a b. calm P (f a b)) \<Longrightarrow> calm P (case p of (a, b) \<Rightarrow> f a b)"
  by (cases p) simp

lemma fine_option: "(x = None \<Longrightarrow> calm P r) \<Longrightarrow> (\<And>t. x = Some t \<Longrightarrow> calm P (f t)) \<Longrightarrow>
    calm P (case x of None \<Rightarrow> r | Some t \<Rightarrow> f t)"
  by (cases x) simp_all

lemma fine_if: "(b \<Longrightarrow> calm P r) \<Longrightarrow> (\<not> b \<Longrightarrow> calm P q) \<Longrightarrow> calm P (if b then r else q)"
  by simp

lemma fine_call: "m \<noteq> None \<Longrightarrow> fine (or_hang m)"
  by (cases m) auto

lemmas fine_rules = fine_pair fine_option fine_if fine_bnd

lemma fine_reads:
  assumes c: "clients_return E"
  shows "fine (get_token_lval E v st)" "fine (get_token_expanded E v st)" "fine (get_token_integer E v st)"
    "fine (get_token_float E v st)" "fine (get_token_boolean E v st)" "fine (assign_var E s t st)"
proof -
  note c = c [unfolded clients_return_def, rule_format]
  have call: "fine (or_hang ((if b then alias_special_char E else expand_alias E) x a w))"
    "fine (or_hang (expand_alias E x a w))" "fine (or_hang (add_var_alias E x a w))" for b x a w
    using c by (auto intro!: fine_call)
  have raw: "fine (get_token_raw E v st)" for st
    unfolding get_token_raw_def raw_text_def by (intro fine_rules call) auto
  then show "fine (get_token_lval E v st)" unfolding get_token_lval_def by (intro fine_rules) auto
  have e: "fine (get_token_expanded E v st)" for st
    unfolding get_token_expanded_def expanded_text_def by (intro fine_rules raw call) auto
  then show "fine (get_token_expanded E v st)" .
  show "fine (get_token_integer E v st)" "fine (get_token_float E v st)" "fine (get_token_boolean E v st)"
    unfolding get_token_integer_def get_token_float_def get_token_boolean_def Let_def by (intro fine_rules e; simp)+
  show "fine (assign_var E s t st)" unfolding assign_var_def by (intro fine_rules call) auto
qed

lemma fine_pops:
  assumes c: "clients_return E"
  shows "fine (pop_float E st)" "fine (pop_expanded E st)" "fine (pop_boolean E st)" "fine (pop_long E st)"
    "fine (pop_2_floats E st)" "fine (pop_2_integers E st)" "fine (pop_2_strings E st)" "fine (pop_2_booleans E st)"
    "fine (pop_3_tokens E st)"
proof -
  note r = fine_reads [OF c]
  have p: "fine (pop_float E st)" "fine (pop_expanded E st)" "fine (pop_boolean E st)" "fine (pop_long E st)" for st
    unfolding pop_float_def pop_expanded_def pop_boolean_def pop_long_def pop_integer_def
    by (intro fine_rules r; simp)+
  then show "fine (pop_float E st)" "fine (pop_expanded E st)" "fine (pop_boolean E st)" "fine (pop_long E st)" by blast+
  show "fine (pop_2_floats E st)" "fine (pop_2_integers E st)" "fine (pop_2_strings E st)" "fine (pop_2_booleans E st)"
    unfolding pop_2_floats_def pop_2_integers_def pop_2_strings_def pop_2_booleans_def
    by (intro fine_rules p; simp)+
  show "fine (pop_3_tokens E st)" unfolding pop_3_tokens_def by (intro fine_rules r; simp)
qed

lemma fine_op:
  assumes c: "clients_return E" and x: "\<not> risky x"
  shows "fine (op E err x st)"
proof -
  note r = fine_rules fine_reads [OF c] fine_pops [OF c]
  have g: "fine (GET_LVAL_RVAL E k st)" if "\<And>s v w st. fine (k s v w st)" for k
    unfolding GET_LVAL_RVAL_def by (intro r that; simp)
  have s: "fine (store_token E s p)" for s p unfolding store_token_def by (intro r; simp)
  have m: "fine (BINARY_FLOAT E f st)" "fine (BINARY_FLOAT_NOZERO E f st)" "fine (BINARY_BOOLEAN E h st)" "fine (COMPARE E a b st)"
    "fine (IMPLIED_FLOAT E f st)" "fine (IMPLIED_FLOAT_NOZERO E f st)" "fine (IMPLIED_BOOLEAN E h st)" for f h a b
    unfolding BINARY_FLOAT_def BINARY_FLOAT_NOZERO_def BINARY_BOOLEAN_def COMPARE_def IMPLIED_FLOAT_def
      IMPLIED_FLOAT_NOZERO_def IMPLIED_BOOLEAN_def
    by (intro r g s; simp)+
  have i: "fine (BINARY_INTEGER E f st)" "fine (IMPLIED_INTEGER E f st)" if "\<And>i j. fine (f i j)" for f
    unfolding BINARY_INTEGER_def IMPLIED_INTEGER_def by (intro r g s that; simp)+
  have o: "fine (op_not E st)" "fine (op_comp E st)" "fine (op_unary_float E f st)" "fine (op_count E n st)" "fine (op_deref E st)"
    "fine (op_strcat E st)" "fine (op_same E b st)" "fine (op_quest E st)" "fine (op_comma E st)" "fine (op_eq E st)"
    "fine (op_strcateq E st)" "fine (op_strpreeq E st)" "fine (op_swap E st)" for f n b
    unfolding op_not_def op_comp_def op_unary_float_def op_count_def op_deref_def op_strcat_def op_same_def op_quest_def
      op_comma_def op_eq_def op_strcateq_def op_strpreeq_def op_swap_def
    by (intro r g; simp)+
  show ?thesis unfolding op_def using x by (cases x) (simp_all add: risky_def m i o)
qed

lemma tame_suffix: "tame s \<Longrightarrow> suffix t s \<Longrightarrow> tame t"
proof (induction s)
  case (Cons x s)
  then show ?case by (cases "t = x # s") (auto simp: suffix_Cons)
qed simp

lemma suffix_skip_sign: "suffix (skip_sign s) s"
  by (simp add: skip_sign_def)

lemma suffix_exponent_end: "suffix (exponent_end e s) s"
  using suffix_dropWhile [of is_digit "skip_sign (tl s)"] suffix_skip_sign [of "tl s"] suffix_tl [of s]
  by (auto simp: exponent_end_def intro: suffix_order.trans)

lemma suffix_mantissa_end:
  assumes "mantissa_end P s = Some r"
  shows "suffix r s"
proof -
  have d: "suffix (dropWhile P s) s" by (rule suffix_dropWhile)
  have "suffix (dropWhile P (tl (dropWhile P s))) s"
    using suffix_dropWhile [of P "tl (dropWhile P s)"] suffix_tl_trans [OF d] suffix_order.trans by blast
  with d assms show ?thesis by (auto simp: mantissa_end_def Let_def split: if_splits)
qed

lemma suffix_strtod_end: "suffix (strtod_end s) s"
proof -
  define u where "u = skip_sign (dropWhile my_isspace s)"
  have u: "suffix u s" unfolding u_def using suffix_skip_sign suffix_dropWhile suffix_order.trans by blast
  have d: "suffix (drop k u) s" for k using suffix_drop u suffix_order.trans by blast
  have e: "suffix (exponent_end c t) s" if "suffix t s" for c t using suffix_exponent_end that suffix_order.trans by blast
  have n: "suffix (tl (dropWhile P (tl (drop k u)))) s" for P k
    using suffix_tl suffix_dropWhile d suffix_order.trans by metis
  have m: "suffix r s" if "mantissa_end P (drop k u) = Some r" for P k r
    using suffix_mantissa_end [OF that] d suffix_order.trans by blast
  have m0: "suffix r s" if "mantissa_end P u = Some r" for P r
    using suffix_mantissa_end [OF that] u suffix_order.trans by blast
  show ?thesis
    unfolding strtod_end_def u_def [symmetric] Let_def
    by (auto simp: d n intro!: e split: option.split if_splits dest: m m0)
qed

lemma suffix_bracketed: "bracketed l r p = (t, e) \<Longrightarrow> suffix e p"
  using MatchingBracket_suffix [of p l r] by (auto simp: bracketed_def split: option.splits intro: suffix_tl_trans)

definition good :: "('d, 'w) expr_info \<Rightarrow> bool" where
  "good c \<longleftrightarrow> tame (ptr c) \<and> \<not> hung c \<and> \<not> risky (mtok c)"

definition leads :: "cstr \<Rightarrow> LEX \<times> ('d, 'w) expr_info \<Rightarrow> bool" where
  "leads s r \<longleftrightarrow> suffix (ptr (snd r)) s \<and> \<not> hung (snd r) \<and> \<not> risky (fst r)"

lemma leads_operator:
  assumes "suffix (ptr c) s" "\<not> hung c" "\<not> risky z"
  shows "leads s (operator y z c)" "leads s (unary k z c)"
proof -
  have "suffix (drop y (ptr c)) s" using suffix_drop assms(1) suffix_order.trans by blast
  then show "leads s (operator y z c)" "leads s (unary k z c)"
    using assms by (simp_all add: leads_def operator_def unary_def lexerr_def check_implied_arg_def Let_def risky_def)
qed

lemma leads_id: "suffix e s \<Longrightarrow> \<not> hung c \<Longrightarrow> leads s (id_token e p c)"
  by (cases p) (simp add: id_token_def leads_def risky_def)

lemma leads_pass: "suffix (ptr c) s \<Longrightarrow> suffix (ptr (pass c)) s"
  by (simp add: suffix_tl_trans)

lemma leads_assign:
  assumes "suffix (ptr c) s" "\<not> hung c" "\<not> risky z" "\<not> risky y"
  shows "leads s (lex_assign z y c)"
  using leads_operator [OF assms(1,2)] assms(3,4) by (simp add: lex_assign_def)

lemma implied_arg_keeps: "ptr (check_implied_arg c) = ptr c" "hung (check_implied_arg c) = hung c"
  by (simp_all add: check_implied_arg_def)

lemma leads_expando:
  assumes "suffix p s" "\<not> hung c"
  shows "leads s (lex_expando start p c)"
proof -
  have "suffix e p" if "after_expando_special p = Some e" for e
    using that lvalue_end_suffix [of p] by (auto simp: after_expando_special_def Let_def split: if_splits)
  then show ?thesis using assms
    by (auto simp: lex_expando_def split: option.split intro!: leads_id intro: suffix_order.trans)
qed

lemma leads_if: "(b \<Longrightarrow> leads s r) \<Longrightarrow> (\<not> b \<Longrightarrow> leads s q) \<Longrightarrow> leads s (if b then r else q)"
  by simp

lemma leads_token:
  assumes c: "clients_return E" and t: "tame (x # s)" and p: "ptr c = s" "\<not> hung c"
  shows "leads (x # s) (lex_token E start (x # s) x c)"
proof -
  have s: "suffix (ptr c) (x # s)" by (simp add: p suffix_Cons)
  have i: "suffix (ptr (check_implied_arg c)) (x # s)" "\<not> hung (check_implied_arg c)" using s p by (simp_all add: implied_arg_keeps)
  have pa: "suffix (ptr (pass c)) (x # s)" "suffix (ptr (pass (check_implied_arg c))) (x # s)"
    using leads_pass [OF s] leads_pass [OF i(1)] by auto
  note l = leads_operator [OF s p(2)] leads_operator [OF i] leads_operator [OF pa(1)] leads_operator [OF pa(2)]
    leads_assign [OF s p(2)] leads_assign [OF pa(1)] leads_assign [OF pa(2)]
  have n: "nxt (check_implied_arg c) = nxt c" by (simp add: implied_arg_keeps)
  have br: "suffix e (x # s)" if "bracketed a b s = (u, e)" for a b u e
    using suffix_bracketed [OF that] by (simp add: suffix_Cons)
  have ops: "x = CHR '')'' \<Longrightarrow> leads (x # s) (lex_rparen c)" "x = CHR ''+'' \<Longrightarrow> leads (x # s) (lex_plus c)"
    "x = CHR ''-'' \<Longrightarrow> leads (x # s) (lex_minus c)" "leads (x # s) (lex_star c)" "x = CHR ''!'' \<Longrightarrow> leads (x # s) (lex_bang c)"
    "leads (x # s) (lex_hash c)" "x = CHR ''<'' \<Longrightarrow> leads (x # s) (lex_less c)"
    "x = CHR ''>'' \<Longrightarrow> leads (x # s) (lex_greater c)" "x = CHR ''='' \<Longrightarrow> leads (x # s) (lex_equals c)"
    "\<not> risky a1 \<Longrightarrow> \<not> risky a2 \<Longrightarrow> \<not> risky a3 \<Longrightarrow> \<not> risky a4 \<Longrightarrow> leads (x # s) (lex_double d a1 a2 a3 a4 c)" for d a1 a2 a3 a4
    using t i p l n
    by (simp_all add: lex_rparen_def lex_plus_def lex_minus_def lex_star_def lex_bang_def lex_hash_def lex_less_def
        lex_greater_def lex_equals_def lex_double_def Let_def leads_def [of _ "(M_OUTPAR, _)"] risky_def)
  have id: "leads (x # s) (lex_bracket c)" "leads (x # s) (lex_number (x # s) c)" "leads (x # s) (lex_expando start (x # s) c)"
    using p s br suffix_strtod_end [of "x # s"]
    by (auto simp: lex_bracket_def lex_number_def Let_def lexerr_def leads_def [of _ "(EOI, _)"] risky_def
        split: prod.split intro!: leads_id leads_expando)
  have brace: "leads (x # s) (lex_brace E c)"
  proof -
    obtain u e where u: "bracketed (CHR 0x7B) (CHR 0x7D) s = (u, e)" by fastforce
    obtain r w where "parse_line_with_return E u (eargs (vals c)) (world (vals c)) = Some (r, w)"
      using c unfolding clients_return_def by fastforce
    with u p s br [OF u] show ?thesis
      by (auto simp: lex_brace_def lexerr_def leads_def [of _ "(EOI, _)"] risky_def intro: leads_id)
  qed
  have list: "leads (x # s) (lex_list z start (x # s) c)" if "\<not> risky z" for z
    using that id(3) s p by (simp add: lex_list_def leads_def)
  have one: "leads (x # s) (M_INPAR, c\<lparr>operand := 1\<rparr>)" "leads (x # s) (QUEST, c\<lparr>operand := 1\<rparr>)"
    using s p by (simp_all add: leads_def risky_def)
  have x: "x \<noteq> CHR ''%''" using t by simp
  show ?thesis
    unfolding lex_token_def
    by (intro leads_if ops id brace list one l; (assumption | simp add: risky_def x)?; use x in blast)
qed

lemma leads_loop:
  assumes c: "clients_return E"
  shows "tame s \<Longrightarrow> \<not> hung c \<Longrightarrow> leads s (zzlex_loop E start s c)"
proof (induction s arbitrary: start)
  case Nil
  then show ?case by (simp add: lex_end_def Let_def leads_def implied_arg_keeps risky_def)
next
  case (Cons x s)
  have "leads (x # s) r" if "leads s r" for r :: "LEX \<times> ('d, 'w) expr_info"
    using that by (simp add: leads_def suffix_Cons)
  moreover have "leads s (zzlex_loop E t s c)" for t using Cons by simp
  moreover have "leads (x # s) (lex_token E start (x # s) x (c\<lparr>ptr := s\<rparr>))" using leads_token [OF c Cons.prems(1)] Cons.prems(2) by simp
  ultimately show ?case unfolding zzlex_loop.simps by (intro leads_if; blast)
qed

lemma good_next:
  assumes "clients_return E" "tame (ptr c)" "\<not> hung c"
  shows "good (lex_next E c)"
  using leads_loop [OF assms, of "ptr c"] tame_suffix [OF assms(2)]
  by (cases "zzlex_loop E (ptr c) (ptr c) c") (simp add: lex_next_def zzlex_def good_def leads_def)

lemma good_vals: "good (c\<lparr>vals := st\<rparr>) = good c" "good (add_noeval i c) = good c"
  by (simp_all add: good_def add_noeval_def)

lemma calm_peek: "clients_return E \<Longrightarrow> good c \<Longrightarrow> calm (\<lambda>(u, d). good d \<and> mtok d = mtok c) (peek_boolean E c)"
  unfolding peek_boolean_def by (rule fine_bnd [OF fine_pops(3)]) (auto simp: good_vals)

lemma calm_short:
  assumes "clients_return E" "good c"
  shows "calm good (short_circuit E t c)"
  unfolding short_circuit_def
  by (auto intro!: calm_bnd [OF calm_peek [OF assms]] simp: assms good_vals)

lemma calm_parse:
  assumes c: "clients_return E"
  shows "good d \<Longrightarrow> calm good (parse_loop E n pc d)"
proof (induction n arbitrary: pc d)
  case (Suc n)
  have step: "calm good (parse_loop E n q (lex_next E e))" if "good e" for q and e :: "('a, 'b) expr_info"
    by (rule Suc.IH [OF good_next [OF c]]) (use that in \<open>simp_all add: good_def\<close>)
  have part: "calm good (if errflag e then Inr e else parse_loop E n q (lex_next E e))" if "good e" for q and e :: "('a, 'b) expr_info"
    using step [OF that] that by simp
  have op: "calm good (bnd (with_vals (op E b t st) e) (parse_loop E n q))" if "good e" "\<not> risky t" for b t st q and e :: "('a, 'b) expr_info"
    unfolding with_vals_def
    by (auto intro!: calm_bnd [OF fine_bnd [OF fine_op [OF c that(2)]], of good] simp: Suc.IH that good_vals)
  have q: "\<not> risky QUEST" by (simp add: risky_def)
  have t: "\<not> risky (mtok d)" and h: "\<not> hung d" using Suc.prems by (simp_all add: good_def)
  show ?case
    unfolding parse_loop.simps Let_def if_not_P [OF h]
    by (intro fine_if; (intro calm_bnd [OF calm_peek [OF c]] calm_bnd [OF calm_short [OF c]] calm_bnd [OF part] op part step)?;
        (auto simp: good_vals Suc.prems q t intro!: calm_bnd [OF part] step op)?)
qed simp

lemma mathparse_calm: "clients_return E \<Longrightarrow> tame (ptr c) \<Longrightarrow> \<not> hung c \<Longrightarrow> \<not> risky (mtok c) \<Longrightarrow> calm good (mathparse E n pc c)"
  unfolding mathparse_def by (intro fine_if calm_parse good_next) (simp_all add: good_def)


text \<open>Its witness adds to a variable and assigns in a part between parentheses.\<close>

lemma sample_clients_return: "clients_return sample_env"
  by (simp add: clients_return_def sample_env_def split: option.split)


text \<open>
  C8: A part of an expression that is short-circuited has no effect, whatever its text, but one: when
  the expression has no arguments, parsing with \<open>noeval\<close> set runs no command, expands no text and
  assigns to no variable with a name; all that can happen is that the empty text is assigned to the
  empty name (\<open>assigns_nothing\<close>), which an assignment operator does when its left operand is a
  name that was read before. With arguments a short-circuited assignment to the implied operand
  does have an effect (\<open>implied_lvalue_escapes_short_circuit\<close>).
\<close>

theorem short_circuit_has_no_effect:
  assumes "operands_ok (vals c)" "noeval (vals c) \<noteq> 0" "eargs (vals c) = []"
    and "length (ptr c) + 2 \<le> Suc n" "pc \<le> TOPPREC" "mathparse E n pc c = Inr d"
  shows "assigns_nothing E (world (vals c)) (world (vals d))"
  using mathparse_ok [OF assms(1,4,5), of E] assms(2,3,6) by (simp add: follows_def quiet_def)


text \<open>Its witness parses \<open>x = 5\<close> while nothing is evaluated; the client of the example has no variable with the empty name.\<close>

lemma sample_assigns_nothing: "assigns_nothing sample_env w w' \<Longrightarrow> w' = w"
  unfolding assigns_nothing_def by (induction rule: rtranclp_induct) (auto simp: sample_env_def)

theorem short_circuit_has_no_effect_witness:
  "\<exists>d. mathparse sample_env 8 TOPPREC
     \<lparr>ptr = ''x = 5'', operand = 1, mtok = M_INPAR, errflag = False, hung = False,
      vals = (setup_expr_info [] False [(''x'', ''1'')])\<lparr>noeval := 1\<rparr>\<rparr> = Inr d
   \<and> world (vals d) = [(''x'', ''1'')]"
proof -
  define c :: "(int, (cstr \<times> cstr) list) expr_info" where
    "c = \<lparr>ptr = ''x = 5'', operand = 1, mtok = M_INPAR, errflag = False, hung = False,
          vals = (setup_expr_info [] False [(''x'', ''1'')])\<lparr>noeval := 1\<rparr>\<rparr>"
  have "\<not> isl (mathparse sample_env 8 TOPPREC c)" unfolding c_def by code_simp
  then obtain d where d: "mathparse sample_env 8 TOPPREC c = Inr d"
    by (cases "mathparse sample_env 8 TOPPREC c") auto
  have ok: "operands_ok (vals c)" using noeval_ok [OF setup_ok(1), of 1] by (simp add: c_def)
  have w: "world (vals c) = [(''x'', ''1'')]"
    by (simp add: c_def setup_expr_info_def tokenize_raw_def new_token_def)
  have "assigns_nothing sample_env (world (vals c)) (world (vals d))"
    by (rule short_circuit_has_no_effect [OF ok _ _ _ _ d]) (simp_all add: c_def setup_ok)
  then have "world (vals d) = [(''x'', ''1'')]" using w sample_assigns_nothing by simp
  then show ?thesis using d unfolding c_def by blast
qed

text \<open>
  With arguments the left-out operand of \<open>*\<close> stands for their text also as a name to assign
  to, so that an assignment that is short-circuited removes the variable of that name: first for the
  operator in any state, then in an expression.
\<close>

lemma implied_lvalue_escapes_short_circuit:
  assumes "stack st = v # MAGIC_TOKEN # ts" "v \<noteq> MAGIC_TOKEN" "noeval st \<noteq> 0" "add_var_alias E (eargs st) [] (world st) = Some w"
    "length ts < STACKSZ"
  shows "op E False EQ st = Inr (st\<lparr>stack := v # ts, world := w\<rparr>)"
  using assms
  by (simp add: op_def op_eq_def GET_LVAL_RVAL_def pop_2_tokens_def pop_token_def get_token_lval_def get_token_expanded_def
      push_token_def assign_var_def)

lemma implied_lvalue_example:
  "matheval sample_env ''0&&(* = 5)'' ''x'' False [(''x'', ''1'')] = Inr (''0'', True, [])
   \<and> matheval sample_env ''0&&(x=5)'' ''x'' False [(''x'', ''1'')] = Inr (''0'', False, [(''x'', ''1'')])"
  by code_simp

text \<open>
  \<open>&&=\<close> and \<open>||=\<close> evaluate their right side although the left one decides, in contrast to
  \<open>&&\<close> and \<open>||\<close>: the table calls them right-associative, and the test for a short circuit looks
  only at operators marked \<open>BOOL\<close>.
\<close>

theorem assigning_conjunction_evaluates_both_sides:
  "matheval sample_env ''x&&=(y=1)'' [] False [(''x'', ''0'')] = Inr (''0'', False, [(''x'', ''0''), (''y'', ''1''), (''x'', ''0'')])
   \<and> matheval sample_env ''x&&(y=1)'' [] False [(''x'', ''0'')] = Inr (''0'', False, [(''x'', ''0'')])"
  by code_simp

text \<open>
  A conditional between \<open>?\<close> and \<open>:\<close> needs parentheses: the middle of \<open>a?b?c:d:e\<close> stops at
  the second \<open>?\<close>, which is then taken for the \<open>:\<close> that is missing.
\<close>

theorem nested_conditional_misparsed:
  "matheval sample_env ''0?1?2:3:4'' [] False [] = Inr (''3'', False, [])
   \<and> matheval sample_env ''0?(1?2:3):4'' [] False [] = Inr (''4'', False, [])"
  by code_simp


subsection \<open>Numbers as the evaluator sees them\<close>

text \<open>\<open>parse_inline\<close> calls \<open>matheval\<close> only for a setting above 1, where no fraction is kept.\<close>

lemma canon_number_no_fraction: "fp \<noteq> 1 \<Longrightarrow> CHR ''.'' \<notin> set (canon_number fp t)"
  by (auto simp: canon_number_def dest: set_takeWhileD)

text \<open>A fraction below 1 is false.\<close>

lemma check_val_half: "d_to_long F (d_read F ''0.5'') = 0 \<Longrightarrow> \<not> check_val F ''0.5''"
  by (simp add: check_val_def) code_simp

text \<open>An operand of \<open>&\<close> passes through a \<open>double\<close>.\<close>

lemma pop_long_through_double:
  "pop_long E st =
     (case pop_token st of (v, st) \<Rightarrow>
        bnd (get_token_integer E v st) (\<lambda>(i, st). Inr (d_to_long E (d_of_long E i), st)))"
  by (cases "pop_token st"; cases "get_token_integer E (fst (pop_token st)) (snd (pop_token st))")
    (auto simp: pop_long_def pop_integer_def)

end
