(* ===== verification/ExprTree.thy ===== *)
theory ExprTree
  imports ExprParse
begin

section \<open>Expressions: the parser against the trees it stands for\<close>

text \<open>
  Expressions as trees, their text, and their evaluation by recursion on the tree. Shown: on the
  text of a tree that has the parentheses its precedences demand, the shift-reduce parser does
  what the recursion does, operator by operator, whatever the client is.
\<close>

subsection \<open>Trees\<close>

datatype atom = Lit cstr | Name cstr | Text cstr

datatype tree =
    Atom atom
  | Par tree
  | Pre LEX tree
  | Post LEX tree
  | Bin LEX tree tree
  | Cond tree tree tree

primrec sym :: "LEX \<Rightarrow> cstr" where
  "sym M_INPAR = ''(''"
| "sym M_NOT = ''!''" | "sym M_COMP = ''~''" | "sym PREMINUS = ''--''" | "sym PREPLUS = ''++''"
| "sym UPLUS = ''+''" | "sym UMINUS = ''-''" | "sym STRLEN = ''@''" | "sym WORDC = ''#''" | "sym DEREF = ''*''"
| "sym POWER = ''**''"
| "sym MUL = ''*''" | "sym M_DIV = ''/''" | "sym M_MOD = ''%''"
| "sym PLUS = ''+''" | "sym MINUS = ''-''" | "sym STRCAT = ''##''"
| "sym SHLEFT = ''<<''" | "sym SHRIGHT = ''>>''"
| "sym LES = ''<''" | "sym LEQ = ''<=''" | "sym GRE = ''>''" | "sym GEQ = ''>=''"
| "sym MATCH = ''=~''" | "sym NOMATCH = ''!~''"
| "sym DEQ = ''==''" | "sym NEQ = ''!=''"
| "sym M_AND = ''&''" | "sym M_XOR = ''^''" | "sym M_OR = ''|''"
| "sym DAND = ''&&''" | "sym DXOR = ''^^''" | "sym DOR = ''||''"
| "sym QUEST = ''?''" | "sym COLON = '':''"
| "sym EQ = ''=''" | "sym PLUSEQ = ''+=''" | "sym MINUSEQ = ''-=''" | "sym MULEQ = ''*=''" | "sym DIVEQ = ''/=''"
| "sym MODEQ = ''%=''" | "sym ANDEQ = ''&=''" | "sym XOREQ = ''^=''" | "sym OREQ = ''|=''"
| "sym SHLEFTEQ = ''<<=''" | "sym SHRIGHTEQ = ''>>=''" | "sym DANDEQ = ''&&=''" | "sym DOREQ = ''||=''"
| "sym DXOREQ = ''^^=''" | "sym POWEREQ = ''**=''" | "sym STRCATEQ = ''#=''" | "sym STRPREEQ = ''#~''"
| "sym SWAP = ''<=>''"
| "sym COMMA = '',''"
| "sym POSTMINUS = ''--''" | "sym POSTPLUS = ''++''"
| "sym ID = []"
| "sym M_OUTPAR = '')''"
| "sym EXPERROR = []"
| "sym EOI = []"

definition prefix_op :: "LEX \<Rightarrow> bool" where
  "prefix_op t \<longleftrightarrow> prec t = 2 \<and> t \<noteq> POSTPLUS \<and> t \<noteq> POSTMINUS"

definition postfix_op :: "LEX \<Rightarrow> bool" where
  "postfix_op t \<longleftrightarrow> t = POSTPLUS \<or> t = POSTMINUS"

definition binary_op :: "LEX \<Rightarrow> bool" where
  "binary_op t \<longleftrightarrow> 3 \<le> prec t \<and> prec t \<le> 18 \<and> prec t \<noteq> 16"

fun level :: "tree \<Rightarrow> nat" where
  "level (Atom a) = 0"
| "level (Par t) = 1"
| "level (Pre x t) = 2"
| "level (Post x t) = 2"
| "level (Bin x l r) = prec x"
| "level (Cond c a b) = 16"

definition atom_ok :: "atom \<Rightarrow> bool" where
  "atom_ok a =
     (case a of
        Lit s \<Rightarrow> s \<noteq> [] \<and> list_all is_digit s
      | Name s \<Rightarrow> s \<noteq> [] \<and> list_all expando_char s \<and> \<not> is_digit (cat s 0)
      | Text s \<Rightarrow> list_all (\<lambda>c. c \<notin> set [CHR ''['', CHR '']'', CHR 0x5C]) s)"

text \<open>After \<open>#\<close>, \<open>@\<close> and \<open>*\<close> a sign would be taken for a binary operator.\<close>

definition simple :: "tree \<Rightarrow> bool" where
  "simple t = (level t \<le> 1)"

fun wf :: "tree \<Rightarrow> bool" where
  "wf (Atom a) = atom_ok a"
| "wf (Par t) = wf t"
| "wf (Pre x t) = (prefix_op x \<and> wf t \<and> level t \<le> 2 \<and> (x \<in> {STRLEN, WORDC, DEREF} \<longrightarrow> simple t))"
| "wf (Post x t) = (postfix_op x \<and> wf t \<and> level t \<le> 1)"
| "wf (Bin x l r) =
     (binary_op x \<and> wf l \<and> wf r \<and> (level l < prec x \<or> level l = prec x \<and> assoc x \<noteq> A_RL) \<and>
       (level r < prec x \<or> level r = prec x \<and> assoc x = A_RL))"
| "wf (Cond c a b) = (wf c \<and> wf a \<and> wf b \<and> level c \<le> 15 \<and> level a \<le> 15 \<and> level b \<le> 16)"

text \<open>Every token is followed by a space.\<close>

fun atext :: "atom \<Rightarrow> cstr" where
  "atext (Lit s) = s"
| "atext (Name s) = s"
| "atext (Text s) = ''['' @ s @ '']''"

fun unparse :: "tree \<Rightarrow> cstr" where
  "unparse (Atom a) = atext a @ '' ''"
| "unparse (Par t) = ''( '' @ unparse t @ '') ''"
| "unparse (Pre x t) = sym x @ '' '' @ unparse t"
| "unparse (Post x t) = unparse t @ sym x @ '' ''"
| "unparse (Bin x l r) = unparse l @ sym x @ '' '' @ unparse r"
| "unparse (Cond c a b) = unparse c @ ''? '' @ unparse a @ '': '' @ unparse b"

subsection \<open>Evaluation by recursion\<close>

definition atom_token :: "atom \<Rightarrow> ('d, 'w) operands \<Rightarrow> int \<times> ('d, 'w) operands" where
  "atom_token a st =
     (if noeval st \<noteq> 0 then (0, st)
      else case a of
        Lit s \<Rightarrow> tokenize_expanded s st
      | Name s \<Rightarrow> tokenize_lval s st
      | Text s \<Rightarrow> tokenize_raw s st)"

definition atom_vals :: "atom \<Rightarrow> ('d, 'w) operands \<Rightarrow> ('d, 'w) operands" where
  "atom_vals a st = (case atom_token a st of (t, st) \<Rightarrow> st\<lparr>last_token := t\<rparr>)"

definition peek :: "('d, 'w) env \<Rightarrow> (bool \<Rightarrow> ('d, 'w) step) \<Rightarrow> ('d, 'w) step" where
  "peek E f st = bnd (pop_boolean E st) (\<lambda>(u, st). f u (push_boolean u st))"

definition more_noeval :: "int \<Rightarrow> ('d, 'w) operands \<Rightarrow> ('d, 'w) operands" where
  "more_noeval i st = st\<lparr>noeval := noeval st + i\<rparr>"

definition decide :: "('d, 'w) env \<Rightarrow> LEX \<Rightarrow> ('d, 'w) step" where
  "decide E x =
     (if x = DAND then peek E (\<lambda>u st. Inr (if u then st else more_noeval 1 st))
      else if x = DOR then peek E (\<lambda>u st. Inr (if u then more_noeval 1 st else st))
      else Inr)"

fun run :: "('d, 'w) env \<Rightarrow> tree \<Rightarrow> ('d, 'w) step" where
  "run E (Atom a) st = Inr (push_token (last_token (atom_vals a st)) (atom_vals a st))"
| "run E (Par t) st = run E t st"
| "run E (Pre x t) st = bnd (run E t st) (\<lambda>st'. op E False x (st'\<lparr>noeval := noeval st\<rparr>))"
| "run E (Post x t) st = bnd (run E t st) (\<lambda>st1. op E False x st1)"
| "run E (Bin x l r) st =
     bnd (run E l st) (\<lambda>st1. bnd (decide E x st1) (\<lambda>st2. bnd (run E r st2) (\<lambda>st3.
       op E False x (st3\<lparr>noeval := noeval st1\<rparr>))))"
| "run E (Cond c a b) st =
     bnd (run E c st) (peek E (\<lambda>u st1.
       bnd (run E a (if u then st1 else more_noeval 1 st1)) (\<lambda>st2.
         bnd (run E b (if u then more_noeval 1 st2 else more_noeval (- 1) st2)) (\<lambda>st3.
           op E False QUEST (if u then more_noeval (- 1) st3 else st3)))))"


subsection \<open>Lexing the tokens of a tree\<close>

lemma zzlex_space [simp]: "zzlex E (c\<lparr>ptr := CHR '' '' # s\<rparr>) = zzlex E (c\<lparr>ptr := s\<rparr>)"
proof -
  have "zzlex_loop E start s (c\<lparr>ptr := x\<rparr>) = zzlex_loop E start s c" for start x s and c :: "('a, 'b) expr_info"
    by (induction s arbitrary: start) auto
  then show ?thesis by (simp add: zzlex_def)
qed

lemma lex_next_space:
  assumes "ptr c = CHR '' '' # s"
  shows "lex_next E c = lex_next E (c\<lparr>ptr := s\<rparr>)"
proof -
  have "c = c\<lparr>ptr := CHR '' '' # s\<rparr>" using assms by simp
  then have "zzlex E c = zzlex E (c\<lparr>ptr := s\<rparr>)" by (metis zzlex_space)
  then show ?thesis by (simp add: lex_next_def)
qed

lemmas zzlex_char = zzlex_def lex_token_def

lemma lex_binary:
  assumes "binary_op x" "operand c = 0" "ptr c = sym x @ CHR '' '' # s"
  shows "lex_next E c = c\<lparr>ptr := CHR '' '' # s, operand := 1, mtok := x\<rparr>"
  using assms
  by (cases x)
    (simp_all add: binary_op_def lex_next_def zzlex_char lex_star_def lex_assign_def operator_def check_implied_arg_def
      lex_plus_def lex_minus_def lex_hash_def lex_less_def lex_greater_def lex_equals_def lex_bang_def
      lex_double_def lex_list_def Let_def)


lemma lex_prefix:
  assumes "prefix_op x" "operand c = 1" "ptr c = sym x @ CHR '' '' # s"
  shows "lex_next E c = c\<lparr>ptr := CHR '' '' # s, operand := (if x \<in> {STRLEN, WORDC, DEREF} then 2 else 1), mtok := x\<rparr>"
  using assms
  by (cases x)
    (simp_all add: prefix_op_def lex_next_def zzlex_char lex_star_def unary_def check_implied_arg_def
      lex_plus_def lex_minus_def lex_hash_def lex_bang_def Let_def)

lemma lex_postfix:
  assumes "postfix_op x" "operand c = 0" "ptr c = sym x @ CHR '' '' # s"
  shows "lex_next E c = c\<lparr>ptr := CHR '' '' # s, mtok := x\<rparr>"
  using assms
  by (cases x)
    (simp_all add: postfix_op_def lex_next_def zzlex_char check_implied_arg_def lex_plus_def lex_minus_def Let_def)

lemma lex_marks:
  "ptr c = CHR ''('' # s \<Longrightarrow> lex_next E c = c\<lparr>ptr := s, operand := 1, mtok := M_INPAR\<rparr>"
  "ptr c = CHR '')'' # s \<Longrightarrow> operand c = 0 \<Longrightarrow> lex_next E c = c\<lparr>ptr := s, mtok := M_OUTPAR\<rparr>"
  "ptr c = CHR ''?'' # s \<Longrightarrow> lex_next E c = c\<lparr>ptr := s, operand := 1, mtok := QUEST\<rparr>"
  "ptr c = CHR '':'' # s \<Longrightarrow> operand c = 0 \<Longrightarrow> lex_next E c = c\<lparr>ptr := s, operand := 1, mtok := COLON\<rparr>"
  "ptr c = [] \<Longrightarrow> operand c = 0 \<Longrightarrow> lex_next E c = c\<lparr>ptr := [], operand := 1, mtok := EOI\<rparr>"
  by (simp_all add: lex_next_def zzlex_char lex_rparen_def lex_list_def lex_end_def check_implied_arg_def Let_def)

lemma digits_then_space: "list_all P s \<Longrightarrow> \<not> P (CHR '' '') \<Longrightarrow> dropWhile P (s @ CHR '' '' # r) = CHR '' '' # r"
  by (induction s) auto

lemma strtod_digits:
  assumes "s \<noteq> []" "list_all is_digit s"
  shows "strtod_end (s @ CHR '' '' # r) = CHR '' '' # r"
proof -
  obtain d s' where s: "s = d # s'" "is_digit d" "list_all is_digit s'" using assms by (cases s) auto
  have nd: "\<not> is_digit (CHR '' '')" by (simp add: is_digit_def)
  have d: "d \<noteq> CHR ''-''" "d \<noteq> CHR ''+''" "\<not> my_isspace d"
    using digit_not_sign [OF s(2)] is_digit_not_space [OF s(2)] by auto
  have u: "skip_sign (dropWhile my_isspace (s @ CHR '' '' # r)) = s @ CHR '' '' # r"
    using d by (simp add: s(1) skip_sign_def)
  have t: "c_tolower d = d" "d \<noteq> CHR ''i''" "d \<noteq> CHR ''n''"
    using s(2) by (auto simp: is_digit_def c_tolower_def is_upper_def)
  have p: "\<not> prefix ''infinity'' (map c_tolower (s @ CHR '' '' # r))" "\<not> prefix ''inf'' (map c_tolower (s @ CHR '' '' # r))"
    "\<not> prefix ''nan'' (map c_tolower (s @ CHR '' '' # r))"
    using t by (auto simp: s(1))
  have m: "mantissa_end is_digit (s @ CHR '' '' # r) = Some (CHR '' '' # r)"
    using s digits_then_space [OF assms(2) nd, of r] by (simp add: mantissa_end_def)
  have x: "c_tolower (cat (s @ CHR '' '' # r) 1) \<noteq> CHR ''x''"
  proof (cases s')
    case Nil
    then show ?thesis by (simp add: s(1) c_tolower_def is_upper_def)
  next
    case (Cons e s'')
    then have "is_digit e" using s(3) by simp
    then show ?thesis unfolding s(1) Cons by (auto simp: is_digit_def c_tolower_def is_upper_def)
  qed
  have e: "exponent_end (CHR ''e'') (CHR '' '' # r) = CHR '' '' # r"
    by (simp add: exponent_end_def c_tolower_def is_upper_def)
  show ?thesis unfolding strtod_end_def u Let_def using p x m e by simp
qed

lemma mb_loop_plain:
  "list_all (\<lambda>c. c \<notin> set [CHR ''['', CHR '']'', CHR 0x5C]) s \<Longrightarrow>
   mb_loop (CHR ''['') (CHR '']'') 1 (s @ CHR '']'' # r) = Some (CHR '']'' # r)"
proof (induction s)
  case Nil
  then show ?case by (cases r) auto
next
  case (Cons c s)
  then show ?case by (cases s) auto
qed

lemma after_expando_name:
  assumes "s \<noteq> []" "list_all expando_char s"
  shows "after_expando (s @ CHR '' '' # r) False = (CHR '' '' # r, False)"
proof -
  have n: "\<not> expando_char (CHR '' '')" by (simp add: expando_char_def is_lower_def is_upper_def is_digit_def)
  have "\<not> expando_char (CHR '':'')" by (simp add: expando_char_def is_lower_def is_upper_def is_digit_def)
  then have c: "skip_colons (s @ CHR '' '' # r) = s @ CHR '' '' # r"
    using assms by (cases s) (auto simp: skip_colons_def)
  have "subscripts (CHR '' '' # r) = Some (CHR '' '' # r)" by (subst subscripts.simps) simp
  moreover have "s @ CHR '' '' # r \<noteq> CHR '' '' # r" using assms(1) by simp
  ultimately show ?thesis
    using assms(1) digits_then_space [OF assms(2) n, of r]
    by (auto simp: after_expando_def c or_built_in_def)
qed

lemma expando_name:
  assumes "s \<noteq> []" "list_all expando_char s"
  shows "after_expando_special (s @ CHR '' '' # r) = Some (CHR '' '' # r)"
proof -
  have "lvalue_end (s @ CHR '' '' # r) = CHR '' '' # r"
    by (subst lvalue_end.simps) (simp add: after_expando_name [OF assms])
  then show ?thesis using assms(1) by (simp add: after_expando_special_def)
qed

definition mark :: "char \<Rightarrow> bool" where
  "mark x \<longleftrightarrow> x \<in> set (''()+-*/%!~&|^#@<>=?:,[ $'' @ [CHR 0x7B, CHR 0x09, CHR 0x0A])"

lemma expando_char_no_mark: "expando_char x \<Longrightarrow> \<not> mark x"
  by (auto simp: mark_def expando_char_def is_lower_def is_upper_def is_digit_def)

lemma not_mark:
  assumes "\<not> mark x"
  shows "lex_token E start p x c = (if is_digit x then lex_number p c else lex_expando start p c)"
    "x \<noteq> CHR '' ''" "x \<noteq> CHR 0x09" "x \<noteq> CHR 0x0A" "x \<noteq> CHR ''$''"
  using assms by (simp_all add: mark_def lex_token_def)

lemma lex_atom:
  assumes "atom_ok a" "operand c \<noteq> 0" "ptr c = atext a @ CHR '' '' # s"
  shows "lex_next E c = c\<lparr>ptr := CHR '' '' # s, operand := 0, mtok := ID, vals := atom_vals a (vals c)\<rparr>"
proof (cases a)
  case (Lit t)
  then obtain d t' where t: "t = d # t'" "is_digit d" "list_all is_digit t" "t \<noteq> []"
    using assms(1) by (cases t) (auto simp: atom_ok_def)
  have "expando_char d" using t(2) by (simp add: expando_char_def)
  note d = not_mark [OF expando_char_no_mark [OF this]] t(2)
  have "zzlex E c = lex_number (t @ CHR '' '' # s) (c\<lparr>ptr := t' @ CHR '' '' # s\<rparr>)"
    using d assms(3) by (simp add: zzlex_def Lit t(1))
  then show ?thesis
    using Lit by (simp add: lex_next_def lex_number_def Let_def strtod_digits [OF t(4,3)] id_token_def atom_vals_def atom_token_def
        split: prod.split)
next
  case (Name t)
  then obtain d t' where t: "t = d # t'" "expando_char d" "\<not> is_digit d" "list_all expando_char t" "t \<noteq> []"
    using assms(1) by (cases t) (auto simp: atom_ok_def)
  note d = not_mark [OF expando_char_no_mark [OF t(2)]] t(3)
  have "zzlex E c = lex_expando (t @ CHR '' '' # s) (t @ CHR '' '' # s) (c\<lparr>ptr := t' @ CHR '' '' # s\<rparr>)"
    using d assms(3) by (simp add: zzlex_def Name t(1))
  then show ?thesis
    using Name by (simp add: lex_next_def lex_expando_def expando_name [OF t(5,4)] id_token_def atom_vals_def atom_token_def
        split: prod.split)
next
  case (Text t)
  then have t: "MatchingBracket (t @ CHR '']'' # CHR '' '' # s) (CHR ''['') (CHR '']'') = Some (CHR '']'' # CHR '' '' # s)"
    using assms(1) mb_loop_plain [of t "CHR '' '' # s"] by (simp add: MatchingBracket_def atom_ok_def)
  have "zzlex E c = lex_bracket (c\<lparr>ptr := t @ CHR '']'' # CHR '' '' # s\<rparr>)"
    using assms(3) by (simp add: zzlex_char Text)
  then show ?thesis
    using Text assms(2) by (simp add: lex_next_def lex_bracket_def bracketed_def t id_token_def atom_vals_def atom_token_def
        split: prod.split)
qed


subsection \<open>One turn of the loop\<close>

abbreviation runs :: "('d, 'w) expr_info \<Rightarrow> bool" where
  "runs c \<equiv> \<not> errflag c \<and> \<not> hung c"

lemma assoc_BOOL: "assoc x = A_BOOL \<longleftrightarrow> x = DAND \<or> x = DXOR \<or> x = DOR"
  by (cases x) simp_all

lemma short_circuit_decide: "short_circuit E x c = with_vals (decide E x (vals c)) c"
  by (cases "pop_boolean E (vals c)")
    (auto simp: short_circuit_def decide_def assoc_BOOL with_vals_def peek_boolean_def peek_def add_noeval_def
      more_noeval_def)

lemma parse_ID:
  "mtok c = ID \<Longrightarrow> runs c \<Longrightarrow>
   parse_loop E (Suc n) pc c = parse_loop E n pc (lex_next E (c\<lparr>vals := push_token (last_token (vals c)) (vals c)\<rparr>))"
  by simp

lemma parse_INPAR:
  "mtok c = M_INPAR \<Longrightarrow> runs c \<Longrightarrow> 1 \<le> pc \<Longrightarrow>
   parse_loop E (Suc n) pc c = bnd (mathparse E n TOPPREC c) (\<lambda>c.
     if mtok c \<noteq> M_OUTPAR then Inr c else parse_loop E n pc (lex_next E c))"
  by (simp add: mathparse_def)

lemma parse_QUEST:
  assumes "mtok c = QUEST" "runs c" "16 \<le> pc"
  shows "parse_loop E (Suc n) pc c =
    bnd (peek_boolean E c) (\<lambda>(u, c).
      bnd (mathparse E n 15 (if u then c else add_noeval 1 c)) (\<lambda>c.
        bnd (mathparse E n 16 (if u then add_noeval 1 c else add_noeval (- 1) c)) (\<lambda>c.
          let c = (if u then add_noeval (- 1) c else c)
          in bnd (with_vals (op E (errflag c) QUEST (vals c)) c) (parse_loop E n pc))))"
  using assms by (simp add: mathparse_def)

lemma parse_op:
  assumes "mtok c = x" "runs c" "prec x \<le> pc" "x \<noteq> ID" "x \<noteq> M_INPAR" "x \<noteq> QUEST"
  shows "parse_loop E (Suc n) pc c =
    bnd (decide E x (vals c)) (\<lambda>st.
      bnd (mathparse E n (rhs_prec x) (c\<lparr>vals := st\<rparr>)) (\<lambda>c2.
        bnd (with_vals (op E (errflag c2) x ((vals c2)\<lparr>noeval := noeval (vals c)\<rparr>)) c2) (parse_loop E n pc)))"
  using assms by (simp add: mathparse_def short_circuit_decide with_vals_def bnd_assoc)

lemma parse_stop: "1 \<le> n \<Longrightarrow> \<not> hung c \<Longrightarrow> pc < prec (mtok c) \<Longrightarrow> parse_loop E n pc c = Inr c"
  by (cases n) simp_all

declare parse_loop.simps [simp del]

subsection \<open>The parser follows the tree\<close>

fun stop :: "tree \<Rightarrow> nat" where
  "stop (Atom a) = 0"
| "stop (Par t) = 0"
| "stop (Pre x t) = 2"
| "stop (Post x t) = 2"
| "stop (Bin x l r) = rhs_prec x"
| "stop (Cond c a b) = 16"

text \<open>The turns of the loop a tree takes at its own level, and the fuel it needs below.\<close>

fun turns :: "tree \<Rightarrow> nat" where
  "turns (Post x t) = Suc (turns t)"
| "turns (Bin x l r) = Suc (turns l)"
| "turns (Cond c a b) = Suc (turns c)"
| "turns _ = 1"

fun depth :: "tree \<Rightarrow> nat" where
  "depth (Atom a) = 1"
| "depth (Par t) = turns t + depth t"
| "depth (Pre x t) = turns t + depth t"
| "depth (Post x t) = depth t"
| "depth (Bin x l r) = max (depth l) (turns r + depth r)"
| "depth (Cond c a b) = max (depth c) (max (turns a + depth a) (turns b + depth b))"

lemma depth_pos: "1 \<le> depth t"
  by (induction t) auto

lemma rhs_prec_le: "rhs_prec x \<le> prec x" "assoc x \<noteq> A_RL \<Longrightarrow> 0 < prec x \<Longrightarrow> rhs_prec x < prec x"
  by (auto simp: rhs_prec_def)

lemma wf_right: "wf (Bin x l r) \<Longrightarrow> level r \<le> rhs_prec x"
  by (auto simp: rhs_prec_def)

lemma binary_assoc: "binary_op x \<Longrightarrow> assoc x = A_RL \<longleftrightarrow> prec x = 3 \<or> prec x = 17"
  by (cases x) (simp_all add: binary_op_def)

lemma stop_le: "wf t \<Longrightarrow> stop t \<le> level t"
  by (cases t) (auto simp: rhs_prec_le)

lemma stop_less:
  assumes "wf l" "binary_op x" "level l < prec x \<or> level l = prec x \<and> assoc x \<noteq> A_RL"
  shows "stop l < prec x"
  using assms stop_le [OF assms(1)] binary_assoc [of x]
  by (cases l) (auto simp: rhs_prec_def binary_assoc binary_op_def)

definition after :: "('d, 'w) env \<Rightarrow> cstr \<Rightarrow> LEX \<Rightarrow> cstr \<Rightarrow> int \<Rightarrow> bool" where
  "after E rest t r k \<longleftrightarrow>
     (\<forall>c. operand c = 0 \<longrightarrow> ptr c = CHR '' '' # rest \<longrightarrow> lex_next E c = c\<lparr>ptr := r, operand := k, mtok := t\<rparr>)"

lemma after_lex: "after E rest t r k \<Longrightarrow> operand c = 0 \<Longrightarrow> ptr c = CHR '' '' # rest \<Longrightarrow>
    lex_next E c = c\<lparr>ptr := r, operand := k, mtok := t\<rparr>"
  by (simp add: after_def)

lemma after_marks:
  "binary_op x \<Longrightarrow> after E (sym x @ CHR '' '' # s) x (CHR '' '' # s) 1"
  "postfix_op x \<Longrightarrow> after E (sym x @ CHR '' '' # s) x (CHR '' '' # s) 0"
  "after E (CHR '')'' # s) M_OUTPAR s 0"
  "after E (CHR ''?'' # s) QUEST s 1"
  "after E (CHR '':'' # s) COLON s 1"
  "after E [] EOI [] 1"
  by (auto simp: after_def lex_next_space lex_binary lex_postfix lex_marks)


lemma upd_order [simp]:
  "c\<lparr>vals := v, ptr := r, operand := k, mtok := t\<rparr> = c\<lparr>ptr := r, operand := k, mtok := t, vals := v\<rparr>"
  "c\<lparr>vals := vals c\<rparr> = c" "st\<lparr>noeval := noeval st\<rparr> = st"
  by simp_all

definition parses :: "('d, 'w) env \<Rightarrow> tree \<Rightarrow> bool" where
  "parses E a \<longleftrightarrow>
     (\<forall>pc c rest t r k n. level a \<le> pc \<longrightarrow> pc \<le> TOPPREC \<longrightarrow> after E rest t r k \<longrightarrow> stop a < prec t \<longrightarrow>
        operand c = 1 \<or> operand c = 2 \<and> simple a \<longrightarrow> runs c \<longrightarrow>
        ptr c = unparse a @ rest \<or> ptr c = CHR '' '' # unparse a @ rest \<longrightarrow> depth a \<le> n \<longrightarrow>
        parse_loop E (turns a + n) pc (lex_next E c) =
          bnd (run E a (vals c)) (\<lambda>st. parse_loop E n pc (c\<lparr>ptr := r, operand := k, mtok := t, vals := st\<rparr>)))"

lemma parsesI:
  fixes E :: "('d, 'w) env"
  assumes "\<And>pc (c :: ('d, 'w) expr_info) rest t r k n.
    \<lbrakk>level a \<le> pc; pc \<le> TOPPREC; after E rest t r k; stop a < prec t; operand c = 1 \<or> operand c = 2 \<and> simple a;
     runs c; ptr c = unparse a @ rest; depth a \<le> n\<rbrakk> \<Longrightarrow>
    parse_loop E (turns a + n) pc (lex_next E c) =
      bnd (run E a (vals c)) (\<lambda>st. parse_loop E n pc (c\<lparr>ptr := r, operand := k, mtok := t, vals := st\<rparr>))"
  shows "parses E a"
  unfolding parses_def
proof (intro allI impI)
  fix pc and c :: "('d, 'w) expr_info" and rest t r k n
  assume a: "level a \<le> pc" "pc \<le> TOPPREC" "after E rest t r k" "stop a < prec t"
    "operand c = 1 \<or> operand c = 2 \<and> simple a" "runs c" "depth a \<le> n"
    and p: "ptr c = unparse a @ rest \<or> ptr c = CHR '' '' # unparse a @ rest"
  from p show "parse_loop E (turns a + n) pc (lex_next E c) =
      bnd (run E a (vals c)) (\<lambda>st. parse_loop E n pc (c\<lparr>ptr := r, operand := k, mtok := t, vals := st\<rparr>))"
  proof
    assume "ptr c = unparse a @ rest"
    then show ?thesis using assms a by blast
  next
    assume s: "ptr c = CHR '' '' # unparse a @ rest"
    then show ?thesis
      using assms [of pc rest t r k "c\<lparr>ptr := unparse a @ rest\<rparr>" n] a by (simp add: lex_next_space [OF s])
  qed
qed

lemma parsesD:
  assumes "parses E a" "level a \<le> pc" "pc \<le> TOPPREC" "after E rest t r k" "stop a < prec t"
    "operand c = 1 \<or> operand c = 2 \<and> simple a" "runs c"
    "ptr c = unparse a @ rest \<or> ptr c = CHR '' '' # unparse a @ rest" "m = turns a + n" "depth a \<le> n"
  shows "parse_loop E m pc (lex_next E c) =
     bnd (run E a (vals c)) (\<lambda>st. parse_loop E n pc (c\<lparr>ptr := r, operand := k, mtok := t, vals := st\<rparr>))"
  using assms unfolding parses_def by blast

text \<open>A whole part: the parser stops at the token that follows it.\<close>

lemma parses_part:
  assumes "parses E a" "level a \<le> pc" "pc \<le> TOPPREC" "after E rest t r k" "pc < prec t" "stop a < prec t"
    "operand c = 1 \<or> operand c = 2 \<and> simple a" "runs c"
    "ptr c = unparse a @ rest \<or> ptr c = CHR '' '' # unparse a @ rest" "turns a + depth a \<le> n"
  shows "mathparse E n pc c =
     bnd (run E a (vals c)) (\<lambda>st. Inr (c\<lparr>ptr := r, operand := k, mtok := t, vals := st\<rparr>))"
proof -
  have "mathparse E n pc c = parse_loop E n pc (lex_next E c)" using assms(8) by (simp add: mathparse_def)
  also have "\<dots> = bnd (run E a (vals c)) (\<lambda>st. parse_loop E (n - turns a) pc (c\<lparr>ptr := r, operand := k, mtok := t, vals := st\<rparr>))"
    using assms by (intro parsesD) auto
  also have "\<dots> = bnd (run E a (vals c)) (\<lambda>st. Inr (c\<lparr>ptr := r, operand := k, mtok := t, vals := st\<rparr>))"
    using assms(5,8,10) depth_pos [of a] by (simp add: parse_stop)
  finally show ?thesis .
qed

lemma parses_Atom:
  fixes E :: "('d, 'w) env"
  assumes "wf (Atom a)"
  shows "parses E (Atom a)"
proof (rule parsesI)
  fix pc and c :: "('d, 'w) expr_info" and rest t r k n
  assume h: "after E rest t r k" "operand c = 1 \<or> operand c = 2 \<and> simple (Atom a)" "runs c"
    "ptr c = unparse (Atom a) @ rest"
  have "lex_next E c = c\<lparr>ptr := CHR '' '' # rest, operand := 0, mtok := ID, vals := atom_vals a (vals c)\<rparr>"
    using h assms by (intro lex_atom) auto
  then show "parse_loop E (turns (Atom a) + n) pc (lex_next E c) =
      bnd (run E (Atom a) (vals c)) (\<lambda>st. parse_loop E n pc (c\<lparr>ptr := r, operand := k, mtok := t, vals := st\<rparr>))"
    using h(3) by (simp add: parse_ID after_lex [OF h(1)])
qed

lemma parses_Par:
  fixes E :: "('d, 'w) env"
  assumes "wf (Par a)" "parses E a"
  shows "parses E (Par a)"
proof (rule parsesI)
  fix pc and c :: "('d, 'w) expr_info" and rest t r k n
  assume h: "level (Par a) \<le> pc" "after E rest t r k" "runs c" "ptr c = unparse (Par a) @ rest" "depth (Par a) \<le> n"
  have l: "level a \<le> TOPPREC" using assms(1) by (cases a) (auto simp: binary_op_def)
  have s: "stop a < 137" using stop_le [of a] assms(1) l by simp
  define d where "d = c\<lparr>ptr := CHR '' '' # unparse a @ '') '' @ rest, operand := 1, mtok := M_INPAR\<rparr>"
  have "lex_next E c = d" using h(4) by (simp add: lex_marks d_def)
  moreover have "mathparse E n TOPPREC d = bnd (run E a (vals d)) (\<lambda>st.
      Inr (d\<lparr>ptr := CHR '' '' # rest, operand := 0, mtok := M_OUTPAR, vals := st\<rparr>))"
    using assms l s h by (intro parses_part [OF _ _ _ after_marks(3)]) (auto simp: d_def)
  ultimately show "parse_loop E (turns (Par a) + n) pc (lex_next E c) =
      bnd (run E (Par a) (vals c)) (\<lambda>st. parse_loop E n pc (c\<lparr>ptr := r, operand := k, mtok := t, vals := st\<rparr>))"
    using h(1,3) by (simp add: parse_INPAR d_def bnd_assoc after_lex [OF h(2)])
qed

lemma decide_other: "x \<noteq> DAND \<Longrightarrow> x \<noteq> DOR \<Longrightarrow> decide E x st = Inr st"
  by (simp add: decide_def)

lemma parses_Pre:
  fixes E :: "('d, 'w) env"
  assumes "wf (Pre x a)" "parses E a"
  shows "parses E (Pre x a)"
proof (rule parsesI)
  fix pc and c :: "('d, 'w) expr_info" and rest t r k n
  assume h: "level (Pre x a) \<le> pc" "after E rest t r k" "stop (Pre x a) < prec t"
    "operand c = 1 \<or> operand c = 2 \<and> simple (Pre x a)" "runs c"
    "ptr c = unparse (Pre x a) @ rest" "depth (Pre x a) \<le> n"
  have x: "prefix_op x" "prec x = 2" "rhs_prec x = 2" "decide E x = Inr"
    using assms(1) by (cases x; simp add: prefix_op_def rhs_prec_def decide_def)+
  have o: "operand c = 1" using h(4) by (simp add: simple_def)
  define d where "d = c\<lparr>ptr := CHR '' '' # unparse a @ rest,
    operand := (if x \<in> {STRLEN, WORDC, DEREF} then 2 else 1), mtok := x\<rparr>"
  have d: "lex_next E c = d" using h(6) by (simp add: lex_prefix [OF x(1) o] d_def)
  have dv: "d\<lparr>vals := vals c\<rparr> = d" by (cases c) (simp add: d_def)
  have "mathparse E n 2 (d\<lparr>vals := vals c\<rparr>) = bnd (run E a (vals d)) (\<lambda>st. Inr (d\<lparr>ptr := r, operand := k, mtok := t, vals := st\<rparr>))"
    unfolding dv using assms h stop_le [of a] by (intro parses_part [OF _ _ _ h(2)]) (auto simp: d_def)
  moreover have "mtok d = x" "errflag d = errflag c" "hung d = hung c" "vals d = vals c" by (simp_all add: d_def)
  moreover have "x \<noteq> ID \<and> x \<noteq> M_INPAR \<and> x \<noteq> QUEST" using x(2) by (cases x) simp_all
  ultimately have "parse_loop E (Suc n) pc d = bnd (run E (Pre x a) (vals c)) (\<lambda>st.
      parse_loop E n pc (d\<lparr>ptr := r, operand := k, mtok := t, vals := st\<rparr>))"
    using h(1,5) x by (simp add: parse_op [where x = x] bnd_assoc with_vals_def)
  then show "parse_loop E (turns (Pre x a) + n) pc (lex_next E c) =
      bnd (run E (Pre x a) (vals c)) (\<lambda>st. parse_loop E n pc (c\<lparr>ptr := r, operand := k, mtok := t, vals := st\<rparr>))"
    unfolding d by (simp add: d_def)
qed


lemma parses_Post:
  fixes E :: "('d, 'w) env"
  assumes "wf (Post x a)" "parses E a"
  shows "parses E (Post x a)"
proof (rule parsesI)
  fix pc and c :: "('d, 'w) expr_info" and rest t r k n
  assume h: "level (Post x a) \<le> pc" "pc \<le> TOPPREC" "after E rest t r k" "stop (Post x a) < prec t"
    "operand c = 1 \<or> operand c = 2 \<and> simple (Post x a)" "runs c"
    "ptr c = unparse (Post x a) @ rest" "depth (Post x a) \<le> n"
  have x: "postfix_op x" "prec x = 2" "rhs_prec x = 2" "decide E x = Inr" "x \<noteq> ID" "x \<noteq> M_INPAR" "x \<noteq> QUEST"
    using assms(1) by (auto simp: postfix_op_def rhs_prec_def decide_def)
  have sl: "stop a < prec x" using assms(1) x(2) stop_le [of a] by auto
  have o: "operand c = 1" using h(5) by (simp add: simple_def)
  define d where "d st = c\<lparr>ptr := CHR '' '' # rest, operand := 0, mtok := x, vals := st\<rparr>" for st
  have first: "parse_loop E (turns (Post x a) + n) pc (lex_next E c) =
      bnd (run E a (vals c)) (\<lambda>st. parse_loop E (Suc n) pc (d st))"
    using assms h(1,2,6,7,8) o sl unfolding d_def by (intro parsesD [OF _ _ _ after_marks(2) [OF x(1)]]) auto
  have step: "parse_loop E (Suc n) pc (d st) =
      bnd (op E False x st) (\<lambda>st. parse_loop E n pc (c\<lparr>ptr := r, operand := k, mtok := t, vals := st\<rparr>))" for st
  proof -
    have "lex_next E (d st) = c\<lparr>ptr := r, operand := k, mtok := t, vals := st\<rparr>"
      using after_lex [OF h(3), of "d st"] by (simp add: d_def)
    then have "mathparse E n 2 (d st\<lparr>vals := st\<rparr>) = Inr (c\<lparr>ptr := r, operand := k, mtok := t, vals := st\<rparr>)"
      using h(4,6,8) depth_pos [of a] by (simp add: mathparse_def parse_stop d_def)
    moreover have "mtok (d st) = x" "errflag (d st) = errflag c" "hung (d st) = hung c" "vals (d st) = st"
      by (simp_all add: d_def)
    ultimately show ?thesis using h(1,6) x by (simp add: parse_op [where x = x] with_vals_def bnd_assoc)
  qed
  show "parse_loop E (turns (Post x a) + n) pc (lex_next E c) =
      bnd (run E (Post x a) (vals c)) (\<lambda>st. parse_loop E n pc (c\<lparr>ptr := r, operand := k, mtok := t, vals := st\<rparr>))"
    unfolding first step by (simp add: bnd_assoc)
qed

lemma parses_Bin:
  fixes E :: "('d, 'w) env"
  assumes w: "wf (Bin x l m)" and L: "parses E l" and M: "parses E m"
  shows "parses E (Bin x l m)"
proof (rule parsesI)
  fix pc and c :: "('d, 'w) expr_info" and rest t r k n
  assume h: "level (Bin x l m) \<le> pc" "pc \<le> TOPPREC" "after E rest t r k" "stop (Bin x l m) < prec t"
    "operand c = 1 \<or> operand c = 2 \<and> simple (Bin x l m)" "runs c"
    "ptr c = unparse (Bin x l m) @ rest" "depth (Bin x l m) \<le> n"
  have m: "level m \<le> rhs_prec x" "stop m \<le> rhs_prec x" using wf_right [OF w] w stop_le [of m] by auto
  have x: "binary_op x" "x \<noteq> ID" "x \<noteq> M_INPAR" "x \<noteq> QUEST" "3 \<le> prec x" using w by (auto simp: binary_op_def)
  have o: "operand c = 1" using h(5) x(5) by (simp add: simple_def)
  have sl: "stop l < prec x" using stop_less [of l x] w by simp
  define d where "d st = c\<lparr>ptr := CHR '' '' # unparse m @ rest, operand := 1, mtok := x, vals := st\<rparr>" for st
  have first: "parse_loop E (turns (Bin x l m) + n) pc (lex_next E c) =
      bnd (run E l (vals c)) (\<lambda>st. parse_loop E (Suc n) pc (d st))"
    using w L h(1,2,6,7,8) o sl unfolding d_def by (intro parsesD [OF _ _ _ after_marks(1) [OF x(1)]]) auto
  have step: "parse_loop E (Suc n) pc (d st) =
      bnd (decide E x st) (\<lambda>st2. bnd (run E m st2) (\<lambda>st3. bnd (op E False x (st3\<lparr>noeval := noeval st\<rparr>))
        (\<lambda>st. parse_loop E n pc (c\<lparr>ptr := r, operand := k, mtok := t, vals := st\<rparr>))))" for st
  proof -
    have "mathparse E n (rhs_prec x) (d st\<lparr>vals := st2\<rparr>) =
        bnd (run E m st2) (\<lambda>st3. Inr (c\<lparr>ptr := r, operand := k, mtok := t, vals := st3\<rparr>))" for st2
    proof -
      have "mathparse E n (rhs_prec x) (d st2) =
        bnd (run E m (vals (d st2))) (\<lambda>st3. Inr (d st2\<lparr>ptr := r, operand := k, mtok := t, vals := st3\<rparr>))"
        using M h x m rhs_prec_le(1) [of x] by (intro parses_part [OF _ _ _ h(3)]) (auto simp: d_def)
      then show ?thesis by (simp add: d_def)
    qed
    moreover have "mtok (d st) = x" "errflag (d st) = errflag c" "hung (d st) = hung c" "vals (d st) = st"
      by (simp_all add: d_def)
    ultimately show ?thesis using h(1,6) x by (simp add: parse_op [where x = x] with_vals_def bnd_assoc)
  qed
  show "parse_loop E (turns (Bin x l m) + n) pc (lex_next E c) =
      bnd (run E (Bin x l m) (vals c)) (\<lambda>st. parse_loop E n pc (c\<lparr>ptr := r, operand := k, mtok := t, vals := st\<rparr>))"
    unfolding first step by (simp add: bnd_assoc)
qed


lemma peek_boolean_peek:
  "bnd (peek_boolean E c) (\<lambda>(u, d). f u d) = bnd (pop_boolean E (vals c)) (\<lambda>(u, st). f u (c\<lparr>vals := push_boolean u st\<rparr>))"
  by (simp add: peek_boolean_def bnd_assoc split_def)

lemma parses_Cond:
  fixes E :: "('d, 'w) env"
  assumes w: "wf (Cond q l m)" and Q: "parses E q" and L: "parses E l" and M: "parses E m"
  shows "parses E (Cond q l m)"
proof (rule parsesI)
  fix pc and c :: "('d, 'w) expr_info" and rest t r k n
  assume h: "level (Cond q l m) \<le> pc" "pc \<le> TOPPREC" "after E rest t r k" "stop (Cond q l m) < prec t"
    "operand c = 1 \<or> operand c = 2 \<and> simple (Cond q l m)" "runs c"
    "ptr c = unparse (Cond q l m) @ rest" "depth (Cond q l m) \<le> n"
  have o: "operand c = 1" using h(5) by (simp add: simple_def)
  have sq: "stop q < 16" and sl: "stop l < 16" and sm: "stop m \<le> 16"
    using w stop_le [of q] stop_le [of l] stop_le [of m] by auto
  define d where "d st = c\<lparr>ptr := CHR '' '' # unparse l @ '': '' @ unparse m @ rest, operand := 1, mtok := QUEST, vals := st\<rparr>" for st
  define e where "e st = c\<lparr>ptr := CHR '' '' # unparse m @ rest, operand := 1, mtok := COLON, vals := st\<rparr>" for st
  define z where "z st = c\<lparr>ptr := r, operand := k, mtok := t, vals := st\<rparr>" for st
  have first: "parse_loop E (turns (Cond q l m) + n) pc (lex_next E c) =
      bnd (run E q (vals c)) (\<lambda>st. parse_loop E (Suc n) pc (d st))"
    using w Q h(1,2,6,7,8) o sq unfolding d_def by (intro parsesD [OF _ _ _ after_marks(4)]) auto
  have left: "mathparse E n 15 (d st) = bnd (run E l st) (\<lambda>st. Inr (e st))" for st
  proof -
    have "mathparse E n 15 (d st) = bnd (run E l (vals (d st))) (\<lambda>st2.
        Inr (d st\<lparr>ptr := CHR '' '' # unparse m @ rest, operand := 1, mtok := COLON, vals := st2\<rparr>))"
      using w L h sl by (intro parses_part [OF _ _ _ after_marks(5)]) (auto simp: d_def)
    then show ?thesis by (simp add: d_def e_def)
  qed
  have right: "mathparse E n 16 (e st) = bnd (run E m st) (\<lambda>st. Inr (z st))" for st
  proof -
    have "mathparse E n 16 (e st) = bnd (run E m (vals (e st))) (\<lambda>st2.
        Inr (e st\<lparr>ptr := r, operand := k, mtok := t, vals := st2\<rparr>))"
      using w M h sm by (intro parses_part [OF _ _ _ h(3)]) (auto simp: e_def)
    then show ?thesis by (simp add: e_def z_def)
  qed
  have add: "add_noeval i (d st) = d (more_noeval i st)" "add_noeval i (e st) = e (more_noeval i st)"
    "add_noeval i (z st) = z (more_noeval i st)" for i st
    by (simp_all add: add_noeval_def more_noeval_def d_def e_def z_def)
  have pick: "(if u then d a else d b) = d (if u then a else b)" "(if u then e a else e b) = e (if u then a else b)"
    "(if u then z a else z b) = z (if u then a else b)" for u a b by simp_all
  have fin: "with_vals (op E (errflag (z st)) QUEST (vals (z st))) (z st) = bnd (op E False QUEST st) (\<lambda>st. Inr (z st))" for st
    using h(6) by (simp add: with_vals_def z_def)
  have step: "parse_loop E (Suc n) pc (d st) =
      bnd (pop_boolean E st) (\<lambda>(u, st).
        bnd (run E l (if u then push_boolean u st else more_noeval 1 (push_boolean u st))) (\<lambda>st2.
          bnd (run E m (if u then more_noeval 1 st2 else more_noeval (- 1) st2)) (\<lambda>st3.
            bnd (op E False QUEST (if u then more_noeval (- 1) st3 else st3)) (\<lambda>st. parse_loop E n pc (z st)))))" for st
  proof -
    have dm: "mtok (d st) = QUEST" "runs (d st)" "vals (d st) = st" "d st\<lparr>vals := st'\<rparr> = d st'" for st'
      using h(6) by (simp_all add: d_def)
    show ?thesis
    proof (cases "pop_boolean E st")
      case (Inl a)
      then show ?thesis using h(1) by (simp add: parse_QUEST [OF dm(1,2)] peek_boolean_peek dm)
    next
      case (Inr b)
      obtain u st' where "b = (u, st')" by (cases b)
      with Inr show ?thesis using h(1)
        by (cases u; simp add: parse_QUEST [OF dm(1,2)] peek_boolean_peek dm add left right fin bnd_assoc Let_def)
    qed
  qed
  show "parse_loop E (turns (Cond q l m) + n) pc (lex_next E c) =
      bnd (run E (Cond q l m) (vals c)) (\<lambda>st. parse_loop E n pc (c\<lparr>ptr := r, operand := k, mtok := t, vals := st\<rparr>))"
    unfolding first step z_def [symmetric] by (simp add: bnd_assoc peek_def split_def)
qed

lemma parser_follows_tree: "wf a \<Longrightarrow> parses E a"
  by (induction a) (auto intro: parses_Atom parses_Par parses_Pre parses_Post parses_Bin parses_Cond)


lemma sym_pos: "binary_op x \<or> prefix_op x \<or> postfix_op x \<Longrightarrow> 1 \<le> length (sym x)"
  by (cases x) (auto simp: binary_op_def prefix_op_def postfix_op_def)

lemma turns_short: "wf a \<Longrightarrow> turns a + depth a \<le> length (unparse a) + 1"
proof (induction a)
  case (Atom s)
  then show ?case by (cases s) (auto simp: atom_ok_def Suc_le_eq)
next
  case (Bin x l r)
  then show ?case using depth_pos [of l] depth_pos [of r] sym_pos [of x] by auto
next
  case (Cond c l r)
  then show ?case using depth_pos [of c] depth_pos [of l] depth_pos [of r] by auto
next
  case (Pre x t)
  then show ?case using depth_pos [of t] sym_pos [of x] by auto
next
  case (Post x t)
  then show ?case using sym_pos [of x] by auto
qed auto

lemma stop_toplevel: "wf a \<Longrightarrow> level a \<le> 18"
  by (cases a) (auto simp: binary_op_def)

text \<open>
  C3: The parser computes what recursion on the tree computes.  For every well formed tree (the
  precedences and the directions of grouping of the operators are those of the level conditions of
  \<open>wf\<close>) the text of the tree evaluates to the result of \<open>run\<close>: operands from left to right, an
  operator after its operands, the right operand of \<open>&&\<close> and \<open>||\<close> and the branch of \<open>?:\<close> that is not
  chosen with evaluation switched off, and the same failures in the same place.
\<close>

theorem matheval_follows_tree:
  assumes "wf a"
  shows "matheval E (unparse a) args flag w =
     bnd (run E a (setup_expr_info args flag w))
       (\<lambda>st. bnd (pop_expanded E st) (\<lambda>(t, st). Inr (t, args_flag st, world st)))"
proof -
  have le: "level a \<le> 18" "stop a \<le> 18"
    using stop_toplevel [OF assms] stop_le [OF assms] by auto
  have "unparse a \<noteq> []" using turns_short [OF assms] depth_pos [of a] by (cases a) auto
  moreover have "mathparse E (length (unparse a) + 3) TOPPREC
      \<lparr>ptr = unparse a, operand = 1, mtok = M_INPAR, errflag = False, hung = False, vals = setup_expr_info args flag w\<rparr> =
    bnd (run E a (setup_expr_info args flag w))
      (\<lambda>st. Inr \<lparr>ptr = [], operand = 1, mtok = EOI, errflag = False, hung = False, vals = st\<rparr>)"
    (is "mathparse E _ _ ?c = _")
  proof -
    have "mathparse E (length (unparse a) + 3) TOPPREC ?c =
        bnd (run E a (vals ?c)) (\<lambda>st. Inr (?c\<lparr>ptr := [], operand := 1, mtok := EOI, vals := st\<rparr>))"
      using le turns_short [OF assms]
      by (intro parses_part [OF parser_follows_tree [OF assms] _ _ after_marks(6)]) auto
    then show ?thesis by simp
  qed
  ultimately show ?thesis by (simp add: matheval_def matheval_with_def bnd_assoc)
qed

lemma matheval_follows_tree_witness:
  "let a = Bin PLUS (Atom (Lit ''1'')) (Bin MUL (Par (Bin PLUS (Atom (Lit ''2'')) (Atom (Name ''x'')))) (Atom (Lit ''4'')))
   in unparse a = ''1 + ( 2 + x ) * 4 '' \<and> wf a \<and> matheval sample_env (unparse a) [] False [(''x'', ''3'')] = Inr (''21'', False, [(''x'', ''3'')])"
proof -
  define a where "a = Bin PLUS (Atom (Lit ''1'')) (Bin MUL (Par (Bin PLUS (Atom (Lit ''2'')) (Atom (Name ''x'')))) (Atom (Lit ''4'')))"
  have w: "wf a" unfolding a_def by code_simp
  have "bnd (run sample_env a (setup_expr_info [] False [(''x'', ''3'')]))
       (\<lambda>st. bnd (pop_expanded sample_env st) (\<lambda>(t, st). Inr (t, args_flag st, world st))) =
     Inr (''21'', False, [(''x'', ''3'')])"
    unfolding a_def by code_simp
  moreover have "unparse a = ''1 + ( 2 + x ) * 4 ''" by (simp add: a_def)
  ultimately show ?thesis
    using w matheval_follows_tree [OF w, of sample_env "[]" False "[(''x'', ''3'')]"] unfolding a_def Let_def by simp
qed

end
