(* ===== verification/NameList.thy ===== *)
theory NameList
  imports LinkedList
begin

section \<open>Lists of named things as sequences\<close>

text \<open>
  The lists of list.c seen from their clients: the sequence of the values of the nodes. The first
  part gives the operations on sequences and shows that the operations on the heap
  (\<open>LinkedList\<close>) do the same; the second part is what the clients rely on: on a sequence
  whose names are in order and differ in more than letter case, inserting, finding and removing
  are the operations of a finite map from folded names.
\<close>

subsection \<open>The operations of list.c on sequences\<close>

definition insert_named :: "('a \<Rightarrow> cstr) \<Rightarrow> 'a \<Rightarrow> 'a list \<Rightarrow> 'a list" where
  "insert_named nm x xs =
     takeWhile (\<lambda>y. \<not> 0 < my_stricmp (nm y) (nm x)) xs @ x # dropWhile (\<lambda>y. \<not> 0 < my_stricmp (nm y) (nm x)) xs"

definition find_named :: "('a \<Rightarrow> cstr) \<Rightarrow> cstr \<Rightarrow> 'a list \<Rightarrow> 'a option" where
  "find_named nm s xs = List.find (\<lambda>x. my_stricmp (nm x) s = 0) xs"

definition remove_named :: "('a \<Rightarrow> cstr) \<Rightarrow> cstr \<Rightarrow> 'a list \<Rightarrow> 'a list" where
  "remove_named nm s xs =
     takeWhile (\<lambda>x. my_stricmp (nm x) s \<noteq> 0) xs @ tl (dropWhile (\<lambda>x. my_stricmp (nm x) s \<noteq> 0) xs)"

text \<open>What is written through the pointer that \<open>find_in_list\<close> returns.\<close>

definition change_named :: "('a \<Rightarrow> cstr) \<Rightarrow> cstr \<Rightarrow> ('a \<Rightarrow> 'a) \<Rightarrow> 'a list \<Rightarrow> 'a list" where
  "change_named nm s f xs =
     (case dropWhile (\<lambda>x. my_stricmp (nm x) s \<noteq> 0) xs of
        [] \<Rightarrow> xs
      | x # ys \<Rightarrow> takeWhile (\<lambda>x. my_stricmp (nm x) s \<noteq> 0) xs @ f x # ys)"

lemma insert_named_simps [simp]:
  "insert_named nm x [] = [x]"
  "insert_named nm x (y # ys) = (if 0 < my_stricmp (nm y) (nm x) then x # y # ys else y # insert_named nm x ys)"
  by (simp_all add: insert_named_def)

lemma find_named_simps [simp]:
  "find_named nm s [] = None"
  "find_named nm s (x # xs) = (if my_stricmp (nm x) s = 0 then Some x else find_named nm s xs)"
  by (simp_all add: find_named_def)

lemma remove_named_simps [simp]:
  "remove_named nm s [] = []"
  "remove_named nm s (x # xs) = (if my_stricmp (nm x) s = 0 then xs else x # remove_named nm s xs)"
  by (simp_all add: remove_named_def)

lemma change_named_simps [simp]:
  "change_named nm s f [] = []"
  "change_named nm s f (x # xs) = (if my_stricmp (nm x) s = 0 then f x # xs else x # change_named nm s f xs)"
  by (simp_all add: change_named_def split: list.split)

declare insert_named_simps [code] find_named_simps [code] remove_named_simps [code] change_named_simps [code]

subsection \<open>The heap does the same\<close>

text \<open>\<open>v\<close> gives the value of a node; its name is the key of the node.\<close>

lemma map_takeWhile_dropWhile:
  assumes "\<And>x. x \<in> set xs \<Longrightarrow> P x \<longleftrightarrow> Q (v x)"
  shows "map v (takeWhile P xs) = takeWhile Q (map v xs)" "map v (dropWhile P xs) = dropWhile Q (map v xs)"
  using assms by (induction xs) auto

lemma find_map: "(\<And>x. x \<in> set xs \<Longrightarrow> P x \<longleftrightarrow> Q (v x)) \<Longrightarrow> map_option v (List.find P xs) = List.find Q (map v xs)"
  by (induction xs) auto

lemma insert_seq_named:
  assumes "\<And>x. x \<in> insert a (set xs) \<Longrightarrow> name (h x) = nm (v x)"
  shows "map v (insert_seq (\<lambda>x. 0 < add_list_stricmp (h x) (h a)) a xs) = insert_named nm (v a) (map v xs)"
proof -
  have "\<And>x. x \<in> set xs \<Longrightarrow> \<not> 0 < add_list_stricmp (h x) (h a) \<longleftrightarrow> \<not> 0 < my_stricmp (nm (v x)) (nm (v a))"
    using assms by (simp add: add_list_stricmp_def)
  note map_takeWhile_dropWhile [of xs "\<lambda>x. \<not> 0 < add_list_stricmp (h x) (h a)" "\<lambda>y. \<not> 0 < my_stricmp (nm y) (nm (v a))" v, OF this]
  then show ?thesis by (simp add: insert_seq_def insert_named_def)
qed

lemma remove_seq_named:
  assumes "\<And>x. x \<in> set xs \<Longrightarrow> name (h x) = nm (v x)"
  shows "map v (remove_seq (\<lambda>x. my_stricmp (name (h x)) s = 0) xs) = remove_named nm s (map v xs)"
    "map_option v (hd_opt (dropWhile (\<lambda>x. my_stricmp (name (h x)) s \<noteq> 0) xs)) = find_named nm s (map v xs)"
proof -
  have "\<And>x. x \<in> set xs \<Longrightarrow> my_stricmp (name (h x)) s \<noteq> 0 \<longleftrightarrow> my_stricmp (nm (v x)) s \<noteq> 0"
    using assms by simp
  note * = map_takeWhile_dropWhile [of xs "\<lambda>x. my_stricmp (name (h x)) s \<noteq> 0" "\<lambda>y. my_stricmp (nm y) s \<noteq> 0" v, OF this]
  then show "map v (remove_seq (\<lambda>x. my_stricmp (name (h x)) s = 0) xs) = remove_named nm s (map v xs)"
    by (simp add: remove_seq_def remove_named_def map_tl)
  show "map_option v (hd_opt (dropWhile (\<lambda>x. my_stricmp (name (h x)) s \<noteq> 0) xs)) = find_named nm s (map v xs)"
    using assms by (induction xs) auto
qed

lemma add_to_list_inserts:
  assumes xs: "is_list h list xs" and a: "a \<notin> set xs"
    and nm: "\<And>x. x \<in> insert a (set xs) \<Longrightarrow> name (h x) = nm (v x)"
  obtains h' list' ys where "add_to_list h list a = Some (h', list')" "is_list h' list' ys"
    "map v ys = insert_named nm (v a) (map v xs)" "\<And>x. name (h' x) = name (h x)"
proof -
  obtain h' list' where r: "add_to_list_ext add_list_stricmp h list a False = Some (h', list')"
      "is_list h' list' (insert_seq (\<lambda>x. 0 < add_list_stricmp (h x) (h a)) a xs)" "\<And>x. name (h' x) = name (h x)"
    by (rule add_to_list_ext_spec [OF xs a refl, of add_list_stricmp False]) blast
  then show thesis using insert_seq_named [of a xs h nm v, OF nm] that unfolding add_to_list_def by blast
qed

lemma add_to_list_double_inserts:
  assumes xs: "dlist h list xs" and a: "a \<notin> set xs" "prev (h a) = None"
    and nm: "\<And>x. x \<in> insert a (set xs) \<Longrightarrow> name (h x) = nm (v x)"
  obtains h' list' ys where "add_to_list_double h list a = Some (h', list')" "dlist h' list' ys"
    "map v ys = insert_named nm (v a) (map v xs)" "\<And>x. name (h' x) = name (h x)"
proof -
  have il: "is_list h list xs" "prevs h None xs" using xs by (auto simp: dlist_def)
  obtain h' list' where r: "add_to_list_ext add_list_stricmp h list a True = Some (h', list')"
      "is_list h' list' (insert_seq (\<lambda>x. 0 < add_list_stricmp (h x) (h a)) a xs)" "\<And>x. name (h' x) = name (h x)"
      "prevs h' None (insert_seq (\<lambda>x. 0 < add_list_stricmp (h x) (h a)) a xs)"
    by (rule add_to_list_ext_spec [OF il(1) a(1) refl, of add_list_stricmp True]) (use il(2) a(2) in auto)
  then show thesis using insert_seq_named [of a xs h nm v, OF nm] that
    unfolding add_to_list_double_def dlist_def by blast
qed

lemma find_in_list_finds:
  assumes "is_list h list xs" "\<And>x. x \<in> set xs \<Longrightarrow> name (h x) = nm (v x)"
  shows "\<exists>r. find_in_list h list s False = Some r \<and> map_option v r = find_named nm s (map v xs)"
  using find_in_list_spec [OF assms(1), of s] assms(2) by (auto simp: find_named_def intro!: find_map)

lemma remove_from_list_removes:
  assumes xs: "is_list h list xs" and nm: "\<And>x. x \<in> set xs \<Longrightarrow> name (h x) = nm (v x)"
  obtains h' list' ys r where "remove_from_list h list s = Some (h', list', r)" "is_list h' list' ys"
    "map v ys = remove_named nm s (map v xs)" "map_option v r = find_named nm s (map v xs)"
proof -
  have hit: "\<And>x. x \<in> set xs \<Longrightarrow>
      map_option (\<lambda>r. r = 0) (case_option list_stricmp id None (h x) s) = Some (my_stricmp (name (h x)) s = 0)"
    by (simp add: list_stricmp_def)
  obtain h' list' where "remove_from_list_ext h list s None =
      Some (h', list', hd_opt (dropWhile (\<lambda>x. \<not> my_stricmp (name (h x)) s = 0) xs))"
      "is_list h' list' (remove_seq (\<lambda>x. my_stricmp (name (h x)) s = 0) xs)"
    by (rule remove_from_list_ext_spec [OF xs hit])
  then show thesis using remove_seq_named [of xs h nm v s, OF nm] that unfolding remove_from_list_def by blast
qed

lemma remove_from_list_double_takes_out:
  assumes xs: "dlist h list xs" and nm: "\<And>x. x \<in> set xs \<Longrightarrow> name (h x) = nm (v x)"
  obtains h' list' ys r where "remove_from_list_double h list s = Some (h', list', r)" "dlist h' list' ys"
    "map v ys = remove_named nm s (map v xs)" "map_option v r = find_named nm s (map v xs)"
proof -
  obtain h' list' where "remove_from_list_double h list s =
      Some (h', list', hd_opt (dropWhile (\<lambda>x. \<not> my_stricmp (name (h x)) s = 0) xs))"
      "dlist h' list' (remove_seq (\<lambda>x. my_stricmp (name (h x)) s = 0) xs)"
    by (rule remove_from_list_double_spec [OF xs refl])
  then show thesis using remove_seq_named [of xs h nm v s, OF nm] that by blast
qed

subsection \<open>Ordered sequences are finite maps\<close>

definition key_map :: "('a \<Rightarrow> cstr) \<Rightarrow> 'a list \<Rightarrow> nat list \<rightharpoonup> 'a" where
  "key_map nm xs = map_of (map (\<lambda>x. (ckey (nm x), x)) xs)"

text \<open>In order, no two names equal up to letter case; \<open>in_order\<close> is the order alone.\<close>

definition in_order :: "('a \<Rightarrow> cstr) \<Rightarrow> 'a list \<Rightarrow> bool" where
  "in_order nm xs \<longleftrightarrow> (\<forall>x \<in> set xs. no_nul (nm x)) \<and> sorted (map (\<lambda>x. ckey (nm x)) xs)"

definition names_ok :: "('a \<Rightarrow> cstr) \<Rightarrow> 'a list \<Rightarrow> bool" where
  "names_ok nm xs \<longleftrightarrow> in_order nm xs \<and> distinct (map (\<lambda>x. ckey (nm x)) xs)"

lemma key_map_simps [simp]:
  "key_map nm [] = Map.empty" "key_map nm (x # xs) = (key_map nm xs)(ckey (nm x) \<mapsto> x)"
  by (simp_all add: key_map_def)

lemma in_order_simps [simp]:
  "in_order nm []"
  "in_order nm (x # xs) \<longleftrightarrow> no_nul (nm x) \<and> (\<forall>y \<in> set xs. ckey (nm x) \<le> ckey (nm y)) \<and> in_order nm xs"
  by (auto simp: in_order_def)

lemma names_ok_simps [simp]:
  "names_ok nm []"
  "names_ok nm (x # xs) \<longleftrightarrow> no_nul (nm x) \<and> (\<forall>y \<in> set xs. ckey (nm x) < ckey (nm y)) \<and> names_ok nm xs"
  by (auto simp: names_ok_def order.order_iff_strict)

lemma names_ok_order: "names_ok nm xs \<Longrightarrow> in_order nm xs"
  by (simp add: names_ok_def)

lemma key_map_None: "key_map nm xs k = None \<longleftrightarrow> k \<notin> (\<lambda>x. ckey (nm x)) ` set xs"
  by (simp add: key_map_def map_of_eq_None_iff image_image)

lemma find_named_map:
  "\<forall>x \<in> set xs. no_nul (nm x) \<Longrightarrow> no_nul s \<Longrightarrow> distinct (map (\<lambda>x. ckey (nm x)) xs) \<Longrightarrow>
    find_named nm s xs = key_map nm xs (ckey s)"
  by (induction xs) (auto simp: my_stricmp_zero_iff)

lemma find_named_None:
  "\<forall>x \<in> set xs. no_nul (nm x) \<Longrightarrow> no_nul s \<Longrightarrow> find_named nm s xs = None \<longleftrightarrow> ckey s \<notin> (\<lambda>x. ckey (nm x)) ` set xs"
  by (induction xs) (auto simp: my_stricmp_zero_iff)

lemma find_named_Some: "find_named nm s xs = Some x \<Longrightarrow> x \<in> set xs \<and> my_stricmp (nm x) s = 0"
  by (induction xs) (auto split: if_splits)

lemma set_insert_named [simp]: "set (insert_named nm x xs) = insert x (set xs)"
  by (induction xs) auto

lemma set_remove_named: "set (remove_named nm s xs) \<subseteq> set xs"
  by (induction xs) auto

lemma in_order_insert: "in_order nm xs \<Longrightarrow> no_nul (nm x) \<Longrightarrow> in_order nm (insert_named nm x xs)"
  by (induction xs) (auto simp: my_stricmp_greater_iff intro: order.strict_implies_order)

lemma named_order_remove: "in_order nm xs \<Longrightarrow> in_order nm (remove_named nm s xs)"
  using set_remove_named by (induction xs) fastforce+

lemma names_ok_insert:
  "names_ok nm xs \<Longrightarrow> no_nul (nm x) \<Longrightarrow> key_map nm xs (ckey (nm x)) = None \<Longrightarrow> names_ok nm (insert_named nm x xs)"
  by (induction xs) (auto simp: my_stricmp_greater_iff split: if_splits)

lemma names_ok_remove: "names_ok nm xs \<Longrightarrow> names_ok nm (remove_named nm s xs)"
  using set_remove_named by (induction xs) fastforce+

lemma key_map_insert:
  "\<forall>y \<in> set xs. no_nul (nm y) \<Longrightarrow> no_nul (nm x) \<Longrightarrow> key_map nm xs (ckey (nm x)) = None \<Longrightarrow>
    key_map nm (insert_named nm x xs) = (key_map nm xs)(ckey (nm x) \<mapsto> x)"
  by (induction xs) (auto simp: fun_upd_twist split: if_splits)

lemma key_map_remove:
  "names_ok nm xs \<Longrightarrow> no_nul s \<Longrightarrow> key_map nm (remove_named nm s xs) = (key_map nm xs)(ckey s := None)"
proof (induction xs)
  case (Cons x xs)
  then have "key_map nm xs (ckey (nm x)) = None" by (auto simp: key_map_None)
  with Cons show ?case by (auto simp: my_stricmp_zero_iff fun_upd_twist fun_eq_iff)
qed (simp add: fun_eq_iff)

lemma map_change_named: "(\<And>x. nm (f x) = nm x) \<Longrightarrow> map nm (change_named nm s f xs) = map nm xs"
  by (induction xs) auto

lemma names_ok_map: "names_ok nm xs = names_ok id (map nm xs)" "in_order nm xs = in_order id (map nm xs)"
  by (induction xs) auto

lemma names_ok_change [simp]:
  assumes "\<And>x. nm (f x) = nm x"
  shows "names_ok nm (change_named nm s f xs) = names_ok nm xs" "in_order nm (change_named nm s f xs) = in_order nm xs"
  using map_change_named [of nm f s xs, OF assms] names_ok_map [of nm] by metis+

lemma key_map_change:
  assumes "\<And>x. nm (f x) = nm x"
  shows "names_ok nm xs \<Longrightarrow> no_nul s \<Longrightarrow>
    key_map nm (change_named nm s f xs) = (key_map nm xs)(ckey s := map_option f (key_map nm xs (ckey s)))"
proof (induction xs)
  case (Cons x xs)
  then show ?case
    by (cases "ckey (nm x) = ckey s") (auto simp: my_stricmp_zero_iff assms fun_eq_iff)
qed (simp add: fun_eq_iff)

end
