(* ===== verification/Channels.thy ===== *)
theory Channels
  imports NameList Args Flood
begin

section \<open>Channels and their members (source/napster.c)\<close>

text \<open>
  The channels of the windows, the nicks on them, and the handlers of the messages of the server
  that change them. Windows are the sequence in which \<open>traverse_all_windows\<close> visits them.
  Writing to the screen is left out; hooks and the grabbing of addresses from texts are functions of
  the parameter \<open>nap_env\<close> on the rest of the client, of type \<open>'w\<close>. A handler that dereferences
  NULL, reads outside a table or uses a variable that was never set has the result \<open>None\<close>.
\<close>

subsection \<open>State\<close>

record nick_struct =
  nname :: cstr
  speed :: int
  shared :: int

record channel_struct =
  cname :: cstr
  topic :: "cstr option"
  injoin :: bool
  cserver :: int
  nicks :: "nick_struct list"

record window =
  wserver :: int
  last_server :: int
  nchannels :: "channel_struct list"
  oldchannels :: "channel_struct list"
  waiting_channels :: "channel_struct list"
  current_channel :: "cstr option"

text \<open>What goes to the server: a numbered command, or a line in IRC mode.\<close>

datatype message = Command int cstr | Line cstr

record 'w client =
  windows :: "window list"
  current_window :: nat
  nap_hotlist :: "nick_struct list"
  ignores :: "cstr list"
  cignores :: "cstr list"
  floods_seen :: flood_state
  channel_count :: int
  nick_count :: int
  listmode :: "cstr option"
  sent :: "message list"
  outside :: 'w

datatype hook =
    CHANNEL_JOIN_LIST | LEAVE_LIST | TOPIC_LIST | JOIN_LIST | NAMES_LIST | PUBLIC_LIST
  | PUBLIC_OTHER_LIST | LIST_LIST | SWITCH_CHANNELS_LIST | HOTLIST_LIST | NUMERIC int | ERROR_LIST

text \<open>
  \<open>names_nickcolor\<close> is the setting \<open>NAMES_NICKCOLOR\<close>, the format of a nick in a list of members, which is
  NULL when it has been taken away.
\<close>

record 'w nap_env =
  fl :: flood_env
  my_nick :: cstr
  run_hook :: "hook \<Rightarrow> cstr \<Rightarrow> 'w \<Rightarrow> int \<times> 'w"
  grab_http :: "cstr \<Rightarrow> cstr \<Rightarrow> cstr \<Rightarrow> 'w \<Rightarrow> 'w"
  show_channel_names :: bool
  names_nickcolor :: "cstr option"
  irc_mode :: bool

type_synonym 'w handler = "'w nap_env \<Rightarrow> cstr \<Rightarrow> 'w client \<Rightarrow> 'w client option"

abbreviation this_server :: "'w nap_env \<Rightarrow> int" where
  "this_server E \<equiv> from_server (fl E)"

definition do_hook :: "'w nap_env \<Rightarrow> hook \<Rightarrow> cstr \<Rightarrow> 'w client \<Rightarrow> int \<times> 'w client" where
  "do_hook E k s st = (case run_hook E k s (outside st) of (r, w) \<Rightarrow> (r, st\<lparr>outside := w\<rparr>))"

definition new_nick :: "cstr \<Rightarrow> nick_struct" where
  "new_nick s = \<lparr>nname = s, speed = 0, shared = 0\<rparr>"

definition new_channel :: "cstr \<Rightarrow> channel_struct" where
  "new_channel s = \<lparr>cname = s, topic = None, injoin = False, cserver = 0, nicks = []\<rparr>"

subsection \<open>Tables\<close>

definition MAX_SPEED :: int where "MAX_SPEED = 10"

definition n_speed_table :: "cstr list" where
  "n_speed_table =
     [''?'', ''14.4'', ''28.8'', ''33.6'', ''56k'', ''64k ISDN'', ''128k ISDN'', ''Cable'', ''DSL'', ''T1'', ''T3 >'']"

definition n_speed :: "int \<Rightarrow> cstr option" where
  "n_speed i =
     (let j = (if MAX_SPEED < i then MAX_SPEED else i)
      in if j < 0 then None else Some (n_speed_table ! nat j))"

definition class_table :: "cstr list" where
  "class_table = [''Leech'', ''User'', ''Mod'', ''Admin'', ''Elite'', []]"

definition user_class :: "int \<Rightarrow> cstr option" where
  "user_class i = (if 0 \<le> i \<and> i < 6 then Some (class_table ! nat i) else None)"

definition to_ulong :: "int \<Rightarrow> int" where
  "to_ulong i = i mod 18446744073709551616"

text \<open>A NULL argument of \<open>%s\<close>.\<close>

definition fmt_s :: "cstr option \<Rightarrow> cstr" where
  "fmt_s s = (case s of None \<Rightarrow> ''(null)'' | Some t \<Rightarrow> t)"

subsection \<open>Ignore lists (commands.c)\<close>

definition check_nignore :: "'w client \<Rightarrow> cstr \<Rightarrow> bool" where
  "check_nignore st s = (find_named id s (ignores st) \<noteq> None)"

definition check_cignore :: "'w client \<Rightarrow> cstr \<Rightarrow> bool" where
  "check_cignore st s = (find_named id s (cignores st) \<noteq> None)"

subsection \<open>Windows\<close>

fun first_window :: "(window \<Rightarrow> bool) \<Rightarrow> window list \<Rightarrow> nat option" where
  "first_window P [] = None"
| "first_window P (w # ws) = (if P w then Some 0 else map_option Suc (first_window P ws))"

definition change_window :: "nat \<Rightarrow> (window \<Rightarrow> window) \<Rightarrow> 'w client \<Rightarrow> 'w client" where
  "change_window i f st = st\<lparr>windows := (windows st)[i := f (windows st ! i)]\<rparr>"

definition has_channel :: "cstr \<Rightarrow> window \<Rightarrow> bool" where
  "has_channel chan w = (find_named cname chan (nchannels w) \<noteq> None)"

definition find_channel :: "'w nap_env \<Rightarrow> cstr \<Rightarrow> 'w client \<Rightarrow> nat option" where
  "find_channel E chan st = first_window (\<lambda>w. wserver w = this_server E \<and> has_channel chan w) (windows st)"

definition change_channel :: "nat \<Rightarrow> cstr \<Rightarrow> (channel_struct \<Rightarrow> channel_struct) \<Rightarrow> 'w client \<Rightarrow> 'w client" where
  "change_channel i chan f = change_window i (\<lambda>w. w\<lparr>nchannels := change_named cname chan f (nchannels w)\<rparr>)"

text \<open>\<open>is_current_channel\<close> (window.c) without its deletion.\<close>

definition is_current_channel :: "cstr \<Rightarrow> int \<Rightarrow> 'w client \<Rightarrow> bool" where
  "is_current_channel chan srv st =
     (\<exists>w \<in> set (windows st). wserver w = srv \<and>
        (case current_channel w of None \<Rightarrow> False | Some c \<Rightarrow> my_stricmp chan c = 0))"

definition channel_at :: "nat \<Rightarrow> cstr \<Rightarrow> 'w client \<Rightarrow> channel_struct option" where
  "channel_at i chan st = find_named cname chan (nchannels (windows st ! i))"

subsection \<open>Joining and leaving\<close>

text \<open>
  The search of \<open>cmd_joined\<close>: the channel is already there, it is waited for in a window, or no
  window of the server waits for it; \<open>Unset\<close> when there is no window of the server, so that the
  variable \<open>new\<close> is never set.
\<close>

datatype joining = Already | Waiting nat | Nowhere | Unset

fun later :: "joining \<Rightarrow> joining" where
  "later (Waiting i) = Waiting (Suc i)"
| "later p = p"

fun join_place :: "int \<Rightarrow> cstr \<Rightarrow> bool \<Rightarrow> window list \<Rightarrow> joining" where
  "join_place srv chan seen [] = (if seen then Nowhere else Unset)"
| "join_place srv chan seen (w # ws) =
     (if wserver w \<noteq> srv then later (join_place srv chan seen ws)
      else if has_channel chan w then Already
      else if find_named cname chan (waiting_channels w) \<noteq> None then Waiting 0
      else later (join_place srv chan True ws))"

text \<open>
  After the loop \<open>tmp\<close> is the last window, because \<open>traverse_all_windows\<close> leaves the pointer where
  it is; the test for NULL that should choose the current window is never true.
\<close>

definition enter_channel :: "'w nap_env \<Rightarrow> nat \<Rightarrow> cstr \<Rightarrow> 'w client \<Rightarrow> 'w client" where
  "enter_channel E i chan st =
     (let new = (new_channel chan)\<lparr>injoin := True, cserver := this_server E\<rparr>;
          st1 = change_window i (\<lambda>w. w\<lparr>nchannels := insert_named cname new (nchannels w)\<rparr>) st;
          (r, st2) = do_hook E CHANNEL_JOIN_LIST chan st1
      in change_window i (\<lambda>w. w\<lparr>current_channel := Some chan\<rparr>) st2)"

definition cmd_joined :: "'w handler" where
  "cmd_joined E args st =
     (case fst (next_arg args) of
        None \<Rightarrow> Some st
      | Some chan \<Rightarrow>
          (case join_place (this_server E) chan False (windows st) of
             Already \<Rightarrow> Some st
           | Waiting i \<Rightarrow>
               Some (enter_channel E i chan
                 (change_window i (\<lambda>w. w\<lparr>waiting_channels := remove_named cname chan (waiting_channels w)\<rparr>) st))
           | Nowhere \<Rightarrow> Some (enter_channel E (length (windows st) - 1) chan st)
           | Unset \<Rightarrow> None))"

definition next_named :: "cstr \<Rightarrow> channel_struct list \<Rightarrow> channel_struct" where
  "next_named s chs =
     (case tl (dropWhile (\<lambda>c. my_stricmp (cname c) s \<noteq> 0) chs) of [] \<Rightarrow> hd chs | c # _ \<Rightarrow> c)"

text \<open>The search is in the window given, but for the channel of the current window.\<close>

definition switch_channels_window :: "'w nap_env \<Rightarrow> nat \<Rightarrow> 'w client \<Rightarrow> 'w client option" where
  "switch_channels_window E i st =
     (let w = windows st ! i; chs = nchannels w;
          finish = (\<lambda>cur. let st1 = change_window i (\<lambda>w. w\<lparr>current_channel := cur\<rparr>) st
                     in Some (snd (do_hook E SWITCH_CHANNELS_LIST (case cur of None \<Rightarrow> ''none'' | Some c \<Rightarrow> c) st1)))
      in if chs = [] then Some st
         else case current_channel w of
             None \<Rightarrow> finish (Some (cname (hd chs)))
           | Some c \<Rightarrow>
               (case current_channel (windows st ! current_window st) of
                  None \<Rightarrow> None
                | Some cc \<Rightarrow>
                    if find_named cname cc chs = None then finish (Some c)
                    else finish (Some (cname (next_named cc chs)))))"

definition switch_channels :: "'w nap_env \<Rightarrow> 'w client \<Rightarrow> 'w client option" where
  "switch_channels E st =
     (if nchannels (windows st ! current_window st) \<noteq> [] then switch_channels_window E (current_window st) st else Some st)"

text \<open>\<open>my_stricmp\<close> dereferences the current channel, which may be NULL.\<close>

definition cmd_partchannel :: "'w handler" where
  "cmd_partchannel E args st =
     (case fst (next_arg args) of
        None \<Rightarrow> Some st
      | Some chan \<Rightarrow>
          (case find_channel E chan st of
             None \<Rightarrow> Some st
           | Some i \<Rightarrow>
               let st1 = change_window i (\<lambda>w. w\<lparr>nchannels := remove_named cname chan (nchannels w)\<rparr>) st;
                   leave = (\<lambda>st. Some (snd (do_hook E LEAVE_LIST (joinw [my_nick E, chan]) st)))
               in case current_channel (windows st ! i) of
                    None \<Rightarrow> None
                  | Some cur \<Rightarrow>
                      if my_stricmp chan cur = 0
                      then Option.bind
                        (switch_channels_window E i (change_window i (\<lambda>w. w\<lparr>current_channel := None\<rparr>) st1)) leave
                      else leave st1))"

text \<open>What a handler shows of a speed needs its place in the tables.\<close>

definition show_speed :: "bool \<Rightarrow> int \<Rightarrow> 'w client \<Rightarrow> 'w client option" where
  "show_speed b i st = (if b \<and> n_speed i = None then None else Some st)"

definition cmd_parted :: "'w handler" where
  "cmd_parted E args st =
     (case next_arg args of
        (None, _) \<Rightarrow> Some st
      | (Some chan, a1) \<Rightarrow>
          (case find_channel E chan st of
             None \<Rightarrow> Some st
           | Some i \<Rightarrow>
               (case next_arg a1 of
                  (None, _) \<Rightarrow> Some st
                | (Some who, a2) \<Rightarrow>
                    (case Option.bind (channel_at i chan st) (\<lambda>ch. find_named nname who (nicks ch)) of
                       None \<Rightarrow> Some st
                     | Some n \<Rightarrow>
                         let st1 = change_channel i chan (\<lambda>ch. ch\<lparr>nicks := remove_named nname who (nicks ch)\<rparr>) st;
                             (shw, a3) = next_arg a2;
                             sh = to_int32 (my_atol shw); sp = to_int32 (my_atol (Some a3));
                             (r, st2) = do_hook E LEAVE_LIST (joinw [chan, who, ltoa sh, ltoa sp]) st1
                         in show_speed (r \<noteq> 0 \<and> \<not> check_cignore st2 chan \<and> \<not> check_nignore st2 who) sp st2))))"

definition cmd_topic :: "'w handler" where
  "cmd_topic E args st =
     (case next_arg args of
        (None, _) \<Rightarrow> Some st
      | (Some chan, rest) \<Rightarrow>
          (case find_channel E chan st of
             None \<Rightarrow> Some st
           | Some i \<Rightarrow>
               Some (snd (do_hook E TOPIC_LIST (joinw [chan, rest])
                 (change_channel i chan (\<lambda>ch. ch\<lparr>topic := Some rest\<rparr>) st)))))"

subsection \<open>Members\<close>

text \<open>A nick that is not on the channel yet is entered; its number of files and speed are set.\<close>

definition put_nick :: "cstr \<Rightarrow> int \<Rightarrow> int \<Rightarrow> nick_struct list \<Rightarrow> nick_struct list" where
  "put_nick who sh sp ns =
     change_named nname who (\<lambda>n. n\<lparr>shared := sh, speed := sp\<rparr>)
       (if find_named nname who ns = None then insert_named nname (new_nick who) ns else ns)"

definition cmd_names :: "'w handler" where
  "cmd_names E args st =
     (let (ch, a1) = next_arg args; (nk, a2) = next_arg a1
      in case (ch, nk) of
           (Some chan, Some who) \<Rightarrow>
             (case find_channel E chan st of
                None \<Rightarrow> Some st
              | Some i \<Rightarrow>
                  let (shw, a3) = next_arg a2;
                      sh = to_ulong (my_atol shw); sp = to_int32 (my_atol (Some a3));
                      st1 = change_channel i chan (\<lambda>ch. ch\<lparr>nicks := put_nick who sh sp (nicks ch)\<rparr>) st
                  in Option.bind (check_flooding (fl E) (floods_seen st1) who (Some chan) JOIN_FLOOD) (\<lambda>(fs, _).
                       let st2 = st1\<lparr>floods_seen := fs\<rparr>
                       in if (case channel_at i chan st2 of None \<Rightarrow> True | Some ch \<Rightarrow> injoin ch) then Some st2
                          else let (r, st3) = do_hook E JOIN_LIST (joinw [chan, who, ltoa sh, ltoa sp]) st2
                               in show_speed (r \<noteq> 0 \<and> \<not> check_cignore st3 chan \<and> \<not> check_nignore st3 who) sp st3))
         | _ \<Rightarrow> Some st)"

fun select_nicks :: "cstr option \<Rightarrow> nick_struct list \<Rightarrow> nick_struct list option" where
  "select_nicks pat [] = Some []"
| "select_nicks pat (n # ns) =
     Option.bind (case pat of None \<Rightarrow> Some 1 | Some p \<Rightarrow> wild_match p (nname n)) (\<lambda>r.
       map_option (\<lambda>ms. if r = 0 then ms else n # ms) (select_nicks pat ns))"

definition names_text :: "nick_struct list \<Rightarrow> cstr option" where
  "names_text ns =
     (if ns = [] then None else Some (joinw (concat (map (\<lambda>n. [nname n, ltoa (speed n), ltoa (shared n)]) ns))))"

text \<open>
  The colour of the speed is written over seven blanks of the format, when it has them. What is
  printed is left out: the format takes the nick as its only argument, and the buffers are large enough.
\<close>

fun color_gap :: "cstr \<Rightarrow> bool" where
  "color_gap [] = False"
| "color_gap (c # s) = (take 7 (c # s) = replicate 7 (CHR '' '') \<or> color_gap s)"

definition name_print ::
  "'w nap_env \<Rightarrow> nick_struct list \<Rightarrow> bool \<Rightarrow> cstr option \<Rightarrow> 'w client \<Rightarrow> 'w client option" where
  "name_print E ns hotlist pat st =
     Option.bind (select_nicks pat ns) (\<lambda>ms.
       let (r, st1) = do_hook E NAMES_LIST (joinw [ltoa (int (length ms)), fmt_s (names_text ms)]) st
       in if r < 1 \<or> hotlist \<or> ms = [] then Some st1
          else case names_nickcolor E of
                 None \<Rightarrow> None
               | Some fmt \<Rightarrow> if color_gap fmt \<and> (\<exists>n \<in> set ms. n_speed (speed n) = None) then None else Some st1)"

definition cmd_endnames :: "'w handler" where
  "cmd_endnames E args st =
     (case fst (next_arg args) of
        None \<Rightarrow> Some st
      | Some chan \<Rightarrow>
          if windows st = [] then None
          else
            let i = (case find_channel E chan st of Some i \<Rightarrow> i | None \<Rightarrow> length (windows st) - 1);
                enter = (\<lambda>st. change_window i (\<lambda>w. w\<lparr>current_channel := Some chan\<rparr>) st)
            in case channel_at i chan st of
                 None \<Rightarrow> Some (enter st)
               | Some ch \<Rightarrow>
                   let st1 = change_channel i chan (\<lambda>ch. ch\<lparr>injoin := False\<rparr>) st
                   in map_option enter
                        (if show_channel_names E then name_print E (nicks ch) False None st1 else Some st1))"

definition cmd_public :: "'w handler" where
  "cmd_public E args st =
     (let (ch, a1) = next_arg args; (nk, a2) = next_arg a1
      in case (ch, nk) of
           (Some chan, Some who) \<Rightarrow>
             if check_nignore st who \<or> check_cignore st chan then Some st
             else
               Option.bind
                 (if my_stricmp who (my_nick E) = 0 then Some st
                  else map_option (\<lambda>(fs, _). st\<lparr>floods_seen := fs\<rparr>)
                    (check_flooding (fl E) (floods_seen st) who (Some chan) PUBLIC_FLOOD)) (\<lambda>st1.
                 let st2 = st1\<lparr>outside := grab_http E who chan a2 (outside st1)\<rparr>
                 in if is_current_channel chan (this_server E) st2
                    then Some (snd (do_hook E PUBLIC_LIST (joinw [who, chan, a2]) st2))
                    else Some (snd (do_hook E PUBLIC_OTHER_LIST (joinw [who, chan, a2]) st2)))
         | _ \<Rightarrow> Some st)"

subsection \<open>Lists of channels\<close>

definition cmd_endchannel :: "'w handler" where
  "cmd_endchannel E args st =
     Some ((snd (do_hook E LIST_LIST ''End of channel'' st))\<lparr>nick_count := 0, channel_count := 0\<rparr>)"

definition list_heading :: "'w nap_env \<Rightarrow> cstr \<Rightarrow> 'w client \<Rightarrow> 'w client" where
  "list_heading E s st = (if channel_count st = 0 then snd (do_hook E LIST_LIST s st) else st)"

definition count_channel :: "cstr option \<Rightarrow> 'w client \<Rightarrow> 'w client" where
  "count_channel num st =
     st\<lparr>nick_count := to_int32 (nick_count st + my_atol num), channel_count := to_int32 (channel_count st + 1)\<rparr>"

definition cmd_channellist :: "'w handler" where
  "cmd_channellist E args st =
     (let (nm, a1) = next_arg args; (num, a2) = next_arg a1;
          st1 = list_heading E ''Num Channel Topic'' st;
          (r, st2) = do_hook E LIST_LIST (joinw [fmt_s num, fmt_s nm, a2]) st1
      in Some (count_channel num st2))"

definition cmd_newendchannel :: "'w handler" where
  "cmd_newendchannel E args st =
     (let st1 = (if listmode st = None \<or> channel_count st \<noteq> 0 then snd (do_hook E LIST_LIST ''End of channel'' st) else st)
      in Some (st1\<lparr>nick_count := 0, channel_count := 0, listmode := None\<rparr>))"

text \<open>The class of a channel's level is looked up when the line is shown.\<close>

definition cmd_newchannellist :: "'w handler" where
  "cmd_newchannellist E args st =
     (let (nm, a1) = next_arg args; (num, a2) = next_arg a1; (unk, a3) = next_arg a2;
          (lev, a4) = next_arg a3; (lim, a5) = next_arg a4
      in Option.bind (case listmode st of
            None \<Rightarrow> Some 1
          | Some p \<Rightarrow> Option.bind nm (wild_match p)) (\<lambda>m.
          if m = 0 then Some st
          else
            let st1 = list_heading E ''Num Limit ? Level Channel Topic'' st;
                (r, st2) = do_hook E LIST_LIST (joinw [fmt_s num, fmt_s lim, fmt_s unk, fmt_s lev, fmt_s nm, a5]) st1
            in if r \<noteq> 0 \<and> user_class (my_atol lev) = None then None else Some (count_channel num st2)))"

subsection \<open>Losing and regaining the server\<close>

abbreviation CMDS_JOIN :: int where "CMDS_JOIN \<equiv> 400"
abbreviation CMDS_ADDHOTLISTSEQ :: int where "CMDS_ADDHOTLISTSEQ \<equiv> 208"

definition change_windows :: "(window \<Rightarrow> bool) \<Rightarrow> (window \<Rightarrow> window) \<Rightarrow> 'w client \<Rightarrow> 'w client" where
  "change_windows P f st = st\<lparr>windows := map (\<lambda>w. if P w then f w else w) (windows st)\<rparr>"

definition clear_nicks :: "int \<Rightarrow> 'w client \<Rightarrow> 'w client" where
  "clear_nicks srv =
     change_windows (\<lambda>w. wserver w = srv)
       (\<lambda>w. w\<lparr>nchannels := map (\<lambda>ch. ch\<lparr>nicks := [], injoin := False\<rparr>) (nchannels w)\<rparr>)"

definition clear_nchannels :: "int \<Rightarrow> 'w client \<Rightarrow> 'w client" where
  "clear_nchannels srv = change_windows (\<lambda>w. wserver w = srv) (\<lambda>w. w\<lparr>nchannels := []\<rparr>)"

text \<open>The part of \<open>close_server\<close> (server.c) about channels, nicks and windows.\<close>

definition close_server_channels :: "int \<Rightarrow> 'w client \<Rightarrow> 'w client" where
  "close_server_channels srv st =
     (let st1 = clear_nicks srv (st\<lparr>nick_count := 0, channel_count := 0\<rparr>);
          st2 = st1\<lparr>nap_hotlist := map (\<lambda>n. n\<lparr>speed := - 1\<rparr>) (nap_hotlist st1)\<rparr>
      in change_windows (\<lambda>w. wserver w = srv)
           (\<lambda>w. w\<lparr>wserver := - 1, last_server := srv,
                  oldchannels := map (\<lambda>ch. ch\<lparr>injoin := True\<rparr>) (nchannels w), nchannels := [],
                  current_channel := None\<rparr>) st2)"

definition join_message :: "'w nap_env \<Rightarrow> channel_struct \<Rightarrow> message" where
  "join_message E ch = (if irc_mode E then Line (''JOIN '' @ cname ch) else Command CMDS_JOIN (cname ch))"

definition hotlist_window :: "window \<Rightarrow> window" where
  "hotlist_window w =
     w\<lparr>current_channel := (if oldchannels w = [] then current_channel w else Some (cname (last (oldchannels w)))),
       waiting_channels := map (\<lambda>ch. ch\<lparr>injoin := True\<rparr>) (oldchannels w), oldchannels := []\<rparr>"

text \<open>Sharing the files afterwards is left out.\<close>

definition send_hotlist :: "'w nap_env \<Rightarrow> 'w client \<Rightarrow> 'w client" where
  "send_hotlist E st =
     (let P = (\<lambda>w. wserver w = - 1 \<or> wserver w = this_server E);
          st1 = st\<lparr>sent := sent st @ map (\<lambda>n. Command CMDS_ADDHOTLISTSEQ (nname n)) (nap_hotlist st)
                   @ map (join_message E) (concat (map oldchannels (filter P (windows st)))),
                   nap_hotlist := map (\<lambda>n. n\<lparr>speed := 0\<rparr>) (nap_hotlist st)\<rparr>
      in change_windows P hotlist_window st1)"

definition attach :: "int \<Rightarrow> window \<Rightarrow> window" where
  "attach srv w = w\<lparr>wserver := srv, last_server := - 1\<rparr>"

text \<open>
  \<open>auto_reconnect\<close> (server.c) without the timer it runs on; the flag says that it is to be tried
  again. Opening the connection and logging in is the parameter \<open>connect\<close>; for a connection that is
  opened at once it is \<open>login_to_server\<close>.
\<close>

definition auto_reconnect ::
  "(int \<Rightarrow> 'w client \<Rightarrow> int \<times> 'w client) \<Rightarrow> int \<Rightarrow> int \<Rightarrow> 'w client \<Rightarrow> bool \<times> 'w client" where
  "auto_reconnect connect number_of_servers srv st =
     (let (rc, st1) =
        (case first_window (\<lambda>w. srv < number_of_servers \<and> wserver w = - 1 \<and> last_server w \<noteq> - 1 \<and> last_server w = srv)
                (windows st) of
           None \<Rightarrow> (- 1, st)
         | Some i \<Rightarrow> (case connect srv st of (rc, st') \<Rightarrow>
                       (rc, if - 1 < rc then change_window i (attach srv) st' else st')))
      in if rc = - 1 \<and> srv < number_of_servers then (True, st1)
         else (False, change_windows (\<lambda>w. last_server w \<noteq> - 1 \<and> last_server w = srv) (attach srv) st1))"

text \<open>
  \<open>window_check_servers\<close> (window.c): a server with windows that is not connected is closed. The first of
  its windows is then told that its last server is the one it has after the closing, which is none.
\<close>

definition check_server :: "(int \<Rightarrow> bool) \<Rightarrow> int \<Rightarrow> 'w client \<Rightarrow> 'w client" where
  "check_server connected i st =
     (if connected i then st
      else case first_window (\<lambda>w. wserver w = i) (windows st) of
             None \<Rightarrow> st
           | Some j \<Rightarrow> change_window j (\<lambda>w. w\<lparr>last_server := wserver w, wserver := - 1\<rparr>) (close_server_channels i st))"

definition window_check_servers :: "(int \<Rightarrow> bool) \<Rightarrow> nat \<Rightarrow> 'w client \<Rightarrow> 'w client" where
  "window_check_servers connected number_of_servers = fold (check_server connected) (map int [0..<number_of_servers])"

text \<open>
  \<open>set_window_server\<close> (window.c), by the window that \<open>get_window_by_refnum\<close> finds; for the number -1
  it finds none and the current window is taken. With \<open>misc\<close> all windows of the server of that
  window get the new one.
\<close>

definition set_window_server :: "(int \<Rightarrow> bool) \<Rightarrow> nat \<Rightarrow> nat option \<Rightarrow> int \<Rightarrow> bool \<Rightarrow> 'w client \<Rightarrow> 'w client" where
  "set_window_server connected number_of_servers win srv misc st =
     (let i = (case win of Some i \<Rightarrow> i | None \<Rightarrow> current_window st);
          old = wserver (windows st ! i);
          st1 = (if misc then change_windows (\<lambda>w. wserver w = old) (\<lambda>w. w\<lparr>wserver := srv\<rparr>) st
                 else change_window i (\<lambda>w. w\<lparr>wserver := srv\<rparr>) st)
      in window_check_servers connected number_of_servers st1)"

text \<open>
  What \<open>login_to_server\<close> (server.c) does to windows and channels: the messages of the login itself and
  its settings are left out.
\<close>

definition login_to_server :: "(int \<Rightarrow> bool) \<Rightarrow> nat \<Rightarrow> 'w nap_env \<Rightarrow> int \<Rightarrow> 'w client \<Rightarrow> int \<times> 'w client" where
  "login_to_server connected number_of_servers E srv st =
     (srv, set_window_server connected number_of_servers None srv True (send_hotlist E st))"

text \<open>
  \<open>add_waiting_channel\<close> (window.c): the window that is bound to the channel, or the given one. A
  window without a server keeps the channel for later.
\<close>

definition add_waiting_channel :: "(cstr \<Rightarrow> int \<Rightarrow> nat option) \<Rightarrow> nat \<Rightarrow> cstr \<Rightarrow> 'w client \<Rightarrow> 'w client" where
  "add_waiting_channel bound i chan st =
     (let new = (new_channel chan)\<lparr>cserver := wserver (windows st ! i)\<rparr>;
          j = (case bound chan (wserver (windows st ! i)) of None \<Rightarrow> i | Some j \<Rightarrow> j)
      in change_window j (\<lambda>w. if wserver w \<noteq> - 1
             then w\<lparr>waiting_channels := insert_named cname new (waiting_channels w)\<rparr>
             else w\<lparr>oldchannels := insert_named cname new (oldchannels w)\<rparr>) st)"

text \<open>
  \<open>move_window_channels\<close> for a window that \<open>delete_window\<close> has unlinked, so that the traversal does
  not come to it. Again \<open>tmp\<close> is the last window when no other window of the server is found.
\<close>

definition move_window_channels :: "window \<Rightarrow> 'w client \<Rightarrow> 'w client" where
  "move_window_channels win st =
     (if wserver win < 0 \<or> nchannels win = [] \<or> windows st = [] then st
      else
        let j = (case first_window (\<lambda>w. wserver w = wserver win) (windows st) of
                   Some j \<Rightarrow> j | None \<Rightarrow> length (windows st) - 1)
        in change_window j (\<lambda>w. w\<lparr>nchannels := fold (insert_named cname) (nchannels win) (nchannels w)\<rparr>) st)"

subsection \<open>The hot list\<close>

text \<open>A missing nick is NULL, which the comparison with the first entry dereferences.\<close>

definition cmd_hotlist :: "'w handler" where
  "cmd_hotlist E args st =
     (case next_arg args of
        (None, _) \<Rightarrow> if nap_hotlist st = [] then Some st else None
      | (Some who, a1) \<Rightarrow>
          (case find_named nname who (nap_hotlist st) of
             None \<Rightarrow> Some st
           | Some n \<Rightarrow>
               let sp = to_int32 (my_atol (fst (next_arg a1)));
                   st1 = st\<lparr>nap_hotlist := change_named nname who (\<lambda>n. n\<lparr>speed := sp\<rparr>) (nap_hotlist st)\<rparr>;
                   (r, st2) = do_hook E HOTLIST_LIST (joinw [nname n, ltoa sp, ''ON'']) st1
               in show_speed (r \<noteq> 0) sp st2))"

definition cmd_hotlisterror :: "'w handler" where
  "cmd_hotlisterror E args st = Some (st\<lparr>nap_hotlist := remove_named nname args (nap_hotlist st)\<rparr>)"

definition cmd_offline :: "'w handler" where
  "cmd_offline E args st =
     (case find_named nname args (nap_hotlist st) of
        None \<Rightarrow> Some st
      | Some n \<Rightarrow> Some (snd (do_hook E HOTLIST_LIST (joinw [nname n, ''OFF'']) st)))"

end
