(* ===== verification/ChannelRoster.thy ===== *)
theory ChannelRoster
  imports Channels
begin

section \<open>Channels: the handlers keep the roster of the server\<close>

text \<open>
  What the windows together say about a server: a map from folded channel names to maps from folded
  nicks to files and speed. Shown: the handlers of the messages about channels keep the lists in
  order and do to this map what the messages say; they return for messages without negative speeds;
  a lost and regained connection brings the channels back to their windows; and the places where the
  traversal of the windows leaves a channel in a window of another server.
\<close>

subsection \<open>Windows and their channels\<close>

lemma first_window_None: "first_window P ws = None \<longleftrightarrow> (\<forall>w \<in> set ws. \<not> P w)"
  by (induction ws) auto

lemma first_window_Some:
  "first_window P ws = Some i \<Longrightarrow> \<exists>us w vs. ws = us @ w # vs \<and> length us = i \<and> P w \<and> (\<forall>u \<in> set us. \<not> P u)"
proof (induction ws arbitrary: i)
  case (Cons w ws)
  show ?case
  proof (cases "P w")
    case True
    then show ?thesis using Cons.prems by (intro exI [of _ "[]"]) auto
  next
    case False
    then obtain j where j: "first_window P ws = Some j" "i = Suc j" using Cons.prems by auto
    from Cons.IH [OF j(1)] obtain us v vs where "ws = us @ v # vs" "length us = j" "P v" "\<forall>u \<in> set us. \<not> P u" by blast
    then show ?thesis using False j by (intro exI [of _ "w # us"] exI [of _ v] exI [of _ vs]) auto
  qed
qed simp

definition chans :: "int \<Rightarrow> window list \<Rightarrow> channel_struct list" where
  "chans srv ws = concat (map nchannels (filter (\<lambda>w. wserver w = srv) ws))"

lemma chans_simps [simp]:
  "chans srv [] = []"
  "chans srv (w # ws) = (if wserver w = srv then nchannels w else []) @ chans srv ws"
  "chans srv (us @ ws) = chans srv us @ chans srv ws"
  by (simp_all add: chans_def)

definition keys :: "channel_struct list \<Rightarrow> nat list set" where
  "keys chs = (\<lambda>ch. ckey (cname ch)) ` set chs"

lemma keys_simps [simp]: "keys [] = {}" "keys (ch # chs) = insert (ckey (cname ch)) (keys chs)" "keys (xs @ ys) = keys xs \<union> keys ys"
  by (auto simp: keys_def)

lemma keys_mem: "ch \<in> set chs \<Longrightarrow> ckey (cname ch) \<in> keys chs"
  by (simp add: keys_def)

definition separate :: "channel_struct list \<Rightarrow> bool" where
  "separate chs = distinct (map (\<lambda>ch. ckey (cname ch)) chs)"

lemma separate_simps [simp]:
  "separate []" "separate (ch # chs) \<longleftrightarrow> ckey (cname ch) \<notin> keys chs \<and> separate chs"
  "separate (xs @ ys) \<longleftrightarrow> separate xs \<and> separate ys \<and> keys xs \<inter> keys ys = {}"
  by (auto simp: separate_def keys_def)

definition channel_map :: "int \<Rightarrow> 'w client \<Rightarrow> nat list \<rightharpoonup> channel_struct" where
  "channel_map srv st = key_map cname (chans srv (windows st))"

definition members :: "channel_struct \<Rightarrow> nat list \<rightharpoonup> int \<times> int" where
  "members ch = (\<lambda>k. map_option (\<lambda>n. (shared n, speed n)) (key_map nname (nicks ch) k))"

definition roster :: "int \<Rightarrow> 'w client \<Rightarrow> nat list \<rightharpoonup> (nat list \<rightharpoonup> int \<times> int)" where
  "roster srv st = map_option members \<circ> channel_map srv st"

definition window_ok :: "window \<Rightarrow> bool" where
  "window_ok w \<longleftrightarrow> in_order cname (nchannels w) \<and> (\<forall>ch \<in> set (nchannels w). names_ok nname (nicks ch))"

definition roster_ok :: "int \<Rightarrow> 'w client \<Rightarrow> bool" where
  "roster_ok srv st \<longleftrightarrow>
     (\<forall>w \<in> set (windows st). window_ok w) \<and> separate (chans srv (windows st))"

lemma key_map_append: "key_map nm (xs @ ys) = key_map nm ys ++ key_map nm xs"
  by (simp add: key_map_def)

lemma window_ok_no_nul: "window_ok w \<Longrightarrow> ch \<in> set (nchannels w) \<Longrightarrow> no_nul (cname ch)"
  by (auto simp: window_ok_def in_order_def)

lemma has_channel_key: "window_ok w \<Longrightarrow> no_nul chan \<Longrightarrow> has_channel chan w \<longleftrightarrow> ckey chan \<in> keys (nchannels w)"
  using find_named_None [of "nchannels w" cname chan] by (auto simp: has_channel_def window_ok_no_nul keys_def)

text \<open>The words of a line are parts of it.\<close>

lemma next_arg_parts:
  assumes "next_arg s = (v, r)"
  shows "set r \<subseteq> set s" "v = Some w \<Longrightarrow> set w \<subseteq> set s"
proof -
  define p where "p = dropWhile (\<lambda>c. c = CHR '' '') s"
  have p: "set p \<subseteq> set s" by (auto simp: p_def dest: set_dropWhileD)
  have "set (tl (dropWhile (\<lambda>c. c \<noteq> CHR '' '') p)) \<subseteq> set p"
    by (metis dual_order.trans list.set_sel(2) set_dropWhileD subsetI list.sel(2))
  with p show "set r \<subseteq> set s" using assms by (auto simp: next_arg_eq p_def [symmetric] split: if_splits)
  from p show "v = Some w \<Longrightarrow> set w \<subseteq> set s"
    using assms by (auto simp: next_arg_eq p_def [symmetric] split: if_splits dest: set_takeWhileD)
qed

lemma next_arg_no_nul: "next_arg s = (v, r) \<Longrightarrow> no_nul s \<Longrightarrow> no_nul r \<and> (\<forall>w. v = Some w \<longrightarrow> no_nul w)"
  using next_arg_parts by blast

subsection \<open>One window at a time\<close>

lemma change_window_split:
  "windows st = us @ w # vs \<Longrightarrow> length us = i \<Longrightarrow> windows (change_window i f st) = us @ f w # vs"
  by (auto simp: change_window_def)

lemma map_add_middle:
  "(l :: 'a \<rightharpoonup> 'b) k = None \<Longrightarrow> r k = None \<Longrightarrow> l ++ (m(k := v) ++ r) = (l ++ (m ++ r))(k := v)"
  by (auto simp: map_add_def fun_eq_iff split: option.splits)

lemma roster_ok_window:
  assumes "roster_ok srv st" "windows st = us @ w # vs" "wserver w = srv"
  shows "names_ok cname (nchannels w)" "window_ok w"
    "separate (chans srv us @ nchannels w @ chans srv vs)"
  using assms by (auto simp: roster_ok_def window_ok_def names_ok_def separate_def)

text \<open>Replacing the channels of one window: \<open>k\<close> is the only key whose entry changes, to \<open>v\<close>.\<close>

lemma replace_channels:
  assumes ok: "roster_ok srv st" and st: "windows st = us @ w # vs" "wserver w = srv"
    and f: "nchannels w' = ys" "wserver w' = srv" and st': "windows st' = us @ w' # vs"
    and k: "k \<notin> keys (chans srv us @ chans srv vs)"
    and ys: "key_map cname ys = (key_map cname (nchannels w))(k := v)" "names_ok cname ys"
      "\<And>ch. ch \<in> set ys \<Longrightarrow> names_ok nname (nicks ch)"
      "keys ys \<subseteq> insert k (keys (nchannels w))"
  shows "channel_map srv st' = (channel_map srv st)(k := v)" "roster_ok srv st'"
proof -
  have "key_map cname (chans srv us) k = None" "key_map cname (chans srv vs) k = None"
    using k by (auto simp: key_map_None keys_def)
  then show "channel_map srv st' = (channel_map srv st)(k := v)"
    using st st' f ys(1) by (simp add: channel_map_def key_map_append map_add_middle map_add_assoc [symmetric] del: map_add_assoc)
  have "separate (chans srv us @ chans srv vs)" "keys (nchannels w) \<inter> keys (chans srv us @ chans srv vs) = {}"
    using roster_ok_window(3) [OF ok st] by auto
  moreover have "keys ys \<inter> keys (chans srv us @ chans srv vs) = {}" using calculation(2) k ys(4) by blast
  moreover have "separate ys" using ys(2) by (simp add: names_ok_def separate_def)
  ultimately have "separate (chans srv (windows st'))" using st' f by auto
  moreover have "window_ok w'" using ys(2,3) f(1) by (simp add: window_ok_def names_ok_order)
  ultimately show "roster_ok srv st'" using ok st st' by (simp add: roster_ok_def)
qed

lemma found_channel:
  assumes "find_channel E chan st = Some i" "roster_ok (this_server E) st" "no_nul chan"
  obtains us w vs ch where "windows st = us @ w # vs" "length us = i" "wserver w = this_server E"
    "find_named cname chan (nchannels w) = Some ch" "channel_at i chan st = Some ch"
    "channel_map (this_server E) st (ckey chan) = Some ch" "ckey (cname ch) = ckey chan"
    "ckey chan \<notin> keys (chans (this_server E) us @ chans (this_server E) vs)"
proof -
  obtain us w vs where st: "windows st = us @ w # vs" "length us = i" "wserver w = this_server E" "has_channel chan w"
    using assms(1) first_window_Some unfolding find_channel_def by blast
  note w = roster_ok_window [OF assms(2) st(1,3)]
  obtain ch where ch: "find_named cname chan (nchannels w) = Some ch"
    using st(4) by (auto simp: has_channel_def)
  have no: "\<forall>c \<in> set (nchannels w). no_nul (cname c)" using w(2) by (auto simp: window_ok_no_nul)
  have k: "key_map cname (nchannels w) (ckey chan) = Some ch"
    using ch find_named_map [OF no assms(3)] w(1) by (simp add: names_ok_def)
  have c: "ch \<in> set (nchannels w)" "ckey (cname ch) = ckey chan"
    using find_named_Some [OF ch] no assms(3) by (auto simp: my_stricmp_zero_iff)
  then have notin: "ckey chan \<notin> keys (chans (this_server E) us @ chans (this_server E) vs)"
    using w(3) keys_mem [OF c(1)] by auto
  then have "key_map cname (chans (this_server E) us) (ckey chan) = None" by (auto simp: key_map_None keys_def)
  with k st have "channel_map (this_server E) st (ckey chan) = Some ch"
    by (simp add: channel_map_def key_map_append map_add_Some_iff)
  with st ch c(2) notin show thesis by (intro that) (auto simp: channel_at_def)
qed

lemma not_found_channel:
  assumes "find_channel E chan st = None" "roster_ok (this_server E) st" "no_nul chan"
  shows "channel_map (this_server E) st (ckey chan) = None"
proof -
  have "\<forall>w \<in> set (windows st). wserver w = this_server E \<longrightarrow> \<not> has_channel chan w"
    using assms(1) by (auto simp: find_channel_def first_window_None)
  then have "\<forall>w \<in> set (windows st). wserver w = this_server E \<longrightarrow> ckey chan \<notin> keys (nchannels w)"
    using assms(2,3) has_channel_key by (auto simp: roster_ok_def)
  then show ?thesis by (auto simp: channel_map_def key_map_None chans_def keys_def)
qed

lemma map_option_other: "(m :: 'a \<rightharpoonup> 'b) k = Some x \<Longrightarrow> m(k := map_option f (m k)) = m(k \<mapsto> f x)"
  by simp

lemma set_change_named: "c \<in> set (change_named nm s f xs) \<Longrightarrow> c \<in> set xs \<or> c \<in> f ` set xs"
  by (induction xs) (auto split: if_splits)

lemma window_ok_change:
  "window_ok w \<Longrightarrow> (\<And>ch. cname (f ch) = cname ch) \<Longrightarrow> (\<And>ch. names_ok nname (nicks ch) \<Longrightarrow> names_ok nname (nicks (f ch))) \<Longrightarrow>
    window_ok (w\<lparr>nchannels := change_named cname chan f (nchannels w)\<rparr>)"
  by (auto simp: window_ok_def dest!: set_change_named)

lemma change_channel_map:
  assumes fnd: "find_channel E chan st = Some i" and ok: "roster_ok (this_server E) st" and chan: "no_nul chan"
    and f: "\<And>ch. cname (f ch) = cname ch" "\<And>ch. names_ok nname (nicks ch) \<Longrightarrow> names_ok nname (nicks (f ch))"
    and ch: "channel_at i chan st = Some ch"
  shows "channel_map (this_server E) (change_channel i chan f st) = (channel_map (this_server E) st)(ckey chan \<mapsto> f ch)"
    "roster_ok (this_server E) (change_channel i chan f st)"
proof -
  obtain us w vs ch' where st: "windows st = us @ w # vs" "length us = i" "wserver w = this_server E"
    "find_named cname chan (nchannels w) = Some ch'" "channel_at i chan st = Some ch'"
    "ckey chan \<notin> keys (chans (this_server E) us @ chans (this_server E) vs)"
    by (rule found_channel [OF fnd ok chan])
  then have c: "find_named cname chan (nchannels w) = Some ch" using ch by simp
  note w = roster_ok_window [OF ok st(1,3)]
  have no: "\<forall>c \<in> set (nchannels w). no_nul (cname c)" using w(2) by (auto simp: window_ok_no_nul)
  have k: "key_map cname (nchannels w) (ckey chan) = Some ch"
    using c find_named_map [OF no chan] w(1) by (simp add: names_ok_def)
  have img: "keys (change_named cname chan f xs) = keys xs"
    for xs :: "channel_struct list"
    by (induction xs) (auto simp: f(1))
  have "channel_map (this_server E) (change_channel i chan f st) = (channel_map (this_server E) st)(ckey chan := Some (f ch))
      \<and> roster_ok (this_server E) (change_channel i chan f st)"
    by (intro conjI replace_channels [OF ok st(1,3), of "w\<lparr>nchannels := change_named cname chan f (nchannels w)\<rparr>"
          "change_named cname chan f (nchannels w)" "change_channel i chan f st" "ckey chan" "Some (f ch)"])
      (use w st k f chan in \<open>auto simp: key_map_change change_channel_def change_window_split img
         window_ok_def dest!: set_change_named\<close>)
  then show "channel_map (this_server E) (change_channel i chan f st) = (channel_map (this_server E) st)(ckey chan \<mapsto> f ch)"
    "roster_ok (this_server E) (change_channel i chan f st)" by auto
qed

lemma remove_channel_map:
  assumes fnd: "find_channel E chan st = Some i" and ok: "roster_ok (this_server E) st" and chan: "no_nul chan"
    and st': "st' = change_window i (\<lambda>w. w\<lparr>nchannels := remove_named cname chan (nchannels w)\<rparr>) st"
  shows "channel_map (this_server E) st' = (channel_map (this_server E) st)(ckey chan := None)"
    "roster_ok (this_server E) st'"
proof -
  obtain us w vs ch where st: "windows st = us @ w # vs" "length us = i" "wserver w = this_server E"
    "ckey chan \<notin> keys (chans (this_server E) us @ chans (this_server E) vs)"
    by (rule found_channel [OF fnd ok chan])
  note w = roster_ok_window [OF ok st(1,3)]
  have sub: "set (remove_named cname chan (nchannels w)) \<subseteq> set (nchannels w)" by (rule set_remove_named)
  have "channel_map (this_server E) st' = (channel_map (this_server E) st)(ckey chan := None) \<and> roster_ok (this_server E) st'"
    by (intro conjI replace_channels [OF ok st(1,3), of "w\<lparr>nchannels := remove_named cname chan (nchannels w)\<rparr>"
          "remove_named cname chan (nchannels w)" st' "ckey chan" None])
      (use w st chan sub in \<open>auto simp: key_map_remove names_ok_remove st' change_window_split window_ok_def keys_def\<close>)
  then show "channel_map (this_server E) st' = (channel_map (this_server E) st)(ckey chan := None)"
    "roster_ok (this_server E) st'" by auto
qed

lemma insert_channel_map:
  assumes ok: "roster_ok srv st" and st: "windows st = us @ w # vs" "length us = i" "wserver w = srv"
    and new: "channel_map srv st (ckey (cname ch)) = None" "no_nul (cname ch)" "names_ok nname (nicks ch)"
    and st': "windows st' = us @ w\<lparr>nchannels := insert_named cname ch (nchannels w)\<rparr> # vs"
  shows "channel_map srv st' = (channel_map srv st)(ckey (cname ch) \<mapsto> ch)" "roster_ok srv st'"
proof -
  note w = roster_ok_window [OF ok st(1,3)]
  have k: "ckey (cname ch) \<notin> keys (chans srv us @ chans srv vs)" "key_map cname (nchannels w) (ckey (cname ch)) = None"
    using new(1) st by (auto simp: channel_map_def key_map_None keys_def)
  have no: "\<forall>c \<in> set (nchannels w). no_nul (cname c)" using w(2) by (auto simp: window_ok_no_nul)
  have "channel_map srv st' = (channel_map srv st)(ckey (cname ch) := Some ch) \<and> roster_ok srv st'"
    by (intro conjI replace_channels [OF ok st(1,3), of "w\<lparr>nchannels := insert_named cname ch (nchannels w)\<rparr>"
          "insert_named cname ch (nchannels w)" st' "ckey (cname ch)" "Some ch"])
      (use w st k new no in \<open>auto simp: key_map_insert names_ok_insert st' window_ok_def keys_def\<close>)
  then show "channel_map srv st' = (channel_map srv st)(ckey (cname ch) \<mapsto> ch)" "roster_ok srv st'" by auto
qed

text \<open>Changes of anything but the channels.\<close>

abbreviation pairs :: "window list \<Rightarrow> (int \<times> channel_struct list) list" where
  "pairs ws \<equiv> map (\<lambda>w. (wserver w, nchannels w)) ws"

lemma by_pairs:
  "chans srv ws = concat (map snd (filter (\<lambda>p. fst p = srv) (pairs ws)))"
  "(\<forall>w \<in> set ws. window_ok w) \<longleftrightarrow>
     (\<forall>p \<in> set (pairs ws). in_order cname (snd p) \<and> (\<forall>ch \<in> set (snd p). names_ok nname (nicks ch)))"
  by (induction ws) (auto simp: window_ok_def)

lemma roster_cong:
  assumes "pairs (windows st') = pairs (windows st)"
  shows "channel_map srv st' = channel_map srv st" "roster_ok srv st' = roster_ok srv st" "roster srv st' = roster srv st"
  unfolding roster_def roster_ok_def channel_map_def by_pairs assms by (rule refl)+

lemma roster_same_windows:
  "windows st' = windows st \<Longrightarrow> channel_map srv st' = channel_map srv st"
  "windows st' = windows st \<Longrightarrow> roster_ok srv st' = roster_ok srv st"
  "windows st' = windows st \<Longrightarrow> roster srv st' = roster srv st"
  by (simp_all add: channel_map_def roster_ok_def roster_def)

lemma change_window_pairs:
  assumes "\<And>w. wserver (f w) = wserver w" "\<And>w. nchannels (f w) = nchannels w"
  shows "pairs (windows (change_window i f st)) = pairs (windows st)"
proof (cases "i < length (windows st)")
  case True
  then have "(pairs (windows st))[i := (wserver (windows st ! i), nchannels (windows st ! i))] = pairs (windows st)"
    by (metis (no_types, lifting) list_update_id nth_map)
  then show ?thesis by (simp add: change_window_def map_update assms)
qed (simp add: change_window_def list_update_beyond)

lemma roster_change_window:
  assumes "\<And>w. wserver (f w) = wserver w" "\<And>w. nchannels (f w) = nchannels w"
  shows "channel_map srv (change_window i f st) = channel_map srv st"
    "roster_ok srv (change_window i f st) = roster_ok srv st"
    "roster srv (change_window i f st) = roster srv st"
  by (rule roster_cong [OF change_window_pairs [OF assms]])+

lemma do_hook_rest [simp]:
  "windows (snd (do_hook E k s st)) = windows st" "floods_seen (snd (do_hook E k s st)) = floods_seen st"
  "ignores (snd (do_hook E k s st)) = ignores st" "cignores (snd (do_hook E k s st)) = cignores st"
  "nap_hotlist (snd (do_hook E k s st)) = nap_hotlist st" "current_window (snd (do_hook E k s st)) = current_window st"
  by (simp_all add: do_hook_def split_def)

subsection \<open>What the messages say\<close>

datatype channel_msg = JOINED | PART | PARTED | TOPIC | NAMES | ENDNAMES

fun handle :: "channel_msg \<Rightarrow> 'w handler" where
  "handle JOINED = cmd_joined"
| "handle PART = cmd_partchannel"
| "handle PARTED = cmd_parted"
| "handle TOPIC = cmd_topic"
| "handle NAMES = cmd_names"
| "handle ENDNAMES = cmd_endnames"

text \<open>The first two words of a line are the channel and the nick; the rest are numbers.\<close>

fun roster_after :: "channel_msg \<Rightarrow> cstr \<Rightarrow> (nat list \<rightharpoonup> (nat list \<rightharpoonup> int \<times> int)) \<Rightarrow> nat list \<rightharpoonup> (nat list \<rightharpoonup> int \<times> int)" where
  "roster_after JOINED args v =
     (case fst (next_arg args) of
        None \<Rightarrow> v | Some chan \<Rightarrow> if v (ckey chan) = None then v(ckey chan \<mapsto> Map.empty) else v)"
| "roster_after PART args v = (case fst (next_arg args) of None \<Rightarrow> v | Some chan \<Rightarrow> v(ckey chan := None))"
| "roster_after PARTED args v =
     (case next_arg args of
        (Some chan, a1) \<Rightarrow>
          (case fst (next_arg a1) of
             None \<Rightarrow> v | Some who \<Rightarrow> v(ckey chan := map_option (\<lambda>m. m(ckey who := None)) (v (ckey chan))))
      | _ \<Rightarrow> v)"
| "roster_after NAMES args v =
     (case next_arg args of
        (Some chan, a1) \<Rightarrow>
          (case next_arg a1 of
             (Some who, a2) \<Rightarrow>
               let (files, a3) = next_arg a2
               in v(ckey chan := map_option (\<lambda>m. m(ckey who \<mapsto>
                      (to_ulong (my_atol files), to_int32 (my_atol (Some a3))))) (v (ckey chan)))
           | _ \<Rightarrow> v)
      | _ \<Rightarrow> v)"
| "roster_after _ args v = v"

lemma roster_channel: "roster srv st k = map_option members (channel_map srv st k)"
  by (simp add: roster_def)

lemma roster_not_found:
  "find_channel E chan st = None \<Longrightarrow> roster_ok (this_server E) st \<Longrightarrow> no_nul chan \<Longrightarrow>
    roster (this_server E) st (ckey chan) = None"
  by (simp add: roster_channel not_found_channel)

lemma roster_same: "(v :: 'a \<rightharpoonup> 'b) k = None \<Longrightarrow> v(k := None) = v" "v k = None \<Longrightarrow> v(k := map_option f (v k)) = v"
  by auto

lemma roster_change:
  assumes "find_channel E chan st = Some i" "roster_ok (this_server E) st" "no_nul chan"
    "\<And>ch. cname (f ch) = cname ch" "\<And>ch. names_ok nname (nicks ch) \<Longrightarrow> names_ok nname (nicks (f ch))"
    "\<And>ch. names_ok nname (nicks ch) \<Longrightarrow> members (f ch) = g (members ch)"
  shows "roster (this_server E) (change_channel i chan f st) =
      (roster (this_server E) st)(ckey chan := map_option g (roster (this_server E) st (ckey chan)))"
    "roster_ok (this_server E) (change_channel i chan f st)"
proof -
  obtain us w vs ch where ch: "windows st = us @ w # vs" "wserver w = this_server E" "channel_at i chan st = Some ch"
    "channel_map (this_server E) st (ckey chan) = Some ch" "find_named cname chan (nchannels w) = Some ch"
    by (rule found_channel [OF assms(1-3)])
  have "names_ok nname (nicks ch)"
    using roster_ok_window(2) [OF assms(2) ch(1,2)] find_named_Some [OF ch(5)] by (simp add: window_ok_def)
  then show "roster (this_server E) (change_channel i chan f st) =
      (roster (this_server E) st)(ckey chan := map_option g (roster (this_server E) st (ckey chan)))"
    using change_channel_map(1) [OF assms(1-5) ch(3)] ch(4) assms(6) by (auto simp: roster_def fun_eq_iff)
  show "roster_ok (this_server E) (change_channel i chan f st)"
    by (rule change_channel_map(2) [OF assms(1-5) ch(3)])
qed

lemma put_nick_ok:
  assumes "names_ok nname ns" "no_nul who"
  shows "names_ok nname (put_nick who sh sp ns)"
    "(\<lambda>k. map_option (\<lambda>n. (shared n, speed n)) (key_map nname (put_nick who sh sp ns) k)) =
       (\<lambda>k. map_option (\<lambda>n. (shared n, speed n)) (key_map nname ns k))(ckey who \<mapsto> (sh, sp))"
proof -
  have no: "\<forall>n \<in> set ns. no_nul (nname n)" using assms(1) by (auto simp: names_ok_def in_order_def)
  have f: "find_named nname who ns = key_map nname ns (ckey who)"
    using find_named_map [OF no assms(2)] assms(1) by (simp add: names_ok_def)
  show "names_ok nname (put_nick who sh sp ns)"
    using assms f by (auto simp: put_nick_def names_ok_insert new_nick_def)
  show "(\<lambda>k. map_option (\<lambda>n. (shared n, speed n)) (key_map nname (put_nick who sh sp ns) k)) =
       (\<lambda>k. map_option (\<lambda>n. (shared n, speed n)) (key_map nname ns k))(ckey who \<mapsto> (sh, sp))"
    using assms f no
    by (auto simp: put_nick_def key_map_change names_ok_insert key_map_insert new_nick_def fun_eq_iff)
qed

text \<open>After a change of the roster the handlers only call hooks, count messages and show texts.\<close>

lemma show_speed_same: "show_speed b i st = Some st' \<Longrightarrow> st' = st"
  by (simp add: show_speed_def split: if_splits)

lemma names_refines:
  assumes r: "cmd_names E args st = Some st'" and ok: "roster_ok (this_server E) st" and nn: "no_nul args"
  shows "roster_ok (this_server E) st'" "roster (this_server E) st' = roster_after NAMES args (roster (this_server E) st)"
proof -
  obtain v1 a1 where 1: "next_arg args = (v1, a1)" by (cases "next_arg args")
  obtain v2 a2 where 2: "next_arg a1 = (v2, a2)" by (cases "next_arg a1")
  obtain v3 a3 where 3: "next_arg a2 = (v3, a3)" by (cases "next_arg a2")
  have n: "no_nul a1" "\<And>w. v1 = Some w \<Longrightarrow> no_nul w" "\<And>w. v2 = Some w \<Longrightarrow> no_nul w"
    using next_arg_no_nul [OF 1 nn] next_arg_no_nul [OF 2] by auto
  have "roster_ok (this_server E) st' \<and> roster (this_server E) st' = roster_after NAMES args (roster (this_server E) st)"
  proof (cases "\<exists>chan who i. v1 = Some chan \<and> v2 = Some who \<and> find_channel E chan st = Some i")
    case False
    then have "st' = st" using r by (auto simp: cmd_names_def 1 2 split: option.splits)
    moreover have "roster_after NAMES args (roster (this_server E) st) = roster (this_server E) st"
      using False n ok by (auto simp: 1 2 3 roster_not_found fun_upd_idem split: option.split)
    ultimately show ?thesis using ok by simp
  next
    case True
    then obtain chan who i where v: "v1 = Some chan" "v2 = Some who" and f: "find_channel E chan st = Some i" by blast
    define sh where "sh = to_ulong (my_atol v3)"
    define sp where "sp = to_int32 (my_atol (Some a3))"
    define g where "g = (\<lambda>ch :: channel_struct. ch\<lparr>nicks := put_nick who sh sp (nicks ch)\<rparr>)"
    have w: "windows st' = windows (change_channel i chan g st)"
      using r by (auto simp: cmd_names_def 1 2 3 v f g_def sh_def sp_def Let_def split_def bind_eq_Some_conv
          dest!: show_speed_same split: if_splits)
    have ng: "no_nul chan" "no_nul who" using n v by auto
    have *: "members (g ch) = (members ch)(ckey who \<mapsto> (sh, sp))" if "names_ok nname (nicks ch)" for ch
      using put_nick_ok(2) [OF that ng(2)] by (simp add: members_def g_def)
    have "roster (this_server E) (change_channel i chan g st) =
        (roster (this_server E) st)(ckey chan := map_option (\<lambda>m. m(ckey who \<mapsto> (sh, sp))) (roster (this_server E) st (ckey chan)))"
      "roster_ok (this_server E) (change_channel i chan g st)"
      by (intro roster_change [OF f ok ng(1)]; simp add: put_nick_ok(1) ng(2) * [unfolded g_def] g_def)+
    then show ?thesis using w by (simp add: roster_same_windows [OF w] 1 2 3 v sh_def sp_def)
  qed
  then show "roster_ok (this_server E) st'" "roster (this_server E) st' = roster_after NAMES args (roster (this_server E) st)"
    by auto
qed

lemma parted_refines:
  assumes r: "cmd_parted E args st = Some st'" and ok: "roster_ok (this_server E) st" and nn: "no_nul args"
  shows "roster_ok (this_server E) st'" "roster (this_server E) st' = roster_after PARTED args (roster (this_server E) st)"
proof -
  obtain v1 a1 where 1: "next_arg args = (v1, a1)" by (cases "next_arg args")
  obtain v2 a2 where 2: "next_arg a1 = (v2, a2)" by (cases "next_arg a1")
  have n: "no_nul a1" "\<And>w. v1 = Some w \<Longrightarrow> no_nul w" "\<And>w. v2 = Some w \<Longrightarrow> no_nul w"
    using next_arg_no_nul [OF 1 nn] next_arg_no_nul [OF 2] by auto
  have "roster_ok (this_server E) st' \<and> roster (this_server E) st' = roster_after PARTED args (roster (this_server E) st)"
  proof (cases "\<exists>chan who i. v1 = Some chan \<and> v2 = Some who \<and> find_channel E chan st = Some i")
    case False
    then have "st' = st" using r by (auto simp: cmd_parted_def 1 2 split: option.splits)
    moreover have "roster_after PARTED args (roster (this_server E) st) = roster (this_server E) st"
      using False n ok by (auto simp: 1 2 roster_not_found fun_upd_idem split: option.split)
    ultimately show ?thesis using ok by simp
  next
    case True
    then obtain chan who i where v: "v1 = Some chan" "v2 = Some who" and f: "find_channel E chan st = Some i" by blast
    have ng: "no_nul chan" "no_nul who" using n v by auto
    define g where "g = (\<lambda>ch :: channel_struct. ch\<lparr>nicks := remove_named nname who (nicks ch)\<rparr>)"
    have *: "members (g ch) = (members ch)(ckey who := None)" if "names_ok nname (nicks ch)" for ch
      using key_map_remove [OF that ng(2)] by (auto simp: members_def g_def fun_eq_iff)
    have ros: "roster (this_server E) (change_channel i chan g st) =
        (roster (this_server E) st)(ckey chan := map_option (\<lambda>m. m(ckey who := None)) (roster (this_server E) st (ckey chan)))"
      "roster_ok (this_server E) (change_channel i chan g st)"
      by (intro roster_change [OF f ok ng(1)]; simp add: * [unfolded g_def] g_def names_ok_remove)+
    obtain us w vs ch where ch: "windows st = us @ w # vs" "wserver w = this_server E" "channel_at i chan st = Some ch"
      "channel_map (this_server E) st (ckey chan) = Some ch" "find_named cname chan (nchannels w) = Some ch"
      by (rule found_channel [OF f ok ng(1)])
    show ?thesis
    proof (cases "find_named nname who (nicks ch)")
      case None
      then have "st' = st" using r by (simp add: cmd_parted_def 1 2 v f ch(3))
      have ok': "names_ok nname (nicks ch)"
        using roster_ok_window(2) [OF ok ch(1,2)] find_named_Some [OF ch(5)] by (simp add: window_ok_def)
      then have "members ch (ckey who) = None"
        using None find_named_map [of "nicks ch" nname who] ng(2) by (auto simp: members_def names_ok_def in_order_def)
      then have "roster_after PARTED args (roster (this_server E) st) = roster (this_server E) st"
        by (simp add: 1 2 v roster_channel ch(4) fun_upd_idem)
      then show ?thesis using ok \<open>st' = st\<close> by simp
    next
      case (Some m)
      then have w: "windows st' = windows (change_channel i chan g st)"
        using r by (auto simp: cmd_parted_def 1 2 v f ch(3) g_def Let_def split_def dest!: show_speed_same)
      then show ?thesis using ros by (simp add: roster_same_windows [OF w] 1 2 v)
    qed
  qed
  then show "roster_ok (this_server E) st'" "roster (this_server E) st' = roster_after PARTED args (roster (this_server E) st)"
    by auto
qed

lemma topic_refines:
  assumes r: "cmd_topic E args st = Some st'" and ok: "roster_ok (this_server E) st" and nn: "no_nul args"
  shows "roster_ok (this_server E) st'" "roster (this_server E) st' = roster_after TOPIC args (roster (this_server E) st)"
proof -
  obtain v1 a1 where 1: "next_arg args = (v1, a1)" by (cases "next_arg args")
  have "roster_ok (this_server E) st' \<and> roster (this_server E) st' = roster (this_server E) st"
  proof (cases "\<exists>chan i. v1 = Some chan \<and> find_channel E chan st = Some i")
    case False
    then have "st' = st" using r by (auto simp: cmd_topic_def 1 split: option.splits)
    then show ?thesis using ok by simp
  next
    case True
    then obtain chan i where v: "v1 = Some chan" and f: "find_channel E chan st = Some i" by blast
    have ng: "no_nul chan" using next_arg_no_nul [OF 1 nn] v by simp
    define g where "g = (\<lambda>ch :: channel_struct. ch\<lparr>topic := Some a1\<rparr>)"
    have w: "windows st' = windows (change_channel i chan g st)" using r by (auto simp: cmd_topic_def 1 v f g_def)
    have "roster (this_server E) (change_channel i chan g st) =
        (roster (this_server E) st)(ckey chan := map_option (\<lambda>m. m) (roster (this_server E) st (ckey chan)))"
      "roster_ok (this_server E) (change_channel i chan g st)"
      by (intro roster_change [OF f ok ng]; simp add: g_def members_def)+
    then show ?thesis by (simp add: roster_same_windows [OF w] option.map_ident)
  qed
  then show "roster_ok (this_server E) st'" "roster (this_server E) st' = roster_after TOPIC args (roster (this_server E) st)"
    by auto
qed

lemma foreign_window:
  assumes ok: "roster_ok srv st" and st: "windows st = us @ w # vs" "wserver w \<noteq> srv"
    and w': "wserver w' = wserver w" "window_ok w'" and st': "windows st' = us @ w' # vs"
  shows "roster_ok srv st'" "roster srv st' = roster srv st"
  using assms by (auto simp: roster_ok_def roster_def channel_map_def)

lemma name_print_windows: "name_print E ns b pat st = Some st' \<Longrightarrow> windows st' = windows st"
  by (auto simp: name_print_def Let_def split_def bind_eq_Some_conv split: if_splits option.splits)

lemma endnames_refines:
  assumes r: "cmd_endnames E args st = Some st'" and ok: "roster_ok (this_server E) st" and nn: "no_nul args"
  shows "roster_ok (this_server E) st'" "roster (this_server E) st' = roster_after ENDNAMES args (roster (this_server E) st)"
proof -
  define g where "g = (\<lambda>ch :: channel_struct. ch\<lparr>injoin := False\<rparr>)"
  have "roster_ok (this_server E) st' \<and> roster (this_server E) st' = roster (this_server E) st"
  proof (cases "fst (next_arg args)")
    case None
    then show ?thesis using r ok by (simp add: cmd_endnames_def)
  next
    case (Some chan)
    then have ng: "no_nul chan" using next_arg_no_nul [of args "Some chan" "snd (next_arg args)"] nn by (metis prod.collapse)
    have ne: "windows st \<noteq> []" using r Some by (auto simp: cmd_endnames_def)
    define i where "i = (case find_channel E chan st of Some i \<Rightarrow> i | None \<Rightarrow> length (windows st) - 1)"
    define enter where "enter = (change_window i (\<lambda>w. w\<lparr>current_channel := Some chan\<rparr>) :: 'a client \<Rightarrow> 'a client)"
    have en: "roster_ok (this_server E) (enter s) = roster_ok (this_server E) s"
      "roster (this_server E) (enter s) = roster (this_server E) s" for s
      by (simp_all add: enter_def roster_change_window)
    show ?thesis
    proof (cases "channel_at i chan st")
      case None
      then have "st' = enter st" using r Some ne by (simp add: cmd_endnames_def i_def [symmetric] enter_def)
      then show ?thesis using ok en by simp
    next
      case (Some ch)
      then obtain s where s: "windows s = windows (change_channel i chan g st)" "st' = enter s"
        using r \<open>fst (next_arg args) = Some chan\<close> ne
        by (auto simp: cmd_endnames_def i_def [symmetric] enter_def g_def Let_def dest!: name_print_windows split: if_splits)
      have "roster_ok (this_server E) (change_channel i chan g st) \<and>
          roster (this_server E) (change_channel i chan g st) = roster (this_server E) st"
      proof (cases "find_channel E chan st")
        case None
        define w where "w = last (windows st)"
        have st: "windows st = butlast (windows st) @ w # []" "length (butlast (windows st)) = i" "windows st ! i = w"
          using ne None by (simp_all add: w_def i_def) (simp add: last_conv_nth)
        have "\<not> (wserver w = this_server E \<and> has_channel chan w)"
          using None ne by (simp add: find_channel_def first_window_None w_def)
        then have f: "wserver w \<noteq> this_server E" using Some st(3) by (auto simp: channel_at_def has_channel_def)
        have "window_ok w" using ok ne by (simp add: roster_ok_def w_def)
        then have "window_ok (w\<lparr>nchannels := change_named cname chan g (nchannels w)\<rparr>)"
          by (rule window_ok_change) (simp_all add: g_def)
        then show ?thesis
          using foreign_window [OF ok st(1) f _ _ change_window_split [OF st(1,2)]] by (simp add: change_channel_def)
      next
        case f: (Some j)
        have "roster (this_server E) (change_channel i chan g st) =
            (roster (this_server E) st)(ckey chan := map_option (\<lambda>m. m) (roster (this_server E) st (ckey chan)))"
          "roster_ok (this_server E) (change_channel i chan g st)"
          by (intro roster_change [OF _ ok ng]; simp add: g_def members_def f i_def)+
        then show ?thesis by (simp add: option.map_ident)
      qed
      then show ?thesis using s by (simp add: en roster_same_windows [OF s(1)])
    qed
  qed
  then show "roster_ok (this_server E) st'" "roster (this_server E) st' = roster_after ENDNAMES args (roster (this_server E) st)"
    by auto
qed

lemma switch_channels_window_pairs:
  "switch_channels_window E i st = Some st' \<Longrightarrow> pairs (windows st') = pairs (windows st)"
  using change_window_pairs [of "\<lambda>w. w\<lparr>current_channel := c\<rparr>" i st for c]
  by (auto simp: switch_channels_window_def Let_def split: if_splits option.splits)

lemma part_refines:
  assumes r: "cmd_partchannel E args st = Some st'" and ok: "roster_ok (this_server E) st" and nn: "no_nul args"
  shows "roster_ok (this_server E) st'" "roster (this_server E) st' = roster_after PART args (roster (this_server E) st)"
proof -
  obtain v1 a1 where 1: "next_arg args = (v1, a1)" by (cases "next_arg args")
  have "roster_ok (this_server E) st' \<and> roster (this_server E) st' = roster_after PART args (roster (this_server E) st)"
  proof (cases "\<exists>chan i. v1 = Some chan \<and> find_channel E chan st = Some i")
    case False
    then have "st' = st" using r by (auto simp: cmd_partchannel_def 1 split: option.splits)
    moreover have "roster_after PART args (roster (this_server E) st) = roster (this_server E) st"
      using False ok next_arg_no_nul [OF 1 nn] by (auto simp: 1 roster_not_found fun_upd_idem split: option.split)
    ultimately show ?thesis using ok by simp
  next
    case True
    then obtain chan i where v: "v1 = Some chan" and f: "find_channel E chan st = Some i" by blast
    have ng: "no_nul chan" using next_arg_no_nul [OF 1 nn] v by simp
    define s where "s = change_window i (\<lambda>w. w\<lparr>nchannels := remove_named cname chan (nchannels w)\<rparr>) st"
    have p: "pairs (windows st') = pairs (windows s)"
      using r by (auto simp: cmd_partchannel_def 1 v f s_def [symmetric] Let_def bind_eq_Some_conv change_window_pairs
          dest!: switch_channels_window_pairs split: option.splits if_splits)
    show ?thesis
      using remove_channel_map [OF f ok ng s_def] by (auto simp: roster_cong [OF p] roster_def 1 v fun_eq_iff)
  qed
  then show "roster_ok (this_server E) st'" "roster (this_server E) st' = roster_after PART args (roster (this_server E) st)"
    by auto
qed

lemma later_cases: "later p = Waiting i \<longleftrightarrow> (\<exists>j. p = Waiting j \<and> i = Suc j)"
  "later p = Already \<longleftrightarrow> p = Already" "later p = Nowhere \<longleftrightarrow> p = Nowhere" "later p = Unset \<longleftrightarrow> p = Unset"
  by (cases p; auto)+

lemma join_place_cases:
  "join_place srv chan seen ws = Already \<Longrightarrow> \<exists>w \<in> set ws. wserver w = srv \<and> has_channel chan w"
  "join_place srv chan seen ws = Waiting i \<Longrightarrow>
     i < length ws \<and> wserver (ws ! i) = srv \<and> find_named cname chan (waiting_channels (ws ! i)) \<noteq> None"
  "join_place srv chan seen ws = Nowhere \<Longrightarrow> \<forall>w \<in> set ws. wserver w = srv \<longrightarrow> \<not> has_channel chan w"
  "join_place srv chan seen ws = Unset \<Longrightarrow> \<not> seen \<and> (\<forall>w \<in> set ws. wserver w \<noteq> srv)"
  by (induction ws arbitrary: seen i) (auto simp: later_cases split: if_splits)

text \<open>
  The two cases in which \<open>cmd_joined\<close> does not do what it means to: a window waits for a channel that
  a later window has already, and the last window, which gets a channel nobody waits for,
  belongs to another server.
\<close>

definition joins_twice :: "'w nap_env \<Rightarrow> cstr \<Rightarrow> 'w client \<Rightarrow> bool" where
  "joins_twice E args st \<longleftrightarrow>
     (case fst (next_arg args) of
        None \<Rightarrow> False
      | Some chan \<Rightarrow> (case join_place (this_server E) chan False (windows st) of
                       Waiting i \<Rightarrow> roster (this_server E) st (ckey chan) \<noteq> None
                     | _ \<Rightarrow> False))"

definition join_is_lost :: "'w nap_env \<Rightarrow> cstr \<Rightarrow> 'w client \<Rightarrow> bool" where
  "join_is_lost E args st \<longleftrightarrow>
     (case fst (next_arg args) of
        None \<Rightarrow> False
      | Some chan \<Rightarrow> join_place (this_server E) chan False (windows st) = Nowhere \<and>
          wserver (last (windows st)) \<noteq> this_server E)"

lemma enter_channel_windows:
  assumes "windows st = us @ w # vs" "length us = i"
  shows "windows (enter_channel E i chan st) = us @ w\<lparr>nchannels := insert_named cname
      ((new_channel chan)\<lparr>injoin := True, cserver := this_server E\<rparr>) (nchannels w), current_channel := Some chan\<rparr> # vs"
  using assms by (auto simp: enter_channel_def Let_def split_def change_window_def)

lemma enter_refines:
  assumes st: "windows st = us @ w # vs" "length us = i" "wserver w = this_server E"
    and ok: "roster_ok (this_server E) st" and nn: "no_nul chan" and new: "roster (this_server E) st (ckey chan) = None"
  shows "roster_ok (this_server E) (enter_channel E i chan st)"
    "roster (this_server E) (enter_channel E i chan st) = (roster (this_server E) st)(ckey chan \<mapsto> Map.empty)"
proof -
  define ch where "ch = (new_channel chan)\<lparr>injoin := True, cserver := this_server E\<rparr>"
  define s where "s = change_window i (\<lambda>w. w\<lparr>nchannels := insert_named cname ch (nchannels w)\<rparr>) st"
  have s: "windows s = us @ w\<lparr>nchannels := insert_named cname ch (nchannels w)\<rparr> # vs"
    using change_window_split [OF st(1,2)] by (simp add: s_def)
  have p: "pairs (windows (enter_channel E i chan st)) = pairs (windows s)"
    using enter_channel_windows [OF st(1,2)] s by (simp add: ch_def)
  have c: "cname ch = chan" "nicks ch = []" by (simp_all add: ch_def new_channel_def)
  have "channel_map (this_server E) st (ckey chan) = None" using new by (simp add: roster_channel)
  then have "channel_map (this_server E) s = (channel_map (this_server E) st)(ckey chan \<mapsto> ch)" "roster_ok (this_server E) s"
    using insert_channel_map [OF ok st, of ch s] s nn by (simp_all add: c)
  then show "roster_ok (this_server E) (enter_channel E i chan st)"
    "roster (this_server E) (enter_channel E i chan st) = (roster (this_server E) st)(ckey chan \<mapsto> Map.empty)"
    by (auto simp: roster_cong [OF p] roster_def members_def c fun_eq_iff)
qed

lemma joined_refines:
  assumes r: "cmd_joined E args st = Some st'" and ok: "roster_ok (this_server E) st" and nn: "no_nul args"
    and j: "\<not> joins_twice E args st"
  shows "roster_ok (this_server E) st'" "roster (this_server E) st' =
    (if join_is_lost E args st then roster (this_server E) st else roster_after JOINED args (roster (this_server E) st))"
proof -
  obtain v1 a1 where 1: "next_arg args = (v1, a1)" by (cases "next_arg args")
  define goal where "goal \<longleftrightarrow> roster_ok (this_server E) st' \<and> roster (this_server E) st' =
    (if join_is_lost E args st then roster (this_server E) st else roster_after JOINED args (roster (this_server E) st))"
  have goal
  proof (cases v1)
    case None
    then show ?thesis using r ok by (simp add: cmd_joined_def 1 goal_def join_is_lost_def)
  next
    case (Some chan)
    have ng: "no_nul chan" using next_arg_no_nul [OF 1 nn] Some by simp
    have has: "(\<exists>w \<in> set (windows st). wserver w = this_server E \<and> has_channel chan w) \<longleftrightarrow> roster (this_server E) st (ckey chan) \<noteq> None"
      using ok ng by (auto simp: roster_def channel_map_def key_map_None chans_def keys_def has_channel_key roster_ok_def)
    show ?thesis
    proof (cases "join_place (this_server E) chan False (windows st)")
      case Already
      then show ?thesis using r ok has join_place_cases(1) [OF Already]
        by (auto simp: cmd_joined_def 1 Some goal_def join_is_lost_def)
    next
      case (Waiting i)
      note w = join_place_cases(2) [OF Waiting]
      define s where "s = change_window i (\<lambda>w. w\<lparr>waiting_channels := remove_named cname chan (waiting_channels w)\<rparr>) st"
      have e: "st' = enter_channel E i chan s" using r by (simp add: cmd_joined_def 1 Some Waiting s_def)
      have o: "roster_ok (this_server E) s" "roster (this_server E) s = roster (this_server E) st"
        using ok by (simp_all add: s_def roster_change_window)
      have i: "i < length (windows s)" "wserver (windows s ! i) = this_server E" using w by (auto simp: s_def change_window_def)
      have sp: "windows s = take i (windows s) @ windows s ! i # drop (Suc i) (windows s)" "length (take i (windows s)) = i"
        using i(1) by (simp_all add: id_take_nth_drop)
      have "roster (this_server E) s (ckey chan) = None" using j o(2) by (simp add: joins_twice_def 1 Some Waiting)
      then show ?thesis using enter_refines [OF sp i(2) o(1) ng] e o(2)
        by (simp add: 1 Some goal_def join_is_lost_def Waiting)
    next
      case Nowhere
      have e: "st' = enter_channel E (length (windows st) - 1) chan st" using r by (simp add: cmd_joined_def 1 Some Nowhere)
      have new: "roster (this_server E) st (ckey chan) = None" using has join_place_cases(3) [OF Nowhere] by auto
      have "windows st \<noteq> []" using Nowhere by auto
      then have st: "windows st = butlast (windows st) @ last (windows st) # []" "length (butlast (windows st)) = length (windows st) - 1"
        by simp_all
      show ?thesis
      proof (cases "wserver (last (windows st)) = this_server E")
        case True
        then show ?thesis using enter_refines [OF st True ok ng new] new by (simp add: 1 Some goal_def join_is_lost_def e)
      next
        case False
        have "window_ok (last (windows st))" using ok \<open>windows st \<noteq> []\<close> by (simp add: roster_ok_def)
        then have "window_ok ((last (windows st))\<lparr>nchannels := insert_named cname
            ((new_channel chan)\<lparr>injoin := True, cserver := this_server E\<rparr>) (nchannels (last (windows st))), current_channel := Some chan\<rparr>)"
          using ng by (auto simp: window_ok_def in_order_insert new_channel_def)
        then show ?thesis
          using foreign_window [OF ok st(1) False _ _ enter_channel_windows [OF st, of E chan]] False
          by (simp add: 1 Some goal_def join_is_lost_def e Nowhere)
      qed
    next
      case Unset
      then show ?thesis using r by (simp add: cmd_joined_def 1 Some)
    qed
  qed
  then show "roster_ok (this_server E) st'" "roster (this_server E) st' =
    (if join_is_lost E args st then roster (this_server E) st else roster_after JOINED args (roster (this_server E) st))"
    by (auto simp: goal_def)
qed

text \<open>
  C4: The handlers of the messages about channels that return keep the lists of the windows in order and
  do to the roster of the server what the message says, whatever its text: JOIN adds an empty channel,
  PART takes one away, 406 and 408 enter a nick with its files and speed or replace them, 407 takes
  a nick off, the others change nothing; nothing happens for unknown channels and missing words.
  There is one exception and one condition. A join that no window waits for is lost when the last window
  belongs to another server (\<open>join_is_lost\<close>): the channel is entered there and the roster stays as it is.
  And a channel that a window waits for must not be in the roster already (\<open>joins_twice\<close>): it would be
  entered a second time, in the window that waits.
\<close>

theorem channel_messages_refine:
  assumes "handle m E args st = Some st'" "roster_ok (this_server E) st" "no_nul args"
    "m = JOINED \<Longrightarrow> \<not> joins_twice E args st"
  shows "roster_ok (this_server E) st' \<and>
    roster (this_server E) st' =
      (if m = JOINED \<and> join_is_lost E args st then roster (this_server E) st
       else roster_after m args (roster (this_server E) st))"
proof (cases m)
  case JOINED
  then show ?thesis using assms joined_refines [of E args st st'] by simp
next
  case PART
  then show ?thesis using assms part_refines [of E args st st'] by simp
next
  case PARTED
  then show ?thesis using assms parted_refines [of E args st st'] by simp
next
  case TOPIC
  then show ?thesis using assms topic_refines [of E args st st'] by simp
next
  case NAMES
  then show ?thesis using assms names_refines [of E args st st'] by simp
next
  case ENDNAMES
  then show ?thesis using assms endnames_refines [of E args st st'] by simp
qed

subsection \<open>Sessions\<close>

fun session :: "'w nap_env \<Rightarrow> (channel_msg \<times> cstr) list \<Rightarrow> 'w client \<Rightarrow> 'w client option" where
  "session E [] st = Some st"
| "session E ((m, args) # ms) st = Option.bind (handle m E args st) (session E ms)"

text \<open>What keeps a session from failing.\<close>

definition nick_speeds_ok :: "channel_struct \<Rightarrow> bool" where
  "nick_speeds_ok ch \<longleftrightarrow> (\<forall>n \<in> set (nicks ch). 0 \<le> speed n)"

definition shown_ok :: "window \<Rightarrow> bool" where
  "shown_ok w \<longleftrightarrow> (nchannels w \<noteq> [] \<longrightarrow> current_channel w \<noteq> None) \<and> (\<forall>ch \<in> set (nchannels w). nick_speeds_ok ch)"

definition flood_set :: "flood_env \<Rightarrow> flood_state \<Rightarrow> bool" where
  "flood_set env fs \<longleftrightarrow> flood_ok fs \<and> (from_server env = - 1 \<or> FLOOD_USERS_VAR env = 0 \<or> flood fs \<noteq> None \<or> users fs \<noteq> FLOOD_USERS_VAR env)"

definition session_ok :: "'w nap_env \<Rightarrow> 'w client \<Rightarrow> bool" where
  "session_ok E st \<longleftrightarrow>
     (\<forall>w \<in> set (windows st). shown_ok w) \<and> this_server E \<in> wserver ` set (windows st) \<and> flood_set (fl E) (floods_seen st) \<and>
     (show_channel_names E \<longrightarrow> names_nickcolor E \<noteq> None)"

text \<open>The speed that a message gives is not negative.\<close>

fun polite :: "channel_msg \<times> cstr \<Rightarrow> bool" where
  "polite (PARTED, args) = (0 \<le> to_int32 (my_atol (Some (snd (next_arg (snd (next_arg (snd (next_arg args)))))))))"
| "polite (NAMES, args) = (0 \<le> to_int32 (my_atol (Some (snd (next_arg (snd (next_arg (snd (next_arg args)))))))))"
| "polite _ = True"

lemma flood_set_step:
  assumes "flood_set env fs"
  shows "\<exists>fs' r. check_flooding env fs who chan t = Some (fs', r) \<and> flood_set env fs'"
proof (cases "from_server env = - 1 \<or> FLOOD_USERS_VAR env = 0")
  case True
  then show ?thesis using assms by (auto simp: check_flooding_def flood_set_def flood_ok_def)
next
  case False
  then obtain fs' r b where c: "check_flooding env fs who chan t = Some (fs', r, b)" "flood_ok fs'"
    using check_flooding_returns [of fs env who chan t] assms by (auto simp: flood_set_def)
  moreover have "flood fs' \<noteq> None" using c False by (auto simp: check_flooding_def Let_def split: if_splits option.splits prod.splits)
  ultimately show ?thesis by (auto simp: flood_set_def)
qed

lemma session_ok_hook [simp]: "session_ok E (snd (do_hook E k s st)) = session_ok E st"
  by (simp add: session_ok_def)

lemma change_window_floods [simp]: "floods_seen (change_window i f st) = floods_seen st" "floods_seen (change_channel i chan g st) = floods_seen st"
  by (simp_all add: change_window_def change_channel_def)

lemma session_ok_change_window:
  assumes "session_ok E st" "\<And>w. w \<in> set (windows st) \<Longrightarrow> shown_ok w \<Longrightarrow> shown_ok (f w)" "\<And>w. wserver (f w) = wserver w"
  shows "session_ok E (change_window i f st)"
proof (cases "i < length (windows st)")
  case True
  have "set (windows (change_window i f st)) \<subseteq> insert (f (windows st ! i)) (set (windows st))"
    by (simp add: change_window_def set_update_subset_insert)
  moreover have "map wserver (windows (change_window i f st)) = map wserver (windows st)"
    using True by (simp add: change_window_def map_update assms(3) list_update_same_conv)
  then have "wserver ` set (windows (change_window i f st)) = wserver ` set (windows st)" by (metis set_map)
  moreover have "\<forall>w \<in> insert (f (windows st ! i)) (set (windows st)). shown_ok w"
    using assms(1,2) True by (auto simp: session_ok_def)
  ultimately show ?thesis using assms(1) unfolding session_ok_def change_window_floods by blast
qed (use assms(1) in \<open>simp add: change_window_def list_update_beyond\<close>)

lemma session_ok_change_channel:
  assumes "session_ok E st" "\<And>ch. nick_speeds_ok ch \<Longrightarrow> nick_speeds_ok (f ch)"
  shows "session_ok E (change_channel i chan f st)"
  unfolding change_channel_def
proof (rule session_ok_change_window [OF assms(1)])
  fix w assume w: "shown_ok w"
  have "change_named cname chan f (nchannels w) = [] \<longleftrightarrow> nchannels w = []"
    by (cases "nchannels w") auto
  with w show "shown_ok (w\<lparr>nchannels := change_named cname chan f (nchannels w)\<rparr>)"
    using assms(2) by (auto simp: shown_ok_def dest!: set_change_named)
qed simp

lemma change_window_twice: "windows (change_window i f (change_window i g st)) = windows (change_window i (f \<circ> g) st)"
  by (cases "i < length (windows st)") (simp_all add: change_window_def list_update_beyond)

lemma n_speed_nonneg: "n_speed i = None \<longleftrightarrow> i < 0"
  by (simp add: n_speed_def MAX_SPEED_def Let_def)

lemma show_speed_nonneg: "0 \<le> i \<Longrightarrow> show_speed b i st = Some st"
  by (simp add: show_speed_def n_speed_nonneg)

lemma found_window:
  assumes "find_channel E chan st = Some i"
  shows "i < length (windows st)" "windows st ! i \<in> set (windows st)" "nchannels (windows st ! i) \<noteq> []"
    "wserver (windows st ! i) = this_server E"
proof -
  obtain us w vs where "windows st = us @ w # vs" "length us = i" "wserver w = this_server E" "has_channel chan w"
    using assms first_window_Some unfolding find_channel_def by blast
  then show "i < length (windows st)" "windows st ! i \<in> set (windows st)" "nchannels (windows st ! i) \<noteq> []"
    "wserver (windows st ! i) = this_server E"
    by (auto simp: has_channel_def)
qed

lemma joined_safe:
  assumes ok: "session_ok E st"
  shows "\<exists>st'. cmd_joined E args st = Some st' \<and> session_ok E st'"
proof (cases "fst (next_arg args)")
  case None
  then show ?thesis using ok by (simp add: cmd_joined_def)
next
  case (Some chan)
  have ent: "session_ok E (enter_channel E i chan s)" if "session_ok E s" for i s
  proof -
    define new where "new = (new_channel chan)\<lparr>injoin := True, cserver := this_server E\<rparr>"
    have "session_ok E (change_window i (\<lambda>w. w\<lparr>nchannels := insert_named cname new (nchannels w), current_channel := Some chan\<rparr>) s)"
      using that by (rule session_ok_change_window) (auto simp: shown_ok_def nick_speeds_ok_def new_def new_channel_def)
    moreover have "windows (enter_channel E i chan s) =
        windows (change_window i (\<lambda>w. w\<lparr>nchannels := insert_named cname new (nchannels w), current_channel := Some chan\<rparr>) s)"
      by (cases "i < length (windows s)")
        (simp_all add: enter_channel_def Let_def split_def change_window_def list_update_beyond new_def)
    moreover have "floods_seen (enter_channel E i chan s) = floods_seen s"
      by (simp add: enter_channel_def Let_def split_def)
    ultimately show ?thesis by (simp add: session_ok_def)
  qed
  have "session_ok E (change_window i (\<lambda>w. w\<lparr>waiting_channels := remove_named cname chan (waiting_channels w)\<rparr>) st)" for i
    using ok by (rule session_ok_change_window) (auto simp: shown_ok_def)
  moreover have "join_place (this_server E) chan False (windows st) \<noteq> Unset"
    using ok join_place_cases(4) [of "this_server E" chan False "windows st"] by (auto simp: session_ok_def)
  ultimately show ?thesis using ok ent Some by (auto simp: cmd_joined_def split: joining.split)
qed

lemma switch_none:
  assumes "current_channel (windows s ! i) = None"
  shows "\<exists>s'. switch_channels_window E i s = Some s' \<and> floods_seen s' = floods_seen s \<and>
    windows s' = windows (change_window i (\<lambda>w. w\<lparr>current_channel :=
      (if nchannels (windows s ! i) = [] then None else Some (cname (hd (nchannels (windows s ! i)))))\<rparr>) s)"
proof (cases "i < length (windows s)")
  case True
  have "(windows s ! i)\<lparr>current_channel := None\<rparr> = windows s ! i" using assms by (cases "windows s ! i") simp
  then have "(windows s)[i := (windows s ! i)\<lparr>current_channel := None\<rparr>] = windows s" by simp
  with assms show ?thesis by (auto simp: switch_channels_window_def Let_def change_window_def)
qed (use assms in \<open>auto simp: switch_channels_window_def Let_def change_window_def list_update_beyond\<close>)

lemma part_safe:
  assumes ok: "session_ok E st"
  shows "\<exists>st'. cmd_partchannel E args st = Some st' \<and> session_ok E st'"
proof (cases "\<exists>chan i. fst (next_arg args) = Some chan \<and> find_channel E chan st = Some i")
  case False
  then show ?thesis using ok by (auto simp: cmd_partchannel_def split: option.split)
next
  case True
  then obtain chan i where v: "fst (next_arg args) = Some chan" "find_channel E chan st = Some i" by blast
  note w = found_window [OF v(2)]
  obtain cur where cur: "current_channel (windows st ! i) = Some cur"
    using ok w(2,3) by (auto simp: session_ok_def shown_ok_def)
  define rem where "rem = (\<lambda>w :: window. w\<lparr>nchannels := remove_named cname chan (nchannels w)\<rparr>)"
  have sub: "set (remove_named cname chan chs) \<subseteq> set chs" for chs by (rule set_remove_named)
  have s: "session_ok E (change_window i rem st)"
    using ok sub by (intro session_ok_change_window) (auto simp: rem_def shown_ok_def)
  show ?thesis
  proof (cases "my_stricmp chan cur = 0")
    case False
    then show ?thesis using s v cur by (auto simp: cmd_partchannel_def rem_def [symmetric] Let_def)
  next
    case True
    define s1 where "s1 = change_window i (\<lambda>w. w\<lparr>current_channel := None\<rparr>) (change_window i rem st)"
    have c: "current_channel (windows s1 ! i) = None" using w(1) by (simp add: s1_def change_window_def)
    define nc where "nc = (if nchannels (windows s1 ! i) = [] then None else Some (cname (hd (nchannels (windows s1 ! i)))))"
    obtain s2 where s2: "switch_channels_window E i s1 = Some s2" "floods_seen s2 = floods_seen s1"
      "windows s2 = windows (change_window i (\<lambda>w. w\<lparr>current_channel := nc\<rparr>) s1)"
      using switch_none [OF c, of E] unfolding nc_def by blast
    have ws: "windows s2 = (windows st)[i := (rem (windows st ! i))\<lparr>current_channel := nc\<rparr>]"
      using w(1) by (simp add: s2(3) s1_def change_window_def)
    have n: "nchannels (windows s1 ! i) = nchannels (rem (windows st ! i))" using w(1) by (simp add: s1_def change_window_def)
    define f where "f w = (if w = windows st ! i then (rem w)\<lparr>current_channel := nc\<rparr> else w)" for w
    have "session_ok E (change_window i f st)"
      using ok sub by (intro session_ok_change_window) (auto simp: f_def rem_def shown_ok_def nc_def n)
    then have "session_ok E s2"
      using ws s2(2) by (simp add: session_ok_def change_window_def f_def s1_def)
    then show ?thesis
      using s2(1) v cur True by (auto simp: cmd_partchannel_def rem_def [symmetric] s1_def [symmetric] Let_def)
  qed
qed

lemma speeds_ok_remove: "nick_speeds_ok ch \<Longrightarrow> nick_speeds_ok (ch\<lparr>nicks := remove_named nname who (nicks ch)\<rparr>)"
  using set_remove_named [of nname who "nicks ch"] by (auto simp: nick_speeds_ok_def)

lemma speeds_ok_put: "nick_speeds_ok ch \<Longrightarrow> 0 \<le> sp \<Longrightarrow> nick_speeds_ok (ch\<lparr>nicks := put_nick who sh sp (nicks ch)\<rparr>)"
  by (auto simp: nick_speeds_ok_def put_nick_def new_nick_def dest!: set_change_named split: if_splits)

lemma parted_safe:
  assumes ok: "session_ok E st" and "polite (PARTED, args)"
  shows "\<exists>st'. cmd_parted E args st = Some st' \<and> session_ok E st'"
  using assms session_ok_change_channel [OF ok speeds_ok_remove]
  by (auto simp: cmd_parted_def Let_def split_def show_speed_nonneg split: option.split)

lemma topic_safe:
  assumes ok: "session_ok E st"
  shows "\<exists>st'. cmd_topic E args st = Some st' \<and> session_ok E st'"
proof -
  have "session_ok E (change_channel i chan (\<lambda>ch. ch\<lparr>topic := Some r\<rparr>) st)" for i chan r
    by (rule session_ok_change_channel [OF ok]) (simp add: nick_speeds_ok_def)
  then show ?thesis using ok by (auto simp: cmd_topic_def split: option.split prod.split)
qed

lemma names_safe:
  assumes ok: "session_ok E st" and p: "polite (NAMES, args)"
  shows "\<exists>st'. cmd_names E args st = Some st' \<and> session_ok E st'"
proof (cases "\<exists>chan who i. fst (next_arg args) = Some chan \<and> fst (next_arg (snd (next_arg args))) = Some who \<and> find_channel E chan st = Some i")
  case False
  then show ?thesis using ok by (auto simp: cmd_names_def Let_def split_def split: option.split)
next
  case True
  then obtain chan who i where v: "fst (next_arg args) = Some chan" "fst (next_arg (snd (next_arg args))) = Some who"
    "find_channel E chan st = Some i" by blast
  define a3 where "a3 = next_arg (snd (next_arg (snd (next_arg args))))"
  define sp where "sp = to_int32 (my_atol (Some (snd a3)))"
  have sp: "0 \<le> sp" using p by (simp add: sp_def a3_def)
  define st1 where "st1 = change_channel i chan (\<lambda>ch. ch\<lparr>nicks := put_nick who (to_ulong (my_atol (fst a3))) sp (nicks ch)\<rparr>) st"
  have s1: "session_ok E st1" unfolding st1_def by (rule session_ok_change_channel [OF ok]) (simp add: speeds_ok_put sp)
  then obtain fs r where f: "check_flooding (fl E) (floods_seen st1) who (Some chan) JOIN_FLOOD = Some (fs, r)" "flood_set (fl E) fs"
    using flood_set_step [of "fl E" "floods_seen st1" who "Some chan" JOIN_FLOOD] by (auto simp: session_ok_def)
  have s2: "session_ok E (st1\<lparr>floods_seen := fs\<rparr>)" using s1 f(2) by (simp add: session_ok_def)
  show ?thesis
    using f s2 sp unfolding st1_def sp_def a3_def
    by (auto simp: cmd_names_def Let_def split_def v show_speed_nonneg)
qed

lemma select_all: "select_nicks None ns = Some ns"
  by (induction ns) auto

lemma endnames_safe:
  assumes ok: "session_ok E st"
  shows "\<exists>st'. cmd_endnames E args st = Some st' \<and> session_ok E st'"
proof (cases "fst (next_arg args)")
  case None
  then show ?thesis using ok by (simp add: cmd_endnames_def)
next
  case (Some chan)
  have ne: "windows st \<noteq> []" using ok by (auto simp: session_ok_def)
  define i where "i = (case find_channel E chan st of Some i \<Rightarrow> i | None \<Rightarrow> length (windows st) - 1)"
  have i: "i < length (windows st)"
    using ne found_window(1) [of E chan st] by (auto simp: i_def split: option.split)
  have ent: "session_ok E (change_window i (\<lambda>w. w\<lparr>current_channel := Some chan\<rparr>) s)" if "session_ok E s" for s
    using that by (rule session_ok_change_window) (auto simp: shown_ok_def)
  show ?thesis
  proof (cases "channel_at i chan st")
    case None
    then show ?thesis using Some ne ent [OF ok] by (simp add: cmd_endnames_def i_def [symmetric])
  next
    case ch: (Some ch)
    define s1 where "s1 = change_channel i chan (\<lambda>ch. ch\<lparr>injoin := False\<rparr>) st"
    have s1: "session_ok E s1" unfolding s1_def
      by (rule session_ok_change_channel [OF ok]) (simp add: nick_speeds_ok_def)
    have "ch \<in> set (nchannels (windows st ! i))" using ch find_named_Some [of cname chan "nchannels (windows st ! i)" ch] by (auto simp: channel_at_def)
    then have "nick_speeds_ok ch" using ok i by (auto simp: session_ok_def shown_ok_def)
    then have "show_channel_names E \<Longrightarrow> name_print E (nicks ch) False None s1 =
        Some (snd (do_hook E NAMES_LIST (joinw [ltoa (int (length (nicks ch))), fmt_s (names_text (nicks ch))]) s1))"
      using ok by (auto simp: session_ok_def name_print_def select_all Let_def split_def n_speed_nonneg nick_speeds_ok_def
          leD)
    then show ?thesis
      using Some ne ch ent [OF s1] ent s1
      by (auto simp: cmd_endnames_def i_def [symmetric] s1_def [symmetric] Let_def)
  qed
qed

text \<open>The format of nicks is copied without a look whether there is one.\<close>

lemma unset_format_crashes:
  assumes "names_nickcolor E = None" "show_channel_names E" "fst (next_arg args) = Some chan"
    "find_channel E chan st = Some i" "channel_at i chan st = Some ch" "nicks ch \<noteq> []"
    "\<And>txt w. 1 \<le> fst (run_hook E NAMES_LIST txt w)" "windows st \<noteq> []"
  shows "cmd_endnames E args st = None"
  using assms by (simp add: cmd_endnames_def Let_def name_print_def select_all split_def do_hook_def not_less)

text \<open>
  C5: Whatever the server sends about channels, the handlers return, with every later message as
  well, as long as the speeds in the messages are not negative, some window belongs to the server, a window with
  channels has a current one, the table of flooders is there, and the format of nicks (\<open>NAMES_NICKCOLOR\<close>)
  has not been taken away while the names of a channel are shown: no NULL pointer is followed, no
  variable is used before it is set, and no table is read outside its bounds. The texts that are
  printed fit their buffers. Without the format a list of members ends in a copy from NULL
  (\<open>unset_format_crashes\<close>).
\<close>

theorem polite_session_returns:
  assumes "session_ok E st" "list_all polite ms"
  shows "\<exists>st'. session E ms st = Some st' \<and> session_ok E st'"
  using assms
proof (induction ms arbitrary: st)
  case (Cons m ms)
  obtain k args where m: "m = (k, args)" by (cases m)
  have "\<exists>st'. handle k E args st = Some st' \<and> session_ok E st'"
    using Cons.prems joined_safe [of E st args] part_safe [of E st args] parted_safe [of E st args]
      topic_safe [of E st args] names_safe [of E st args] endnames_safe [of E st args]
    by (cases k) (simp_all add: m del: polite.simps)
  then show ?case using Cons by (auto simp: m)
qed simp

subsection \<open>Examples\<close>

definition sample_nap_env :: "unit nap_env" where
  "sample_nap_env =
     \<lparr>fl = example_env 5, my_nick = ''me'', run_hook = (\<lambda>k s w. (1, w)), grab_http = (\<lambda>a b c w. w),
      show_channel_names = True, names_nickcolor = Some ''       %s'', irc_mode = False\<rparr>"

definition sample_window :: "int \<Rightarrow> channel_struct list \<Rightarrow> window" where
  "sample_window srv chs =
     \<lparr>wserver = srv, last_server = - 1, nchannels = chs, oldchannels = [], waiting_channels = [],
      current_channel = (if chs = [] then None else Some (cname (hd chs)))\<rparr>"

definition sample_channel :: "cstr \<Rightarrow> nick_struct list \<Rightarrow> channel_struct" where
  "sample_channel s ns = \<lparr>cname = s, topic = None, injoin = False, cserver = 0, nicks = ns\<rparr>"

definition sample_client :: "window list \<Rightarrow> unit client" where
  "sample_client ws =
     \<lparr>windows = ws, current_window = 0, nap_hotlist = [], ignores = [], cignores = [], floods_seen = flood_init,
      channel_count = 0, nick_count = 0, listmode = None, sent = [], outside = ()\<rparr>"

definition two_windows :: "unit client" where
  "two_windows =
     sample_client [sample_window 1 [], sample_window 0 [sample_channel ''#a'' [], sample_channel ''#b'' [\<lparr>nname = ''bob'', speed = 3, shared = 7\<rparr>]]]"

lemma sample_server [simp]: "this_server sample_nap_env = 0"
  by (simp add: sample_nap_env_def example_env_def)

lemma two_windows_ok: "roster_ok 0 two_windows" "session_ok sample_nap_env two_windows"
  by code_simp+

theorem channel_messages_refine_witness:
  "\<exists>st'. cmd_joined sample_nap_env ''#c'' two_windows = Some st' \<and> roster_ok 0 st' \<and>
    roster 0 st' = roster_after JOINED ''#c'' (roster 0 two_windows)"
proof -
  obtain st' where st': "cmd_joined sample_nap_env ''#c'' two_windows = Some st'"
    using joined_safe [OF two_windows_ok(2)] by blast
  have "\<not> joins_twice sample_nap_env ''#c'' two_windows" "\<not> join_is_lost sample_nap_env ''#c'' two_windows"
    by code_simp+
  then show ?thesis
    using channel_messages_refine [of JOINED sample_nap_env "''#c''" two_windows st'] st' two_windows_ok by simp
qed

lemma sample_polite:
  "list_all polite [(JOINED, ''#c''), (NAMES, ''#c eve 10 2''), (ENDNAMES, ''#c''), (PARTED, ''#b BOB 7 3''), (PART, ''#a'')]"
  by code_simp

theorem polite_session_returns_witness:
  "\<exists>st'. session sample_nap_env
     [(JOINED, ''#c''), (NAMES, ''#c eve 10 2''), (ENDNAMES, ''#c''), (PARTED, ''#b BOB 7 3''), (PART, ''#a'')] two_windows = Some st'
   \<and> session_ok sample_nap_env st'"
  by (rule polite_session_returns [OF two_windows_ok(2) sample_polite])

end
