(* ===== verification/Reconnect.thy ===== *)
theory Reconnect
  imports ChannelRoster
begin

section \<open>Channels across a lost connection, and where windows lose them\<close>

text \<open>
  The path of the channels through \<open>close_server\<close>, \<open>auto_reconnect\<close>, \<open>login_to_server\<close> and
  \<open>cmd_joined\<close>: they come back to the windows they were in, when one of them is the current window;
  otherwise the login takes the windows of another server along. Then the faults of the handlers: a
  channel nobody waits for goes to the last window, of whatever server; a negative speed is used as
  an index.
\<close>

subsection \<open>Coming back\<close>

text \<open>A window on the way back: the channels of \<open>w0\<close> with keys in \<open>D\<close> are joined, the others waited for.\<close>

definition rejoining :: "int \<Rightarrow> nat list set \<Rightarrow> window \<Rightarrow> window \<Rightarrow> bool" where
  "rejoining srv D w0 w \<longleftrightarrow> wserver w = wserver w0 \<and>
     (wserver w0 = srv \<longrightarrow> names_ok cname (nchannels w) \<and> names_ok cname (waiting_channels w) \<and>
        keys (nchannels w) = keys (nchannels w0) \<inter> D \<and> keys (waiting_channels w) = keys (nchannels w0) - D)"

lemma names_ok_no_nul: "names_ok nm xs \<Longrightarrow> \<forall>x \<in> set xs. no_nul (nm x)"
  by (simp add: names_ok_def in_order_def)

lemma found_iff_key: "names_ok cname chs \<Longrightarrow> no_nul chan \<Longrightarrow> find_named cname chan chs \<noteq> None \<longleftrightarrow> ckey chan \<in> keys chs"
  using find_named_None [of chs cname chan] names_ok_no_nul [of cname chs] by (simp add: keys_def)

lemma keys_insert: "keys (insert_named cname ch chs) = insert (ckey (cname ch)) (keys chs)"
  by (simp add: keys_def)

lemma keys_remove: "names_ok cname chs \<Longrightarrow> no_nul chan \<Longrightarrow> keys (remove_named cname chan chs) = keys chs - {ckey chan}"
  by (induction chs) (auto simp: my_stricmp_zero_iff keys_def)

lemma rejoining_other: "rejoining srv D w0 w \<Longrightarrow> wserver w0 \<noteq> srv \<or> k \<notin> keys (nchannels w0) \<Longrightarrow> rejoining srv (insert k D) w0 w"
  by (auto simp: rejoining_def)

definition joined_window :: "'w nap_env \<Rightarrow> cstr \<Rightarrow> window \<Rightarrow> window" where
  "joined_window E chan w =
     w\<lparr>waiting_channels := remove_named cname chan (waiting_channels w),
       nchannels := insert_named cname ((new_channel chan)\<lparr>injoin := True, cserver := this_server E\<rparr>) (nchannels w),
       current_channel := Some chan\<rparr>"

lemma rejoining_this:
  assumes "rejoining srv D w0 w" "wserver w0 = srv" "no_nul chan" "ckey chan \<in> keys (nchannels w0)" "ckey chan \<notin> D"
  shows "rejoining srv (insert (ckey chan) D) w0 (joined_window E chan w)"
proof -
  have "key_map cname (nchannels w) (ckey chan) = None"
    using assms by (auto simp: rejoining_def key_map_None keys_def [symmetric])
  then show ?thesis using assms
    by (auto simp: rejoining_def joined_window_def keys_insert keys_remove names_ok_insert names_ok_remove new_channel_def)
qed

lemma rejoin_place:
  assumes "list_all2 (rejoining srv D) ws0 ws" "separate (chans srv ws0)" "no_nul chan"
    "ckey chan \<in> keys (chans srv ws0)" "ckey chan \<notin> D"
  shows "\<exists>us w vs. ws = us @ w # vs \<and> join_place srv chan seen ws = Waiting (length us) \<and>
    list_all2 (rejoining srv (insert (ckey chan) D)) ws0 (us @ joined_window E chan w # vs)"
  using assms
proof (induction ws0 ws arbitrary: seen rule: list_all2_induct)
  case (Cons w0 ws0 w ws)
  show ?case
  proof (cases "wserver w0 = srv \<and> ckey chan \<in> keys (nchannels w0)")
    case True
    then have r: "names_ok cname (nchannels w)" "names_ok cname (waiting_channels w)" "wserver w = srv"
      "ckey chan \<notin> keys (nchannels w)" "ckey chan \<in> keys (waiting_channels w)"
      using Cons.hyps(1) Cons.prems(4) by (auto simp: rejoining_def)
    have "\<forall>v \<in> set ws0. wserver v \<noteq> srv \<or> ckey chan \<notin> keys (nchannels v)"
      using Cons.prems(1) True by (auto simp: chans_def keys_def)
    then have "list_all2 (rejoining srv (insert (ckey chan) D)) ws0 ws"
      using Cons.hyps(2) by (auto intro!: rejoining_other elim!: list.rel_mono_strong)
    moreover have "join_place srv chan seen (w # ws) = Waiting 0"
      using r found_iff_key [OF r(1) Cons.prems(2)] found_iff_key [OF r(2) Cons.prems(2)] by (simp add: has_channel_def)
    ultimately show ?thesis
      using rejoining_this [OF Cons.hyps(1) _ Cons.prems(2) _ Cons.prems(4), of E] True
      by (intro exI [of _ "[]"] exI [of _ w] exI [of _ ws]) simp
  next
    case False
    define seen' where "seen' = (if wserver w = srv then True else seen)"
    have s: "wserver w = wserver w0" using Cons.hyps(1) by (simp add: rejoining_def)
    have jp: "join_place srv chan seen (w # ws) = later (join_place srv chan seen' ws)"
    proof (cases "wserver w = srv")
      case True
      then have r: "names_ok cname (nchannels w)" "names_ok cname (waiting_channels w)"
        "ckey chan \<notin> keys (nchannels w)" "ckey chan \<notin> keys (waiting_channels w)"
        using Cons.hyps(1) False s by (auto simp: rejoining_def)
      then show ?thesis using True found_iff_key [OF r(1) Cons.prems(2)] found_iff_key [OF r(2) Cons.prems(2)]
        by (simp add: has_channel_def seen'_def)
    qed (simp add: seen'_def)
    have "separate (chans srv ws0)" "ckey chan \<in> keys (chans srv ws0)"
      using Cons.prems(1,3) False by (auto split: if_splits)
    from Cons.IH [OF this(1) Cons.prems(2) this(2) Cons.prems(4), of seen'] obtain us v vs where
      "ws = us @ v # vs" "join_place srv chan seen' ws = Waiting (length us)"
      "list_all2 (rejoining srv (insert (ckey chan) D)) ws0 (us @ joined_window E chan v # vs)" by blast
    moreover have "rejoining srv (insert (ckey chan) D) w0 w" using rejoining_other [OF Cons.hyps(1)] False by auto
    ultimately show ?thesis using jp by (intro exI [of _ "w # us"] exI [of _ v] exI [of _ vs]) simp
  qed
qed simp


lemma rejoin_already:
  assumes "list_all2 (rejoining srv D) ws0 ws" "separate (chans srv ws0)" "no_nul chan"
    "ckey chan \<in> keys (chans srv ws0)" "ckey chan \<in> D"
  shows "join_place srv chan seen ws = Already"
  using assms
proof (induction ws0 ws arbitrary: seen rule: list_all2_induct)
  case (Cons w0 ws0 w ws)
  have s: "wserver w = wserver w0" using Cons.hyps(1) by (simp add: rejoining_def)
  show ?case
  proof (cases "wserver w = srv")
    case True
    then have r: "names_ok cname (nchannels w)" "names_ok cname (waiting_channels w)"
      "ckey chan \<in> keys (nchannels w) \<longleftrightarrow> ckey chan \<in> keys (nchannels w0)" "ckey chan \<notin> keys (waiting_channels w)"
      using Cons.hyps(1) s Cons.prems(4) by (auto simp: rejoining_def)
    note f = found_iff_key [OF r(1) Cons.prems(2)] found_iff_key [OF r(2) Cons.prems(2)]
    show ?thesis
      using True f r(3,4) Cons.IH Cons.prems s
      by (cases "ckey chan \<in> keys (nchannels w0)") (auto simp: has_channel_def)
  next
    case False
    then show ?thesis using Cons s by simp
  qed
qed simp

lemma enter_joined:
  assumes "windows st = us @ w # vs"
  shows "windows (enter_channel E (length us) chan
      (change_window (length us) (\<lambda>w. w\<lparr>waiting_channels := remove_named cname chan (waiting_channels w)\<rparr>) st)) =
    us @ joined_window E chan w # vs"
  using assms by (simp add: enter_channel_def Let_def split_def change_window_def joined_window_def)

definition first_words :: "cstr list \<Rightarrow> nat list set" where
  "first_words lines = {k. \<exists>args \<in> set lines. \<exists>c. fst (next_arg args) = Some c \<and> k = ckey c}"

lemma rejoin_all:
  assumes "list_all2 (rejoining (this_server E) D) ws0 (windows st)" "separate (chans (this_server E) ws0)"
    "\<forall>args \<in> set lines. no_nul args" "first_words lines \<subseteq> keys (chans (this_server E) ws0)"
  shows "\<exists>st'. session E (map (Pair JOINED) lines) st = Some st' \<and>
    list_all2 (rejoining (this_server E) (D \<union> first_words lines)) ws0 (windows st')"
  using assms
proof (induction lines arbitrary: D st)
  case Nil
  then show ?case by (simp add: first_words_def)
next
  case (Cons args lines)
  have fw: "first_words (args # lines) = (case fst (next_arg args) of None \<Rightarrow> {} | Some c \<Rightarrow> {ckey c}) \<union> first_words lines"
    by (auto simp: first_words_def split: option.split)
  have sub: "first_words lines \<subseteq> keys (chans (this_server E) ws0)" using Cons.prems(4) fw by auto
  have "\<exists>s. cmd_joined E args st = Some s \<and>
    list_all2 (rejoining (this_server E) (D \<union> (case fst (next_arg args) of None \<Rightarrow> {} | Some c \<Rightarrow> {ckey c}))) ws0 (windows s)"
  proof (cases "fst (next_arg args)")
    case None
    then show ?thesis using Cons.prems(1) by (simp add: cmd_joined_def)
  next
    case (Some c)
    have c: "no_nul c" "ckey c \<in> keys (chans (this_server E) ws0)"
      using Cons.prems(3,4) Some fw next_arg_no_nul [of args "Some c" "snd (next_arg args)"] by (auto simp: prod_eq_iff)
    show ?thesis
    proof (cases "ckey c \<in> D")
      case True
      then have "D \<union> {ckey c} = D" by auto
      then show ?thesis
        using rejoin_already [OF Cons.prems(1,2) c True] Some Cons.prems(1) by (simp add: cmd_joined_def)
    next
      case False
      obtain us w vs where w: "windows st = us @ w # vs" "join_place (this_server E) c False (windows st) = Waiting (length us)"
        "list_all2 (rejoining (this_server E) (insert (ckey c) D)) ws0 (us @ joined_window E c w # vs)"
        using rejoin_place [OF Cons.prems(1,2) c False] by blast
      then show ?thesis using Some by (simp add: cmd_joined_def enter_joined [OF w(1)])
    qed
  qed
  then obtain s where s: "cmd_joined E args st = Some s"
    "list_all2 (rejoining (this_server E) (D \<union> (case fst (next_arg args) of None \<Rightarrow> {} | Some c \<Rightarrow> {ckey c}))) ws0 (windows s)"
    by blast
  show ?case using Cons.IH [OF s(2) Cons.prems(2) _ sub] Cons.prems(3) s(1) fw by (simp add: Un_assoc)
qed

text \<open>What closing, logging in again and \<open>auto_reconnect\<close> do to the windows of a client whose servers are all connected.\<close>

definition came_back :: "int \<Rightarrow> window \<Rightarrow> window" where
  "came_back srv w =
     (if wserver w = srv
      then w\<lparr>nchannels := [], oldchannels := [],
             waiting_channels := map (\<lambda>ch. ch\<lparr>nicks := [], injoin := True\<rparr>) (nchannels w),
             current_channel := (if nchannels w = [] then None else Some (cname (last (nchannels w))))\<rparr>
      else w)"

lemma first_window_exists: "\<exists>w \<in> set ws. P w \<Longrightarrow> \<exists>i. first_window P ws = Some i"
  using first_window_None [of P ws] by auto

lemma attach_idem: "wserver w = srv \<Longrightarrow> last_server w = - 1 \<Longrightarrow> attach srv w = w"
  by (cases w) (simp add: attach_def)

lemma close_windows:
  "windows (close_server_channels srv st) = map (\<lambda>w. if wserver w = srv
     then w\<lparr>wserver := - 1, last_server := srv, oldchannels := map (\<lambda>ch. ch\<lparr>nicks := [], injoin := True\<rparr>) (nchannels w),
            nchannels := [], current_channel := None\<rparr>
     else w) (windows st)"
  by (simp add: close_server_channels_def clear_nicks_def change_windows_def Let_def comp_def)

definition relogged :: "int \<Rightarrow> window \<Rightarrow> window" where
  "relogged srv w = (if wserver w = srv then (came_back srv w)\<lparr>wserver := - 1, last_server := srv\<rparr> else w)"

lemma hotlist_windows:
  assumes "\<forall>w \<in> set (windows st). wserver w \<noteq> - 1" "this_server E = srv"
  shows "windows (send_hotlist E (close_server_channels srv st)) = map (relogged srv) (windows st)"
  unfolding send_hotlist_def Let_def change_windows_def
  using assms by (auto simp: close_windows relogged_def hotlist_window_def came_back_def last_map)

text \<open>Where every server is connected, nothing is closed.\<close>

lemma check_connected:
  assumes "\<forall>w \<in> set (windows st). wserver w < 0 \<or> connected (wserver w)"
  shows "window_check_servers connected n st = st"
proof -
  have one: "check_server connected (int i) st = st" for i
    using first_window_Some [of "\<lambda>w. wserver w = int i" "windows st"] assms
    by (fastforce simp: check_server_def split: option.split)
  have "fold (check_server connected) (map int is) st = st" for "is"
    by (induction "is") (simp_all add: one)
  then show ?thesis by (simp add: window_check_servers_def)
qed

text \<open>
  The windows after a new login: those of the server are back, and all windows of the server of the
  current window, if that is another one, have been moved to the server as well.
\<close>

definition taken_over :: "int \<Rightarrow> int \<Rightarrow> window \<Rightarrow> window" where
  "taken_over old srv w = (if wserver w = old \<and> old \<noteq> srv then w\<lparr>wserver := srv\<rparr> else came_back srv w)"

lemma login_windows:
  assumes all: "\<forall>w \<in> set (windows st). wserver w \<noteq> - 1 \<and> last_server w = - 1 \<and> connected (wserver w)"
    and srv: "this_server E = srv" "srv \<noteq> - 1" "connected srv" and cur: "current_window st < length (windows st)"
  defines "old \<equiv> wserver (windows st ! current_window st)"
  shows "\<exists>st'. login_to_server connected n E srv (close_server_channels srv st) = (srv, st') \<and>
    windows st' = map (\<lambda>w. if wserver w = srv then (came_back srv w)\<lparr>last_server := srv, wserver := if old = srv then srv else - 1\<rparr>
      else taken_over old srv w) (windows st)"
proof -
  define st1 where "st1 = send_hotlist E (close_server_channels srv st)"
  have w1: "windows st1 = map (relogged srv) (windows st)"
    unfolding st1_def using all by (intro hotlist_windows [OF _ srv(1)]) auto
  have c1: "current_window st1 = current_window st"
    by (simp add: st1_def send_hotlist_def close_server_channels_def clear_nicks_def change_windows_def Let_def)
  define old1 where "old1 = wserver (windows st1 ! current_window st)"
  have o1: "old1 = (if old = srv then - 1 else old)"
    using cur by (simp add: old1_def old_def w1 relogged_def)
  define st2 where "st2 = change_windows (\<lambda>w. wserver w = old1) (\<lambda>w. w\<lparr>wserver := srv\<rparr>) st1"
  have "old \<noteq> - 1" using all cur by (simp add: old_def)
  then have "(if wserver (relogged srv w) = old1 then (relogged srv w)\<lparr>wserver := srv\<rparr> else relogged srv w) =
      (if wserver w = srv then (came_back srv w)\<lparr>last_server := srv, wserver := if old = srv then srv else - 1\<rparr>
       else taken_over old srv w)" if "w \<in> set (windows st)" for w
    using bspec [OF all that] srv(2)
    by (cases w; cases "wserver w = srv") (simp_all add: relogged_def taken_over_def came_back_def o1)
  then have w2: "windows st2 = map (\<lambda>w. if wserver w = srv
        then (came_back srv w)\<lparr>last_server := srv, wserver := if old = srv then srv else - 1\<rparr>
        else taken_over old srv w) (windows st)"
    by (simp add: st2_def change_windows_def w1)
  have "wserver w < 0 \<or> connected (wserver w)" if "w \<in> set (windows st2)" for w
    using that all srv(3) by (auto simp: w2 came_back_def taken_over_def split: if_splits)
  then have "window_check_servers connected n st2 = st2" by (intro check_connected) blast
  moreover have "login_to_server connected n E srv (close_server_channels srv st) = (srv, window_check_servers connected n st2)"
    by (simp add: login_to_server_def set_window_server_def st1_def [symmetric] c1 old1_def [symmetric] st2_def)
  ultimately show ?thesis using w2 by auto
qed

lemma reconnect_windows:
  assumes all: "\<forall>w \<in> set (windows st). wserver w \<noteq> - 1 \<and> last_server w = - 1 \<and> connected (wserver w)"
    and srv: "this_server E = srv" "0 \<le> srv" "srv < int n" "connected srv" and cur: "current_window st < length (windows st)"
    and some: "\<exists>w \<in> set (windows st). wserver w = srv"
  shows "\<exists>st'. auto_reconnect (login_to_server connected n E) (int n) srv (close_server_channels srv st) = (False, st') \<and>
    windows st' = map (taken_over (wserver (windows st ! current_window st)) srv) (windows st)"
proof -
  define old where "old = wserver (windows st ! current_window st)"
  define P where "P = (\<lambda>w :: window. srv < int n \<and> wserver w = - 1 \<and> last_server w \<noteq> - 1 \<and> last_server w = srv)"
  have "\<exists>w \<in> set (windows (close_server_channels srv st)). P w"
    using some srv unfolding close_windows set_map bex_simps by (auto simp: P_def)
  then obtain i where i: "first_window P (windows (close_server_channels srv st)) = Some i"
    using first_window_exists by blast
  have l: "i < length (windows st)" "wserver (windows st ! i) = srv"
    using first_window_Some [OF i] all srv(2) by (auto simp: close_windows map_eq_append_conv map_eq_Cons_conv P_def split: if_splits)
  have "srv \<noteq> - 1" using srv(2) by simp
  then obtain st1 where st1: "login_to_server connected n E srv (close_server_channels srv st) = (srv, st1)"
    and w1: "windows st1 = map (\<lambda>w. if wserver w = srv then (came_back srv w)\<lparr>last_server := srv, wserver := if old = srv then srv else - 1\<rparr>
      else taken_over old srv w) (windows st)"
    using login_windows [OF all srv(1) _ srv(4) cur, of n] unfolding old_def by blast
  define st2 where "st2 = change_window i (attach srv) st1"
  have at: "attach srv ((came_back srv w)\<lparr>last_server := a, wserver := b\<rparr>) = came_back srv w"
    if "wserver w = srv" "last_server w = - 1" for w a b
    using that by (cases w) (simp add: attach_def came_back_def)
  have "windows (change_windows (\<lambda>w. last_server w \<noteq> - 1 \<and> last_server w = srv) (attach srv) st2) = map (taken_over old srv) (windows st)"
  proof (rule nth_equalityI)
    fix j assume "j < length (windows (change_windows (\<lambda>w. last_server w \<noteq> - 1 \<and> last_server w = srv) (attach srv) st2))"
    then have j: "j < length (windows st)" by (simp add: change_windows_def st2_def change_window_def w1)
    then have o: "wserver (windows st ! j) \<noteq> - 1" "last_server (windows st ! j) = - 1" using all by auto
    show "windows (change_windows (\<lambda>w. last_server w \<noteq> - 1 \<and> last_server w = srv) (attach srv) st2) ! j =
        map (taken_over old srv) (windows st) ! j"
    proof (cases "wserver (windows st ! j) = srv")
      case True
      have "last_server (came_back srv (windows st ! j)) = - 1" "wserver (came_back srv (windows st ! j)) = srv"
        using True o by (simp_all add: came_back_def)
      then show ?thesis
        using j True o srv(2) at [OF True o(2)]
        by (cases "j = i") (auto simp: change_windows_def st2_def change_window_def w1 taken_over_def)
    next
      case False
      then show ?thesis
        using j o l by (cases "j = i") (auto simp: change_windows_def st2_def change_window_def w1 taken_over_def came_back_def)
    qed
  qed (simp add: change_windows_def st2_def change_window_def w1)
  moreover have "auto_reconnect (login_to_server connected n E) (int n) srv (close_server_channels srv st) =
      (False, change_windows (\<lambda>w. last_server w \<noteq> - 1 \<and> last_server w = srv) (attach srv) st2)"
    unfolding auto_reconnect_def P_def [symmetric] i using srv by (simp add: st1 st2_def)
  ultimately show ?thesis by (simp add: old_def)
qed

lemma sorted_keys_unique:
  assumes "names_ok cname xs" "names_ok cname ys" "keys xs = keys ys"
  shows "map (\<lambda>ch. ckey (cname ch)) xs = map (\<lambda>ch. ckey (cname ch)) ys"
  using assms by (intro sorted_distinct_set_unique) (simp_all add: names_ok_def in_order_def keys_def)

definition channel_keys :: "int \<Rightarrow> window \<Rightarrow> nat list list" where
  "channel_keys srv w = (if wserver w = srv then map (\<lambda>ch. ckey (cname ch)) (nchannels w) else [])"

lemma rejoined:
  assumes ok: "roster_ok srv st" and srv: "this_server E = srv"
    and joins: "\<forall>args \<in> set lines. no_nul args" "first_words lines = keys (chans srv (windows st))"
    and st1: "windows st1 = map (came_back srv) (windows st)"
  shows "\<exists>st2. session E (map (Pair JOINED) lines) st1 = Some st2 \<and>
    map wserver (windows st2) = map wserver (windows st) \<and>
    map (channel_keys srv) (windows st2) = map (channel_keys srv) (windows st)"
proof -
  have sep: "separate (chans srv (windows st))" and wok: "\<forall>w \<in> set (windows st). window_ok w"
    using ok by (auto simp: roster_ok_def)
  have nok: "names_ok cname (nchannels w)" if w: "w \<in> set (windows st)" "wserver w = srv" for w
  proof -
    obtain us vs where "windows st = us @ w # vs" using w(1) by (meson split_list)
    then show ?thesis using roster_ok_window(1) [OF ok _ w(2)] by blast
  qed
  have k: "keys (map (\<lambda>ch. ch\<lparr>nicks := [], injoin := True\<rparr>) chs) = keys chs" for chs :: "channel_struct list"
    by (simp add: keys_def image_image)
  have nm: "names_ok cname (map (\<lambda>ch. ch\<lparr>nicks := [], injoin := True\<rparr>) chs) = names_ok cname chs" for chs :: "channel_struct list"
    by (induction chs) auto
  have "list_all2 (rejoining (this_server E) {}) (windows st) (windows st1)"
    using nok by (auto simp: st1 list_all2_map2 list.rel_refl_strong rejoining_def came_back_def k nm srv
        intro!: list.rel_refl_strong)
  then obtain st2 where st2: "session E (map (Pair JOINED) lines) st1 = Some st2"
    "list_all2 (rejoining (this_server E) (first_words lines)) (windows st) (windows st2)"
    using rejoin_all [of E "{}" "windows st" st1 lines] sep joins srv by auto
  have sub: "keys (nchannels w) \<subseteq> first_words lines" if "w \<in> set (windows st)" "wserver w = srv" for w
    using that joins(2) by (auto simp: chans_def keys_def)
  have "list_all2 (\<lambda>w0 w. wserver w0 = wserver w \<and> channel_keys srv w0 = channel_keys srv w) (windows st) (windows st2)"
  proof (rule list.rel_mono_strong [OF st2(2)])
    fix w0 w assume w: "w0 \<in> set (windows st)" "w \<in> set (windows st2)" "rejoining (this_server E) (first_words lines) w0 w"
    then show "wserver w0 = wserver w \<and> channel_keys srv w0 = channel_keys srv w"
      using nok [OF w(1)] sub [OF w(1)] sorted_keys_unique [of "nchannels w0" "nchannels w"]
      by (auto simp: rejoining_def channel_keys_def srv Int_absorb2)
  qed
  then have "map wserver (windows st2) = map wserver (windows st)" "map (channel_keys srv) (windows st2) = map (channel_keys srv) (windows st)"
    by (induction rule: list_all2_induct) simp_all
  then show ?thesis using st2(1) by blast
qed


text \<open>
  C19: After the connection to a server was lost, the login of \<open>auto_reconnect\<close> gives the server back
  its windows, and with the current window among them the answers to the JOINs it sent, in any order and
  with repetitions, give every window the channels of the server again that it had before, in the same
  order. But the login ends with \<open>set_window_server\<close> for the current window: when that is a window of
  another server, all windows of that server are moved to the one that has come back.
  Before the loss every window has a server, all these servers are connected, and none is
  waited for; the connection is opened at once and the hooks leave the windows alone.
\<close>

theorem reconnect_restores_channels:
  assumes ok: "roster_ok srv st" and srv: "this_server E = srv" "0 \<le> srv" "srv < int n"
    and all: "\<forall>w \<in> set (windows st). wserver w \<noteq> - 1 \<and> last_server w = - 1 \<and> connected (wserver w)"
    and some: "\<exists>w \<in> set (windows st). wserver w = srv" and cur: "current_window st < length (windows st)"
    and joins: "\<forall>args \<in> set lines. no_nul args" "first_words lines = keys (chans srv (windows st))"
  defines "old \<equiv> wserver (windows st ! current_window st)"
  shows "\<exists>st1. auto_reconnect (login_to_server connected n E) (int n) srv (close_server_channels srv st) = (False, st1) \<and>
    map wserver (windows st1) = map (\<lambda>w. if wserver w = old then srv else wserver w) (windows st) \<and>
    (old = srv \<longrightarrow> (\<exists>st2. session E (map (Pair JOINED) lines) st1 = Some st2 \<and>
      map wserver (windows st2) = map wserver (windows st) \<and>
      map (channel_keys srv) (windows st2) = map (channel_keys srv) (windows st)))"
proof -
  have con: "connected srv" using all some by auto
  obtain st1 where st1: "auto_reconnect (login_to_server connected n E) (int n) srv (close_server_channels srv st) = (False, st1)"
    "windows st1 = map (taken_over old srv) (windows st)"
    using reconnect_windows [OF all srv con cur some] unfolding old_def by blast
  have "map wserver (windows st1) = map (\<lambda>w. if wserver w = old then srv else wserver w) (windows st)"
    by (auto simp: st1(2) taken_over_def came_back_def)
  moreover have "\<exists>st2. session E (map (Pair JOINED) lines) st1 = Some st2 \<and>
      map wserver (windows st2) = map wserver (windows st) \<and>
      map (channel_keys srv) (windows st2) = map (channel_keys srv) (windows st)" if "old = srv"
  proof (rule rejoined [OF ok srv(1) joins])
    show "windows st1 = map (came_back srv) (windows st)" using that by (auto simp: st1(2) taken_over_def)
  qed
  ultimately show ?thesis using st1(1) by blast
qed

subsection \<open>A join nobody waits for\<close>

text \<open>
  When the server puts the user on a channel that no window waits for, and the last window in
  the traversal belongs to another server, the channel is entered in that window: the roster of the
  server does not get it, and what the server says next about its members is dropped.
\<close>

theorem unexpected_join_is_lost:
  assumes "roster_ok (this_server E) st" "fst (next_arg args) = Some chan" "no_nul chan"
    "join_place (this_server E) chan False (windows st) = Nowhere" "wserver (last (windows st)) \<noteq> this_server E"
  shows "\<exists>st'. cmd_joined E args st = Some st' \<and> has_channel chan (last (windows st')) \<and>
    roster (this_server E) st' = roster (this_server E) st \<and>
    (\<forall>who. fst (next_arg who) = Some chan \<longrightarrow> cmd_names E who st' = Some st')"
proof -
  define i where "i = length (windows st) - 1"
  define st' where "st' = enter_channel E i chan st"
  define w where "w = last (windows st)"
  have ne: "windows st \<noteq> []" using assms(4) by auto
  then have st: "windows st = butlast (windows st) @ w # []" "length (butlast (windows st)) = i"
    by (simp_all add: w_def i_def)
  define new where "new = (new_channel chan)\<lparr>injoin := True, cserver := this_server E\<rparr>"
  define w' where "w' = w\<lparr>nchannels := insert_named cname new (nchannels w), current_channel := Some chan\<rparr>"
  have w': "windows st' = butlast (windows st) @ w' # []"
    using enter_channel_windows [OF st, of E chan] by (simp add: st'_def w'_def new_def)
  have "window_ok w" using assms(1) ne by (simp add: roster_ok_def w_def)
  then have ok: "window_ok w'" "wserver w' = wserver w"
    using assms(3) by (auto simp: w'_def window_ok_def in_order_insert new_def new_channel_def)
  note f = foreign_window [OF assms(1) st(1) _ ok(2,1) w']
  have same: "roster (this_server E) st' = roster (this_server E) st" "roster_ok (this_server E) st'"
    using f assms(5) by (simp_all add: w_def)
  have "ckey chan \<in> keys (nchannels w')" by (simp add: w'_def keys_insert new_def new_channel_def)
  then have has: "has_channel chan (last (windows st'))" using has_channel_key [OF ok(1) assms(3)] w' by simp
  have "\<forall>v \<in> set (windows st'). wserver v = this_server E \<longrightarrow> \<not> has_channel chan v"
  proof -
    have "set (butlast (windows st)) \<subseteq> set (windows st)" by (auto dest: in_set_butlastD)
    then show ?thesis using join_place_cases(3) [OF assms(4)] assms(5) ok(2) w' by (auto simp: w_def)
  qed
  then have "find_channel E chan st' = None" by (simp add: find_channel_def first_window_None)
  then have "\<forall>who. fst (next_arg who) = Some chan \<longrightarrow> cmd_names E who st' = Some st'"
    by (auto simp: cmd_names_def Let_def split_def split: option.split)
  moreover have "cmd_joined E args st = Some st'" using assms(2,4) by (simp add: cmd_joined_def st'_def i_def)
  ultimately show ?thesis using has same by blast
qed

text \<open>The channels of a closed window go to the last window as well when no window of their server is left.\<close>

lemma moved_to_foreign_window:
  assumes "\<forall>w \<in> set (windows st). wserver w \<noteq> wserver win" "0 \<le> wserver win" "nchannels win \<noteq> []" "windows st \<noteq> []"
  shows "nchannels (last (windows (move_window_channels win st))) =
    fold (insert_named cname) (nchannels win) (nchannels (last (windows st)))"
proof -
  have "first_window (\<lambda>w. wserver w = wserver win) (windows st) = None" using assms(1) by (simp add: first_window_None)
  then show ?thesis using assms(2-4)
    by (simp add: move_window_channels_def change_window_def Let_def last_list_update last_conv_nth)
qed

subsection \<open>Examples\<close>

lemma reconnect_premises:
  "first_words [''#B'', ''#a''] = keys (chans 0 (windows two_windows))"
  "\<forall>w \<in> set (windows two_windows). wserver w \<noteq> - 1 \<and> last_server w = - 1"
  "\<exists>w \<in> set (windows two_windows). wserver w = 0"
proof -
  have "first_words [''#B'', ''#a''] = {ckey ''#B'', ckey ''#a''}"
  proof -
    have "fst (next_arg ''#B'') = Some ''#B''" "fst (next_arg ''#a'') = Some ''#a''" by code_simp+
    then show ?thesis by (auto simp: first_words_def simp del: ckey_simps)
  qed
  moreover have "chans 0 (windows two_windows) = [sample_channel ''#a'' [], sample_channel ''#b'' [\<lparr>nname = ''bob'', speed = 3, shared = 7\<rparr>]]"
    by (simp add: two_windows_def sample_client_def sample_window_def)
  moreover have "ckey ''#B'' = ckey ''#b''" by code_simp
  ultimately show "first_words [''#B'', ''#a''] = keys (chans 0 (windows two_windows))"
    by (auto simp: sample_channel_def simp del: ckey_simps)
qed (simp_all add: two_windows_def sample_client_def sample_window_def)

definition at_second :: "unit client" where
  "at_second = two_windows\<lparr>current_window := 1\<rparr>"

lemma at_second_ok:
  "roster_ok 0 at_second" "current_window at_second < length (windows at_second)"
  "\<forall>w \<in> set (windows at_second). wserver w \<noteq> - 1 \<and> last_server w = - 1 \<and> wserver w \<in> {0, 1}"
  "first_words [''#B'', ''#a''] = keys (chans 0 (windows at_second))" "\<exists>w \<in> set (windows at_second). wserver w = 0"
  using two_windows_ok(1) reconnect_premises
  by (simp_all add: at_second_def two_windows_def sample_client_def sample_window_def roster_ok_def)

theorem reconnect_restores_channels_witness:
  "\<exists>st1 st2. auto_reconnect (login_to_server (\<lambda>i. i \<in> {0, 1}) 2 sample_nap_env) 2 0 (close_server_channels 0 at_second) = (False, st1) \<and>
    session sample_nap_env (map (Pair JOINED) [''#B'', ''#a'']) st1 = Some st2 \<and>
    map wserver (windows st2) = [1, 0] \<and>
    map (channel_keys 0) (windows st2) = [[], [ckey ''#a'', ckey ''#b'']]"
proof -
  have "map wserver (windows at_second) = [1, 0]" "wserver (windows at_second ! current_window at_second) = 0"
    "map (channel_keys 0) (windows at_second) = [[], [ckey ''#a'', ckey ''#b'']]"
    by (simp_all add: at_second_def two_windows_def sample_client_def sample_window_def sample_channel_def channel_keys_def)
  moreover have "\<forall>args \<in> set [''#B'', ''#a'']. no_nul args" by simp
  ultimately show ?thesis
    using reconnect_restores_channels [OF at_second_ok(1) sample_server _ _ at_second_ok(3,5,2) _ at_second_ok(4), of 2] by auto
qed

text \<open>With the window of the other server as the current one, both windows end up with the server that has come back.\<close>

lemma reconnect_takes_windows:
  "\<exists>st1. auto_reconnect (login_to_server (\<lambda>i. i \<in> {0, 1}) 2 sample_nap_env) 2 0 (close_server_channels 0 two_windows) = (False, st1) \<and>
    map wserver (windows two_windows) = [1, 0] \<and> map wserver (windows st1) = [0, 0]"
proof -
  have "\<forall>w \<in> set (windows two_windows). wserver w \<noteq> - 1 \<and> last_server w = - 1 \<and> wserver w \<in> {0, 1}"
    "current_window two_windows < length (windows two_windows)" "map wserver (windows two_windows) = [1, 0]"
    "map wserver (map (taken_over 1 0) (windows two_windows)) = [0, 0]" "wserver (windows two_windows ! current_window two_windows) = 1"
    by (simp_all add: two_windows_def sample_client_def sample_window_def taken_over_def came_back_def)
  then show ?thesis
    using reconnect_windows [OF _ sample_server, of two_windows "\<lambda>i. i \<in> {0, 1}" 2] reconnect_premises(3) by auto
qed

theorem unexpected_join_is_lost_witness:
  "\<exists>st'. cmd_joined sample_nap_env ''#c'' (two_windows\<lparr>windows := rev (windows two_windows)\<rparr>) = Some st' \<and>
    has_channel ''#c'' (last (windows st')) \<and> roster 0 st' = roster 0 (two_windows\<lparr>windows := rev (windows two_windows)\<rparr>) \<and>
    cmd_names sample_nap_env ''#c eve 1 2'' st' = Some st'"
proof -
  have "roster_ok 0 (two_windows\<lparr>windows := rev (windows two_windows)\<rparr>)" "fst (next_arg ''#c'') = Some ''#c''"
    "join_place 0 ''#c'' False (windows (two_windows\<lparr>windows := rev (windows two_windows)\<rparr>)) = Nowhere"
    "wserver (last (windows (two_windows\<lparr>windows := rev (windows two_windows)\<rparr>))) \<noteq> 0"
    "fst (next_arg ''#c eve 1 2'') = Some ''#c''"
    by code_simp+
  then show ?thesis
    using unexpected_join_is_lost [of sample_nap_env "two_windows\<lparr>windows := rev (windows two_windows)\<rparr>" "''#c''" "''#c''"]
    by auto
qed

text \<open>A negative speed of a member is an index in front of the table of speeds.\<close>

lemma negative_speed_crashes:
  assumes "next_arg args = (Some chan, a1)" "next_arg a1 = (Some who, a2)" "find_channel E chan st = Some i"
    "channel_at i chan st = Some ch" "find_named nname who (nicks ch) \<noteq> None"
    "to_int32 (my_atol (Some (snd (next_arg a2)))) < 0"
    "\<And>txt w. fst (run_hook E LEAVE_LIST txt w) \<noteq> 0" "ignores st = []" "cignores st = []"
  shows "cmd_parted E args st = None"
  using assms
  by (auto simp: cmd_parted_def Let_def split_def show_speed_def n_speed_nonneg check_cignore_def check_nignore_def
      change_channel_def change_window_def do_hook_def)

text \<open>So is a level of a channel that is not in the table of classes.\<close>

lemma unknown_level_crashes:
  assumes "next_arg args = (nm, a1)" "next_arg a1 = (num, a2)" "next_arg a2 = (unk, a3)" "next_arg a3 = (Some lev, a4)"
    "my_atol (Some lev) < 0 \<or> 5 < my_atol (Some lev)" "listmode st = None" "\<And>txt w. fst (run_hook E LIST_LIST txt w) \<noteq> 0"
  shows "cmd_newchannellist E args st = None"
  using assms by (auto simp: cmd_newchannellist_def Let_def split_def do_hook_def user_class_def)

end
