(* ===== verification/ServerList.thy ===== *)
theory ServerList
  imports Args NameList
begin

section \<open>The list of servers (source/server.c)\<close>

text \<open>
  The array \<open>server_list\<close> with its searches, the parsing of server descriptions, the file of saved
  servers, and the list of recent messages (the tab key) and the flags each server carries. The
  connections, the users and the search results of a server are left out. What depends on global
  settings is the parameter \<open>server_cfg\<close>.
\<close>

subsection \<open>State\<close>

record Msgs =
  mnick :: cstr
  mtext :: cstr
  mtime :: int

record Server =
  sname :: cstr
  smeta :: int
  sport :: int
  spassword :: "cstr option"
  d_nickname :: "cstr option"
  itsname :: "cstr option"
  motd :: int
  version :: int
  msgs :: "Msgs list"
  waiting_out :: int
  waiting_in :: int
  cloak :: int
  sping :: int
  slevel :: int
  user_count :: int

record server_cfg =
  default_port :: int                \<comment> \<open>\<open>DEFAULT_METASERVER_VAR\<close>\<close>
  default_password :: "cstr option"
  default_nickname :: "cstr option"
  suppress_motd :: int
  nickname :: "cstr option"          \<comment> \<open>the globals that \<open>build_server_list\<close> falls back to\<close>
  password :: "cstr option"
  nap_port :: int

subsection \<open>Searching and adding\<close>

fun find_loop :: "cstr \<Rightarrow> int \<Rightarrow> int \<Rightarrow> int \<Rightarrow> Server list \<Rightarrow> int" where
  "find_loop server port i hintfound [] = hintfound"
| "find_loop server port i hintfound (s # ss) =
     (if port \<noteq> 0 \<and> sport s \<noteq> 0 \<and> port \<noteq> sport s \<and> port \<noteq> - 1
      then find_loop server port (i + 1) hintfound ss
      else if - 1 \<noteq> hintfound \<or> my_strnicmp server (sname s) (length server) = 0
      then if my_stricmp server (sname s) = 0 then i
           else find_loop server port (i + 1) (if - 1 = hintfound then i else hintfound) ss
      else find_loop server port (i + 1) hintfound ss)"

definition find_in_server_list :: "Server list \<Rightarrow> cstr \<Rightarrow> int \<Rightarrow> int" where
  "find_in_server_list sl server port = find_loop server port 0 (- 1) sl"

definition parse_server_index :: "Server list \<Rightarrow> cstr \<Rightarrow> int" where
  "parse_server_index sl inp =
     (if is_number inp
      then let i = to_int32 (my_atol (Some inp)) in if 0 \<le> i \<and> i < int (length sl) then i else - 1
      else - 1)"

text \<open>\<open>malloc_strcpy\<close> of a non-empty value, or else of the default.\<close>

definition or_default :: "cstr option \<Rightarrow> cstr option \<Rightarrow> cstr option" where
  "or_default v d = (case v of None \<Rightarrow> d | Some s \<Rightarrow> if s = [] then d else Some s)"

definition new_server :: "server_cfg \<Rightarrow> cstr \<Rightarrow> int \<Rightarrow> cstr option \<Rightarrow> cstr option \<Rightarrow> int \<Rightarrow> Server" where
  "new_server cfg server port pass nick meta =
     \<lparr>sname = server, smeta = meta, sport = port, spassword = or_default pass (default_password cfg),
      d_nickname = or_default nick (default_nickname cfg), itsname = None, motd = suppress_motd cfg, version = 0,
      msgs = [], waiting_out = 0, waiting_in = 0, cloak = 0, sping = 0, slevel = 0, user_count = 0\<rparr>"

definition overwrite_server :: "server_cfg \<Rightarrow> int \<Rightarrow> cstr option \<Rightarrow> cstr option \<Rightarrow> Server \<Rightarrow> Server" where
  "overwrite_server cfg port pass nick s =
     s\<lparr>sport := port,
       spassword := (if pass \<noteq> None \<or> spassword s = None then or_default pass (default_password cfg) else spassword s),
       d_nickname := (if nick \<noteq> None \<or> d_nickname s = None then or_default nick (default_nickname cfg) else d_nickname s)\<rparr>"

lemma sname_overwrite [simp]: "sname (overwrite_server cfg port pass nick s) = sname s"
  by (simp add: overwrite_server_def)

definition add_to_server_list ::
  "server_cfg \<Rightarrow> cstr \<Rightarrow> int \<Rightarrow> cstr option \<Rightarrow> cstr option \<Rightarrow> int \<Rightarrow> bool \<Rightarrow> Server list \<Rightarrow> int \<times> Server list" where
  "add_to_server_list cfg server port pass nick meta overwrite sl =
     (let serv = find_in_server_list sl server port
      in if serv = - 1 then (int (length sl), sl @ [new_server cfg server port pass nick meta])
         else
           let s = sl ! nat serv;
               s1 = (if overwrite then overwrite_server cfg port pass nick s else s);
               s2 = s1\<lparr>motd := suppress_motd cfg\<rparr>;
               s3 = (if length (sname s2) < length server then s2\<lparr>sname := server\<rparr> else s2)
           in (serv, sl[nat serv := s3]))"

lemma find_loop_range:
  "find_loop server port i h sl = h \<or> i \<le> find_loop server port i h sl \<and> find_loop server port i h sl < i + int (length sl)"
proof (induction sl arbitrary: i h)
  case (Cons s sl)
  show ?case using Cons [of "i + 1" h] Cons [of "i + 1" i] by auto
qed simp

lemma find_in_server_list_range:
  "find_in_server_list sl server port \<noteq> - 1 \<Longrightarrow>
    0 \<le> find_in_server_list sl server port \<and> find_in_server_list sl server port < int (length sl)"
  using find_loop_range [of server port 0 "- 1" sl] by (auto simp: find_in_server_list_def)

lemma parse_server_index_range:
  "parse_server_index sl inp \<noteq> - 1 \<Longrightarrow> 0 \<le> parse_server_index sl inp \<and> parse_server_index sl inp < int (length sl)"
  by (auto simp: parse_server_index_def Let_def split: if_splits)

lemma add_to_server_list_valid:
  "add_to_server_list cfg server port pass nick meta overwrite sl = (r, sl') \<Longrightarrow>
    0 \<le> r \<and> r < int (length sl') \<and> length sl \<le> length sl'"
  using find_in_server_list_range [of sl server port] by (auto simp: add_to_server_list_def Let_def split: if_splits)

subsection \<open>Descriptions of servers\<close>

text \<open>What \<open>strchr\<close> and writing NUL over the delimiter make of a text.\<close>

definition cut :: "char \<Rightarrow> cstr \<Rightarrow> cstr \<times> cstr option" where
  "cut d s =
     (takeWhile (\<lambda>c. c \<noteq> d) s, case dropWhile (\<lambda>c. c \<noteq> d) s of [] \<Rightarrow> None | _ # r \<Rightarrow> Some r)"

definition field :: "cstr option \<Rightarrow> cstr option" where
  "field r = (case r of None \<Rightarrow> None | Some s \<Rightarrow> if s = [] then None else Some s)"

text \<open>
  The results are the name, the port, the nick, the password and the network. The last keeps its
  value when the description does not come to it.
\<close>

definition parse_server_info ::
  "cstr \<Rightarrow> cstr option \<Rightarrow> cstr \<times> cstr option \<times> cstr option \<times> cstr option \<times> cstr option" where
  "parse_server_info desc meta =
     (let d = (if CHR '','' \<in> set desc then CHR '','' else CHR '':'');
          (nm, r1) = cut d desc
      in case field r1 of
           None \<Rightarrow> (nm, None, None, None, meta)
         | Some s1 \<Rightarrow>
             (case cut d s1 of (prt, r2) \<Rightarrow>
               (case field r2 of
                  None \<Rightarrow> (nm, Some prt, None, None, meta)
                | Some s2 \<Rightarrow>
                    (case cut d s2 of (nick, r3) \<Rightarrow>
                      (case field r3 of
                         None \<Rightarrow> (nm, Some prt, Some nick, None, meta)
                       | Some s3 \<Rightarrow>
                           (case cut d s3 of (pass, r4) \<Rightarrow>
                             (nm, Some prt, Some nick, Some pass, if r4 = None then meta else field r4)))))))"

text \<open>\<open>meta\<close> is a number, or anything but \<open>on\<close>.\<close>

definition meta_value :: "cstr option \<Rightarrow> int \<Rightarrow> int" where
  "meta_value meta old =
     (case meta of
        None \<Rightarrow> old
      | Some s \<Rightarrow> if is_digit (cat s 0) then to_int32 (my_atol (Some s))
                  else if my_stricmp s ''on'' \<noteq> 0 then 1 else old)"

text \<open>\<open>rest\<close> is the text after the server, if the caller has one.\<close>

definition find_server_refnum ::
  "server_cfg \<Rightarrow> cstr \<Rightarrow> cstr option \<Rightarrow> Server list \<Rightarrow> int \<times> cstr option \<times> Server list" where
  "find_server_refnum cfg server rest sl =
     (let refnum = parse_server_index sl server
      in if refnum \<noteq> - 1
         then (refnum, rest,
           sl[nat refnum := (let s = sl ! nat refnum in
              s\<lparr>d_nickname := (if d_nickname s = None then default_nickname cfg else d_nickname s),
                spassword := (if spassword s = None then default_password cfg else spassword s)\<rparr>)])
         else
           let (nm, cport, nick, pass, meta, rest') =
             (if CHR '':'' \<in> set server \<or> CHR '','' \<in> set server
              then case parse_server_info server None of (nm, cport, nick, pass, meta) \<Rightarrow> (nm, cport, nick, pass, meta, rest)
              else case rest of
                None \<Rightarrow> (server, None, None, None, None, rest)
              | Some r0 \<Rightarrow>
                  (case next_arg r0 of (cport, r1) \<Rightarrow> case next_arg r1 of (nick, r2) \<Rightarrow>
                   case next_arg r2 of (pass, r3) \<Rightarrow> case next_arg r3 of (meta, r4) \<Rightarrow>
                     (server, cport, nick, pass, meta, Some r4)));
             port = (case field cport of None \<Rightarrow> default_port cfg | Some p \<Rightarrow> to_int32 (my_atol (Some p)));
             (serv, sl') = add_to_server_list cfg nm port pass nick (meta_value meta 0) True sl
           in (serv, rest', sl'))"

definition add_host ::
  "server_cfg \<Rightarrow> cstr \<Rightarrow> cstr option \<Rightarrow> int \<Rightarrow> Server list \<Rightarrow> cstr option \<times> int \<times> Server list" where
  "add_host cfg host meta my_meta sl =
     (case parse_server_info host meta of (nm, prt, nick, pass, meta') \<Rightarrow>
       let port_num = (case field prt of
                         None \<Rightarrow> default_port cfg
                       | Some p \<Rightarrow> let n = to_int32 (my_atol (Some p)) in if n = 0 then nap_port cfg else n);
           my_meta' = meta_value meta' my_meta
       in (meta', my_meta',
           snd (add_to_server_list cfg nm port_num (if field pass = None then password cfg else pass)
             (if field nick = None then nickname cfg else nick) my_meta' True sl)))"

lemma new_next_arg_shorter:
  assumes "new_next_arg s = (Some h, r)" "h \<noteq> []"
  shows "length r < length s"
proof -
  define p where "p = dropWhile risspace s"
  have p: "length p \<le> length s" by (simp add: p_def length_dropWhile_le)
  have sk: "length (skip_space t) \<le> length t" for t by (cases t) (simp_all add: skip_space_def)
  show ?thesis
  proof (cases "cat p 0 = CHR 0x22")
    case True
    then obtain t where t: "p = CHR 0x22 # t" by (cases p) auto
    have "length r \<le> length (snd (quoted t))"
      using assms t sk by (auto simp: new_next_arg_def p_def [symmetric] split_def Let_def split: if_splits)
    then show ?thesis using length_snd_quoted [of t] p t by simp
  next
    case False
    then obtain c t where t: "p = c # t" "\<not> risspace c"
      using assms by (cases p) (auto simp: new_next_arg_def p_def [symmetric] Let_def split: if_splits dest: dropWhile_hd)
    have "length r \<le> length (dropWhile (\<lambda>c. \<not> risspace c) p)"
      using assms False t sk by (auto simp: new_next_arg_def p_def [symmetric] Let_def split: if_splits)
    then show ?thesis using p t length_dropWhile_le [of "\<lambda>c. \<not> risspace c" t] by simp
  qed
qed

function add_hosts ::
  "server_cfg \<Rightarrow> cstr \<Rightarrow> cstr option \<Rightarrow> int \<Rightarrow> nat \<Rightarrow> Server list \<Rightarrow> cstr option \<times> int \<times> nat \<times> Server list" where
  "add_hosts cfg line meta my_meta i sl =
     (case new_next_arg line of
        (Some host, rest) \<Rightarrow>
          if host = [] then (meta, my_meta, i, sl)
          else (case add_host cfg host meta my_meta sl of
                  (meta', my_meta', sl') \<Rightarrow> add_hosts cfg rest meta' my_meta' (i + 1) sl')
      | (None, _) \<Rightarrow> (meta, my_meta, i, sl))"
  by pat_completeness auto
termination
  by (relation "measure (\<lambda>(cfg, line, _). length line)") (auto intro: new_next_arg_shorter [OF sym])

declare add_hosts.simps [simp del]

function build_lines ::
  "server_cfg \<Rightarrow> cstr \<Rightarrow> cstr option \<Rightarrow> int \<Rightarrow> nat \<Rightarrow> Server list \<Rightarrow> nat \<times> Server list" where
  "build_lines cfg servers meta my_meta i sl =
     (case cut (CHR 0x0A) servers of
        (line, rest) \<Rightarrow>
          (case add_hosts cfg line meta my_meta i sl of
             (meta', my_meta', i', sl') \<Rightarrow>
               (case rest of None \<Rightarrow> (i', sl') | Some r \<Rightarrow> build_lines cfg r meta' my_meta' i' sl')))"
  by pat_completeness auto
termination
proof (relation "measure (\<lambda>(cfg, servers, _). length servers)", goal_cases)
  case (2 cfg servers meta my_meta i sl line rest)
  then show ?case
    using length_dropWhile_le [of "\<lambda>c. c \<noteq> CHR 0x0A" servers] by (auto simp: cut_def split: list.splits)
qed simp

declare build_lines.simps [simp del]

definition build_server_list :: "server_cfg \<Rightarrow> cstr \<Rightarrow> Server list \<Rightarrow> nat \<times> Server list" where
  "build_server_list cfg servers sl = (if servers = [] then (0, sl) else build_lines cfg servers None 0 0 sl)"

subsection \<open>The file of saved servers\<close>

definition show_opt :: "cstr option \<Rightarrow> cstr" where
  "show_opt v = (case v of None \<Rightarrow> ''(null)'' | Some s \<Rightarrow> s)"

definition server_line :: "Server \<Rightarrow> cstr" where
  "server_line s =
     sname s @ '':'' @ ltoa (sport s) @ '':'' @ show_opt (d_nickname s) @ '':'' @ show_opt (spassword s) @ '':'' @ ltoa (smeta s)"

definition save_servers :: "Server list \<Rightarrow> cstr" where
  "save_servers sl = concat (map (\<lambda>s. server_line s @ [CHR 0x0A]) sl)"

text \<open>
  The loop of \<open>read_server_list\<close>: \<open>feof\<close> is true after a line without a newline, so that the last
  line is dropped when its newline is missing. Lines are shorter than the buffer.
\<close>

function read_lines :: "server_cfg \<Rightarrow> cstr \<Rightarrow> Server list \<Rightarrow> Server list" where
  "read_lines cfg inp sl =
     (case cut (CHR 0x0A) inp of
        (line, None) \<Rightarrow> sl
      | (line, Some r) \<Rightarrow> read_lines cfg r (if line = [] then sl else snd (build_server_list cfg line sl)))"
  by pat_completeness auto
termination
proof (relation "measure (\<lambda>(cfg, inp, _). length inp)", goal_cases)
  case (2 cfg inp sl line rest)
  then show ?case
    using length_dropWhile_le [of "\<lambda>c. c \<noteq> CHR 0x0A" inp] by (auto simp: cut_def split: list.splits)
qed simp

declare read_lines.simps [simp del]


subsection \<open>What is saved is read back\<close>

definition saved :: "Server \<Rightarrow> cstr \<times> int \<times> cstr option \<times> cstr option \<times> int" where
  "saved s = (sname s, sport s, d_nickname s, spassword s, smeta s)"

text \<open>What comes back of a server: a nick or a password that is \<open>NULL\<close> has been printed as a text.\<close>

definition reloaded :: "Server \<Rightarrow> cstr \<times> int \<times> cstr option \<times> cstr option \<times> int" where
  "reloaded s = (sname s, sport s, Some (show_opt (d_nickname s)), Some (show_opt (spassword s)), smeta s)"

text \<open>Text that neither a space, a newline nor a delimiter cuts.\<close>

definition plain_field :: "cstr \<Rightarrow> bool" where
  "plain_field s \<longleftrightarrow> s \<noteq> [] \<and> list_all (\<lambda>c. \<not> risspace c \<and> c \<noteq> CHR '':'' \<and> c \<noteq> CHR '','' \<and> c \<noteq> CHR 0x0A) s"

definition plain_server :: "Server \<Rightarrow> bool" where
  "plain_server s \<longleftrightarrow>
     plain_field (sname s) \<and> cat (sname s) 0 \<noteq> CHR 0x22 \<and>
     plain_field (show_opt (d_nickname s)) \<and> plain_field (show_opt (spassword s)) \<and>
     sport s \<noteq> 0 \<and> - 2147483648 \<le> sport s \<and> sport s < 2147483648 \<and> 0 \<le> smeta s \<and> smeta s < 2147483648"

text \<open>No server is found among those before it.\<close>

fun apart :: "Server list \<Rightarrow> Server list \<Rightarrow> bool" where
  "apart pre [] = True"
| "apart pre (s # ss) = (find_in_server_list pre (sname s) (sport s) = - 1 \<and> apart (pre @ [s]) ss)"

lemma cut_simps: "d \<notin> set a \<Longrightarrow> cut d (a @ d # r) = (a, Some r)" "d \<notin> set a \<Longrightarrow> cut d a = (a, None)"
proof -
  show "d \<notin> set a \<Longrightarrow> cut d (a @ d # r) = (a, Some r)" by (induction a) (auto simp: cut_def)
  show "d \<notin> set a \<Longrightarrow> cut d a = (a, None)" by (induction a) (auto simp: cut_def)
qed

lemma ltoa_chars: "c \<in> set (ltoa n) \<Longrightarrow> is_digit c \<or> c = CHR ''-''"
proof -
  obtain d ds where "ltoa_digits (nat \<bar>n\<bar>) [] = d # ds" "is_digit d" "list_all is_digit ds"
    using ltoa_digits_Cons by blast
  then show "c \<in> set (ltoa n) \<Longrightarrow> is_digit c \<or> c = CHR ''-''"
    by (auto simp: ltoa_def Let_def list_all_iff split: if_splits)
qed

lemma plain_ltoa: "plain_field (ltoa n)"
proof -
  have "ltoa n \<noteq> []" using ltoa_digits_Cons [of "nat \<bar>n\<bar>"] by (auto simp: ltoa_def Let_def)
  moreover have "\<not> risspace c \<and> c \<noteq> CHR '':'' \<and> c \<noteq> CHR '','' \<and> c \<noteq> CHR 0x0A" if "c \<in> set (ltoa n)" for c
    using ltoa_chars [OF that] by (auto simp: is_digit_def risspace_def)
  ultimately show ?thesis by (simp add: plain_field_def list_all_iff)
qed

lemma my_atol_ltoa: "- 2147483648 \<le> n \<Longrightarrow> n < 2147483648 \<Longrightarrow> to_int32 (my_atol (Some (ltoa n))) = n"
  using strtol10_ltoa [of n "[]"] by (simp add: my_atol_def to_int32_def is_digit_def)

lemma ltoa_nonneg: "0 \<le> n \<Longrightarrow> is_digit (cat (ltoa n) 0)"
  using ltoa_digits_Cons [of "nat \<bar>n\<bar>"] by (auto simp: ltoa_def Let_def)

lemma plain_fieldD: "plain_field s \<Longrightarrow> s \<noteq> [] \<and> CHR '':'' \<notin> set s \<and> CHR '','' \<notin> set s"
  by (auto simp: plain_field_def list_all_iff)

lemma parse_server_line:
  assumes "plain_server s"
  shows "parse_server_info (server_line s) meta =
    (sname s, Some (ltoa (sport s)), Some (show_opt (d_nickname s)), Some (show_opt (spassword s)), Some (ltoa (smeta s)))"
proof -
  define n p where "n = show_opt (d_nickname s)" and "p = show_opt (spassword s)"
  note np = n_def [symmetric] p_def [symmetric]
  have "plain_field (sname s)" "plain_field n" "plain_field p" using assms by (simp_all add: plain_server_def np)
  note f = this [THEN plain_fieldD] plain_fieldD [OF plain_ltoa [of "sport s"]] plain_fieldD [OF plain_ltoa [of "smeta s"]]
  have "CHR '','' \<notin> set (server_line s)" using f by (auto simp: server_line_def np)
  then show ?thesis using f
    by (simp add: parse_server_info_def server_line_def np cut_simps field_def)
qed

lemma plain_line: "plain_server s \<Longrightarrow> plain_word (server_line s) \<and> CHR 0x0A \<notin> set (server_line s)"
proof -
  assume a: "plain_server s"
  have "list_all (\<lambda>c. \<not> risspace c \<and> c \<noteq> CHR 0x0A) (server_line s)"
  proof -
    define ok where "ok = (\<lambda>c. \<not> risspace c \<and> c \<noteq> CHR 0x0A)"
    have "list_all ok t" if "plain_field t" for t using that by (auto simp: plain_field_def list_all_iff ok_def)
    then have "list_all ok (sname s)" "list_all ok (show_opt (d_nickname s))" "list_all ok (show_opt (spassword s))"
      "list_all ok (ltoa (sport s))" "list_all ok (ltoa (smeta s))"
      using a plain_ltoa by (simp_all add: plain_server_def)
    moreover have "ok (CHR '':'')" by (simp add: ok_def risspace_def)
    ultimately show ?thesis unfolding ok_def [symmetric] by (simp add: server_line_def)
  qed
  moreover have "cat (server_line s) 0 \<noteq> CHR 0x22" "server_line s \<noteq> []"
    using a by (cases "sname s"; auto simp: server_line_def plain_server_def plain_field_def)+
  ultimately show ?thesis by (auto simp: plain_word_def list_all_iff)
qed

lemma find_loop_cong:
  "map (\<lambda>s. (sname s, sport s)) sl = map (\<lambda>s. (sname s, sport s)) sl' \<Longrightarrow>
    find_loop server port i h sl = find_loop server port i h sl'"
proof (induction sl arbitrary: sl' i h)
  case (Cons s sl)
  then obtain t tl where t: "sl' = t # tl" "sname s = sname t" "sport s = sport t"
    "map (\<lambda>s. (sname s, sport s)) sl = map (\<lambda>s. (sname s, sport s)) tl" by (cases sl') auto
  show ?case by (simp only: t find_loop.simps Cons.IH [OF t(4)])
qed simp

lemma find_saved: "map saved sl = map reloaded sl' \<Longrightarrow> find_in_server_list sl server port = find_in_server_list sl' server port"
proof -
  assume a: "map saved sl = map reloaded sl'"
  have "map (\<lambda>s. (sname s, sport s)) xs = map (\<lambda>(a, b, _). (a, b)) (map saved xs)"
    "map (\<lambda>s. (sname s, sport s)) xs = map (\<lambda>(a, b, _). (a, b)) (map reloaded xs)" for xs
    by (simp_all add: saved_def reloaded_def)
  from this(1) [of sl] this(2) [of sl'] have "map (\<lambda>s. (sname s, sport s)) sl = map (\<lambda>s. (sname s, sport s)) sl'"
    by (simp only: a)
  then show ?thesis unfolding find_in_server_list_def by (rule find_loop_cong)
qed

lemma build_saved_line:
  assumes "plain_server s" "find_in_server_list sl (sname s) (sport s) = - 1"
  shows "map saved (snd (build_server_list cfg (server_line s) sl)) = map saved sl @ [reloaded s]"
proof -
  define n p where d: "n = show_opt (d_nickname s)" "p = show_opt (spassword s)"
  then have np: "show_opt (d_nickname s) = n" "n \<noteq> []" "show_opt (spassword s) = p" "p \<noteq> []"
    using assms(1) by (simp_all add: plain_server_def plain_field_def)
  have num: "to_int32 (my_atol (Some (ltoa (sport s)))) = sport s" "to_int32 (my_atol (Some (ltoa (smeta s)))) = smeta s"
    "sport s \<noteq> 0" "is_digit (cat (ltoa (smeta s)) 0)" "ltoa (sport s) \<noteq> []"
    using assms(1) plain_fieldD [OF plain_ltoa [of "sport s"]]
    by (simp_all add: plain_server_def my_atol_ltoa ltoa_nonneg)
  define new where "new = new_server cfg (sname s) (sport s) (Some p) (Some n) (smeta s)"
  have "add_host cfg (server_line s) None 0 sl = (Some (ltoa (smeta s)), smeta s, sl @ [new])"
    using num assms(2) np
    by (simp add: add_host_def parse_server_line [OF assms(1)] field_def meta_value_def add_to_server_list_def new_def Let_def)
  moreover have "new_next_arg (server_line s) = (Some (server_line s), [])" "server_line s \<noteq> []" "CHR 0x0A \<notin> set (server_line s)"
    using plain_line [OF assms(1)] new_next_arg_plain(1) by (auto simp: plain_word_def)
  moreover have "add_hosts cfg [] m mm i sl' = (m, mm, i, sl')" for m mm i sl'
    by (subst add_hosts.simps) (simp add: new_next_arg_def)
  ultimately have "build_server_list cfg (server_line s) sl = (1, sl @ [new])"
    by (simp add: build_server_list_def build_lines.simps cut_simps add_hosts.simps [of cfg "server_line s"])
  then show ?thesis using np by (simp add: saved_def reloaded_def new_def new_server_def or_default_def)
qed

lemma read_saved:
  "list_all plain_server sl \<Longrightarrow> apart pre sl \<Longrightarrow> map saved acc = map reloaded pre \<Longrightarrow>
    map saved (read_lines cfg (save_servers sl) acc) = map reloaded pre @ map reloaded sl"
proof (induction sl arbitrary: pre acc)
  case Nil
  then show ?case by (subst read_lines.simps) (simp add: save_servers_def cut_def)
next
  case (Cons s sl)
  have s: "plain_server s" "find_in_server_list acc (sname s) (sport s) = - 1"
    using Cons.prems find_saved [OF Cons.prems(3)] by auto
  have line: "CHR 0x0A \<notin> set (server_line s)" "server_line s \<noteq> []"
    using plain_line [OF s(1)] by (auto simp: plain_word_def)
  have "read_lines cfg (save_servers (s # sl)) acc = read_lines cfg (save_servers sl) (snd (build_server_list cfg (server_line s) acc))"
    using line by (subst read_lines.simps) (simp add: save_servers_def cut_simps)
  then show ?case
    using Cons.IH [of "pre @ [s]"] Cons.prems build_saved_line [OF s] by simp
qed

text \<open>
  C21: The servers written to the file are read back in their order, with the same name, port, nick,
  password and network, except that a nick or password that is \<open>NULL\<close> comes back as the text (null).
  The conditions: no field is empty or contains a space, a colon, a comma or a newline, no name starts
  with a double quote, the port is an int other than 0 (for 0 the default port is taken), the number
  of the network is not negative, and no server is found by the search among those before it.
\<close>

theorem saved_servers_restored:
  assumes "list_all plain_server sl" "apart [] sl"
  shows "map saved (read_lines cfg (save_servers sl) []) = map reloaded sl"
  using read_saved [OF assms, of "[]"] by simp

subsection \<open>Adding and finding\<close>

definition port_fits :: "int \<Rightarrow> Server \<Rightarrow> bool" where
  "port_fits port s \<longleftrightarrow> port = 0 \<or> sport s = 0 \<or> port = sport s \<or> port = - 1"

definition named :: "cstr \<Rightarrow> int \<Rightarrow> Server \<Rightarrow> bool" where
  "named server port s \<longleftrightarrow> port_fits port s \<and> ckey (sname s) = ckey server"

definition begins :: "cstr \<Rightarrow> int \<Rightarrow> Server \<Rightarrow> bool" where
  "begins server port s \<longleftrightarrow> port_fits port s \<and> take (length server) (ckey (sname s)) = ckey server"

fun first_index :: "('a \<Rightarrow> bool) \<Rightarrow> 'a list \<Rightarrow> nat option" where
  "first_index P [] = None"
| "first_index P (x # xs) = (if P x then Some 0 else map_option Suc (first_index P xs))"

lemma first_index_None: "first_index P xs = None \<longleftrightarrow> (\<forall>x \<in> set xs. \<not> P x)"
  by (induction xs) auto

lemma first_index_Some:
  "first_index P xs = Some i \<longleftrightarrow> i < length xs \<and> P (xs ! i) \<and> (\<forall>j < i. \<not> P (xs ! j))"
proof (induction xs arbitrary: i)
  case (Cons x xs)
  then show ?case by (cases i) (auto simp: less_Suc_eq_0_disj)
qed simp

lemma first_index_cong:
  assumes "length xs = length ys" "\<And>i. P (xs ! i) = P (ys ! i)"
  shows "first_index P xs = first_index P ys"
proof -
  have "first_index P zs = first_index id (map P zs)" for zs by (induction zs) auto
  moreover have "map P xs = map P ys" using assms by (intro nth_equalityI) simp_all
  ultimately show ?thesis by metis
qed

lemma compare_names:
  assumes "no_nul server" "no_nul (sname s)"
  shows "my_stricmp server (sname s) = 0 \<longleftrightarrow> ckey (sname s) = ckey server"
    "my_strnicmp server (sname s) (length server) = 0 \<longleftrightarrow> take (length server) (ckey (sname s)) = ckey server"
proof -
  have "take (length server) (ckey server) = ckey server" by (rule take_all) simp
  then show "my_strnicmp server (sname s) (length server) = 0 \<longleftrightarrow> take (length server) (ckey (sname s)) = ckey server"
    using assms by (auto simp: my_strnicmp_zero_iff)
  show "my_stricmp server (sname s) = 0 \<longleftrightarrow> ckey (sname s) = ckey server"
    using assms by (auto simp: my_stricmp_zero_iff)
qed

lemma named_begins: "named server port s \<Longrightarrow> begins server port s"
  by (auto simp: named_def begins_def)

lemma find_loop_spec:
  assumes "no_nul server" "\<forall>s \<in> set sl. no_nul (sname s)" "- 1 \<le> h" "0 \<le> i"
  shows "find_loop server port i h sl =
    (case first_index (named server port) sl of
       Some j \<Rightarrow> i + int j
     | None \<Rightarrow> if h \<noteq> - 1 then h
               else case first_index (begins server port) sl of Some j \<Rightarrow> i + int j | None \<Rightarrow> - 1)"
  using assms(2-4)
proof (induction sl arbitrary: i h)
  case (Cons s sl)
  note n = compare_names [OF assms(1), of s]
  note IH = Cons.IH [of _ "i + 1"]
  have ns: "no_nul (sname s)" "\<forall>s \<in> set sl. no_nul (sname s)" using Cons.prems(1) by auto
  consider "\<not> port_fits port s" | "port_fits port s" "ckey (sname s) = ckey server"
    | "port_fits port s" "ckey (sname s) \<noteq> ckey server" by blast
  then show ?case
  proof cases
    case 1
    then have "\<not> named server port s" "\<not> begins server port s" by (simp_all add: named_def begins_def)
    then show ?thesis using 1 IH [of h] ns Cons.prems(2,3)
      by (auto simp: port_fits_def algebra_simps split: option.splits)
  next
    case 2
    then have nm: "named server port s" by (simp add: named_def)
    then have "begins server port s" by (rule named_begins)
    then show ?thesis using 2 nm n ns by (auto simp: port_fits_def begins_def)
  next
    case 3
    then have "\<not> named server port s" by (simp add: named_def)
    then show ?thesis using 3 n ns IH [of h] IH [of i] Cons.prems(2,3)
      by (auto simp: port_fits_def begins_def algebra_simps split: option.splits)
  qed
qed simp

text \<open>
  The search for a server returns the first one whose name is equal up to letter case and whose
  port fits (0 and -1 fit any), and otherwise the first one with a fitting port whose name begins
  with the text.
\<close>

lemma find_in_server_list_spec:
  assumes "no_nul server" "\<forall>s \<in> set sl. no_nul (sname s)"
  shows "find_in_server_list sl server port =
    (case first_index (named server port) sl of
       Some j \<Rightarrow> int j
     | None \<Rightarrow> (case first_index (begins server port) sl of Some j \<Rightarrow> int j | None \<Rightarrow> - 1))"
  using find_loop_spec [OF assms, of "- 1" 0 port] by (simp add: find_in_server_list_def cong: option.case_cong if_cong)

text \<open>
  C22: The server that \<open>add_to_server_list\<close> returns is the one the same search finds afterwards, and
  no other entry has changed.
\<close>

theorem add_then_find:
  assumes nn: "no_nul server" "\<forall>s \<in> set sl. no_nul (sname s)"
    and add: "add_to_server_list cfg server port pass nick meta overwrite sl = (r, sl')"
  shows "find_in_server_list sl' server port = r \<and> 0 \<le> r \<and> r < int (length sl') \<and>
    (\<forall>i < length sl. int i \<noteq> r \<longrightarrow> sl' ! i = sl ! i)"
proof (cases "find_in_server_list sl server port = - 1")
  case True
  then have r: "r = int (length sl)" "sl' = sl @ [new_server cfg server port pass nick meta]"
    using add by (auto simp: add_to_server_list_def)
  have none: "first_index (named server port) sl = None" "first_index (begins server port) sl = None"
    using True find_in_server_list_spec [OF nn] by (auto split: option.splits)
  have new: "named server port (new_server cfg server port pass nick meta)"
    by (simp add: named_def port_fits_def new_server_def)
  have "first_index (named server port) sl' = Some (length sl)"
    using none(1) new unfolding first_index_Some r(2) by (auto simp: nth_append first_index_None)
  moreover have "\<forall>s \<in> set sl'. no_nul (sname s)" using nn by (auto simp: r new_server_def)
  ultimately show ?thesis using find_in_server_list_spec [OF nn(1), of sl'] r by (simp add: nth_append)
next
  case False
  define k where "k = nat r"
  have r: "r = find_in_server_list sl server port" using add False by (auto simp: add_to_server_list_def Let_def)
  have k: "r = int k" "k < length sl" "begins server port (sl ! k)"
  proof -
    consider j where "first_index (named server port) sl = Some j"
      | j where "first_index (named server port) sl = None" "first_index (begins server port) sl = Some j"
      using False find_in_server_list_spec [OF nn, of port] by (auto split: option.splits)
    then have "r = int k \<and> k < length sl \<and> begins server port (sl ! k)"
    proof cases
      case 1
      then have "r = int j" using r find_in_server_list_spec [OF nn, of port] by simp
      moreover have "j < length sl \<and> named server port (sl ! j)" using 1 unfolding first_index_Some by simp
      ultimately have "r = int j" "j < length sl \<and> named server port (sl ! j)" by auto
      then show ?thesis using named_begins by (simp add: k_def)
    next
      case 2
      then have "r = int j" using r find_in_server_list_spec [OF nn, of port] by simp
      moreover have "j < length sl \<and> begins server port (sl ! j)" using 2(2) unfolding first_index_Some by simp
      ultimately have "r = int j" "j < length sl \<and> begins server port (sl ! j)" by auto
      then show ?thesis by (simp add: k_def)
    qed
    then show "r = int k" "k < length sl" "begins server port (sl ! k)" by auto
  qed
  define s1 where "s1 = (if overwrite then overwrite_server cfg port pass nick (sl ! k) else sl ! k)\<lparr>motd := suppress_motd cfg\<rparr>"
  have s1: "sname s1 = sname (sl ! k)" "sport s1 = (if overwrite then port else sport (sl ! k))"
    by (simp_all add: s1_def overwrite_server_def)
  have long: "length server \<le> length (sname (sl ! k))"
    using k(3) by (metis begins_def ckey_simps(3) length_take min.cobounded1 min_def)
  then have sl': "sl' = sl[k := s1]"
    using add False k r by (auto simp: add_to_server_list_def Let_def s1_def)
  have fits: "port_fits port s1" using k(3) by (auto simp: s1 port_fits_def begins_def)
  have same: "named server port s1 = named server port (sl ! k)" "begins server port s1"
    using k(3) fits by (auto simp: named_def begins_def s1(1))
  have eq: "named server port (sl' ! j) = named server port (sl ! j) \<and> begins server port (sl' ! j) = begins server port (sl ! j)" for j
    using same k(2,3) by (cases "j = k") (auto simp: sl')
  have fi: "first_index P sl' = first_index P sl" if "\<And>j. P (sl' ! j) = P (sl ! j)" for P
    using that by (intro first_index_cong) (simp_all add: sl')
  have "\<forall>s \<in> set sl'. no_nul (sname s)"
    using nn(2) k(2) set_update_subset_insert [of sl k s1] by (auto simp: sl' s1)
  moreover have "first_index (named server port) sl' = first_index (named server port) sl"
    "first_index (begins server port) sl' = first_index (begins server port) sl"
    using eq by (auto intro: fi)
  ultimately have "find_in_server_list sl' server port = find_in_server_list sl server port"
    by (simp add: find_in_server_list_spec [OF nn(1)] nn(2) cong: option.case_cong)
  then show ?thesis using r k sl' by auto
qed

text \<open>
  C23: The index that a server description resolves to is an index of the array, whether the
  description is a number, a known server or a new one.
\<close>

theorem find_server_refnum_valid:
  assumes "find_server_refnum cfg server rest sl = (r, rest', sl')"
  shows "0 \<le> r \<and> r < int (length sl') \<and> length sl \<le> length sl'"
proof (cases "parse_server_index sl server = - 1")
  case False
  then show ?thesis using assms parse_server_index_range [of sl server]
    by (auto simp: find_server_refnum_def Let_def)
next
  case True
  then obtain nm port pass nick meta where "add_to_server_list cfg nm port pass nick meta True sl = (r, sl')"
    using assms by (auto simp: find_server_refnum_def Let_def split_def prod_eq_iff)
  then show ?thesis by (rule add_to_server_list_valid)
qed

subsection \<open>Flags of a server\<close>

text \<open>
  The accessors let the number of servers itself pass. \<open>None\<close>: the access is to the memory behind
  the last entry. After an addition the block has one more slot there, which nothing has initialised
  (\<open>add_to_server_list\<close> makes room for \<open>number_of_servers + 1\<close> entries); after a removal the block ends
  there. What is read is not determined by the program in either case.
\<close>

definition get_field :: "(Server \<Rightarrow> int) \<Rightarrow> int \<Rightarrow> Server list \<Rightarrow> int option" where
  "get_field f server sl =
     (if server < 0 \<or> int (length sl) < server then Some 0
      else if server = int (length sl) then None else Some (f (sl ! nat server)))"

definition set_field :: "(Server \<Rightarrow> Server) \<Rightarrow> int \<Rightarrow> Server list \<Rightarrow> Server list option" where
  "set_field g server sl =
     (if server < 0 \<or> int (length sl) < server then Some sl
      else if server = int (length sl) then None else Some (sl[nat server := g (sl ! nat server)]))"

definition server_waiting_in :: "int \<Rightarrow> Server list \<Rightarrow> int option" where
  "server_waiting_in = get_field waiting_in"

definition server_waiting_out :: "int \<Rightarrow> Server list \<Rightarrow> int option" where
  "server_waiting_out = get_field waiting_out"

definition inc_server_waiting_out :: "int \<Rightarrow> Server list \<Rightarrow> Server list option" where
  "inc_server_waiting_out = set_field (\<lambda>s. s\<lparr>waiting_out := to_int32 (waiting_out s + 1)\<rparr>)"

definition inc_server_waiting_in :: "int \<Rightarrow> Server list \<Rightarrow> Server list option" where
  "inc_server_waiting_in = set_field (\<lambda>s. s\<lparr>waiting_in := to_int32 (waiting_in s + 1)\<rparr>)"

definition get_server_cloak :: "int \<Rightarrow> Server list \<Rightarrow> int option" where
  "get_server_cloak = get_field cloak"

definition set_server_cloak :: "int \<Rightarrow> int \<Rightarrow> Server list \<Rightarrow> Server list option" where
  "set_server_cloak server v = set_field (\<lambda>s. s\<lparr>cloak := v\<rparr>) server"

definition get_server_sping :: "int \<Rightarrow> Server list \<Rightarrow> int option" where
  "get_server_sping = get_field sping"

definition set_server_sping :: "int \<Rightarrow> int \<Rightarrow> Server list \<Rightarrow> Server list option" where
  "set_server_sping server v = set_field (\<lambda>s. s\<lparr>sping := v\<rparr>) server"

definition get_server_version :: "int \<Rightarrow> Server list \<Rightarrow> int option" where
  "get_server_version = get_field version"

definition set_server_version :: "int \<Rightarrow> int \<Rightarrow> Server list \<Rightarrow> Server list option" where
  "set_server_version server v = set_field (\<lambda>s. s\<lparr>version := v\<rparr>) server"

definition get_server_admin :: "int \<Rightarrow> Server list \<Rightarrow> int option" where
  "get_server_admin = get_field slevel"

definition set_server_admin :: "int \<Rightarrow> int \<Rightarrow> Server list \<Rightarrow> Server list option" where
  "set_server_admin server v = set_field (\<lambda>s. s\<lparr>slevel := v\<rparr>) server"

text \<open>What the clients of a pair of accessors rely on.\<close>

locale server_flag =
  fixes getf :: "int \<Rightarrow> Server list \<Rightarrow> int option"
    and setf :: "int \<Rightarrow> int \<Rightarrow> Server list \<Rightarrow> Server list option"
  assumes get_set: "0 \<le> i \<Longrightarrow> i < int (length sl) \<Longrightarrow> setf i v sl = Some sl' \<Longrightarrow> getf i sl' = Some v"
    and get_other: "0 \<le> i \<Longrightarrow> i < int (length sl) \<Longrightarrow> setf i v sl = Some sl' \<Longrightarrow> j \<noteq> i \<Longrightarrow> getf j sl' = getf j sl"
    and set_defined: "setf i v sl = None \<longleftrightarrow> i = int (length sl)"
    and set_length: "setf i v sl = Some sl' \<Longrightarrow> length sl' = length sl"
begin

lemma set_then_get:
  "0 \<le> i \<Longrightarrow> i < int (length sl) \<Longrightarrow>
    \<exists>sl'. setf i v sl = Some sl' \<and> length sl' = length sl \<and> (\<forall>j. getf j sl' = (if j = i then Some v else getf j sl))"
  using set_defined [of i v sl] get_set [of i sl v] get_other [of i sl v] set_length [of i v sl]
proof (cases "setf i v sl")
  case None
  assume "i < int (length sl)"
  then show ?thesis using None set_defined [of i v sl] by simp
next
  case (Some sl')
  assume "0 \<le> i" "i < int (length sl)"
  note g = get_set [OF this Some] get_other [OF this Some] set_length [OF Some]
  show ?thesis using Some g by (intro exI [of _ sl']) simp
qed

lemma set_set:
  assumes "0 \<le> i" "i < int (length sl)" "setf i v sl = Some sl1" "setf i u sl1 = Some sl2"
  shows "getf j sl2 = (if j = i then Some u else getf j sl)"
  using assms get_set [of i sl1 u sl2] get_other [of i sl1 u sl2 j] get_other [of i sl v sl1 j] set_length [of i v sl sl1]
  by auto

end

lemma set_field_inside:
  "0 \<le> i \<Longrightarrow> i < int (length sl) \<Longrightarrow> set_field g i sl = Some (sl[nat i := g (sl ! nat i)])"
  by (simp add: set_field_def)

lemma field_laws:
  assumes "\<And>v s. f (g v s) = v"
  shows "server_flag (get_field f) (\<lambda>i v. set_field (g v) i)"
proof (unfold_locales, goal_cases)
  case (1 i sl v sl')
  then show ?case using assms by (auto simp: set_field_inside get_field_def)
next
  case (2 i sl v sl' j)
  then have "sl' = sl[nat i := g v (sl ! nat i)]" "0 \<le> j \<Longrightarrow> nat i \<noteq> nat j"
    by (simp_all add: set_field_inside eq_nat_nat_iff)
  then show ?case by (simp add: get_field_def)
next
  case (3 i v sl)
  then show ?case by (simp add: set_field_def)
next
  case (4 i v sl sl')
  then show ?case by (auto simp: set_field_def split: if_splits)
qed

interpretation cloak_flag: server_flag get_server_cloak set_server_cloak
  using field_laws [of cloak "\<lambda>v s. s\<lparr>cloak := v\<rparr>"] by (simp add: get_server_cloak_def set_server_cloak_def [abs_def])

interpretation sping_flag: server_flag get_server_sping set_server_sping
  using field_laws [of sping "\<lambda>v s. s\<lparr>sping := v\<rparr>"] by (simp add: get_server_sping_def set_server_sping_def [abs_def])

interpretation version_flag: server_flag get_server_version set_server_version
  using field_laws [of version "\<lambda>v s. s\<lparr>version := v\<rparr>"] by (simp add: get_server_version_def set_server_version_def [abs_def])

interpretation admin_flag: server_flag get_server_admin set_server_admin
  using field_laws [of slevel "\<lambda>v s. s\<lparr>slevel := v\<rparr>"] by (simp add: get_server_admin_def set_server_admin_def [abs_def])

subsection \<open>Examples\<close>

definition sample_cfg :: server_cfg where
  "sample_cfg = \<lparr>default_port = 8888, default_password = Some ''secret'', default_nickname = Some ''guest'',
     suppress_motd = 0, nickname = Some ''me'', password = Some ''pw'', nap_port = 8888\<rparr>"

definition sample_servers :: "Server list" where
  "sample_servers = map (\<lambda>n. new_server sample_cfg n 8888 None None 0) [''alpha'', ''beta'', ''gamma'']"

theorem saved_servers_restored_witness:
  "list_all plain_server sample_servers \<and> apart [] sample_servers \<and>
    map saved (read_lines sample_cfg (save_servers sample_servers) []) = map reloaded sample_servers"
proof -
  have "list_all plain_server sample_servers" by code_simp
  moreover have "apart [] sample_servers" by code_simp
  ultimately have "list_all plain_server sample_servers" "apart [] sample_servers" by simp_all
  then show ?thesis using saved_servers_restored [of sample_servers sample_cfg] by blast
qed

lemma sample_names: "no_nul ''BET'' \<and> (\<forall>s \<in> set sample_servers. no_nul (sname s))"
  by (simp add: sample_servers_def new_server_def)

theorem add_then_find_witness:
  "\<exists>r sl'. add_to_server_list sample_cfg ''BET'' 8888 None None 0 True sample_servers = (r, sl') \<and>
    find_in_server_list sl' ''BET'' 8888 = r \<and> 0 \<le> r \<and> r < int (length sl')"
proof -
  obtain r sl' where a: "add_to_server_list sample_cfg ''BET'' 8888 None None 0 True sample_servers = (r, sl')"
    by (cases "add_to_server_list sample_cfg ''BET'' 8888 None None 0 True sample_servers")
  then show ?thesis using add_then_find [OF _ _ a] sample_names by blast
qed

theorem find_server_refnum_valid_witness:
  "\<exists>r rest' sl'. find_server_refnum sample_cfg ''delta:7777'' None sample_servers = (r, rest', sl') \<and>
    0 \<le> r \<and> r < int (length sl') \<and> length sample_servers \<le> length sl'"
proof -
  obtain r rest' sl' where "find_server_refnum sample_cfg ''delta:7777'' None sample_servers = (r, rest', sl')"
    using prod_cases3 by blast
  then show ?thesis using find_server_refnum_valid by blast
qed

end
