(* ===== verification/TabKeys.thy ===== *)
theory TabKeys
  imports ServerList
begin

section \<open>The recent messages of a server (source/server.c)\<close>

text \<open>
  The list behind the tab key: the nicks messages went to or came from, newest first. Pressing the
  key takes the next nick and moves it to the end.
\<close>

subsection \<open>Operations\<close>

text \<open>The messages that the loop of \<open>addtabkey\<close> passes, and those it stops before.\<close>

fun tab_scan :: "int \<Rightarrow> int \<Rightarrow> Msgs list \<Rightarrow> Msgs list \<times> Msgs list" where
  "tab_scan lim i [] = ([], [])"
| "tab_scan lim i (m # ms) =
     (if lim \<le> i then ([], m # ms) else case tab_scan lim (i + 1) ms of (xs, ys) \<Rightarrow> (m # xs, ys))"

text \<open>
  \<open>None\<close>: the head of the list is freed and stays the head. \<open>m\<close> is the new message, with the
  current time.
\<close>

definition addtabkey :: "int \<Rightarrow> Msgs \<Rightarrow> Msgs list \<Rightarrow> Msgs list option" where
  "addtabkey lim m ms =
     (if lim = 0 then if ms = [] then Some [m] else None
      else case tab_scan lim 1 ms of
        (xs, ys) \<Rightarrow> Some (if xs \<noteq> [] \<and> ys \<noteq> [] then m # xs else m # ms))"

definition tab_fits :: "cstr option \<Rightarrow> Msgs \<Rightarrow> bool" where
  "tab_fits possible m = (case possible of None \<Rightarrow> True | Some p \<Rightarrow> my_strnicmp p (mnick m) (length p) = 0)"

definition gettabkey :: "cstr option \<Rightarrow> bool \<Rightarrow> Msgs list \<Rightarrow> Msgs option \<times> Msgs list" where
  "gettabkey possible move ms =
     (case List.find (tab_fits possible) ms of
        None \<Rightarrow> (None, ms)
      | Some m \<Rightarrow>
          if \<not> move then (Some m, ms)
          else (find_named mnick (mnick m) ms,
                remove_named mnick (mnick m) ms @ [the (find_named mnick (mnick m) ms)]))"

definition clear_servermsg :: "Msgs list \<Rightarrow> Msgs list" where
  "clear_servermsg ms = []"

text \<open>The messages of the server in use.\<close>

definition on_server :: "int \<Rightarrow> (Msgs list \<Rightarrow> Msgs list option) \<Rightarrow> Server list \<Rightarrow> Server list option" where
  "on_server from_server f sl =
     (if from_server = - 1 then Some sl
      else map_option (\<lambda>ms. sl[nat from_server := (sl ! nat from_server)\<lparr>msgs := ms\<rparr>]) (f (msgs (sl ! nat from_server))))"

subsection \<open>The limit\<close>

lemma tab_scan_take:
  "tab_scan lim i ms = (take (nat (lim - i)) ms, drop (nat (lim - i)) ms)"
proof (induction ms arbitrary: i)
  case (Cons m ms)
  show ?case
  proof (cases "lim \<le> i")
    case False
    then have "nat (lim - i) = Suc (nat (lim - (i + 1)))" by simp
    then show ?thesis using False Cons.IH by simp
  qed simp
qed simp

text \<open>From two on, the limit is kept and the oldest messages go.\<close>

lemma addtabkey_keeps_latest:
  assumes "2 \<le> lim"
  shows "addtabkey lim m ms = Some (m # take (nat lim - 1) ms)"
proof -
  have "nat (lim - 1) = nat lim - 1" "0 < nat lim - 1" using assms by auto
  then show ?thesis using assms by (auto simp: addtabkey_def tab_scan_take)
qed

text \<open>A limit of one is none at all, and a limit of zero frees the message in use.\<close>

lemma addtabkey_one: "addtabkey 1 m ms = Some (m # ms)"
  by (simp add: addtabkey_def tab_scan_take)

lemma addtabkey_zero: "addtabkey 0 m ms = None \<longleftrightarrow> ms \<noteq> []"
  by (simp add: addtabkey_def)

datatype tab_op = AddTab Msgs | GetTab "cstr option" bool | ClearTab

fun tab_step :: "int \<Rightarrow> tab_op \<Rightarrow> Msgs list \<Rightarrow> Msgs list option" where
  "tab_step lim (AddTab m) ms = addtabkey lim m ms"
| "tab_step lim (GetTab p move) ms = Some (snd (gettabkey p move ms))"
| "tab_step lim ClearTab ms = Some (clear_servermsg ms)"

fun tab_run :: "int \<Rightarrow> tab_op list \<Rightarrow> Msgs list \<Rightarrow> Msgs list option" where
  "tab_run lim [] ms = Some ms"
| "tab_run lim (x # xs) ms = (case tab_step lim x ms of None \<Rightarrow> None | Some ms' \<Rightarrow> tab_run lim xs ms')"

lemma tab_fits_key:
  assumes "no_nul (mnick m)" "\<forall>p. possible = Some p \<longrightarrow> no_nul p"
  shows "tab_fits possible m \<longleftrightarrow> (\<forall>p. possible = Some p \<longrightarrow> take (length p) (ckey (mnick m)) = ckey p)"
proof (cases possible)
  case (Some p)
  have "take (length p) (ckey p) = ckey p" by (rule take_all) simp
  then show ?thesis using assms Some by (auto simp: tab_fits_def my_strnicmp_zero_iff)
qed (simp add: tab_fits_def)

text \<open>The message that is found is the one that is moved.\<close>

lemma gettabkey_moves:
  assumes "\<forall>m \<in> set (as @ m # bs). no_nul (mnick m)" "\<forall>p. possible = Some p \<longrightarrow> no_nul p"
    and "\<forall>a \<in> set as. \<not> tab_fits possible a" "tab_fits possible m"
  shows "gettabkey possible True (as @ m # bs) = (Some m, as @ bs @ [m])"
proof -
  have "my_stricmp (mnick a) (mnick m) \<noteq> 0" if "a \<in> set as" for a
    using assms that by (auto simp: my_stricmp_zero_iff tab_fits_key)
  then have "find_named mnick (mnick m) (as @ m # bs) = Some m" "remove_named mnick (mnick m) (as @ m # bs) = as @ bs"
    by (induction as) auto
  moreover have "List.find (tab_fits possible) (as @ m # bs) = Some m"
    using assms(3,4) by (induction as) auto
  ultimately show ?thesis by (simp add: gettabkey_def)
qed

lemma length_remove_named: "length (remove_named nm s xs) = length xs - (if find_named nm s xs = None then 0 else 1)"
proof (induction xs)
  case (Cons x xs)
  then show ?case by (cases xs) auto
qed simp

lemma gettabkey_length: "length (snd (gettabkey p move ms)) = length ms"
proof (cases "List.find (tab_fits p) ms")
  case (Some m)
  then have "m \<in> set ms" by (auto simp: find_Some_iff)
  then have "find_named mnick (mnick m) ms \<noteq> None" "0 < length ms"
    by (auto simp: find_named_def find_None_iff)
  then show ?thesis using Some by (auto simp: gettabkey_def length_remove_named)
qed (simp add: gettabkey_def)

text \<open>
  With a limit of at least two, no sequence of messages, presses of the tab key and clearings
  leaves more messages than the limit or fails.
\<close>

theorem tab_messages_bounded:
  assumes "2 \<le> lim" "int (length ms) \<le> lim"
  shows "\<exists>ms'. tab_run lim ops ms = Some ms' \<and> int (length ms') \<le> lim"
  using assms(2)
proof (induction ops arbitrary: ms)
  case (Cons x ops)
  have "\<exists>ms'. tab_step lim x ms = Some ms' \<and> int (length ms') \<le> lim"
  proof (cases x)
    case (AddTab m)
    then show ?thesis using addtabkey_keeps_latest [OF assms(1)] assms(1) by auto
  next
    case (GetTab p move)
    then show ?thesis using Cons.prems by (simp add: gettabkey_length)
  next
    case ClearTab
    then show ?thesis using assms(1) by (simp add: clear_servermsg_def)
  qed
  then show ?case using Cons.IH by auto
qed simp

subsection \<open>Pressing the key again and again\<close>

fun tab_presses :: "cstr option \<Rightarrow> nat \<Rightarrow> Msgs list \<Rightarrow> Msgs option list \<times> Msgs list" where
  "tab_presses p 0 ms = ([], ms)"
| "tab_presses p (Suc n) ms =
     (case gettabkey p True ms of (m, ms1) \<Rightarrow> (case tab_presses p n ms1 of (xs, ms2) \<Rightarrow> (m # xs, ms2)))"

lemma tab_presses_visited:
  assumes "\<forall>m \<in> set (xs @ ys). no_nul (mnick m)" "\<forall>t. p = Some t \<longrightarrow> no_nul t" "length (filter (tab_fits p) xs) = n"
  shows "tab_presses p n (xs @ ys) =
    (map Some (filter (tab_fits p) xs), filter (\<lambda>m. \<not> tab_fits p m) xs @ ys @ filter (tab_fits p) xs)"
  using assms
proof (induction n arbitrary: xs ys)
  case 0
  then show ?case by (simp add: filter_empty_conv)
next
  case (Suc n)
  then obtain m fs where "filter (tab_fits p) xs = m # fs" by (cases "filter (tab_fits p) xs") auto
  then obtain as bs where xs: "xs = as @ m # bs" "\<forall>a \<in> set as. \<not> tab_fits p a" "tab_fits p m" "fs = filter (tab_fits p) bs"
    by (auto simp: filter_eq_Cons_iff)
  have none: "filter (tab_fits p) as = []" "filter (\<lambda>m. \<not> tab_fits p m) as = as"
    using xs(2) by (auto simp: filter_empty_conv)
  have "gettabkey p True (as @ m # (bs @ ys)) = (Some m, as @ (bs @ ys) @ [m])"
    using Suc.prems xs by (intro gettabkey_moves) auto
  moreover have "tab_presses p n ((as @ bs) @ (ys @ [m])) =
      (map Some (filter (tab_fits p) (as @ bs)),
       filter (\<lambda>m. \<not> tab_fits p m) (as @ bs) @ (ys @ [m]) @ filter (tab_fits p) (as @ bs))"
    using Suc.prems xs none by (intro Suc.IH) auto
  ultimately show ?case using xs none by simp
qed

text \<open>
  C24: Pressing the tab key as often as there are recent nicks that begin with the text visits all of
  them, newest first, and moves them behind the others in the same order.
\<close>

theorem tab_visits_all:
  assumes "\<forall>m \<in> set ms. no_nul (mnick m)" "\<forall>t. p = Some t \<longrightarrow> no_nul t"
  shows "tab_presses p (length (filter (tab_fits p) ms)) ms =
    (map Some (filter (tab_fits p) ms), filter (\<lambda>m. \<not> tab_fits p m) ms @ filter (tab_fits p) ms)"
  using tab_presses_visited [of ms "[]" p] assms by simp

definition sample_msgs :: "Msgs list" where
  "sample_msgs =
     [\<lparr>mnick = ''ann'', mtext = ''hi'', mtime = 3\<rparr>, \<lparr>mnick = ''bob'', mtext = ''yo'', mtime = 2\<rparr>,
      \<lparr>mnick = ''Andy'', mtext = ''hm'', mtime = 1\<rparr>]"

theorem tab_messages_bounded_witness:
  "(2 :: int) \<le> 3 \<and> int (length sample_msgs) \<le> 3 \<and>
    (\<exists>ms'. tab_run 3 [AddTab (hd sample_msgs), GetTab None True] sample_msgs = Some ms' \<and> int (length ms') \<le> 3)"
  using tab_messages_bounded [of 3 sample_msgs "[AddTab (hd sample_msgs), GetTab None True]"]
  by (simp add: sample_msgs_def)

theorem tab_visits_all_witness:
  "list_all (\<lambda>m. no_nul (mnick m)) sample_msgs \<and> no_nul ''an'' \<and>
    tab_presses (Some ''an'') (length (filter (tab_fits (Some ''an'')) sample_msgs)) sample_msgs =
      (map Some (filter (tab_fits (Some ''an'')) sample_msgs),
       filter (\<lambda>m. \<not> tab_fits (Some ''an'') m) sample_msgs @ filter (tab_fits (Some ''an'')) sample_msgs)"
proof -
  have "\<forall>m \<in> set sample_msgs. no_nul (mnick m)" "no_nul ''an''" by (simp_all add: sample_msgs_def)
  then show ?thesis unfolding list_all_iff using tab_visits_all [of sample_msgs "Some ''an''"] by simp
qed

end
