(* ===== verification/ServerRemoval.thy ===== *)
theory ServerRemoval
  imports TabKeys Reconnect
begin

section \<open>Removing a server (source/server.c)\<close>

text \<open>
  A server is removed from the array while windows refer to servers by their index. The theory shows
  which of the references follow and which do not.
\<close>

subsection \<open>Closing and removing\<close>

text \<open>What \<open>close_server\<close> does to the entry of the server.\<close>

definition closed :: "Server \<Rightarrow> Server" where
  "closed s =
     s\<lparr>cloak := 0, sping := 0, user_count := 0, itsname := None,
       waiting_out := (if waiting_in s < waiting_out s then 0 else waiting_out s),
       waiting_in := (if waiting_in s < waiting_out s then 0 else waiting_in s)\<rparr>"

definition close_server :: "int \<Rightarrow> Server list \<times> 'w client \<Rightarrow> Server list \<times> 'w client" where
  "close_server srv = (\<lambda>(sl, st).
     if srv < 0 \<or> int (length sl) \<le> srv then (sl, st)
     else (sl[nat srv := closed (sl ! nat srv)], close_server_channels srv st))"

definition removetabkey :: "int \<Rightarrow> Server list \<Rightarrow> Server list" where
  "removetabkey srv sl =
     (if srv < 0 \<or> int (length sl) \<le> srv then sl else sl[nat srv := (sl ! nat srv)\<lparr>msgs := []\<rparr>])"

definition shift_window :: "int \<Rightarrow> window \<Rightarrow> window" where
  "shift_window i w = (if i < wserver w then w\<lparr>wserver := wserver w - 1\<rparr> else w)"

text \<open>\<open>None\<close>: the last server goes and the program exits.\<close>

definition remove_from_server_list :: "int \<Rightarrow> Server list \<times> 'w client \<Rightarrow> (Server list \<times> 'w client) option" where
  "remove_from_server_list i = (\<lambda>(sl, st).
     if i < 0 \<or> int (length sl) \<le> i then Some (sl, st)
     else case close_server i (sl, st) of
       (sl1, st1) \<Rightarrow>
         let sl2 = removetabkey i sl1 in
         if length sl2 = 1 then None
         else let sl3 = take (nat i) sl2 @ drop (nat i + 1) sl2
              in Some (removetabkey i sl3, st1\<lparr>windows := map (shift_window i) (windows st1)\<rparr>))"

lemma nth_drop_one:
  "k < length xs - 1 \<Longrightarrow> (take i xs @ drop (Suc i) xs) ! k = (if k < i then xs ! k else xs ! Suc k)"
  by (cases "i < length xs") (auto simp: nth_append min_def)

text \<open>The entries that are left, and the windows.\<close>

lemma removed_entry:
  assumes "remove_from_server_list i (sl, st) = Some (sl', st')" "0 \<le> i" "i < int (length sl)"
  shows "length sl' = length sl - 1"
    "k < length sl' \<Longrightarrow> sl' ! k =
      (if k < nat i then sl ! k else if k = nat i then (sl ! Suc k)\<lparr>msgs := []\<rparr> else sl ! Suc k)"
    "windows st' = map (shift_window i) (windows (close_server_channels i st))"
  using assms
  by (auto simp: remove_from_server_list_def close_server_def removetabkey_def Let_def nth_drop_one nth_list_update
      split: if_splits)

text \<open>How a window sees the removal of server \<open>i\<close>.\<close>

definition follows :: "int \<Rightarrow> Server list \<Rightarrow> Server list \<Rightarrow> window \<Rightarrow> window \<Rightarrow> bool" where
  "follows i sl sl' w w' \<longleftrightarrow>
     (if wserver w = - 1 then w' = w
      else if wserver w = i
      then wserver w' = - 1 \<and> last_server w' = i \<and> nchannels w' = [] \<and>
           map cname (oldchannels w') = map cname (nchannels w)
      else 0 \<le> wserver w' \<and> wserver w' < int (length sl') \<and> w'\<lparr>wserver := wserver w\<rparr> = w \<and>
           sl' ! nat (wserver w') =
             (if wserver w = i + 1 then (sl ! nat (wserver w))\<lparr>msgs := []\<rparr> else sl ! nat (wserver w)))"

text \<open>
  C20: When a server is removed, the windows of the others stay on their servers, under the new
  index, and the windows of the removed server keep its channels for a reconnection. The server
  behind the removed one loses its recent messages, because they are freed a second time by index.
\<close>

theorem removal_keeps_windows:
  assumes rm: "remove_from_server_list i (sl, st) = Some (sl', st')" and i: "0 \<le> i" "i < int (length sl)"
    and w: "\<forall>w \<in> set (windows st). - 1 \<le> wserver w \<and> wserver w < int (length sl)"
  shows "length sl' = length sl - 1 \<and> list_all2 (follows i sl sl') (windows st) (windows st')"
proof -
  note r = removed_entry [OF rm i]
  let ?f = "\<lambda>w. shift_window i (if wserver w = i
     then w\<lparr>wserver := - 1, last_server := i, oldchannels := map (\<lambda>ch. ch\<lparr>nicks := [], injoin := True\<rparr>) (nchannels w),
            nchannels := [], current_channel := None\<rparr> else w)"
  have step: "follows i sl sl' w (?f w)" if "- 1 \<le> wserver w" "wserver w < int (length sl)" for w
  proof -
    consider "wserver w = - 1" | "wserver w = i" | "wserver w < i" "wserver w \<noteq> - 1" | "i < wserver w"
      by (metis linorder_less_linear)
    then show ?thesis
    proof cases
      case 1
      then show ?thesis using i by (simp add: follows_def shift_window_def)
    next
      case 2
      then show ?thesis using i by (simp add: follows_def shift_window_def comp_def)
    next
      case 3
      then have "0 \<le> wserver w" "nat (wserver w) < length sl'" "nat (wserver w) < nat i" using i r(1) that(1) by linarith+
      then show ?thesis using 3 r(1,2) by (simp add: follows_def shift_window_def)
    next
      case 4
      define k where "k = nat (wserver w - 1)"
      have k: "k < length sl'" "\<not> k < nat i" "nat (wserver w) = Suc k" "k = nat i \<longleftrightarrow> wserver w = i + 1"
        using 4 i that r(1) by (auto simp: k_def)
      then have "sl' ! k = (if wserver w = i + 1 then (sl ! nat (wserver w))\<lparr>msgs := []\<rparr> else sl ! nat (wserver w))"
        using r(2) by auto
      then show ?thesis using 4 i k(1) by (simp add: follows_def shift_window_def k_def)
    qed
  qed
  have "list_all2 (follows i sl sl') (windows st) (map ?f (windows st))"
    unfolding list_all2_map2 by (rule list.rel_refl_strong, rule step) (use w in auto)
  then show ?thesis using r by (simp add: close_windows comp_def)
qed

text \<open>
  A window that waits to be reconnected keeps the old index of its server. When a server before
  it is removed in the meantime, the reconnection attaches the window to the server behind its own.
\<close>

theorem reconnect_after_removal_goes_astray:
  assumes rm: "remove_from_server_list i (sl, st) = Some (sl', st')" and i: "0 \<le> i" "i < j" "j + 1 < int (length sl)"
    and w: "u < length (windows st)" "wserver (windows st ! u) = - 1" "last_server (windows st ! u) = j"
    and c: "\<And>srv st. 0 \<le> fst (connect srv st) \<and> windows (snd (connect srv st)) = windows st"
    and re: "auto_reconnect connect (int (length sl')) j st' = (again, st2)"
  shows "wserver (windows st2 ! u) = j \<and> sl' ! nat j = sl ! nat (j + 1)"
proof -
  have il: "i < int (length sl)" using i by simp
  note r = removed_entry [OF rm i(1) il]
  have u: "windows st' ! u = windows st ! u" "u < length (windows st')"
    using r(3) w i by (auto simp: close_windows shift_window_def)
  have j: "j < int (length sl')" using i r(1) by linarith
  obtain v where v: "first_window (\<lambda>w. j < int (length sl') \<and> wserver w = - 1 \<and> last_server w \<noteq> - 1 \<and> last_server w = j)
      (windows st') = Some v"
    using first_window_exists [OF bexI [OF _ nth_mem [OF u(2)]]] u w i j by fastforce
  obtain rc st1 where cn: "connect j st' = (rc, st1)" by (cases "connect j st'")
  have st1: "0 \<le> rc" "windows st1 = windows st'" using c [of j st'] cn by simp_all
  have "windows st2 ! u = attach j (windows st' ! u)"
    using re v cn st1 u w i j
    by (cases "v = u") (auto simp: auto_reconnect_def change_windows_def change_window_def nth_list_update attach_def)
  moreover have "sl' ! nat j = sl ! nat (j + 1)"
    using r(2) [of "nat j"] i j by (simp add: nat_add_distrib)
  ultimately show ?thesis by (simp add: attach_def)
qed

definition waiting_client :: "unit client" where
  "waiting_client = sample_client [sample_window 2 [], (sample_window (- 1) [])\<lparr>last_server := 1\<rparr>]"

lemma sample_removal:
  "\<exists>sl' st'. remove_from_server_list 0 (sample_servers, waiting_client) = Some (sl', st')"
  by (simp add: remove_from_server_list_def close_server_def removetabkey_def sample_servers_def Let_def)

theorem removal_keeps_windows_witness:
  "\<exists>sl' st'. remove_from_server_list 0 (sample_servers, waiting_client) = Some (sl', st') \<and>
    list_all (\<lambda>w. - 1 \<le> wserver w \<and> wserver w < int (length sample_servers)) (windows waiting_client) \<and>
    length sl' = 2 \<and> list_all2 (follows 0 sample_servers sl') (windows waiting_client) (windows st')"
proof -
  obtain sl' st' where rm: "remove_from_server_list 0 (sample_servers, waiting_client) = Some (sl', st')"
    using sample_removal by blast
  have "\<forall>w \<in> set (windows waiting_client). - 1 \<le> wserver w \<and> wserver w < int (length sample_servers)"
    "length sample_servers = 3"
    by (simp_all add: waiting_client_def sample_client_def sample_window_def sample_servers_def)
  then show ?thesis using removal_keeps_windows [OF rm] rm unfolding list_all_iff by auto
qed

theorem reconnect_after_removal_goes_astray_witness:
  "\<exists>sl' st' again st2. remove_from_server_list 0 (sample_servers, waiting_client) = Some (sl', st') \<and>
    last_server (windows waiting_client ! 1) = 1 \<and> auto_reconnect (\<lambda>srv st. (0, st)) 2 1 st' = (again, st2) \<and>
    wserver (windows st2 ! 1) = 1 \<and> sl' ! 1 = sample_servers ! 2"
proof -
  obtain sl' st' where rm: "remove_from_server_list 0 (sample_servers, waiting_client) = Some (sl', st')"
    using sample_removal by blast
  have s: "length sample_servers = 3" "1 < length (windows waiting_client)" "wserver (windows waiting_client ! 1) = - 1"
    "last_server (windows waiting_client ! 1) = 1"
    by (simp_all add: waiting_client_def sample_client_def sample_window_def sample_servers_def)
  have "length sl' = 2" using removed_entry(1) [OF rm] s(1) by simp
  moreover obtain again st2 where re: "auto_reconnect (\<lambda>srv st. (0, st)) 2 1 st' = (again, st2)"
    by (cases "auto_reconnect (\<lambda>srv st. (0, st)) 2 1 st'")
  ultimately have "wserver (windows st2 ! 1) = 1 \<and> sl' ! nat 1 = sample_servers ! nat (1 + 1)"
    using reconnect_after_removal_goes_astray [OF rm, of 1 1 "\<lambda>srv st. (0, st)" again st2] s by simp
  then show ?thesis using rm re s by auto
qed

end
