(* ===== verification/Expand.thy ===== *)
theory Expand
  imports ExprLex WordExtract
begin

section \<open>Expanding texts of scripts (source/expr.c)\<close>

text \<open>
  \<open>expand_alias\<close> replaces what follows a \<open>$\<close>, removes backslashes and cuts a text at the first
  semicolon. The copy of the text that the code cuts with NULs is the part of the text up to there; a
  pointer into it is the rest of the text, and NULL, where the code returns it, is \<open>None\<close>. Functions,
  variables, expressions, the history and input from the user are the parameter \<open>exp_env\<close>. A text fits
  on the stack.
\<close>

subsection \<open>Parameters and results\<close>

text \<open>
  The flag \<open>args_flag\<close> and the rest of the client. A function, a variable or an expression may run a
  script, and so may crash or not return: each has a \<open>result\<close>.
\<close>

type_synonym 'w flagged = "bool \<times> 'w"

record 'w exp_env =
  call_function :: "cstr \<Rightarrow> cstr option \<Rightarrow> 'w flagged \<Rightarrow> (cstr option \<times> 'w flagged) result"
  get_variable_with_args :: "cstr \<Rightarrow> cstr option \<Rightarrow> 'w flagged \<Rightarrow> (cstr option \<times> 'w flagged) result"
  parse_inline :: "cstr \<Rightarrow> cstr option \<Rightarrow> 'w flagged \<Rightarrow> (cstr option \<times> 'w flagged) result"
  history_line :: "cstr \<Rightarrow> 'w \<Rightarrow> cstr option \<times> 'w"
  input_prompt :: "bool \<Rightarrow> cstr \<Rightarrow> 'w \<Rightarrow> cstr \<times> 'w"
  pad_char_var :: char

text \<open>
  The ways to stop are those of \<open>ExprToken\<close>: \<open>Undefined\<close> is a use of NULL, \<open>NoReturn\<close> a panic in
  \<open>real_extract2\<close> or no return from it.
\<close>

type_synonym 'w expansion = "(cstr \<times> cstr option \<times> 'w flagged) result"

subsection \<open>Width and quoting\<close>

definition strformat :: "cstr \<Rightarrow> int \<Rightarrow> char \<Rightarrow> cstr" where
  "strformat src len pad =
     (let n = nat (abs len);
          padc = (if ord pad = 0 then CHR '' '' else pad)
      in if 0 < len then take n src @ replicate (n - length src) padc
         else if len < 0 then replicate (n - length src) padc @ take n src else [])"

definition TruncateAndQuote :: "'w exp_env \<Rightarrow> cstr option \<Rightarrow> int \<Rightarrow> cstr \<Rightarrow> char \<Rightarrow> cstr result" where
  "TruncateAndQuote E add len quote_em pad_char =
     (case add of
        None \<Rightarrow> if len \<noteq> 0 then Inl Undefined else Inr []
      | Some a \<Rightarrow>
          let b = (if len \<noteq> 0 then strformat a len (if ord pad_char = 0 then pad_char_var E else pad_char) else a)
          in Inr (if quote_em \<noteq> [] then double_quote b quote_em else b))"

fun carets :: "cstr \<Rightarrow> cstr \<Rightarrow> cstr \<times> cstr" where
  "carets q (c # d # p) = (if c = CHR ''^'' then carets (q @ [d]) p else (q, c # d # p))"
| "carets q [c] = (q, if c = CHR ''^'' then [] else [c])"
| "carets q [] = (q, [])"

text \<open>The part before a pointer into the text, and the rest after it.\<close>

definition before :: "cstr \<Rightarrow> cstr \<Rightarrow> cstr" where
  "before p t = take (length p - length t) p"

text \<open>A part in brackets: up to the matching one, or the first closing one, or all there is.\<close>

definition enclosed :: "char \<Rightarrow> char \<Rightarrow> cstr \<Rightarrow> cstr \<times> cstr option" where
  "enclosed l r p =
     (case MatchingBracket p l r of
        Some t \<Rightarrow> (before p t, Some (tl t))
      | None \<Rightarrow> (case strchr_at p r of Some t \<Rightarrow> (before p t, Some (tl t)) | None \<Rightarrow> (p, None)))"

definition up_to :: "char \<Rightarrow> cstr \<Rightarrow> cstr \<times> cstr option" where
  "up_to c p = (case strchr_at p c of Some t \<Rightarrow> (before p t, Some (tl t)) | None \<Rightarrow> (p, None))"

subsection \<open>Arguments by number\<close>

text \<open>The first and last word of \<open>$n\<close>, \<open>$n-\<close>, \<open>$n-m\<close>, \<open>$-m\<close> and \<open>$~\<close>; \<open>None\<close> is the error.\<close>

definition word_range :: "cstr \<Rightarrow> (int \<times> int) option \<times> cstr" where
  "word_range p =
     (if cat p 0 = CHR ''~'' then (Some (EOS, EOS), tl p)
      else if cat p 0 = CHR ''-''
      then (case parse_number (tl p) of (hi, r) \<Rightarrow> if hi = - 1 then (None, []) else (Some (SOS, hi), r))
      else (case parse_number p of
              (lo, r) \<Rightarrow>
                if cat r 0 = CHR ''-''
                then (case parse_number (tl r) of (hi, r') \<Rightarrow> (Some (lo, if hi = - 1 then EOS else hi), r'))
                else (Some (lo, lo), r)))"

definition expand_words :: "cstr option \<Rightarrow> int \<times> int \<Rightarrow> cstr result" where
  "expand_words args lu =
     (case args of
        None \<Rightarrow> Inr []
      | Some a \<Rightarrow> (case real_extract2 a (fst lu) (snd lu) True of None \<Rightarrow> Inl NoReturn | Some t \<Rightarrow> Inr t))"

subsection \<open>The expansion\<close>

text \<open>
  The results are the text for the buffer, the rest of the text (\<open>more_text\<close> for
  \<open>expand_alias\<close>) and the state. Every call and every step of the loop uses one unit of fuel.
\<close>

definition is_at :: "cstr \<Rightarrow> bool" where
  "is_at s \<longleftrightarrow> cat s 0 = CHR ''@''"

definition raised :: "'w flagged \<Rightarrow> 'w flagged" where
  "raised st = (True, snd st)"

definition emit :: "'w exp_env \<Rightarrow> cstr option \<Rightarrow> int \<Rightarrow> cstr \<Rightarrow> char \<Rightarrow> cstr option \<Rightarrow> 'w flagged \<Rightarrow> 'w expansion" where
  "emit E add len quote_em pad rest st =
     bnd (TruncateAndQuote E add len quote_em pad) (\<lambda>t. Inr (t, rest, st))"

definition or_empty :: "cstr option \<Rightarrow> cstr option" where
  "or_empty v = (case v of None \<Rightarrow> Some [] | Some t \<Rightarrow> Some t)"

text \<open>The cases of \<open>alias_special_char\<close> that expand nothing further.\<close>

definition expand_name ::
  "'w exp_env \<Rightarrow> cstr option \<Rightarrow> cstr \<Rightarrow> int \<Rightarrow> char \<Rightarrow> cstr \<Rightarrow> 'w flagged \<Rightarrow> 'w expansion" where
  "expand_name E args quote_em len pad p st =
     (case after_expando p False of
        (rest, function_call) \<Rightarrow>
          let name = before p rest
          in bnd (if function_call then call_function E name args st else get_variable_with_args E name args st)
               (\<lambda>(v, st'). emit E (or_empty v) len quote_em pad (Some rest) st'))"

definition simple_special ::
  "'w exp_env \<Rightarrow> cstr option \<Rightarrow> cstr \<Rightarrow> int \<Rightarrow> char \<Rightarrow> cstr \<Rightarrow> 'w flagged \<Rightarrow> 'w expansion" where
  "simple_special E args quote_em len pad p st =
     (let c = cat p 0 in
      if c = CHR ''!''
      then (case up_to (CHR ''!'') (tl p) of
              (t, rest) \<Rightarrow>
                (case history_line E t (snd st) of
                   (None, w) \<Rightarrow> Inr ([], rest, (fst st, w))
                 | (Some v, w) \<Rightarrow> emit E (Some v) len quote_em pad rest (fst st, w)))
      else if c = CHR 0x7B
      then (case enclosed (CHR 0x7B) (CHR 0x7D) (tl p) of
              (t, rest) \<Rightarrow>
                bnd (parse_inline E t args st) (\<lambda>(v, st').
                  case v of
                    None \<Rightarrow> Inr ([], rest, st')
                  | Some v \<Rightarrow> emit E (Some v) len quote_em pad rest st'))
      else if c = CHR 0x22 \<or> c = CHR 0x27
      then (case up_to c (tl p) of
              (t, rest) \<Rightarrow>
                (case input_prompt E (c = CHR 0x22) t (snd st) of
                   (v, w) \<Rightarrow> emit E (Some v) len quote_em pad rest (fst st, w)))
      else if c = CHR ''*'' then emit E args len quote_em pad (Some (tl p)) (raised st)
      else if c = CHR ''$'' then emit E (Some ''$'') len quote_em pad (Some (tl p)) st
      else if is_digit c \<or> c = CHR ''-'' \<or> c = CHR ''~''
      then (case word_range p of
              (None, r) \<Rightarrow> Inr ([], Some [], raised st)
            | (Some lu, r) \<Rightarrow>
                bnd (expand_words args lu) (\<lambda>t. emit E (Some t) len quote_em pad (Some r) (raised st)))
      else expand_name E args quote_em len pad p st)"

text \<open>
  The functions call each other; every one has what it calls as an argument, and the fuel bounds the
  depth of the calls and the steps of each loop. In \<open>exp_loop\<close>, \<open>at\<close> says that the text is a
  command \<open>@\<close> (with \<open>more_text\<close>, so that nothing is expanded), \<open>buf\<close> is the buffer and \<open>chunk\<close> the
  text from \<open>stuff\<close> to the current place.
\<close>

fun exp_loop :: "(cstr \<Rightarrow> cstr \<Rightarrow> 'w flagged \<Rightarrow> 'w expansion) \<Rightarrow> nat \<Rightarrow> bool \<Rightarrow> bool \<Rightarrow> cstr \<Rightarrow> cstr \<Rightarrow> bool \<Rightarrow> cstr
    \<Rightarrow> 'w flagged \<Rightarrow> 'w expansion" where
  "exp_loop special 0 sep at buf chunk is_quote p st = Inl OutOfFuel"
| "exp_loop special (Suc n) sep at buf chunk is_quote p st =
     (let next = exp_loop special n sep at buf (chunk @ [cat p 0]);
          flushed = m_strcat_ues (Some buf) chunk (\<not> at)
      in if p = [] then Inr (flushed, None, st)
         else if is_quote then next False (tl p) st
         else if cat p 0 = CHR ''$''
         then if at then next False (tl p) st
              else if tl p = [] then Inr (flushed, None, st)
              else (case carets [] (tl p) of
                      (quote_em, q) \<Rightarrow>
                        bnd (special quote_em q st) (\<lambda>(t, rest, st').
                          case rest of
                            None \<Rightarrow> Inr (flushed @ t, None, st')
                          | Some r \<Rightarrow> exp_loop special n sep at (flushed @ t) [] False r st'))
         else if cat p 0 = CHR '';''
         then if sep then Inr (flushed, Some (tl p), st) else next False (tl p) st
         else if cat p 0 = CHR ''('' \<or> cat p 0 = CHR 0x7B
         then (case MatchingBracket (tl p) (cat p 0) (if cat p 0 = CHR ''('' then CHR '')'' else CHR 0x7D) of
                 None \<Rightarrow> exp_loop special n sep at (flushed @ p) [] False [] (raised st)
               | Some t \<Rightarrow> exp_loop special n sep at (flushed @ before p (tl t)) [] False (tl t) (raised st))
         else next (cat p 0 = CHR 0x5C) (tl p) st)"

definition expand_with ::
  "(cstr \<Rightarrow> cstr \<Rightarrow> 'w flagged \<Rightarrow> 'w expansion) \<Rightarrow> nat \<Rightarrow> bool \<Rightarrow> cstr \<Rightarrow> 'w flagged \<Rightarrow> 'w expansion" where
  "expand_with special n sep s st =
     (if s = [] then Inr ([], None, st)
      else let at = (is_at s \<and> sep) in exp_loop special n sep at [] [] False s (if at then raised st else st))"

text \<open>A text is expanded until it does not start with a dollar.\<close>

fun dereference :: "(cstr \<Rightarrow> 'w flagged \<Rightarrow> 'w expansion) \<Rightarrow> nat \<Rightarrow> cstr \<Rightarrow> 'w flagged \<Rightarrow> (cstr \<times> 'w flagged) result" where
  "dereference expand 0 s st = Inl OutOfFuel"
| "dereference expand (Suc n) s st =
     bnd (expand s st) (\<lambda>(t, _, st').
       if cat t 0 = CHR ''$'' then dereference expand n t st' else Inr (t, st'))"

definition count_of :: "char \<Rightarrow> cstr \<Rightarrow> cstr" where
  "count_of c sub = ltoa (if c = CHR ''#'' then int (word_count sub) else int (length sub))"

text \<open>The part of \<open>alias_special_char\<close> after the width.\<close>

definition special_width ::
  "'w exp_env \<Rightarrow> cstr option \<Rightarrow> (cstr \<Rightarrow> cstr \<Rightarrow> 'w flagged \<Rightarrow> 'w expansion) \<Rightarrow> nat
    \<Rightarrow> cstr \<Rightarrow> int \<Rightarrow> char \<Rightarrow> cstr \<Rightarrow> 'w flagged \<Rightarrow> 'w expansion" where
  "special_width E args special n quote_em len pad p st =
     (if cat p 0 = CHR ''(''
      then (case enclosed (CHR ''('') (CHR '')'') (tl p) of
              (inner, rest) \<Rightarrow>
                bnd (dereference (expand_with special n False) n inner st) (\<lambda>(name, st1).
                bnd (special quote_em name st1) (\<lambda>(sub, _, st2).
                  emit E (Some sub) len quote_em pad rest (raised st2))))
      else if cat p 0 = CHR ''#'' \<or> cat p 0 = CHR ''@''
      then (let rest = fst (after_expando (tl p) False)
            in if rest = tl p
               then emit E (Some (count_of (cat p 0) (case args of None \<Rightarrow> [] | Some a \<Rightarrow> a))) len quote_em pad
                      (Some []) (raised st)
               else bnd (special quote_em (before (tl p) rest) st) (\<lambda>(sub, _, st').
                      emit E (Some (count_of (cat p 0) sub)) len quote_em pad (Some rest) st'))
      else simple_special E args quote_em len pad p st)"

text \<open>What is returned is the text for the buffer, the rest of the text, and the state.\<close>

definition no_pad :: char where "no_pad = CHR 0x00"

fun alias_special_char ::
  "'w exp_env \<Rightarrow> cstr option \<Rightarrow> nat \<Rightarrow> cstr \<Rightarrow> cstr \<Rightarrow> 'w flagged \<Rightarrow> 'w expansion" where
  "alias_special_char E args 0 quote_em p st = Inl OutOfFuel"
| "alias_special_char E args (Suc n) quote_em p st =
     (let width = special_width E args (alias_special_char E args n) n quote_em
      in if cat p 0 = CHR ''[''
         then (case MatchingBracket (tl p) (CHR ''['') (CHR '']'') of
                 None \<Rightarrow> Inr ([], Some (tl p), st)
               | Some t \<Rightarrow>
                   if cat (tl p) 0 = CHR ''$''
                   then bnd (expand_with (alias_special_char E args n) n False (tl p) st) (\<lambda>(w, _, st').
                          width (to_int32 (my_atol (Some w))) no_pad t st')
                   else let w = before (tl p) t; c = last (cat p 0 # w)
                        in width (to_int32 (my_atol (Some w))) (if is_digit c then no_pad else c) (tl t) st)
         else width 0 no_pad p st)"

definition expand_alias :: "'w exp_env \<Rightarrow> cstr option \<Rightarrow> nat \<Rightarrow> bool \<Rightarrow> cstr \<Rightarrow> 'w flagged \<Rightarrow> 'w expansion" where
  "expand_alias E args n = expand_with (alias_special_char E args n) n"

end
