(* ===== verification/ExpandSpec.thy ===== *)
theory ExpandSpec
  imports Expand
begin

section \<open>What expanding a text does\<close>

text \<open>
  Expansion of texts without \<open>$(\<close> ends; quoting protects a text from it; a width is kept. The
  dereference \<open>$($*)\<close> of an argument that names itself never ends, and three forms lose the rest of the
  text.
\<close>

subsection \<open>Removing backslashes piece by piece\<close>

definition whole :: "cstr \<Rightarrow> bool" where
  "whole s \<longleftrightarrow> (\<forall>t. strcat_ues_loop (s @ t) = strcat_ues_loop s @ strcat_ues_loop t)"

definition unescaped :: "char \<Rightarrow> char" where
  "unescaped d = (if d \<in> {CHR ''n'', CHR ''p'', CHR ''r'', CHR ''0''} then CHR 0x10 else d)"

lemma strcat_ues_plain: "c \<noteq> CHR 0x5C \<Longrightarrow> strcat_ues_loop (c # s) = c # strcat_ues_loop s"
  by (cases s) simp_all

lemma strcat_ues_quoted: "strcat_ues_loop (CHR 0x5C # d # s) = unescaped d # strcat_ues_loop s"
  by (simp add: unescaped_def)

lemma whole_Nil [simp]: "whole []"
  by (simp add: whole_def)

lemma whole_append: "whole s \<Longrightarrow> whole t \<Longrightarrow> whole (s @ t)"
  by (simp add: whole_def)

lemma whole_plain: "c \<noteq> CHR 0x5C \<Longrightarrow> whole [c]"
  by (simp add: whole_def strcat_ues_plain)

lemma whole_quoted: "whole [CHR 0x5C, d]"
  by (simp add: whole_def strcat_ues_quoted)

lemma ues_snoc:
  "whole s \<Longrightarrow> c \<noteq> CHR 0x5C \<Longrightarrow> strcat_ues_loop (s @ [c]) = strcat_ues_loop s @ [c]"
  "whole s \<Longrightarrow> strcat_ues_loop (s @ [CHR 0x5C, d]) = strcat_ues_loop s @ [unescaped d]"
  by (simp_all add: whole_def unescaped_def)

lemma flush_simps [simp]:
  "m_strcat_ues (Some b) s True = b @ strcat_ues_loop s"
  "m_strcat_ues (Some b) s False = b @ s"
  by (simp_all add: m_strcat_ues_def)

subsection \<open>Steps of the loop\<close>

lemma exp_loop_end: "exp_loop sp (Suc n) sep at buf chunk is_quote [] st = Inr (m_strcat_ues (Some buf) chunk (\<not> at), None, st)"
  by simp

lemma exp_loop_plain:
  assumes "c \<noteq> CHR ''$''" "c \<noteq> CHR ''(''" "c \<noteq> CHR 0x7B" "c \<noteq> CHR 0x5C" "c = CHR '';'' \<longrightarrow> \<not> sep"
  shows "exp_loop sp (Suc n) sep at buf chunk False (c # p) st = exp_loop sp n sep at buf (chunk @ [c]) False p st"
  using assms by (simp add: Let_def)

lemma exp_loop_quoted:
  "exp_loop sp (Suc (Suc n)) sep at buf chunk False (CHR 0x5C # d # p) st =
    exp_loop sp n sep at buf (chunk @ [CHR 0x5C, d]) False p st"
  by (simp add: Let_def)

lemma exp_loop_dollar:
  assumes "sp [] (CHR ''$'' # p) st = Inr (t, Some r, st')"
  shows "exp_loop sp (Suc n) sep False buf chunk False (CHR ''$'' # CHR ''$'' # p) st =
    exp_loop sp n sep False (buf @ strcat_ues_loop chunk @ t) [] False r st'"
  using assms by (cases p) (simp_all add: Let_def)

declare exp_loop.simps(2) [simp del]

lemma special_dollar:
  "alias_special_char E args (Suc n) [] (CHR ''$'' # p) st = Inr (''$'', Some p, st)"
  by (simp add: special_width_def simple_special_def emit_def TruncateAndQuote_def)

subsection \<open>Quoting protects\<close>

lemma quoted_loop:
  assumes q: "{CHR ''$'', CHR 0x5C, CHR ''('', CHR 0x7B} \<subseteq> set q" "sep \<Longrightarrow> CHR '';'' \<in> set q"
    "set q \<inter> {CHR ''n'', CHR ''p'', CHR ''r'', CHR ''0''} = {}"
    and sp: "\<And>p st. sp [] (CHR ''$'' # p) st = Inr (''$'', Some p, st)"
  shows "no_nul s \<Longrightarrow> whole chunk \<Longrightarrow> 2 * length s < n \<Longrightarrow>
    exp_loop sp n sep False buf chunk False (double_quote s q) st = Inr (buf @ strcat_ues_loop chunk @ s, None, st)"
proof (induction s arbitrary: n buf chunk)
  case Nil
  then show ?case by (cases n) (simp_all add: exp_loop.simps)
next
  case (Cons c s)
  obtain m where n: "n = Suc (Suc m)" "2 * length s < m" using Cons.prems(3) by (metis Suc_less_eq2 length_Cons less_SucE mult_Suc_right add_2_eq_Suc less_imp_Suc_add add_Suc_right)
  have c: "strchr q c \<longleftrightarrow> c \<in> set q" using Cons.prems(1) by (auto simp: strchr_def)
  consider "c \<in> set q" "c = CHR ''$''" | "c \<in> set q" "c \<noteq> CHR ''$''" | "c \<notin> set q" by blast
  then show ?case
  proof cases
    case 1
    then have "exp_loop sp n sep False buf chunk False (double_quote (c # s) q) st =
        exp_loop sp (Suc m) sep False (buf @ strcat_ues_loop chunk @ ''$'') [] False (double_quote s q) st"
      using sp c by (simp add: n exp_loop_dollar)
    also have "\<dots> = Inr (buf @ strcat_ues_loop chunk @ c # s, None, st)"
      using Cons.IH [of "[]" "Suc m" "buf @ strcat_ues_loop chunk @ ''$''"] Cons.prems n 1 by simp
    finally show ?thesis .
  next
    case 2
    then have "unescaped c = c" using q(3) by (auto simp: unescaped_def)
    then show ?thesis
      using Cons.IH [of "chunk @ [CHR 0x5C, c]" m] Cons.prems n 2 c
      by (simp add: exp_loop_quoted ues_snoc whole_append whole_quoted)
  next
    case 3
    then have p: "c \<noteq> CHR ''$''" "c \<noteq> CHR ''(''" "c \<noteq> CHR 0x7B" "c \<noteq> CHR 0x5C" "c = CHR '';'' \<longrightarrow> \<not> sep"
      using q by auto
    then show ?thesis
      using Cons.IH [of "chunk @ [c]" "Suc m"] Cons.prems n 3 c
      by (simp add: exp_loop_plain ues_snoc whole_append whole_plain)
  qed
qed

lemma is_at_double_quote: "no_nul s \<Longrightarrow> is_at (double_quote s q) \<longleftrightarrow> is_at s \<and> CHR ''@'' \<notin> set q"
  by (cases s) (auto simp: is_at_def strchr_def)

text \<open>
  C11: A text in which the special characters have been quoted with \<open>double_quote\<close> comes through
  the expansion unchanged and is not cut, whatever its content. The set of quoted characters must not
  contain the letters that a backslash turns into a control character.
\<close>

theorem quoted_text_survives:
  assumes "{CHR ''$'', CHR 0x5C, CHR ''('', CHR 0x7B} \<subseteq> set q" "sep \<longrightarrow> CHR '';'' \<in> set q"
    "set q \<inter> {CHR ''n'', CHR ''p'', CHR ''r'', CHR ''0''} = {}"
    and "no_nul s" "sep \<and> is_at s \<longrightarrow> CHR ''@'' \<in> set q" "2 * length s < n"
  shows "expand_alias E args n sep (double_quote s q) st = Inr (s, None, st)"
proof (cases "s = []")
  case True
  then show ?thesis by (simp add: expand_alias_def expand_with_def)
next
  case False
  then have ne: "double_quote s q \<noteq> []" by (cases s) auto
  obtain m where n: "n = Suc m" using assms(6) by (cases n) auto
  have "exp_loop (alias_special_char E args n) n sep False [] [] False (double_quote s q) st = Inr ([] @ strcat_ues_loop [] @ s, None, st)"
  proof (rule quoted_loop)
    show "sep \<Longrightarrow> CHR '';'' \<in> set q" using assms(2) by blast
    show "\<And>p st. alias_special_char E args n [] (CHR ''$'' # p) st = Inr (''$'', Some p, st)"
      unfolding n by (rule special_dollar)
  qed (rule assms whole_Nil)+
  moreover have "\<not> (is_at (double_quote s q) \<and> sep)" using assms(5) is_at_double_quote [OF assms(4), of q] by auto
  ultimately show ?thesis using ne unfolding expand_alias_def expand_with_def by (auto simp: Let_def)
qed

subsection \<open>Expansion ends\<close>

lemma cat_not_in: "c \<noteq> NUL \<Longrightarrow> c \<notin> set s \<Longrightarrow> cat s i \<noteq> c"
  by (cases "i < length s") (auto simp: nth_mem)

text \<open>Arguments without a double quote can be taken apart into words.\<close>

lemma words_unquoted:
  assumes "quote \<notin> set s"
  shows "word_end s i e \<noteq> None" "word_begin s j e \<noteq> None"
  using cat_not_in [OF _ assms] by (simp_all add: word_end_def word_begin_def)

lemma moves_unquoted:
  assumes "quote \<notin> set s"
  shows "move_abs_loop s i k e \<noteq> None" "move_fwd_loop s i k e \<noteq> None" "move_back_loop s j k e \<noteq> None"
proof -
  show "move_abs_loop s i k e \<noteq> None" by (induction k arbitrary: i) (simp_all split: option.split add: words_unquoted [OF assms])
  show "move_fwd_loop s i k e \<noteq> None" by (induction k arbitrary: i) (simp_all split: option.split add: words_unquoted [OF assms])
  show "move_back_loop s j k e \<noteq> None" by (induction k arbitrary: j) (simp_all split: option.split add: words_unquoted [OF assms])
qed

lemma case_not_None: "x \<noteq> None \<Longrightarrow> (case x of None \<Rightarrow> a | Some y \<Rightarrow> f y) = f (the x)"
  by auto

lemma real_extract2_unquoted:
  assumes "quote \<notin> set s" shows "real_extract2 s lo hi e \<noteq> None"
proof -
  have rel: "move_word_rel s i w e \<noteq> None" and abs: "real_move_to_abs_word s w e \<noteq> None" for i w
    unfolding move_word_rel_def real_move_to_abs_word_def
    by (simp_all add: moves_unquoted [OF assms] del: not_None_eq)
  then show ?thesis
    by (simp add: real_extract2_def case_not_None Let_def del: not_None_eq)
qed

text \<open>The rest of the text is a part of the text.\<close>

lemma suffix_dropWhile_of: "suffix t s \<Longrightarrow> suffix (dropWhile P t) s"
  using suffix_dropWhile suffix_order.trans by blast

lemma suffix_strtol10: "suffix (snd (strtol10 s)) s"
  unfolding strtol10_def Let_def by (auto split: if_splits intro!: suffix_dropWhile_of suffix_tl_trans)

lemma suffix_parse_number: "parse_number p = (n, r) \<Longrightarrow> suffix r p"
  using suffix_strtol10 [of p] by (auto simp: parse_number_def split_def Let_def)

lemma suffix_tl_of: "suffix r (tl p) \<Longrightarrow> suffix r p"
  using suffix_tl suffix_order.trans by blast

lemma suffix_word_range: "word_range p = (lu, r) \<Longrightarrow> suffix r p"
  using suffix_parse_number suffix_tl_of suffix_order.trans
  by (auto simp: word_range_def split: if_splits prod.splits) blast+

lemma suffix_up_to: "up_to c p = (t, Some r) \<Longrightarrow> suffix r p"
  using strchr_at_suffix [of p c] suffix_tl_trans by (auto simp: up_to_def split: option.splits)

lemma suffix_enclosed: "enclosed l u p = (t, Some r) \<Longrightarrow> suffix r p"
  using strchr_at_suffix [of p u] MatchingBracket_suffix [of p l u] suffix_tl_trans
  by (auto simp: enclosed_def split: option.splits)

lemma emit_rest: "emit E add len q pad rest st = Inr (t, r, st') \<Longrightarrow> r = rest \<and> st' = st"
  by (auto simp: emit_def bnd_Inr_iff)

lemma simple_special_rest:
  assumes "simple_special E args q len pad p st = Inr (t, Some r, st')"
  shows "suffix r p"
  using assms after_expando_suffix [of p False]
  by (auto simp: simple_special_def expand_name_def Let_def bnd_Inr_iff split: if_splits prod.splits option.splits
      dest!: emit_rest suffix_up_to suffix_enclosed suffix_word_range intro: suffix_tl suffix_tl_of)

lemma special_width_rest:
  "special_width E args sp n q len pad p st = Inr (t, Some r, st') \<Longrightarrow> suffix r p"
  using simple_special_rest [of E args q len pad p st t r st'] after_expando_suffix [of "tl p" False]
  by (auto simp: special_width_def Let_def bnd_Inr_iff split: if_splits prod.splits
      dest!: emit_rest suffix_enclosed intro: suffix_tl_of)

lemma special_rest: "alias_special_char E args n q p st = Inr (t, Some r, st') \<Longrightarrow> suffix r p"
  using MatchingBracket_suffix [of "tl p" "CHR ''[''" "CHR '']''"]
  by (cases n) (auto simp: Let_def bnd_Inr_iff split: if_splits option.splits prod.splits
      dest!: special_width_rest intro: suffix_tl suffix_tl_of suffix_tl_trans suffix_order.trans)

definition answers :: "'a result \<Rightarrow> bool" where
  "answers x \<longleftrightarrow> (case x of Inl e \<Rightarrow> False | Inr y \<Rightarrow> True)"

lemma answers_simps [simp]: "answers (Inr y)" "\<not> answers (Inl e)"
  by (simp_all add: answers_def)

lemma answersE: "answers x \<Longrightarrow> (\<And>y. x = Inr y \<Longrightarrow> P) \<Longrightarrow> P"
  by (cases x) auto

lemma answers_bnd: "answers m \<Longrightarrow> (\<And>x. m = Inr x \<Longrightarrow> answers (f x)) \<Longrightarrow> answers (bnd m f)"
  by (cases m) auto

lemma emit_answers [simp]: "answers (emit E (Some add) len q pad rest st)"
  by (simp add: emit_def TruncateAndQuote_def Let_def)

text \<open>The functions, variables and expressions of the text return.\<close>

definition calls_return :: "'w exp_env \<Rightarrow> bool" where
  "calls_return E \<longleftrightarrow>
     (\<forall>nm a st. answers (call_function E nm a st) \<and> answers (get_variable_with_args E nm a st) \<and>
        answers (parse_inline E nm a st))"

lemma calls_returnD:
  "calls_return E \<Longrightarrow> answers (call_function E nm a st)" "calls_return E \<Longrightarrow> answers (get_variable_with_args E nm a st)"
  "calls_return E \<Longrightarrow> answers (parse_inline E nm a st)"
  unfolding calls_return_def by blast+

lemma simple_answers:
  assumes E: "calls_return E" and "quote \<notin> set a"
  shows "answers (simple_special E (Some a) q len pad p st)"
proof -
  have w: "answers (expand_words (Some a) lu)" for lu
    using real_extract2_unquoted [OF assms(2), of "fst lu" "snd lu" True] by (auto simp: expand_words_def split: option.split)
  have n: "answers (expand_name E (Some a) q len pad p st)"
    by (auto simp: expand_name_def or_empty_def Let_def intro!: answers_bnd calls_returnD [OF E] split: prod.split option.split)
  show ?thesis
    using n by (auto simp: simple_special_def Let_def intro!: answers_bnd w calls_returnD [OF E] split: prod.split option.split)
qed

text \<open>No parenthesis is left of the text from which the recursion starts.\<close>

definition no_paren :: "cstr \<Rightarrow> bool" where
  "no_paren s \<longleftrightarrow> CHR ''('' \<notin> set s"

lemma no_paren_suffix: "suffix r p \<Longrightarrow> no_paren p \<Longrightarrow> no_paren r"
  using set_mono_suffix by (auto simp: no_paren_def)

lemma no_paren_take: "no_paren p \<Longrightarrow> no_paren (take k p)"
  by (auto simp: no_paren_def dest: in_set_takeD)

lemma carets_suffix: "suffix (snd (carets q p)) p"
  by (induction q p rule: carets.induct) (auto intro: suffix_ConsI)

lemma loop_answers:
  fixes sp :: "cstr \<Rightarrow> cstr \<Rightarrow> 'w flagged \<Rightarrow> 'w expansion"
  assumes sp: "\<And>q r st. no_paren r \<Longrightarrow> 2 * length r < m \<Longrightarrow> answers (sp q r st)"
    and rest: "\<And>q p t r st st'. sp q p st = Inr (t, Some r, st') \<Longrightarrow> suffix r p"
  shows "no_paren p \<Longrightarrow> length p < k \<Longrightarrow> 2 * length p \<le> m + 1 \<Longrightarrow> answers (exp_loop sp k sep at buf chunk iq p st)"
proof (induction k arbitrary: sep at buf chunk iq p st)
  case (Suc k)
  note IH = Suc.IH
  show ?case
  proof (cases p)
    case (Cons c r)
    have r: "no_paren r" "length r < k" "2 * length r < m" using Suc.prems Cons by (auto simp: no_paren_def)
    have next_: "answers (exp_loop sp k sep' at' buf' chunk' iq' t st')" if "suffix t r" for sep' at' buf' chunk' iq' t st'
      using IH [of t] r that no_paren_suffix suffix_length_le [of t r] by simp
    show ?thesis
    proof (cases "iq \<or> c \<noteq> CHR ''$'' \<or> at \<or> r = []")
      case True
      have "suffix (tl u) r" if "MatchingBracket r x y = Some u" for x y u
        using MatchingBracket_suffix [of r x y u] that by (auto intro: suffix_tl_trans)
      note tail = next_ [OF this]
      consider "iq" | "\<not> iq" "c = CHR ''$''" "at \<or> r = []" | "\<not> iq" "c = CHR '';''" | "\<not> iq" "c = CHR ''(''"
        | "\<not> iq" "c = CHR 0x7B" | "\<not> iq" "c \<notin> {CHR ''$'', CHR '';'', CHR ''('', CHR 0x7B}" using True by blast
      then show ?thesis
      proof cases
        case 4
        then show ?thesis using Cons
          by (cases "MatchingBracket r (CHR ''('') (CHR '')'')") (simp_all add: exp_loop.simps(2) Let_def next_ tail)
      next
        case 5
        then show ?thesis using Cons
          by (cases "MatchingBracket r (CHR 0x7B) (CHR 0x7D)") (simp_all add: exp_loop.simps(2) Let_def next_ tail)
      qed (use Cons in \<open>auto simp: exp_loop.simps(2) Let_def next_\<close>)
    next
      case False
      obtain qs q where q: "carets [] r = (qs, q)" by (cases "carets [] r")
      then have sq: "suffix q r" using carets_suffix [of "[]" r] by simp
      then have "no_paren q" "length q \<le> length r" using r no_paren_suffix suffix_length_le by blast+
      then obtain t rs st' where s: "sp qs q st = Inr (t, rs, st')" 
        using sp [of q qs st] r by (cases "sp qs q st") auto
      show ?thesis
      proof (cases rs)
        case None
        then show ?thesis using False Cons q s by (simp add: exp_loop.simps(2) Let_def)
      next
        case (Some u)
        then have "suffix u r" using rest s sq suffix_order.trans by blast
        then have "answers (exp_loop sp k sep at buf' [] False u st')" for buf'
          by (rule next_)
        then show ?thesis using False Cons q s Some by (simp add: exp_loop.simps(2) Let_def)
      qed
    qed
  qed (simp add: exp_loop.simps(2) Let_def)
qed simp

lemma special_answers:
  assumes E: "calls_return E" and a: "quote \<notin> set a"
  shows "no_paren p \<Longrightarrow> 2 * length p < n \<Longrightarrow> answers (alias_special_char E (Some a) n q p st)"
proof (induction n arbitrary: q p st)
  case (Suc n)
  let ?sp = "alias_special_char E (Some a) n"
  have width: "answers (special_width E (Some a) ?sp n q len pad r st')"
    if "suffix r p" for len pad r st'
  proof -
    have r: "no_paren r" "length r \<le> length p" using that Suc.prems no_paren_suffix suffix_length_le by blast+
    have np: "cat r 0 \<noteq> CHR ''(''" using r(1) by (cases r) (auto simp: no_paren_def)
    define rest where "rest = fst (after_expando (tl r) False)"
    have "answers (?sp q (before (tl r) rest) st')" if "r \<noteq> []"
    proof (rule Suc.IH)
      show "no_paren (before (tl r) rest)" unfolding before_def using r(1)
        by (intro no_paren_take) (auto intro: no_paren_suffix [OF suffix_tl])
      have "0 < length r" "length (before (tl r) rest) \<le> length r - 1" using that by (simp_all add: before_def)
      then show "2 * length (before (tl r) rest) < n" using r(2) Suc.prems(2) by linarith
    qed
    then show ?thesis using np simple_answers [OF E a, of q len pad r st'] emit_answers
      by (cases r) (auto simp: special_width_def Let_def rest_def intro!: answers_bnd)
  qed
  show ?case
  proof (cases "cat p 0 = CHR ''[''")
    case True
    then have p: "p \<noteq> []" by auto
    show ?thesis
    proof (cases "MatchingBracket (tl p) (CHR ''['') (CHR '']'')")
      case (Some t)
      then have t: "suffix t p" "suffix (tl t) p"
        using MatchingBracket_suffix [OF Some] suffix_tl_of suffix_tl_trans by blast+
      have "no_paren (tl p)" using Suc.prems(1) no_paren_suffix [OF suffix_tl] by blast
      moreover have "length (tl p) < n \<and> 2 * length (tl p) \<le> n + 1" using Suc.prems(2) p by (cases p) auto
      ultimately have tp: "no_paren (tl p)" "length (tl p) < n" "2 * length (tl p) \<le> n + 1" by simp_all
      have "answers (exp_loop ?sp n False False [] [] False (tl p) st')" for st'
        using loop_answers [of n ?sp "tl p" n, OF Suc.IH special_rest tp] by simp
      then have ex: "answers (expand_with ?sp n False (tl p) st')" for st'
        by (simp add: expand_with_def)
      have "answers (bnd (expand_with ?sp n False (tl p) st) (\<lambda>(w, x, st').
          special_width E (Some a) ?sp n q (to_int32 (my_atol (Some w))) no_pad t st'))"
        by (rule answers_bnd [OF ex]) (simp add: split_def width [OF t(1)])
      then show ?thesis using True Some width [OF t(2)] by (simp add: Let_def)
    qed (use True in simp)
  next
    case False
    then show ?thesis using width [of p] by simp
  qed
qed simp

text \<open>
  C10: Expanding a text without parentheses ends with a result, for arguments without double
  quotes, when the variables, functions and expressions in it return. The fuel that is enough is linear in
  the length of the text.
\<close>

theorem expansion_returns:
  assumes "calls_return E" "no_paren s" "quote \<notin> set a" "2 * length s < n"
  shows "\<exists>t sep_rest st'. expand_alias E (Some a) n sep s st = Inr (t, sep_rest, st')"
proof (cases s)
  case (Cons c r)
  have "answers (exp_loop (alias_special_char E (Some a) n) n sep at [] [] False s st')" for at st'
    by (rule loop_answers [where m = n]) (use assms special_answers [OF assms(1,3)] special_rest in auto)
  then have "answers (expand_alias E (Some a) n sep s st)" by (simp add: expand_alias_def expand_with_def Let_def)
  then show ?thesis by (metis answersE prod_cases3)
qed (simp add: expand_alias_def expand_with_def)

subsection \<open>An argument that names itself\<close>

lemma star_expands:
  "expand_with (alias_special_char E (Some ''$*'') m) k False ''$*'' st \<in> {Inl OutOfFuel, Inr (''$*'', None, raised st)}"
proof (cases k)
  case (Suc j)
  then show ?thesis
    by (cases m; cases j) (simp_all add: expand_with_def exp_loop.simps(2) is_at_def Let_def special_width_def
        simple_special_def emit_def TruncateAndQuote_def)
qed (simp add: expand_with_def)

lemma dereference_star:
  "dereference (expand_with (alias_special_char E (Some ''$*'') m) k False) j ''$*'' st = Inl OutOfFuel"
proof (induction j arbitrary: st)
  case (Suc j)
  consider "expand_with (alias_special_char E (Some ''$*'') m) k False ''$*'' st = Inl OutOfFuel"
    | "expand_with (alias_special_char E (Some ''$*'') m) k False ''$*'' st = Inr (''$*'', None, raised st)"
    using star_expands [of E m k st] by blast
  then show ?case by cases (simp_all add: Suc.IH [of "raised st"])
qed simp

text \<open>
  A script that dereferences its arguments with \<open>$($*)\<close> never returns when the arguments are
  \<open>$*\<close>; no fuel is enough. Such arguments can come from the server.
\<close>

theorem self_reference_hangs:
  "expand_alias E (Some ''$*'') n sep ''$($*)'' st = Inl OutOfFuel"
proof (cases n)
  case (Suc m)
  have mb: "MatchingBracket ''$*)'' (CHR ''('') (CHR '')'') = Some '')''" by code_simp
  have "alias_special_char E (Some ''$*'') n [] ''($*)'' st = Inl OutOfFuel"
    using dereference_star [of E m m m st] mb by (simp add: Suc special_width_def enclosed_def before_def)
  then show ?thesis by (simp add: Suc expand_alias_def expand_with_def exp_loop.simps(2) is_at_def Let_def del: alias_special_char.simps)
qed (simp add: expand_alias_def expand_with_def)

subsection \<open>The width\<close>

lemma mb_loop_without:
  assumes "l \<notin> set u" "r \<notin> set u" "CHR 0x5C \<notin> set u" "l \<noteq> r" "r \<noteq> CHR 0x5C"
  shows "mb_loop l r 1 (u @ r # s) = Some (r # s)"
  using assms
proof (induction u)
  case Nil
  then show ?case by (cases s) auto
next
  case (Cons c u)
  then show ?case by (cases "u @ r # s") auto
qed

lemma length_strformat: "length (strformat s w c) = nat \<bar>w\<bar>"
  by (auto simp: strformat_def Let_def)

lemma emit_width: "emit E add w [] pad rest st = Inr (t, r, st') \<Longrightarrow> w \<noteq> 0 \<Longrightarrow> length t = nat \<bar>w\<bar>"
  by (auto simp: emit_def bnd_Inr_iff TruncateAndQuote_def length_strformat Let_def split: option.splits)

lemma simple_special_width:
  assumes "simple_special E args [] w pad p st = Inr (t, r, st')" "w \<noteq> 0"
  shows "t = [] \<or> length t = nat \<bar>w\<bar>"
  using assms
  by (auto simp: simple_special_def expand_name_def Let_def bnd_Inr_iff split: if_splits prod.splits option.splits
      dest!: emit_width)

lemma special_width_width:
  assumes "special_width E args sp n [] w pad p st = Inr (t, r, st')" "w \<noteq> 0"
  shows "t = [] \<or> length t = nat \<bar>w\<bar>"
  using assms
  by (auto simp: special_width_def Let_def bnd_Inr_iff split: if_splits prod.splits
      dest!: emit_width simple_special_width)

lemma ltoa_ends: "\<exists>u d. ltoa w = u @ [d] \<and> is_digit d"
proof -
  obtain u d where "ltoa_digits (nat \<bar>w\<bar>) [] = u @ [d]" using rev_exhaust [of "ltoa_digits (nat \<bar>w\<bar>) []"] by auto
  moreover have "is_digit d" using ltoa_digits_all [of "nat \<bar>w\<bar>"] calculation by simp
  ultimately show ?thesis by (auto simp: ltoa_def Let_def)
qed

lemma ltoa_characters: "c \<in> set (ltoa w) \<Longrightarrow> is_digit c \<or> c = CHR ''-''"
  using ltoa_digits_all [of "nat \<bar>w\<bar>"] by (auto simp: ltoa_def Let_def list_all_iff split: if_splits)

lemma to_int32_id: "- 2147483648 \<le> i \<Longrightarrow> i < 2147483648 \<Longrightarrow> to_int32 i = i"
  by (simp add: to_int32_def)

text \<open>
  What a \<open>$\<close> with a width expands to, has exactly the width as its number of characters, or is
  empty where there is nothing to expand; this holds for every text after the width.
\<close>

theorem width_is_kept:
  assumes "w \<noteq> 0" "- 2147483648 \<le> w" "w < 2147483648"
    and "alias_special_char E args n [] (''['' @ ltoa w @ '']'' @ p) st = Inr (t, r, st')"
  shows "t = [] \<or> length t = nat \<bar>w\<bar>"
proof -
  obtain m where n: "n = Suc m" using assms(4) by (cases n) auto
  obtain u d where ud: "ltoa w = u @ [d]" "is_digit d" using ltoa_ends by blast
  have "CHR ''['' \<notin> set (ltoa w)" "CHR '']'' \<notin> set (ltoa w)" "CHR 0x5C \<notin> set (ltoa w)" "CHR ''$'' \<notin> set (ltoa w)"
    using ltoa_characters [of "CHR ''[''" w] ltoa_characters [of "CHR '']''" w] ltoa_characters [of "CHR 0x5C" w] ltoa_characters [of "CHR ''$''" w]
    by (auto simp: is_digit_def)
  moreover from this have "MatchingBracket (ltoa w @ '']'' @ p) (CHR ''['') (CHR '']'') = Some ('']'' @ p)"
    using mb_loop_without [of "CHR ''[''" "ltoa w" "CHR '']''" p] by (simp add: MatchingBracket_def)
  moreover have "cat (ltoa w @ '']'' @ p) 0 \<noteq> CHR ''$''"
    using calculation(4) ud(1) by (cases u) auto
  moreover have "to_int32 (my_atol (Some (ltoa w))) = w"
    using strtol10_ltoa [of w "[]"] assms(2,3) by (simp add: my_atol_def to_int32_id is_digit_def)
  ultimately show ?thesis
    using assms(4) special_width_width [OF _ assms(1)] ud
    by (simp add: n before_def Let_def)
qed

subsection \<open>Lost texts\<close>

text \<open>
  Everything behind \<open>$#\<close> or \<open>$@\<close> without a name and behind \<open>$-\<close> without a number is lost, whatever
  it is.
\<close>

lemma rest_is_lost:
  shows "fst (after_expando p False) = p \<Longrightarrow> c \<in> {CHR ''#'', CHR ''@''} \<Longrightarrow>
      expand_alias E (Some a) (Suc (Suc n)) sep ([CHR ''$'', c] @ p) st = Inr (count_of c a, None, raised st)"
    and "fst (parse_number p) = - 1 \<Longrightarrow>
      expand_alias E args (Suc (Suc n)) sep (''$-'' @ p) st = Inr ([], None, raised st)"
proof -
  have loop: "exp_loop sp (Suc (Suc n)) sep False [] [] False (CHR ''$'' # c # p) st' = Inr (t, None, st'')"
    if "sp [] (c # p) st' = Inr (t, Some [], st'')" "c \<noteq> CHR ''^''" for sp c t and st' st'' :: "'c flagged"
    using that by (cases p) (simp_all add: exp_loop.simps(2) Let_def)
  show "expand_alias E (Some a) (Suc (Suc n)) sep ([CHR ''$'', c] @ p) st = Inr (count_of c a, None, raised st)"
    if "fst (after_expando p False) = p" "c \<in> {CHR ''#'', CHR ''@''}"
  proof -
    have "alias_special_char E (Some a) (Suc (Suc n)) [] (c # p) st = Inr (count_of c a, Some [], raised st)"
      using that by (auto simp: special_width_def emit_def TruncateAndQuote_def Let_def)
    from loop [of "alias_special_char E (Some a) (Suc (Suc n))", OF this] that(2) show ?thesis
      by (auto simp: expand_alias_def expand_with_def is_at_def simp del: alias_special_char.simps)
  qed
  show "expand_alias E args (Suc (Suc n)) sep (''$-'' @ p) st = Inr ([], None, raised st)"
    if "fst (parse_number p) = - 1"
  proof -
    have "alias_special_char E args (Suc (Suc n)) [] (CHR ''-'' # p) st = Inr ([], Some [], raised st)"
      using that by (auto simp: special_width_def simple_special_def word_range_def Let_def split: prod.split)
    from loop [of "alias_special_char E args (Suc (Suc n))", OF this] show ?thesis
      by (simp add: expand_alias_def expand_with_def is_at_def del: alias_special_char.simps)
  qed
qed

subsection \<open>Examples\<close>

definition sample_exp_env :: "unit exp_env" where
  "sample_exp_env =
     \<lparr>call_function = (\<lambda>n a st. Inr (Some n, st)),
      get_variable_with_args = (\<lambda>n a st. Inr (if n = ''x'' then Some ''five'' else None, st)),
      parse_inline = (\<lambda>n a st. Inr (Some n, st)), history_line = (\<lambda>n w. (None, w)), input_prompt = (\<lambda>b n w. (''in'', w)),
      pad_char_var = CHR '' ''\<rparr>"

theorem quoted_text_survives_witness:
  "expand_alias sample_exp_env None 20 True (double_quote ''a;$b({'' [CHR ''$'', CHR 0x5C, CHR ''('', CHR 0x7B, CHR '';'']) (False, ())
    = Inr (''a;$b({'', None, (False, ()))"
  by (rule quoted_text_survives) (simp_all add: is_at_def)

theorem expansion_returns_witness:
  "\<exists>t sep_rest st'. expand_alias sample_exp_env (Some ''one two'') 40 True ''msg $0 $x; quit'' (False, ()) = Inr (t, sep_rest, st')"
  by (rule expansion_returns) (simp_all add: no_paren_def calls_return_def sample_exp_env_def)

theorem width_is_kept_witness:
  "\<exists>t r st'. alias_special_char sample_exp_env None 2 [] (''['' @ ltoa (- 9) @ '']'' @ ''x'') (False, ()) = Inr (t, r, st') \<and>
    (t = [] \<or> length t = 9)"
proof -
  have "fst (after_expando ''x'' False) = []" "snd (after_expando ''x'' False) = False" by code_simp+
  then have ax: "after_expando ''x'' False = ([], False)" by (simp add: prod_eq_iff)
  have "ltoa (- 9) = ''-9''" "MatchingBracket ''-9]x'' (CHR ''['') (CHR '']'') = Some '']x''" by code_simp+
  then obtain t r st' where s: "alias_special_char sample_exp_env None 2 [] (''['' @ ltoa (- 9) @ '']'' @ ''x'') (False, ()) = Inr (t, r, st')"
    using ax by (auto simp: numeral_2_eq_2 special_width_def simple_special_def expand_name_def before_def emit_def
        TruncateAndQuote_def sample_exp_env_def is_digit_def or_empty_def Let_def)
  have "t = [] \<or> length t = 9" using width_is_kept [OF _ _ _ s] by simp
  then show ?thesis using s by blast
qed

end
