(* ===== verification/LocalVars.thy ===== *)
theory LocalVars
  imports Expand
begin

section \<open>Local variables and the stack of frames (source/alias.c)\<close>

text \<open>
  Each alias, hook and loop of a script runs in a frame of \<open>call_stack\<close>. A variable is looked up in
  the frames from the top one along their parents up to a named one, then among the global variables.
  The frame at index 0 is the first of the list, so that \<open>wind_index\<close> is its length minus one.
  The order of the variables of a frame does not matter to the search, so the newest comes first. The
  global variables, whose table is the subject of \<open>AliasVars\<close>, are the map it stands for; of the
  built-in variables, settings and environment only their values count. \<open>None\<close> is no return, or an
  access outside the stack.
\<close>

subsection \<open>Frames\<close>

record RuntimeStack =
  frame_name :: cstr
  locals :: "(cstr \<times> cstr option) list"
  locked :: bool
  parent :: int

record script_vars =
  call_stack :: "RuntimeStack list"
  last_function_call_level :: int
  globals :: "cstr \<Rightarrow> cstr option"

abbreviation wind_index :: "'z script_vars_scheme \<Rightarrow> int" where
  "wind_index v \<equiv> int (length (call_stack v)) - 1"

definition make_local_stack :: "cstr option \<Rightarrow> 'z script_vars_scheme \<Rightarrow> 'z script_vars_scheme" where
  "make_local_stack nm v =
     v\<lparr>call_stack := call_stack v @
       [case nm of
          Some n \<Rightarrow> \<lparr>frame_name = n, locals = [], locked = False, parent = - 1\<rparr>
        | None \<Rightarrow> \<lparr>frame_name = [], locals = [], locked = False, parent = wind_index v\<rparr>]\<rparr>"

definition destroy_local_stack :: "'z script_vars_scheme \<Rightarrow> 'z script_vars_scheme option" where
  "destroy_local_stack v = (if call_stack v = [] then None else Some (v\<lparr>call_stack := butlast (call_stack v)\<rparr>))"

definition change_top :: "(RuntimeStack \<Rightarrow> RuntimeStack) \<Rightarrow> 'z script_vars_scheme \<Rightarrow> 'z script_vars_scheme option" where
  "change_top f v =
     (if call_stack v = [] then None
      else Some (v\<lparr>call_stack := butlast (call_stack v) @ [f (last (call_stack v))]\<rparr>))"

fun first_locked :: "int \<Rightarrow> RuntimeStack list \<Rightarrow> int" where
  "first_locked i [] = - 1"
| "first_locked i (f # fs) = (if locked f then i else first_locked (i + 1) fs)"

definition find_locked_stack_frame :: "'z script_vars_scheme \<Rightarrow> int" where
  "find_locked_stack_frame v = first_locked 0 (butlast (call_stack v))"

definition bless_local_stack :: "'z script_vars_scheme \<Rightarrow> 'z script_vars_scheme option" where
  "bless_local_stack v = change_top (\<lambda>f. f\<lparr>frame_name := [], parent := find_locked_stack_frame v\<rparr>) v"

definition lock_stack_frame :: "'z script_vars_scheme \<Rightarrow> 'z script_vars_scheme option" where
  "lock_stack_frame = change_top (\<lambda>f. f\<lparr>locked := True\<rparr>)"

definition unlock_stack_frame :: "'z script_vars_scheme \<Rightarrow> 'z script_vars_scheme" where
  "unlock_stack_frame v =
     (let l = find_locked_stack_frame v
      in if 0 \<le> l then v\<lparr>call_stack := (call_stack v)[nat l := (call_stack v ! nat l)\<lparr>locked := False\<rparr>]\<rparr> else v)"

fun return_this_alias :: "RuntimeStack list \<Rightarrow> cstr" where
  "return_this_alias [] = []"
| "return_this_alias (f # fs) = (if frame_name f = [] \<and> fs \<noteq> [] then return_this_alias fs else frame_name f)"

subsection \<open>Looking up\<close>

definition FUNCTION_RETURN :: cstr where
  "FUNCTION_RETURN = ''FUNCTION_RETURN''"

text \<open>A name with a dot at its end stands for all longer names.\<close>

definition implies_name :: "cstr \<Rightarrow> cstr \<Rightarrow> bool" where
  "implies_name e nm \<longleftrightarrow> streq e nm = length e \<and> e \<noteq> [] \<and> last e = CHR ''.''"

text \<open>
  For a local variable with the empty name the code looks at the byte before its name, which is outside
  of the string. The model takes that byte for something other than a dot, as it is where the memory
  management keeps the size of a block in front of it.
\<close>

definition is_name :: "cstr \<Rightarrow> cstr \<Rightarrow> bool" where
  "is_name e nm \<longleftrightarrow> streq e nm = length e \<and> \<not> implies_name e nm \<and> length nm = length e"

datatype frame_place = Found nat | Create nat | Nowhere

definition in_frame :: "cstr \<Rightarrow> RuntimeStack \<Rightarrow> nat \<Rightarrow> frame_place" where
  "in_frame nm f c =
     (if \<exists>(e, s) \<in> set (locals f). is_name e nm then Found c
      else if \<exists>(e, s) \<in> set (locals f). implies_name e nm then Create c else Nowhere)"

text \<open>
  The loop: \<open>level\<close> is \<open>last_function_call_level\<close>, which replaces the place when the name is
  \<open>FUNCTION_RETURN\<close>.
\<close>

partial_function (option) find_frame :: "RuntimeStack list \<Rightarrow> int \<Rightarrow> cstr \<Rightarrow> int \<Rightarrow> frame_place option" where
  "find_frame fs level nm i =
     (if i < 0 then Some Nowhere
      else
        let c = (if my_stricmp nm FUNCTION_RETURN = 0 \<and> level \<noteq> - 1 then level else i)
        in if c < 0 \<or> int (length fs) \<le> c then None
           else case in_frame nm (fs ! nat c) (nat c) of
             Found k \<Rightarrow> Some (Found k)
           | Create k \<Rightarrow> Some (Create k)
           | Nowhere \<Rightarrow>
               if frame_name (fs ! nat c) \<noteq> [] \<or> parent (fs ! nat c) = - 1 then Some Nowhere
               else find_frame fs level nm (parent (fs ! nat c)))"

declare find_frame.simps [code]

definition frame_value :: "RuntimeStack \<Rightarrow> cstr \<Rightarrow> cstr option" where
  "frame_value f nm = (case List.find (\<lambda>(e, s). is_name e nm) (locals f) of None \<Rightarrow> None | Some (e, s) \<Rightarrow> s)"

definition change_frame :: "nat \<Rightarrow> (RuntimeStack \<Rightarrow> RuntimeStack) \<Rightarrow> 'z script_vars_scheme \<Rightarrow> 'z script_vars_scheme" where
  "change_frame c g v = v\<lparr>call_stack := (call_stack v)[c := g (call_stack v ! c)]\<rparr>"

definition add_local :: "cstr \<Rightarrow> RuntimeStack \<Rightarrow> RuntimeStack" where
  "add_local nm f = f\<lparr>locals := (nm, None) # locals f\<rparr>"

text \<open>The place of the variable, which is created when a longer name implies it.\<close>

definition find_local_alias :: "'z script_vars_scheme \<Rightarrow> cstr \<Rightarrow> (nat option \<times> 'z script_vars_scheme) option" where
  "find_local_alias v nm =
     (if fst (after_expando nm True) \<noteq> [] \<or> call_stack v = [] then Some (None, v)
      else case find_frame (call_stack v) (last_function_call_level v) nm (wind_index v) of
        None \<Rightarrow> None
      | Some (Found c) \<Rightarrow> Some (Some c, v)
      | Some (Create c) \<Rightarrow> Some (Some c, change_frame c (add_local nm) v)
      | Some Nowhere \<Rightarrow> Some (None, v))"

fun set_first :: "cstr \<Rightarrow> cstr option \<Rightarrow> (cstr \<times> cstr option) list \<Rightarrow> (cstr \<times> cstr option) list" where
  "set_first nm s [] = []"
| "set_first nm s ((e, t) # xs) = (if is_name e nm then (e, s) # xs else (e, t) # set_first nm s xs)"

definition set_local :: "cstr \<Rightarrow> cstr option \<Rightarrow> RuntimeStack \<Rightarrow> RuntimeStack" where
  "set_local nm s f = f\<lparr>locals := set_first nm s (locals f)\<rparr>"

subsection \<open>Names with subscripts\<close>

text \<open>
  \<open>a[b]\<close> is \<open>a.b\<close>: each round of the loop replaces the first subscript by its expansion, which may
  contain subscripts itself. Without arguments the subscripts are taken as they are.
\<close>

fun remove_brackets ::
  "(cstr \<Rightarrow> 's \<Rightarrow> (cstr \<times> 's) result) \<Rightarrow> nat \<Rightarrow> cstr \<Rightarrow> 's \<Rightarrow> (cstr \<times> 's) result" where
  "remove_brackets expand 0 s st = Inl OutOfFuel"
| "remove_brackets expand (Suc n) s st =
     (case strchr_at s (CHR ''['') of
        None \<Rightarrow> Inr (upper s, st)
      | Some t \<Rightarrow>
          let (inner, rest) = (case MatchingBracket (tl t) (CHR ''['') (CHR '']'') of
                                 None \<Rightarrow> (tl t, [])
                               | Some u \<Rightarrow> (before (tl t) u, tl u))
          in bnd (expand inner st) (\<lambda>(r, st'). remove_brackets expand n (before s t @ ''.'' @ r @ rest) st'))"

definition plain_name :: "cstr \<Rightarrow> cstr" where
  "plain_name s =
     (case remove_brackets (\<lambda>t u :: unit. Inr (t, u)) (length s + 1) s () of Inr (r, _) \<Rightarrow> r | Inl _ \<Rightarrow> [])"

subsection \<open>Assigning\<close>

text \<open>\<open>None\<close> as the text of a variable is NULL, which \<open>add_local_alias\<close> takes the length of.\<close>

definition add_local_alias :: "cstr \<Rightarrow> cstr option \<Rightarrow> 'z script_vars_scheme \<Rightarrow> 'z script_vars_scheme option" where
  "add_local_alias nm stuff v =
     (let nm = plain_name nm in
      if fst (after_expando nm True) \<noteq> [] then Some v
      else if call_stack v = [] \<or> stuff = None then None
      else case find_local_alias v nm of
        None \<Rightarrow> None
      | Some (Some c, v') \<Rightarrow> Some (change_frame c (set_local nm stuff) v')
      | Some (None, v') \<Rightarrow> change_top (\<lambda>f. f\<lparr>locals := (nm, stuff) # locals f\<rparr>) v')"

text \<open>One colon in front of a name stands for a local variable, two stand for a global one.\<close>

definition scope :: "cstr \<Rightarrow> int \<times> cstr" where
  "scope nm =
     (if cat nm 0 = CHR '':'' then if cat nm 1 = CHR '':'' then (- 1, drop 2 nm) else (1, tl nm) else (0, nm))"

definition add_var_alias :: "cstr \<Rightarrow> cstr option \<Rightarrow> bool \<Rightarrow> 'z script_vars_scheme \<Rightarrow> 'z script_vars_scheme option" where
  "add_var_alias nm stuff noisy v =
     (case scope (plain_name nm) of
        (loc, nm) \<Rightarrow>
          if fst (after_expando nm True) \<noteq> [] \<and> noisy then Some v
          else if nm = FUNCTION_RETURN \<or> loc = 1 then add_local_alias nm stuff v
          else case (if loc = 0 then find_local_alias v nm else Some (None, v)) of
            None \<Rightarrow> None
          | Some (Some c, v') \<Rightarrow> add_local_alias nm stuff v'
          | Some (None, v') \<Rightarrow>
              (case stuff of
                 None \<Rightarrow> Some (v'\<lparr>globals := (globals v')(nm := None)\<rparr>)
               | Some s \<Rightarrow> Some (v'\<lparr>globals := (globals v')(nm := (if s = [] then None else Some s))\<rparr>)))"

subsection \<open>Reading\<close>

record var_env =
  built_in_alias :: "char \<Rightarrow> cstr option"
  make_string_var :: "cstr \<Rightarrow> cstr option"
  bsd_getenv :: "cstr \<Rightarrow> cstr option"

definition read_scope :: "cstr \<Rightarrow> int \<times> cstr" where
  "read_scope nm = (if cat nm 0 = CHR '':'' \<and> cat nm 1 \<noteq> NUL then scope nm else (0, nm))"

text \<open>\<open>str\<close> is the name as written, \<open>nm\<close> the name without subscripts.\<close>

definition variable_value :: "var_env \<Rightarrow> cstr \<Rightarrow> cstr \<Rightarrow> 'z script_vars_scheme \<Rightarrow> (cstr option \<times> 'z script_vars_scheme) option" where
  "variable_value X raw nm v =
     (case read_scope nm of
        (loc, nm) \<Rightarrow>
          (case (if loc \<noteq> - 1 then find_local_alias v nm else Some (None, v)) of
             None \<Rightarrow> None
           | Some (Some c, v') \<Rightarrow>
               Some (Some (case frame_value (call_stack v' ! c) nm of None \<Rightarrow> [] | Some s \<Rightarrow> s), v')
           | Some (None, v') \<Rightarrow>
               Some (if loc = 1 then None
                     else case globals v' nm of
                       Some s \<Rightarrow> Some s
                     | None \<Rightarrow>
                         if length raw = 1 \<and> built_in_alias X (hd raw) \<noteq> None then built_in_alias X (hd raw)
                         else if make_string_var X raw \<noteq> None then make_string_var X raw
                         else Some (case bsd_getenv X raw of None \<Rightarrow> [] | Some s \<Rightarrow> s), v')))"

definition get_variable :: "var_env \<Rightarrow> cstr \<Rightarrow> 'z script_vars_scheme \<Rightarrow> (cstr option \<times> 'z script_vars_scheme) option" where
  "get_variable X raw = variable_value X raw (plain_name raw)"

subsection \<open>Arguments of aliases\<close>

record ArgList =
  arg_vars :: "cstr option list"
  arg_defaults :: "cstr option list"
  void_flag :: bool
  dot_flag :: bool

definition ALIAS_MAXARGS :: nat where "ALIAS_MAXARGS = 32"

text \<open>
  One term of the list: nothing, the end of the list (with its flags), or a variable with a default
  value.
\<close>

datatype arg_term = NoTerm | VoidTerm | DotTerm | VarTerm cstr "cstr option"

definition parse_term :: "cstr \<Rightarrow> arg_term" where
  "parse_term s =
     (case next_arg s of
        (None, _) \<Rightarrow> NoTerm
      | (Some nm, r) \<Rightarrow>
          if my_stricmp nm ''void'' = 0 then VoidTerm
          else if my_stricmp nm ''...'' = 0 then DotTerm
          else VarTerm nm
            (case next_arg r of
               (None, _) \<Rightarrow> None
             | (Some modifier, r') \<Rightarrow>
                 if my_stricmp modifier ''default'' = 0 then fst (new_next_arg r') else None))"

text \<open>\<open>None\<close>: there are more terms than the arrays have room for.\<close>

function parse_arglist :: "cstr \<Rightarrow> cstr option list \<Rightarrow> cstr option list \<Rightarrow> ArgList option" where
  "parse_arglist s vs ds =
     (let done = (\<lambda>v d. Some \<lparr>arg_vars = vs, arg_defaults = ds, void_flag = v, dot_flag = d\<rparr>)
      in if ALIAS_MAXARGS \<le> length vs then None
         else if s = [] then done False False
         else case next_in_comma_list (dropWhile my_isspace s) of
           (this_term, next_term) \<Rightarrow>
             (case parse_term this_term of
                NoTerm \<Rightarrow> parse_arglist next_term (vs @ [None]) (ds @ [None])
              | VoidTerm \<Rightarrow> done True False
              | DotTerm \<Rightarrow> done False True
              | VarTerm nm d \<Rightarrow> parse_arglist next_term (vs @ [Some nm]) (ds @ [d])))"
  by pat_completeness auto
termination
  by (relation "measure (\<lambda>(s, vs, ds). ALIAS_MAXARGS - length vs)") auto

declare parse_arglist.simps [simp del]

text \<open>
  \<open>prepare_alias_call\<close> gives the words of the arguments to the variables: the last one takes all that
  is left. A default value is expanded with what is left of the arguments; expanding may change any part
  of the state.
\<close>

definition no_arguments_left :: "ArgList \<Rightarrow> cstr option list \<Rightarrow> bool" where
  "no_arguments_left al vs \<longleftrightarrow> (vs = [] \<or> hd vs = None) \<and> \<not> dot_flag al \<and> \<not> void_flag al"

fun assign_arguments ::
  "'z script_vars_scheme exp_env \<Rightarrow> nat \<Rightarrow> ArgList \<Rightarrow> cstr option list \<Rightarrow> cstr option list \<Rightarrow> cstr \<Rightarrow> 'z script_vars_scheme
    \<Rightarrow> (cstr \<times> 'z script_vars_scheme) result" where
  "assign_arguments E n al (Some nm # vs) (d # ds) stuff v =
     (let (next_val, stuff') = (if no_arguments_left al vs then (Some stuff, []) else next_arg stuff)
      in bnd (case next_val of
                Some (c # w) \<Rightarrow> Inr (c # w, v)
              | _ \<Rightarrow> (case d of
                        None \<Rightarrow> Inr ([], v)
                      | Some e \<Rightarrow> bnd (expand_alias E (Some stuff') n False e (False, v)) (\<lambda>(t, _, _, v'). Inr (t, v'))))
         (\<lambda>(val, v'). case add_local_alias nm (Some val) v' of
            None \<Rightarrow> Inl NoReturn
          | Some v2 \<Rightarrow> assign_arguments E n al vs ds stuff' v2))"
| "assign_arguments E n al vs ds stuff v = Inr (stuff, v)"

definition prepare_alias_call ::
  "'z script_vars_scheme exp_env \<Rightarrow> nat \<Rightarrow> ArgList option \<Rightarrow> cstr \<Rightarrow> 'z script_vars_scheme \<Rightarrow> (cstr \<times> 'z script_vars_scheme) result" where
  "prepare_alias_call E n al stuff v =
     (case al of
        None \<Rightarrow> Inr (stuff, v)
      | Some a \<Rightarrow> bnd (assign_arguments E n a (arg_vars a) (arg_defaults a) stuff v)
                     (\<lambda>(s, v'). Inr (if void_flag a then [] else s, v')))"

definition returns :: "'a option \<Rightarrow> 'a result" where
  "returns x = (case x of None \<Rightarrow> Inl NoReturn | Some y \<Rightarrow> Inr y)"

text \<open>\<open>run\<close> executes the lines of the alias with the arguments.\<close>

definition parse_line_alias_special ::
  "var_env \<Rightarrow> 'z script_vars_scheme exp_env \<Rightarrow> (cstr \<Rightarrow> cstr \<Rightarrow> 'z script_vars_scheme \<Rightarrow> 'z script_vars_scheme result) \<Rightarrow> nat \<Rightarrow> cstr option \<Rightarrow> cstr
    \<Rightarrow> cstr \<Rightarrow> ArgList option \<Rightarrow> bool \<Rightarrow> 'z script_vars_scheme \<Rightarrow> (cstr option \<times> 'z script_vars_scheme) result" where
  "parse_line_alias_special X E run n nm what args arglist function v =
     (let old = last_function_call_level v in
      bnd (prepare_alias_call E n arglist args (make_local_stack nm v)) (\<lambda>(args', v1).
      bnd (if function
           then returns (add_local_alias FUNCTION_RETURN (Some []) (v1\<lparr>last_function_call_level := wind_index v1\<rparr>))
           else Inr v1) (\<lambda>v2.
      bnd (run what args' v2) (\<lambda>v3.
      bnd (if function
           then bnd (returns (get_variable X FUNCTION_RETURN v3)) (\<lambda>(r, v4). Inr (r, v4\<lparr>last_function_call_level := old\<rparr>))
           else Inr (None, v3)) (\<lambda>(result, v5).
      bnd (returns (destroy_local_stack v5)) (\<lambda>v6. Inr (result, v6)))))))"

definition parse_line_with_return ::
  "var_env \<Rightarrow> 'z script_vars_scheme exp_env \<Rightarrow> (cstr \<Rightarrow> cstr \<Rightarrow> 'z script_vars_scheme \<Rightarrow> 'z script_vars_scheme result) \<Rightarrow> nat \<Rightarrow> cstr option \<Rightarrow> cstr
    \<Rightarrow> cstr \<Rightarrow> 'z script_vars_scheme \<Rightarrow> (cstr option \<times> 'z script_vars_scheme) result" where
  "parse_line_with_return X E run n nm what args = parse_line_alias_special X E run n nm what args None True"

subsection \<open>The parents of frames\<close>

definition frames_ok :: "RuntimeStack list \<Rightarrow> bool" where
  "frames_ok fs \<longleftrightarrow> (\<forall>c < length fs. - 1 \<le> parent (fs ! c) \<and> parent (fs ! c) < int c)"

text \<open>The frames that the search from a place passes, for an ordinary name.\<close>

definition ordinary :: "cstr \<Rightarrow> int \<Rightarrow> bool" where
  "ordinary nm level \<longleftrightarrow> my_stricmp nm FUNCTION_RETURN \<noteq> 0 \<or> level = - 1"

lemma in_frame_place: "in_frame nm f c = Found k \<Longrightarrow> k = c" "in_frame nm f c = Create k \<Longrightarrow> k = c"
  by (auto simp: in_frame_def split: if_splits)

text \<open>A named frame bounds the search from the frames above it.\<close>

definition bounded_at :: "nat \<Rightarrow> RuntimeStack list \<Rightarrow> bool" where
  "bounded_at lo fs \<longleftrightarrow>
     lo < length fs \<and> frame_name (fs ! lo) \<noteq> [] \<and>
     (\<forall>c. lo < c \<and> c < length fs \<longrightarrow> parent (fs ! c) = - 1 \<or> int lo \<le> parent (fs ! c))"

lemma find_frame_unfold:
  assumes "ordinary nm level" "c < length fs"
  shows "find_frame fs level nm (int c) =
    (case in_frame nm (fs ! c) c of
       Found k \<Rightarrow> Some (Found k) | Create k \<Rightarrow> Some (Create k)
     | Nowhere \<Rightarrow> if frame_name (fs ! c) \<noteq> [] \<or> parent (fs ! c) = - 1 then Some Nowhere
                 else find_frame fs level nm (parent (fs ! c)))"
  using assms by (subst find_frame.simps) (auto simp: ordinary_def Let_def cong: frame_place.case_cong)

lemma find_frame_returns:
  assumes "frames_ok fs" "ordinary nm level" "- 1 \<le> i" "i < int (length fs)"
  shows "\<exists>p. find_frame fs level nm i = Some p \<and>
    (\<forall>k. p = Found k \<or> p = Create k \<longrightarrow> int k \<le> i \<and> (bounded_at lo fs \<and> int lo \<le> i \<longrightarrow> lo \<le> k))"
  using assms(3,4)
proof (induction "nat (i + 1)" arbitrary: i rule: less_induct)
  case less
  show ?case
  proof (cases "i < 0")
    case True
    then show ?thesis by (subst find_frame.simps) simp
  next
    case False
    define c where "c = nat i"
    have c: "c < length fs" "i = int c" using False less.prems by (auto simp: c_def)
    have p: "- 1 \<le> parent (fs ! c)" "parent (fs ! c) < i" using assms(1) c by (auto simp: frames_ok_def)
    have IH: "\<exists>q. find_frame fs level nm (parent (fs ! c)) = Some q \<and> (\<forall>k. q = Found k \<or> q = Create k \<longrightarrow>
        int k \<le> parent (fs ! c) \<and> (bounded_at lo fs \<and> int lo \<le> parent (fs ! c) \<longrightarrow> lo \<le> k))"
      using p less.prems False by (intro less.hyps) auto
    note e = find_frame_unfold [OF assms(2) c(1)]
    show ?thesis
    proof (cases "in_frame nm (fs ! c) c")
      case (Found k)
      then show ?thesis using e c in_frame_place(1) [OF Found] by simp
    next
      case (Create k)
      then show ?thesis using e c in_frame_place(2) [OF Create] by simp
    next
      case Nowhere
      show ?thesis
      proof (cases "frame_name (fs ! c) \<noteq> [] \<or> parent (fs ! c) = - 1")
        case False
        then have "bounded_at lo fs \<and> int lo \<le> i \<longrightarrow> int lo \<le> parent (fs ! c)"
          using c by (cases "lo = c") (auto simp: bounded_at_def dest!: spec [of _ c])
        then show ?thesis using IH p e c Nowhere False by auto
      qed (use e c Nowhere in auto)
    qed
  qed
qed

subsection \<open>Names without subscripts\<close>

lemma upper_idem [simp]: "upper (upper s) = upper s"
  by (simp add: upper_def comp_def)

lemma upper_drop: "upper (drop k s) = drop k (upper s)"
  by (simp add: upper_def drop_map)

lemma strchr_at_None: "strchr_at s c = None \<longleftrightarrow> c \<notin> set s"
proof -
  have "dropWhile (\<lambda>d. d \<noteq> c) s = [] \<longleftrightarrow> c \<notin> set s" by (auto simp: dropWhile_eq_Nil_conv)
  then show ?thesis by (cases "dropWhile (\<lambda>d. d \<noteq> c) s") (auto simp: strchr_at_def)
qed

lemma before_append: "suffix t s \<Longrightarrow> before s t @ t = s"
  by (auto simp: before_def suffix_def)

lemma no_bracket_upper: "CHR ''['' \<notin> set s \<Longrightarrow> CHR ''['' \<notin> set (upper s)"
  by (auto simp: upper_def c_toupper_def is_lower_def dest!: arg_cong [where f = "ord"])

lemma plain_rounds:
  "count_list s (CHR ''['') < n \<Longrightarrow>
    \<exists>r. remove_brackets (\<lambda>t u :: unit. Inr (t, u)) n s () = Inr (upper r, ()) \<and> CHR ''['' \<notin> set r"
proof (induction n arbitrary: s)
  case (Suc n)
  show ?case
  proof (cases "strchr_at s (CHR ''['')")
    case None
    then show ?thesis using strchr_at_None [of s "CHR ''[''"] by (intro exI [of _ s]) simp
  next
    case (Some t)
    then have t: "suffix t s" "t = CHR ''['' # tl t"
      using strchr_at_suffix [OF Some] by (auto simp: strchr_at_def dropWhile_eq_Cons_conv split: list.splits)
    obtain inner rest where ir: "(case MatchingBracket (tl t) (CHR ''['') (CHR '']'') of
        None \<Rightarrow> (tl t, []) | Some u \<Rightarrow> (before (tl t) u, tl u)) = (inner, rest)"
      by (cases "case MatchingBracket (tl t) (CHR ''['') (CHR '']'') of None \<Rightarrow> (tl t, []) | Some u \<Rightarrow> (before (tl t) u, tl u)")
    have le: "count_list inner (CHR ''['') + count_list rest (CHR ''['') \<le> count_list (tl t) (CHR ''['')"
    proof (cases "MatchingBracket (tl t) (CHR ''['') (CHR '']'')")
      case u: (Some u)
      then have bu: "before (tl t) u @ u = tl t" "u \<noteq> []" using MatchingBracket_suffix [OF u] before_append by auto
      have "count_list (tl u) (CHR ''['') \<le> count_list u (CHR ''['')" by (cases u) auto
      moreover have "count_list (tl t) (CHR ''['') = count_list (before (tl t) u) (CHR ''['') + count_list u (CHR ''['')"
        using bu by (metis count_list_append)
      ultimately show ?thesis using ir u by auto
    qed (use ir in auto)
    have "count_list s (CHR ''['') = count_list (before s t) (CHR ''['') + count_list t (CHR ''['')"
      using before_append [OF t(1)] by (metis count_list_append)
    moreover have "count_list t (CHR ''['') = Suc (count_list (tl t) (CHR ''[''))" by (subst t(2)) simp
    ultimately have "count_list (before s t @ ''.'' @ inner @ rest) (CHR ''['') < n"
      using le Suc.prems by (simp add: count_list_append)
    then show ?thesis using Suc.IH Some ir by simp
  qed
qed simp

lemma plain_name_form: "\<exists>r. plain_name s = upper r \<and> CHR ''['' \<notin> set r"
proof -
  have "count_list s (CHR ''['') < length s + 1" using count_le_length [of s "CHR ''[''"] by simp
  then show ?thesis using plain_rounds [of s "length s + 1"] by (auto simp: plain_name_def)
qed

lemma plain_name_plain: "CHR ''['' \<notin> set s \<Longrightarrow> plain_name s = upper s"
  by (simp add: plain_name_def strchr_at_None [THEN iffD2])

lemma plain_name_scope: "plain_name (snd (scope (plain_name s))) = snd (scope (plain_name s))"
proof -
  obtain r where r: "plain_name s = upper r" "CHR ''['' \<notin> set r" using plain_name_form by blast
  have "CHR ''['' \<notin> set (upper r)" using r(2) by (rule no_bracket_upper)
  then have "plain_name (drop k (upper r)) = drop k (upper r)" for k
    using plain_name_plain [of "drop k (upper r)"] in_set_dropD by (fastforce simp: upper_drop)
  from this [of 0] this [of 1] this [of 2] show ?thesis by (simp add: scope_def r(1) drop_Suc)
qed

subsection \<open>Frames below a named one\<close>

datatype var_op = Local cstr cstr | Assign cstr cstr bool | Look cstr | Enter "cstr option" | Leave

fun var_step :: "var_env \<Rightarrow> var_op \<Rightarrow> 'z script_vars_scheme \<Rightarrow> 'z script_vars_scheme option" where
  "var_step X (Local nm s) v = add_local_alias nm (Some s) v"
| "var_step X (Assign nm s noisy) v = add_var_alias nm (Some s) noisy v"
| "var_step X (Look nm) v = map_option snd (get_variable X nm v)"
| "var_step X (Enter nm) v = Some (make_local_stack nm v)"
| "var_step X Leave v = destroy_local_stack v"

fun var_run :: "var_env \<Rightarrow> var_op list \<Rightarrow> 'z script_vars_scheme \<Rightarrow> 'z script_vars_scheme option" where
  "var_run X [] v = Some v"
| "var_run X (x # xs) v = (case var_step X x v of None \<Rightarrow> None | Some v' \<Rightarrow> var_run X xs v')"

text \<open>No frame is left that was not entered.\<close>

fun balanced :: "nat \<Rightarrow> var_op list \<Rightarrow> bool" where
  "balanced d [] = True"
| "balanced d (Enter nm # xs) = balanced (Suc d) xs"
| "balanced d (Leave # xs) = (0 < d \<and> balanced (d - 1) xs)"
| "balanced d (x # xs) = balanced d xs"

text \<open>Outside of functions every name is looked up in the same way.\<close>

fun looks_up :: "var_op \<Rightarrow> cstr option" where
  "looks_up (Local nm s) = Some (plain_name nm)"
| "looks_up (Assign nm s noisy) = Some (snd (scope (plain_name nm)))"
| "looks_up (Look nm) = Some (snd (read_scope (plain_name nm)))"
| "looks_up x = None"

definition ordinary_op :: "int \<Rightarrow> var_op \<Rightarrow> bool" where
  "ordinary_op level x \<longleftrightarrow> (case looks_up x of None \<Rightarrow> True | Some nm \<Rightarrow> ordinary nm level)"

definition inside :: "RuntimeStack list \<Rightarrow> int \<Rightarrow> nat \<Rightarrow> 'z script_vars_scheme \<Rightarrow> bool" where
  "inside fs level d v \<longleftrightarrow>
     length (call_stack v) = length fs + 1 + d \<and> take (length fs) (call_stack v) = fs \<and>
     bounded_at (length fs) (call_stack v) \<and> frames_ok (call_stack v) \<and> last_function_call_level v = level"

lemma update_keeps: "(\<And>x. P (g x) = P x) \<Longrightarrow> P (xs[k := g (xs ! k)] ! j) = P (xs ! j)"
  by (cases "k < length xs") (simp_all add: nth_list_update list_update_beyond)

lemma inside_change:
  assumes "inside fs level d v" "length fs \<le> c" "\<And>f. frame_name (g f) = frame_name f \<and> parent (g f) = parent f"
  shows "inside fs level d (change_frame c g v)"
proof -
  have "frame_name ((call_stack v)[c := g (call_stack v ! c)] ! j) = frame_name (call_stack v ! j)"
    "parent ((call_stack v)[c := g (call_stack v ! c)] ! j) = parent (call_stack v ! j)" for j
    using assms(3) by (simp_all add: update_keeps)
  then show ?thesis using assms(1,2) by (simp add: inside_def change_frame_def bounded_at_def frames_ok_def)
qed

lemma inside_top:
  assumes "inside fs level d v" "\<And>f. frame_name (g f) = frame_name f \<and> parent (g f) = parent f"
  shows "\<exists>v'. change_top g v = Some v' \<and> inside fs level d v'"
proof -
  define c where "c = length (call_stack v) - 1"
  have ne: "call_stack v \<noteq> []" "length fs \<le> c" using assms(1) by (auto simp: inside_def c_def)
  then have "butlast (call_stack v) @ [g (last (call_stack v))] = (call_stack v)[c := g (call_stack v ! c)]"
    by (cases "call_stack v" rule: rev_cases) (auto simp: c_def)
  then show ?thesis using inside_change [OF assms(1) ne(2), of g] assms(2) ne(1) by (simp add: change_top_def change_frame_def)
qed

lemma inside_find:
  assumes "inside fs level d v" "ordinary nm level"
  shows "\<exists>r v'. find_local_alias v nm = Some (r, v') \<and> inside fs level d v' \<and> (\<forall>c. r = Some c \<longrightarrow> length fs \<le> c)"
proof (cases "fst (after_expando nm True) \<noteq> []")
  case False
  have ne: "call_stack v \<noteq> []" using assms(1) by (auto simp: inside_def)
  have i: "frames_ok (call_stack v)" "last_function_call_level v = level" "bounded_at (length fs) (call_stack v)"
    "int (length fs) \<le> wind_index v"
    using assms(1) by (auto simp: inside_def)
  obtain p where p: "find_frame (call_stack v) level nm (wind_index v) = Some p"
    "\<forall>k. p = Found k \<or> p = Create k \<longrightarrow> int k \<le> wind_index v \<and> length fs \<le> k"
    using find_frame_returns [OF i(1) assms(2), of "wind_index v" "length fs"] i ne by auto
  have "inside fs level d (change_frame k (add_local nm) v)" if "p = Create k" for k
    using inside_change [OF assms(1), of k "add_local nm"] p(2) that by (simp add: add_local_def)
  then show ?thesis using p ne False i(2) assms(1)
    by (cases p) (auto simp: find_local_alias_def)
qed (use assms(1) in \<open>simp add: find_local_alias_def\<close>)

lemma inside_add_local:
  assumes "inside fs level d v" "ordinary (plain_name nm) level"
  shows "\<exists>v'. add_local_alias nm (Some s) v = Some v' \<and> inside fs level d v'"
proof (cases "fst (after_expando (plain_name nm) True) \<noteq> []")
  case False
  obtain r v' where r: "find_local_alias v (plain_name nm) = Some (r, v')" "inside fs level d v'"
    "\<forall>c. r = Some c \<longrightarrow> length fs \<le> c"
    using inside_find [OF assms] by blast
  have "call_stack v \<noteq> []" using assms(1) by (auto simp: inside_def)
  then show ?thesis
    using False r inside_change [OF r(2), of _ "set_local (plain_name nm) (Some s)"]
      inside_top [OF r(2), of "\<lambda>f. f\<lparr>locals := (plain_name nm, Some s) # locals f\<rparr>"]
    by (cases r) (auto simp: add_local_alias_def set_local_def Let_def)
qed (use assms(1) in \<open>simp add: add_local_alias_def\<close>)

lemma inside_globals: "inside fs level d v \<Longrightarrow> inside fs level d (v\<lparr>globals := g\<rparr>)"
  by (simp add: inside_def)

lemma inside_add_var:
  assumes "inside fs level d v" "ordinary (snd (scope (plain_name nm))) level"
  shows "\<exists>v'. add_var_alias nm (Some s) noisy v = Some v' \<and> inside fs level d v'"
proof -
  obtain l n where ln: "scope (plain_name nm) = (l, n)" by (cases "scope (plain_name nm)")
  have n: "plain_name n = n" "ordinary n level" using plain_name_scope [of nm] assms(2) ln by simp_all
  have loc: "\<exists>v'. add_local_alias n (Some s) u = Some v' \<and> inside fs level d v'" if "inside fs level d u" for u
    using inside_add_local [OF that, of n] n by simp
  obtain r v' where r: "(if l = 0 then find_local_alias v n else Some (None, v)) = Some (r, v')" "inside fs level d v'"
    using inside_find [OF assms(1) n(2)] assms(1) by (cases "l = 0") auto
  have e: "add_var_alias nm (Some s) noisy v =
      (if fst (after_expando n True) \<noteq> [] \<and> noisy then Some v
       else if n = FUNCTION_RETURN \<or> l = 1 then add_local_alias n (Some s) v
       else case r of Some c \<Rightarrow> add_local_alias n (Some s) v'
         | None \<Rightarrow> Some (v'\<lparr>globals := (globals v')(n := (if s = [] then None else Some s))\<rparr>))"
    using r(1) by (cases r) (simp_all add: add_var_alias_def ln)
  obtain w1 w2 where "add_local_alias n (Some s) v = Some w1" "inside fs level d w1"
    "add_local_alias n (Some s) v' = Some w2" "inside fs level d w2"
    using loc [OF assms(1)] loc [OF r(2)] by blast
  then show ?thesis unfolding e using assms(1) inside_globals [OF r(2)] by (cases r) simp_all
qed

lemma inside_look:
  assumes "inside fs level d v" "ordinary (snd (read_scope (plain_name nm))) level"
  shows "\<exists>r v'. get_variable X nm v = Some (r, v') \<and> inside fs level d v'"
proof -
  obtain l n where ln: "read_scope (plain_name nm) = (l, n)" by (cases "read_scope (plain_name nm)")
  obtain r v' where "(if l \<noteq> - 1 then find_local_alias v n else Some (None, v)) = Some (r, v')" "inside fs level d v'"
    using inside_find [OF assms(1), of n] assms ln by (cases "l = - 1") auto
  then show ?thesis by (cases r) (auto simp: get_variable_def variable_value_def ln)
qed

lemma inside_enter:
  assumes "inside fs level d v"
  shows "inside fs level (Suc d) (make_local_stack nm v)"
  using assms by (auto simp: inside_def make_local_stack_def bounded_at_def frames_ok_def nth_append split: option.split)

lemma inside_leave:
  assumes "inside fs level d v" "0 < d"
  shows "\<exists>v'. destroy_local_stack v = Some v' \<and> inside fs level (d - 1) v'"
  using assms
  by (auto simp: inside_def destroy_local_stack_def bounded_at_def frames_ok_def nth_butlast take_butlast)

text \<open>
  C9: Whatever a script that runs in a named frame does with variables, in blocks of its own and in
  calls, it returns and leaves the frames of its caller as they were. The frames have their parents
  below them (\<open>frames_ok\<close>), the script declares, assigns and reads variables by names whose subscripts
  are plain text, takes off no frame that it has not made, assigns texts and not NULL,
  and while the call of a function is evaluated (\<open>last_function_call_level\<close> is not -1) it does not
  name FUNCTION_RETURN, the variable that is looked up in the frame of that call and not in its own:
  an assignment to it is meant to reach the caller's frame, and from a frame without a name the search
  does not even end (C33).
\<close>

theorem callers_locals_untouched:
  assumes "frames_ok (call_stack v)" "nm \<noteq> []" "balanced 0 ops"
    and "list_all (ordinary_op (last_function_call_level v)) ops"
  shows "\<exists>v'. var_run X ops (make_local_stack (Some nm) v) = Some v' \<and>
    take (length (call_stack v)) (call_stack v') = call_stack v"
proof -
  define level where "level = last_function_call_level v"
  have run: "\<exists>w'. var_run X xs w = Some w' \<and> take (length (call_stack v)) (call_stack w') = call_stack v"
    if "inside (call_stack v) level d w" "balanced d xs" "list_all (ordinary_op level) xs" for d xs w
    using that
  proof (induction xs arbitrary: d w)
    case (Cons x xs)
    have "\<exists>d' w'. var_step X x w = Some w' \<and> inside (call_stack v) level d' w' \<and> balanced d' xs"
    proof (cases x)
      case (Local n s)
      then show ?thesis using Cons.prems inside_add_local [of "call_stack v" level d w n s] by (auto simp: ordinary_op_def)
    next
      case (Assign n s b)
      then show ?thesis using Cons.prems inside_add_var [of "call_stack v" level d w n s b] by (auto simp: ordinary_op_def)
    next
      case (Look n)
      then show ?thesis using Cons.prems inside_look [of "call_stack v" level d w n X] by (fastforce simp: ordinary_op_def)
    next
      case (Enter n)
      then show ?thesis using Cons.prems inside_enter [of "call_stack v" level d w n] by auto
    next
      case Leave
      then show ?thesis using Cons.prems inside_leave [of "call_stack v" level d w] by auto
    qed
    then show ?case using Cons.IH Cons.prems(3) by auto
  qed (auto simp: inside_def)
  have "inside (call_stack v) level 0 (make_local_stack (Some nm) v)"
    using assms(1,2) by (auto simp: inside_def make_local_stack_def bounded_at_def frames_ok_def nth_append level_def)
  then show ?thesis using run assms(3,4) unfolding level_def by blast
qed

subsection \<open>What is assigned is read\<close>

lemma streq_same [simp]: "streq s s = length s"
  by (induction s) auto

lemma is_name_same: "nm \<noteq> [] \<Longrightarrow> last nm \<noteq> CHR ''.'' \<Longrightarrow> is_name nm nm"
  by (simp add: is_name_def implies_name_def)

text \<open>Only the names in the frames count for the search.\<close>

lemma names_same:
  assumes "map fst (locals f) = map fst (locals g)"
  shows "in_frame nm f c = in_frame nm g c"
proof -
  have ex: "(\<exists>(e, s) \<in> set xs. P e) \<longleftrightarrow> (\<exists>e \<in> set (map fst xs). P e)" for P and xs :: "(cstr \<times> cstr option) list"
    by force
  show ?thesis unfolding in_frame_def ex assms ..
qed

lemma map_fst_set_first [simp]: "map fst (set_first nm s xs) = map fst xs"
  by (induction nm s xs rule: set_first.induct) auto

lemma find_frame_same:
  assumes "frames_ok fs" "ordinary nm level" "length gs = length fs"
    "\<And>j. j < length fs \<Longrightarrow> frame_name (gs ! j) = frame_name (fs ! j) \<and> parent (gs ! j) = parent (fs ! j) \<and>
        in_frame nm (gs ! j) j = in_frame nm (fs ! j) j"
    and "- 1 \<le> i" "i < int (length fs)"
  shows "find_frame gs level nm i = find_frame fs level nm i"
  using assms(5,6)
proof (induction "nat (i + 1)" arbitrary: i rule: less_induct)
  case less
  show ?case
  proof (cases "i < 0")
    case True
    then show ?thesis by (subst (1 2) find_frame.simps) simp
  next
    case False
    define c where "c = nat i"
    have c: "c < length fs" "i = int c" using False less.prems by (auto simp: c_def)
    have p: "- 1 \<le> parent (fs ! c)" "parent (fs ! c) < i" using assms(1) c by (auto simp: frames_ok_def)
    have "find_frame gs level nm (parent (fs ! c)) = find_frame fs level nm (parent (fs ! c))"
      using p less.prems False by (intro less.hyps) auto
    then show ?thesis
      using find_frame_unfold [OF assms(2) c(1)] find_frame_unfold [OF assms(2), of c gs] assms(3,4) c
      by (simp cong: frame_place.case_cong)
  qed
qed

lemma find_frame_created:
  assumes "frames_ok fs" "ordinary nm level" "is_name nm nm"
    and "- 1 \<le> i" "i < int (length fs)" "find_frame fs level nm i = Some (Create k)"
  shows "find_frame (fs[k := add_local nm (fs ! k)]) level nm i = Some (Found k)"
  using assms(4-6)
proof (induction "nat (i + 1)" arbitrary: i rule: less_induct)
  case less
  have "\<not> i < 0" using less.prems(3) by (subst (asm) find_frame.simps) (auto split: if_splits)
  define c where "c = nat i"
  have c: "c < length fs" "i = int c" using \<open>\<not> i < 0\<close> less.prems by (auto simp: c_def)
  let ?gs = "fs[k := add_local nm (fs ! k)]"
  have p: "- 1 \<le> parent (fs ! c)" "parent (fs ! c) < i" using assms(1) c by (auto simp: frames_ok_def)
  note e = find_frame_unfold [OF assms(2) c(1)] find_frame_unfold [OF assms(2), of c ?gs]
  have same: "frame_name (?gs ! c) = frame_name (fs ! c)" "parent (?gs ! c) = parent (fs ! c)"
    by (simp_all add: update_keeps add_local_def)
  show ?case
  proof (cases "in_frame nm (fs ! c) c")
    case (Found j)
    then show ?thesis using less.prems(3) e(1) c by simp
  next
    case (Create j)
    then have "k = c" using less.prems(3) e(1) c in_frame_place(2) [OF Create] by simp
    moreover from this have "in_frame nm (?gs ! c) c = Found c"
      using c(1) assms(3) by (simp add: in_frame_def add_local_def)
    ultimately show ?thesis using e(2) c by simp
  next
    case Nowhere
    then have step: "frame_name (fs ! c) = []" "parent (fs ! c) \<noteq> - 1"
      "find_frame fs level nm (parent (fs ! c)) = Some (Create k)"
      using less.prems(3) e(1) c by (auto split: if_splits)
    have "find_frame ?gs level nm (parent (fs ! c)) = Some (Found k)"
      using p less.prems \<open>\<not> i < 0\<close> step(3) by (intro less.hyps) auto
    moreover have "k \<noteq> c"
      using find_frame_returns [OF assms(1,2) p(1), of c] p(2) c step(3) by force
    ultimately show ?thesis using e(2) c step same Nowhere by simp
  qed
qed

lemma value_set: "\<exists>(e, t) \<in> set xs. is_name e nm \<Longrightarrow>
    List.find (\<lambda>(e, t). is_name e nm) (set_first nm s xs) = Some (fst (the (List.find (\<lambda>(e, t). is_name e nm) xs)), s)"
  by (induction nm s xs rule: set_first.induct) auto

lemma find_frame_found:
  assumes "frames_ok fs" "ordinary nm level" "- 1 \<le> i" "i < int (length fs)" "find_frame fs level nm i = Some (Found k)"
  shows "k < length fs \<and> (\<exists>(e, t) \<in> set (locals (fs ! k)). is_name e nm)"
  using assms(3-5)
proof (induction "nat (i + 1)" arbitrary: i rule: less_induct)
  case less
  have "\<not> i < 0" using less.prems(3) by (subst (asm) find_frame.simps) (auto split: if_splits)
  define c where "c = nat i"
  have c: "c < length fs" "i = int c" using \<open>\<not> i < 0\<close> less.prems by (auto simp: c_def)
  have p: "- 1 \<le> parent (fs ! c)" "parent (fs ! c) < i" using assms(1) c by (auto simp: frames_ok_def)
  note e = find_frame_unfold [OF assms(2) c(1)]
  show ?case
  proof (cases "in_frame nm (fs ! c) c")
    case (Found j)
    then show ?thesis using less.prems(3) e c by (auto simp: in_frame_def split: if_splits)
  next
    case Nowhere
    then show ?thesis using less.hyps [of "parent (fs ! c)"] less.prems(3) e c p by (auto split: if_splits)
  qed (use less.prems(3) e c in simp)
qed

text \<open>Setting a variable that is found, and finding it again.\<close>

lemma set_then_found:
  assumes "frames_ok (call_stack v)" "ordinary nm (last_function_call_level v)" "call_stack v \<noteq> []"
    and f: "find_frame (call_stack v) (last_function_call_level v) nm (wind_index v) = Some (Found k)"
    and nm: "fst (after_expando nm True) = []" "plain_name nm = nm"
  shows "\<exists>v'. add_local_alias nm (Some s) v = Some v' \<and> find_local_alias v' nm = Some (Some k, v') \<and>
    frame_value (call_stack v' ! k) nm = Some s"
proof -
  define v' where "v' = change_frame k (set_local nm (Some s)) v"
  have k: "k < length (call_stack v)" "\<exists>(e, t) \<in> set (locals (call_stack v ! k)). is_name e nm"
    using find_frame_found [OF assms(1,2) _ _ f] assms(3) by auto
  have "find_frame (call_stack v') (last_function_call_level v) nm (wind_index v) = Some (Found k)"
    unfolding f [symmetric]
  proof (rule find_frame_same [OF assms(1,2)])
    fix j
    let ?g = "set_local nm (Some s)"
    have "in_frame nm (?g x) j = in_frame nm x j" for x by (rule names_same) (simp add: set_local_def)
    then have "in_frame nm ((call_stack v)[k := ?g (call_stack v ! k)] ! j) j = in_frame nm (call_stack v ! j) j"
      by (rule update_keeps)
    then show "frame_name (call_stack v' ! j) = frame_name (call_stack v ! j) \<and>
        parent (call_stack v' ! j) = parent (call_stack v ! j) \<and>
        in_frame nm (call_stack v' ! j) j = in_frame nm (call_stack v ! j) j"
      by (simp add: v'_def change_frame_def update_keeps set_local_def)
  qed (use assms(3) in \<open>auto simp: v'_def change_frame_def\<close>)
  moreover have "add_local_alias nm (Some s) v = Some v'"
    using f nm assms(3) by (simp add: add_local_alias_def find_local_alias_def v'_def Let_def)
  moreover have "last_function_call_level v' = last_function_call_level v" "length (call_stack v') = length (call_stack v)"
    by (simp_all add: v'_def change_frame_def)
  moreover have "frame_value (call_stack v' ! k) nm = Some s"
    using k value_set [OF k(2), of "Some s"] by (simp add: v'_def change_frame_def set_local_def frame_value_def)
  ultimately show ?thesis using nm assms(3) by (auto simp: find_local_alias_def)
qed

text \<open>Reading it finds the place that was written to and creates nothing.\<close>

lemma read_after_assign:
  assumes "frames_ok (call_stack v)" "ordinary nm (last_function_call_level v)" "nm \<noteq> FUNCTION_RETURN"
    and nm: "nm \<noteq> []" "last nm \<noteq> CHR ''.''" "cat nm 0 \<noteq> CHR '':''" "plain_name nm = nm" "fst (after_expando nm True) = []"
    and "s \<noteq> []" "add_var_alias nm (Some s) noisy v = Some v'"
  shows "get_variable X nm v' = Some (Some s, v')"
proof -
  have sc: "scope nm = (0, nm)" "read_scope nm = (0, nm)" using nm(3) by (simp_all add: scope_def read_scope_def)
  have read: "get_variable X nm u = Some (Some s, u)"
    if "find_local_alias u nm = Some (Some k, u)" "frame_value (call_stack u ! k) nm = Some s" for u k
    using that by (simp add: get_variable_def variable_value_def sc nm(4))
  show ?thesis
  proof (cases "call_stack v = []")
    case True
    then have "v' = v\<lparr>globals := (globals v)(nm := Some s)\<rparr>"
      using assms(3,9,10) nm by (simp add: add_var_alias_def sc find_local_alias_def)
    then show ?thesis using True by (simp add: get_variable_def variable_value_def sc nm(4) find_local_alias_def)
  next
    case False
    obtain p where p: "find_frame (call_stack v) (last_function_call_level v) nm (wind_index v) = Some p"
      using find_frame_returns [OF assms(1,2), of "wind_index v" 0] False by fastforce
    show ?thesis
    proof (cases p)
      case (Found k)
      then have "add_local_alias nm (Some s) v = Some v'"
        using p assms(3,10) nm False by (simp add: add_var_alias_def sc find_local_alias_def)
      then show ?thesis using set_then_found [OF assms(1,2) False p [unfolded Found] nm(5,4), of s] read by auto
    next
      case (Create k)
      define v1 where "v1 = change_frame k (add_local nm) v"
      have add: "add_local_alias nm (Some s) v1 = Some v'"
        using p Create assms(3,10) nm False by (simp add: add_var_alias_def sc find_local_alias_def v1_def)
      have f: "find_frame (call_stack v1) (last_function_call_level v1) nm (wind_index v1) = Some (Found k)"
        using find_frame_created [OF assms(1,2) is_name_same [OF nm(1,2)] _ _ p [unfolded Create]] False
        by (simp add: v1_def change_frame_def)
      have "frames_ok (call_stack v1)" "ordinary nm (last_function_call_level v1)" "call_stack v1 \<noteq> []"
        using assms(1,2) False by (auto simp: v1_def change_frame_def frames_ok_def update_keeps add_local_def)
      from set_then_found [OF this f nm(5,4), of s] show ?thesis using add read by auto
    next
      case Nowhere
      then have v': "v' = v\<lparr>globals := (globals v)(nm := Some s)\<rparr>"
        using p assms(3,9,10) nm False by (simp add: add_var_alias_def sc find_local_alias_def)
      then show ?thesis
        using p Nowhere False by (simp add: get_variable_def variable_value_def sc nm(4) find_local_alias_def)
    qed
  qed
qed

subsection \<open>Searches that never end\<close>

lemma find_frame_diverges:
  assumes "0 < l" "nat l < length fs" "locals (fs ! nat l) = []" "frame_name (fs ! nat l) = []" "parent (fs ! nat l) = l - 1"
  shows "i \<in> {l, l - 1} \<Longrightarrow> find_frame fs l FUNCTION_RETURN i = None"
proof -
  have same: "my_stricmp FUNCTION_RETURN FUNCTION_RETURN = 0" by simp
  have never: "gs = fs \<longrightarrow> level = l \<longrightarrow> nm = FUNCTION_RETURN \<longrightarrow> k \<in> {l, l - 1} \<longrightarrow> False"
    if "find_frame gs level nm k = Some p" for gs level nm k p
  proof (rule find_frame.raw_induct
      [where P = "\<lambda>gs level nm k p. gs = fs \<longrightarrow> level = l \<longrightarrow> nm = FUNCTION_RETURN \<longrightarrow> k \<in> {l, l - 1} \<longrightarrow> False", OF _ that],
      intro impI, goal_cases)
    case (1 ff gs level nm k p)
    have "ff fs l FUNCTION_RETURN (l - 1) = Some p"
      using 1(2-6) assms same by (auto simp: in_frame_def Let_def split: if_splits)
    then show ?case using 1(1) by blast
  qed
  then show "i \<in> {l, l - 1} \<Longrightarrow> find_frame fs l FUNCTION_RETURN i = None" by (cases "find_frame fs l FUNCTION_RETURN i") auto
qed

text \<open>
  C32: A block in braces that an expression evaluates inside of any frame never returns: its frame
  has no name, so the search for \<open>FUNCTION_RETURN\<close> goes on to the parent, and from there back to the
  frame of the block for ever.
\<close>

theorem block_in_alias_hangs:
  assumes "call_stack v \<noteq> []"
  shows "parse_line_with_return X E run n None what args v = Inl NoReturn"
proof -
  define u where "u = (make_local_stack None v)\<lparr>last_function_call_level := wind_index (make_local_stack None v)\<rparr>"
  have u: "last_function_call_level u = int (length (call_stack v))" "wind_index u = int (length (call_stack v))"
    "call_stack u ! length (call_stack v) = \<lparr>frame_name = [], locals = [], locked = False, parent = wind_index v\<rparr>"
    "call_stack u \<noteq> []"
    by (simp_all add: u_def make_local_stack_def)
  have "find_frame (call_stack u) (int (length (call_stack v))) FUNCTION_RETURN (int (length (call_stack v))) = None"
    using assms u by (intro find_frame_diverges) (auto simp: u_def make_local_stack_def)
  moreover have "plain_name FUNCTION_RETURN = FUNCTION_RETURN" "fst (after_expando FUNCTION_RETURN True) = []"
    by code_simp+
  ultimately have "add_local_alias FUNCTION_RETURN (Some []) u = None"
    using u by (simp add: add_local_alias_def find_local_alias_def Let_def)
  then show ?thesis
    by (simp add: parse_line_with_return_def parse_line_alias_special_def prepare_alias_call_def returns_def u_def)
qed

text \<open>A subscript that contains itself after its expansion is replaced for ever.\<close>

lemma self_subscript_hangs:
  "remove_brackets (\<lambda>t st. bnd (expand_alias E (Some ''[$0]'') m False t st) (\<lambda>(r, _, st'). Inr (r, st'))) n ''X[$0]'' st = Inl OutOfFuel"
proof -
  let ?ex = "\<lambda>t st. bnd (expand_alias E (Some ''[$0]'') m False t st) (\<lambda>(r, _, st'). Inr (r, st'))"
  have c: "real_extract2 ''[$0]'' 0 0 True = Some ''[$0]''" "word_range ''0'' = (Some (0, 0), [])" "carets [] ''0'' = ([], ''0'')"
    by code_simp+
  have sp: "alias_special_char E (Some ''[$0]'') k [] ''0'' st \<in> {Inl OutOfFuel, Inr (''[$0]'', Some [], raised st)}" for k st
    by (cases k) (simp_all add: special_width_def simple_special_def c expand_words_def emit_def TruncateAndQuote_def is_digit_def)
  have lp: "exp_loop (alias_special_char E (Some ''[$0]'') k) j False False [] [] False ''$0'' st \<in> {Inl OutOfFuel, Inr (''[$0]'', None, raised st)}"
    for j k st
  proof (cases j)
    case (Suc i)
    then show ?thesis using sp [of k st] c(3) by (cases i) (auto simp: exp_loop.simps(2) Let_def m_strcat_ues_def)
  qed simp
  have ex: "?ex ''$0'' st = Inl OutOfFuel \<or> ?ex ''$0'' st = Inr (''[$0]'', raised st)" for st
    using lp [of m m st] by (auto simp: expand_alias_def expand_with_def is_at_def)
  have "remove_brackets ?ex n (p @ ''[$0]'') st = Inl OutOfFuel" if "CHR ''['' \<notin> set p" for p st
    using that
  proof (induction n arbitrary: p st)
    case (Suc n)
    have "dropWhile (\<lambda>d. d \<noteq> CHR ''['') (p @ ''[$0]'') = dropWhile (\<lambda>d. d \<noteq> CHR ''['') ''[$0]''"
      using Suc.prems by (intro dropWhile_append2) auto
    then have "strchr_at (p @ ''[$0]'') (CHR ''['') = Some ''[$0]''" by (simp add: strchr_at_def)
    moreover have "MatchingBracket ''$0]'' (CHR ''['') (CHR '']'') = Some '']''" by code_simp
    moreover have "remove_brackets ?ex n ((p @ ''.'') @ ''[$0]'') (raised st) = Inl OutOfFuel"
      using Suc.prems by (intro Suc.IH) simp
    ultimately show ?case using ex [of st] by (auto simp: before_def)
  qed simp
  from this [of "''X''"] show ?thesis by simp
qed


subsection \<open>Examples\<close>

definition sample_vars :: script_vars where
  "sample_vars =
     \<lparr>call_stack = [\<lparr>frame_name = ''main'', locals = [(''A'', Some ''1'')], locked = False, parent = - 1\<rparr>,
                    \<lparr>frame_name = [], locals = [(''B.'', Some ''x'')], locked = False, parent = 0\<rparr>],
      last_function_call_level = - 1, globals = (\<lambda>n. None)\<rparr>"

definition sample_var_env :: var_env where
  "sample_var_env = \<lparr>built_in_alias = (\<lambda>c. None), make_string_var = (\<lambda>n. None), bsd_getenv = (\<lambda>n. None)\<rparr>"

definition sample_script_env :: "script_vars exp_env" where
  "sample_script_env =
     \<lparr>call_function = (\<lambda>n a st. Inr (Some n, st)), get_variable_with_args = (\<lambda>n a st. Inr (None, st)),
      parse_inline = (\<lambda>n a st. Inr (Some n, st)), history_line = (\<lambda>n w. (None, w)), input_prompt = (\<lambda>b n w. ([], w)),
      pad_char_var = CHR '' ''\<rparr>"

lemma sample_frames: "frames_ok (call_stack sample_vars)" "call_stack sample_vars \<noteq> []" "last_function_call_level sample_vars = - 1"
  by (auto simp: frames_ok_def sample_vars_def less_Suc_eq)

theorem callers_locals_untouched_witness:
  "\<exists>v'. var_run sample_var_env
      [Local ''x'' ''1'', Enter None, Assign ''a'' ''2'' False, Leave, Look ''a''] (make_local_stack (Some ''sub'') sample_vars) = Some v' \<and>
    take 2 (call_stack v') = call_stack sample_vars"
proof -
  have "length (call_stack sample_vars) = 2" by (simp add: sample_vars_def)
  then show ?thesis
    using callers_locals_untouched [OF sample_frames(1), of "''sub''" "[Local ''x'' ''1'', Enter None, Assign ''a'' ''2'' False, Leave, Look ''a'']"]
    by (simp add: ordinary_op_def ordinary_def sample_frames(3))
qed


theorem block_in_alias_hangs_witness:
  "parse_line_with_return sample_var_env
     sample_script_env (\<lambda>w a v. Inr v) 1 None ''echo hi'' [] sample_vars = Inl NoReturn"
  by (rule block_in_alias_hangs) (rule sample_frames)

end
