(* ===== verification/Script.thy ===== *)
theory Script
  imports LocalVars HashArray
begin

section \<open>Lines and commands of scripts (source/commands.c, if.c)\<close>

text \<open>
  \<open>parse_line\<close> expands a line, cuts it at semicolons and gives each command to \<open>parse_command\<close>, which
  runs an alias or a built-in command; the commands for control flow call \<open>parse_line\<close> again. Each
  definition has what it calls as an argument; \<open>parse_line\<close> at the end ties the knot, with fuel for the
  depth of the calls and the steps of each loop. The state adds the exceptions that \<open>BREAK\<close>,
  \<open>CONTINUE\<close> and \<open>RETURN\<close> raise to the variables. The values of expressions, the other commands, the
  aliases, the history and what is sent are the parameter \<open>script_env\<close>; an expression and another command
  may run scripts of their own, and so may crash or not return. Messages to the user and the
  debugging aids are left out.
\<close>

subsection \<open>State and parameters\<close>

record 'w script = script_vars +
  will_catch_break_exceptions :: int
  will_catch_continue_exceptions :: int
  will_catch_return_exceptions :: int
  break_exception :: int
  continue_exception :: int
  return_exception :: int
  window_display :: int
  level :: int
  client :: 'w

text \<open>A function is named by its name in the source; the flags are those of the C field \<open>flag\<close>.\<close>

record IrcCommand =
  cname :: cstr
  server_func :: "cstr option"
  func :: cstr
  server_required :: bool
  internal_help :: bool

record user_alias =
  alias_name :: cstr
  alias_stuff :: cstr
  alias_args :: "ArgList option"

text \<open>What is sent to the target of the window, to nobody in particular, or as an action.\<close>

datatype outgoing = To_target cstr | To_nobody cstr | Action cstr | Line cstr

record ('w, 'd) script_env = "'d fpu" +
  texts :: "'w script exp_env"
  values_of :: var_env
  find_alias :: "cstr \<Rightarrow> 'w script \<Rightarrow> int \<times> user_alias option"
  command_table :: "IrcCommand list"
  call_handler :: "IrcCommand \<Rightarrow> bool \<Rightarrow> cstr \<Rightarrow> cstr option \<Rightarrow> 'w script \<Rightarrow> 'w script result"
  server_nick :: "'w script \<Rightarrow> cstr option"
  outgoing_text :: "outgoing \<Rightarrow> 'w script \<Rightarrow> 'w script"
  recall :: "cstr \<Rightarrow> cstr \<Rightarrow> 'w script \<Rightarrow> cstr option \<times> 'w script"
  remember :: "cstr \<Rightarrow> 'w script \<Rightarrow> 'w script"
  set_input_line :: "cstr \<Rightarrow> 'w script \<Rightarrow> 'w script"
  cmdchars :: cstr
  command_mode :: bool
  display_var :: "'w script \<Rightarrow> int"
  loading :: "'w script \<Rightarrow> bool"
  array_names :: "bool \<Rightarrow> 'w script \<Rightarrow> cstr list"

text \<open>\<open>parse_line\<close> and \<open>parse_command\<close> as arguments of what calls them.\<close>

type_synonym 'w run_line =
  "cstr option \<Rightarrow> cstr \<Rightarrow> cstr option \<Rightarrow> bool \<Rightarrow> bool \<Rightarrow> bool \<Rightarrow> 'w script \<Rightarrow> 'w script result"

type_synonym 'w run_command = "cstr \<Rightarrow> bool \<Rightarrow> cstr option \<Rightarrow> 'w script \<Rightarrow> 'w script result"

subsection \<open>Exceptions\<close>

definition caught :: "'w script \<Rightarrow> bool" where
  "caught st \<longleftrightarrow>
     will_catch_break_exceptions st \<noteq> 0 \<and> break_exception st \<noteq> 0 \<or>
     will_catch_return_exceptions st \<noteq> 0 \<and> return_exception st \<noteq> 0 \<or>
     will_catch_continue_exceptions st \<noteq> 0 \<and> continue_exception st \<noteq> 0"

definition catch_break :: "int \<Rightarrow> 'w script \<Rightarrow> 'w script" where
  "catch_break d st = st\<lparr>will_catch_break_exceptions := will_catch_break_exceptions st + d\<rparr>"

definition catch_continue :: "int \<Rightarrow> 'w script \<Rightarrow> 'w script" where
  "catch_continue d st = st\<lparr>will_catch_continue_exceptions := will_catch_continue_exceptions st + d\<rparr>"

definition catch_return :: "int \<Rightarrow> 'w script \<Rightarrow> 'w script" where
  "catch_return d st = st\<lparr>will_catch_return_exceptions := will_catch_return_exceptions st + d\<rparr>"

definition breakcmd :: "'w script \<Rightarrow> 'w script" where
  "breakcmd st =
     (if will_catch_break_exceptions st = 0 then st else st\<lparr>break_exception := break_exception st + 1\<rparr>)"

definition continuecmd :: "'w script \<Rightarrow> 'w script" where
  "continuecmd st =
     (if will_catch_continue_exceptions st = 0 then st else st\<lparr>continue_exception := continue_exception st + 1\<rparr>)"

definition returncmd :: "cstr \<Rightarrow> 'w script \<Rightarrow> 'w script result" where
  "returncmd args st =
     (if will_catch_return_exceptions st = 0 then Inr st
      else bnd (if args \<noteq> [] then returns (add_local_alias FUNCTION_RETURN (Some args) st) else Inr st)
             (\<lambda>st. Inr (st\<lparr>return_exception := return_exception st + 1\<rparr>)))"

definition pop_frame :: "'w script \<Rightarrow> 'w script result" where
  "pop_frame st = returns (destroy_local_stack st)"

subsection \<open>Parts in brackets\<close>

definition my_next_expr :: "cstr option \<Rightarrow> char \<Rightarrow> (cstr \<times> cstr) option" where
  "my_next_expr args type =
     (case args of
        None \<Rightarrow> None
      | Some s \<Rightarrow>
          if s = [] \<or> cat s 0 \<noteq> type then None
          else case MatchingBracket (tl s) type (if type = CHR ''('' then CHR '')'' else CHR 0x7D) of
            None \<Rightarrow> None
          | Some t \<Rightarrow>
              Some (rev (dropWhile my_isspace (rev (dropWhile my_isspace (before (tl s) t)))),
                    dropWhile my_isspace (tl t)))"

definition or_nothing :: "cstr option \<Rightarrow> cstr" where
  "or_nothing v = (case v of None \<Rightarrow> [] | Some t \<Rightarrow> t)"

text \<open>An expression, and whether its value counts as true; NULL does not.\<close>

definition evaluate ::
  "('w, 'd) script_env \<Rightarrow> cstr \<Rightarrow> cstr option \<Rightarrow> 'w script \<Rightarrow> (cstr option \<times> 'w script) result" where
  "evaluate S e args st = bnd (parse_inline (texts S) e args (False, st)) (\<lambda>(v, _, st'). Inr (v, st'))"

definition is_true :: "('w, 'd) script_env \<Rightarrow> cstr option \<Rightarrow> bool" where
  "is_true S v = (case v of None \<Rightarrow> False | Some t \<Rightarrow> check_val S t)"

definition expanded ::
  "('w, 'd) script_env \<Rightarrow> nat \<Rightarrow> cstr option \<Rightarrow> cstr \<Rightarrow> 'w script \<Rightarrow> (cstr \<times> 'w script) result" where
  "expanded S n args s st = bnd (expand_alias (texts S) args n False s (False, st)) (\<lambda>(t, _, _, st'). Inr (t, st'))"


subsection \<open>Control flow (source/if.c)\<close>

text \<open>\<open>sub\<close> is the text for the arguments of the lines that are run.\<close>

definition run_opt :: "'w run_line \<Rightarrow> cstr option \<Rightarrow> cstr \<Rightarrow> 'w script \<Rightarrow> 'w script result" where
  "run_opt pl cmds sub st = (case cmds of None \<Rightarrow> Inr st | Some l \<Rightarrow> pl None l (Some sub) False False True st)"

definition body_or_rest :: "cstr \<Rightarrow> cstr option \<times> cstr option" where
  "body_or_rest args =
     (if cat args 0 = CHR 0x7B
      then (case my_next_expr (Some args) CHR 0x7B of None \<Rightarrow> (None, Some args) | Some (l, r) \<Rightarrow> (Some l, Some r))
      else (Some args, None))"

fun ifcmd :: "('w, 'd) script_env \<Rightarrow> 'w run_line \<Rightarrow> nat \<Rightarrow> bool \<Rightarrow> cstr \<Rightarrow> cstr \<Rightarrow> 'w script \<Rightarrow> 'w script result" where
  "ifcmd S pl 0 unless_cmd args sub st = Inl OutOfFuel"
| "ifcmd S pl (Suc n) unless_cmd args sub st =
     (if args = [] then Inr st
      else case my_next_expr (Some (dropWhile my_isspace args)) (CHR ''('') of
        None \<Rightarrow> Inr st
      | Some (e, a) \<Rightarrow>
          bnd (evaluate S e (Some sub) st) (\<lambda>(v, st1).
               (case body_or_rest a of
                  (current_line, rest) \<Rightarrow>
                    if unless_cmd = is_true S v
                    then (case rest of
                            None \<Rightarrow> Inr st1
                          | Some r \<Rightarrow>
                              if my_strnicmp r ''elsif '' 6 = 0 then ifcmd S pl n unless_cmd (drop 6 r) sub st1
                              else run_opt pl
                                (fst (body_or_rest (dropWhile my_isspace (if my_strnicmp r ''else '' 5 = 0 then drop 5 r else r))))
                                sub st1)
                    else run_opt pl current_line sub st1)))"

text \<open>After a round of a loop: whether it goes on, after \<open>CONTINUE\<close> or as usual, or ends.\<close>

datatype after_round = Continued | Broken | Returned | Usual

definition after_body :: "'w script \<Rightarrow> after_round \<times> 'w script" where
  "after_body st =
     (if continue_exception st \<noteq> 0 then (Continued, st\<lparr>continue_exception := 0\<rparr>)
      else if break_exception st \<noteq> 0 then (Broken, st\<lparr>break_exception := 0\<rparr>)
      else if return_exception st \<noteq> 0 then (Returned, st) else (Usual, st))"

fun while_loop ::
  "('w, 'd) script_env \<Rightarrow> 'w run_line \<Rightarrow> nat \<Rightarrow> bool \<Rightarrow> cstr \<Rightarrow> cstr \<Rightarrow> cstr \<Rightarrow> 'w script \<Rightarrow> 'w script result" where
  "while_loop S pl 0 whileval e body sub st = Inl OutOfFuel"
| "while_loop S pl (Suc n) whileval e body sub st =
     bnd (evaluate S e (Some sub) st) (\<lambda>(v, st1).
          if is_true S v \<noteq> whileval then Inr st1
          else bnd (pl None body (Some sub) False False False st1) (\<lambda>st2.
            case after_body st2 of
              (a, st3) \<Rightarrow> if a = Broken \<or> a = Returned then Inr st3 else while_loop S pl n whileval e body sub st3))"

definition whilecmd ::
  "('w, 'd) script_env \<Rightarrow> 'w run_line \<Rightarrow> nat \<Rightarrow> cstr \<Rightarrow> cstr \<Rightarrow> cstr \<Rightarrow> 'w script \<Rightarrow> 'w script result" where
  "whilecmd S pl n command args sub st =
     (case my_next_expr (Some args) (CHR ''('') of
        None \<Rightarrow> Inr st
      | Some (e, a) \<Rightarrow>
          let body = (case my_next_expr (Some a) CHR 0x7B of None \<Rightarrow> a | Some (b, _) \<Rightarrow> b)
          in bnd (while_loop S pl n (command = ''WHILE'') e body sub
                    (make_local_stack None (catch_continue 1 (catch_break 1 st)))) (\<lambda>st1.
               pop_frame (catch_continue (- 1) (catch_break (- 1) st1))))"

text \<open>In \<open>DO\<close> the exceptions are looked at in another order, and \<open>CONTINUE\<close> skips the condition.\<close>

fun do_loop ::
  "('w, 'd) script_env \<Rightarrow> 'w run_line \<Rightarrow> nat \<Rightarrow> cstr \<Rightarrow> cstr \<Rightarrow> cstr \<Rightarrow> 'w script \<Rightarrow> 'w script result" where
  "do_loop S pl 0 body e sub st = Inl OutOfFuel"
| "do_loop S pl (Suc n) body e sub st =
     bnd (pl None body (Some sub) False False True st) (\<lambda>st1.
       if break_exception st1 \<noteq> 0 then Inr (st1\<lparr>break_exception := 0\<rparr>)
       else if continue_exception st1 \<noteq> 0 then do_loop S pl n body e sub (st1\<lparr>continue_exception := 0\<rparr>)
       else if return_exception st1 \<noteq> 0 then Inr st1
       else bnd (evaluate S e (Some sub) st1) (\<lambda>(v, st2).
              if is_true S v then do_loop S pl n body e sub st2 else Inr st2))"

definition docmd ::
  "('w, 'd) script_env \<Rightarrow> 'w run_line \<Rightarrow> nat \<Rightarrow> cstr \<Rightarrow> cstr \<Rightarrow> 'w script \<Rightarrow> 'w script result" where
  "docmd S pl n args sub st =
     (let run = (\<lambda>l st. pl None l (Some sub) False False True st) in
      if cat args 0 = CHR 0x7B
      then (case my_next_expr (Some args) CHR 0x7B of
              None \<Rightarrow> Inr st
            | Some (body, a) \<Rightarrow>
                (case next_arg a of
                   (cmd, a') \<Rightarrow>
                     if a \<noteq> [] \<and> (case cmd of None \<Rightarrow> False | Some w \<Rightarrow> my_stricmp w ''while'' = 0)
                     then (case my_next_expr (Some a') (CHR ''('') of
                             None \<Rightarrow> Inr st
                           | Some (e, _) \<Rightarrow>
                               bnd (do_loop S pl n body e sub (catch_return 1 (catch_break 1 st))) (\<lambda>st1.
                                 Inr (catch_continue (- 1) (catch_break (- 1) st1))))
                     else bnd (run body st) (run a')))
      else run args st)"

text \<open>The elements of a structure: the parts after its name up to the next dot, each one once.\<close>

definition array_element :: "cstr \<Rightarrow> cstr option \<Rightarrow> cstr \<Rightarrow> cstr option" where
  "array_element root last_match nm =
     (let len = length root;
          k = Suc len + length (takeWhile (\<lambda>c. c \<noteq> CHR ''.'') (drop (Suc len) nm));
          again = (case last_match of None \<Rightarrow> False | Some l \<Rightarrow> my_strnicmp nm l k = 0)
      in if len < length nm \<and> streq root nm = len \<and> cat nm len = CHR ''.'' \<and> \<not> again then Some (take k nm) else None)"

fun subarray_elements :: "cstr \<Rightarrow> cstr option \<Rightarrow> cstr list \<Rightarrow> cstr list" where
  "subarray_elements root last_match [] = []"
| "subarray_elements root last_match (nm # nms) =
     (case array_element root last_match nm of
        Some e \<Rightarrow> e # subarray_elements root (Some e) nms
      | None \<Rightarrow> subarray_elements root last_match nms)"

fun foreach_loop ::
  "'w run_line \<Rightarrow> cstr \<Rightarrow> cstr \<Rightarrow> cstr \<Rightarrow> cstr list \<Rightarrow> 'w script \<Rightarrow> 'w script result" where
  "foreach_loop pl var body sub [] st = Inr st"
| "foreach_loop pl var body sub (w # ws) st =
     bnd (returns (add_local_alias var (Some w) st)) (\<lambda>st1.
     bnd (pl None body (Some sub) False False False st1) (\<lambda>st2. foreach_loop pl var body sub ws st2))"

definition foreach ::
  "('w, 'd) script_env \<Rightarrow> 'w run_line \<Rightarrow> nat \<Rightarrow> cstr \<Rightarrow> cstr option \<Rightarrow> 'w script \<Rightarrow> 'w script result" where
  "foreach S pl n args subargs st =
     (let a0 = dropWhile my_isspace args;
          list = (cat a0 0 = CHR ''-'')
      in case new_next_arg (if list then tl a0 else a0) of
           (None, _) \<Rightarrow> Inr st
         | (Some w, a1) \<Rightarrow>
             bnd (remove_brackets (case subargs of None \<Rightarrow> (\<lambda>t st. Inr (t, st)) | Some a \<Rightarrow> expanded S n (Some a)) n w st)
               (\<lambda>(struc, st1).
                 case next_arg a1 of
                   (None, _) \<Rightarrow> Inr st1
                 | (Some var, a2) \<Rightarrow>
                     (case my_next_expr (Some (dropWhile my_isspace a2)) CHR 0x7B of
                        None \<Rightarrow> Inr st1
                      | Some (body, _) \<Rightarrow>
                          (case subarray_elements (upper struc) None (array_names S list st1) of
                             [] \<Rightarrow> Inr st1
                           | els \<Rightarrow>
                               bnd (foreach_loop pl var body (or_nothing subargs) (List.map (drop (length struc + 1)) els)
                                     (make_local_stack None st1)) pop_frame))))"


text \<open>
  \<open>FE\<close> and \<open>FEC\<close>. The character in front of the brace is overwritten; where there is none, the
  names are words of the body, which ends at its first space.
\<close>

fun words_of :: "nat \<Rightarrow> cstr \<Rightarrow> cstr list" where
  "words_of 0 s = []"
| "words_of (Suc n) s = (case next_arg s of (None, _) \<Rightarrow> [] | (Some w, r) \<Rightarrow> w # words_of n r)"

definition fe_parts :: "cstr \<Rightarrow> (cstr list \<times> cstr) option" where
  "fe_parts a =
     (case strchr_at a CHR 0x7B of
        None \<Rightarrow> None
      | Some b \<Rightarrow>
          if b \<noteq> a
          then let vars = words_of 255 (butlast (before a b)) in
               (if length vars = 255 then None
                else case my_next_expr (Some b) CHR 0x7B of None \<Rightarrow> None | Some (todo, _) \<Rightarrow> Some (vars, todo))
          else let vars = words_of 255 a in
               (if length vars = 255 then None
                else case my_next_expr (Some (hd vars)) CHR 0x7B of
                       None \<Rightarrow> None
                     | Some (todo, _) \<Rightarrow> Some ((CHR 0x7B # todo) # tl vars, todo)))"

text \<open>The variables of one round; \<open>x\<close> counts the words or characters, \<open>t\<close> is the list from there.\<close>

fun fe_assign :: "bool \<Rightarrow> int \<Rightarrow> cstr list \<Rightarrow> int \<Rightarrow> cstr \<Rightarrow> 'w script \<Rightarrow> (cstr \<times> 'w script) result" where
  "fe_assign doing_fe blah [] x t st = Inr (t, st)"
| "fe_assign doing_fe blah (v # vs) x t st =
     (let (word, t') = (if blah \<le> x then (Some [], t)
                        else if doing_fe then new_next_arg t else (Some [hd t], tl t))
      in bnd (returns (add_local_alias v word st)) (fe_assign doing_fe blah vs (x + 1) t'))"

fun fe_loop ::
  "'w run_line \<Rightarrow> nat \<Rightarrow> bool \<Rightarrow> int \<Rightarrow> cstr list \<Rightarrow> cstr \<Rightarrow> cstr \<Rightarrow> int \<Rightarrow> cstr \<Rightarrow> 'w script \<Rightarrow> 'w script result" where
  "fe_loop pl 0 doing_fe blah vars todo sub x t st = Inl OutOfFuel"
| "fe_loop pl (Suc n) doing_fe blah vars todo sub x t st =
     (if blah \<le> x then Inr st
      else bnd (fe_assign doing_fe blah vars x t st) (\<lambda>(t', st1).
           bnd (pl None todo (Some sub) False False False st1) (\<lambda>st2.
             case after_body st2 of
               (a, st3) \<Rightarrow>
                 if a = Broken \<or> a = Returned then Inr st3
                 else fe_loop pl n doing_fe blah vars todo sub (x + int (length vars)) t' st3)))"

definition fe ::
  "('w, 'd) script_env \<Rightarrow> 'w run_line \<Rightarrow> nat \<Rightarrow> cstr \<Rightarrow> cstr \<Rightarrow> cstr option \<Rightarrow> 'w script \<Rightarrow> 'w script result" where
  "fe S pl n command args subargs st =
     (case my_next_expr (Some args) (CHR ''('') of
        None \<Rightarrow> Inr st
      | Some (list, a) \<Rightarrow>
          bnd (expanded S n (Some (case subargs of None \<Rightarrow> '' '' | Some s \<Rightarrow> s)) list st) (\<lambda>(templist, st1).
            if templist = [] then Inr st1
            else case fe_parts a of
              None \<Rightarrow> Inr st1
            | Some (vars, todo) \<Rightarrow>
                let doing_fe = (my_stricmp command ''FE'' = 0);
                    blah = (if doing_fe then int (word_count templist) else int (length templist))
                in bnd (fe_loop pl n doing_fe blah vars todo (or_nothing subargs) 0 templist
                          (make_local_stack None (catch_continue 1 (catch_break 1 st1)))) (\<lambda>st2.
                   bnd (pop_frame st2) (\<lambda>st3. Inr (catch_continue (- 1) (catch_break (- 1) st3))))))"

fun for_loop ::
  "('w, 'd) script_env \<Rightarrow> 'w run_line \<Rightarrow> nat \<Rightarrow> cstr \<Rightarrow> cstr \<Rightarrow> cstr \<Rightarrow> cstr \<Rightarrow> 'w script \<Rightarrow> 'w script result" where
  "for_loop S pl 0 evaluation iteration body sub st = Inl OutOfFuel"
| "for_loop S pl (Suc n) evaluation iteration body sub st =
     bnd (evaluate S evaluation (Some sub) st) (\<lambda>(v, st1).
          if \<not> is_true S v then Inr st1
          else bnd (pl None body (Some sub) False False False st1) (\<lambda>st2.
            if break_exception st2 \<noteq> 0 then Inr (st2\<lparr>break_exception := 0\<rparr>)
            else let st3 = st2\<lparr>continue_exception := 0\<rparr>
                 in if return_exception st3 \<noteq> 0 then Inr st3
                    else bnd (pl None iteration (Some sub) False False False st3)
                           (for_loop S pl n evaluation iteration body sub)))"

definition after_comma :: "cstr \<Rightarrow> (cstr \<times> cstr) option" where
  "after_comma s =
     (case strchr_at s (CHR '','') of None \<Rightarrow> None | Some t \<Rightarrow> Some (before s t, dropWhile my_isspace (tl t)))"

definition for_parts :: "cstr \<Rightarrow> (cstr \<times> cstr \<times> cstr \<times> cstr) option" where
  "for_parts args =
     (case my_next_expr (Some args) (CHR ''('') of
        None \<Rightarrow> None
      | Some (working, a) \<Rightarrow>
          (case after_comma working of
             None \<Rightarrow> None
           | Some (commence, r) \<Rightarrow>
               (case after_comma r of
                  None \<Rightarrow> None
                | Some (evaluation, iteration) \<Rightarrow>
                    (case my_next_expr (Some (dropWhile my_isspace a)) CHR 0x7B of
                       None \<Rightarrow> None
                     | Some (commands, _) \<Rightarrow> Some (commence, evaluation, iteration, commands)))))"

definition forcmd ::
  "('w, 'd) script_env \<Rightarrow> 'w run_line \<Rightarrow> nat \<Rightarrow> cstr \<Rightarrow> cstr \<Rightarrow> 'w script \<Rightarrow> 'w script result" where
  "forcmd S pl n args sub st =
     (case for_parts args of
        None \<Rightarrow> Inr st
      | Some (commence, evaluation, iteration, commands) \<Rightarrow>
          bnd (pl None commence (Some sub) False False False (make_local_stack None st)) (\<lambda>st1.
          bnd (for_loop S pl n evaluation iteration commands sub (catch_continue 1 (catch_break 1 st1))) (\<lambda>st2.
          bnd (pop_frame st2) (\<lambda>st3. Inr (catch_continue (- 1) (catch_break (- 1) st3))))))"


text \<open>\<open>SWITCH\<close>: the labels in front of a body, then the body. A result of \<open>None\<close> is the early return.\<close>

fun switch_labels ::
  "('w, 'd) script_env \<Rightarrow> nat \<Rightarrow> cstr option \<Rightarrow> cstr \<Rightarrow> bool \<Rightarrow> bool \<Rightarrow> bool \<Rightarrow> cstr \<Rightarrow> 'w script
    \<Rightarrow> ((bool \<times> bool \<times> cstr) option \<times> 'w script) result" where
  "switch_labels S 0 subargs control has_def found_def hooked body st = Inl OutOfFuel"
| "switch_labels S (Suc n) subargs control has_def found_def hooked body st =
     (if cat body 0 \<noteq> CHR ''('' then Inr (Some (found_def, hooked, body), st)
      else case my_next_expr (Some body) (CHR ''('') of
        None \<Rightarrow> Inr (None, st)
      | Some (header, r) \<Rightarrow>
          if header = ''default'' \<and> has_def then Inr (None, st)
          else bnd (expanded S n subargs header st) (\<lambda>(h, st1).
            case wild_match h control of
              None \<Rightarrow> Inl NoReturn
            | Some m \<Rightarrow>
                switch_labels S n subargs control has_def (found_def \<or> header = ''default'') (hooked \<or> m \<noteq> 0)
                  (if cat r 0 = CHR '';'' then tl r else r) st1))"

text \<open>The result says whether the frame is taken off at the end.\<close>

fun switch_loop ::
  "('w, 'd) script_env \<Rightarrow> 'w run_line \<Rightarrow> nat \<Rightarrow> cstr option \<Rightarrow> cstr \<Rightarrow> cstr option \<Rightarrow> bool \<Rightarrow> cstr \<Rightarrow> 'w script
    \<Rightarrow> (bool \<times> 'w script) result" where
  "switch_loop S pl 0 subargs control def found_def body st = Inl OutOfFuel"
| "switch_loop S pl (Suc n) subargs control def found_def body st =
     (let default_case = (case def of
            Some (c # d) \<Rightarrow> (\<lambda>st. bnd (pl None (c # d) subargs False False False st) (\<lambda>st. Inr (True, st)))
          | _ \<Rightarrow> (\<lambda>st. Inr (True, st)))
      in if body = [] then default_case st
         else bnd (switch_labels S n subargs control (def \<noteq> None) found_def False body st) (\<lambda>(labels, st1).
           case labels of
             None \<Rightarrow> Inr (False, st1)
           | Some (found_def', hooked, b) \<Rightarrow>
               (case my_next_expr (Some b) CHR 0x7B of
                  None \<Rightarrow> default_case st1
                | Some (commands, r) \<Rightarrow>
                    if hooked then bnd (pl None commands subargs False False False st1) (\<lambda>st. Inr (True, st))
                    else switch_loop S pl n subargs control
                           (if def = None \<and> found_def' then Some commands else def) (found_def' \<and> def \<noteq> None)
                           (if cat r 0 = CHR '';'' then tl r else r) st1)))"

definition switchcmd ::
  "('w, 'd) script_env \<Rightarrow> 'w run_line \<Rightarrow> nat \<Rightarrow> cstr \<Rightarrow> cstr option \<Rightarrow> 'w script \<Rightarrow> 'w script result" where
  "switchcmd S pl n args subargs st =
     (case my_next_expr (Some args) (CHR ''('') of
        None \<Rightarrow> Inr st
      | Some (c, a) \<Rightarrow>
          bnd (expanded S n subargs c st) (\<lambda>(control, st1).
          bnd (switch_loop S pl n subargs control None False
                (case my_next_expr (Some a) CHR 0x7B of None \<Rightarrow> [] | Some (b, _) \<Rightarrow> b) (make_local_stack None st1))
            (\<lambda>(pop, st2). if pop then pop_frame st2 else Inr st2)))"

fun repeat_loop :: "'w run_line \<Rightarrow> nat \<Rightarrow> cstr \<Rightarrow> cstr \<Rightarrow> 'w script \<Rightarrow> 'w script result" where
  "repeat_loop pl 0 args sub st = Inr st"
| "repeat_loop pl (Suc k) args sub st = bnd (pl None args (Some sub) False False True st) (repeat_loop pl k args sub)"

definition repeatcmd ::
  "('w, 'd) script_env \<Rightarrow> 'w run_line \<Rightarrow> nat \<Rightarrow> cstr \<Rightarrow> cstr option \<Rightarrow> 'w script \<Rightarrow> 'w script result" where
  "repeatcmd S pl n args subargs st =
     (let args = dropWhile my_isspace args; sub = or_nothing subargs;
          run = (\<lambda>v a. repeat_loop pl (nat (to_int32 v)) a sub)
      in if cat args 0 = CHR ''(''
         then (case my_next_expr (Some args) (CHR ''('') of
                 None \<Rightarrow> Inl Undefined
               | Some (e, a) \<Rightarrow> bnd (evaluate S e (Some sub) st) (\<lambda>(v, st1). run (my_atol v) a st1))
         else (case new_next_arg args of
                 (w, a) \<Rightarrow> bnd (expanded S n subargs (or_nothing w) st) (\<lambda>(t, st1). run (my_atol (Some t)) a st1)))"

subsection \<open>Built-in commands (source/commands.c)\<close>

definition evalcmd :: "'w run_line \<Rightarrow> cstr \<Rightarrow> cstr option \<Rightarrow> 'w script \<Rightarrow> 'w script result" where
  "evalcmd pl args subargs = pl None args (Some (or_nothing subargs)) False False False"

definition call_command ::
  "('w, 'd) script_env \<Rightarrow> 'w run_line \<Rightarrow> nat \<Rightarrow> IrcCommand \<Rightarrow> cstr \<Rightarrow> cstr option \<Rightarrow> 'w script \<Rightarrow> 'w script result" where
  "call_command S pl n cmd args subargs st =
     (let f = func cmd; c = or_nothing (server_func cmd); sub = or_nothing subargs in
      if f = ''ifcmd'' then ifcmd S pl n (cat c 0 = CHR ''U'') args sub st
      else if f = ''docmd'' then docmd S pl n args sub st
      else if f = ''whilecmd'' then whilecmd S pl n c args sub st
      else if f = ''foreach'' then foreach S pl n args subargs st
      else if f = ''fe'' then fe S pl n c args subargs st
      else if f = ''forcmd'' then forcmd S pl n args sub st
      else if f = ''switchcmd'' then switchcmd S pl n args subargs st
      else if f = ''repeatcmd'' then repeatcmd S pl n args subargs st
      else if f = ''breakcmd'' then Inr (breakcmd st)
      else if f = ''continuecmd'' then Inr (continuecmd st)
      else if f = ''returncmd'' then returncmd args st
      else if f = ''evalcmd'' then evalcmd pl args subargs st
      else if f = ''comment'' then Inr st
      else call_handler S cmd False args subargs st)"

text \<open>The number of commands with the prefix, negative for the name itself; \<open>None\<close> is a read outside.\<close>

definition find_command :: "IrcCommand list \<Rightarrow> cstr \<Rightarrow> (int \<times> IrcCommand option) option" where
  "find_command table com =
     (if com = [] then Some (- 1, Some (hd table))
      else case find_fixed_array_item (List.map cname table) com of
        None \<Rightarrow> None
      | Some (k, cmd_cnt, _) \<Rightarrow> Some (cmd_cnt, map_option (\<lambda>i. table ! i) k))"


subsection \<open>One command\<close>

text \<open>
  The characters in front of a command: whether its output is shown, how many command characters there
  are, and the rest.
\<close>

fun command_prefix :: "cstr \<Rightarrow> bool \<Rightarrow> bool \<Rightarrow> nat \<Rightarrow> cstr \<Rightarrow> bool \<times> nat \<times> cstr" where
  "command_prefix chars hist_flag noisy used [] = (noisy, used, [])"
| "command_prefix chars hist_flag noisy used (c # s) =
     (if c = CHR ''^'' \<and> (\<not> hist_flag \<or> used \<noteq> 0)
      then if noisy then command_prefix chars hist_flag False used s else (noisy, used, c # s)
      else if \<not> hist_flag \<and> c = CHR ''/'' \<or> c \<in> set chars
      then if 2 < used + 1 then (noisy, used + 1, c # s) else command_prefix chars hist_flag noisy (used + 1) s
      else (noisy, used, c # s))"

definition split_command :: "cstr \<Rightarrow> cstr \<times> cstr" where
  "split_command line =
     (case strchr_at line (CHR '' '') of None \<Rightarrow> (upper line, []) | Some r \<Rightarrow> (upper (before line r), tl r))"

text \<open>A line of an alias runs until \<open>RETURN\<close>, which ends here.\<close>

definition run_catching_return :: "'w run_line \<Rightarrow> cstr option \<Rightarrow> cstr \<Rightarrow> cstr \<Rightarrow> bool \<Rightarrow> 'w script \<Rightarrow> 'w script result" where
  "run_catching_return pl nm what args handle_local st =
     bnd (pl nm what (Some args) False True handle_local (catch_return 1 st)) (\<lambda>st1.
       Inr ((catch_return (- 1) st1)\<lparr>return_exception := 0\<rparr>))"

definition call_user_alias ::
  "('w, 'd) script_env \<Rightarrow> 'w run_line \<Rightarrow> nat \<Rightarrow> user_alias \<Rightarrow> cstr \<Rightarrow> 'w script \<Rightarrow> 'w script result" where
  "call_user_alias S pl n al args st =
     bnd (parse_line_alias_special (values_of S) (texts S)
            (\<lambda>what args'. run_catching_return pl None what args' True) n (Some (alias_name al)) (alias_stuff al) args
            (alias_args al) False st) (\<lambda>(_, st1). Inr st1)"

definition run_built_in ::
  "('w, 'd) script_env \<Rightarrow> 'w run_line \<Rightarrow> nat \<Rightarrow> cstr \<Rightarrow> cstr \<Rightarrow> int \<times> user_alias option \<Rightarrow> cstr option \<Rightarrow> 'w script
    \<Rightarrow> 'w script result" where
  "run_built_in S pl n cline args al sub_args st =
     (case find_command (command_table S) cline of
        None \<Rightarrow> Inl Undefined
      | Some (cmd_cnt, command) \<Rightarrow>
          let alias_cnt = fst al in
          if cmd_cnt < 0 \<or> alias_cnt = 0 \<and> cmd_cnt = 1
          then (case command of
                  None \<Rightarrow> Inl Undefined
                | Some cmd \<Rightarrow>
                    if my_strnicmp args ''-help'' 3 = 0
                    then (if internal_help cmd then call_handler S cmd True args sub_args st else Inr st)
                    else if server_required cmd \<and> server_nick S st = None then Inr st
                    else call_command S pl n cmd args sub_args st)
          else if alias_cnt = 1 \<and>
                  (cmd_cnt = 0 \<or> cmd_cnt = 1 \<and> map_option alias_name (snd al) = map_option cname command)
          then (case snd al of
                  None \<Rightarrow> Inl Undefined
                | Some a \<Rightarrow> run_catching_return pl (Some (alias_name a)) (alias_stuff a) args True st)
          else if (case server_nick S st of None \<Rightarrow> False | Some nm \<Rightarrow> my_stricmp nm cline = 0)
          then Inr (outgoing_text S (Action args) st)
          else Inr st)"

text \<open>
  \<open>parse_command\<close> calls itself for a command from the history, which is why it has fuel too.
  \<open>remembered\<close> enters the line in the history when it comes from the user.
\<close>

definition remembered :: "('w, 'd) script_env \<Rightarrow> bool \<Rightarrow> cstr \<Rightarrow> 'w script \<Rightarrow> 'w script" where
  "remembered S hist_flag line st = (if hist_flag then remember S line st else st)"

definition expression_of :: "cstr \<Rightarrow> cstr" where
  "expression_of line =
     (case (if cat line 0 = CHR ''('' then MatchingBracket (tl line) (CHR ''('') (CHR '')'') else None) of
        None \<Rightarrow> tl line
      | Some t \<Rightarrow> before (tl line) t)"

definition end_parse :: "('w, 'd) script_env \<Rightarrow> 'w script \<Rightarrow> 'w script \<Rightarrow> 'w script" where
  "end_parse S old st =
     st\<lparr>window_display := (if display_var S old \<noteq> display_var S st then display_var S st else window_display old),
        level := level st - 1\<rparr>"

definition parse_recalled ::
  "('w, 'd) script_env \<Rightarrow> 'w run_command \<Rightarrow> cstr \<Rightarrow> cstr \<Rightarrow> cstr option \<Rightarrow> 'w script \<Rightarrow> 'w script result" where
  "parse_recalled S again cline args sub_args st =
     (case recall S (tl cline) args st of
        (None, st1) \<Rightarrow> Inr (set_input_line S [] st1)
      | (Some line, st1) \<Rightarrow>
          if level st1 = 1 then Inr (set_input_line S line st1) else again line False sub_args st1)"

definition run_named ::
  "('w, 'd) script_env \<Rightarrow> 'w run_line \<Rightarrow> nat \<Rightarrow> 'w run_command \<Rightarrow> ('w script \<Rightarrow> 'w script) \<Rightarrow> nat \<Rightarrow> cstr
    \<Rightarrow> cstr option \<Rightarrow> 'w script \<Rightarrow> 'w script result" where
  "run_named S pl n again hist used line sub_args st =
     (case split_command line of
        (cline, args) \<Rightarrow>
          let (cnt, a) = (if used < 2 then find_alias S cline st else (0, None)) in
          if a \<noteq> None \<and> cnt < 0 then call_user_alias S pl n (the a) args (hist st)
          else if cat cline 0 = CHR ''!'' then parse_recalled S again cline args sub_args st
          else run_built_in S pl n cline args (cnt, a) sub_args (hist st))"

fun parse_command_with :: "('w, 'd) script_env \<Rightarrow> 'w run_line \<Rightarrow> nat \<Rightarrow> nat \<Rightarrow> 'w run_command" where
  "parse_command_with S pl n 0 this_cmd hist_flag sub_args st = Inl OutOfFuel"
| "parse_command_with S pl n (Suc m) this_cmd hist_flag sub_args st =
     (if this_cmd = [] then Inr st
      else case command_prefix (cmdchars S) hist_flag True 0 this_cmd of
        (noisy, used, line) \<Rightarrow>
          let st0 = st\<lparr>level := level st + 1, window_display := (if noisy then window_display st else 0)\<rparr>;
              hist = remembered S hist_flag this_cmd
          in bnd (if hist_flag \<and> used = 0 \<and> \<not> command_mode S then Inr (hist (outgoing_text S (To_target line) st0))
                  else if cat line 0 = CHR 0x27 \<and> command_mode S
                  then Inr (hist (outgoing_text S (To_nobody (tl line)) st0))
                  else if cat line 0 = CHR ''@'' \<or> cat line 0 = CHR ''(''
                  then bnd (evaluate S (expression_of line) sub_args st0) (\<lambda>(_, st1). Inr (hist st1))
                  else run_named S pl n (parse_command_with S pl n m) hist used line sub_args st0)
               (\<lambda>st1. Inr (end_parse S st st1)))"

subsection \<open>Lines\<close>

text \<open>
  Blocks in braces at the front of a line are lines of their own. The result is the rest of the line and
  whether an exception ends it, or \<open>None\<close> for a brace that is not closed.
\<close>

fun brace_blocks ::
  "'w run_line \<Rightarrow> nat \<Rightarrow> cstr option \<Rightarrow> cstr \<Rightarrow> bool \<Rightarrow> bool \<Rightarrow> bool \<Rightarrow> cstr \<Rightarrow> 'w script
    \<Rightarrow> ((cstr \<times> bool) option \<times> 'w script) result" where
  "brace_blocks pl 0 nm args hist_flag append_flag handle_local line st = Inl OutOfFuel"
| "brace_blocks pl (Suc n) nm args hist_flag append_flag handle_local line st =
     (if cat line 0 \<noteq> CHR 0x7B then Inr (Some (line, False), st)
      else case my_next_expr (Some line) CHR 0x7B of
        None \<Rightarrow> Inr (None, st)
      | Some (stuff, r) \<Rightarrow>
          bnd (pl nm stuff (Some args) hist_flag append_flag handle_local st) (\<lambda>st1.
            if caught st1 then Inr (Some (r, True), st1)
            else brace_blocks pl n nm args hist_flag append_flag handle_local
                   (dropWhile (\<lambda>c. c = CHR '';'' \<or> my_isspace c) r) st1))"

text \<open>The result says whether the end of \<open>parse_line\<close> is reached, which takes the frame off.\<close>

fun line_loop ::
  "('w, 'd) script_env \<Rightarrow> 'w run_line \<Rightarrow> 'w run_command \<Rightarrow> nat \<Rightarrow> cstr option \<Rightarrow> cstr \<Rightarrow> bool \<Rightarrow> bool \<Rightarrow> bool
    \<Rightarrow> bool \<Rightarrow> cstr \<Rightarrow> 'w script \<Rightarrow> (bool \<times> 'w script) result" where
  "line_loop S pl pc 0 nm args hist_flag append_flag handle_local used_args line st = Inl OutOfFuel"
| "line_loop S pl pc (Suc n) nm args hist_flag append_flag handle_local used_args line st =
     bnd (brace_blocks pl n nm args hist_flag append_flag handle_local line st) (\<lambda>(blocks, st1).
       case blocks of
         None \<Rightarrow> bnd (pop_frame st1) (\<lambda>st2. Inr (False, st2))
       | Some (l, die) \<Rightarrow>
           if l = [] \<or> die then Inr (True, st1)
           else bnd (expand_alias (texts S) (Some args) n True l (used_args, st1)) (\<lambda>(stuff, more_text, flag, st2).
             bnd (pc (if more_text = None \<and> append_flag \<and> \<not> flag \<and> args \<noteq> [] then stuff @ '' '' @ args else stuff)
                   hist_flag (Some args) st2) (\<lambda>st3.
               case more_text of
                 None \<Rightarrow> Inr (True, st3)
               | Some t \<Rightarrow>
                   if caught st3 \<or> t = [] then Inr (True, st3)
                   else line_loop S pl pc n nm args hist_flag append_flag handle_local flag t st3)))"

text \<open>Without arguments a line is taken as it is; outside of files it may hold several lines.\<close>

function raw_lines :: "'w run_command \<Rightarrow> bool \<Rightarrow> cstr \<Rightarrow> 'w script \<Rightarrow> 'w script result" where
  "raw_lines pc hist_flag line st =
     (let newline = (\<lambda>c. c = CHR 0x0D \<or> c = CHR 0x0A);
          rest = dropWhile (\<lambda>c. \<not> newline c) line
      in bnd (pc (takeWhile (\<lambda>c. \<not> newline c) line) hist_flag None st) (\<lambda>st1.
           if caught st1 \<or> rest = [] then Inr st1 else raw_lines pc hist_flag (tl rest) st1))"
  by pat_completeness auto
termination
proof (relation "measure (\<lambda>(pc, hist_flag, line, st). length line)", goal_cases)
  case (2 pc hist_flag line st newline rest st1)
  then have "rest \<noteq> []" "length rest \<le> length line" using length_dropWhile_le by (auto simp: le_imp_less_Suc)
  then show ?case by (cases rest) auto
qed simp

declare raw_lines.simps [simp del]

definition line_body :: "('w, 'd) script_env \<Rightarrow> 'w run_line \<Rightarrow> 'w run_command \<Rightarrow> nat \<Rightarrow> 'w run_line" where
  "line_body S pl pc n nm line args hist_flag append_flag handle_local st =
     bnd (let st0 = (if handle_local then make_local_stack nm st else st) in
          if line = [] then Inr (True, outgoing_text S (Line []) st0)
          else case args of
                 Some a \<Rightarrow> line_loop S pl pc n nm a hist_flag append_flag handle_local False line st0
               | None \<Rightarrow>
                   bnd (if loading S st0 then pc line hist_flag None st0 else raw_lines pc hist_flag line st0)
                     (\<lambda>st1. Inr (True, st1)))
       (\<lambda>(at_end, st1). if at_end \<and> handle_local then pop_frame st1 else Inr st1)"

fun parse_line :: "('w, 'd) script_env \<Rightarrow> nat \<Rightarrow> 'w run_line" where
  "parse_line S 0 nm line args hist_flag append_flag handle_local st = Inl OutOfFuel"
| "parse_line S (Suc n) nm line args hist_flag append_flag handle_local st =
     line_body S (parse_line S n) (parse_command_with S (parse_line S n) n n) n nm line args hist_flag append_flag
       handle_local st"

definition parse_command :: "('w, 'd) script_env \<Rightarrow> nat \<Rightarrow> 'w run_command" where
  "parse_command S n = parse_command_with S (parse_line S n) n n"

end
