(* ===== verification/ScriptLines.thy ===== *)
theory ScriptLines
  imports Script ExpandSpec
begin

section \<open>The order in which a script runs\<close>

text \<open>
  The text of a script is that of its commands: what is between semicolons, with whatever is in
  brackets inside. A line runs its commands in order until an exception is raised; \<open>IF\<close> runs the part
  of the first condition that holds. The last part shows what an open brace does.
\<close>

subsection \<open>Parts in brackets\<close>

text \<open>A text that the bracket behind it closes: \<open>enclosing\<close> is decided on the text alone.\<close>

definition enclosing :: "char \<Rightarrow> char \<Rightarrow> cstr \<Rightarrow> bool" where
  "enclosing l r u \<longleftrightarrow> mb_loop l r 1 (u @ [r]) = Some [r]"

lemma mb_loop_extends: "r \<noteq> CHR 0x5C \<Longrightarrow> mb_loop l r k (u @ [r]) = Some [r] \<Longrightarrow> mb_loop l r k (u @ r # s) = Some (r # s)"
proof (induction l r k u rule: mb_loop.induct)
  case (1 l r k)
  then show ?case by (cases s) (auto split: if_splits)
next
  case (2 l r k c)
  then show ?case by (cases s) (auto split: if_splits)
next
  case (3 l r k c d u)
  then show ?case by (auto split: if_splits)
qed

lemma enclosing_mb: "enclosing l r u \<Longrightarrow> r \<noteq> CHR 0x5C \<Longrightarrow> mb_loop l r 1 (u @ r # s) = Some (r # s)"
  unfolding enclosing_def by (rule mb_loop_extends)

abbreviation in_parens :: "cstr \<Rightarrow> bool" where "in_parens \<equiv> enclosing (CHR ''('') (CHR '')'')"
abbreviation in_braces :: "cstr \<Rightarrow> bool" where "in_braces \<equiv> enclosing CHR 0x7B CHR 0x7D"

lemma MatchingBracket_enclosed:
  "in_parens u \<Longrightarrow> MatchingBracket (u @ CHR '')'' # s) (CHR ''('') (CHR '')'') = Some (CHR '')'' # s)"
  "in_braces u \<Longrightarrow> MatchingBracket (u @ CHR 0x7D # s) CHR 0x7B CHR 0x7D = Some (CHR 0x7D # s)"
  using enclosing_mb [of "CHR ''(''" "CHR '')''" u s] enclosing_mb [of "CHR 0x7B" "CHR 0x7D" u s]
  by (simp_all add: MatchingBracket_def)

lemma before_rest [simp]: "before (u @ s) s = u"
  by (simp add: before_def)

definition trimmed :: "cstr \<Rightarrow> cstr" where
  "trimmed u = rev (dropWhile my_isspace (rev (dropWhile my_isspace u)))"

lemma my_next_expr_enclosed:
  "in_parens u \<Longrightarrow> my_next_expr (Some (CHR ''('' # u @ CHR '')'' # s)) (CHR ''('') = Some (trimmed u, dropWhile my_isspace s)"
  "in_braces u \<Longrightarrow> my_next_expr (Some (CHR 0x7B # u @ CHR 0x7D # s)) CHR 0x7B = Some (trimmed u, dropWhile my_isspace s)"
  by (simp_all add: my_next_expr_def MatchingBracket_enclosed trimmed_def)

subsection \<open>Commands of a line\<close>

datatype piece = Letter char | Parens cstr | Braces cstr

fun piece_text :: "piece \<Rightarrow> cstr" where
  "piece_text (Letter c) = [c]"
| "piece_text (Parens u) = CHR ''('' # u @ '')''"
| "piece_text (Braces u) = CHR 0x7B # u @ [CHR 0x7D]"

fun piece_ok :: "piece \<Rightarrow> bool" where
  "piece_ok (Letter c) \<longleftrightarrow> c \<notin> {NUL, CHR '';'', CHR ''('', CHR 0x7B, CHR 0x5C, CHR ''$''}"
| "piece_ok (Parens u) \<longleftrightarrow> in_parens u"
| "piece_ok (Braces u) \<longleftrightarrow> in_braces u"

definition command_text :: "piece list \<Rightarrow> cstr" where
  "command_text ps = concat (List.map piece_text ps)"

text \<open>The text of a command does not start with a brace.\<close>

definition command_ok :: "piece list \<Rightarrow> bool" where
  "command_ok ps \<longleftrightarrow> list_all piece_ok ps \<and> (case ps of Braces u # _ \<Rightarrow> False | _ \<Rightarrow> True)"

fun line_text :: "piece list list \<Rightarrow> cstr" where
  "line_text [] = []"
| "line_text [c] = command_text c"
| "line_text (c # cs) = command_text c @ CHR '';'' # line_text cs"

lemma command_text_simps [simp]: "command_text [] = []" "command_text (p # ps) = piece_text p @ command_text ps"
  by (simp_all add: command_text_def)

declare exp_loop.simps(2) [simp del]

lemma exp_loop_group:
  "in_parens u \<Longrightarrow> exp_loop sp (Suc n) sep at buf chunk False (CHR ''('' # u @ CHR '')'' # p) st =
    exp_loop sp n sep at (m_strcat_ues (Some buf) chunk (\<not> at) @ CHR ''('' # u @ '')'') [] False p (raised st)"
  "in_braces u \<Longrightarrow> exp_loop sp (Suc n) sep at buf chunk False (CHR 0x7B # u @ CHR 0x7D # p) st =
    exp_loop sp n sep at (m_strcat_ues (Some buf) chunk (\<not> at) @ CHR 0x7B # u @ [CHR 0x7D]) [] False p (raised st)"
proof -
  have b: "before (c # u @ d # p) p = c # u @ [d]" for c d by (simp add: before_def)
  show "in_parens u \<Longrightarrow> exp_loop sp (Suc n) sep at buf chunk False (CHR ''('' # u @ CHR '')'' # p) st =
    exp_loop sp n sep at (m_strcat_ues (Some buf) chunk (\<not> at) @ CHR ''('' # u @ '')'') [] False p (raised st)"
    by (simp add: exp_loop.simps(2) MatchingBracket_enclosed b Let_def)
  show "in_braces u \<Longrightarrow> exp_loop sp (Suc n) sep at buf chunk False (CHR 0x7B # u @ CHR 0x7D # p) st =
    exp_loop sp n sep at (m_strcat_ues (Some buf) chunk (\<not> at) @ CHR 0x7B # u @ [CHR 0x7D]) [] False p (raised st)"
    by (simp add: exp_loop.simps(2) MatchingBracket_enclosed b Let_def)
qed

lemma flush_plain: "whole chunk \<Longrightarrow> m_strcat_ues (Some b) (chunk @ [c]) at = m_strcat_ues (Some b) chunk at @ [c]"
  if "c \<noteq> CHR 0x5C"
  using that by (cases at) (simp_all add: ues_snoc)

lemma exp_loop_pieces:
  assumes "rest = [] \<or> (\<exists>r. rest = CHR '';'' # r)"
  shows "list_all piece_ok ps \<Longrightarrow> whole chunk \<Longrightarrow> length (command_text ps) < n \<Longrightarrow>
    \<exists>f'. exp_loop sp n True at buf chunk False (command_text ps @ rest) (f, st) =
      Inr (m_strcat_ues (Some buf) chunk (\<not> at) @ command_text ps, (if rest = [] then None else Some (tl rest)), (f', st))"
proof (induction ps arbitrary: n buf chunk f)
  case Nil
  then obtain m where "n = Suc m" by (cases n) auto
  then show ?case using assms by (auto simp: exp_loop.simps(2) Let_def)
next
  case (Cons p ps)
  then obtain m where n: "n = Suc m" by (cases n) auto
  show ?case
  proof (cases p)
    case (Letter c)
    then have c: "c \<noteq> CHR '';''" "c \<noteq> CHR ''(''" "c \<noteq> CHR 0x7B" "c \<noteq> CHR 0x5C" "c \<noteq> CHR ''$''"
      using Cons.prems(1) by auto
    have "whole (chunk @ [c])" using Cons.prems(2) c by (simp add: whole_append whole_plain)
    then show ?thesis
      using Cons.IH [of "chunk @ [c]" m buf f] Cons.prems c
      by (simp add: Letter n exp_loop_plain flush_plain)
  next
    case (Parens u)
    then show ?thesis
      using Cons.IH [of "[]" m "m_strcat_ues (Some buf) chunk (\<not> at) @ CHR ''('' # u @ '')''" True] Cons.prems
      by (cases at) (simp_all add: n exp_loop_group raised_def)
  next
    case (Braces u)
    then show ?thesis
      using Cons.IH [of "[]" m "m_strcat_ues (Some buf) chunk (\<not> at) @ CHR 0x7B # u @ [CHR 0x7D]" True] Cons.prems
      by (cases at) (simp_all add: n exp_loop_group raised_def)
  qed
qed


text \<open>The specification: one command after the other, until an exception is raised.\<close>

fun run_in_order :: "'w run_command \<Rightarrow> bool \<Rightarrow> cstr \<Rightarrow> cstr list \<Rightarrow> 'w script \<Rightarrow> 'w script result" where
  "run_in_order pc hist_flag args [] st = Inr st"
| "run_in_order pc hist_flag args (c # cs) st =
     bnd (pc c hist_flag (Some args) st) (\<lambda>st1. if caught st1 then Inr st1 else run_in_order pc hist_flag args cs st1)"

lemma expand_pieces:
  assumes "rest = [] \<or> (\<exists>r. rest = CHR '';'' # r)" "list_all piece_ok ps" "length (command_text ps) < n" "command_text ps @ rest \<noteq> []"
  shows "\<exists>f'. expand_alias E (Some args) n True (command_text ps @ rest) (f, st) =
    Inr (command_text ps, (if rest = [] then None else Some (tl rest)), f', st)"
  using exp_loop_pieces [OF assms(1,2) whole_Nil assms(3), of "alias_special_char E (Some args) n" "is_at (command_text ps @ rest)" "[]"]
    assms(4)
  by (auto simp: expand_alias_def expand_with_def Let_def raised_def m_strcat_ues_def)

lemma command_start:
  assumes "command_ok ps" "rest = [] \<or> (\<exists>r. rest = CHR '';'' # r)"
  shows "cat (command_text ps @ rest) 0 \<noteq> CHR 0x7B"
  using assms by (cases ps) (auto simp: command_ok_def cat_def split: piece.splits elim: piece_ok.elims)

lemma line_text_Cons: "cs \<noteq> [] \<Longrightarrow> line_text (c # cs) = command_text c @ CHR '';'' # line_text cs"
  by (cases cs) simp_all

lemma line_loop_in_order:
  assumes pc: "\<And>st. pc [] hist_flag (Some args) st = Inr st"
  shows "list_all command_ok cs \<Longrightarrow> cs \<noteq> [] \<Longrightarrow> line_text cs \<noteq> [] \<Longrightarrow> length (line_text cs) + 1 < n \<Longrightarrow>
    line_loop S pl pc n nm args hist_flag False handle_local f (line_text cs) st =
      bnd (run_in_order pc hist_flag args (List.map command_text cs) st) (\<lambda>st1. Inr (True, st1))"
proof (induction cs arbitrary: n f st)
  case (Cons c cs)
  obtain m where n: "n = Suc (Suc m)" using Cons.prems(4) by (cases n; cases "n - 1") auto
  define rest where "rest = (if cs = [] then [] else CHR '';'' # line_text cs)"
  have line: "line_text (c # cs) = command_text c @ rest" by (simp add: rest_def line_text_Cons)
  have rest: "rest = [] \<or> (\<exists>r. rest = CHR '';'' # r)" by (simp add: rest_def)
  have ok: "command_ok c" "list_all piece_ok c" using Cons.prems(1) by (simp_all add: command_ok_def)
  have len: "length (command_text c) < Suc m" using Cons.prems(4) by (simp add: line n)
  have start: "cat (command_text c @ rest) 0 \<noteq> CHR 0x7B" by (rule command_start [OF ok(1) rest])
  have ne: "command_text c @ rest \<noteq> []" using Cons.prems(3) by (simp add: line)
  obtain f' where e: "\<And>st. expand_alias (texts S) (Some args) (Suc m) True (command_text c @ rest) (f, st) =
      Inr (command_text c, (if rest = [] then None else Some (tl rest)), f' st, st)"
    using expand_pieces [OF rest ok(2) len ne, of "texts S" args f] by metis
  have step: "line_loop S pl pc (Suc (Suc m)) nm args hist_flag False handle_local f (command_text c @ rest) st =
      bnd (pc (command_text c) hist_flag (Some args) st) (\<lambda>st1.
        if rest = [] \<or> caught st1 \<or> tl rest = [] then Inr (True, st1)
        else line_loop S pl pc (Suc m) nm args hist_flag False handle_local (f' st) (tl rest) st1)"
    using start ne by (subst line_loop.simps(2)) (auto simp add: e pc simp del: line_loop.simps)
  show ?case
  proof (cases "pc (command_text c) hist_flag (Some args) st")
    case (Inl err)
    then show ?thesis by (simp add: line n step del: line_loop.simps)
  next
    case (Inr st1)
    show ?thesis
    proof (cases "cs = [] \<or> line_text cs = []")
      case True
      have "run_in_order pc hist_flag args (List.map command_text cs) st1 = Inr st1"
      proof (cases cs)
        case (Cons d ds)
        then have "cs = [d]" using True by (cases ds) simp_all
        then show ?thesis using True pc by simp
      qed simp
      moreover have "rest = [] \<or> tl rest = []" using True by (auto simp: rest_def)
      ultimately show ?thesis using Inr unfolding line n step by auto
    next
      case False
      then have "line_loop S pl pc (Suc m) nm args hist_flag False handle_local (f' st) (line_text cs) st1 =
          bnd (run_in_order pc hist_flag args (List.map command_text cs) st1) (\<lambda>st2. Inr (True, st2))"
        using Cons.IH [of "Suc m" "f' st" st1] Cons.prems by (simp add: line n rest_def del: line_loop.simps)
      moreover have "rest \<noteq> []" "tl rest = line_text cs" using False by (simp_all add: rest_def)
      ultimately show ?thesis using Inr False unfolding line n step by simp
    qed
  qed
qed simp

text \<open>
  C13: The commands of a line, separated by semicolons and with anything in their brackets, run one after
  the other in the frame of the line, until one of them raises an exception that is caught. This is
  for a line whose variables are expanded (with arguments) and not followed by them (no \<open>append_flag\<close>),
  where the commands have no dollar, backslash or NUL outside of their brackets, all brackets match and no
  command starts with a brace. With a dollar the expansion can lose what follows: \<open>$#\<close> without a name and
  \<open>$-\<close> cut off the rest of the line with all its commands (lemma \<open>ExpandSpec.rest_is_lost\<close>).
\<close>

theorem commands_run_in_order:
  assumes "list_all command_ok cs" "line_text cs \<noteq> []" "length (line_text cs) + 1 < n"
  shows "parse_line S (Suc n) nm (line_text cs) (Some args) hist_flag False handle_local st =
    bnd (run_in_order (parse_command S n) hist_flag args (List.map command_text cs)
           (if handle_local then make_local_stack nm st else st))
      (\<lambda>st1. if handle_local then pop_frame st1 else Inr st1)"
proof -
  have "cs \<noteq> []" using assms(2) by auto
  moreover have "parse_command S n [] hist_flag (Some args) st = Inr st" for st
    using assms(3) by (cases n) (simp_all add: parse_command_def)
  ultimately show ?thesis
    using assms by (simp add: line_body_def line_loop_in_order bnd_assoc flip: parse_command_def)
qed


subsection \<open>Conditions\<close>

text \<open>The text of a chain of conditions with their parts, and of what is run when none of them holds.\<close>

fun if_text :: "(cstr \<times> cstr) list \<Rightarrow> cstr option \<Rightarrow> cstr" where
  "if_text [] None = []"
| "if_text [] (Some b) = ''else {'' @ b @ [CHR 0x7D]"
| "if_text [(e, b)] other =
     CHR ''('' # e @ '') {'' @ b @ CHR 0x7D # (case other of None \<Rightarrow> [] | Some _ \<Rightarrow> CHR '' '' # if_text [] other)"
| "if_text ((e, b) # cs) other = CHR ''('' # e @ '') {'' @ b @ CHR 0x7D # '' elsif '' @ if_text cs other"

text \<open>The specification: the conditions are evaluated in order up to the first one that decides.\<close>

fun chosen ::
  "('w, 'd) script_env \<Rightarrow> bool \<Rightarrow> cstr \<Rightarrow> (cstr \<times> cstr) list \<Rightarrow> cstr option \<Rightarrow> 'w script
    \<Rightarrow> (cstr option \<times> 'w script) result" where
  "chosen S unless_cmd sub [] other st = Inr (other, st)"
| "chosen S unless_cmd sub ((e, b) # cs) other st =
     bnd (evaluate S (trimmed e) (Some sub) st) (\<lambda>(v, st1).
        if is_true S v \<noteq> unless_cmd then Inr (Some b, st1) else chosen S unless_cmd sub cs other st1)"

lemma drop_spaces: "\<not> my_isspace c \<Longrightarrow> dropWhile my_isspace (CHR '' '' # c # s) = c # s"
  by (simp add: my_isspace_def)

lemma not_space [simp]: "\<not> my_isspace (CHR ''('')" "\<not> my_isspace CHR 0x7B" "\<not> my_isspace (CHR ''e'')" "my_isspace (CHR '' '')"
  by (simp_all add: my_isspace_def)

lemma if_words:
  "my_strnicmp (''elsif '' @ s) ''elsif '' 6 = 0" "drop 6 (''elsif '' @ s) = s"
  "my_strnicmp (''else {'' @ s) ''elsif '' 6 \<noteq> 0"
  "my_strnicmp (''else {'' @ s) ''else '' 5 = 0" "drop 5 (''else {'' @ s) = CHR 0x7B # s"
  "my_strnicmp [] ''elsif '' 6 \<noteq> 0" "my_strnicmp [] ''else '' 5 \<noteq> 0"
  by (simp_all add: numeral_eq_Suc cat_def) code_simp+

lemma body_or_rest_block: "in_braces b \<Longrightarrow> body_or_rest (CHR 0x7B # b @ CHR 0x7D # s) = (Some (trimmed b), Some (dropWhile my_isspace s))"
  by (simp add: body_or_rest_def my_next_expr_enclosed)

lemma ifcmd_round:
  assumes "in_parens e" "in_braces b" "evaluate S (trimmed e) (Some sub) st = Inr (v, st1)"
    and r: "dropWhile my_isspace s = r"
  shows "ifcmd S pl (Suc n) unless_cmd (CHR ''('' # e @ '') {'' @ b @ CHR 0x7D # s) sub st =
    (if is_true S v \<noteq> unless_cmd then pl None (trimmed b) (Some sub) False False True st1
     else if my_strnicmp r ''elsif '' 6 = 0 then ifcmd S pl n unless_cmd (drop 6 r) sub st1
     else run_opt pl (fst (body_or_rest (dropWhile my_isspace (if my_strnicmp r ''else '' 5 = 0 then drop 5 r else r)))) sub st1)"
  using assms
  by (simp add: my_next_expr_enclosed body_or_rest_block drop_spaces run_opt_def)

text \<open>
  C14: \<open>IF\<close> and \<open>UNLESS\<close> with any number of \<open>elsif\<close> parts evaluate the conditions in order up to the
  first one that decides, run the part of that one and nothing else; when none does and there is no
  \<open>else\<close>, the empty line is run. A condition whose evaluation crashes or does not return ends it there.
\<close>

theorem if_runs_first_true:
  assumes "cs \<noteq> []" "list_all (\<lambda>(e, b). in_parens e \<and> in_braces b) cs" "list_all in_braces (case other of None \<Rightarrow> [] | Some b \<Rightarrow> [b])"
    "length cs \<le> n"
  shows "ifcmd S pl n unless_cmd (if_text cs other) sub st =
    bnd (chosen S unless_cmd sub cs other st) (\<lambda>(choice, st1).
      pl None (case choice of None \<Rightarrow> [] | Some b \<Rightarrow> trimmed b) (Some sub) False False True st1)"
  using assms
proof (induction cs arbitrary: n st)
  case (Cons c cs)
  obtain e b where c: "c = (e, b)" by (cases c) auto
  obtain m where n: "n = Suc m" using Cons.prems(4) by (cases n) auto
  have ok: "in_parens e" "in_braces b" using Cons.prems(2) by (simp_all add: c)
  define tail where "tail = (if cs = [] then case other of None \<Rightarrow> [] | Some _ \<Rightarrow> CHR '' '' # if_text [] other
    else '' elsif '' @ if_text cs other)"
  have whole_text: "if_text (c # cs) other = CHR ''('' # e @ '') {'' @ b @ CHR 0x7D # tail"
    by (cases cs) (simp_all add: c tail_def)
  show ?case
  proof (cases "evaluate S (trimmed e) (Some sub) st")
    case (Inl x)
    then show ?thesis unfolding n whole_text by (simp add: c my_next_expr_enclosed body_or_rest_block drop_spaces ok)
  next
    case (Inr r)
    then obtain v st2 where v: "evaluate S (trimmed e) (Some sub) st = Inr (v, st2)" by (cases r) auto
    note round = ifcmd_round [OF ok v refl, of pl m unless_cmd tail]
    show ?thesis
    proof (cases "is_true S v \<noteq> unless_cmd")
      case True
      then show ?thesis using v unfolding n whole_text round by (simp add: c)
    next
      case False
      note cond = this
      have ch: "chosen S unless_cmd sub (c # cs) other st = chosen S unless_cmd sub cs other st2" using cond v by (simp add: c)
      show ?thesis
      proof (cases "cs = []")
        case True
        show ?thesis
        proof (cases other)
          case None
          then have "dropWhile my_isspace tail = []" using True by (simp add: tail_def)
          then show ?thesis using cond if_words(6,7) True None unfolding n whole_text round ch
            by (simp add: body_or_rest_def run_opt_def)
        next
          case (Some d)
          then have t: "dropWhile my_isspace tail = ''else {'' @ d @ [CHR 0x7D]" using True by (simp add: tail_def drop_spaces)
          have d: "in_braces d" using Cons.prems(3) Some by simp
          then show ?thesis
            using cond True Some body_or_rest_block [of d "[]"] if_words(3-5) [of "d @ [CHR 0x7D]"] unfolding n whole_text round t ch
            by (simp add: run_opt_def)
        qed
      next
        case False
        then have t: "dropWhile my_isspace tail = ''elsif '' @ if_text cs other" by (simp add: tail_def drop_spaces)
        have "ifcmd S pl m unless_cmd (if_text cs other) sub st2 =
            bnd (chosen S unless_cmd sub cs other st2) (\<lambda>(choice, st1).
              pl None (case choice of None \<Rightarrow> [] | Some b \<Rightarrow> trimmed b) (Some sub) False False True st1)"
          using Cons.IH [OF False _ Cons.prems(3)] Cons.prems(2,4) by (simp add: n)
        then show ?thesis using cond unfolding n whole_text round t if_words ch by simp
      qed
    qed
  qed
qed simp


subsection \<open>Open braces\<close>

text \<open>
  C31: A line that starts with a brace that is not closed takes off the frame of whoever runs it: \<open>EVAL\<close>
  runs its line without a frame, but the error path removes one all the same.
\<close>

theorem open_brace_pops_callers_frame:
  assumes "MatchingBracket s CHR 0x7B CHR 0x7D = None" "call_stack st \<noteq> []" "2 < n"
  shows "evalcmd (parse_line S n) (CHR 0x7B # s) subargs st = Inr (st\<lparr>call_stack := butlast (call_stack st)\<rparr>)"
proof -
  obtain m where n: "n = Suc (Suc (Suc m))" using assms(3) by (metis Suc_less_eq2 less_imp_Suc_add numeral_2_eq_2)
  show ?thesis
    using assms(1,2)
    by (simp add: n evalcmd_def line_body_def my_next_expr_def pop_frame_def returns_def destroy_local_stack_def)
qed

text \<open>Outside of every frame the same line reads in front of the stack.\<close>

lemma open_brace_without_frame:
  assumes "MatchingBracket s CHR 0x7B CHR 0x7D = None" "call_stack st = []" "2 < n"
  shows "evalcmd (parse_line S n) (CHR 0x7B # s) subargs st = Inl NoReturn"
proof -
  obtain m where n: "n = Suc (Suc (Suc m))" using assms(3) by (metis Suc_less_eq2 less_imp_Suc_add numeral_2_eq_2)
  show ?thesis
    using assms(1,2)
    by (simp add: n evalcmd_def line_body_def my_next_expr_def pop_frame_def returns_def destroy_local_stack_def)
qed


subsection \<open>Examples\<close>

text \<open>A client that notes the arguments of the commands it runs; \<open>more\<close> is true for three rounds.\<close>

definition sample_texts :: "cstr list script exp_env" where
  "sample_texts =
     \<lparr>call_function = (\<lambda>n a st. Inr (Some n, st)), get_variable_with_args = (\<lambda>n a st. Inr (None, st)),
      parse_inline = (\<lambda>e a st. Inr (Some (if e = ''more'' then if length (client (snd st)) < 3 then ''1'' else ''0'' else e), st)),
      history_line = (\<lambda>n w. (None, w)), input_prompt = (\<lambda>b n w. ([], w)), pad_char_var = CHR '' ''\<rparr>"

definition sample_shell :: "(cstr list, int) script_env" where
  "sample_shell =
     \<lparr>d_add = (+), d_sub = (-), d_mul = (*), d_div = (div), d_pow = (\<lambda>a b. a ^ nat b), d_neg = uminus,
      d_less = (<), d_le = (\<le>), d_is_zero = (\<lambda>a. a = 0), d_of_long = id, d_to_long = id,
      d_read = (\<lambda>s. fst (strtol10 s)), d_show = ltoa,
      texts = sample_texts, values_of = sample_var_env, find_alias = (\<lambda>c st. (0, None)),
      command_table =
        [\<lparr>cname = [], server_func = Some [], func = ''do_send_text'', server_required = True, internal_help = False\<rparr>,
         \<lparr>cname = ''ECHO'', server_func = None, func = ''echocmd'', server_required = False, internal_help = False\<rparr>,
         \<lparr>cname = ''EVAL'', server_func = None, func = ''evalcmd'', server_required = False, internal_help = False\<rparr>],
      call_handler = (\<lambda>cmd b args sub st. Inr (st\<lparr>client := client st @ [args]\<rparr>)),
      server_nick = (\<lambda>st. None), outgoing_text = (\<lambda>m st. st), recall = (\<lambda>s t st. (None, st)),
      remember = (\<lambda>s st. st), set_input_line = (\<lambda>s st. st), cmdchars = ''/'', command_mode = False,
      display_var = (\<lambda>st. 0), loading = (\<lambda>st. False), array_names = (\<lambda>b st. [])\<rparr>"

definition sample_state :: "cstr list script" where
  "sample_state =
     \<lparr>call_stack = [\<lparr>frame_name = ''main'', locals = [], locked = False, parent = - 1\<rparr>],
      last_function_call_level = - 1, globals = (\<lambda>n. None),
      will_catch_break_exceptions = 0, will_catch_continue_exceptions = 0, will_catch_return_exceptions = 0,
      break_exception = 0, continue_exception = 0, return_exception = 0, window_display = 1, level = 0, client = []\<rparr>"

text \<open>A \<open>parse_line\<close> that notes its line.\<close>

definition noting :: "cstr list run_line" where
  "noting nm l a h ap hl st = Inr (st\<lparr>client := client st @ [l]\<rparr>)"

theorem commands_run_in_order_witness:
  "parse_line sample_shell (Suc 40) None (''ECHO a;ECHO '' @ CHR 0x7B # ''b;c'' @ [CHR 0x7D]) (Some []) False False True sample_state =
    bnd (run_in_order (parse_command sample_shell 40) False [] [''ECHO a'', ''ECHO '' @ CHR 0x7B # ''b;c'' @ [CHR 0x7D]]
      (make_local_stack None sample_state)) pop_frame"
proof -
  have c: "list_all command_ok [List.map Letter ''ECHO a'', List.map Letter ''ECHO '' @ [Braces ''b;c'']]"
    by (simp add: command_ok_def enclosing_def)
  have t: "line_text [List.map Letter ''ECHO a'', List.map Letter ''ECHO '' @ [Braces ''b;c'']] =
      ''ECHO a;ECHO '' @ CHR 0x7B # ''b;c'' @ [CHR 0x7D]"
    "List.map command_text [List.map Letter ''ECHO a'', List.map Letter ''ECHO '' @ [Braces ''b;c'']] =
      [''ECHO a'', ''ECHO '' @ CHR 0x7B # ''b;c'' @ [CHR 0x7D]]"
    by simp_all
  show ?thesis
    using commands_run_in_order [OF c, of 40 sample_shell None "[]" False True sample_state] unfolding t by simp
qed

theorem if_runs_first_true_witness:
  "ifcmd sample_shell noting 3 False
     (''(0) '' @ CHR 0x7B # ''x'' @ CHR 0x7D # '' elsif (1) '' @ CHR 0x7B # ''y'' @ CHR 0x7D # '' else '' @ CHR 0x7B # ''z'' @ [CHR 0x7D])
     [] sample_state = Inr (sample_state\<lparr>client := [''y'']\<rparr>)"
proof -
  have v: "check_val sample_shell ''0'' \<longleftrightarrow> False" "check_val sample_shell ''1'' \<longleftrightarrow> True" by code_simp+
  have tr: "trimmed ''0'' = ''0''" "trimmed ''1'' = ''1''" "trimmed ''y'' = ''y''" by code_simp+
  have "chosen sample_shell False [] [(''0'', ''x''), (''1'', ''y'')] (Some ''z'') sample_state = Inr (Some ''y'', sample_state)"
    by (simp add: tr evaluate_def is_true_def v sample_texts_def sample_shell_def [THEN arg_cong [where f = texts]])
  then show ?thesis
    using if_runs_first_true [of "[(''0'', ''x''), (''1'', ''y'')]" "Some ''z''" 3 sample_shell noting False "[]" sample_state]
    by (simp add: enclosing_def tr noting_def sample_state_def)
qed

theorem open_brace_pops_callers_frame_witness:
  "evalcmd (parse_line sample_shell 3) (CHR 0x7B # ''x'') None sample_state =
    Inr (sample_state\<lparr>call_stack := butlast (call_stack sample_state)\<rparr>)"
proof (rule open_brace_pops_callers_frame)
  show "MatchingBracket ''x'' CHR 0x7B CHR 0x7D = None" by code_simp
qed (simp_all add: sample_state_def)

end
