(* ===== verification/CommandTable.thy ===== *)
theory CommandTable
  imports Script
begin

section \<open>The table of commands (source/commands.c)\<close>

text \<open>
  The names, the functions, their first argument and the flags \<open>SERVERREQ\<close> and \<open>INTERNAL_HELP\<close> of the
  built-in commands. The help texts and the numbers of messages are left out. What the table holds
  depends on the build: on \<open>WANT_CD\<close>, on Windows (\<open>WINNT\<close>), and on the built-in player, which wants
  \<open>WANT_MP3PLAYER\<close> and \<open>WANT_THREAD\<close>.
\<close>

definition row :: "cstr \<Rightarrow> cstr option \<Rightarrow> cstr \<Rightarrow> bool \<Rightarrow> bool \<Rightarrow> IrcCommand" where
  "row nm command f server_needed own_help =
     \<lparr>cname = nm, server_func = command, func = f, server_required = server_needed, internal_help = own_help\<rparr>"

definition commands_A_to_CD :: "IrcCommand list" where
  "commands_A_to_CD =
   [row '''' (Some []) ''do_send_text'' True False,
    row ''#'' None ''comment'' False False,
    row '':'' None ''comment'' False False,
    row ''ADMIN'' None ''nadmin'' True True,
    row ''ALIAS'' None ''aliascmd'' False False,
    row ''ANNOUNCE'' None ''send_allcomm'' True False,
    row ''ASSIGN'' None ''assigncmd'' False False,
    row ''BAN'' None ''bancmd'' True False,
    row ''BEEP'' None ''beepcmd'' False False,
    row ''BIND'' None ''bindcmd'' False False,
    row ''BLOCK'' None ''send_1comm'' True False,
    row ''BLOCKLIST'' None ''send_comm'' True False,
    row ''BREAK'' None ''breakcmd'' False False,
    row ''BROWSE'' None ''browse'' True False,
    row ''CBAN'' None ''send_2comm'' True False,
    row ''CBANCLEAR'' None ''send_1comm'' True False,
    row ''CBANLIST'' None ''send_with_channel'' True False,
    row ''CD'' None ''mychdir'' False False]"

definition cd_commands :: "IrcCommand list" where
  "cd_commands =
   [row ''CDEJECT'' None ''cd_eject'' False False,
    row ''CDLIST'' None ''cd_list'' False False,
    row ''CDPAUSE'' None ''cd_pause'' False False,
    row ''CDPLAY'' None ''cd_play'' False False,
    row ''CDSTOP'' None ''cd_stop'' False False,
    row ''CDVOLUME'' None ''cd_volume'' False False]"

definition commands_to_DEOP :: "IrcCommand list" where
  "commands_to_DEOP =
   [row ''CHANLEVEL'' None ''send_chanlevel'' True False,
    row ''CHAT'' (Some ''CHAT'') ''send_file'' True False,
    row ''CIGNORE'' (Some ''CIGNORE'') ''ignore_user'' False False,
    row ''CLEAR'' None ''my_clear'' False False,
    row ''CLOAK'' None ''send_comm'' True False,
    row ''CLOSE'' None ''serverclose'' True False,
    row ''CMUZZLE'' None ''variablecmd'' True False,
    row ''CONTINUE'' None ''continuecmd'' False False,
    row ''CUNBAN'' None ''send_2comm'' True False,
    row ''CUNMUZZLE'' None ''variablecmd'' True False,
    row ''DBSEARCH'' None ''dbsearch'' False False,
    row ''DCCGET'' (Some ''DCC_GET'') ''request'' False False,
    row ''DEBUG'' None ''e_debug'' False False,
    row ''DELETE'' None ''nap_del'' False False,
    row ''DEOP'' None ''delop'' False False]"

definition df_command :: "IrcCommand list" where
  "df_command =
   [row ''DF'' (Some ''df'') ''exec_cmd'' False False]"

definition commands_to_LOCAL :: "IrcCommand list" where
  "commands_to_LOCAL =
   [row ''DISCONNECT'' None ''serverclose'' True False,
    row ''DNS'' None ''dnscmd'' True False,
    row ''DO'' None ''docmd'' False False,
    row ''DU'' (Some ''du'') ''exec_cmd'' False False,
    row ''DUMP'' None ''dumpcmd'' False False,
    row ''ECHO'' None ''echocmd'' False False,
    row ''EVAL'' None ''evalcmd'' False False,
    row ''EXEC'' None ''execcmd'' False False,
    row ''FE'' (Some ''FE'') ''fe'' False False,
    row ''FEC'' (Some ''FEC'') ''fe'' False False,
    row ''FOR'' None ''forcmd'' False False,
    row ''FOREACH'' None ''foreach'' False False,
    row ''GET'' (Some ''GET'') ''request'' True False,
    row ''GLIST'' None ''glist'' False False,
    row ''GUSERS'' None ''listusers'' True False,
    row ''HELP'' None ''help'' False False,
    row ''HISTORY'' None ''history'' False False,
    row ''HOOK'' None ''hookcmd'' False False,
    row ''HOTLIST'' None ''hotlist'' False False,
    row ''I'' None ''invite_cmd'' True False,
    row ''IF'' (Some ''IF'') ''ifcmd'' False False,
    row ''IGNORE'' None ''ignore_user'' False False,
    row ''INPUT'' (Some ''INPUT'') ''inputcmd'' False False,
    row ''INPUT_CHAR'' (Some ''INPUT_CHAR'') ''inputcmd'' False False,
    row ''INVITE'' None ''invite_cmd'' True False,
    row ''IRC'' None ''irccmd'' False False,
    row ''JOIN'' None ''joincmd'' False False,
    row ''KICK'' None ''send_kick'' False False,
    row ''KILL'' None ''send_kill'' True False,
    row ''L'' None ''partcmd'' True False,
    row ''LASTLOG'' None ''lastlog'' False False,
    row ''LEAVE'' None ''partcmd'' True False,
    row ''LIST'' (Some ''LIST'') ''send_listcmd'' True False,
    row ''LOAD'' None ''load'' False False,
    row ''LOCAL'' None ''localcmd'' False False]"

definition ls_command :: "IrcCommand list" where
  "ls_command =
   [row ''LS'' (Some ''ls'') ''exec_cmd'' False False]"

definition commands_to_MOTD :: "IrcCommand list" where
  "commands_to_MOTD =
   [row ''M'' (Some ''MSG'') ''privmsg'' True False,
    row ''ME'' None ''send_me'' False False,
    row ''MODE'' None ''mode_cmd'' True False,
    row ''MOTD'' None ''send_comm'' True False]"

definition player_command :: "IrcCommand list" where
  "player_command =
   [row ''MP3'' None ''mp3play'' False False]"

definition winamp_command :: "IrcCommand list" where
  "winamp_command =
   [row ''MP3'' None ''playwinamp'' False False]"

definition commands_to_XTYPE :: "IrcCommand list" where
  "commands_to_XTYPE =
   [row ''MSG'' (Some ''MSG'') ''privmsg'' True False,
    row ''MUZZLE'' None ''send_muzzle'' True False,
    row ''NAMES'' None ''send_with_channel'' True False,
    row ''NSLOOKUP'' None ''nslookup'' False False,
    row ''ON'' None ''oncmd'' False False,
    row ''OP'' None ''createop'' True False,
    row ''OPDEL'' None ''delop'' True False,
    row ''OPLIST'' None ''listop'' True False,
    row ''OPSAY'' None ''opsay_cmd'' True False,
    row ''PARSEKEY'' None ''parsekeycmd'' False False,
    row ''PART'' None ''partcmd'' True False,
    row ''PASTE'' None ''pastecmd'' True False,
    row ''PAUSE'' None ''e_pause'' False False,
    row ''PING'' None ''ping'' True False,
    row ''POP'' None ''pop_cmd'' False False,
    row ''PRETEND'' None ''pretend_cmd'' True False,
    row ''PRINT'' None ''print_napster'' False False,
    row ''PS'' (Some ''ps'') ''exec_cmd'' False False,
    row ''PTEST'' None ''ptestcmd'' False False,
    row ''PURGE'' None ''purge'' False False,
    row ''PUSH'' None ''push_cmd'' False False,
    row ''QUERY'' None ''query'' False False,
    row ''QUEUE'' None ''queuecmd'' False False,
    row ''QUIT'' None ''napquit'' False False,
    row ''RAW'' None ''rawcmd'' True False,
    row ''RBIND'' None ''rbindcmd'' False False,
    row ''RELM'' None ''relmcmd'' False False,
    row ''RELOAD'' None ''reload_save'' False False,
    row ''REPEAT'' None ''repeatcmd'' False False,
    row ''REQUEST'' (Some ''REQUEST'') ''request'' True False,
    row ''RESET'' None ''reset'' False False,
    row ''RESUME'' (Some ''RESUME'') ''resume'' True False,
    row ''RETURN'' None ''returncmd'' False False,
    row ''S'' None ''nap_search'' True False,
    row ''SAVE'' None ''savenap'' False False,
    row ''SAY'' (Some []) ''do_send_text'' True False,
    row ''SBROWSE'' (Some ''SBROWSE'') ''scott'' True False,
    row ''SC'' None ''nap_scan'' True False,
    row ''SCAN'' None ''nap_scan'' True False,
    row ''SCOTT'' (Some ''SCOTT'') ''scott'' True False,
    row ''SEARCH'' None ''nap_search'' True False,
    row ''SEND'' None ''send_file'' True False,
    row ''SENDLINE'' (Some []) ''sendlinecmd'' False False,
    row ''SERVER'' None ''window_serv'' False False,
    row ''SET'' None ''setcmd'' False False,
    row ''SETCHANLEVEL'' None ''setuser'' True False,
    row ''SETCHANLIMIT'' None ''setuser'' True False,
    row ''SETDATAPORT'' None ''setuser'' True False,
    row ''SETENV'' None ''setenvcmd'' False False,
    row ''SETLINESPEED'' None ''setuser'' True False,
    row ''SETPASSWORD'' None ''setuser'' True False,
    row ''SETUSERLEVEL'' None ''setuser'' True False,
    row ''SHARE'' None ''share_napster'' False False,
    row ''SHIFT'' None ''shiftcmd'' False False,
    row ''SIGNORE'' None ''server_ignore'' False False,
    row ''SLEEP'' None ''sleepcmd'' False False,
    row ''SOUNDEX'' (Some ''SOUNDEX'') ''nap_search'' True False,
    row ''SPING'' None ''spingcmd'' True False,
    row ''SSEARCH'' (Some ''SSEARCH'') ''scott'' True False,
    row ''STACK'' None ''stackcmd'' False False,
    row ''STATS'' None ''nap_stats'' False False,
    row ''STUB'' None ''stubcmd'' False False,
    row ''SWITCH'' None ''switchcmd'' False False,
    row ''TBAN'' (Some ''TBAN'') ''bancmd'' False False,
    row ''TIMER'' None ''timercmd'' False False,
    row ''TOPIC'' None ''topic'' True False,
    row ''TYPE'' None ''typecmd'' False False,
    row ''UNBLOCK'' None ''send_1comm'' True False,
    row ''UNLESS'' (Some ''UNLESS'') ''ifcmd'' False False,
    row ''UNMUZZLE'' None ''send_unmuzzle'' True False,
    row ''UNSHIFT'' None ''unshiftcmd'' False False,
    row ''UNVOICE'' None ''variablecmd'' True False,
    row ''URL'' None ''url_grabber'' False False,
    row ''USLEEP'' None ''usleepcmd'' False False,
    row ''VERSION'' None ''versioncmd'' False False,
    row ''VOICE'' None ''variablecmd'' True False,
    row ''W'' None ''whois'' True False,
    row ''WAIT'' None ''waitcmd'' False False,
    row ''WALLOP'' None ''send_allcomm'' True False,
    row ''WHICH'' (Some ''WHICH'') ''load'' False False,
    row ''WHILE'' (Some ''WHILE'') ''whilecmd'' False False,
    row ''WHOIS'' None ''whois'' True False,
    row ''WHOWAS'' None ''whowas'' True False,
    row ''WINDOW'' None ''windowcmd'' False True,
    row ''XECHO'' (Some ''XECHO'') ''echocmd'' False False,
    row ''XTYPE'' (Some ''XTYPE'') ''xtypecmd'' False False]"

definition irc_command :: "bool \<Rightarrow> bool \<Rightarrow> bool \<Rightarrow> IrcCommand list" where
  "irc_command want_cd winnt player =
     commands_A_to_CD @ (if want_cd then cd_commands else []) @ commands_to_DEOP @ (if winnt then [] else df_command) @
     commands_to_LOCAL @ (if winnt then [] else ls_command) @ commands_to_MOTD @
     (if player then player_command else if winnt then winamp_command else []) @ commands_to_XTYPE"

subsection \<open>Finding a command\<close>

text \<open>The specification: the commands whose names start with the text, in the order of the table.\<close>

definition commands_with :: "cstr \<Rightarrow> IrcCommand list \<Rightarrow> IrcCommand list" where
  "commands_with s table = filter (\<lambda>c. prefix s (cname c)) table"

definition searchable :: "IrcCommand list \<Rightarrow> bool" where
  "searchable table \<longleftrightarrow> table \<noteq> [] \<and> cname (hd table) = [] \<and> table_ok (List.map cname (tl table))"

lemma filter_interval:
  assumes "\<And>i. i < length xs \<Longrightarrow> P (xs ! i) \<longleftrightarrow> k \<le> i \<and> i < m" "k \<le> m" "m \<le> length xs"
  shows "filter P xs = take (m - k) (drop k xs)"
proof -
  have parts: "xs = take k xs @ take (m - k) (drop k xs) @ drop m xs"
    using assms(2) by (simp flip: take_add add: append_assoc [symmetric] del: append_assoc)
  have "filter P (take k xs) = []" "filter P (take (m - k) (drop k xs)) = take (m - k) (drop k xs)" "filter P (drop m xs) = []"
    using assms by (auto simp: filter_empty_conv in_set_conv_nth intro!: filter_True)
  then show ?thesis by (subst parts) simp
qed

lemma longer_is_not_less: "\<not> xs @ zs < (xs :: nat list)"
  by (induction xs) simp_all

lemma table_search:
  assumes "searchable table" "canonical s"
  defines "c \<equiv> \<lambda>i. strncmp s (cname (table ! i)) (length s)"
  shows "i \<le> j \<Longrightarrow> j < length table \<Longrightarrow> (c i < 0 \<longrightarrow> c j < 0) \<and> (0 < c j \<longrightarrow> 0 < c i)"
    and "i < length table \<Longrightarrow> c i = 0 \<longleftrightarrow> prefix s (cname (table ! i))"
    and "i < j \<Longrightarrow> j < length table \<Longrightarrow> okey (cname (table ! i)) < okey (cname (table ! j))"
proof -
  obtain e0 es where t: "table = e0 # es" "cname e0 = []" "table_ok (List.map cname es)"
    using assms(1) by (cases table) (auto simp: searchable_def)
  define as where "as = table_items (List.map cname es)"
  have o: "in_order as" "length as = length es" using table_in_order [OF t(3)] by (simp_all add: as_def table_items_def)
  have c0: "0 < c 0" using assms(2) by (cases s) (auto simp: c_def t canonical_def plain_char_def cat_def)
  have cS: "c (Suc i) = by_name as s (int i)" if "i < length es" for i
    using that by (simp add: c_def t by_name_def as_def table_items_def)
  have nm: "iname (as ! i) = cname (es ! i)" if "i < length es" for i using that by (simp add: as_def table_items_def)
  have d: "(by_name as s (int i) < 0 \<longrightarrow> by_name as s (int j) < 0) \<and> (0 < by_name as s (int j) \<longrightarrow> 0 < by_name as s (int i))"
    if "i \<le> j" "j < length es" for i j
    using decr_by_name [OF o(1) assms(2)] that o(2) unfolding decr_def by (metis of_nat_0_le_iff of_nat_le_iff of_nat_less_iff)
  show "i \<le> j \<Longrightarrow> j < length table \<Longrightarrow> (c i < 0 \<longrightarrow> c j < 0) \<and> (0 < c j \<longrightarrow> 0 < c i)"
    using c0 cS d by (cases i; cases j) (auto simp: t)
  show "i < length table \<Longrightarrow> c i = 0 \<longleftrightarrow> prefix s (cname (table ! i))"
  proof (cases i)
    case 0
    then show ?thesis using c0 assms(2) by (auto simp: t canonical_def)
  next
    case (Suc k)
    assume "i < length table"
    then have k: "k < length es" by (simp add: t Suc)
    have "by_name as s (int k) = 0 \<longleftrightarrow> okey s = take (length s) (okey (cname (es ! k)))"
      using by_name_sign(2) [OF o(1) assms(2), of "int k"] k o(2) nm by simp
    also have "\<dots> \<longleftrightarrow> s = take (length s) (cname (es ! k))"
      by (simp add: okey_def take_map inj_map_eq_map inj_def)
    finally show ?thesis using cS k by (auto simp: Suc t prefix_def) (metis append_take_drop_id)
  qed
  show "i < j \<Longrightarrow> j < length table \<Longrightarrow> okey (cname (table ! i)) < okey (cname (table ! j))"
  proof -
    assume ij: "i < j" "j < length table"
    then obtain j' where j': "j = Suc j'" "j' < length es" by (cases j) (auto simp: t)
    show "okey (cname (table ! i)) < okey (cname (table ! j))"
    proof (cases i)
      case 0
      have "canonical (cname (es ! j'))" using t(3) j'(2) by (auto simp: table_ok_def list_all_length)
      then show ?thesis using 0 j' by (cases "cname (es ! j')") (auto simp: t okey_def canonical_def)
    next
      case (Suc i')
      then show ?thesis
        using t(3) ij j' sorted_wrt_nth_less [of "\<lambda>x y. okey (cname x) < okey (cname y)" es i' j']
        by (simp add: t table_ok_def sorted_wrt_map)
    qed
  qed
qed

text \<open>
  C18: For every text of the characters of names the search in the table gives the first command that
  starts with it and the number of such commands, negative when one of them is the text itself.
\<close>

theorem find_command_meets_spec:
  assumes "searchable table" "canonical s"
  shows "find_command table s = (case commands_with s table of
      [] \<Rightarrow> Some (0, None)
    | c # cs \<Rightarrow> Some ((if s \<in> cname ` set table then - 1 else 1) * int (length (c # cs)), Some c))"
proof -
  define n where "n = length table"
  define c where "c = (\<lambda>i. strncmp s (cname (table ! i)) (length s))"
  define cmp where "cmp = (\<lambda>i. if i < length table then Some (strncmp s (List.map cname table ! i) (length s)) else None)"
  have ts: "i \<le> j \<Longrightarrow> j < n \<Longrightarrow> (c i < 0 \<longrightarrow> c j < 0) \<and> (0 < c j \<longrightarrow> 0 < c i)"
    "i < n \<Longrightarrow> c i = 0 \<longleftrightarrow> prefix s (cname (table ! i))"
    "i < j \<Longrightarrow> j < n \<Longrightarrow> okey (cname (table ! i)) < okey (cname (table ! j))" for i j
    using table_search [OF assms] unfolding c_def n_def by blast+
  have cmp: "cmp i = Some (c i)" if "i < n" for i using that by (simp add: cmp_def c_def n_def)
  have n: "0 < n" and s: "s \<noteq> []" using assms by (auto simp: searchable_def n_def canonical_def)
  obtain b p where bp: "fixed_loop (- 1) cmp 0 n = Some (b, p)" "p < n" "if b then c p = 0 else \<forall>i < n. c i \<noteq> 0"
    using fixed_loop_result [of n cmp c 0 n "- 1", OF cmp ts(1)] n by auto
  have def_s: "find_command table s = (case find_fixed_array_item (List.map cname table) s of
      None \<Rightarrow> None | Some (k, cmd_cnt, _) \<Rightarrow> Some (cmd_cnt, map_option (\<lambda>i. table ! i) k))"
    using s by (simp add: find_command_def)
  show ?thesis
  proof (cases b)
    case False
    then have "commands_with s table = []"
      using bp(3) ts(2) by (auto simp: commands_with_def filter_empty_conv in_set_conv_nth n_def)
    moreover have "find_fixed_array_item (List.map cname table) s = Some (None, 0, p)"
      using bp(1) False by (simp add: find_fixed_array_item_def cmp_def n_def Let_def)
    ultimately show ?thesis by (simp add: def_s)
  next
    case True
    define hit where "hit = (\<lambda>i. map_option (\<lambda>c. c = 0) (cmp i))"
    have hit: "hit i = Some (c i = 0)" if "i < n" for i using cmp [OF that] by (simp add: hit_def)
    have q: "c p = 0" using True bp(3) by simp
    obtain k m where km: "run_down (\<lambda>i. hit (i - 1)) p = Some k" "run_up hit n (Suc p) = Some m" "k < m" "m \<le> n"
        "\<forall>i. k \<le> i \<and> i < m \<longrightarrow> c i = 0" "k = 0 \<or> c (k - 1) \<noteq> 0" "m = n \<or> c m \<noteq> 0"
      using name_run [of n hit "\<lambda>i. c i = 0", OF hit bp(2) q] by blast
    have ck: "c k = 0" "c (m - 1) = 0" using km(3,5) by auto
    have left: "0 < c i" if "i < k" for i
    proof -
      have "0 < c (k - 1)" using ts(1) [of "k - 1" k] that km(3,4,6) ck(1) by (metis less_le_trans less_numeral_extra(3) linorder_neqE_linordered_idom not_less_zero diff_le_self)
      then show ?thesis using ts(1) [of i "k - 1"] that km(3,4) by auto
    qed
    have right: "c i < 0" if "m \<le> i" "i < n" for i
    proof -
      have "c m < 0" using ts(1) [of "m - 1" m] that km(3,7) ck(2) by (metis diff_le_self le_less_trans linorder_neqE_linordered_idom less_numeral_extra(3) not_le)
      then show ?thesis using ts(1) [of m i] that by auto
    qed
    have "prefix s (cname (table ! i)) \<longleftrightarrow> k \<le> i \<and> i < m" if "i < n" for i
      using ts(2) [OF that] left [of i] right [of i] km(5) that by (metis less_numeral_extra(3) not_le)
    then have hits: "commands_with s table = take (m - k) (drop k table)"
      unfolding commands_with_def using km(3,4) by (intro filter_interval) (simp_all add: n_def)
    then have hits': "commands_with s table = table ! k # tl (commands_with s table)" "length (commands_with s table) = m - k"
      using km(3,4) Cons_nth_drop_Suc [of k table, symmetric] by (cases "m - k"; simp add: n_def)+
    have kpre: "prefix s (cname (table ! k))" using ts(2) [of k] ck km(3,4) by simp
    have "length (cname (table ! k)) = length s \<longleftrightarrow> s \<in> cname ` set table"
    proof
      assume "length (cname (table ! k)) = length s"
      then have "cname (table ! k) = s" using kpre by (auto simp: prefix_def)
      then show "s \<in> cname ` set table" using km(3,4) by (auto simp: n_def)
    next
      assume "s \<in> cname ` set table"
      then obtain j where j: "j < n" "s = cname (table ! j)" by (auto simp: in_set_conv_nth n_def)
      then have "\<not> j < k" "\<not> k < j"
        using left [of j] ts(2) [OF j(1)] ts(3) [of k j] kpre by (auto simp: prefix_def okey_def longer_is_not_less)
      then show "length (cname (table ! k)) = length s" using j by (metis linorder_neqE_nat)
    qed
    then have "find_fixed_array_item (List.map cname table) s =
        Some (Some k, if s \<in> cname ` set table then - int (m - k) else int (m - k), k)"
      using True km(3,4) unfolding find_fixed_array_item_def Let_def length_map bp(1) [unfolded cmp_def n_def]
      by (simp add: km(1,2) [unfolded hit_def cmp_def n_def] n_def del: One_nat_def)
    moreover obtain cs where "commands_with s table = table ! k # cs" using hits'(1) by blast
    moreover have "int (m - k) = 1 + int (length cs)" using hits'(2) calculation(2) by simp
    ultimately show ?thesis by (simp add: def_s del: of_nat_diff)
  qed
qed


text \<open>The names of each build are in the order of the search, since those of the largest one are.\<close>

abbreviation names_of :: "IrcCommand list \<Rightarrow> cstr list" where
  "names_of \<equiv> List.map cname"

lemma all_names_ok:
  "successively (\<lambda>s t. okey s < okey t) (names_of (tl (irc_command True False True)))"
  "list_all canonical (names_of (tl (irc_command True False True)))"
  by code_simp+

lemma winamp_name: "names_of winamp_command = names_of player_command"
  by (simp add: winamp_command_def player_command_def row_def)

lemma names_subseq: "subseq (names_of (tl (irc_command a b c))) (names_of (tl (irc_command True False True)))"
proof -
  have A: "commands_A_to_CD \<noteq> []" by (simp add: commands_A_to_CD_def)
  show ?thesis
    unfolding irc_command_def tl_append2 [OF A] map_append
    by (intro list_emb_append_mono) (simp_all add: winamp_name)
qed

lemma subseq_keeps:
  "subseq xs ys \<Longrightarrow> sorted_wrt P ys \<Longrightarrow> sorted_wrt P xs" "subseq xs ys \<Longrightarrow> set xs \<subseteq> set ys"
proof -
  show s: "subseq xs ys \<Longrightarrow> set xs \<subseteq> set ys" for xs ys :: "'a list"
    by (induction rule: list_emb.induct) auto
  show "subseq xs ys \<Longrightarrow> sorted_wrt P ys \<Longrightarrow> sorted_wrt P xs"
    by (induction rule: list_emb.induct) (use s in \<open>fastforce+\<close>)
qed

lemma irc_command_searchable: "searchable (irc_command want_cd winnt player)"
proof -
  let ?all = "names_of (tl (irc_command True False True))"
  have "transp (\<lambda>s t. okey s < okey t)" by (auto simp: transp_def intro: less_trans)
  then have "sorted_wrt (\<lambda>s t. okey s < okey t) ?all" using all_names_ok(1) by (simp add: successively_conv_sorted_wrt)
  then have "sorted_wrt (\<lambda>s t. okey s < okey t) (names_of (tl (irc_command want_cd winnt player)))"
    by (rule subseq_keeps(1) [OF names_subseq])
  moreover have "list_all canonical (names_of (tl (irc_command want_cd winnt player)))"
    using all_names_ok(2) subseq_keeps(2) [OF names_subseq [of want_cd winnt player]] by (auto simp: list_all_iff)
  moreover have "irc_command want_cd winnt player \<noteq> []" "cname (hd (irc_command want_cd winnt player)) = []"
    "names_of (tl (irc_command want_cd winnt player)) \<noteq> []"
    by (simp_all add: irc_command_def commands_A_to_CD_def row_def)
  ultimately show ?thesis by (simp add: searchable_def table_ok_def)
qed

theorem find_command_meets_spec_witness:
  "find_command (irc_command False False False) ''FOR'' =
    (case commands_with ''FOR'' (irc_command False False False) of
       [] \<Rightarrow> Some (0, None)
     | c # cs \<Rightarrow> Some ((if ''FOR'' \<in> cname ` set (irc_command False False False) then - 1 else 1) * int (length (c # cs)), Some c))"
  by (rule find_command_meets_spec [OF irc_command_searchable]) (simp add: canonical_def plain_char_def)

end
