(* ===== verification/ScriptFlow.thy ===== *)
theory ScriptFlow
  imports ScriptLines CommandTable
begin

section \<open>Loops and exceptions of scripts\<close>

text \<open>
  \<open>BREAK\<close>, \<open>CONTINUE\<close> and \<open>RETURN\<close> are heard where counters say that they will be caught. All
  commands but \<open>DO\<close> leave these counters as they were, and \<open>DO\<close> the sum of two of them. The loops are
  then compared with what they mean.
\<close>

subsection \<open>What an expansion leaves alone\<close>

text \<open>An observation \<open>pr\<close> of the client that nothing an expansion calls changes.\<close>

definition texts_keep :: "('w \<Rightarrow> 'c) \<Rightarrow> 'w exp_env \<Rightarrow> bool" where
  "texts_keep pr E \<longleftrightarrow>
     (\<forall>nm a st v st'. call_function E nm a st = Inr (v, st') \<longrightarrow> pr (snd st') = pr (snd st)) \<and>
     (\<forall>nm a st v st'. get_variable_with_args E nm a st = Inr (v, st') \<longrightarrow> pr (snd st') = pr (snd st)) \<and>
     (\<forall>nm a st v st'. parse_inline E nm a st = Inr (v, st') \<longrightarrow> pr (snd st') = pr (snd st)) \<and>
     (\<forall>b nm w. pr (snd (history_line E nm w)) = pr w \<and> pr (snd (input_prompt E b nm w)) = pr w)"

lemma texts_keepD:
  assumes "texts_keep pr E"
  shows "call_function E nm a st = Inr (v, st') \<Longrightarrow> pr (snd st') = pr (snd st)"
    "get_variable_with_args E nm a st = Inr (v, st') \<Longrightarrow> pr (snd st') = pr (snd st)"
    "parse_inline E nm a st = Inr (v, st') \<Longrightarrow> pr (snd st') = pr (snd st)"
    "history_line E nm w = (v, w') \<Longrightarrow> pr w' = pr w"
    "input_prompt E b nm w = (t, w') \<Longrightarrow> pr w' = pr w"
  using assms unfolding texts_keep_def by (metis snd_conv)+

lemma emit_state: "emit E add len q pad rest st = Inr (t, r, st') \<Longrightarrow> st' = st"
  by (simp add: emit_def bnd_Inr_iff)

lemma raised_state [simp]: "snd (raised st) = snd st"
  by (simp add: raised_def)

lemma simple_special_keeps:
  "texts_keep pr E \<Longrightarrow> simple_special E args q len pad p st = Inr (t, r, st') \<Longrightarrow> pr (snd st') = pr (snd st)"
  by (auto simp: simple_special_def expand_name_def Let_def bnd_Inr_iff split: if_splits prod.splits option.splits
      dest!: emit_state dest: texts_keepD)

lemma exp_loop_keeps:
  assumes "\<And>q p st t r st'. special q p st = Inr (t, r, st') \<Longrightarrow> pr (snd st') = pr (snd st)"
  shows "exp_loop special n sep at buf chunk is_quote p st = Inr (t, r, st') \<Longrightarrow> pr (snd st') = pr (snd st)"
proof (induction n arbitrary: sep at buf chunk is_quote p st)
  case (Suc n)
  show ?case
    using Suc.prems
    by (auto simp: exp_loop.simps(2) Let_def bnd_Inr_iff split: if_splits prod.splits option.splits
        dest!: Suc.IH assms)
qed simp

lemma expand_with_keeps:
  assumes "\<And>q p st t r st'. special q p st = Inr (t, r, st') \<Longrightarrow> pr (snd st') = pr (snd st)"
    "expand_with special n sep s st = Inr (t, r, st')"
  shows "pr (snd st') = pr (snd st)"
  using assms(2) exp_loop_keeps [where special = special and pr = pr, OF assms(1)]
  by (auto simp: expand_with_def Let_def split: if_splits)

lemma dereference_keeps:
  assumes "\<And>s st t r st'. ex s st = Inr (t, r, st') \<Longrightarrow> pr (snd st') = pr (snd st)"
  shows "dereference ex n s st = Inr (t, st') \<Longrightarrow> pr (snd st') = pr (snd st)"
proof (induction n arbitrary: s st)
  case (Suc n)
  then show ?case by (auto simp: bnd_Inr_iff split: if_splits dest!: assms)
qed simp

lemma special_width_keeps:
  assumes "texts_keep pr E" "\<And>q p st t r st'. special q p st = Inr (t, r, st') \<Longrightarrow> pr (snd st') = pr (snd st)"
    "special_width E args special n q len pad p st = Inr (t, r, st')"
  shows "pr (snd st') = pr (snd st)"
proof -
  have ex: "expand_with special n False s st = Inr (t, r, st') \<Longrightarrow> pr (snd st') = pr (snd st)" for s st t r st'
    by (rule expand_with_keeps) (rule assms(2))
  have de: "dereference (expand_with special n False) n s st = Inr (t, st') \<Longrightarrow> pr (snd st') = pr (snd st)" for s st t st'
    by (rule dereference_keeps) (rule ex)
  show ?thesis
    using assms(3)
    by (auto simp: special_width_def Let_def bnd_Inr_iff split: if_splits prod.splits
        dest!: emit_state de assms(2) dest: simple_special_keeps [OF assms(1)])
qed

lemma alias_special_char_keeps:
  assumes "texts_keep pr E"
  shows "alias_special_char E args n q p st = Inr (t, r, st') \<Longrightarrow> pr (snd st') = pr (snd st)"
proof (induction n arbitrary: q p st t r st')
  case (Suc n)
  have ex: "expand_with (alias_special_char E args n) n False s st = Inr (t, r, st') \<Longrightarrow> pr (snd st') = pr (snd st)" for s st t r st'
    by (rule expand_with_keeps) (rule Suc.IH)
  have sw: "special_width E args (alias_special_char E args n) n q len pad s st = Inr (t, r, st') \<Longrightarrow> pr (snd st') = pr (snd st)"
    for len pad s st t r st'
    by (rule special_width_keeps [OF assms]) (rule Suc.IH)
  show ?case
    using Suc.prems by (auto simp: Let_def bnd_Inr_iff split: if_splits option.splits dest!: ex sw)
qed simp

lemma expand_alias_keeps:
  "texts_keep pr E \<Longrightarrow> Expand.expand_alias E args n sep s st = Inr (t, r, st') \<Longrightarrow> pr (snd st') = pr (snd st)"
  unfolding expand_alias_def by (rule expand_with_keeps) (rule alias_special_char_keeps)


subsection \<open>What will be caught\<close>

text \<open>
  The counters of \<open>BREAK\<close>, \<open>CONTINUE\<close> and \<open>RETURN\<close> and the depth of commands. \<open>DO\<close> counts
  \<open>RETURN\<close> up and \<open>CONTINUE\<close> down, so that where there is a \<open>DO\<close> (\<open>dos\<close>) only their sum is looked at.
\<close>

definition counters :: "bool \<Rightarrow> 'w script \<Rightarrow> int \<times> int \<times> int \<times> int" where
  "counters dos st =
     (will_catch_break_exceptions st, (if dos then 0 else will_catch_continue_exceptions st),
      will_catch_return_exceptions st + (if dos then will_catch_continue_exceptions st else 0), level st)"

lemma counters_fields [simp]:
  "counters dos (st\<lparr>break_exception := x\<rparr>) = counters dos st" "counters dos (st\<lparr>continue_exception := x\<rparr>) = counters dos st"
  "counters dos (st\<lparr>return_exception := x\<rparr>) = counters dos st" "counters dos (st\<lparr>window_display := x\<rparr>) = counters dos st"
  "counters dos (st\<lparr>call_stack := fs\<rparr>) = counters dos st" "counters dos (make_local_stack nm st) = counters dos st"
  by (simp_all add: counters_def make_local_stack_def)

lemma after_body_counters: "after_body st = (a, st') \<Longrightarrow> counters dos st' = counters dos st"
  by (auto simp: after_body_def split: if_splits)

lemma change_frame_counters [simp]: "counters dos (change_frame c f st) = counters dos st"
  by (simp add: change_frame_def counters_def)

lemma change_top_counters: "change_top f st = Some st' \<Longrightarrow> counters dos st' = counters dos st"
  by (auto simp: change_top_def split: if_splits)

lemma find_local_counters: "find_local_alias st nm = Some (c, st') \<Longrightarrow> counters dos st' = counters dos st"
  by (auto simp: find_local_alias_def split: if_splits option.splits frame_place.splits)

lemma add_local_counters: "add_local_alias nm s st = Some st' \<Longrightarrow> counters dos st' = counters dos st"
  by (auto simp: add_local_alias_def Let_def split: if_splits option.splits prod.splits
      dest!: find_local_counters [where dos = dos] change_top_counters [where dos = dos])

lemma bnd_InrE: "bnd m f = Inr y \<Longrightarrow> (\<And>x. m = Inr x \<Longrightarrow> f x = Inr y \<Longrightarrow> P) \<Longrightarrow> P"
  by (cases m) auto

lemma returns_Inr: "returns x = Inr y \<longleftrightarrow> x = Some y"
  by (cases x) (simp_all add: returns_def)

lemma pop_frame_counters: "pop_frame st = Inr st' \<Longrightarrow> counters dos st' = counters dos st"
  by (auto simp: pop_frame_def returns_Inr destroy_local_stack_def split: if_splits)

text \<open>
  What the model leaves to its client keeps them: the functions, variables and expressions of a text, the
  commands that are not in if.c, what is sent, and the history.
\<close>

definition others_keep :: "bool \<Rightarrow> ('w, 'd) script_env \<Rightarrow> bool" where
  "others_keep dos S \<longleftrightarrow>
     texts_keep (counters dos) (texts S) \<and>
     (\<forall>cmd b args sub st st'. call_handler S cmd b args sub st = Inr st' \<longrightarrow> counters dos st' = counters dos st) \<and>
     (\<forall>m st. counters dos (outgoing_text S m st) = counters dos st) \<and>
     (\<forall>s t st. counters dos (snd (recall S s t st)) = counters dos st) \<and>
     (\<forall>s st. counters dos (remember S s st) = counters dos st) \<and>
     (\<forall>s st. counters dos (set_input_line S s st) = counters dos st)"

definition safe_env :: "bool \<Rightarrow> ('w, 'd) script_env \<Rightarrow> bool" where
  "safe_env dos S \<longleftrightarrow> others_keep dos S \<and> command_table S \<noteq> [] \<and>
     (dos \<or> list_all (\<lambda>cmd. func cmd \<noteq> ''docmd'') (command_table S))"

definition line_safe :: "bool \<Rightarrow> 'w run_line \<Rightarrow> bool" where
  "line_safe dos pl \<longleftrightarrow> (\<forall>nm l a h ap hl st st'. pl nm l a h ap hl st = Inr st' \<longrightarrow> counters dos st' = counters dos st)"

definition command_safe :: "bool \<Rightarrow> 'w run_command \<Rightarrow> bool" where
  "command_safe dos pc \<longleftrightarrow> (\<forall>c h a st st'. pc c h a st = Inr st' \<longrightarrow> counters dos st' = counters dos st)"

lemma line_safeD: "pl nm l a h ap hl st = Inr st' \<Longrightarrow> line_safe dos pl \<Longrightarrow> counters dos st' = counters dos st"
  by (auto simp: line_safe_def)

lemma command_safeD: "pc c h a st = Inr st' \<Longrightarrow> command_safe dos pc \<Longrightarrow> counters dos st' = counters dos st"
  by (auto simp: command_safe_def)

lemma evaluate_counters: "safe_env dos S \<Longrightarrow> evaluate S e args st = Inr (v, st') \<Longrightarrow> counters dos st' = counters dos st"
  by (auto simp: evaluate_def safe_env_def others_keep_def bnd_Inr_iff dest: texts_keepD(3))

lemma expanded_counters: "safe_env dos S \<Longrightarrow> expanded S n args s st = Inr (t, st') \<Longrightarrow> counters dos st' = counters dos st"
  by (auto simp: expanded_def bnd_Inr_iff safe_env_def others_keep_def dest!: expand_alias_keeps)

subsection \<open>Control flow and the counters\<close>

lemmas in_premises = prod.split_asm if_split_asm option.split_asm list.split_asm sum.split_asm

lemma run_opt_counters:
  assumes "line_safe dos pl"
  shows "run_opt pl c sub st = Inr st' \<Longrightarrow> counters dos st' = counters dos st"
  by (auto simp: run_opt_def split: in_premises dest: line_safeD [where pl = pl, OF _ assms])

lemma ifcmd_counters:
  assumes "safe_env dos S" "line_safe dos pl"
  shows "ifcmd S pl n u args sub st = Inr st' \<Longrightarrow> counters dos st' = counters dos st"
proof (induction n arbitrary: u args st)
  case (Suc n)
  show ?case
    using Suc.prems
    by (auto split: in_premises
        elim!: bnd_InrE dest!: Suc.IH run_opt_counters [OF assms(2)] evaluate_counters [OF assms(1)])
qed simp

lemma while_loop_counters:
  assumes "safe_env dos S" "line_safe dos pl"
  shows "while_loop S pl n w e body sub st = Inr st' \<Longrightarrow> counters dos st' = counters dos st"
proof (induction n arbitrary: w st)
  case (Suc n)
  show ?case
    using Suc.prems
    by (auto split: in_premises
        elim!: bnd_InrE dest!: Suc.IH line_safeD [where pl = pl, OF _ assms(2)] after_body_counters [where dos = dos] evaluate_counters [OF assms(1)])
qed simp

lemma catch_counters:
  "counters dos (catch_break d st) = (case counters dos st of (b, c, r, l) \<Rightarrow> (b + d, c, r, l))"
  "counters dos (catch_continue d st) = (case counters dos st of (b, c, r, l) \<Rightarrow> if dos then (b, c, r + d, l) else (b, c + d, r, l))"
  "counters dos (catch_return d st) = (case counters dos st of (b, c, r, l) \<Rightarrow> (b, c, r + d, l))"
  by (simp_all add: counters_def catch_break_def catch_continue_def catch_return_def)

lemma whilecmd_counters:
  assumes "safe_env dos S" "line_safe dos pl" "whilecmd S pl n c args sub st = Inr st'"
  shows "counters dos st' = counters dos st"
  using assms(3)
  by (auto simp: whilecmd_def Let_def catch_counters split: in_premises
      elim!: bnd_InrE dest!: while_loop_counters [OF assms(1,2)] pop_frame_counters [where dos = dos])

lemma foreach_loop_counters:
  assumes "line_safe dos pl"
  shows "foreach_loop pl var body sub ws st = Inr st' \<Longrightarrow> counters dos st' = counters dos st"
proof (induction ws arbitrary: st)
  case (Cons w ws)
  show ?case
    using Cons.prems
    by (auto simp: returns_Inr elim!: bnd_InrE dest!: Cons.IH line_safeD [where pl = pl, OF _ assms] add_local_counters [where dos = dos])
qed simp

lemma remove_brackets_counters:
  assumes "\<And>t st u st'. ex t st = Inr (u, st') \<Longrightarrow> counters dos st' = counters dos st"
  shows "remove_brackets ex n s st = Inr (t, st') \<Longrightarrow> counters dos st' = counters dos st"
proof (induction n arbitrary: s st)
  case (Suc n)
  then show ?case by (auto simp: Let_def split: in_premises elim!: bnd_InrE dest!: assms)
qed simp

lemma foreach_counters:
  assumes "safe_env dos S" "line_safe dos pl" "foreach S pl n args subargs st = Inr st'"
  shows "counters dos st' = counters dos st"
proof -
  have rb: "remove_brackets (\<lambda>t st. Inr (t, st)) n w st = Inr (t, st1) \<Longrightarrow> counters dos st1 = counters dos st"
    "remove_brackets (expanded S n (Some a)) n w st = Inr (t, st1) \<Longrightarrow> counters dos st1 = counters dos st" for a w t st1
    by (rule remove_brackets_counters; auto dest: expanded_counters [OF assms(1)])+
  show ?thesis
    using assms(3)
    by (auto simp: foreach_def Let_def simp del: foreach_loop.simps split: in_premises
        elim!: bnd_InrE dest!: rb pop_frame_counters [where dos = dos] foreach_loop_counters [OF assms(2)])
qed

lemma fe_assign_counters: "fe_assign d b vs x t st = Inr (t', st') \<Longrightarrow> counters dos st' = counters dos st"
  by (induction vs arbitrary: x t st) (auto simp: returns_Inr Let_def split: in_premises elim!: bnd_InrE dest!: add_local_counters [where dos = dos])

lemma fe_loop_counters:
  assumes "line_safe dos pl"
  shows "fe_loop pl n d b vs todo sub x t st = Inr st' \<Longrightarrow> counters dos st' = counters dos st"
proof (induction n arbitrary: x t st)
  case (Suc n)
  show ?case
    using Suc.prems
    by (auto split: in_premises
        elim!: bnd_InrE dest!: Suc.IH line_safeD [where pl = pl, OF _ assms] after_body_counters [where dos = dos] fe_assign_counters [where dos = dos])
qed simp

lemma fe_counters:
  assumes "safe_env dos S" "line_safe dos pl" "fe S pl n c args subargs st = Inr st'"
  shows "counters dos st' = counters dos st"
  using assms(3)
  by (auto simp: fe_def Let_def catch_counters split: in_premises
      elim!: bnd_InrE dest!: fe_loop_counters [OF assms(2)] pop_frame_counters [where dos = dos] expanded_counters [OF assms(1)])

lemma for_loop_counters:
  assumes "safe_env dos S" "line_safe dos pl"
  shows "for_loop S pl n e i body sub st = Inr st' \<Longrightarrow> counters dos st' = counters dos st"
proof (induction n arbitrary: st)
  case (Suc n)
  show ?case
    using Suc.prems
    by (auto simp: Let_def split: in_premises
        elim!: bnd_InrE dest!: Suc.IH line_safeD [where pl = pl, OF _ assms(2)] evaluate_counters [OF assms(1)])
qed simp

lemma forcmd_counters:
  assumes "safe_env dos S" "line_safe dos pl" "forcmd S pl n args sub st = Inr st'"
  shows "counters dos st' = counters dos st"
  using assms(3)
  by (auto simp: forcmd_def catch_counters split: in_premises
      elim!: bnd_InrE dest!: for_loop_counters [OF assms(1,2)] pop_frame_counters [where dos = dos] line_safeD [where pl = pl, OF _ assms(2)])


lemma switch_labels_counters:
  assumes "safe_env dos S"
  shows "switch_labels S n subargs control has fd hk body st = Inr (r, st') \<Longrightarrow> counters dos st' = counters dos st"
proof (induction n arbitrary: has fd hk body st)
  case (Suc n)
  show ?case
    using Suc.prems
    by (auto split: in_premises elim!: bnd_InrE dest!: Suc.IH expanded_counters [OF assms])
qed simp

lemma switch_loop_counters:
  assumes "safe_env dos S" "line_safe dos pl"
  shows "switch_loop S pl n subargs control def fd body st = Inr (r, st') \<Longrightarrow> counters dos st' = counters dos st"
proof (induction n arbitrary: def fd body st)
  case (Suc n)
  show ?case
    using Suc.prems
    by (auto simp: Let_def split: in_premises elim!: bnd_InrE
        dest!: Suc.IH line_safeD [where pl = pl, OF _ assms(2)] switch_labels_counters [OF assms(1)])
qed simp

lemma switchcmd_counters:
  assumes "safe_env dos S" "line_safe dos pl" "switchcmd S pl n args subargs st = Inr st'"
  shows "counters dos st' = counters dos st"
  using assms(3)
  by (auto simp: switchcmd_def split: in_premises elim!: bnd_InrE
      dest!: switch_loop_counters [OF assms(1,2)] pop_frame_counters [where dos = dos] expanded_counters [OF assms(1)])

lemma repeat_loop_counters:
  assumes "line_safe dos pl"
  shows "repeat_loop pl k args sub st = Inr st' \<Longrightarrow> counters dos st' = counters dos st"
proof (induction k arbitrary: st)
  case (Suc k)
  show ?case using Suc.prems by (auto elim!: bnd_InrE dest!: Suc.IH line_safeD [where pl = pl, OF _ assms])
qed simp

lemma repeatcmd_counters:
  assumes "safe_env dos S" "line_safe dos pl" "repeatcmd S pl n args subargs st = Inr st'"
  shows "counters dos st' = counters dos st"
  using assms(3)
  by (auto simp: repeatcmd_def Let_def split: in_premises elim!: bnd_InrE
      dest!: repeat_loop_counters [OF assms(2)] expanded_counters [OF assms(1)] evaluate_counters [OF assms(1)])

lemma returncmd_counters: "returncmd args st = Inr st' \<Longrightarrow> counters dos st' = counters dos st"
  by (auto simp: returncmd_def returns_Inr split: in_premises elim!: bnd_InrE dest!: add_local_counters [where dos = dos])

lemma signal_counters: "counters dos (breakcmd st) = counters dos st" "counters dos (continuecmd st) = counters dos st"
  by (simp_all add: breakcmd_def continuecmd_def)

lemma do_loop_counters:
  assumes "safe_env dos S" "line_safe dos pl"
  shows "do_loop S pl n body e sub st = Inr st' \<Longrightarrow> counters dos st' = counters dos st"
proof (induction n arbitrary: st)
  case (Suc n)
  show ?case
    using Suc.prems
    by (auto split: in_premises elim!: bnd_InrE
        dest!: Suc.IH line_safeD [where pl = pl, OF _ assms(2)] evaluate_counters [OF assms(1)])
qed simp

lemma docmd_counters:
  assumes "safe_env True S" "line_safe True pl" "docmd S pl n args sub st = Inr st'"
  shows "counters True st' = counters True st"
  using assms(3)
  by (auto simp: docmd_def Let_def catch_counters split: in_premises elim!: bnd_InrE
      dest!: do_loop_counters [OF assms(1,2)] line_safeD [where pl = pl, OF _ assms(2)])

lemma call_command_counters:
  assumes "safe_env dos S" "line_safe dos pl" "dos \<or> func cmd \<noteq> ''docmd''" "call_command S pl n cmd args subargs st = Inr st'"
  shows "counters dos st' = counters dos st"
proof -
  have "dos \<Longrightarrow> docmd S pl n args (or_nothing subargs) st = Inr st' \<Longrightarrow> counters dos st' = counters dos st"
    using docmd_counters assms(1,2) by auto
  then show ?thesis
    using assms(3,4) assms(1) [unfolded safe_env_def others_keep_def]
    by (auto simp: call_command_def evalcmd_def Let_def signal_counters split: in_premises
        dest: ifcmd_counters [OF assms(1,2)] whilecmd_counters [OF assms(1,2)] foreach_counters [OF assms(1,2)]
          fe_counters [OF assms(1,2)] forcmd_counters [OF assms(1,2)] switchcmd_counters [OF assms(1,2)]
          repeatcmd_counters [OF assms(1,2)] returncmd_counters [where dos = dos] line_safeD [where pl = pl, OF _ assms(2)])
qed

lemma run_catching_counters:
  assumes "line_safe dos pl" "run_catching_return pl nm what args hl st = Inr st'"
  shows "counters dos st' = counters dos st"
  using assms(2)
  by (auto simp: run_catching_return_def catch_counters split: in_premises elim!: bnd_InrE
      dest!: line_safeD [where pl = pl, OF _ assms(1)])

lemma assign_arguments_counters:
  assumes "texts_keep (counters dos) E"
  shows "assign_arguments E n al vs ds stuff v = Inr (s, v') \<Longrightarrow> counters dos v' = counters dos v"
proof (induction vs arbitrary: ds stuff v)
  case (Cons x vs)
  show ?case
  proof (cases x; cases ds)
    fix nm d ds'
    assume x: "x = Some nm" and ds: "ds = d # ds'"
    obtain next_val stuff' where nv: "(if no_arguments_left al vs then (Some stuff, []) else next_arg stuff) = (next_val, stuff')"
      by fastforce
    from Cons.prems show ?thesis
      unfolding x ds assign_arguments.simps(1) nv Let_def prod.case
      by (auto split: in_premises elim!: bnd_InrE
          dest!: expand_alias_keeps [OF assms] Cons.IH add_local_counters [where dos = dos])
  qed (use Cons.prems in auto)
qed simp

lemma call_user_alias_counters:
  assumes "safe_env dos S" "line_safe dos pl" "call_user_alias S pl n al args st = Inr st'"
  shows "counters dos st' = counters dos st"
proof -
  have "texts_keep (counters dos) (texts S)" using assms(1) by (simp add: safe_env_def others_keep_def)
  then show ?thesis
    using assms(3)
    by (auto simp: call_user_alias_def parse_line_alias_special_def prepare_alias_call_def Let_def returns_Inr
          destroy_local_stack_def split: in_premises elim!: bnd_InrE
        dest!: assign_arguments_counters run_catching_counters [OF assms(2)])
qed

subsection \<open>Commands, lines and the counters\<close>

lemma run_down_le: "run_down P p = Some k \<Longrightarrow> k \<le> p"
  by (induction p) (auto split: option.splits if_splits)

lemma fixed_loop_hit: "fixed_loop old cmp lo hi = Some (True, p) \<Longrightarrow> cmp p = Some 0"
proof -
  have "fixed_loop old cmp lo hi = Some r \<Longrightarrow> fst r \<longrightarrow> cmp (snd r) = Some 0" for r
    by (rule fixed_loop.raw_induct [where P = "\<lambda>old cmp lo hi r. fst r \<longrightarrow> cmp (snd r) = Some 0", rotated])
      (auto simp: Let_def split: if_split_asm option.split_asm)
  then show "fixed_loop old cmp lo hi = Some (True, p) \<Longrightarrow> cmp p = Some 0" by fastforce
qed

lemma find_command_in_table:
  assumes "find_command table s = Some (k, Some cmd)" "table \<noteq> []"
  shows "cmd \<in> set table"
proof (cases "s = []")
  case False
  then obtain i c p where f: "find_fixed_array_item (List.map cname table) s = Some (Some i, c, p)" "cmd = table ! i"
    using assms(1) by (auto simp: find_command_def split: option.splits)
  then obtain q where "fixed_loop (- 1) (\<lambda>i. if i < length table then Some (strncmp s (List.map cname table ! i) (length s)) else None)
      0 (length table) = Some (True, q)" and q: "i \<le> q"
    by (auto simp: find_fixed_array_item_def Let_def split: option.splits prod.splits bool.splits dest: run_down_le)
  from fixed_loop_hit [OF this(1)] have "q < length table" by (simp split: if_splits)
  then show ?thesis using q f(2) by simp
qed (use assms in \<open>auto simp: find_command_def\<close>)


lemma run_built_in_counters:
  assumes "safe_env dos S" "line_safe dos pl" "run_built_in S pl n cline args al subargs st = Inr st'"
  shows "counters dos st' = counters dos st"
proof -
  have "dos \<or> func cmd \<noteq> ''docmd''" if "find_command (command_table S) cline = Some (k, Some cmd)" for k cmd
    using find_command_in_table [OF that] assms(1) by (auto simp: safe_env_def list_all_iff)
  then show ?thesis
    using assms(3) assms(1) [unfolded safe_env_def others_keep_def]
    by (auto simp: run_built_in_def Let_def split: in_premises
        dest!: call_command_counters [OF assms(1,2), rotated] run_catching_counters [OF assms(2)])
qed

lemma parse_recalled_counters:
  assumes "safe_env dos S" "command_safe dos again" "parse_recalled S again cline args subargs st = Inr st'"
  shows "counters dos st' = counters dos st"
proof -
  have "counters dos st1 = counters dos st" if "recall S (tl cline) args st = (v, st1)" for v st1
    using assms(1) that unfolding safe_env_def others_keep_def by (metis snd_conv)
  then show ?thesis
    using assms(3) assms(1) [unfolded safe_env_def others_keep_def]
    by (auto simp: parse_recalled_def split: in_premises dest!: command_safeD [where pc = again, OF _ assms(2)])
qed

lemma remembered_counters: "safe_env dos S \<Longrightarrow> counters dos (remembered S h c st) = counters dos st"
  by (simp add: remembered_def safe_env_def others_keep_def)

lemma run_named_counters:
  assumes "safe_env dos S" "line_safe dos pl" "command_safe dos again"
    "run_named S pl n again (remembered S h c) used line subargs st = Inr st'"
  shows "counters dos st' = counters dos st"
  using assms(4)
  by (auto simp: run_named_def Let_def remembered_counters [OF assms(1)] split: in_premises
      dest!: call_user_alias_counters [OF assms(1,2)] parse_recalled_counters [OF assms(1,3)] run_built_in_counters [OF assms(1,2)])

lemma end_parse_counters: "counters dos (end_parse S old st) = (case counters dos st of (b, c, r, l) \<Rightarrow> (b, c, r, l - 1))"
  by (simp add: end_parse_def counters_def)

lemma level_counters: "counters dos (st\<lparr>level := l\<rparr>) = (case counters dos st of (b, c, r, _) \<Rightarrow> (b, c, r, l))"
  by (simp add: counters_def)

lemma level_of_counters: "level st = snd (snd (snd (counters dos st)))"
  by (simp add: counters_def)

lemma parse_command_with_counters:
  assumes "safe_env dos S" "line_safe dos pl"
  shows "command_safe dos (parse_command_with S pl n m)"
proof (induction m)
  case 0
  then show ?case by (simp add: command_safe_def)
next
  case (Suc m)
  have out: "counters dos (outgoing_text S o' st) = counters dos st" for o' st
    using assms(1) by (simp add: safe_env_def others_keep_def)
  have "counters dos st' = counters dos st" if "parse_command_with S pl n (Suc m) c h a st = Inr st'" for c h a st st'
    using that
    by (cases "counters dos st")
      (auto simp: Let_def remembered_counters [OF assms(1)] out end_parse_counters level_counters level_of_counters [where dos = dos]
        split: in_premises elim!: bnd_InrE dest!: run_named_counters [OF assms Suc] evaluate_counters [OF assms(1)])
  then show ?case by (simp add: command_safe_def)
qed

lemma brace_blocks_counters:
  assumes "line_safe dos pl"
  shows "brace_blocks pl n nm args h ap hl line st = Inr (r, st') \<Longrightarrow> counters dos st' = counters dos st"
proof (induction n arbitrary: line st)
  case (Suc n)
  show ?case
    using Suc.prems
    by (auto split: in_premises elim!: bnd_InrE dest!: Suc.IH line_safeD [where pl = pl, OF _ assms])
qed simp

lemma line_loop_counters:
  assumes "safe_env dos S" "line_safe dos pl" "command_safe dos pc"
  shows "line_loop S pl pc n nm args h ap hl f line st = Inr (r, st') \<Longrightarrow> counters dos st' = counters dos st"
proof (induction n arbitrary: f line st)
  case (Suc n)
  have keep: "texts_keep (counters dos) (texts S)" using assms(1) by (simp add: safe_env_def others_keep_def)
  show ?case
    using Suc.prems
    by (auto split: in_premises elim!: bnd_InrE
        dest!: Suc.IH brace_blocks_counters [OF assms(2)] pop_frame_counters [where dos = dos] command_safeD [where pc = pc, OF _ assms(3)]
          expand_alias_keeps [OF keep])
qed simp

lemma raw_lines_counters:
  assumes "command_safe dos pc"
  shows "raw_lines pc h line st = Inr st' \<Longrightarrow> counters dos st' = counters dos st"
proof (induction "length line" arbitrary: line st rule: less_induct)
  case less
  define rest where "rest = dropWhile (\<lambda>c. \<not> (c = CHR 0x0D \<or> c = CHR 0x0A)) line"
  have eq: "raw_lines pc h line st = bnd (pc (takeWhile (\<lambda>c. \<not> (c = CHR 0x0D \<or> c = CHR 0x0A)) line) h None st)
      (\<lambda>st1. if caught st1 \<or> rest = [] then Inr st1 else raw_lines pc h (tl rest) st1)"
    unfolding rest_def by (rule raw_lines.simps [unfolded Let_def])
  from less.prems [unfolded eq] obtain st1 where pc: "pc (takeWhile (\<lambda>c. \<not> (c = CHR 0x0D \<or> c = CHR 0x0A)) line) h None st = Inr st1"
    and go: "(if caught st1 \<or> rest = [] then Inr st1 else raw_lines pc h (tl rest) st1) = Inr st'"
    by (rule bnd_InrE)
  have "rest \<noteq> [] \<Longrightarrow> length (tl rest) < length line"
    using length_dropWhile_le [of "\<lambda>c. \<not> (c = CHR 0x0D \<or> c = CHR 0x0A)" line] unfolding rest_def [symmetric]
    by (cases rest) simp_all
  then show ?case
    using go less.hyps [of "tl rest" st1] command_safeD [OF pc assms] by (auto split: if_splits)
qed

lemma line_body_counters:
  assumes "safe_env dos S" "line_safe dos pl" "command_safe dos pc"
  shows "line_safe dos (line_body S pl pc n)"
proof -
  have out: "counters dos (outgoing_text S o' st) = counters dos st" for o' st
    using assms(1) by (simp add: safe_env_def others_keep_def)
  show ?thesis
    unfolding line_safe_def line_body_def
    by (auto simp: Let_def out split: in_premises elim!: bnd_InrE
        dest!: line_loop_counters [OF assms] raw_lines_counters [OF assms(3)] pop_frame_counters [where dos = dos]
          command_safeD [where pc = pc, OF _ assms(3)])
qed

lemma parse_line_safe: "safe_env dos S \<Longrightarrow> line_safe dos (parse_line S n)"
proof (induction n)
  case 0
  then show ?case by (simp add: line_safe_def)
next
  case (Suc n)
  then have l: "line_safe dos (parse_line S n)" by simp
  have "parse_line S (Suc n) = line_body S (parse_line S n) (parse_command_with S (parse_line S n) n n) n"
    by (intro ext) simp
  then show ?case
    using line_body_counters [OF Suc.prems l parse_command_with_counters [OF Suc.prems l]] by simp
qed

text \<open>
  C15: Every line of a script, whatever it does and whatever is raised in it, also on the error paths of the
  control commands, leaves the counter of \<open>BREAK\<close>, the depth of commands, and the sum of the counters of
  \<open>CONTINUE\<close> and \<open>RETURN\<close> as they were, with any table of commands, also TekNap's; with a table that
  has no \<open>DO\<close> also each of these two. The line returns, and what the model leaves to its client is
  taken to keep the same (\<open>others_keep\<close>): functions and variables in a text, expressions, the commands
  outside of if.c, which may run lines of their own, sending, and the history.
\<close>

theorem lines_keep_counters:
  assumes "others_keep dos S" "command_table S \<noteq> []"
    "dos \<or> list_all (\<lambda>cmd. func cmd \<noteq> ''docmd'') (command_table S)"
    "parse_line S n nm line args hist_flag append_flag handle_local st = Inr st'"
  shows "counters dos st' = counters dos st"
  using line_safeD [OF assms(4) parse_line_safe] assms(1-3) by (simp add: safe_env_def)


subsection \<open>DO\<close>

lemma next_arg_while: "next_arg (''while ('' @ s) = (Some ''while'', CHR ''('' # s)"
  by (simp add: next_arg_def sindex_def)

lemma docmd_text:
  assumes "in_braces b" "in_parens e"
  shows "docmd S pl n (CHR 0x7B # b @ CHR 0x7D # '' while ('' @ e @ '')'') sub st =
    bnd (do_loop S pl n (trimmed b) (trimmed e) sub (catch_return 1 (catch_break 1 st)))
      (\<lambda>st1. Inr (catch_continue (- 1) (catch_break (- 1) st1)))"
proof -
  have "my_next_expr (Some (CHR 0x7B # b @ CHR 0x7D # '' while ('' @ e @ '')'')) CHR 0x7B = Some (trimmed b, ''while ('' @ e @ '')'')"
    using my_next_expr_enclosed(2) [OF assms(1), of "'' while ('' @ e @ '')''"] by (simp add: my_isspace_def)
  moreover have "my_next_expr (Some (CHR ''('' # e @ '')'')) (CHR ''('') = Some (trimmed e, [])"
    using my_next_expr_enclosed(1) [OF assms(2), of "[]"] by simp
  moreover have "my_stricmp ''while'' ''while'' = 0" by code_simp
  ultimately show ?thesis using next_arg_while [of "e @ '')''"] by (simp add: docmd_def)
qed

text \<open>
  A \<open>DO\<close> loop with a condition counts \<open>RETURN\<close> up and \<open>CONTINUE\<close> down for good: after one such loop at
  the top level \<open>CONTINUE\<close> is not heard in the next loop.
\<close>

theorem do_disables_continue:
  assumes "safe_env False S" "in_braces b" "in_parens e" "will_catch_continue_exceptions st = 0"
    "docmd S (parse_line S m) n (CHR 0x7B # b @ CHR 0x7D # '' while ('' @ e @ '')'') sub st = Inr st'"
  shows "will_catch_return_exceptions st' = will_catch_return_exceptions st + 1 \<and>
    will_catch_continue_exceptions st' = - 1 \<and> continuecmd (catch_continue 1 st') = catch_continue 1 st'"
proof -
  obtain st1 where l: "do_loop S (parse_line S m) n (trimmed b) (trimmed e) sub (catch_return 1 (catch_break 1 st)) = Inr st1"
    and st': "st' = catch_continue (- 1) (catch_break (- 1) st1)"
    using assms(5) unfolding docmd_text [OF assms(2,3)] by (auto elim!: bnd_InrE)
  have "counters False st1 = counters False (catch_return 1 (catch_break 1 st))"
    using do_loop_counters [OF assms(1) parse_line_safe [OF assms(1)] l] .
  then show ?thesis
    using assms(4) by (simp add: st' continuecmd_def counters_def catch_break_def catch_continue_def catch_return_def)
qed

subsection \<open>WHILE\<close>

lemma while_loop_ends:
  assumes step: "\<And>s. I s \<Longrightarrow> \<exists>v s1. evaluate S e (Some sub) s = Inr (v, s1) \<and>
      (if is_true S v
       then \<exists>s2 a s3. pl None body (Some sub) False False False s1 = Inr s2 \<and> after_body s2 = (a, s3) \<and>
         (if a = Broken \<or> a = Returned then Q s3 else I s3 \<and> m s3 < (m s :: nat))
       else Q s1)"
  shows "I s \<Longrightarrow> m s < n \<Longrightarrow> \<exists>s'. while_loop S pl n True e body sub s = Inr s' \<and> Q s'"
proof (induction n arbitrary: s)
  case (Suc n)
  obtain v s1 where v: "evaluate S e (Some sub) s = Inr (v, s1)"
      and step: "if is_true S v
       then \<exists>s2 a s3. pl None body (Some sub) False False False s1 = Inr s2 \<and> after_body s2 = (a, s3) \<and>
         (if a = Broken \<or> a = Returned then Q s3 else I s3 \<and> m s3 < m s)
       else Q s1"
    using step [OF Suc.prems(1)] by blast
  show ?case
  proof (cases "is_true S v")
    case True
    then obtain s2 a s3 where b: "pl None body (Some sub) False False False s1 = Inr s2" "after_body s2 = (a, s3)"
        "if a = Broken \<or> a = Returned then Q s3 else I s3 \<and> m s3 < m s"
      using step by auto
    show ?thesis
    proof (cases "a = Broken \<or> a = Returned")
      case False
      then have "\<exists>s'. while_loop S pl n True e body sub s3 = Inr s' \<and> Q s'" using b(3) Suc.prems(2) by (intro Suc.IH) auto
      then show ?thesis using True False v b by simp
    qed (use True v b in auto)
  next
    case False
    then show ?thesis using step v by simp
  qed
qed simp

text \<open>
  Inside of the loop of a \<open>WHILE\<close> that began in \<open>st\<close>: its own frame on top of those that were there, by
  name and parent, and one more \<open>BREAK\<close> and \<open>CONTINUE\<close> to be caught.
\<close>

definition frames :: "'w script \<Rightarrow> (cstr \<times> int) list" where
  "frames st = List.map (\<lambda>f. (frame_name f, parent f)) (call_stack st)"

definition inside_while :: "'w script \<Rightarrow> 'w script \<Rightarrow> bool" where
  "inside_while st s \<longleftrightarrow>
     frames s = frames (make_local_stack None st) \<and>
     will_catch_break_exceptions s = will_catch_break_exceptions st + 1 \<and>
     will_catch_continue_exceptions s = will_catch_continue_exceptions st + 1"

lemma after_body_inside: "after_body s = (a, s') \<Longrightarrow> inside_while st s' = inside_while st s"
  by (auto simp: after_body_def inside_while_def frames_def split: if_splits)

lemma enter_while: "inside_while st (make_local_stack None (catch_continue 1 (catch_break 1 st)))"
  by (simp add: inside_while_def frames_def make_local_stack_def catch_continue_def catch_break_def)

lemma leave_while:
  assumes "inside_while st s"
  shows "\<exists>s'. pop_frame (catch_continue (- 1) (catch_break (- 1) s)) = Inr s' \<and>
    call_stack s' = butlast (call_stack s) \<and> frames s' = frames st \<and> client s' = client s \<and>
    will_catch_break_exceptions s' = will_catch_break_exceptions st \<and>
    will_catch_continue_exceptions s' = will_catch_continue_exceptions st \<and>
    will_catch_return_exceptions s' = will_catch_return_exceptions s"
proof -
  have f: "frames s = frames st @ [(frame_name f, parent f)]" if "call_stack (make_local_stack None st) = call_stack st @ [f]" for f
    using assms that by (simp add: inside_while_def frames_def)
  have "\<exists>f. call_stack (make_local_stack None st) = call_stack st @ [f]" by (simp add: make_local_stack_def)
  then obtain p where p: "frames s = frames st @ [p]" using f by blast
  then have "call_stack s \<noteq> []" by (auto simp: frames_def)
  moreover have "List.map (\<lambda>f. (frame_name f, parent f)) (butlast (call_stack s)) = frames st"
    using p by (simp add: frames_def map_butlast)
  ultimately show ?thesis
    using assms
    by (simp add: pop_frame_def destroy_local_stack_def returns_def catch_continue_def catch_break_def inside_while_def frames_def)
qed

text \<open>
  C16: The rule of total correctness for \<open>WHILE\<close> with its condition in parentheses and its body in braces.
  Given an invariant \<open>I\<close>, a variant \<open>m\<close> that every round makes smaller, and a condition and a body that
  return, the command returns; what is left at the end of the loop (\<open>Q\<close>) holds of a state in which \<open>WHILE\<close>'s own frame
  is on top of the frames that were there, that frame is taken off, and \<open>BREAK\<close> and \<open>CONTINUE\<close> will be
  caught as often as before. The evaluation of the condition and the body have to leave the frames, by name and
  parent, and these two counters as they found them; a body that ends in a brace without its match
  (\<open>open_brace_pops_callers_frame\<close>) and one that runs \<open>DO\<close> (\<open>do_disables_continue\<close>) do not.
\<close>

theorem while_totally_correct:
  assumes "in_parens e" "in_braces b" "I (make_local_stack None (catch_continue 1 (catch_break 1 st)))"
    "m (make_local_stack None (catch_continue 1 (catch_break 1 st))) < (n :: nat)"
    "\<And>s. I s \<Longrightarrow> \<exists>v s1. evaluate S (trimmed e) (Some sub) s = Inr (v, s1) \<and>
      (if is_true S v
       then \<exists>s2 a s3. pl None (trimmed b) (Some sub) False False False s1 = Inr s2 \<and> after_body s2 = (a, s3) \<and>
         (if a = Broken \<or> a = Returned then Q s3 else I s3 \<and> m s3 < m s)
       else Q s1)"
    "\<And>s v s1. inside_while st s \<Longrightarrow> evaluate S (trimmed e) (Some sub) s = Inr (v, s1) \<Longrightarrow> inside_while st s1"
    "\<And>s s2. inside_while st s \<Longrightarrow> pl None (trimmed b) (Some sub) False False False s = Inr s2 \<Longrightarrow> inside_while st s2"
  shows "\<exists>s st'. whilecmd S pl n ''WHILE'' (CHR ''('' # e @ CHR '')'' # CHR '' '' # CHR 0x7B # b @ [CHR 0x7D]) sub st = Inr st' \<and>
    Q s \<and> inside_while st s \<and> call_stack st' = butlast (call_stack s) \<and> frames st' = frames st \<and> client st' = client s \<and>
    will_catch_break_exceptions st' = will_catch_break_exceptions st \<and>
    will_catch_continue_exceptions st' = will_catch_continue_exceptions st \<and>
    will_catch_return_exceptions st' = will_catch_return_exceptions s"
proof -
  let ?s0 = "make_local_stack None (catch_continue 1 (catch_break 1 st))"
  have "\<exists>s'. while_loop S pl n True (trimmed e) (trimmed b) sub ?s0 = Inr s' \<and> Q s' \<and> inside_while st s'"
  proof (rule while_loop_ends [where I = "\<lambda>s. I s \<and> inside_while st s" and m = m])
    fix s
    assume s: "I s \<and> inside_while st s"
    then obtain v s1 where v: "evaluate S (trimmed e) (Some sub) s = Inr (v, s1)"
        and step: "if is_true S v
          then \<exists>s2 a s3. pl None (trimmed b) (Some sub) False False False s1 = Inr s2 \<and> after_body s2 = (a, s3) \<and>
            (if a = Broken \<or> a = Returned then Q s3 else I s3 \<and> m s3 < m s)
          else Q s1"
      using assms(5) [of s] by auto
    have 1: "inside_while st s1" using assms(6) s v by blast
    have "if is_true S v
      then \<exists>s2 a s3. pl None (trimmed b) (Some sub) False False False s1 = Inr s2 \<and> after_body s2 = (a, s3) \<and>
        (if a = Broken \<or> a = Returned then Q s3 \<and> inside_while st s3 else (I s3 \<and> inside_while st s3) \<and> m s3 < m s)
      else Q s1 \<and> inside_while st s1"
    proof (cases "is_true S v")
      case True
      then obtain s2 a s3 where r: "pl None (trimmed b) (Some sub) False False False s1 = Inr s2" "after_body s2 = (a, s3)"
          "if a = Broken \<or> a = Returned then Q s3 else I s3 \<and> m s3 < m s"
        using step by auto
      moreover have "inside_while st s3" using assms(7) [OF 1 r(1)] after_body_inside [OF r(2)] by blast
      ultimately show ?thesis using True by auto
    qed (use step 1 in auto)
    with v show "\<exists>v s1. evaluate S (trimmed e) (Some sub) s = Inr (v, s1) \<and>
      (if is_true S v
       then \<exists>s2 a s3. pl None (trimmed b) (Some sub) False False False s1 = Inr s2 \<and> after_body s2 = (a, s3) \<and>
         (if a = Broken \<or> a = Returned then Q s3 \<and> inside_while st s3 else (I s3 \<and> inside_while st s3) \<and> m s3 < m s)
       else Q s1 \<and> inside_while st s1)" by blast
  qed (use assms(3,4) enter_while in auto)
  then obtain s where s: "while_loop S pl n True (trimmed e) (trimmed b) sub ?s0 = Inr s" "Q s" "inside_while st s" by blast
  have "my_next_expr (Some (CHR ''('' # e @ CHR '')'' # CHR '' '' # CHR 0x7B # b @ [CHR 0x7D])) (CHR ''('') =
      Some (trimmed e, CHR 0x7B # b @ [CHR 0x7D])"
    using my_next_expr_enclosed(1) [OF assms(1), of "CHR '' '' # CHR 0x7B # b @ [CHR 0x7D]"] by simp
  moreover have "my_next_expr (Some (CHR 0x7B # b @ [CHR 0x7D])) CHR 0x7B = Some (trimmed b, [])"
    using my_next_expr_enclosed(2) [OF assms(2), of "[]"] by simp
  ultimately have "whilecmd S pl n ''WHILE'' (CHR ''('' # e @ CHR '')'' # CHR '' '' # CHR 0x7B # b @ [CHR 0x7D]) sub st =
      pop_frame (catch_continue (- 1) (catch_break (- 1) s))"
    using s(1) by (simp add: whilecmd_def)
  then show ?thesis using leave_while [OF s(3)] s(2,3) by auto
qed


subsection \<open>FE\<close>

text \<open>The specification: the words in groups, one for each round, with empty texts after the last word.\<close>

fun assign_words :: "cstr list \<Rightarrow> cstr option list \<Rightarrow> 'w script \<Rightarrow> 'w script result" where
  "assign_words [] ws st = Inr st"
| "assign_words (v # vs) [] st = bnd (returns (add_local_alias v (Some []) st)) (assign_words vs [])"
| "assign_words (v # vs) (w # ws) st = bnd (returns (add_local_alias v w st)) (assign_words vs ws)"

function groups_of :: "nat \<Rightarrow> 'a list \<Rightarrow> 'a list list" where
  "groups_of k ws = (if ws = [] \<or> k = 0 then [] else take k ws # groups_of k (drop k ws))"
  by pat_completeness auto
termination by (relation "measure (\<lambda>(k, ws). length ws)") auto

declare groups_of.simps [simp del]

fun run_groups :: "'w run_line \<Rightarrow> cstr list \<Rightarrow> cstr \<Rightarrow> cstr \<Rightarrow> cstr option list list \<Rightarrow> 'w script \<Rightarrow> 'w script result" where
  "run_groups pl vars todo sub [] st = Inr st"
| "run_groups pl vars todo sub (g # gs) st =
     bnd (assign_words vars g st) (\<lambda>st1.
     bnd (pl None todo (Some sub) False False False st1) (\<lambda>st2.
       case after_body st2 of
         (a, st3) \<Rightarrow> if a = Broken \<or> a = Returned then Inr st3 else run_groups pl vars todo sub gs st3))"

lemma assign_words_take: "assign_words vs (take (length vs) ws) st = assign_words vs ws st"
proof (induction vs ws st rule: assign_words.induct)
  case (3 v vs w ws st)
  then show ?case by (cases "returns (add_local_alias v w st)") simp_all
qed simp_all

lemma splitw_loop_length: "length (fst (splitw_loop n t)) = n"
  by (induction n arbitrary: t) (simp_all add: case_prod_unfold Let_def)

lemma splitw_loop_add:
  "fst (splitw_loop (k + n) t) = fst (splitw_loop k t) @ fst (splitw_loop n (snd (splitw_loop k t)))"
  by (induction k arbitrary: t) (simp_all add: case_prod_unfold Let_def)

lemma fe_assign_words:
  "fe_assign True b vs x t (st :: 'w script) = bnd (assign_words vs (fst (splitw_loop (nat (b - x)) t)) st)
     (\<lambda>st1. Inr (snd (splitw_loop (min (length vs) (nat (b - x))) t), st1))"
proof (induction vs arbitrary: x t st)
  case (Cons v vs)
  show ?case
  proof (cases "b \<le> x")
    case True
    have "fe_assign True b vs (x + 1) t = (\<lambda>st :: 'w script. bnd (assign_words vs [] st) (\<lambda>st1. Inr (t, st1)))"
      using True Cons.IH [of "x + 1" t] by (intro ext) simp
    then show ?thesis using True by (simp add: bnd_assoc)
  next
    case False
    then obtain m where m: "nat (b - x) = Suc m" "nat (b - (x + 1)) = m" by (cases "nat (b - x)") auto
    obtain w r where w: "new_next_arg t = (w, r)" by fastforce
    have "fe_assign True b vs (x + 1) r = (\<lambda>st :: 'w script. bnd (assign_words vs (fst (splitw_loop m r)) st)
        (\<lambda>st1. Inr (snd (splitw_loop (min (length vs) m) r), st1)))"
      using m Cons.IH [of "x + 1" r] by (intro ext) simp
    then show ?thesis using False m w by (simp add: bnd_assoc case_prod_unfold Let_def)
  qed
qed simp

lemma fe_loop_groups:
  assumes "vars \<noteq> []"
  shows "nat (b - x) < n \<Longrightarrow> fe_loop pl n True b vars todo sub x t st =
    run_groups pl vars todo sub (groups_of (length vars) (fst (splitw_loop (nat (b - x)) t))) st"
proof (induction n arbitrary: x t st)
  case (Suc n)
  define k where "k = length vars"
  define c where "c = nat (b - x)"
  define ws where "ws = fst (splitw_loop c t)"
  have k: "0 < k" using assms by (simp add: k_def)
  have lw: "length ws = c" by (simp add: ws_def splitw_loop_length)
  show ?case
  proof (cases "b \<le> x")
    case True
    then show ?thesis by (simp add: groups_of.simps)
  next
    case False
    then have c: "0 < c" by (simp add: c_def)
    define t' where "t' = snd (splitw_loop (min k c) t)"
    have "ws = fst (splitw_loop (min k c + (c - min k c)) t)" by (simp add: ws_def)
    also have "\<dots> = fst (splitw_loop (min k c) t) @ fst (splitw_loop (c - min k c) t')"
      by (simp only: splitw_loop_add t'_def)
    finally have d: "drop k ws = fst (splitw_loop (c - k) t')"
      using splitw_loop_length [of "min k c" t] splitw_loop_length [of "c - k" t'] lw
      by (cases "k \<le> c") (simp_all add: min_def)
    have "ws \<noteq> []" using lw c by auto
    then have g: "groups_of k ws = take k ws # groups_of k (drop k ws)" using k by (simp add: groups_of.simps)
    have IH: "fe_loop pl n True b vars todo sub (x + int k) t' s = run_groups pl vars todo sub (groups_of k (drop k ws)) s" for s
    proof -
      have "nat (b - (x + int k)) = c - k" by (simp add: c_def)
      moreover have "c - k < n" using Suc.prems k c by (simp add: c_def)
      ultimately show ?thesis using Suc.IH [of "x + int k" t' s] d by (simp add: k_def)
    qed
    show ?thesis
      using False
      by (simp add: fe_assign_words bnd_assoc IH assign_words_take g
          flip: c_def k_def t'_def ws_def cong: if_cong prod.case_cong)
        (simp add: k_def assign_words_take)
  qed
qed simp

text \<open>
  C17: \<open>FE\<close> with at least one variable expands its list once, splits the result as \<open>splitw\<close> does, with
  quoted words and whatever spaces, gives each group of words to the variables and runs the body once for
  each group, up to a \<open>BREAK\<close> or \<open>RETURN\<close>. The list is in parentheses and its expansion is not empty. The
  comment at the code says that the list is expanded until it does not change, so that it can have no
  dollar; the code expands it once, and a dollar in the result stays in the words.
\<close>

theorem fe_visits_groups:
  assumes "in_parens list" "expanded S n (Some sub) (trimmed list) st = Inr (templist, st1)" "templist \<noteq> []"
    "fe_parts (dropWhile my_isspace a) = Some (vars, todo)" "vars \<noteq> []" "word_count templist < n"
  shows "fe S pl n ''FE'' (CHR ''('' # list @ CHR '')'' # a) (Some sub) st =
    bnd (run_groups pl vars todo sub (groups_of (length vars) (splitw templist))
          (make_local_stack None (catch_continue 1 (catch_break 1 st1)))) (\<lambda>st2.
    bnd (pop_frame st2) (\<lambda>st3. Inr (catch_continue (- 1) (catch_break (- 1) st3))))"
proof -
  have "my_stricmp ''FE'' ''FE'' = 0" by code_simp
  then show ?thesis
    using assms fe_loop_groups [OF assms(5), of "int (word_count templist)" 0 n pl todo sub templist]
    by (simp add: fe_def my_next_expr_enclosed or_nothing_def splitw_def)
qed

text \<open>
  When the brace follows the only variable of \<open>FE\<close> without a space, and its name has one letter,
  the name is overwritten; without variables the loop counts no words and never ends.
\<close>

theorem fe_without_space_hangs:
  assumes "in_parens list" "\<not> my_isspace c" "c \<noteq> CHR 0x7B"
    "\<And>m t s. expanded S m (Some sub) (trimmed list) st = Inr (t, s) \<Longrightarrow> 0 < word_count t"
    "\<And>s s'. pl None (trimmed body) (Some sub) False False False s = Inr s' \<Longrightarrow> break_exception s' = 0 \<and> return_exception s' = 0"
    "in_braces body"
  shows "fe S pl n ''FE'' (CHR ''('' # list @ CHR '')'' # CHR '' '' # c # CHR 0x7B # body @ [CHR 0x7D]) (Some sub) st \<noteq> Inr st'"
proof -
  have never: "fe_loop pl k True b [] (trimmed body) sub 0 t s \<noteq> Inr s'" if b: "0 < b" for k b t s s'
  proof (induction k arbitrary: s)
    case (Suc k)
    show ?case
    proof
      assume "fe_loop pl (Suc k) True b [] (trimmed body) sub 0 t s = Inr s'"
      then obtain s2 where s2: "pl None (trimmed body) (Some sub) False False False s = Inr s2"
        and r: "(case after_body s2 of (a, s3) \<Rightarrow>
          if a = Broken \<or> a = Returned then Inr s3 else fe_loop pl k True b [] (trimmed body) sub (0 + int (length ([] :: cstr list))) t s3) = Inr s'"
        using b by (auto elim!: bnd_InrE)
      then show False using assms(5) [OF s2] Suc by (auto simp: after_body_def split: if_splits)
    qed
  qed simp
  have parts: "fe_parts (c # CHR 0x7B # body @ [CHR 0x7D]) = Some ([], trimmed body)"
    using assms(3) my_next_expr_enclosed(2) [OF assms(6), of "[]"]
    by (simp add: fe_parts_def strchr_at_def before_def numeral_eq_Suc next_arg_def)
  have nx: "my_next_expr (Some (CHR ''('' # list @ CHR '')'' # CHR '' '' # c # CHR 0x7B # body @ [CHR 0x7D])) (CHR ''('') =
      Some (trimmed list, c # CHR 0x7B # body @ [CHR 0x7D])"
    using my_next_expr_enclosed(1) [OF assms(1), of "CHR '' '' # c # CHR 0x7B # body @ [CHR 0x7D]"] assms(2) by simp
  have fe: "my_stricmp ''FE'' ''FE'' = 0" by code_simp
  show ?thesis
  proof
    assume "fe S pl n ''FE'' (CHR ''('' # list @ CHR '')'' # CHR '' '' # c # CHR 0x7B # body @ [CHR 0x7D]) (Some sub) st = Inr st'"
    then obtain t s x u where e: "expanded S n (Some sub) (trimmed list) st = Inr (t, s)"
      and r: "t = [] \<or> fe_loop pl n True (int (word_count t)) [] (trimmed body) (or_nothing (Some sub)) 0 t u = Inr x"
      using nx parts fe by (auto simp: fe_def Let_def split: in_premises elim!: bnd_InrE)
    have "0 < word_count t" by (rule assms(4) [OF e])
    then show False using r never [of "int (word_count t)" n t u x] word_count_blank [of "[]"] by (auto simp: or_nothing_def)
  qed
qed


subsection \<open>Examples\<close>

declare fixed_loop.simps [code]

lemma sample_keeps: "others_keep dos (sample_shell\<lparr>command_table := t\<rparr>)" "others_keep dos sample_shell"
  by (simp_all add: others_keep_def sample_shell_def sample_texts_def texts_keep_def counters_def)

lemma sample_safe: "safe_env False sample_shell"
  using sample_keeps by (simp add: safe_env_def) (simp add: sample_shell_def)

text \<open>TekNap's own commands.\<close>

definition teknap_shell :: "(cstr list, int) script_env" where
  "teknap_shell = sample_shell\<lparr>command_table := irc_command False False False\<rparr>"

theorem lines_keep_counters_witness:
  "\<exists>st'. parse_line teknap_shell 60 None (''DO '' @ CHR 0x7B # ''ECHO a'' @ CHR 0x7D # '' while (0)'') (Some []) False False True sample_state = Inr st' \<and>
    client st' = [''a''] \<and> counters True st' = counters True sample_state"
proof -
  have "case parse_line teknap_shell 60 None (''DO '' @ CHR 0x7B # ''ECHO a'' @ CHR 0x7D # '' while (0)'') (Some []) False False True sample_state of
      Inl e \<Rightarrow> False | Inr st' \<Rightarrow> client st' = [''a'']"
    by code_simp
  then obtain st' where p: "parse_line teknap_shell 60 None (''DO '' @ CHR 0x7B # ''ECHO a'' @ CHR 0x7D # '' while (0)'') (Some []) False False True sample_state = Inr st'"
      "client st' = [''a'']"
    by (auto split: sum.splits)
  have "others_keep True teknap_shell" "command_table teknap_shell \<noteq> []"
    by (simp add: teknap_shell_def sample_keeps) (simp add: teknap_shell_def irc_command_def commands_to_MOTD_def)
  from lines_keep_counters [OF this _ p(1)] p show ?thesis by simp
qed

theorem do_disables_continue_witness:
  "\<exists>st'. docmd sample_shell (parse_line sample_shell 12) 3 (CHR 0x7B # ''ECHO a'' @ CHR 0x7D # '' while (0)'') [] sample_state = Inr st' \<and>
    will_catch_return_exceptions st' = 1 \<and> will_catch_continue_exceptions st' = - 1 \<and>
    continuecmd (catch_continue 1 st') = catch_continue 1 st'"
proof -
  have "case docmd sample_shell (parse_line sample_shell 12) 3 (CHR 0x7B # ''ECHO a'' @ CHR 0x7D # '' while (0)'') [] sample_state of
      Inl e \<Rightarrow> False | Inr st' \<Rightarrow> True"
    by code_simp
  then obtain st' where d: "docmd sample_shell (parse_line sample_shell 12) 3 (CHR 0x7B # ''ECHO a'' @ CHR 0x7D # '' while (0)'') [] sample_state = Inr st'"
    by (auto split: sum.splits)
  have "will_catch_return_exceptions st' = will_catch_return_exceptions sample_state + 1 \<and>
    will_catch_continue_exceptions st' = - 1 \<and> continuecmd (catch_continue 1 st') = catch_continue 1 st'"
    by (rule do_disables_continue [OF sample_safe, of "''ECHO a''" "''0''" sample_state 12 3 "[]" st'])
      (use d in \<open>simp_all add: enclosing_def sample_state_def\<close>)
  then show ?thesis using d by (simp add: sample_state_def)
qed

theorem while_totally_correct_witness:
  "\<exists>st'. whilecmd sample_shell noting 5 ''WHILE'' (CHR ''('' # ''more'' @ CHR '')'' # CHR '' '' # CHR 0x7B # ''x'' @ [CHR 0x7D]) [] sample_state =
      Inr st' \<and> 3 \<le> length (client st') \<and> frames st' = frames sample_state \<and> will_catch_break_exceptions st' = 0"
proof -
  have more: "trimmed ''more'' = ''more''" "texts sample_shell = sample_texts" by code_simp (simp add: sample_shell_def)
  have v: "v = Some (if length (client s) < 3 then ''1'' else ''0'') \<and> s1 = s"
    if "evaluate sample_shell (trimmed ''more'') (Some []) s = Inr (v, s1)" for v and s s1 :: "cstr list script"
    using that by (auto simp: more evaluate_def sample_texts_def)
  have t: "is_true sample_shell (Some ''1'')" "\<not> is_true sample_shell (Some ''0'')" by code_simp+
  have "\<exists>s st'. whilecmd sample_shell noting 5 ''WHILE'' (CHR ''('' # ''more'' @ CHR '')'' # CHR '' '' # CHR 0x7B # ''x'' @ [CHR 0x7D]) []
      sample_state = Inr st' \<and> 3 \<le> length (client s) \<and> inside_while sample_state s \<and> call_stack st' = butlast (call_stack s) \<and>
    frames st' = frames sample_state \<and> client st' = client s \<and>
    will_catch_break_exceptions st' = will_catch_break_exceptions sample_state \<and>
    will_catch_continue_exceptions st' = will_catch_continue_exceptions sample_state \<and>
    will_catch_return_exceptions st' = will_catch_return_exceptions s"
  proof (rule while_totally_correct [where m = "\<lambda>s. 3 - length (client s)"
        and I = "\<lambda>s. break_exception s = 0 \<and> continue_exception s = 0 \<and> return_exception s = 0"])
    fix s :: "cstr list script"
    assume i: "break_exception s = 0 \<and> continue_exception s = 0 \<and> return_exception s = 0"
    have "evaluate sample_shell (trimmed ''more'') (Some []) s = Inr (Some (if length (client s) < 3 then ''1'' else ''0''), s)"
      by (simp add: more evaluate_def sample_texts_def)
    then show "\<exists>v s1. evaluate sample_shell (trimmed ''more'') (Some []) s = Inr (v, s1) \<and>
      (if is_true sample_shell v
       then \<exists>s2 a s3. noting None (trimmed ''x'') (Some []) False False False s1 = Inr s2 \<and> after_body s2 = (a, s3) \<and>
         (if a = Broken \<or> a = Returned then 3 \<le> length (client s3)
          else (break_exception s3 = 0 \<and> continue_exception s3 = 0 \<and> return_exception s3 = 0) \<and>
            3 - length (client s3) < 3 - length (client s))
       else 3 \<le> length (client s1))"
      using t i by (auto simp: noting_def after_body_def)
  next
    fix s :: "cstr list script" and w s1
    assume "inside_while sample_state s" "evaluate sample_shell (trimmed ''more'') (Some []) s = Inr (w, s1)"
    then show "inside_while sample_state s1" using v by blast
  next
    fix s s2 :: "cstr list script"
    assume "inside_while sample_state s" "noting None (trimmed ''x'') (Some []) False False False s = Inr s2"
    then show "inside_while sample_state s2" by (auto simp: noting_def inside_while_def frames_def)
  qed (simp_all add: enclosing_def sample_state_def make_local_stack_def catch_break_def catch_continue_def)
  then show ?thesis by (auto simp: sample_state_def)
qed

lemma sample_list: "expanded sample_shell n (Some []) (trimmed ''a b c'') st \<in> {Inl OutOfFuel, Inr (''a b c'', st)}"
proof -
  have "trimmed ''a b c'' = ''a b c''" by code_simp
  moreover have "n = 0 \<or> n = 1 \<or> n = 2 \<or> n = 3 \<or> n = 4 \<or> n = 5 \<or> (\<exists>m. n = Suc (Suc (Suc (Suc (Suc (Suc m))))))"
    by (cases n; auto) presburger
  ultimately show ?thesis
    by (elim disjE exE; simp add: expanded_def expand_alias_def expand_with_def is_at_def exp_loop.simps(2) Let_def
        m_strcat_ues_def numeral_eq_Suc)
qed

theorem fe_visits_groups_witness:
  "fe sample_shell noting 9 ''FE'' (CHR ''('' # ''a b c'' @ CHR '')'' # '' x y '' @ CHR 0x7B # ''z'' @ [CHR 0x7D]) (Some []) sample_state =
    bnd (run_groups noting [''x'', ''y''] ''z'' [] (groups_of 2 [Some ''a'', Some ''b'', Some ''c''])
          (make_local_stack None (catch_continue 1 (catch_break 1 sample_state)))) (\<lambda>st2.
    bnd (pop_frame st2) (\<lambda>st3. Inr (catch_continue (- 1) (catch_break (- 1) st3))))"
proof -
  have "trimmed ''a b c'' = ''a b c''" by code_simp
  then have e: "expanded sample_shell 9 (Some []) (trimmed ''a b c'') sample_state = Inr (''a b c'', sample_state)"
    by (simp add: expanded_def expand_alias_def expand_with_def is_at_def exp_loop.simps(2) Let_def m_strcat_ues_def numeral_eq_Suc)
  have p: "fe_parts (dropWhile my_isspace ('' x y '' @ CHR 0x7B # ''z'' @ [CHR 0x7D])) = Some ([''x'', ''y''], ''z'')"
    "word_count ''a b c'' < 9" "splitw ''a b c'' = [Some ''a'', Some ''b'', Some ''c'']" "in_parens ''a b c''"
    by code_simp+
  show ?thesis
    using fe_visits_groups [OF p(4) e _ p(1) _ p(2), of noting] by (simp add: p(3) numeral_2_eq_2)
qed

text \<open>Lines that raise nothing.\<close>

definition quiet :: "cstr list run_line" where
  "quiet nm l a h ap hl st = Inr (st\<lparr>client := client st @ [l], break_exception := 0, return_exception := 0\<rparr>)"

theorem fe_without_space_hangs_witness:
  "fe sample_shell quiet 1000 ''FE'' (CHR ''('' # ''a b c'' @ CHR '')'' # CHR '' '' # CHR ''x'' # CHR 0x7B # ''z'' @ [CHR 0x7D])
    (Some []) (sample_state\<lparr>client := []\<rparr>) \<noteq> Inr sample_state"
proof (rule fe_without_space_hangs)
  show "in_parens ''a b c''" "in_braces ''z''" by code_simp+
  fix m t s
  assume "expanded sample_shell m (Some []) (trimmed ''a b c'') (sample_state\<lparr>client := []\<rparr>) = Inr (t, s)"
  then have "t = ''a b c''" using sample_list [of m "sample_state\<lparr>client := []\<rparr>"] by auto
  moreover have "0 < word_count ''a b c''" by code_simp
  ultimately show "0 < word_count t" by simp
next
  fix s s'
  assume "quiet None (trimmed ''z'') (Some []) False False False s = Inr s'"
  then show "break_exception s' = 0 \<and> return_exception s' = 0" by (auto simp: quiet_def)
qed (simp_all add: my_isspace_def)

end
