(* ===== verification/TextFuncs.thy ===== *)
theory TextFuncs
  imports WordExtract ExprLex
begin

section \<open>Built-in functions on texts (source/functions.c)\<close>

text \<open>
  The functions that a script calls as \<open>$name(input)\<close> and that only compute with the text of
  their arguments. Each gets \<open>input\<close> and returns a text; those that may not return, or that
  run into something C does not define, have a \<open>result\<close>. The macros that take an argument
  off \<open>input\<close> (include/alias.h) return the empty string from the function when there is none: here they
  are functions with an option, the remaining input being the second component.
\<close>

subsection \<open>Taking arguments\<close>

definition GET_STR_ARG :: "cstr \<Rightarrow> (cstr \<times> cstr) option" where
  "GET_STR_ARG y =
     (if empty (Some y) then None
      else case new_next_arg y of
        (None, rest) \<Rightarrow> None
      | (Some x, rest) \<Rightarrow> if empty (Some x) then None else Some (x, rest))"

definition atol :: "cstr \<Rightarrow> int" where
  "atol s = fst (strtol10 s)"

text \<open>\<open>GET_INT_ARG\<close> for a variable of type \<open>long\<close>, and for one of type \<open>int\<close>.\<close>

definition GET_LONG_ARG :: "cstr \<Rightarrow> (int \<times> cstr) option" where
  "GET_LONG_ARG y =
     (if empty (Some y) then None else case safe_new_next_arg y of (x, rest) \<Rightarrow> Some (atol x, rest))"

definition GET_INT_ARG :: "cstr \<Rightarrow> (int \<times> cstr) option" where
  "GET_INT_ARG y = map_option (\<lambda>(x, rest). (to_int32 x, rest)) (GET_LONG_ARG y)"

definition RETURN_MSTR :: "cstr option \<Rightarrow> cstr" where
  "RETURN_MSTR x = (case x of None \<Rightarrow> [] | Some t \<Rightarrow> t)"

lemma empty_iff: "empty (Some s) \<longleftrightarrow> list_all risspace s"
  by (simp add: empty_def risspace_def dropWhile_eq_Nil_conv list_all_iff)

lemma GET_STR_ARG_shorter: "GET_STR_ARG y = Some (x, rest) \<Longrightarrow> length rest < length y"
proof -
  assume g: "GET_STR_ARG y = Some (x, rest)"
  then have "dropWhile risspace y \<noteq> []"
    by (auto simp: GET_STR_ARG_def empty_iff list_all_iff dropWhile_eq_Nil_conv split: if_splits)
  from word_count_step [OF this] obtain w r where "new_next_arg y = (Some w, r)" "length r < length y" by blast
  then show ?thesis using g by (auto simp: GET_STR_ARG_def split: if_splits)
qed

subsection \<open>Searching for characters\<close>

text \<open>The position of a pointer into \<open>s\<close>, given as the suffix it points to.\<close>

definition offset :: "cstr \<Rightarrow> cstr option \<Rightarrow> int" where
  "offset s p = (case p of None \<Rightarrow> - 1 | Some t \<Rightarrow> int (length s) - int (length t))"

definition function_index :: "cstr \<Rightarrow> cstr" where
  "function_index input =
     (case GET_STR_ARG input of
        None \<Rightarrow> []
      | Some (schars, input) \<Rightarrow> ltoa (offset input (sindex input schars)))"

text \<open>Without a text the search starts before its beginning and finds nothing.\<close>

definition function_rindex :: "cstr \<Rightarrow> cstr" where
  "function_rindex input =
     (case GET_STR_ARG input of
        None \<Rightarrow> []
      | Some (chars, input) \<Rightarrow>
          (case (if input = [] then None else rsindex input (length input - 1) 0 chars 1) of
             None \<Rightarrow> ltoa (- 1)
           | Some p \<Rightarrow> ltoa (int p)))"

text \<open>Where the search of \<open>before\<close> and \<open>after\<close> starts: at the last character for a negative number.\<close>

definition search_from :: "int \<Rightarrow> cstr \<Rightarrow> nat option" where
  "search_from numint input = (if numint < 0 \<and> input \<noteq> [] then Some (length input - 1) else None)"

definition function_before :: "cstr \<Rightarrow> cstr" where
  "function_before input =
     (case GET_STR_ARG input of
        None \<Rightarrow> []
      | Some (tmp, input) \<Rightarrow>
          let numint = atol tmp
          in case (if numint \<noteq> 0 then map_option (\<lambda>(chars, r). (numint, chars, r)) (GET_STR_ARG input)
                   else Some (1, tmp, input)) of
               None \<Rightarrow> []
             | Some (numint, chars, input) \<Rightarrow>
                 (case search input (search_from numint input) chars (to_int32 numint) of
                    None \<Rightarrow> []
                  | Some p \<Rightarrow> take p input))"

definition function_after :: "cstr \<Rightarrow> cstr" where
  "function_after input =
     (case GET_STR_ARG input of
        None \<Rightarrow> []
      | Some (tmp, input) \<Rightarrow>
          let numint = atol tmp
          in case (if numint \<noteq> 0
                   then (case new_next_arg input of (chars, r) \<Rightarrow> (numint, chars, r))
                   else (1, Some tmp, input)) of
               (numint, None, input) \<Rightarrow> []
             | (numint, Some chars, input) \<Rightarrow>
                 (case search input (search_from numint input) chars (to_int32 numint) of
                    None \<Rightarrow> []
                  | Some p \<Rightarrow> if cat input p = NUL then [] else drop (Suc p) input))"

definition strrchr :: "cstr \<Rightarrow> char \<Rightarrow> cstr option" where
  "strrchr s c =
     (if c \<in> set s then Some (drop (length (dropWhile (\<lambda>d. d \<noteq> c) (rev s)) - 1) s) else None)"

definition function_strchar :: "cstr \<Rightarrow> cstr \<Rightarrow> cstr" where
  "function_strchar fn input =
     (case GET_STR_ARG input of
        None \<Rightarrow> []
      | Some (chr, input) \<Rightarrow>
          RETURN_MSTR (if my_stricmp ''STRCHR'' fn = 0 then strchr_at input (hd chr) else strrchr input (hd chr)))"

subsection \<open>Parts of a text\<close>

definition function_right :: "cstr \<Rightarrow> cstr" where
  "function_right input =
     (case GET_LONG_ARG input of
        None \<Rightarrow> []
      | Some (howmany, input) \<Rightarrow>
          if empty (Some input) \<or> howmany < 0 then []
          else if howmany < int (length input) then drop (length input - nat howmany) input
          else input)"

text \<open>\<open>start < strlen(input)\<close> compares unsigned numbers: a negative start is a large one.\<close>

definition function_mid :: "cstr \<Rightarrow> cstr" where
  "function_mid input =
     (case GET_LONG_ARG input of
        None \<Rightarrow> []
      | Some (start, input) \<Rightarrow>
          (case GET_LONG_ARG input of
             None \<Rightarrow> []
           | Some (len, input) \<Rightarrow>
               if empty (Some input) then []
               else if 0 \<le> start \<and> start < int (length input)
               then (if len < 0 then [] else take (nat len) (drop (nat start) input))
               else []))"

definition function_left :: "cstr \<Rightarrow> cstr" where
  "function_left input =
     (case GET_LONG_ARG input of
        None \<Rightarrow> []
      | Some (howmany, input) \<Rightarrow>
          if empty (Some input) \<or> howmany < 0 then [] else take (nat howmany) input)"

definition function_rest :: "cstr \<Rightarrow> cstr" where
  "function_rest input =
     (case (if my_atol (Some input) \<noteq> 0 then GET_INT_ARG input else Some (1, input)) of
        None \<Rightarrow> []
      | Some (start, input) \<Rightarrow>
          if start \<le> 0 then input
          else if int (length input) \<le> start then []
          else drop (nat start) input)"

definition function_strlen :: "cstr \<Rightarrow> cstr" where
  "function_strlen input = ltoa (int (length input))"

definition function_toupper :: "cstr \<Rightarrow> cstr" where
  "function_toupper input = upper input"

definition function_tolower :: "cstr \<Rightarrow> cstr" where
  "function_tolower input = lower input"

definition function_reverse :: "cstr \<Rightarrow> cstr" where
  "function_reverse input = map (\<lambda>x. input ! (length input - 1 - x)) [0..<length input]"

definition function_strcmp :: "cstr \<Rightarrow> cstr" where
  "function_strcmp input =
     (case new_next_arg input of
        (None, r) \<Rightarrow> ltoa (- 1)
      | (Some [], r) \<Rightarrow> ltoa (- 1)
      | (Some fst_word, r) \<Rightarrow>
          (case new_next_arg r of
             (None, r') \<Rightarrow> ltoa 1
           | (Some [], r') \<Rightarrow> ltoa 1
           | (Some snd_word, r') \<Rightarrow> ltoa (strcmp fst_word snd_word)))"

subsection \<open>Classes of characters\<close>

definition is_alpha :: "char \<Rightarrow> bool" where
  "is_alpha c \<longleftrightarrow> is_upper c \<or> is_lower c"

definition ishex :: "char \<Rightarrow> bool" where
  "ishex x \<longleftrightarrow> ord x \<in> {65 .. 70 :: nat} \<or> ord x \<in> {97 .. 102 :: nat}"

definition truth :: "bool \<Rightarrow> cstr" where
  "truth b = ltoa (if b then 1 else 0)"

definition function_isalpha :: "cstr \<Rightarrow> cstr" where
  "function_isalpha input = truth (is_alpha (cat input 0))"

definition function_isdigit :: "cstr \<Rightarrow> cstr" where
  "function_isdigit input = truth (is_digit (cat input 0))"

definition function_isalnum :: "cstr \<Rightarrow> cstr" where
  "function_isalnum input = truth (is_alpha (cat input 0) \<or> is_digit (cat input 0))"

definition function_isspace :: "cstr \<Rightarrow> cstr" where
  "function_isspace input = truth (my_isspace (cat input 0))"

definition function_isxdigit :: "cstr \<Rightarrow> cstr" where
  "function_isxdigit input = truth (is_digit (cat input 0) \<or> ishex (cat input 0))"

subsection \<open>Characters one by one\<close>

definition function_encode :: "cstr \<Rightarrow> cstr" where
  "function_encode input = encode_loop input"

definition function_decode :: "cstr \<Rightarrow> cstr" where
  "function_decode input = decode input"

definition function_strip :: "cstr \<Rightarrow> cstr" where
  "function_strip input =
     (case GET_STR_ARG input of
        None \<Rightarrow> []
      | Some (chars, input) \<Rightarrow> if empty (Some input) then [] else filter (\<lambda>c. \<not> strchr chars c) input)"

fun position :: "cstr \<Rightarrow> char \<Rightarrow> nat option" where
  "position [] c = None"
| "position (d # s) c = (if c = d then Some 0 else map_option Suc (position s c))"

text \<open>The loop over the text; a deleted character moves the rest of the text to its place.\<close>

fun translate_loop :: "cstr \<Rightarrow> cstr \<Rightarrow> cstr \<Rightarrow> cstr" where
  "translate_loop oldc newc [] = []"
| "translate_loop oldc newc (c # u) =
     (case position oldc c of
        None \<Rightarrow> c # translate_loop oldc newc u
      | Some x \<Rightarrow>
          if newc \<noteq> [] then newc ! (if x < length newc then x else length newc - 1) # translate_loop oldc newc u
          else translate_loop oldc newc u)"

text \<open>The text before \<open>c\<close> and the text after it.\<close>

definition cut_at :: "char \<Rightarrow> cstr \<Rightarrow> (cstr \<times> cstr) option" where
  "cut_at c s = map_option (\<lambda>t. (take (length s - length t) s, tl t)) (strchr_at s c)"

definition function_translate :: "cstr \<Rightarrow> cstr" where
  "function_translate input =
     (if empty (Some input) then []
      else let delim = hd input
           in case cut_at delim (tl input) of
                None \<Rightarrow> []
              | Some (oldc, r) \<Rightarrow>
                  (case cut_at delim r of
                     None \<Rightarrow> []
                   | Some (newc, txt) \<Rightarrow> translate_loop oldc newc txt))"

lemma next_arg_shorter: "next_arg s = (Some w, r) \<Longrightarrow> length r < length s"
proof -
  assume n: "next_arg s = (Some w, r)"
  define p where "p = dropWhile (\<lambda>c. c = CHR '' '') s"
  have "p \<noteq> []" "r = tl (dropWhile (\<lambda>c. c \<noteq> CHR '' '') p)"
    using n by (auto simp: next_arg_eq p_def [symmetric] Let_def split: if_splits)
  moreover have "length (dropWhile (\<lambda>c. c \<noteq> CHR '' '') p) \<le> length p" "length p \<le> length s"
    by (simp_all add: p_def length_dropWhile_le)
  ultimately show "length r < length s" by (cases p) auto
qed

function chr_loop :: "cstr \<Rightarrow> cstr" where
  "chr_loop input =
     (case next_arg input of
        (None, r) \<Rightarrow> []
      | (Some blah, r) \<Rightarrow> to_char (to_int32 (atol blah)) # chr_loop r)"
  by pat_completeness auto
termination
  by (relation "measure length") (auto dest: next_arg_shorter [OF sym])

declare chr_loop.simps [simp del]

text \<open>The characters are written to a buffer without a check; the first zero ends the text.\<close>

definition function_chr :: "cstr \<Rightarrow> cstr result" where
  "function_chr input =
     (let aboo = chr_loop input
      in if BIG_BUFFER_SIZE \<le> length aboo then Inl Undefined else Inr (takeWhile (\<lambda>c. c \<noteq> NUL) aboo))"

definition function_ascii :: "cstr \<Rightarrow> cstr" where
  "function_ascii input =
     (case input of
        [] \<Rightarrow> []
      | c # w \<Rightarrow> foldl (\<lambda>aboo d. m_3cat (Some aboo) (Some '' '') (Some (ltoa (int (ord d))))) (ltoa (int (ord c))) w)"

subsection \<open>The word a pattern matches best\<close>

text \<open>
  When only blanks are left after the last word, \<open>GET_STR_ARG\<close> returns the empty string from
  \<open>match\<close>, whatever has been found; \<open>rmatch\<close> skips them.
\<close>

lemma dropWhile_shorter: "length r < length (dropWhile P s) \<Longrightarrow> length r < length s"
  using length_dropWhile_le [of P s] by linarith

function best_word_loop :: "cstr \<Rightarrow> cstr \<Rightarrow> int \<Rightarrow> int \<Rightarrow> int \<Rightarrow> cstr result" where
  "best_word_loop pat input best_match found match_index =
     (if input = [] then Inr (ltoa found)
      else case GET_STR_ARG (dropWhile my_isspace input) of
        None \<Rightarrow> Inr []
      | Some (word, r) \<Rightarrow>
          bnd (or_hang (wild_match pat word)) (\<lambda>current_match.
            if best_match < current_match then best_word_loop pat r current_match (match_index + 1) (match_index + 1)
            else best_word_loop pat r best_match found (match_index + 1)))"
  by pat_completeness auto
termination
  by (relation "measure (\<lambda>(p, input, b, f, i). length input)")
    (auto dest: GET_STR_ARG_shorter dropWhile_shorter)

definition function_match :: "cstr \<Rightarrow> cstr result" where
  "function_match input =
     (case GET_STR_ARG input of None \<Rightarrow> Inr [] | Some (pat, r) \<Rightarrow> best_word_loop pat r 0 0 0)"

function best_pattern_loop :: "cstr \<Rightarrow> cstr \<Rightarrow> int \<Rightarrow> int \<Rightarrow> int \<Rightarrow> cstr result" where
  "best_pattern_loop word input best_match found rmatch_index =
     (if input = [] then Inr (ltoa found)
      else case GET_STR_ARG (dropWhile my_isspace input) of
        None \<Rightarrow> Inr []
      | Some (pat, r) \<Rightarrow>
          bnd (or_hang (wild_match pat word)) (\<lambda>current_match.
            if best_match < current_match
            then best_pattern_loop word (dropWhile my_isspace r) current_match (rmatch_index + 1) (rmatch_index + 1)
            else best_pattern_loop word (dropWhile my_isspace r) best_match found (rmatch_index + 1)))"
  by pat_completeness auto
termination
  by (relation "measure (\<lambda>(p, input, b, f, i). length input)")
    (auto dest!: GET_STR_ARG_shorter dropWhile_shorter intro: le_less_trans [OF length_dropWhile_le])

definition function_rmatch :: "cstr \<Rightarrow> cstr result" where
  "function_rmatch input =
     (case GET_STR_ARG input of None \<Rightarrow> Inr [] | Some (word, r) \<Rightarrow> best_pattern_loop word r 0 0 0)"

declare best_word_loop.simps [simp del] best_pattern_loop.simps [simp del]

subsection \<open>Choosing words\<close>

definition extractw :: "cstr \<Rightarrow> int \<Rightarrow> int \<Rightarrow> cstr result" where
  "extractw s a b = or_hang (real_extract s a b True)"

text \<open>
  The four functions that cut at a word that is matched take its number from \<open>rmatch\<close>: it is the
  first argument that is the word, and the words of the text are the patterns.
\<close>

definition cut_words :: "(int \<Rightarrow> int \<times> int) \<Rightarrow> cstr \<Rightarrow> cstr result" where
  "cut_words part input =
     bnd (function_rmatch input) (\<lambda>placeholder.
       let whr = to_int32 (my_atol (Some placeholder))
       in if whr < 1 then Inr [] else case part whr of (a, b) \<Rightarrow> extractw input a b)"

definition function_beforew :: "cstr \<Rightarrow> cstr result" where
  "function_beforew = cut_words (\<lambda>whr. (1, whr - 1))"

definition function_tow :: "cstr \<Rightarrow> cstr result" where
  "function_tow = cut_words (\<lambda>whr. (1, whr))"

definition function_afterw :: "cstr \<Rightarrow> cstr result" where
  "function_afterw = cut_words (\<lambda>whr. (whr + 1, EOS))"

definition function_fromw :: "cstr \<Rightarrow> cstr result" where
  "function_fromw = cut_words (\<lambda>whr. (whr, EOS))"

definition function_leftw :: "cstr \<Rightarrow> cstr result" where
  "function_leftw input =
     (case GET_INT_ARG input of
        None \<Rightarrow> Inr []
      | Some (n, r) \<Rightarrow> if n < 1 then Inr [] else extractw r 0 (n - 1))"

definition function_rightw :: "cstr \<Rightarrow> cstr result" where
  "function_rightw input =
     (case GET_INT_ARG input of
        None \<Rightarrow> Inr []
      | Some (n, r) \<Rightarrow> if n < 1 then Inr [] else or_hang (real_extract2 r (- n) EOS True))"

definition int_ok :: "int \<Rightarrow> bool" where
  "int_ok i \<longleftrightarrow> - 2147483648 \<le> i \<and> i \<le> 2147483647"

definition function_midw :: "cstr \<Rightarrow> cstr result" where
  "function_midw input =
     (case GET_INT_ARG input of
        None \<Rightarrow> Inr []
      | Some (start, r) \<Rightarrow>
          (case GET_INT_ARG r of
             None \<Rightarrow> Inr []
           | Some (num, r) \<Rightarrow>
               if num < 1 then Inr []
               else if \<not> int_ok (start + num) then Inl Undefined
               else extractw r start (start + num - 1)))"

definition function_restw :: "cstr \<Rightarrow> cstr result" where
  "function_restw input =
     (case GET_INT_ARG input of
        None \<Rightarrow> Inr []
      | Some (whr, r) \<Rightarrow> if whr < 0 then Inr [] else or_hang (real_extract r whr EOS False))"

fun skip_words :: "nat \<Rightarrow> cstr \<Rightarrow> cstr option" where
  "skip_words 0 input = Some input"
| "skip_words (Suc cvalue) input =
     (case GET_STR_ARG input of None \<Rightarrow> None | Some (w_word, r) \<Rightarrow> skip_words cvalue r)"

definition function_word :: "cstr \<Rightarrow> cstr" where
  "function_word input =
     (case GET_INT_ARG input of
        None \<Rightarrow> []
      | Some (cvalue, r) \<Rightarrow>
          if cvalue < 0 then []
          else case Option.bind (skip_words (nat cvalue) r) GET_STR_ARG of
                 None \<Rightarrow> []
               | Some (w_word, r) \<Rightarrow> w_word)"

definition function_numwords :: "cstr \<Rightarrow> cstr" where
  "function_numwords input = ltoa (int (word_count input))"

definition function_wordtoindex :: "cstr \<Rightarrow> cstr result" where
  "function_wordtoindex input =
     (case GET_INT_ARG input of
        None \<Rightarrow> Inr []
      | Some (wordnum, r) \<Rightarrow>
          bnd (or_hang (real_move_to_abs_word r wordnum False)) (\<lambda>u. Inr (ltoa (int u))))"

function findw_loop :: "cstr \<Rightarrow> cstr \<Rightarrow> int \<Rightarrow> cstr" where
  "findw_loop word input word_cnt =
     (if input = [] then ltoa (- 1)
      else case GET_STR_ARG input of
        None \<Rightarrow> []
      | Some (this_word, r) \<Rightarrow>
          if my_stricmp this_word word = 0 then ltoa word_cnt else findw_loop word r (word_cnt + 1))"
  by pat_completeness auto
termination
  by (relation "measure (\<lambda>(w, input, i). length input)") (auto dest: GET_STR_ARG_shorter)

declare findw_loop.simps [simp del]

definition function_findw :: "cstr \<Rightarrow> cstr" where
  "function_findw input =
     (case GET_STR_ARG input of None \<Rightarrow> [] | Some (word, r) \<Rightarrow> findw_loop word r 0)"

subsection \<open>Words that match and words that do not\<close>

text \<open>
  The loop of \<open>pattern\<close>, \<open>filter\<close>, \<open>rpattern\<close> and \<open>rfilter\<close>: it runs until
  \<open>new_next_arg\<close> returns NULL, which it does not do while there are only blanks left.
\<close>

partial_function (option) select_words :: "(cstr \<Rightarrow> bool option) \<Rightarrow> cstr option \<Rightarrow> cstr \<Rightarrow> cstr option" where
  "select_words keep booya input =
     (case new_next_arg input of
        (None, r) \<Rightarrow> Some (RETURN_MSTR booya)
      | (Some blah, r) \<Rightarrow>
          Option.bind (keep blah) (\<lambda>k. select_words keep (if k then m_s3cat booya '' '' blah else booya) r))"

definition matches :: "cstr \<Rightarrow> cstr \<Rightarrow> bool option" where
  "matches p w = map_option (\<lambda>v. v \<noteq> 0) (wild_match p w)"

definition selecting :: "(cstr \<Rightarrow> cstr \<Rightarrow> bool option) \<Rightarrow> cstr \<Rightarrow> cstr result" where
  "selecting keep input =
     (case GET_STR_ARG input of None \<Rightarrow> Inr [] | Some (a, r) \<Rightarrow> or_hang (select_words (keep a) None r))"

definition function_pattern :: "cstr \<Rightarrow> cstr result" where
  "function_pattern = selecting (\<lambda>pat blah. matches pat blah)"

definition function_filter :: "cstr \<Rightarrow> cstr result" where
  "function_filter = selecting (\<lambda>pat blah. map_option Not (matches pat blah))"

definition function_rpattern :: "cstr \<Rightarrow> cstr result" where
  "function_rpattern = selecting (\<lambda>blah pat. matches pat blah)"

definition function_rfilter :: "cstr \<Rightarrow> cstr result" where
  "function_rfilter = selecting (\<lambda>blah pat. map_option Not (matches pat blah))"

subsection \<open>Changing words\<close>

lemma stristr_loop_shorter: "stristr_loop s w x = Some t \<Longrightarrow> length t \<le> length s"
proof (induction s w x rule: stristr_loop.induct)
  case (1 s w x)
  then show ?case
    by (subst (asm) (3) stristr_loop.simps) (fastforce split: list.splits if_splits)
qed

lemma stristr_shorter: "stristr s w = Some t \<Longrightarrow> length t \<le> length s"
  by (auto simp: stristr_def split: if_splits dest: stristr_loop_shorter)

lemma stristr_tl_shorter: "stristr (tl s) w = Some t \<Longrightarrow> s \<noteq> [] \<Longrightarrow> length t < length s"
  using stristr_shorter [of "tl s" w t] by (cases s) auto

text \<open>\<open>str\<close> points into \<open>input\<close>: \<open>s\<close> is the text from there on.\<close>

function remw_loop :: "cstr \<Rightarrow> cstr \<Rightarrow> cstr \<Rightarrow> cstr" where
  "remw_loop input wd s =
     (if s = [] then input
      else let p = length input - length s; len = length wd
           in if (p = 0 \<or> my_isspace (cat input (p - 1))) \<and> (cat s len = NUL \<or> my_isspace (cat s len))
              then if cat s len = NUL then (if 0 < p then take (p - 1) input else [])
                   else if 0 < p then take (p - 1) input @ drop len s
                   else drop (len + 1) s
              else case stristr (tl s) wd of
                     None \<Rightarrow> input
                   | Some t \<Rightarrow> remw_loop input wd t)"
  by pat_completeness auto
termination
  by (relation "measure (\<lambda>(input, wd, s). length s)") (auto dest: stristr_tl_shorter)

declare remw_loop.simps [simp del]

definition function_remw :: "cstr \<Rightarrow> cstr" where
  "function_remw input =
     (case GET_STR_ARG input of
        None \<Rightarrow> []
      | Some (word_to_remove, r) \<Rightarrow>
          (case stristr r word_to_remove of
             None \<Rightarrow> r
           | Some s \<Rightarrow> remw_loop r word_to_remove s))"

text \<open>The words before a place, a new word, and the words after it.\<close>

definition put_between :: "cstr \<Rightarrow> cstr \<Rightarrow> cstr \<Rightarrow> cstr" where
  "put_between str1 what str2 =
     RETURN_MSTR (m_s3cat_s (Some ((if str1 \<noteq> [] then str1 @ '' '' else str1) @ what)) '' '' (Some str2))"

definition splice :: "cstr \<Rightarrow> int \<Rightarrow> cstr \<Rightarrow> int \<Rightarrow> cstr result" where
  "splice input left_end what right_start =
     bnd (or_hang (real_extract input 0 left_end False)) (\<lambda>str1.
       bnd (or_hang (real_extract input right_start EOS False)) (\<lambda>str2. Inr (put_between str1 what str2)))"

definition function_insertw :: "cstr \<Rightarrow> cstr result" where
  "function_insertw input =
     (case GET_INT_ARG input of
        None \<Rightarrow> Inr []
      | Some (whr, r) \<Rightarrow>
          if whr < 1 then Inr r
          else (case GET_STR_ARG r of
                  None \<Rightarrow> Inr []
                | Some (what, r) \<Rightarrow> splice r (whr - 1) what whr))"

definition function_chngw :: "cstr \<Rightarrow> cstr result" where
  "function_chngw input =
     (case GET_INT_ARG input of
        None \<Rightarrow> Inr []
      | Some (which, r) \<Rightarrow>
          (case GET_STR_ARG r of
             None \<Rightarrow> Inr []
           | Some (what, r) \<Rightarrow>
               if which < 0 then Inr r
               else if \<not> int_ok (which + 1) then Inl Undefined
               else splice r (which - 1) what (which + 1)))"

lemma trim_rev_shorter: "length (trim_rev s) \<le> length s"
  by (induction s rule: trim_rev.induct) auto

lemma last_positions: "last_space s p \<le> p" "last_quote s p \<le> p"
  by (induction p) auto

lemma last_arg_shorter: "last_arg s = LastArg w r \<Longrightarrow> length r < length s"
proof -
  assume l: "last_arg s = LastArg w r"
  define src where "src = remove_trailing_spaces s"
  define e where "e = length src - 1"
  define p where "p = (if cat src e = CHR 0x22 then last_quote src (e - 1) else last_space src e)"
  have s: "s \<noteq> []" using l by (auto simp: last_arg_def)
  have "length src \<le> length s" "src \<noteq> []"
  proof -
    show "length src \<le> length s" unfolding src_def remove_trailing_spaces_def using trim_rev_shorter [of "rev s"] by simp
    have "u \<noteq> [] \<Longrightarrow> trim_rev u \<noteq> []" for u by (induction u rule: trim_rev.induct) auto
    then show "src \<noteq> []" using s by (simp add: src_def remove_trailing_spaces_def)
  qed
  have e: "e < length src" using \<open>src \<noteq> []\<close> by (simp add: e_def)
  have "r = (if p = 0 then [] else remove_trailing_spaces (take p src))"
  proof -
    have "last_arg s = (if cat src e = CHR 0x22 \<and> e = 0 then LastOob else if p = 0 then LastArg src []
        else LastArg (drop (Suc p) src) (remove_trailing_spaces (take p src)))"
      by (simp only: last_arg_def Let_def s if_False src_def e_def p_def)
    then show ?thesis using l by (simp split: if_splits)
  qed
  moreover have "p \<le> e" using last_positions [of src "e - 1"] last_positions [of src e] by (auto simp: p_def)
  moreover have "length (remove_trailing_spaces (take p src)) \<le> p"
    using trim_rev_shorter [of "rev (take p src)"] by (simp add: remove_trailing_spaces_def)
  ultimately have "length r \<le> e" by (auto split: if_splits)
  then show ?thesis using e \<open>length src \<le> length s\<close> by simp
qed

function revw_loop :: "cstr option \<Rightarrow> cstr \<Rightarrow> cstr result" where
  "revw_loop booya input =
     (if input = [] then Inr (RETURN_MSTR booya)
      else case last_arg input of
        LastArg w r \<Rightarrow> revw_loop (m_s3cat booya '' '' w) r
      | _ \<Rightarrow> Inl Undefined)"
  by pat_completeness auto
termination
  by (relation "measure (\<lambda>(b, input). length input)") (auto dest: last_arg_shorter)

declare revw_loop.simps [simp del]

definition function_revw :: "cstr \<Rightarrow> cstr result" where
  "function_revw input = revw_loop None input"

subsection \<open>Two sets of words\<close>

text \<open>
  All the words of the right side that are equal to \<open>w\<close> are replaced by NULL; how many there are.
\<close>

fun strike :: "cstr \<Rightarrow> cstr option list \<Rightarrow> nat \<times> cstr option list" where
  "strike w [] = (0, [])"
| "strike w (r # rs) =
     (case strike w rs of
        (n, rs') \<Rightarrow>
          (case r of
             None \<Rightarrow> (n, None # rs')
           | Some v \<Rightarrow> if my_stricmp w v = 0 then (Suc n, None # rs') else (n, Some v # rs')))"

text \<open>\<open>splitw\<close> leaves no NULL among the words.\<close>

definition word_list :: "cstr \<Rightarrow> cstr list" where
  "word_list s = map the (splitw s)"

definition add_word :: "cstr \<Rightarrow> cstr option \<Rightarrow> cstr option" where
  "add_word w booya = m_s3cat booya '' '' w"

fun common_loop :: "cstr option \<Rightarrow> cstr list \<Rightarrow> cstr option list \<Rightarrow> cstr option" where
  "common_loop booya [] rightw = booya"
| "common_loop booya (l # leftw) rightw =
     (case strike l rightw of (n, rightw') \<Rightarrow> common_loop ((add_word l ^^ n) booya) leftw rightw')"

fun diff_loop :: "cstr option \<Rightarrow> cstr list \<Rightarrow> cstr option list \<Rightarrow> cstr option" where
  "diff_loop booya [] rightw = foldl (\<lambda>b r. case r of None \<Rightarrow> b | Some w \<Rightarrow> add_word w b) booya rightw"
| "diff_loop booya (l # leftw) rightw =
     (case strike l rightw of
        (n, rightw') \<Rightarrow> diff_loop (if n = 0 then add_word l booya else booya) leftw rightw')"

definition function_common :: "cstr \<Rightarrow> cstr" where
  "function_common input =
     (case cut_at CHR ''/'' input of
        None \<Rightarrow> []
      | Some (left, right) \<Rightarrow> RETURN_MSTR (common_loop None (word_list left) (splitw right)))"

definition function_diff :: "cstr \<Rightarrow> cstr" where
  "function_diff input =
     (case cut_at CHR ''/'' input of
        None \<Rightarrow> []
      | Some (left, right) \<Rightarrow> RETURN_MSTR (diff_loop None (word_list left) (splitw right)))"

definition function_remws :: "cstr \<Rightarrow> cstr" where
  "function_remws input =
     (case cut_at CHR ''/'' input of
        None \<Rightarrow> []
      | Some (left, right) \<Rightarrow>
          RETURN_MSTR
            (foldl (\<lambda>b r. if \<exists>l \<in> set (word_list left). my_stricmp l r = 0 then b else add_word r b)
               None (word_list right)))"

subsection \<open>Sorting words\<close>

text \<open>
  \<open>qsort\<close> of the C library is a parameter: C leaves open in which order it puts elements that the
  comparison finds equal. The characters are compared as signed numbers, and the difference of two
  numbers is converted to an \<open>int\<close>.
\<close>

definition function_sort :: "((cstr \<Rightarrow> cstr \<Rightarrow> int) \<Rightarrow> cstr list \<Rightarrow> cstr list) \<Rightarrow> cstr \<Rightarrow> cstr" where
  "function_sort qsort input = RETURN_MSTR (unsplitw (qsort my_stricmp (word_list input)))"

lemma strtol10_shorter: "length (snd (strtol10 s)) \<le> length s"
proof -
  have "length (dropWhile P (tl (dropWhile Q s))) \<le> length s" "length (dropWhile P (dropWhile Q s)) \<le> length s" for P Q
    using length_dropWhile_le [of P "tl (dropWhile Q s)"] length_dropWhile_le [of P "dropWhile Q s"]
      length_dropWhile_le [of Q s] by auto
  then show ?thesis by (auto simp: strtol10_def Let_def)
qed

lemma strtol10_digit: "is_digit (cat s 0) \<Longrightarrow> length (snd (strtol10 s)) < length s"
proof -
  assume d: "is_digit (cat s 0)"
  then obtain c t where s: "s = c # t" "is_digit c" by (cases s) (auto simp: is_digit_def)
  then have "\<not> my_isspace c" "c \<noteq> CHR ''-''" "c \<noteq> CHR ''+''" by (auto simp: is_digit_def my_isspace_def)
  then show ?thesis using s length_dropWhile_le [of is_digit t] by (simp add: strtol10_def Let_def)
qed

function num_sort_it :: "cstr \<Rightarrow> cstr \<Rightarrow> int" where
  "num_sort_it oneptr twoptr =
     (let one = cat oneptr 0; two = cat twoptr 0
      in if oneptr = [] \<or> twoptr = [] then schar one - schar two
         else if \<not> is_digit one \<and> \<not> is_digit two
         then if one \<noteq> two then schar one - schar two else num_sort_it (tl oneptr) (tl twoptr)
         else if fst (strtol10 oneptr) \<noteq> fst (strtol10 twoptr)
         then to_int32 (fst (strtol10 oneptr) - fst (strtol10 twoptr))
         else num_sort_it (snd (strtol10 oneptr)) (snd (strtol10 twoptr)))"
  by pat_completeness auto
termination
proof (relation "measure (\<lambda>(a, b). length a + length b)", goal_cases)
  case (2 a b)
  then show ?case by (cases a) auto
next
  case (3 a b)
  then show ?case
    using strtol10_digit [of a] strtol10_digit [of b] strtol10_shorter [of a] strtol10_shorter [of b]
    by auto
qed simp

declare num_sort_it.simps [simp del]

definition function_numsort :: "((cstr \<Rightarrow> cstr \<Rightarrow> int) \<Rightarrow> cstr list \<Rightarrow> cstr list) \<Rightarrow> cstr \<Rightarrow> cstr" where
  "function_numsort qsort input = RETURN_MSTR (unsplitw (qsort num_sort_it (word_list input)))"

subsection \<open>Rows of numbers\<close>

text \<open>The buffer has ten characters for each number of the range; what does not fit is cut off.\<close>

definition jot_add :: "nat \<Rightarrow> cstr \<Rightarrow> int \<Rightarrow> cstr" where
  "jot_add room booya counter = fst (strlcat (fst (strlcat booya '' '' room)) (ltoa counter) room)"

function jot_up :: "nat \<Rightarrow> int \<Rightarrow> int \<Rightarrow> cstr \<Rightarrow> int \<Rightarrow> cstr result" where
  "jot_up room stop interval booya counter =
     (if \<not> int_ok counter then Inl Undefined
      else if counter \<le> stop \<and> 0 < interval
      then jot_up room stop interval (jot_add room booya counter) (counter + interval)
      else Inr booya)"
  by pat_completeness auto
termination
  by (relation "measure (\<lambda>(room, stop, interval, booya, counter). nat (stop + 1 - counter))") auto

function jot_down :: "nat \<Rightarrow> int \<Rightarrow> int \<Rightarrow> cstr \<Rightarrow> int \<Rightarrow> cstr result" where
  "jot_down room stop interval booya counter =
     (if \<not> int_ok counter then Inl Undefined
      else if stop \<le> counter \<and> 0 < interval
      then jot_down room stop interval (jot_add room booya counter) (counter - interval)
      else Inr booya)"
  by pat_completeness auto
termination
  by (relation "measure (\<lambda>(room, stop, interval, booya, counter). nat (counter + 1 - stop))") auto

declare jot_up.simps [simp del] jot_down.simps [simp del]

definition jot :: "int \<Rightarrow> int \<Rightarrow> int \<Rightarrow> cstr result" where
  "jot start stop interval =
     (let range = \<bar>stop - start\<bar> + 1; room = range * 10
      in if interval = 0 then Inr []
         else if \<not> int_ok \<bar>interval\<bar> \<or> \<not> int_ok (stop - start) \<or> \<not> int_ok \<bar>stop - start\<bar> \<or> \<not> int_ok room then Inl Undefined
         else let booya = fst (strlcpy [] (ltoa start) (nat room))
              in if start < stop then jot_up (nat room) stop \<bar>interval\<bar> booya (start + \<bar>interval\<bar>)
                 else jot_down (nat room) stop \<bar>interval\<bar> booya (start - \<bar>interval\<bar>))"

definition function_jot :: "cstr \<Rightarrow> cstr result" where
  "function_jot input =
     (case GET_INT_ARG input of
        None \<Rightarrow> Inr []
      | Some (start, r) \<Rightarrow>
          (case GET_INT_ARG r of
             None \<Rightarrow> Inr []
           | Some (stop, r) \<Rightarrow>
               (case (if r \<noteq> [] then GET_INT_ARG r else Some (1, r)) of
                  None \<Rightarrow> Inr []
                | Some (interval, r) \<Rightarrow> jot start stop interval)))"

subsection \<open>The table of functions\<close>

text \<open>The names of the functions, each with the C function it calls, in the order of the table.\<close>

definition nap_func :: "(cstr \<times> cstr) list" where
  "nap_func = [
   (''AFTER'', ''function_after''),
   (''AFTERW'', ''function_afterw''),
   (''ALIASCTL'', ''aliasctl''),
   (''ASCII'', ''function_ascii''),
   (''BEFORE'', ''function_before''),
   (''BEFOREW'', ''function_beforew''),
   (''BUILTIN'', ''function_builtin''),
   (''CHANNEL'', ''nap_channel''),
   (''CHANNELNICKS'', ''function_channelnicks''),
   (''CHANUSERS'', ''function_onchannel''),
   (''CHMOD'', ''function_chmod''),
   (''CHNGW'', ''function_chngw''),
   (''CHR'', ''function_chr''),
   (''CLOSE'', ''function_close''),
   (''COMMON'', ''function_common''),
   (''CONNECT'', ''function_connect''),
   (''CPARSE'', ''cparse''),
   (''CRYPT'', ''function_crypt''),
   (''DECODE'', ''function_decode''),
   (''DELARRAY'', ''function_delarray''),
   (''DELITEM'', ''function_delitem''),
   (''DIFF'', ''function_diff''),
   (''EOF'', ''function_eof''),
   (''ENCODE'', ''function_encode''),
   (''FEXIST'', ''function_fexist''),
   (''FILTER'', ''function_filter''),
   (''FINDITEM'', ''function_finditem''),
   (''FINDW'', ''function_findw''),
   (''FROMW'', ''function_fromw''),
   (''FSIZE'', ''function_fsize''),
   (''GETARRAYS'', ''function_getarrays''),
   (''GETCAP'', ''function_getcap''),
   (''GETITEM'', ''function_getitem''),
   (''GETMATCHES'', ''function_getmatches''),
   (''GETOPT'', ''function_getopt''),
   (''GETRMATCHES'', ''function_getrmatches''),
   (''GETTMATCH'', ''function_gettmatch''),
   (''GLOB'', ''function_glob''),
   (''GLOBI'', ''function_glob''),
   (''IDLE'', ''alias_idle''),
   (''IFINDFIRST'', ''function_ifindfirst''),
   (''IFINDITEM'', ''function_ifinditem''),
   (''IGETITEM'', ''function_igetitem''),
   (''IGETMATCHES'', ''function_igetmatches''),
   (''IGETRMATCHES'', ''function_getrmatches''),
   (''INDEX'', ''function_index''),
   (''INDEXTOITEM'', ''function_indextoitem''),
   (''INSERTW'', ''function_insertw''),
   (''IPTOLONG'', ''function_iptolong''),
   (''ISALNUM'', ''function_isalnum''),
   (''ISALPHA'', ''function_isalpha''),
   (''ISDIGIT'', ''function_isdigit''),
   (''ISDISPLAYING'', ''function_isdisplaying''),
   (''ISIRC'', ''function_isirc''),
   (''ISSPACE'', ''function_isspace''),
   (''ISXDIGIT'', ''function_isxdigit''),
   (''ITEMTOINDEX'', ''function_itemtoindex''),
   (''JOT'', ''function_jot''),
   (''LASTLOG'', ''function_lastlog''),
   (''LEFT'', ''function_left''),
   (''LEFTW'', ''function_leftw''),
   (''LINE'', ''function_line''),
   (''LISTARRAY'', ''function_listarray''),
   (''LONGTOIP'', ''function_longtoip''),
   (''NUMARRAYS'', ''function_numarrays''),
   (''NUMITEMS'', ''function_numitems''),
   (''NUMSORT'', ''function_numsort''),
   (''NUMWORDS'', ''function_numwords''),
   (''MATCH'', ''function_match''),
   (''MATCHITEM'', ''function_matchitem''),
   (''MD5'', ''function_md5''),
   (''MID'', ''function_mid''),
   (''MIDW'', ''function_midw''),
   (''MP3TIME'', ''function_mp3time''),
   (''MSAR'', ''function_msar''),
   (''ONCHANNELS'', ''function_channels''),
   (''OPEN'', ''function_open''),
   (''PATTERN'', ''function_pattern''),
   (''POP'', ''function_pop''),
   (''PUSH'', ''function_push''),
   (''RAND'', ''function_rand''),
   (''READ'', ''function_read''),
   (''REGCOMP'', ''function_regcomp''),
   (''REGERROR'', ''function_regerror''),
   (''REGEXEC'', ''function_regexec''),
   (''REGFREE'', ''function_regfree''),
   (''REMW'', ''function_remw''),
   (''REMWS'', ''function_remws''),
   (''REST'', ''function_rest''),
   (''RESTW'', ''function_restw''),
   (''REVERSE'', ''function_reverse''),
   (''REVW'', ''function_revw''),
   (''RFILTER'', ''function_rfilter''),
   (''RIGHT'', ''function_right''),
   (''RIGHTW'', ''function_rightw''),
   (''RINDEX'', ''function_rindex''),
   (''RMATCH'', ''function_rmatch''),
   (''RMATCHITEM'', ''function_rmatchitem''),
   (''RPATTERN'', ''function_rpattern''),
   (''SAR'', ''function_sar''),
   (''SERVERNICK'', ''function_servernick''),
   (''SETITEM'', ''function_setitem''),
   (''SHIFT'', ''function_shift''),
   (''SORT'', ''function_sort''),
   (''SRAND'', ''function_srand''),
   (''STATUS'', ''function_status''),
   (''STRCHR'', ''function_strchar''),
   (''STRCMP'', ''function_strcmp''),
   (''STRIP'', ''function_strip''),
   (''STRFTIME'', ''function_strftime''),
   (''STRLEN'', ''function_strlen''),
   (''STRRCHR'', ''function_strchar''),
   (''TIME'', ''function_time''),
   (''TIMER'', ''function_timer''),
   (''TOLOWER'', ''function_tolower''),
   (''TOUPPER'', ''function_toupper''),
   (''TOW'', ''function_tow''),
   (''TR'', ''function_translate''),
   (''TWIDDLE'', ''function_twiddle''),
   (''UNAME'', ''function_uname''),
   (''UNLINK'', ''function_unlink''),
   (''UNSHIFT'', ''function_unshift''),
   (''UTIME'', ''function_time''),
   (''WINNUM'', ''function_winnum''),
   (''WINSIZE'', ''function_winsize''),
   (''WORD'', ''function_word''),
   (''WORDTOINDEX'', ''function_wordtoindex''),
   (''WRITE'', ''function_write''),
   (''XMMS'', ''function_xmms'')]"

definition find_func_alias :: "cstr \<Rightarrow> (cstr \<times> cstr) option" where
  "find_func_alias nm = List.find (\<lambda>(n, f). my_stricmp nm n = 0) nap_func"

text \<open>The names with a prefix, for the completion: the first run of them in the table.\<close>

fun get_builtins_loop :: "cstr \<Rightarrow> cstr list \<Rightarrow> (cstr \<times> cstr) list \<Rightarrow> cstr list" where
  "get_builtins_loop nm found [] = found"
| "get_builtins_loop nm found ((n, f) # rows) =
     (if prefix nm n then get_builtins_loop nm (found @ [n]) rows
      else if found \<noteq> [] then found
      else get_builtins_loop nm found rows)"

definition get_builtins :: "cstr \<Rightarrow> cstr list" where
  "get_builtins nm = get_builtins_loop nm [] nap_func"

end
