(* ===== verification/VarFuncs.thy ===== *)
theory VarFuncs
  imports TextFuncs LocalVars
begin

section \<open>Built-in functions on variables (source/functions.c)\<close>

text \<open>
  PUSH, POP, SHIFT and UNSHIFT keep a list of words in a variable, SAR and MSAR replace text in one, and
  \<open>call_function\<close> finds the function of an expression. The first four are written over the two
  operations on a variable that they use, so that what they do can be stated for any variable that
  can be read back.
\<close>

subsection \<open>A list of words in a variable\<close>

type_synonym 's reading = "'s \<Rightarrow> (cstr option \<times> 's) option"
type_synonym 's writing = "cstr \<Rightarrow> 's \<Rightarrow> 's option"

definition push_word :: "'s reading \<Rightarrow> 's writing \<Rightarrow> cstr \<Rightarrow> 's \<Rightarrow> (cstr option \<times> 's) result" where
  "push_word get put input v =
     bnd (or_hang (get v)) (\<lambda>(value, v1).
       let value = m_s3cat value '' '' input
       in bnd (or_hang (put (RETURN_MSTR value) v1)) (\<lambda>v2. Inr (value, v2)))"

definition pop_word :: "'s reading \<Rightarrow> 's writing \<Rightarrow> 's \<Rightarrow> (cstr option \<times> 's) result" where
  "pop_word get put v =
     bnd (or_hang (get v)) (\<lambda>(value, v1).
       case value of
         None \<Rightarrow> Inr (Some [], v1)
       | Some t \<Rightarrow>
           if t = [] then Inr (Some [], v1)
           else case strrchr t CHR '' '' of
                  None \<Rightarrow> bnd (or_hang (put [] v1)) (\<lambda>v2. Inr (Some t, v2))
                | Some p \<Rightarrow> bnd (or_hang (put (take (length t - length p) t) v1)) (\<lambda>v2. Inr (Some (tl p), v2)))"

text \<open>The test for a missing value reads through NULL when there is none, and lets an empty one pass.\<close>

definition shift_word :: "'s reading \<Rightarrow> 's writing \<Rightarrow> 's \<Rightarrow> (cstr option \<times> 's) result" where
  "shift_word get put v =
     bnd (or_hang (get v)) (\<lambda>(value, v1).
       case value of
         None \<Rightarrow> Inl Undefined
       | Some t \<Rightarrow>
           (case new_next_arg t of (w, r) \<Rightarrow>
              bnd (or_hang (put r v1)) (\<lambda>v2. Inr (Some (RETURN_MSTR w), v2))))"

definition unshift_word :: "'s reading \<Rightarrow> 's writing \<Rightarrow> cstr \<Rightarrow> 's \<Rightarrow> (cstr option \<times> 's) result" where
  "unshift_word get put input v =
     bnd (or_hang (get v)) (\<lambda>(value, v1).
       if input = [] then Inr (value, v1)
       else let booya = m_s3cat_s (Some input) '' '' value
            in bnd (or_hang (put (RETURN_MSTR booya) v1)) (\<lambda>v2. Inr (booya, v2)))"

abbreviation put_var :: "cstr \<Rightarrow> cstr \<Rightarrow> 'z script_vars_scheme \<Rightarrow> 'z script_vars_scheme option" where
  "put_var var s \<equiv> add_var_alias var (Some s) False"

definition function_push :: "var_env \<Rightarrow> cstr \<Rightarrow> 'z script_vars_scheme \<Rightarrow> (cstr option \<times> 'z script_vars_scheme) result" where
  "function_push X input v =
     (case GET_STR_ARG input of
        None \<Rightarrow> Inr (Some [], v)
      | Some (var, input) \<Rightarrow> push_word (get_variable X (upper var)) (put_var (upper var)) input v)"

definition function_pop :: "var_env \<Rightarrow> cstr \<Rightarrow> 'z script_vars_scheme \<Rightarrow> (cstr option \<times> 'z script_vars_scheme) result" where
  "function_pop X input v =
     (case GET_STR_ARG input of
        None \<Rightarrow> Inr (Some [], v)
      | Some (var, input) \<Rightarrow>
          if input \<noteq> [] then Inr (Some (case strrchr input CHR '' '' of None \<Rightarrow> input | Some p \<Rightarrow> p), v)
          else pop_word (get_variable X (upper var)) (put_var (upper var)) v)"

definition function_shift :: "var_env \<Rightarrow> cstr \<Rightarrow> 'z script_vars_scheme \<Rightarrow> (cstr option \<times> 'z script_vars_scheme) result" where
  "function_shift X input v =
     (case GET_STR_ARG input of
        None \<Rightarrow> Inr (Some [], v)
      | Some (var, input) \<Rightarrow>
          if input \<noteq> [] then Inr (Some var, v) else shift_word (get_variable X var) (put_var var) v)"

definition function_unshift :: "var_env \<Rightarrow> cstr \<Rightarrow> 'z script_vars_scheme \<Rightarrow> (cstr option \<times> 'z script_vars_scheme) result" where
  "function_unshift X input v =
     (case GET_STR_ARG input of
        None \<Rightarrow> Inr (Some [], v)
      | Some (var, input) \<Rightarrow> unshift_word (get_variable X var) (put_var var) input v)"

subsection \<open>Search and replace\<close>

fun strstr :: "cstr \<Rightarrow> cstr \<Rightarrow> cstr option" where
  "strstr [] s = (if s = [] then Some [] else None)"
| "strstr (c # t) s = (if prefix s (c # t) then Some (c # t) else strstr t s)"

text \<open>The letters before the delimiter: \<open>r\<close>, \<open>g\<close> and \<open>i\<close>, in any order.\<close>

record sar_flags =
  variable :: bool
  global :: bool
  no_case :: bool

fun sar_options :: "sar_flags \<Rightarrow> cstr \<Rightarrow> sar_flags \<times> cstr" where
  "sar_options f [] = (f, [])"
| "sar_options f (c # input) =
     (if c = CHR ''r'' then sar_options (f\<lparr>variable := True\<rparr>) input
      else if c = CHR ''g'' then sar_options (f\<lparr>global := True\<rparr>) input
      else if c = CHR ''i'' then sar_options (f\<lparr>no_case := True\<rparr>) input
      else (f, c # input))"

definition finder :: "sar_flags \<Rightarrow> cstr \<Rightarrow> cstr \<Rightarrow> cstr option" where
  "finder f = (if no_case f then stristr else strstr)"

text \<open>
  One replacement: \<open>pointer\<close> is where the text was found in \<open>value\<close>. The end of what is replaced
  is set to NUL as its last character, and for an empty text the next character goes.
\<close>

definition replace_at :: "cstr \<Rightarrow> cstr \<Rightarrow> cstr \<Rightarrow> cstr \<Rightarrow> cstr \<Rightarrow> cstr \<times> cstr" where
  "replace_at booya srch repl val u =
     (booya @ take (length val - length u) val @ repl, drop (max 1 (length srch)) u)"

lemma strstr_shorter: "strstr t s = Some u \<Longrightarrow> length u \<le> length t"
  by (induction t s rule: strstr.induct) (auto split: if_splits)

lemma finder_shorter: "finder f t s = Some u \<Longrightarrow> length u \<le> length t"
  by (auto simp: finder_def split: if_splits dest: strstr_shorter stristr_shorter)

text \<open>The replacements, and the rest of the text; an empty text is not searched past its end.\<close>

function replace_loop :: "sar_flags \<Rightarrow> cstr \<Rightarrow> cstr \<Rightarrow> cstr \<Rightarrow> cstr \<Rightarrow> cstr result" where
  "replace_loop f srch repl booya val =
     (case finder f val srch of
        None \<Rightarrow> Inr (booya @ val)
      | Some u \<Rightarrow>
          if u = [] then Inl Undefined
          else case replace_at booya srch repl val u of
            (booya', val') \<Rightarrow>
              if \<not> global f \<or> val' = [] then Inr (booya' @ val')
              else replace_loop f srch repl booya' val')"
  by pat_completeness auto
termination
proof (relation "measure (\<lambda>(f, s, r, b, v). length v)", goal_cases)
  case (2 f srch repl booya val u b v)
  then have "length v < length u" by (cases u) (auto simp: replace_at_def)
  then show ?case using finder_shorter [of f val srch u] 2 by (auto simp: 2(3) [symmetric])
qed simp

declare replace_loop.simps [simp del]

definition no_flags :: sar_flags where
  "no_flags = \<lparr>variable = False, global = False, no_case = False\<rparr>"

definition text_or_variable ::
  "var_env \<Rightarrow> sar_flags \<Rightarrow> cstr \<Rightarrow> 'z script_vars_scheme \<Rightarrow> (cstr option \<times> 'z script_vars_scheme) result" where
  "text_or_variable X f s v = (if variable f then or_hang (get_variable X s v) else Inr (Some s, v))"

definition sar_done ::
  "sar_flags \<Rightarrow> cstr \<Rightarrow> cstr \<Rightarrow> 'z script_vars_scheme \<Rightarrow> (cstr \<times> 'z script_vars_scheme) result" where
  "sar_done f var booya v =
     (if variable f then bnd (or_hang (put_var var booya v)) (\<lambda>v'. Inr (booya, v')) else Inr (booya, v))"

definition sar_parts :: "cstr \<Rightarrow> (sar_flags \<times> char \<times> cstr \<times> cstr \<times> cstr) option" where
  "sar_parts input =
     (case sar_options no_flags input of
        (f, s) \<Rightarrow>
          if empty (Some s) then None
          else case cut_at (hd s) (tl s) of
            None \<Rightarrow> None
          | Some (srch, r) \<Rightarrow> map_option (\<lambda>(repl, dat). (f, hd s, srch, repl, dat)) (cut_at (hd s) r))"

definition function_sar :: "var_env \<Rightarrow> cstr \<Rightarrow> 'z script_vars_scheme \<Rightarrow> (cstr \<times> 'z script_vars_scheme) result" where
  "function_sar X input v =
     (case sar_parts input of
        None \<Rightarrow> Inr ([], v)
      | Some (f, delim, srch, repl, dat) \<Rightarrow>
          bnd (text_or_variable X f dat v) (\<lambda>(value, v1).
            if value = None \<or> value = Some [] then Inr ([], v1)
            else bnd (replace_loop f srch repl [] (RETURN_MSTR value)) (\<lambda>booya. sar_done f dat booya v1)))"

lemma cut_at_shorter: "cut_at c s = Some (a, b) \<Longrightarrow> length b < length s"
proof -
  assume "cut_at c s = Some (a, b)"
  then obtain t where "strchr_at s c = Some t" "b = tl t" by (auto simp: cut_at_def)
  then show ?thesis using strchr_at_suffix [of s c t] suffix_length_le [of t s] by (cases t) auto
qed

text \<open>
  The rounds of MSAR. \<open>dat\<close> is what is left of the pairs: a round that takes the last one
  sets it to NULL, and one that finds no delimiter leaves it. NULL as a name is the empty name for
  \<open>add_var_alias\<close>.
\<close>

function msar_loop :: "sar_flags \<Rightarrow> char \<Rightarrow> cstr \<Rightarrow> cstr \<Rightarrow> cstr option \<Rightarrow> cstr \<Rightarrow> (cstr option \<times> cstr) result" where
  "msar_loop f delim srch repl dat val =
     bnd (replace_loop f srch repl [] val) (\<lambda>booya.
       case dat of
         None \<Rightarrow> Inr (dat, booya)
       | Some d \<Rightarrow>
           if d = [] then Inr (dat, booya)
           else case cut_at delim d of
             None \<Rightarrow> Inr (dat, booya)
           | Some (srch', r) \<Rightarrow>
               (case cut_at delim r of
                  None \<Rightarrow> msar_loop f delim srch' r None booya
                | Some (repl', d') \<Rightarrow> msar_loop f delim srch' repl' (Some d') booya))"
  by pat_completeness auto
termination
proof (relation "measure (\<lambda>(f, c, s, r, d, v). case d of None \<Rightarrow> 0 | Some t \<Rightarrow> Suc (length t))", goal_cases)
  case (3 f delim srch repl dat val booya d x srch' r y repl' d')
  then have "length d' < length r" "length r < length d" using cut_at_shorter by metis+
  then show ?case using 3 by simp
qed simp_all

declare msar_loop.simps [simp del]

definition function_msar :: "var_env \<Rightarrow> cstr \<Rightarrow> 'z script_vars_scheme \<Rightarrow> (cstr \<times> 'z script_vars_scheme) result" where
  "function_msar X input v =
     (case sar_parts input of
        None \<Rightarrow> Inr ([], v)
      | Some (f, delim, srch, repl, dat) \<Rightarrow>
          (case (case strrchr dat delim of
                   None \<Rightarrow> (dat, dat)
                 | Some p \<Rightarrow> (take (length dat - length p) dat, tl p)) of
             (dat, source) \<Rightarrow>
               bnd (text_or_variable X f source v) (\<lambda>(value, v1).
                 if value = None \<or> value = Some [] then Inr ([], v1)
                 else bnd (msar_loop f delim srch repl (Some dat) (RETURN_MSTR value)) (\<lambda>(dat, booya).
                   sar_done f (RETURN_MSTR dat) booya v1))))"

subsection \<open>Calling a function\<close>

text \<open>
  The name and the arguments in parentheses, which are expanded; a function of the table is called
  with the name as it was written, in upper case, any other name is a user function. Both kinds
  are parameters.
\<close>

definition call_parts :: "cstr \<Rightarrow> cstr \<times> cstr" where
  "call_parts nm =
     (case strchr_at nm CHR ''('' of
        None \<Rightarrow> (nm, [])
      | Some t \<Rightarrow>
          (before nm t,
           case MatchingBracket (tl t) CHR ''('' CHR '')'' of None \<Rightarrow> tl t | Some u \<Rightarrow> before (tl t) u))"

definition call_function_at ::
  "'w exp_env \<Rightarrow> nat \<Rightarrow> (cstr \<Rightarrow> cstr \<Rightarrow> cstr \<Rightarrow> 'w flagged \<Rightarrow> (cstr option \<times> 'w flagged) result)
    \<Rightarrow> (cstr \<Rightarrow> cstr \<Rightarrow> 'w flagged \<Rightarrow> (cstr option \<times> 'w flagged) result)
    \<Rightarrow> cstr \<Rightarrow> cstr option \<Rightarrow> 'w flagged \<Rightarrow> (cstr option \<times> 'w flagged) result" where
  "call_function_at E n built_in call_user_function nm args st =
     (case call_parts nm of
        (nm, lparen) \<Rightarrow>
          bnd (expand_alias E args n False lparen st) (\<lambda>(tmp, rest, st1).
            case find_func_alias (upper nm) of
              Some (nap_name, func) \<Rightarrow> built_in func (upper nm) tmp st1
            | None \<Rightarrow> call_user_function (upper nm) tmp st1))"

end
