(* ===== verification/TextWords.thy ===== *)
theory TextWords
  imports TextFuncs
begin

section \<open>What the functions on texts compute\<close>

text \<open>
  The functions of TextFuncs against operations on lists of words and of characters: the functions
  that take words by their number, the ones that choose words with a pattern, the operations on two
  sets of words, and the rows of numbers.
\<close>

subsection \<open>Taking arguments off a text\<close>

lemma ltoa_shape: "\<exists>c s. ltoa n = c # s \<and> list_all (\<lambda>d. is_digit d \<or> d = CHR ''-'') (c # s)"
proof -
  obtain d ds where "ltoa_digits (nat \<bar>n\<bar>) [] = d # ds" "is_digit d" "list_all is_digit ds"
    using ltoa_digits_Cons by blast
  then show ?thesis by (auto simp: ltoa_def Let_def list_all_iff)
qed

lemma digit_plain: "is_digit d \<or> d = CHR ''-'' \<Longrightarrow>
    \<not> risspace d \<and> nonspace d \<and> d \<noteq> CHR '' '' \<and> d \<noteq> CHR 0x09 \<and> d \<noteq> CHR 0x22 \<and> d \<noteq> CHR ''^''"
  by (auto simp: is_digit_def risspace_def my_isspace_def)

lemma ltoa_plain_chars: "\<forall>c \<in> set (ltoa n). \<not> risspace c \<and> nonspace c \<and> c \<noteq> CHR '' '' \<and> c \<noteq> CHR 0x09 \<and> c \<noteq> CHR 0x22"
proof
  fix c assume c: "c \<in> set (ltoa n)"
  obtain d s where "ltoa n = d # s" "list_all (\<lambda>d. is_digit d \<or> d = CHR ''-'') (d # s)" using ltoa_shape by blast
  then have "is_digit c \<or> c = CHR ''-''" using c by (auto simp: list_all_iff)
  from digit_plain [OF this] show "\<not> risspace c \<and> nonspace c \<and> c \<noteq> CHR '' '' \<and> c \<noteq> CHR 0x09 \<and> c \<noteq> CHR 0x22" by simp
qed

lemma ltoa_nonempty [simp]: "ltoa n \<noteq> []"
  using ltoa_shape [of n] by auto

lemma long_arg_number:
  assumes "LONG_MIN \<le> n" "n \<le> LONG_MAX"
  shows "GET_LONG_ARG (ltoa n @ CHR '' '' # line) = Some (n, line)"
proof -
  obtain c s where l: "ltoa n = c # s" using ltoa_nonempty [of n] by (cases "ltoa n") auto
  define str where "str = ltoa n @ CHR '' '' # line"
  have all: "\<forall>d \<in> set (ltoa n). \<not> risspace d \<and> d \<noteq> CHR '' '' \<and> d \<noteq> CHR 0x09 \<and> d \<noteq> CHR 0x22"
    using ltoa_plain_chars [of n] by auto
  have c: "\<not> risspace c" "c \<noteq> CHR '' ''" "c \<noteq> CHR 0x09" "c \<noteq> CHR 0x22" using all l by auto
  have ne: "\<not> empty (Some str)" using c by (simp add: empty_iff str_def l)
  have 1: "sindex str [CHR ''^'', CHR '' '', CHR 0x09] = Some str"
    using c by (simp add: sindex_def str_def l)
  have 2: "sindex str [CHR '' '', CHR 0x09] = Some (CHR '' '' # line)"
  proof -
    have "dropWhile (\<lambda>d. d \<notin> {CHR '' '', CHR 0x09}) (ltoa n @ CHR '' '' # line) = CHR '' '' # line"
      using all by (subst dropWhile_append2) auto
    then show ?thesis by (simp add: sindex_def first_in_dropWhile str_def)
  qed
  have "safe_new_next_arg str = (ltoa n, line)"
    using 1 2 c by (simp add: safe_new_next_arg_def str_def l)
  moreover have "atol (ltoa n) = n" using strtol10_ltoa [of n "[]"] assms by (simp add: atol_def is_digit_def)
  ultimately show ?thesis using ne by (simp add: GET_LONG_ARG_def str_def)
qed

lemma int_ok_int32: "int_ok n \<Longrightarrow> to_int32 n = n"
  by (simp add: int_ok_def to_int32_def)

lemma int_arg_number: "int_ok n \<Longrightarrow> GET_INT_ARG (ltoa n @ CHR '' '' # line) = Some (n, line)"
  using int_ok_int32 [of n] by (simp add: GET_INT_ARG_def long_arg_number int_ok_def)

lemma str_arg_word:
  assumes "plain_word w"
  shows "GET_STR_ARG (w @ CHR '' '' # line) = Some (w, line)" "GET_STR_ARG w = Some (w, [])"
proof -
  have "\<not> empty (Some w)" "\<not> empty (Some (w @ CHR '' '' # line))"
    using assms by (cases w; auto simp: empty_iff plain_word_def)+
  then show "GET_STR_ARG (w @ CHR '' '' # line) = Some (w, line)" "GET_STR_ARG w = Some (w, [])"
    using new_next_arg_plain [OF assms] by (simp_all add: GET_STR_ARG_def)
qed

subsection \<open>Words by their number\<close>

lemma extract_rest:
  assumes "0 \<le> f" "f < EOS"
  shows "\<exists>t. real_extract start f EOS False = Some t \<and> words t = drop (nat f) (words start)"
proof -
  define s where "s = remove_trailing_spaces (dropWhile my_isspace start)"
  have ws: "words s = words start" unfolding s_def by (simp add: words_remove_trailing)
  define b where "b = skip_fwd my_isspace s 0"
  have bl: "b \<le> length s" and bd: "drop b s = dropWhile my_isspace s"
    using skip_fwd_bounds [of 0 s my_isspace] drop_skip_fwd [of my_isspace s 0] by (auto simp: b_def)
  obtain i where i: "move_abs_loop s b (nat f) False = Some i" "drop i s = after_words (nat f) (drop b s)"
      "b \<le> i" "i \<le> length s"
    using move_abs_loop_spec [OF bl, of "nat f"] by blast
  have "drop b s = [] \<or> nonspace (cat (drop b s) 0)" unfolding bd
    by (cases "dropWhile my_isspace s") (auto dest: dropWhile_hd)
  then have "words (drop i s) = drop (nat f) (words start)"
    using words_after i(2) ws bd by simp
  moreover have "real_extract start f EOS False = Some (drop i s)"
    using assms i(1,4) unfolding b_def s_def
    by (simp add: real_extract_def real_move_to_abs_word_def strext_def Let_def)
  ultimately show ?thesis by simp
qed

lemma extract_nothing:
  assumes "0 \<le> f" "f < EOS" "l < f"
  shows "real_extract u f l False = Some []"
proof -
  define s where "s = remove_trailing_spaces (dropWhile my_isspace u)"
  have "\<exists>j. move_abs_loop s (skip_fwd my_isspace s 0) m False = Some j" for m
    using move_abs_loop_spec [of "skip_fwd my_isspace s 0" s m] skip_fwd_bounds [of 0 s my_isspace] by auto
  then obtain i k where "real_move_to_abs_word s f False = Some i" "real_move_to_abs_word s (l + 1) False = Some k"
    unfolding real_move_to_abs_word_def by meson
  then show ?thesis using assms by (simp add: real_extract_def s_def [symmetric] Let_def)
qed

text \<open>Without quotes in the text, \<open>extractw\<close> is \<open>extract\<close>.\<close>

lemma move_abs_no_quotes: "quote \<notin> set s \<Longrightarrow> move_abs_loop s i k True = move_abs_loop s i k False"
proof (induction k arbitrary: i)
  case (Suc k)
  have "word_end s j True = word_end s j False" for j
  proof -
    have "cat s j \<noteq> quote" using Suc.prems by (cases "j < length s") (simp_all, metis nth_mem)
    then show ?thesis by (simp add: word_end_def)
  qed
  then show ?case using Suc by (cases "word_end s i False") simp_all
qed simp

lemma extract_no_quotes:
  assumes "quote \<notin> set start" "0 \<le> f" "f \<noteq> EOS"
  shows "real_extract start f l True = real_extract start f l False"
proof -
  have "set (remove_trailing_spaces u) \<subseteq> set u" for u
    using trim_rev_spec [of "rev u"] unfolding remove_trailing_spaces_def
    by (metis set_append set_rev sup_ge2)
  then have "quote \<notin> set (remove_trailing_spaces (dropWhile my_isspace start))"
    using assms(1) set_dropWhileD by fastforce
  then have "real_move_to_abs_word (remove_trailing_spaces (dropWhile my_isspace start)) k True
      = real_move_to_abs_word (remove_trailing_spaces (dropWhile my_isspace start)) k False" for k
    by (simp add: real_move_to_abs_word_def move_abs_no_quotes)
  then show ?thesis using assms(2,3) by (simp add: real_extract_def Let_def cong: option.case_cong if_cong)
qed

definition text_word :: "cstr \<Rightarrow> bool" where
  "text_word w \<longleftrightarrow> plain_word w \<and> list_all nonspace w"

lemma words_text_word: "text_word w \<Longrightarrow> words w = [w]"
proof -
  assume w: "text_word w"
  then have a: "\<forall>c \<in> set w. nonspace c" "w \<noteq> []" by (auto simp: text_word_def list_all_iff plain_word_def)
  then have "dropWhile my_isspace w = w" by (cases w) auto
  moreover have "takeWhile nonspace w = w" "dropWhile nonspace w = []"
    using a by (auto simp: takeWhile_eq_all_conv dropWhile_eq_Nil_conv)
  ultimately show ?thesis using a by (subst words.simps) (simp add: Let_def words.simps [of "[]"])
qed

lemma words_joined: "words (u @ CHR '' '' # v) = words u @ words v"
proof -
  have sp: "my_isspace (CHR '' '')" by (simp add: my_isspace_def)
  have "words (CHR '' '' # v) = words (dropWhile my_isspace (CHR '' '' # v))" by (simp only: words_skip)
  also have "\<dots> = words v" using sp by simp
  finally show ?thesis using words_append [of "CHR '' '' # v" u] sp by simp
qed

lemma words_put_between: "text_word w \<Longrightarrow> words (put_between s1 w s2) = words s1 @ w # words s2"
  using words_text_word [of w] words_joined
  by (cases s2; cases "s1 = []")
    (auto simp: put_between_def RETURN_MSTR_def m_s3cat_s_def m_3cat_def words.simps [of "[]"])

lemma splice_words:
  assumes "- 1 \<le> l" "l < EOS" "0 \<le> r" "r < EOS" "text_word w"
  shows "\<exists>t. splice line l w r = Inr t \<and>
    words t = take (nat (l + 1)) (words line) @ w # drop (nat r) (words line)"
proof -
  obtain s1 where s1: "real_extract line 0 l False = Some s1" "words s1 = take (nat (l + 1)) (words line)"
  proof (cases "l = - 1")
    case True
    then have "real_extract line 0 l False = Some []" by (simp add: extract_nothing)
    then show thesis using that True by (simp add: words.simps [of "[]"])
  next
    case False
    then show thesis using that real_extract_words [of 0 l line] assms by auto
  qed
  obtain s2 where "real_extract line r EOS False = Some s2" "words s2 = drop (nat r) (words line)"
    using extract_rest [of r line] assms by auto
  then show ?thesis using s1 words_put_between [OF assms(5), of s1 s2] by (simp add: splice_def or_hang_def)
qed

text \<open>
  C26: The functions that take words by their number are operations on the list of the words of the
  text, for every text without quotes: CHNGW replaces word n, INSERTW puts a word before word n,
  RESTW drops the first n words, LEFTW keeps the first n words and MIDW the m words from word n on.
  All of them return. The numbers are not negative and smaller than 32767, which the code uses as EOS,
  the mark for the end of the text (n is smaller than 32766 and n + m than 32767, as CHNGW asks for the
  words from n + 1 on and MIDW for those up to n + m - 1); what happens there is \<open>eos_is_a_number\<close>.
  Word 0 is included: \<open>extract\<close> gives nothing for the words from 0 to -1, against the doubt in the
  comment of \<open>function_chngw\<close>.
\<close>

theorem word_functions_on_lists:
  assumes "0 \<le> n" "n < 32766" "0 < m" "n + m < 32767" "text_word w" "quote \<notin> set line"
  shows "(\<exists>t. function_chngw (ltoa n @ CHR '' '' # w @ CHR '' '' # line) = Inr t \<and>
      words t = take (nat n) (words line) @ w # drop (nat n + 1) (words line))
    \<and> (0 < n \<longrightarrow> (\<exists>t. function_insertw (ltoa n @ CHR '' '' # w @ CHR '' '' # line) = Inr t \<and>
      words t = take (nat n) (words line) @ w # drop (nat n) (words line)))
    \<and> (\<exists>t. function_restw (ltoa n @ CHR '' '' # line) = Inr t \<and> words t = drop (nat n) (words line))
    \<and> (\<exists>t. function_leftw (ltoa m @ CHR '' '' # line) = Inr t \<and> words t = take (nat m) (words line))
    \<and> (\<exists>t. function_midw (ltoa n @ CHR '' '' # ltoa m @ CHR '' '' # line) = Inr t \<and>
      words t = take (nat m) (drop (nat n) (words line)))"
proof -
  have ok: "int_ok n" "int_ok m" "int_ok (n + m)" "int_ok (n + 1)" using assms by (auto simp: int_ok_def)
  have w: "plain_word w" using assms(5) by (simp add: text_word_def)
  have n1: "nat (n + 1) = nat n + 1" using assms by simp
  have "\<exists>t. function_chngw (ltoa n @ CHR '' '' # w @ CHR '' '' # line) = Inr t \<and>
      words t = take (nat n) (words line) @ w # drop (nat n + 1) (words line)"
    using splice_words [of "n - 1" "n + 1" w line] assms ok
    by (simp add: function_chngw_def int_arg_number str_arg_word [OF w] n1)
  moreover have "0 < n \<longrightarrow> (\<exists>t. function_insertw (ltoa n @ CHR '' '' # w @ CHR '' '' # line) = Inr t \<and>
      words t = take (nat n) (words line) @ w # drop (nat n) (words line))"
    using splice_words [of "n - 1" n w line] assms ok
    by (simp add: function_insertw_def int_arg_number str_arg_word [OF w])
  moreover have "\<exists>t. function_restw (ltoa n @ CHR '' '' # line) = Inr t \<and> words t = drop (nat n) (words line)"
    using extract_rest [of n line] assms ok by (auto simp: function_restw_def int_arg_number or_hang_def)
  moreover have "\<exists>t. function_leftw (ltoa m @ CHR '' '' # line) = Inr t \<and> words t = take (nat m) (words line)"
    using real_extract_words [of 0 "m - 1" line] assms ok
    by (auto simp: function_leftw_def int_arg_number or_hang_def extractw_def extract_no_quotes)
  moreover have "\<exists>t. function_midw (ltoa n @ CHR '' '' # ltoa m @ CHR '' '' # line) = Inr t \<and>
      words t = take (nat m) (drop (nat n) (words line))"
    using real_extract_words [of n "n + m - 1" line] assms ok
    by (auto simp: function_midw_def int_arg_number or_hang_def extractw_def extract_no_quotes)
  ultimately show ?thesis by blast
qed

text \<open>The number 32767 is not told from the mark for the end: the last word is taken instead.\<close>

lemma eos_is_a_number:
  "function_restw ''32767 a b'' = Inr '' b''"
  "function_chngw ''32766 w a b'' = Inr ''a b w  b''"
  by code_simp+

subsection \<open>Joined words\<close>

lemma joinw_Cons: "ws \<noteq> [] \<Longrightarrow> joinw (w # ws) = w @ CHR '' '' # joinw ws"
  by (cases ws) simp_all

lemma joinw_nonempty: "[] \<notin> set ws \<Longrightarrow> ws \<noteq> [] \<Longrightarrow> joinw ws \<noteq> []"
  by (induction ws rule: joinw.induct) auto

lemma joinw_snoc: "ws \<noteq> [] \<Longrightarrow> joinw (ws @ [w]) = joinw ws @ '' '' @ w"
  by (induction ws rule: joinw.induct) auto

definition joined :: "cstr list \<Rightarrow> cstr option" where
  "joined ws = (if ws = [] then None else Some (joinw ws))"

lemma joined_simps [simp]: "joined [] = None" "RETURN_MSTR (joined ws) = joinw ws"
  by (simp_all add: joined_def RETURN_MSTR_def)

lemma add_word_joined: "[] \<notin> set ws \<Longrightarrow> add_word w (joined ws) = joined (ws @ [w])"
  using joinw_nonempty [of ws] joinw_snoc [of ws w]
  by (auto simp: add_word_def joined_def m_s3cat_def m_3cat_def)

lemma foldl_add_word:
  "[] \<notin> set us \<union> set ws \<Longrightarrow> foldl (\<lambda>b w. if P w then add_word w b else b) (joined us) ws = joined (us @ filter P ws)"
  by (induction ws arbitrary: us) (auto simp: add_word_joined)

lemma add_word_pow: "[] \<notin> set us \<Longrightarrow> w \<noteq> [] \<Longrightarrow> (add_word w ^^ n) (joined us) = joined (us @ replicate n w)"
  by (induction n) (auto simp: add_word_joined replicate_append_same [symmetric])

lemma plain_nonempty: "list_all plain_word ws \<Longrightarrow> [] \<notin> set ws"
  by (auto simp: list_all_iff plain_word_def)

lemma str_arg_joinw: "plain_word w \<Longrightarrow> GET_STR_ARG (joinw (w # ws)) = Some (w, joinw ws)"
  by (cases ws) (simp_all add: str_arg_word)

subsection \<open>Choosing words with a pattern\<close>

lemma wild_match_no_set: "split_open p = None \<Longrightarrow> wild_match p s = Some (new_match p s)"
  by (subst wild_match.simps) simp

definition choice :: "(cstr \<Rightarrow> bool) \<Rightarrow> cstr option \<Rightarrow> cstr list \<Rightarrow> cstr option" where
  "choice P = foldl (\<lambda>b w. if P w then add_word w b else b)"

lemma choice_simps [simp]: "choice P b [] = b" "choice P b (w # ws) = choice P (if P w then add_word w b else b) ws"
  by (simp_all add: choice_def)

lemma choice_joined: "list_all plain_word ws \<Longrightarrow> choice P None ws = joined (filter P ws)"
  using foldl_add_word [of "[]" ws P] plain_nonempty [of ws] by (simp add: choice_def)

lemma select_words_step:
  "new_next_arg input = (Some w, r) \<Longrightarrow> keep w = Some k \<Longrightarrow>
     select_words keep b input = select_words keep (if k then add_word w b else b) r"
  by (subst select_words.simps) (simp add: add_word_def)

lemma select_words_plain:
  "list_all plain_word ws \<Longrightarrow> \<forall>w \<in> set ws. keep w = Some (P w) \<Longrightarrow>
     select_words keep b (joinw ws) = Some (RETURN_MSTR (choice P b ws))"
proof (induction ws arbitrary: b rule: joinw.induct)
  case 1
  then show ?case by (subst select_words.simps) (simp add: new_next_arg_def)
next
  case (2 w)
  have "select_words keep c [] = Some (RETURN_MSTR c)" for c
    by (subst select_words.simps) (simp add: new_next_arg_def)
  then show ?case using 2 new_next_arg_plain(1) [of w] by (simp add: select_words_step)
next
  case (3 w v ws)
  then show ?case using new_next_arg_plain(2) [of w "joinw (v # ws)"] by (simp add: select_words_step)
qed

lemma select_words_before:
  "list_all plain_word ws \<Longrightarrow> ws \<noteq> [] \<Longrightarrow> \<forall>w \<in> set ws. keep w = Some (P w) \<Longrightarrow>
     select_words keep b (joinw ws @ CHR '' '' # e) = select_words keep (choice P b ws) e"
proof (induction ws arbitrary: b rule: joinw.induct)
  case (2 w)
  then show ?case using new_next_arg_plain(2) [of w e] by (simp add: select_words_step)
next
  case (3 w v ws)
  then show ?case using new_next_arg_plain(2) [of w "joinw (v # ws) @ CHR '' '' # e"] by (simp add: select_words_step)
qed simp

lemma select_words_blank: "s \<noteq> [] \<Longrightarrow> list_all risspace s \<Longrightarrow> select_words keep b s = None"
proof (cases "select_words keep b s")
  case (Some y)
  assume s: "s \<noteq> []" "list_all risspace s"
  then have "dropWhile risspace s = []" by (simp add: list_all_iff dropWhile_eq_Nil_conv)
  then have n: "new_next_arg s = (Some [], s)" using s by (simp add: new_next_arg_def)
  have "t = s \<longrightarrow> False" if "select_words k b t = Some z" for k b t z
    by (rule select_words.raw_induct [where P = "\<lambda>k b t z. t = s \<longrightarrow> False", OF _ that])
      (use n in \<open>fastforce split: bind_splits\<close>)
  then show ?thesis using Some by blast
qed simp

lemma selecting_plain:
  assumes "plain_word p" "list_all plain_word ws" "\<And>w. keep p w = Some (P w)"
  shows "selecting keep (joinw (p # ws)) = Inr (joinw (filter P ws))"
    and "selecting keep (joinw (p # ws) @ CHR '' '' # CHR '' '' # replicate n (CHR '' '')) = Inl NoReturn"
proof -
  show "selecting keep (joinw (p # ws)) = Inr (joinw (filter P ws))"
    using assms select_words_plain [of ws "keep p" P None]
    by (simp add: selecting_def str_arg_joinw choice_joined or_hang_def)
  define e where "e = CHR '' '' # replicate n (CHR '' '')"
  have e: "select_words k b e = None" for k b
    by (rule select_words_blank) (simp_all add: e_def risspace_def list_all_iff)
  have "selecting keep (joinw (p # ws) @ CHR '' '' # e) = Inl NoReturn"
  proof (cases ws)
    case Nil
    then show ?thesis using assms e by (simp add: selecting_def str_arg_word or_hang_def)
  next
    case (Cons v vs)
    have "GET_STR_ARG (joinw (p # ws) @ CHR '' '' # e) = Some (p, joinw ws @ CHR '' '' # e)"
      using Cons str_arg_word(1) [OF assms(1), of "joinw ws @ CHR '' '' # e"] by simp
    then show ?thesis using Cons assms e select_words_before [of ws "keep p" P None e]
      by (simp add: selecting_def or_hang_def)
  qed
  then show "selecting keep (joinw (p # ws) @ CHR '' '' # CHR '' '' # replicate n (CHR '' '')) = Inl NoReturn"
    by (simp add: e_def)
qed

text \<open>
  C29: PATTERN and FILTER divide the words of a text: the words the pattern matches and the others, each
  in the order of the text. When two or more blanks follow the last word neither of them returns.
\<close>

theorem pattern_filter_partition:
  assumes "plain_word p" "list_all plain_word ws" "split_open p = None"
  shows "function_pattern (joinw (p # ws)) = Inr (joinw (filter (\<lambda>w. new_match p w \<noteq> 0) ws))
    \<and> function_filter (joinw (p # ws)) = Inr (joinw (filter (\<lambda>w. \<not> new_match p w \<noteq> 0) ws))
    \<and> function_pattern (joinw (p # ws) @ CHR '' '' # CHR '' '' # replicate n (CHR '' '')) = Inl NoReturn
    \<and> function_filter (joinw (p # ws) @ CHR '' '' # CHR '' '' # replicate n (CHR '' '')) = Inl NoReturn"
proof -
  have m: "matches p w = Some (new_match p w \<noteq> 0)" for w
    using assms(3) by (simp add: matches_def wild_match_no_set)
  show ?thesis
    using selecting_plain [OF assms(1,2), of matches "\<lambda>w. new_match p w \<noteq> 0"]
      selecting_plain [OF assms(1,2), of "\<lambda>p w. map_option Not (matches p w)" "\<lambda>w. \<not> new_match p w \<noteq> 0"] m
    by (simp add: function_pattern_def function_filter_def)
qed

subsection \<open>The best match\<close>

fun best_of :: "(cstr \<Rightarrow> int) \<Rightarrow> int \<Rightarrow> int \<Rightarrow> int \<Rightarrow> cstr list \<Rightarrow> int" where
  "best_of f best found i [] = found"
| "best_of f best found i (w # ws) =
     (if best < f w then best_of f (f w) (i + 1) (i + 1) ws else best_of f best found (i + 1) ws)"

text \<open>Number k of a list, counted from 1, is the first of those with the largest positive value; 0 when no value is positive.\<close>

definition first_best :: "(cstr \<Rightarrow> int) \<Rightarrow> cstr list \<Rightarrow> int \<Rightarrow> bool" where
  "first_best f ws k \<longleftrightarrow>
     (k = 0 \<and> (\<forall>w \<in> set ws. f w \<le> 0)) \<or>
     (\<exists>j < length ws. k = int j + 1 \<and> 0 < f (ws ! j) \<and> (\<forall>w \<in> set ws. f w \<le> f (ws ! j)) \<and> (\<forall>l < j. f (ws ! l) < f (ws ! j)))"

lemma best_of_spec:
  "(best_of f b k i ws = k \<and> (\<forall>w \<in> set ws. f w \<le> b)) \<or>
   (\<exists>j < length ws. best_of f b k i ws = i + int j + 1 \<and> b < f (ws ! j) \<and> (\<forall>w \<in> set ws. f w \<le> f (ws ! j)) \<and>
      (\<forall>l < j. f (ws ! l) < f (ws ! j)))"
proof (induction ws arbitrary: b k i)
  case (Cons w ws)
  define c where "c = (if b < f w then f w else b)"
  define m where "m = (if b < f w then i + 1 else k)"
  have s: "best_of f b k i (w # ws) = best_of f c m (i + 1) ws" by (simp add: c_def m_def)
  have c: "b \<le> c" "f w \<le> c" by (auto simp: c_def)
  from Cons [of c m "i + 1"] show ?case
  proof (elim disjE exE conjE)
    assume r: "best_of f c m (i + 1) ws = m" "\<forall>v \<in> set ws. f v \<le> c"
    show ?thesis
    proof (cases "b < f w")
      case True
      then show ?thesis using r s by (intro disjI2 exI [of _ 0]) (auto simp: c_def m_def)
    next
      case False
      then show ?thesis using r s by (intro disjI1) (auto simp: c_def m_def)
    qed
  next
    fix j
    assume j: "j < length ws" "best_of f c m (i + 1) ws = i + 1 + int j + 1" "c < f (ws ! j)"
      "\<forall>w \<in> set ws. f w \<le> f (ws ! j)" "\<forall>l < j. f (ws ! l) < f (ws ! j)"
    have "\<forall>l < Suc j. f ((w # ws) ! l) < f (ws ! j)"
      using j(3,5) c by (auto simp: nth_Cons split: nat.split)
    then show ?thesis using j s c by (intro disjI2 exI [of _ "Suc j"]) auto
  qed
qed simp

lemma best_of_first: "first_best f ws (best_of f 0 0 0 ws)"
  using best_of_spec [of f 0 0 0 ws] unfolding first_best_def by force

lemma text_word_start: "text_word w \<Longrightarrow> dropWhile my_isspace (w @ s) = w @ s"
  by (cases w) (auto simp: text_word_def plain_word_def)

lemma text_words_start: "list_all text_word ws \<Longrightarrow> dropWhile my_isspace (joinw ws) = joinw ws"
  by (cases ws rule: joinw.cases) (use text_word_start [of _ "[]"] text_word_start in auto)

lemma text_plain: "text_word w \<Longrightarrow> plain_word w" "list_all text_word ws \<Longrightarrow> list_all plain_word ws"
  by (auto simp: text_word_def list_all_iff)

lemma words_joinw: "list_all text_word ws \<Longrightarrow> words (joinw ws) = ws"
proof (induction ws rule: joinw.induct)
  case 1
  then show ?case by (simp add: words.simps [of "[]"])
next
  case (3 w v ws)
  then show ?case using words_joined [of w "joinw (v # ws)"] by (simp add: words_text_word)
qed (simp add: words_text_word)

lemma best_word_loop_joinw:
  "list_all text_word ws \<Longrightarrow> split_open p = None \<Longrightarrow>
     best_word_loop p (joinw ws) b f i = Inr (ltoa (best_of (new_match p) b f i ws))"
proof (induction ws arbitrary: b f i)
  case Nil
  then show ?case by (simp add: best_word_loop.simps)
next
  case (Cons w ws)
  have "joinw (w # ws) \<noteq> []" using Cons.prems plain_nonempty [OF text_plain(2)] joinw_nonempty by blast
  moreover have "dropWhile my_isspace (joinw (w # ws)) = joinw (w # ws)" by (rule text_words_start [OF Cons.prems(1)])
  ultimately show ?case using Cons
    by (subst best_word_loop.simps) (simp add: str_arg_joinw text_plain wild_match_no_set or_hang_def)
qed

lemma best_word_loop_blank:
  "list_all text_word ws \<Longrightarrow> ws \<noteq> [] \<Longrightarrow> split_open p = None \<Longrightarrow> list_all risspace e \<Longrightarrow> e \<noteq> [] \<Longrightarrow>
     best_word_loop p (joinw ws @ CHR '' '' # e) b f i = Inr []"
proof (induction ws arbitrary: b f i)
  case (Cons w ws)
  have d: "dropWhile my_isspace (w @ s) = w @ s" for s using Cons.prems(1) by (simp add: text_word_start)
  have w: "plain_word w" "w \<noteq> []" using Cons.prems(1) by (auto simp: text_word_def plain_word_def)
  show ?case
  proof (cases "ws = []")
    case True
    have "my_isspace (CHR '' '')" by (simp add: my_isspace_def)
    then have "\<forall>c \<in> set e. my_isspace c" using Cons.prems(4) unfolding list_all_iff risspace_def by metis
    then have "best_word_loop p e b f i = Inr []" for b f i
    proof -
      have "GET_STR_ARG (dropWhile my_isspace e) = None"
        using \<open>\<forall>c \<in> set e. my_isspace c\<close> by (simp add: GET_STR_ARG_def empty_iff dropWhile_eq_Nil_conv [THEN iffD2])
      then show ?thesis using Cons.prems(5) by (subst best_word_loop.simps) simp
    qed
    then show ?thesis using True Cons.prems w d
      by (subst best_word_loop.simps) (simp add: str_arg_word wild_match_no_set or_hang_def)
  next
    case False
    then have "joinw (w # ws) @ CHR '' '' # e = w @ CHR '' '' # joinw ws @ CHR '' '' # e" by (simp add: joinw_Cons)
    then show ?thesis using False Cons w d
      by (subst best_word_loop.simps) (simp add: str_arg_word wild_match_no_set or_hang_def)
  qed
qed simp

lemma best_pattern_loop_joinw:
  "list_all text_word ps \<Longrightarrow> list_all (\<lambda>p. split_open p = None) ps \<Longrightarrow>
     best_pattern_loop w (joinw ps) b f i = Inr (ltoa (best_of (\<lambda>p. new_match p w) b f i ps))"
proof (induction ps arbitrary: b f i)
  case Nil
  then show ?case by (simp add: best_pattern_loop.simps)
next
  case (Cons p ps)
  have "joinw (p # ps) \<noteq> []" using Cons.prems plain_nonempty [OF text_plain(2)] joinw_nonempty by blast
  moreover have "dropWhile my_isspace (joinw (p # ps)) = joinw (p # ps)" by (rule text_words_start [OF Cons.prems(1)])
  ultimately show ?case using Cons text_words_start [of ps]
    by (subst best_pattern_loop.simps) (simp add: str_arg_joinw text_plain wild_match_no_set or_hang_def)
qed

lemma rmatch_joinw:
  assumes "plain_word w" "list_all text_word ps" "list_all (\<lambda>p. split_open p = None) ps"
  shows "function_rmatch (joinw (w # ps)) = Inr (ltoa (best_of (\<lambda>p. new_match p w) 0 0 0 ps))"
  using assms by (simp add: function_rmatch_def str_arg_joinw best_pattern_loop_joinw)

text \<open>
  MATCH returns the number of the first word among those that the pattern matches best, RMATCH the
  number of the first pattern among those that match the word best, and 0 when nothing matches; but
  when two or more blanks follow the last word MATCH returns the empty string, whatever it has found.
\<close>

lemma match_finds_best:
  assumes "plain_word p" "list_all text_word ws" "split_open p = None" "list_all (\<lambda>w. split_open w = None) ws" "ws \<noteq> []"
  shows "\<exists>k l. function_match (joinw (p # ws)) = Inr (ltoa k) \<and> first_best (new_match p) ws k \<and>
    function_rmatch (joinw (p # ws)) = Inr (ltoa l) \<and> first_best (\<lambda>q. new_match q p) ws l \<and>
    function_match (joinw (p # ws) @ CHR '' '' # CHR '' '' # replicate n (CHR '' '')) = Inr []"
proof -
  define e where "e = CHR '' '' # replicate n (CHR '' '')"
  have e: "list_all risspace e" "e \<noteq> []" by (simp_all add: e_def risspace_def list_all_iff)
  have "GET_STR_ARG (joinw (p # ws) @ CHR '' '' # e) = Some (p, joinw ws @ CHR '' '' # e)"
    using str_arg_word(1) [OF assms(1), of "joinw ws @ CHR '' '' # e"] assms(5) by (simp add: joinw_Cons)
  then have "function_match (joinw (p # ws) @ CHR '' '' # e) = Inr []"
    using best_word_loop_blank [OF assms(2,5,3) e] by (simp add: function_match_def)
  moreover have "function_match (joinw (p # ws)) = Inr (ltoa (best_of (new_match p) 0 0 0 ws))"
    using assms by (simp add: function_match_def str_arg_joinw best_word_loop_joinw)
  ultimately show ?thesis using rmatch_joinw [OF assms(1,2,4)] best_of_first unfolding e_def by blast
qed

text \<open>
  C27: BEFOREW, TOW, FROMW and AFTERW cut the words after the first one in two at the first of those that,
  as patterns, match the first word best: BEFOREW and FROMW give the two parts, as do TOW and AFTERW, and the
  one it is cut at is the first of FROMW and the last of TOW. Without a match all four are empty.
\<close>

theorem cut_words_divide:
  assumes "text_word w" "list_all text_word ps" "list_all (\<lambda>p. split_open p = None) ps"
    and "quote \<notin> set (joinw (w # ps))" "length ps < 32766"
  shows "\<exists>k b t f a. first_best (\<lambda>p. new_match p w) ps k \<and>
    function_beforew (joinw (w # ps)) = Inr b \<and> function_tow (joinw (w # ps)) = Inr t \<and>
    function_fromw (joinw (w # ps)) = Inr f \<and> function_afterw (joinw (w # ps)) = Inr a \<and>
    (if k = 0 then b = [] \<and> t = [] \<and> f = [] \<and> a = []
     else words b = take (nat k - 1) ps \<and> words f = drop (nat k - 1) ps \<and> words t = take (nat k) ps \<and> words a = drop (nat k) ps)"
proof -
  define k where "k = best_of (\<lambda>p. new_match p w) 0 0 0 ps"
  have k: "first_best (\<lambda>p. new_match p w) ps k" unfolding k_def by (rule best_of_first)
  then have b: "0 \<le> k" "k \<le> int (length ps)" by (auto simp: first_best_def)
  then have i: "to_int32 k = k" "my_atol (Some (ltoa k)) = k"
    using assms(5) strtol10_ltoa [of k "[]"] by (simp_all add: to_int32_def my_atol_def is_digit_def)
  have cut: "cut_words part (joinw (w # ps)) =
      (if k < 1 then Inr [] else case part k of (x, y) \<Rightarrow> or_hang (real_extract (joinw (w # ps)) x y True))" for part
    using rmatch_joinw [OF text_plain(1) [OF assms(1)] assms(2,3)] i
    by (simp add: cut_words_def k_def [symmetric] extractw_def split: prod.splits)
  have ws: "words (joinw (w # ps)) = w # ps" by (rule words_joinw) (simp add: assms(1,2))
  have plain: "real_extract (joinw (w # ps)) x y True = real_extract (joinw (w # ps)) x y False" if "1 \<le> x" "x < EOS" for x y
    using extract_no_quotes [OF assms(4), of x y] that by simp
  show ?thesis
  proof (cases "k = 0")
    case True
    then show ?thesis using k cut
      by (auto simp: function_beforew_def function_tow_def function_fromw_def function_afterw_def)
  next
    case False
    have kk: "1 \<le> k" "k < EOS" "k + 1 < EOS" "nat k - 1 = nat (k - 1)" using False b assms(5) by auto
    obtain t where t: "function_tow (joinw (w # ps)) = Inr t" "words t = take (nat k) ps"
      using real_extract_words [of 1 k "joinw (w # ps)"] kk ws plain [of 1 k]
      by (auto simp: function_tow_def cut or_hang_def)
    obtain f where f: "function_fromw (joinw (w # ps)) = Inr f" "words f = drop (nat k - 1) ps"
      using extract_rest [of k "joinw (w # ps)"] kk ws plain [of k EOS]
      by (auto simp: function_fromw_def cut or_hang_def drop_Cons' nat_diff_distrib)
    obtain a where a: "function_afterw (joinw (w # ps)) = Inr a" "words a = drop (nat k) ps"
      using extract_rest [of "k + 1" "joinw (w # ps)"] kk ws plain [of "k + 1" EOS]
      by (auto simp: function_afterw_def cut or_hang_def nat_add_distrib)
    obtain c where c: "function_beforew (joinw (w # ps)) = Inr c" "words c = take (nat k - 1) ps"
    proof (cases "k = 1")
      case True
      then show thesis using that kk plain [of 1 0] extract_nothing [of 1 0 "joinw (w # ps)"]
        by (auto simp: function_beforew_def cut or_hang_def words.simps [of "[]"])
    next
      case False
      then show thesis using that real_extract_words [of 1 "k - 1" "joinw (w # ps)"] kk ws plain [of 1 "k - 1"]
        by (auto simp: function_beforew_def cut or_hang_def)
    qed
    show ?thesis using k False t f a c by auto
  qed
qed

subsection \<open>Operations on two sets of words\<close>

abbreviation same_word :: "cstr \<Rightarrow> cstr \<Rightarrow> bool" where
  "same_word l r \<equiv> my_stricmp l r = 0"

text \<open>The right side with the words in \<open>Q\<close> replaced by NULL.\<close>

definition struck :: "(cstr \<Rightarrow> bool) \<Rightarrow> cstr list \<Rightarrow> cstr option list" where
  "struck Q rs = map (\<lambda>r. if Q r then None else Some r) rs"

lemma strike_struck:
  "strike w (struck Q rs) = (length (filter (\<lambda>r. \<not> Q r \<and> same_word w r) rs), struck (\<lambda>r. Q r \<or> same_word w r) rs)"
  by (induction rs) (auto simp: struck_def)

definition no_match :: "cstr list \<Rightarrow> cstr \<Rightarrow> bool" where
  "no_match ls r \<longleftrightarrow> (\<forall>l \<in> set ls. \<not> same_word l r)"

text \<open>No word of the right side is the same as two words of the left side.\<close>

fun told_apart :: "cstr list \<Rightarrow> cstr list \<Rightarrow> bool" where
  "told_apart [] rs = True"
| "told_apart (l # ls) rs \<longleftrightarrow> (\<forall>r \<in> set rs. same_word l r \<longrightarrow> no_match ls r) \<and> told_apart ls rs"

lemma told_apart_distinct:
  "list_all no_nul ls \<Longrightarrow> list_all no_nul rs \<Longrightarrow> distinct (map ckey ls) \<Longrightarrow> told_apart ls rs"
  by (induction ls) (auto simp: list_all_iff no_match_def my_stricmp_zero_iff image_iff)

lemma diff_loop_struck:
  assumes "told_apart ls rs" "[] \<notin> set us \<union> set ls \<union> set rs" "\<forall>r \<in> set rs. Q r \<longrightarrow> no_match ls r"
  shows "diff_loop (joined us) ls (struck Q rs)
    = joined (us @ filter (\<lambda>l. \<forall>r \<in> set rs. \<not> same_word l r) ls @ filter (\<lambda>r. \<not> Q r \<and> no_match ls r) rs)"
  using assms
proof (induction ls arbitrary: us Q)
  case Nil
  have "foldl (\<lambda>b r. case r of None \<Rightarrow> b | Some w \<Rightarrow> add_word w b) b (struck Q rs)
      = foldl (\<lambda>b r. if \<not> Q r then add_word r b else b) b rs" for b
    unfolding struck_def by (induction rs arbitrary: b) auto
  then show ?case using foldl_add_word [of us rs "\<lambda>r. \<not> Q r"] Nil by (simp add: no_match_def)
next
  case (Cons l ls)
  define Q' where "Q' = (\<lambda>r. Q r \<or> same_word l r)"
  define n where "n = length (filter (\<lambda>r. \<not> Q r \<and> same_word l r) rs)"
  have n: "n = 0 \<longleftrightarrow> (\<forall>r \<in> set rs. \<not> same_word l r)"
    using Cons.prems(3) by (auto simp: n_def filter_empty_conv no_match_def)
  define vs where "vs = (if n = 0 then us @ [l] else us)"
  have "diff_loop (joined us) (l # ls) (struck Q rs) = diff_loop (joined vs) ls (struck Q' rs)"
    using Cons.prems(2) by (simp add: strike_struck n_def [symmetric] Q'_def vs_def add_word_joined)
  also have "\<dots> = joined (vs @ filter (\<lambda>l. \<forall>r \<in> set rs. \<not> same_word l r) ls @ filter (\<lambda>r. \<not> Q' r \<and> no_match ls r) rs)"
  proof (rule Cons.IH)
    show "told_apart ls rs" using Cons.prems(1) by simp
    show "[] \<notin> set vs \<union> set ls \<union> set rs" using Cons.prems(2) by (simp add: vs_def)
    show "\<forall>r \<in> set rs. Q' r \<longrightarrow> no_match ls r" using Cons.prems(1,3) by (simp add: Q'_def no_match_def)
  qed
  also have "filter (\<lambda>r. \<not> Q' r \<and> no_match ls r) rs = filter (\<lambda>r. \<not> Q r \<and> no_match (l # ls) r) rs"
    by (rule filter_cong) (auto simp: Q'_def no_match_def)
  finally show ?case using n by (simp add: vs_def)
qed

lemma common_loop_struck:
  assumes "told_apart ls rs" "[] \<notin> set us \<union> set ls \<union> set rs" "\<forall>r \<in> set rs. Q r \<longrightarrow> no_match ls r"
  shows "common_loop (joined us) ls (struck Q rs)
    = joined (us @ concat (map (\<lambda>l. replicate (length (filter (same_word l) rs)) l) ls))"
  using assms
proof (induction ls arbitrary: us Q)
  case (Cons l ls)
  define Q' where "Q' = (\<lambda>r. Q r \<or> same_word l r)"
  have n: "filter (\<lambda>r. \<not> Q r \<and> same_word l r) rs = filter (same_word l) rs"
    using Cons.prems(3) by (intro filter_cong) (auto simp: no_match_def)
  define vs where "vs = us @ replicate (length (filter (same_word l) rs)) l"
  have "common_loop (joined us) (l # ls) (struck Q rs) = common_loop (joined vs) ls (struck Q' rs)"
  proof -
    have "(add_word l ^^ k) (joined us) = joined (us @ replicate k l)" for k
      using Cons.prems(2) by (intro add_word_pow) auto
    then show ?thesis by (simp add: strike_struck n Q'_def vs_def)
  qed
  also have "\<dots> = joined (vs @ concat (map (\<lambda>l. replicate (length (filter (same_word l) rs)) l) ls))"
  proof (rule Cons.IH)
    show "told_apart ls rs" using Cons.prems(1) by simp
    show "[] \<notin> set vs \<union> set ls \<union> set rs" using Cons.prems(2) by (simp add: vs_def)
    show "\<forall>r \<in> set rs. Q' r \<longrightarrow> no_match ls r" using Cons.prems(1,3) by (simp add: Q'_def no_match_def)
  qed
  finally show ?case by (simp add: vs_def)
qed simp

lemma cut_at_first: "c \<notin> set l \<Longrightarrow> cut_at c (l @ c # r) = Some (l, r)"
proof -
  assume "c \<notin> set l"
  then have "dropWhile (\<lambda>d. d \<noteq> c) (l @ c # r) = c # r" by (subst dropWhile_append2) auto
  then show ?thesis by (simp add: cut_at_def strchr_at_def)
qed

lemma splitw_words: "splitw s = map Some (word_list s)"
proof -
  have "None \<notin> set (splitw s)" using splitw_loop_all [of "word_count s" s] by (auto simp: splitw_def split: prod.splits)
  then have "Some (the x) = x" if "x \<in> set (splitw s)" for x using that by (cases x) auto
  then show ?thesis by (simp add: word_list_def o_def map_idI)
qed

text \<open>
  C28: REMWS, DIFF and COMMON are operations on the lists of words of the two sides of a slash, letter case
  ignored and quoted words included: REMWS removes from the right side what is on the left; where
  the words of the left side are different from each other, DIFF gives the words of either side that are not
  on the other, and COMMON each word of the left side once for every time it is on the right. No word is
  empty, and the left side has no slash. The comment of \<open>function_diff\<close> gives for one two three and
  buckle my two shoe a result that keeps two, which is on both sides; \<open>diff_of_the_comment\<close> is what
  the code gives.
\<close>

theorem word_sets_meet_spec:
  assumes "CHR ''/'' \<notin> set l" "[] \<notin> set (word_list l) \<union> set (word_list r)"
    and "list_all no_nul (word_list l)" "list_all no_nul (word_list r)" "distinct (map ckey (word_list l))"
  shows "function_remws (l @ CHR ''/'' # r) = joinw (filter (no_match (word_list l)) (word_list r))
    \<and> function_diff (l @ CHR ''/'' # r) = joinw
        (filter (\<lambda>w. no_match (word_list r) w) (word_list l) @ filter (no_match (word_list l)) (word_list r))
    \<and> function_common (l @ CHR ''/'' # r) = joinw
        (concat (map (\<lambda>w. replicate (length (filter (same_word w) (word_list r))) w) (word_list l)))"
proof -
  define ls where "ls = word_list l"
  define rs where "rs = word_list r"
  note defs = ls_def [symmetric] rs_def [symmetric]
  have apart: "told_apart ls rs" unfolding ls_def rs_def by (rule told_apart_distinct) (use assms in auto)
  have s: "splitw r = struck (\<lambda>r. False) rs" by (simp add: splitw_words rs_def struck_def)
  have sym: "no_match rs w \<longleftrightarrow> (\<forall>v \<in> set rs. \<not> same_word w v)" if "w \<in> set ls" for w
    using that assms(3,4) by (auto simp: no_match_def defs list_all_iff my_stricmp_zero_iff)
  have "foldl (\<lambda>b r. if \<exists>l \<in> set ls. same_word l r then b else add_word r b) None rs
      = foldl (\<lambda>b r. if no_match ls r then add_word r b else b) (joined []) rs"
  proof -
    have "(\<lambda>b r. if \<exists>l \<in> set ls. same_word l r then b else add_word r b) = (\<lambda>b r. if no_match ls r then add_word r b else b)"
      by (intro ext) (simp add: no_match_def)
    then show ?thesis by simp
  qed
  also have "\<dots> = joined (filter (no_match ls) rs)" using foldl_add_word [of "[]" rs "no_match ls"] assms(2) by (simp add: defs)
  finally have "function_remws (l @ CHR ''/'' # r) = joinw (filter (no_match ls) rs)"
    using assms(1) by (simp add: function_remws_def cut_at_first defs)
  moreover have "filter (\<lambda>w. no_match rs w) ls = filter (\<lambda>l. \<forall>r \<in> set rs. \<not> same_word l r) ls"
    by (rule filter_cong) (simp_all add: sym)
  then have "function_diff (l @ CHR ''/'' # r) = joinw (filter (\<lambda>w. no_match rs w) ls @ filter (no_match ls) rs)"
    using diff_loop_struck [OF apart, of "[]" "\<lambda>r. False"] assms(1,2) s
    by (simp add: function_diff_def cut_at_first defs)
  moreover have "function_common (l @ CHR ''/'' # r) = joinw (concat (map (\<lambda>w. replicate (length (filter (same_word w) rs)) w) ls))"
    using common_loop_struck [OF apart, of "[]" "\<lambda>r. False"] assms(1,2) s
    by (simp add: function_common_def cut_at_first defs)
  ultimately show ?thesis by (simp add: defs)
qed

text \<open>The example of the comment of \<open>function_diff\<close>, which leaves two in the result.\<close>

lemma diff_of_the_comment: "function_diff ''one two three / buckle my two shoe'' = ''one three buckle my shoe''"
  by code_simp

text \<open>A word of the left side that comes twice is missed the second time.\<close>

lemma diff_second_kept: "function_diff ''a a/a'' = ''a'' \<and> function_common ''a/a a'' = ''a a''"
  by code_simp

subsection \<open>Rows of numbers\<close>

lemma length_digits: "n < 10 ^ Suc k \<Longrightarrow> length (ltoa_digits n []) \<le> Suc k"
proof (induction k arbitrary: n)
  case 0
  then show ?case using ltoa_digits_rec [of n] by auto
next
  case (Suc k)
  then have "n div 10 < 10 ^ Suc k" by (simp add: less_mult_imp_div_less)
  then show ?case using Suc.IH [of "n div 10"] ltoa_digits_rec [of n] by auto
qed

lemma length_ltoa: "- 100000000 < x \<Longrightarrow> x < 1000000000 \<Longrightarrow> length (ltoa x) \<le> 9"
  using length_digits [of "nat \<bar>x\<bar>" 8] length_digits [of "nat \<bar>x\<bar>" 7]
  by (cases "x < 0") (auto simp: ltoa_def Let_def nat_less_iff)

definition arith_row :: "int \<Rightarrow> int \<Rightarrow> nat \<Rightarrow> int list" where
  "arith_row c d n = map (\<lambda>i. c + int i * d) [0..<n]"

lemma arith_row_0 [simp]: "arith_row c d 0 = []"
  by (simp add: arith_row_def)

lemma arith_row_Suc: "arith_row c d (Suc n) = c # arith_row (c + d) d n"
  unfolding arith_row_def by (subst upt_conv_Cons) (simp_all add: map_Suc_upt [symmetric] algebra_simps del: upt_Suc)

definition add_numbers :: "cstr \<Rightarrow> int list \<Rightarrow> cstr" where
  "add_numbers b xs = foldl (\<lambda>b x. b @ '' '' @ ltoa x) b xs"

lemma jot_add_room:
  "length b + length (ltoa x) + 2 \<le> room \<Longrightarrow> jot_add room b x = b @ '' '' @ ltoa x"
  by (simp add: jot_add_def strlcat_def)

lemma jot_up_row:
  assumes "0 < d" "length b + 1 \<le> 10 * k" "10 * (k + n) \<le> room"
    and "\<And>i. i < n \<Longrightarrow> length (ltoa (c + int i * d)) \<le> 9 \<and> c + int i * d \<le> stop"
    and "stop < c + int n * d" "int_ok c" "int_ok (c + int n * d)"
  shows "jot_up room stop d b c = Inr (add_numbers b (arith_row c d n))"
  using assms
proof (induction n arbitrary: b c k)
  case 0
  then show ?case by (subst jot_up.simps) (simp add: add_numbers_def arith_row_def)
next
  case (Suc n)
  have c: "length (ltoa c) \<le> 9" "c \<le> stop" using Suc.prems(4) [of 0] by auto
  have next': "length (ltoa (c + d + int i * d)) \<le> 9 \<and> c + d + int i * d \<le> stop" if "i < n" for i
    using Suc.prems(4) [of "Suc i"] that by (simp add: algebra_simps)
  have e: "c + d + int n * d = c + int (Suc n) * d" by (simp add: algebra_simps)
  have "c + d \<le> c + int (Suc n) * d" using Suc.prems(1) by (simp add: algebra_simps)
  then have ok: "int_ok (c + d)" using Suc.prems(1,6,7) unfolding int_ok_def by (intro conjI; linarith)
  have "jot_up room stop d (b @ '' '' @ ltoa c) (c + d) = Inr (add_numbers (b @ '' '' @ ltoa c) (arith_row (c + d) d n))"
    using Suc.prems c by (intro Suc.IH [where k = "Suc k"]) (simp_all add: next' e ok)
  moreover have "jot_add room b c = b @ '' '' @ ltoa c"
    using Suc.prems(2,3) c(1) by (intro jot_add_room) simp
  ultimately show ?case using Suc.prems(1,6) c(2)
    by (subst jot_up.simps) (simp add: add_numbers_def arith_row_Suc)
qed

lemma jot_down_row:
  assumes "0 < d" "length b + 1 \<le> 10 * k" "10 * (k + n) \<le> room"
    and "\<And>i. i < n \<Longrightarrow> length (ltoa (c - int i * d)) \<le> 9 \<and> stop \<le> c - int i * d"
    and "c - int n * d < stop" "int_ok c" "int_ok (c - int n * d)"
  shows "jot_down room stop d b c = Inr (add_numbers b (arith_row c (- d) n))"
  using assms
proof (induction n arbitrary: b c k)
  case 0
  then show ?case by (subst jot_down.simps) (simp add: add_numbers_def arith_row_def)
next
  case (Suc n)
  have c: "length (ltoa c) \<le> 9" "stop \<le> c" using Suc.prems(4) [of 0] by auto
  have next': "length (ltoa (c - d - int i * d)) \<le> 9 \<and> stop \<le> c - d - int i * d" if "i < n" for i
    using Suc.prems(4) [of "Suc i"] that by (simp add: algebra_simps)
  have e: "c - d - int n * d = c - int (Suc n) * d" by (simp add: algebra_simps)
  have "c - int (Suc n) * d \<le> c - d" using Suc.prems(1) by (simp add: algebra_simps)
  then have ok: "int_ok (c - d)" using Suc.prems(1,6,7) unfolding int_ok_def by (intro conjI; linarith)
  have "jot_down room stop d (b @ '' '' @ ltoa c) (c - d) = Inr (add_numbers (b @ '' '' @ ltoa c) (arith_row (c - d) (- d) n))"
    using Suc.prems c by (intro Suc.IH [where k = "Suc k"]) (simp_all add: next' e ok)
  moreover have "jot_add room b c = b @ '' '' @ ltoa c"
    using Suc.prems(2,3) c(1) by (intro jot_add_room) simp
  ultimately show ?case using Suc.prems(1,6) c(2)
    by (subst jot_down.simps) (simp add: add_numbers_def arith_row_Suc)
qed

lemma add_numbers_joinw: "add_numbers (joinw (map ltoa (x # xs))) ys = joinw (map ltoa (x # xs @ ys))"
proof (induction ys arbitrary: xs)
  case (Cons y ys)
  have "joinw (map ltoa (x # xs)) @ '' '' @ ltoa y = joinw (map ltoa (x # xs @ [y]))"
    using joinw_snoc [of "map ltoa (x # xs)" "ltoa y"] by simp
  then show ?case using Cons [of "xs @ [y]"] by (simp add: add_numbers_def)
qed (simp add: add_numbers_def)

text \<open>
  C30: JOT counts from start to stop in steps of the interval, up or down, and gives all the numbers that
  it reaches, for numbers of at most nine characters, a range that an int can measure and a positive
  interval, the third argument. The help file says that with more than two arguments the result is the
  first one ($jot(4 6 8) as 4, which a step past the stop gives as well); the code counts with the
  third as interval, and the help file does not know it.
\<close>

theorem jot_counts:
  assumes "- 100000000 < start" "start < 1000000000" "- 100000000 < stop" "stop < 1000000000"
    and "\<bar>stop - start\<bar> < 214748364" "0 < d" "d \<le> 1000000000"
  shows "jot start stop d = Inr (joinw (map ltoa
    (if start \<le> stop then arith_row start d (nat ((stop - start) div d) + 1)
     else arith_row start (- d) (nat ((start - stop) div d) + 1))))"
proof -
  define range where "range = nat (\<bar>stop - start\<bar> + 1)"
  have first: "fst (strlcpy [] (ltoa start) (10 * range)) = ltoa start" "length (ltoa start) + 1 \<le> 10 * 1"
    using length_ltoa [of start] assms(1,2) by (auto simp: strlcpy_def range_def)
  have room: "nat ((\<bar>stop - start\<bar> + 1) * 10) = 10 * range"
  proof -
    have "int (10 * range) = (\<bar>stop - start\<bar> + 1) * 10" by (simp add: range_def)
    then show ?thesis by (metis nat_int)
  qed
  have ok: "int_ok \<bar>d\<bar>" "int_ok (stop - start)" "int_ok \<bar>stop - start\<bar>" "int_ok ((\<bar>stop - start\<bar> + 1) * 10)"
    using assms by (auto simp: int_ok_def abs_le_iff)
  have j: "jot start stop d = (if start < stop then jot_up (10 * range) stop d (ltoa start) (start + d)
      else jot_down (10 * range) stop d (ltoa start) (start - d))"
    unfolding jot_def Let_def room using ok assms(6) first(1) by simp
  have one: "add_numbers (ltoa start) ys = joinw (map ltoa (start # ys))" for ys
    using add_numbers_joinw [of start "[]" ys] by simp
  define q where "q = \<bar>stop - start\<bar> div d"
  have q: "0 \<le> q" "q * d \<le> \<bar>stop - start\<bar>" "\<bar>stop - start\<bar> < (q + 1) * d" "q \<le> \<bar>stop - start\<bar>"
  proof -
    have e: "q * d + \<bar>stop - start\<bar> mod d = \<bar>stop - start\<bar>" unfolding q_def by (rule div_mult_mod_eq)
    have m: "0 \<le> \<bar>stop - start\<bar> mod d" "\<bar>stop - start\<bar> mod d < d" using assms(6) by simp_all
    show "0 \<le> q" using assms(6) by (simp add: q_def pos_imp_zdiv_nonneg_iff)
    then have "q * 1 \<le> q * d" using assms(6) by (intro mult_left_mono) auto
    then show "q \<le> \<bar>stop - start\<bar>" using e m by linarith
    show "q * d \<le> \<bar>stop - start\<bar>" "\<bar>stop - start\<bar> < (q + 1) * d" using e m by (simp_all add: algebra_simps)
  qed
  have steps: "int i * d \<le> \<bar>stop - start\<bar> - d" if "i < nat q" for i
  proof -
    have "(int i + 1) * d \<le> q * d" using that assms(6) by (intro mult_right_mono) auto
    then show ?thesis using q(2) by (simp add: algebra_simps)
  qed
  have pos: "0 \<le> int i * d" for i :: nat using assms(6) by simp
  have rm: "10 * (1 + nat q) \<le> 10 * range" using q(1,4) unfolding range_def by simp
  have qd: "int (nat q) * d = q * d" "(q + 1) * d = q * d + d" using q(1) by (simp_all add: algebra_simps)
  show ?thesis
  proof (cases "start < stop")
    case True
    then have a: "\<bar>stop - start\<bar> = stop - start" by simp
    have ok1: "int_ok (start + d)" "int_ok (start + d + int (nat q) * d)"
      using assms q(1,2) pos [of "nat q"] True unfolding int_ok_def qd a by (intro conjI; linarith)+
    have "jot_up (10 * range) stop d (ltoa start) (start + d) = Inr (add_numbers (ltoa start) (arith_row (start + d) d (nat q)))"
    proof (rule jot_up_row [OF assms(6) first(2) rm])
      fix i assume i: "i < nat q"
      have "start + d + int i * d \<le> stop" using steps [OF i] a by linarith
      moreover have "- 100000000 < start + d + int i * d" using pos [of i] assms(1,6) by linarith
      ultimately show "length (ltoa (start + d + int i * d)) \<le> 9 \<and> start + d + int i * d \<le> stop"
        using length_ltoa [of "start + d + int i * d"] assms(4) by linarith
    next
      show "stop < start + d + int (nat q) * d" using q(3) unfolding qd a by linarith
    qed (use ok1 in auto)
    then show ?thesis using True by (simp add: j one arith_row_Suc q_def)
  next
    case False
    then have a: "\<bar>stop - start\<bar> = start - stop" by simp
    have ok1: "int_ok (start - d)" "int_ok (start - d - int (nat q) * d)"
      using assms q(1,2) pos [of "nat q"] False unfolding int_ok_def qd a by (intro conjI; linarith)+
    have "jot_down (10 * range) stop d (ltoa start) (start - d) = Inr (add_numbers (ltoa start) (arith_row (start - d) (- d) (nat q)))"
    proof (rule jot_down_row [OF assms(6) first(2) rm])
      fix i assume i: "i < nat q"
      have "stop \<le> start - d - int i * d" using steps [OF i] a by linarith
      moreover have "start - d - int i * d < 1000000000" using pos [of i] assms(2,6) by linarith
      ultimately show "length (ltoa (start - d - int i * d)) \<le> 9 \<and> stop \<le> start - d - int i * d"
        using length_ltoa [of "start - d - int i * d"] assms(3) by linarith
    next
      show "start - d - int (nat q) * d < stop" using q(3) unfolding qd a by linarith
    qed (use ok1 in auto)
    then have r: "jot start stop d = Inr (joinw (map ltoa (arith_row start (- d) (nat q + 1))))"
      using False by (simp add: j one arith_row_Suc)
    show ?thesis
    proof (cases "start = stop")
      case True
      then have "arith_row start (- d) (nat q + 1) = arith_row start d (nat ((stop - start) div d) + 1)"
        by (simp add: q_def arith_row_Suc)
      then show ?thesis using r True by simp
    next
      case False
      then show ?thesis using r a \<open>\<not> start < stop\<close> by (simp add: q_def)
    qed
  qed
qed

text \<open>A number of ten digits does not fit into the ten bytes it is given.\<close>

lemma jot_cuts_off: "jot 1000000000 1000000000 1 = Inr ''100000000''"
proof -
  have "length (ltoa_digits 1000000000 []) = 10 \<and> ltoa_digits 1000000000 [] = ''1000000000''"
    by (simp add: ltoa_digits.simps digit_char_def) code_simp
  then show ?thesis
    by (simp add: jot_def Let_def int_ok_def ltoa_def strlcpy_def jot_down.simps)
qed

text \<open>The difference of two numbers is cut to 32 bits.\<close>

lemma numsort_wraps: "num_sort_it ''4294967296'' ''0'' = 0 \<and> num_sort_it ''3000000000'' ''0'' < 0"
  by code_simp

subsection \<open>The table of functions\<close>

text \<open>IGETRMATCHES calls the function of GETRMATCHES; its own is not in the table.\<close>

lemma igetrmatches_not_in_table:
  "List.find (\<lambda>(n, f). n = ''IGETRMATCHES'') nap_func = Some (''IGETRMATCHES'', ''function_getrmatches'') \<and>
   list_all (\<lambda>(n, f). f \<noteq> ''function_igetrmatches'') nap_func"
  by code_simp

subsection \<open>Examples\<close>

lemmas new_match_calc = new_match_def match_init_def match_loop.simps match_step_def step_wild_def
  step_asterisk_def step_percent_def step_plain_def is_wild_def

lemma word_list_joinw: "list_all plain_word ws \<Longrightarrow> word_list (joinw ws) = ws"
  by (simp add: word_list_def splitw_def word_count_joinw splitw_loop_joinw)

lemma example_words: "text_word ''foo''" "list_all text_word [''one'', ''t*'', ''two'']"
  by (simp_all add: text_word_def plain_word_def risspace_def my_isspace_def)

theorem word_functions_on_lists_witness:
  "\<exists>t. function_chngw ''3 foo now is the time for'' = Inr t \<and> words t = [''now'', ''is'', ''the'', ''foo'', ''for'']"
proof -
  have "words ''now is the time for'' = [''now'', ''is'', ''the'', ''time'', ''for'']" "ltoa 3 = ''3''" by code_simp+
  then show ?thesis
    using word_functions_on_lists [of 3 1 "''foo''" "''now is the time for''"] example_words(1)
    by (simp add: numeral_3_eq_3)
qed

theorem pattern_filter_partition_witness:
  "function_pattern ''f* one four five'' = Inr ''four five'' \<and> function_filter ''f* one four five'' = Inr ''one''
    \<and> function_pattern ''f* one four five  '' = Inl NoReturn"
proof -
  have "plain_word ''f*''" "list_all plain_word [''one'', ''four'', ''five'']" "split_open ''f*'' = None"
    by (simp_all add: plain_word_def risspace_def)
  note p = pattern_filter_partition [OF this, of 0]
  have "new_match ''f*'' ''one'' = 0" "new_match ''f*'' ''four'' \<noteq> 0" "new_match ''f*'' ''five'' \<noteq> 0"
    by (simp_all add: new_match_calc Let_def c_tolower_def is_upper_def)
  then show ?thesis using p by simp
qed

theorem cut_words_divide_witness:
  "\<exists>b f. function_beforew ''two one t* two'' = Inr b \<and> words b = [''one'', ''t*''] \<and>
    function_fromw ''two one t* two'' = Inr f \<and> words f = [''two'']"
proof -
  have w: "text_word ''two''" "length [''one'', ''t*'', ''two''] < 32766" by (simp_all add: text_word_def plain_word_def risspace_def my_isspace_def)
  have s: "list_all (\<lambda>p. split_open p = None) [''one'', ''t*'', ''two'']" "quote \<notin> set (joinw (''two'' # [''one'', ''t*'', ''two'']))"
    by simp_all
  have m: "new_match ''one'' ''two'' = 0" "new_match ''t*'' ''two'' = 2" "new_match ''two'' ''two'' = 4"
    by (simp_all add: new_match_calc Let_def c_tolower_def is_upper_def)
  have k: "k = 3" if b: "first_best (\<lambda>p. new_match p ''two'') [''one'', ''t*'', ''two''] k" for k
  proof -
    have "k \<noteq> 0" using b m(3) by (auto simp: first_best_def)
    then obtain j where j: "j < 3" "k = int j + 1"
      "new_match ''two'' ''two'' \<le> new_match ([''one'', ''t*'', ''two''] ! j) ''two''"
      using b unfolding first_best_def by fastforce
    consider "j = 0" | "j = 1" | "j = 2" using j(1) by linarith
    then show ?thesis using j(2,3) m by cases simp_all
  qed
  show ?thesis
    using cut_words_divide [OF w(1) example_words(2) s w(2)] by (auto dest!: k simp: numeral_3_eq_3)
qed

theorem word_sets_meet_spec_witness: "function_diff ''a/A b'' = ''b''"
proof -
  have w: "word_list ''a'' = [''a'']" "word_list ''A b'' = [''A'', ''b'']"
    using word_list_joinw [of "[''a'']"] word_list_joinw [of "[''A'', ''b'']"]
    by (simp_all add: plain_word_def risspace_def)
  have "my_stricmp ''a'' ''A'' = 0" "my_stricmp ''A'' ''a'' = 0" "my_stricmp ''a'' ''b'' \<noteq> 0"
    by code_simp+
  then have n: "filter (no_match [''A'', ''b'']) [''a''] = []" "filter (no_match [''a'']) [''A'', ''b''] = [''b'']"
    by (simp_all add: no_match_def)
  show ?thesis
    using word_sets_meet_spec [of "''a''" "''A b''"] w n by simp
qed

theorem jot_counts_witness: "jot 7 1 3 = Inr ''7 4 1''"
proof -
  have "ltoa 7 = ''7''" "ltoa 4 = ''4''" "ltoa 1 = ''1''" by code_simp+
  then show ?thesis using jot_counts [of 7 1 3] by (simp add: arith_row_def upt_rec)
qed

end
