(* ===== verification/VarLists.thy ===== *)
theory VarLists
  imports VarFuncs TextWords
begin

section \<open>Variables as lists of words\<close>

text \<open>
  PUSH, POP, SHIFT and UNSHIFT against operations on a list, for any variable that gives back
  what was written to it; the variables of scripts are such variables. And what SAR and MSAR replace.
\<close>

subsection \<open>The operations on a list\<close>

datatype list_op = Push cstr | Pop | Shift | Unshift cstr

fun list_step :: "list_op \<Rightarrow> cstr list \<Rightarrow> cstr \<times> cstr list" where
  "list_step (Push w) ws = (joinw (ws @ [w]), ws @ [w])"
| "list_step Pop ws = (last ws, butlast ws)"
| "list_step Shift ws = (hd ws, tl ws)"
| "list_step (Unshift w) ws = (joinw (w # ws), w # ws)"

fun fits :: "list_op \<Rightarrow> cstr list \<Rightarrow> bool" where
  "fits (Push w) ws \<longleftrightarrow> plain_word w"
| "fits (Unshift w) ws \<longleftrightarrow> plain_word w"
| "fits x ws \<longleftrightarrow> 2 \<le> length ws"

fun list_run :: "list_op list \<Rightarrow> cstr list \<Rightarrow> cstr list \<times> cstr list" where
  "list_run [] ws = ([], ws)"
| "list_run (x # xs) ws = (case list_step x ws of (r, ws') \<Rightarrow> case list_run xs ws' of (rs, end_ws) \<Rightarrow> (r # rs, end_ws))"

fun all_fit :: "list_op list \<Rightarrow> cstr list \<Rightarrow> bool" where
  "all_fit [] ws = True"
| "all_fit (x # xs) ws \<longleftrightarrow> fits x ws \<and> all_fit xs (snd (list_step x ws))"

fun word_step :: "'s reading \<Rightarrow> 's writing \<Rightarrow> list_op \<Rightarrow> 's \<Rightarrow> (cstr option \<times> 's) result" where
  "word_step get put (Push w) = push_word get put w"
| "word_step get put Pop = pop_word get put"
| "word_step get put Shift = shift_word get put"
| "word_step get put (Unshift w) = unshift_word get put w"

fun word_run :: "'s reading \<Rightarrow> 's writing \<Rightarrow> list_op list \<Rightarrow> 's \<Rightarrow> (cstr option list \<times> 's) result" where
  "word_run get put [] v = Inr ([], v)"
| "word_run get put (x # xs) v =
     bnd (word_step get put x v) (\<lambda>(r, v1). bnd (word_run get put xs v1) (\<lambda>(rs, v2). Inr (r # rs, v2)))"

lemma strrchr_last: "c \<notin> set w \<Longrightarrow> strrchr (s @ c # w) c = Some (c # w)"
proof -
  assume "c \<notin> set w"
  then have "dropWhile (\<lambda>d. d \<noteq> c) (rev (s @ c # w)) = c # rev s"
    by (simp add: dropWhile_append)
  then show ?thesis by (simp add: strrchr_def)
qed

lemma plain_list_step:
  "list_all plain_word ws \<Longrightarrow> ws \<noteq> [] \<Longrightarrow> fits x ws \<Longrightarrow>
     list_all plain_word (snd (list_step x ws)) \<and> snd (list_step x ws) \<noteq> []"
proof (cases x)
  case Pop
  then show "list_all plain_word ws \<Longrightarrow> ws \<noteq> [] \<Longrightarrow> fits x ws \<Longrightarrow> ?thesis"
    by (cases ws rule: rev_cases) auto
next
  case Shift
  then show "list_all plain_word ws \<Longrightarrow> ws \<noteq> [] \<Longrightarrow> fits x ws \<Longrightarrow> ?thesis"
    by (cases ws) auto
qed simp_all

subsection \<open>A variable that can be read back\<close>

locale word_variable =
  fixes get :: "'s reading"
    and put :: "'s writing"
    and ready :: "'s \<Rightarrow> bool"
  assumes put_returns: "ready v \<Longrightarrow> \<exists>v'. put s v = Some v' \<and> ready v'"
    and put_get: "ready v \<Longrightarrow> s \<noteq> [] \<Longrightarrow> put s v = Some v' \<Longrightarrow> get v' = Some (Some s, v')"
begin

lemma put_words:
  assumes "ready v" "list_all plain_word ws" "ws \<noteq> []"
  shows "\<exists>v'. put (joinw ws) v = Some v' \<and> ready v' \<and> get v' = Some (Some (joinw ws), v')"
  using put_returns [OF assms(1), of "joinw ws"] put_get [OF assms(1), of "joinw ws"]
    joinw_nonempty [OF plain_nonempty [OF assms(2)] assms(3)] by auto

lemma word_step_refines:
  assumes "ready v" "get v = Some (Some (joinw ws), v)" "list_all plain_word ws" "ws \<noteq> []" "fits x ws"
  shows "\<exists>v'. word_step get put x v = Inr (Some (fst (list_step x ws)), v') \<and> ready v' \<and>
    get v' = Some (Some (joinw (snd (list_step x ws))), v')"
proof -
  note next_words = plain_list_step [OF assms(3,4,5)]
  obtain v' where v': "put (joinw (snd (list_step x ws))) v = Some v'" "ready v'"
      "get v' = Some (Some (joinw (snd (list_step x ws))), v')"
    using put_words [OF assms(1)] next_words by blast
  have ne: "joinw ws \<noteq> []" using joinw_nonempty [OF plain_nonempty [OF assms(3)] assms(4)] .
  have "word_step get put x v = Inr (Some (fst (list_step x ws)), v')"
  proof (cases x)
    case (Push w)
    have "m_s3cat (Some (joinw ws)) '' '' w = Some (joinw (ws @ [w]))"
      using ne joinw_snoc [OF assms(4), of w] by (simp add: m_s3cat_def m_3cat_def)
    then show ?thesis using Push v'(1) assms(2) by (simp add: push_word_def or_hang_def RETURN_MSTR_def)
  next
    case Pop
    then obtain us w where ws: "ws = us @ [w]" "us \<noteq> []" using assms(4,5) by (cases ws rule: rev_cases) (force)+
    have "CHR '' '' \<notin> set w" using assms(3) ws by (auto simp: plain_word_def list_all_iff risspace_def)
    from strrchr_last [OF this, of "joinw us"] have "strrchr (joinw ws) CHR '' '' = Some (CHR '' '' # w)"
      "take (length (joinw ws) - length (CHR '' '' # w)) (joinw ws) = joinw us"
      using joinw_snoc [OF ws(2), of w] ws(1) by simp_all
    then show ?thesis using Pop v'(1) assms(2) ne ws(1) by (simp add: pop_word_def or_hang_def)
  next
    case Shift
    then obtain w us where ws: "ws = w # us" "us \<noteq> []" using assms(4,5) by (cases ws) force+
    have "new_next_arg (joinw ws) = (Some w, joinw us)"
      using new_next_arg_plain(2) [of w "joinw us"] assms(3) ws by (simp add: joinw_Cons)
    then show ?thesis using Shift v'(1) assms(2) ws(1) by (simp add: shift_word_def or_hang_def RETURN_MSTR_def)
  next
    case (Unshift w)
    have w: "w \<noteq> []" using assms(5) Unshift by (auto simp: plain_word_def)
    have "m_s3cat_s (Some w) '' '' (Some (joinw ws)) = Some (joinw (w # ws))"
      using ne joinw_Cons [OF assms(4), of w] by (cases "joinw ws") (simp_all add: m_s3cat_s_def m_3cat_def)
    then show ?thesis using Unshift v'(1) assms(2) w by (simp add: unshift_word_def or_hang_def RETURN_MSTR_def)
  qed
  then show ?thesis using v' by blast
qed

lemma word_run_refines:
  "ready v \<Longrightarrow> get v = Some (Some (joinw ws), v) \<Longrightarrow> list_all plain_word ws \<Longrightarrow> ws \<noteq> [] \<Longrightarrow> all_fit xs ws \<Longrightarrow>
     \<exists>v'. word_run get put xs v = Inr (map Some (fst (list_run xs ws)), v') \<and> ready v' \<and>
       get v' = Some (Some (joinw (snd (list_run xs ws))), v')"
proof (induction xs arbitrary: v ws)
  case (Cons x xs)
  have f: "fits x ws" "all_fit xs (snd (list_step x ws))" using Cons.prems(5) by simp_all
  obtain v1 where v1: "word_step get put x v = Inr (Some (fst (list_step x ws)), v1)" "ready v1"
      "get v1 = Some (Some (joinw (snd (list_step x ws))), v1)"
    using word_step_refines [OF Cons.prems(1-4) f(1)] by blast
  have p: "list_all plain_word (snd (list_step x ws))" "snd (list_step x ws) \<noteq> []"
    using plain_list_step [OF Cons.prems(3,4) f(1)] by simp_all
  from Cons.IH [OF v1(2,3) p f(2)] show ?case using v1(1) by (auto split: prod.splits)
qed simp

end

subsection \<open>The variables of scripts\<close>

text \<open>A name without subscripts and colons, in a state in which the search for it ends.\<close>

definition var_ready :: "cstr \<Rightarrow> 'z script_vars_scheme \<Rightarrow> bool" where
  "var_ready nm v \<longleftrightarrow>
     (\<exists>d. inside [] (last_function_call_level v) d v) \<and> ordinary nm (last_function_call_level v) \<and>
     nm \<noteq> FUNCTION_RETURN \<and> nm \<noteq> [] \<and> last nm \<noteq> CHR ''.'' \<and> cat nm 0 \<noteq> CHR '':'' \<and>
     plain_name nm = nm \<and> fst (after_expando nm True) = []"

lemma ready_put:
  assumes "var_ready nm v"
  shows "\<exists>v'. put_var nm s v = Some v' \<and> var_ready nm v'"
proof -
  obtain d where i: "inside [] (last_function_call_level v) d v" using assms by (auto simp: var_ready_def)
  have "snd (scope (plain_name nm)) = nm" using assms unfolding var_ready_def scope_def by auto
  then obtain v' where v': "put_var nm s v = Some v'" "inside [] (last_function_call_level v) d v'"
    using inside_add_var [OF i, of nm s False] assms by (auto simp: var_ready_def)
  then have "last_function_call_level v' = last_function_call_level v" by (simp add: inside_def)
  then show ?thesis using v' assms by (auto simp: var_ready_def)
qed

lemma ready_get:
  assumes "var_ready nm v" "s \<noteq> []" "put_var nm s v = Some v'"
  shows "get_variable X nm v' = Some (Some s, v')"
  using assms by (intro read_after_assign [of v nm s False]) (auto simp: var_ready_def inside_def)

interpretation script_variable: word_variable "get_variable X nm" "put_var nm" "var_ready nm" for X nm
  by unfold_locales (auto intro: ready_put ready_get)

definition call_list_op :: "var_env \<Rightarrow> cstr \<Rightarrow> list_op \<Rightarrow> 'z script_vars_scheme \<Rightarrow> (cstr option \<times> 'z script_vars_scheme) result" where
  "call_list_op X nm x =
     (case x of
        Push w \<Rightarrow> function_push X (nm @ CHR '' '' # w)
      | Pop \<Rightarrow> function_pop X nm
      | Shift \<Rightarrow> function_shift X nm
      | Unshift w \<Rightarrow> function_unshift X (nm @ CHR '' '' # w))"

fun call_list_ops :: "var_env \<Rightarrow> cstr \<Rightarrow> list_op list \<Rightarrow> 'z script_vars_scheme \<Rightarrow> (cstr option list \<times> 'z script_vars_scheme) result" where
  "call_list_ops X nm [] v = Inr ([], v)"
| "call_list_ops X nm (x # xs) v =
     bnd (call_list_op X nm x v) (\<lambda>(r, v1). bnd (call_list_ops X nm xs v1) (\<lambda>(rs, v2). Inr (r # rs, v2)))"

lemma call_list_op_word_step:
  assumes "plain_word nm" "upper nm = nm"
  shows "call_list_op X nm x = word_step (get_variable X nm) (put_var nm) x"
  using str_arg_word [OF assms(1)] assms(2)
  by (cases x) (auto simp: call_list_op_def function_push_def function_pop_def function_shift_def function_unshift_def)

lemma call_list_ops_word_run:
  assumes "plain_word nm" "upper nm = nm"
  shows "call_list_ops X nm xs v = word_run (get_variable X nm) (put_var nm) xs v"
  by (induction xs arbitrary: v) (simp_all add: call_list_op_word_step [OF assms])

text \<open>
  C25: A variable is a list of words with two ends: any sequence of PUSH, POP, SHIFT and UNSHIFT on it
  returns what the same operations on a list return and leaves the words of the list in the variable, as long
  as the last word is not taken. The variable may be local, implied by a longer name, or global.
\<close>

theorem variable_is_deque:
  assumes "var_ready nm v" "plain_word nm" "get_variable X nm v = Some (Some (joinw ws), v)"
    and "list_all plain_word ws" "ws \<noteq> []" "all_fit xs ws"
  shows "\<exists>v'. call_list_ops X nm xs v = Inr (map Some (fst (list_run xs ws)), v') \<and>
    get_variable X nm v' = Some (Some (joinw (snd (list_run xs ws))), v')"
proof -
  have "upper nm = nm" using assms(1) plain_name_form [of nm] unfolding var_ready_def by (metis upper_idem)
  then show ?thesis
    using script_variable.word_run_refines [OF assms(1,3-6)] by (auto simp: call_list_ops_word_run [OF assms(2)])
qed

subsection \<open>Examples\<close>

text \<open>With two pairs of texts MSAR writes the result to the variable without a name, not to the one it was told.\<close>

definition one_global :: script_vars where
  "one_global = \<lparr>call_stack = [], last_function_call_level = - 1, globals = [''A'' \<mapsto> ''1'']\<rparr>"

lemma msar_loses_name:
  "function_sar sample_var_env ''r/1/2/A'' one_global = Inr (''2'', one_global\<lparr>globals := [''A'' \<mapsto> ''2'']\<rparr>) \<and>
   function_msar sample_var_env ''r/1/2/2/3/A'' one_global
    = Inr (''3'', one_global\<lparr>globals := [''A'' \<mapsto> ''1'', [] \<mapsto> ''3'']\<rparr>)"
proof -
  define f where "f = no_flags\<lparr>variable := True\<rparr>"
  have f: "variable f" "\<not> global f" "\<not> no_case f" by (simp_all add: f_def no_flags_def)
  have n: "plain_name ''A'' = ''A''" "plain_name [] = []" "fst (after_expando ''A'' True) = []" "fst (after_expando [] True) = []"
    by code_simp+
  have get: "get_variable sample_var_env ''A'' one_global = Some (Some ''1'', one_global)"
    by (simp add: get_variable_def variable_value_def n read_scope_def find_local_alias_def one_global_def)
  have put: "put_var ''A'' s one_global = Some (one_global\<lparr>globals := (globals one_global)(''A'' := Some s)\<rparr>)"
    "put_var [] s one_global = Some (one_global\<lparr>globals := (globals one_global)([] := Some s)\<rparr>)" if "s \<noteq> []" for s
    using that by (simp_all add: add_var_alias_def scope_def n find_local_alias_def one_global_def FUNCTION_RETURN_def)
  have p: "sar_parts ''r/1/2/A'' = Some (f, CHR ''/'', ''1'', ''2'', ''A'')"
    "sar_parts ''r/1/2/2/3/A'' = Some (f, CHR ''/'', ''1'', ''2'', ''2/3/A'')"
    by (simp_all add: sar_parts_def f_def empty_iff risspace_def cut_at_def strchr_at_def)
  have r: "replace_loop f ''1'' ''2'' [] ''1'' = Inr ''2''" "replace_loop f ''2'' ''3'' [] ''2'' = Inr ''3''"
    by (simp_all add: replace_loop.simps f finder_def replace_at_def)
  have m: "msar_loop f CHR ''/'' ''1'' ''2'' (Some ''2/3'') ''1'' = Inr (None, ''3'')"
    by (subst msar_loop.simps, simp add: r cut_at_def strchr_at_def, subst msar_loop.simps, simp add: r)
  have "function_sar sample_var_env ''r/1/2/A'' one_global = Inr (''2'', one_global\<lparr>globals := [''A'' \<mapsto> ''2'']\<rparr>)"
    using get put(1) [of "''2''"]
    by (simp add: function_sar_def p f text_or_variable_def or_hang_def r RETURN_MSTR_def sar_done_def) (simp add: one_global_def)
  moreover have "function_msar sample_var_env ''r/1/2/2/3/A'' one_global
    = Inr (''3'', one_global\<lparr>globals := [''A'' \<mapsto> ''1'', [] \<mapsto> ''3'']\<rparr>)"
    using get put(2) [of "''3''"]
    by (simp add: function_msar_def p f strrchr_def text_or_variable_def or_hang_def m RETURN_MSTR_def sar_done_def)
      (simp add: one_global_def)
  ultimately show ?thesis by blast
qed

lemma sample_ready: "var_ready ''A'' sample_vars"
proof -
  have "plain_name ''A'' = ''A''" "fst (after_expando ''A'' True) = []" by code_simp+
  moreover have "inside [] (- 1) 1 sample_vars"
    using sample_frames by (auto simp: inside_def bounded_at_def sample_vars_def less_Suc_eq)
  ultimately show ?thesis using sample_frames(3) by (auto simp: var_ready_def ordinary_def FUNCTION_RETURN_def)
qed

theorem variable_is_deque_witness:
  "\<exists>(v :: script_vars) v'. call_list_ops sample_var_env ''A'' [Push ''c'', Unshift ''z'', Pop, Shift] v
      = Inr ([Some ''a b c'', Some ''z a b c'', Some ''c'', Some ''z''], v') \<and>
    get_variable sample_var_env ''A'' v' = Some (Some ''a b'', v')"
proof -
  obtain v where v: "put_var ''A'' ''a b'' sample_vars = Some v" "var_ready ''A'' v"
    using ready_put [OF sample_ready] by blast
  have g: "get_variable sample_var_env ''A'' v = Some (Some (joinw [''a'', ''b'']), v)"
    using ready_get [OF sample_ready _ v(1)] by simp
  have p: "plain_word ''A''" "list_all plain_word [''a'', ''b'']" "[''a'', ''b''] \<noteq> []"
    "all_fit [Push ''c'', Unshift ''z'', Pop, Shift] [''a'', ''b'']"
    by (simp_all add: plain_word_def risspace_def)
  obtain v' where v': "call_list_ops sample_var_env ''A'' [Push ''c'', Unshift ''z'', Pop, Shift] v
      = Inr (map Some (fst (list_run [Push ''c'', Unshift ''z'', Pop, Shift] [''a'', ''b''])), v')"
    "get_variable sample_var_env ''A'' v' = Some (Some (joinw (snd (list_run [Push ''c'', Unshift ''z'', Pop, Shift] [''a'', ''b'']))), v')"
    using variable_is_deque [OF v(2) p(1) g p(2-4)] by blast
  have l: "list_run [Push ''c'', Unshift ''z'', Pop, Shift] [''a'', ''b''] = ([''a b c'', ''z a b c'', ''c'', ''z''], [''a'', ''b''])"
    by simp
  have "call_list_ops sample_var_env ''A'' [Push ''c'', Unshift ''z'', Pop, Shift] v
      = Inr ([Some ''a b c'', Some ''z a b c'', Some ''c'', Some ''z''], v')"
    using v'(1) unfolding l fst_conv list.map .
  moreover have "get_variable sample_var_env ''A'' v' = Some (Some ''a b'', v')"
    using v'(2) unfolding l snd_conv by simp
  ultimately show ?thesis by (intro exI [of _ v] exI [of _ v'] conjI)
qed

end
