(* ===== verification/Spec2Isabelle.thy ===== *)
theory Spec2Isabelle
  imports Prelude CString Args WildMatch LinkedList ScriptArray WordExtract Flood Timer HashArray AliasVars History ExprSafe
    ExprTree Reconnect ServerRemoval ExpandSpec LocalVars ScriptFlow
    VarLists
begin

text \<open>
  \<^bold>\<open>TekNap, a console client for Napster servers, as Isabelle definitions.\<close>

  The program is a single-threaded C client descended from BitchX and EPIC. Its main loop
  waits for the terminal, the servers and the timers; lines from the user and from scripts are
  expanded and split into words, commands and functions work on strings, and the state of the
  client (nicks of channels, variables, arrays of scripts, timers, the table of flooders)
  lives in linked lists, hashed arrays and other structures that all parts share. What is
  modelled is this core: the string functions and the data structures with the operations on
  them, each from its source, with the C behaviour that matters (signed characters, 32-bit
  overflow, pointers into buffers, aliasing of list nodes, accesses outside a block, loops
  that may not end).

  \<^bold>\<open>Conventions.\<close> A C string is a list of characters without its final NUL; \<open>cat s i\<close> reads
  it as the code does, with NUL at its end. A pointer into a string that a function returns is
  the rest of the string from there, or an index. An operation that can crash, read outside
  its data or run for ever has an option type, with \<open>None\<close> for that; loops whose end depends
  on their data are \<open>partial_function\<close>, so that not returning is \<open>None\<close> too, and that they do
  return is a theorem. Global variables are the fields of a state that is passed along; the
  clock, the settings, the hooks and the commands that scripts run are parameters.

  \<^bold>\<open>The theories.\<close>
  \<^item> \<open>Prelude\<close>: strings, the character classes of \<open>ctype.h\<close> and \<open>ircaux.h\<close>, and generic
    lemmas on lists.
  \<^item> \<open>CString\<close> (ircaux.c, compat.c, words.c): comparison with \<open>stricmp_table\<close>, searching,
    numbers, bounded copies, brackets, quoting, thousands separators, the byte encoding.
    Shown: the searches find the first and the last place, \<open>my_atol\<close> reads what \<open>ltoa\<close>
    prints, \<open>decode\<close> undoes \<open>encode\<close>, \<open>MatchingBracket\<close> returns a balanced text, and where
    \<open>slongcomma\<close> puts its commas.
  \<^item> \<open>Args\<close> (ircaux.c): \<open>next_arg\<close>, \<open>new_next_arg\<close>, \<open>splitw\<close> and \<open>unsplitw\<close>, with their round
    trip and the line of blanks on which \<open>new_next_arg\<close> makes no progress.
  \<^item> \<open>WildMatch\<close> (reg.c): the backtracking matcher as a state machine. Shown: for patterns of
    literals, \<open>?\<close> and \<open>*\<close> it decides the declarative meaning of the pattern. The loop has
    the bound 100000 of the source (\<open>SANITY\<close>); a potential function bounds the number of
    iterations in terms of the lengths, so the bound is enough for the inputs of the theorem.
  \<^item> \<open>LinkedList\<close> (list.c, p_nick of irchandler.c): the sorted lists on an explicit heap of
    nodes with \<open>next\<close> and \<open>prev\<close>. Shown: insertion and removal keep a well-linked sorted
    list and touch nothing else; a rename that puts a removed node at the head keeps a
    stale \<open>prev\<close>, after which a departure ties a node to itself.
  \<^item> \<open>ScriptArray\<close> (array.c): the arrays of scripts, the items and an index sorted by text.
    Shown: \<open>SETITEM\<close> and \<open>DELITEM\<close> refine updates of a map from names to item lists and keep
    every index a sorted permutation. The locale \<open>item_search\<close> states what the operations
    need of a search; its interpretation \<open>finder\<close> is the code's binary search.
  \<^item> \<open>WordExtract\<close> (words.c, ircaux.c): moving by words and taking a range of words.
  \<^item> \<open>Flood\<close> (flood.c): the table of senders. Shown: which message of a new sender makes the
    hook fire, and the exact condition under which the freed table is used. The search for a
    free place makes at most \<open>users + 1\<close> steps, which visits every entry.
  \<^item> \<open>Timer\<close> (timer.c): the pending timers. The locale \<open>timer_queue\<close> states the law of
    scheduling; \<open>pending\<close> interprets it on \<open>schedule_timer\<close>. Shown: order and names are
    kept, \<open>ExecuteTimers\<close> leaves no timer due and ends when no timer repeats for ever, and
    \<open>delete_all_timers\<close> never returns inside a timer.
  \<^item> \<open>HashArray\<close> (alist.c): resizeable arrays of named items that are searched by a hash of
    four characters and then by name, with the block of pointers explicit. The locale
    \<open>item_store\<close> states what the users of an array rely on; \<open>hashed\<close> interprets it on the
    operations of alist.c. Shown: the search finds the items with a prefix, additions and
    removals refine the update of a map while the block is large enough, additions alone
    always find it large enough, removals in between can make it too small.
  \<^item> \<open>AliasVars\<close> (alias.c): the global variables with their cache, a client of
    \<open>item_store\<close>. Shown: the cache is invisible and assignments change one variable.

  \<^item> \<open>History\<close> (history.c): the list of the latest commands with the pointers that browsing
    and searching leave in it. The step relation \<open>history_step\<close> collects what the client
    does with it. Shown: the latest lines are kept, browsing is safe in every reachable state
    and reversible in a circular history; a search that goes on later may follow a freed node.

  \<^item> \<open>ExprToken\<close>, \<open>ExprOp\<close>, \<open>ExprLex\<close>, \<open>ExprParse\<close> (expr2.c, parts of alias.c and ircaux.c): the
    evaluator \<open>matheval\<close> of the expressions of scripts, with its table of tokens that are
    converted on demand, the operand stack, the operators, the lexer and the shift-reduce parser. The
    rest of the client and the arithmetic of \<open>double\<close> are the parameter \<open>env\<close>; a call of the client
    that does not come back is \<open>None\<close>, which makes the evaluation \<open>NoReturn\<close>. The parser has fuel, three
    units more than the text has characters.
  \<^item> \<open>ExprSafe\<close>: the invariant of the evaluator for every text. Shown: the fuel is enough and no
    panic is reached, an evaluation returns when its client does and the text has none of the operators that may
    fail to, the tables stay in bounds, what is short-circuited has no effect but on the empty name unless
    it assigns to the implied operand; \<open>&&=\<close> does not short-circuit, and a conditional in the middle of
    another one needs parentheses.
  \<^item> \<open>ExprTree\<close>: the specification of the evaluator. Expressions are trees, \<open>wf\<close> says which
    parentheses their precedences demand, \<open>unparse\<close> is their text and \<open>run\<close> evaluates them by
    recursion; on such texts the parser does what \<open>run\<close> does.
  \<^item> \<open>NameList\<close>, \<open>Channels\<close> (napster.c, parts of server.c, window.c and commands.c): the
    channels of the windows with their members, and the handlers of the messages of the server about
    them. \<open>NameList\<close> shows that the lists of list.c are sequences, and finite maps when their names
    are in order. Hooks are the parameter \<open>nap_env\<close>.
  \<^item> \<open>ChannelRoster\<close>, \<open>Reconnect\<close>: a roster, the finite map from channels to members, is what the
    windows together stand for; the handlers implement the messages on it but for a join that gets lost in the window of another server, because
    the traversal of the windows does not end with NULL; they do not crash for sane messages, and a reconnection
    takes the windows to the server and brings the channels back.

  \<^item> \<open>ServerList\<close>, \<open>TabKeys\<close>, \<open>ServerRemoval\<close> (server.c): the array of servers with its searches,
    the parsing of descriptions, the file of saved servers, the flags (the locale \<open>server_flag\<close> with
    an interpretation for each pair of accessors), the recent messages behind the tab key, and the
    removal of a server. Shown: saved servers are read back as they were written (no nick or password comes back as \<open>(null)\<close>), what is added is found, the tab
    key visits all matching nicks within the limit, windows follow their servers through a removal;
    the window that waits for a reconnection does not, and the next server loses its messages.

  \<^item> \<open>Expand\<close>, \<open>ExpandSpec\<close> (expr.c): the expansion of the texts of scripts. What it asks from the rest
    of the client is the parameter \<open>exp_env\<close>, whose functions, variables and expressions may crash or not
    return. Fuel bounds the depth of the calls and the steps of the
    loops. Shown: expanding a text without parentheses ends, with fuel linear in its length, when they return; quoted
    text is not changed; widths are kept; \<open>$($*)\<close> may never return.
  \<^item> \<open>LocalVars\<close> (alias.c): the stack of frames of a running script with their local variables, the
    lookup through parents, assignments, argument lists and calls. Shown: a script leaves the variables
    of its caller alone, what is assigned is read back, and a block in an expression inside of a
    frame never returns.

  \<^item> \<open>Script\<close> (commands.c, if.c): the interpreter of scripts: lines and commands, the control commands,
    the exceptions of \<open>BREAK\<close>, \<open>CONTINUE\<close> and \<open>RETURN\<close>, aliases. Its state extends that of
    \<open>LocalVars\<close>; expressions, the other commands and what is sent are the parameter \<open>script_env\<close>. Each
    function takes those it calls as arguments, and \<open>parse_line\<close> closes the recursion with fuel for its depth
    and its loops.
  \<^item> \<open>ScriptLines\<close>, \<open>ScriptFlow\<close>: a line runs its commands in order (the fuel is two units more than the
    length of the line); \<open>IF\<close> runs the part of the first condition that holds; \<open>FE\<close> visits its words in
    groups; \<open>WHILE\<close> has a rule of total correctness, in which the variant bounds the fuel; all lines keep
    the counters of what is caught, with \<open>DO\<close> only the sum of those of \<open>CONTINUE\<close> and \<open>RETURN\<close>. Errors: an open brace takes off the frame of the
    caller, and \<open>FE\<close> may lose its only variable and never end.
  \<^item> \<open>TextFuncs\<close>, \<open>VarFuncs\<close> (functions.c): the built-in functions of scripts on texts and on variables, the
    macros that take their arguments, and the table of functions. A function that may not return has a
    \<open>result\<close>; \<open>qsort\<close> and the other functions that \<open>call_function\<close> reaches are parameters.
  \<^item> \<open>TextWords\<close>, \<open>VarLists\<close>: the functions on words are operations on lists of words (updating, cutting at
    a match, dividing by a pattern, sets of words, rows of numbers). The locale \<open>word_variable\<close> states what the
    operations on a variable rely on; \<open>script_variable\<close> interprets it on the variables of \<open>LocalVars\<close>, which makes
    each of them a list of words with two ends. Two blanks at the end of a text make \<open>PATTERN\<close> and \<open>FILTER\<close> hang.
  \<^item> \<open>CommandTable\<close> (commands.c): the table of the built-in commands for each build, and that its search
    finds what starts with the text.

  \<^bold>\<open>Names.\<close> Definitions have the names of the C functions and types; helpers that stand for a
  loop or a branch inside a function are named after what they do, and the manifest gives the
  lines they model. \<open>iname\<close>, \<open>amax\<close> and the like are fields whose names would clash.

  \<^bold>\<open>Not modelled.\<close> The user interface (window.c, screen.c, term.c, status.c, input.c, keys.c)
  and the output of texts, which are about the terminal; sockets, file transfer and the
  other protocol handlers (napster.c, network.c, send.c), the functions of scripts on windows, files, servers,
  regular expressions and options, the hooks and the commands that talk to servers (rest of functions.c, hook.c, most of commands.c), media players, the debugging aids and the portability layer. Statistics that nothing reads are left out.
\<close>

end
